(* ===== verification/Prelude.thy ===== *)
theory Prelude
  imports Complex_Main "HOL-Library.AList"
begin

text \<open>
  Shared vocabulary of the development.

  \<^item> \<open>('k, 'v) dict\<close>: a Python \<open>dict\<close>. Python dictionaries keep insertion order, and several
    loops of the program iterate over one with a limit, so the model is an association list with
    one entry per key: reading is \<^const>\<open>map_of\<close>, \<open>d[k] = v\<close> is \<^const>\<open>AList.update\<close> (in place when
    the key exists, at the end otherwise), \<open>d.pop(k, None)\<close> is \<^const>\<open>AList.delete\<close>.
  \<^item> \<open>datetime\<close>: an aware UTC \<open>datetime\<close> as its microseconds since the epoch, the resolution of
    Python's type; \<open>seconds\<close>: a duration or clock reading given as a Python \<open>float\<close>, taken as the
    exact rational it denotes (no rounding of floating-point arithmetic is modelled).
  \<^item> \<open>json\<close>: the values that payloads, metadata and response bodies hold.
  \<^item> \<open>nat_str\<close>, \<open>int_str\<close>: \<open>str()\<close> of an integer, with the lemmas that it is injective.
\<close>

named_theorems ops_simps "definitions of the program's operations, unfolded to evaluate them"
named_theorems inv_defs "definitions of the components' invariants"
named_theorems dict_simps "reading after writing for dictionaries"

section \<open>Time\<close>

type_synonym datetime = int
type_synonym seconds = rat

definition us_per_s :: int where
  "us_per_s = 1000000"

text \<open>\<open>timedelta(seconds=n)\<close> for an integer \<open>n\<close>.\<close>

definition timedelta :: "int \<Rightarrow> int" where
  "timedelta n = n * us_per_s"

text \<open>
  \<open>timedelta(seconds=x)\<close> for a float \<open>x\<close>: rounded to the nearest microsecond, ties to the even
  one, as the \<open>datetime\<close> module documents.
\<close>

definition round_half_even :: "rat \<Rightarrow> int" where
  "round_half_even x =
     (let f = floor x; r = x - of_int f in
      if r < 1/2 then f else if r > 1/2 then f + 1 else if even f then f else f + 1)"

definition timedelta_float :: "seconds \<Rightarrow> int" where
  "timedelta_float x = round_half_even (x * of_int us_per_s)"

text \<open>\<open>int(x)\<close> of a float truncates towards zero.\<close>

definition py_trunc :: "rat \<Rightarrow> int" where
  "py_trunc x = (if x < 0 then ceiling x else floor x)"

section \<open>Values\<close>

datatype json =
    JNull
  | JBool bool
  | JInt int
  | JFloat rat
  | JStr string
  | JList "json list"
  | JObj "(string \<times> json) list"

text \<open>\<open>bool(v)\<close>.\<close>

fun truthy :: "json \<Rightarrow> bool" where
  "truthy JNull = False"
| "truthy (JBool b) = b"
| "truthy (JInt i) = (i \<noteq> 0)"
| "truthy (JFloat x) = (x \<noteq> 0)"
| "truthy (JStr s) = (s \<noteq> '''')"
| "truthy (JList vs) = (vs \<noteq> [])"
| "truthy (JObj kvs) = (kvs \<noteq> [])"

text \<open>A Python \<open>float\<close> including the special values that \<open>float()\<close> of a string can produce.\<close>

datatype pyfloat = Fin rat | PInf | NInf | NaN

type_synonym body = "(string \<times> json) list"
type_synonym ('k, 'v) dict = "('k \<times> 'v) list"

abbreviation dict_get :: "('k, 'v) dict \<Rightarrow> 'k \<Rightarrow> 'v option" where
  "dict_get d k \<equiv> map_of d k"

abbreviation dict_set :: "('k, 'v) dict \<Rightarrow> 'k \<Rightarrow> 'v \<Rightarrow> ('k, 'v) dict" where
  "dict_set d k v \<equiv> AList.update k v d"

abbreviation dict_pop :: "('k, 'v) dict \<Rightarrow> 'k \<Rightarrow> ('k, 'v) dict" where
  "dict_pop d k \<equiv> AList.delete k d"

abbreviation dict_keys :: "('k, 'v) dict \<Rightarrow> 'k list" where
  "dict_keys d \<equiv> map fst d"

abbreviation dict_wf :: "('k, 'v) dict \<Rightarrow> bool" where
  "dict_wf d \<equiv> distinct (map fst d)"

section \<open>\<open>str()\<close> of an integer\<close>

definition digit_char :: "nat \<Rightarrow> char" where
  "digit_char d = char_of (48 + d)"

fun nat_str :: "nat \<Rightarrow> string" where
  "nat_str n = (if n < 10 then [digit_char n] else nat_str (n div 10) @ [digit_char (n mod 10)])"

declare nat_str.simps [simp del]

definition int_str :: "int \<Rightarrow> string" where
  "int_str i = (if i < 0 then CHR ''-'' # nat_str (nat (- i)) else nat_str (nat i))"

text \<open>The same digits by recursion on integers, which the evaluator keeps in binary.\<close>

function pos_str :: "int \<Rightarrow> string" where
  "pos_str i = (if i < 10 then [digit_char (nat i)] else pos_str (i div 10) @ [digit_char (nat (i mod 10))])"
  by auto
termination by (relation "measure nat") auto

declare pos_str.simps [simp del]

definition str_nat :: "string \<Rightarrow> nat" where
  "str_nat s = foldl (\<lambda>acc c. 10 * acc + (of_char c - 48)) 0 s"

section \<open>Lemmas on dictionaries\<close>

declare map_of_eq_Some_iff [simp del] Some_eq_map_of_iff [simp del]

lemma dict_get_set [simp, dict_simps]:
  "map_of (AList.update k v d) k' = (if k = k' then Some v else map_of d k')"
  by (simp add: update_conv')

lemma dict_get_pop [simp, dict_simps]:
  "map_of (AList.delete k d) k' = (if k = k' then None else map_of d k')"
  by (simp add: delete_conv')

lemma dict_wf_set [simp]: "dict_wf d \<Longrightarrow> dict_wf (AList.update k v d)"
  by (rule distinct_update)

lemma dict_wf_pop [simp]: "dict_wf d \<Longrightarrow> dict_wf (AList.delete k d)"
  by (rule distinct_delete)

lemma dict_wf_filter [simp]: "dict_wf d \<Longrightarrow> dict_wf (filter P d)"
  by (simp add: distinct_map_filter)

lemma dict_get_in_set: "dict_wf d \<Longrightarrow> (k, v) \<in> set d \<longleftrightarrow> map_of d k = Some v"
  by (simp add: map_of_eq_Some_iff)

lemma dict_get_filter:
  assumes "dict_wf d"
  shows "map_of (filter P d) k = (case map_of d k of
           Some v \<Rightarrow> if P (k, v) then Some v else None | None \<Rightarrow> None)"
  using assms
proof (induction d)
  case (Cons p d)
  obtain k' v' where p: "p = (k', v')" by (cases p)
  have "map_of d k' = None" if "k' \<notin> fst ` set d" using that by (simp add: map_of_eq_None_iff)
  with Cons show ?case by (auto simp: p map_of_eq_None_iff split: option.splits)
qed simp

lemma dict_set_fresh: "map_of d k = None \<Longrightarrow> AList.update k v d = d @ [(k, v)]"
  by (induction d) (auto split: if_splits)

lemma dict_set_existing:
  "\<lbrakk>dict_wf d; k \<in> fst ` set d\<rbrakk> \<Longrightarrow>
     AList.update k v d = map (\<lambda>(k', x). (k', if k' = k then v else x)) d"
proof (induction d)
  case (Cons p d)
  obtain k' x where p: "p = (k', x)" by (cases p)
  show ?case
  proof (cases "k' = k")
    case True
    with Cons.prems p have "map (\<lambda>(k', x). (k', if k' = k then v else x)) d = d"
      by (intro map_idI) force
    with True p show ?thesis by simp
  next
    case False
    with Cons p show ?thesis by auto
  qed
qed simp

lemma dict_get_Some_key: "map_of d k = Some v \<Longrightarrow> k \<in> fst ` set d"
  by (metis domI dom_map_of_conv_image_fst)

lemma dict_keys_set: "k \<in> fst ` set d \<Longrightarrow> map fst (AList.update k v d) = map fst d"
  by (simp add: update_keys)

lemma dict_length_set:
  "length (AList.update k v d) = length d + (if k \<in> fst ` set d then 0 else 1)"
  by (induction d) (auto split: if_splits)

lemma dict_keys_where:
  assumes "dict_wf d"
  shows "{k. \<exists>v. map_of d k = Some v \<and> Q v} = set (map fst (filter (\<lambda>(_, v). Q v) d))"
    and "distinct (map fst (filter (\<lambda>(_, v). Q v) d))"
proof -
  show "{k. \<exists>v. map_of d k = Some v \<and> Q v} = set (map fst (filter (\<lambda>(_, v). Q v) d))"
    using dict_get_in_set [OF assms] by (force simp: image_iff)
  show "distinct (map fst (filter (\<lambda>(_, v). Q v) d))" using assms by (rule distinct_map_filter)
qed

lemma fold_dict_pop: "fold (\<lambda>k d. AList.delete k d) ks d = filter (\<lambda>(k, _). k \<notin> set ks) d"
proof (induction ks arbitrary: d)
  case (Cons k ks)
  have "AList.delete k d = filter (\<lambda>(k', _). k \<noteq> k') d"
    by (simp add: AList.delete_eq case_prod_beta')
  moreover have "filter (\<lambda>(k', _). k' \<notin> set ks) (filter (\<lambda>(k', _). k \<noteq> k') d) =
      filter (\<lambda>(k', _). k' \<notin> set (k # ks)) d"
    unfolding filter_filter by (rule filter_cong) auto
  ultimately show ?case using Cons by simp
qed simp

lemma card_take_distinct:
  "distinct xs \<Longrightarrow> card (set (take n xs)) = min n (card (set xs))"
  by (simp add: distinct_card)

section \<open>Lemmas on \<open>str()\<close>\<close>

lemma nat_str_nonempty [simp]: "nat_str n \<noteq> []"
  by (subst nat_str.simps) simp

lemma of_char_digit: "d < 10 \<Longrightarrow> (of_char (digit_char d) :: nat) = 48 + d"
  by (simp add: digit_char_def)

lemma str_nat_snoc: "d < 10 \<Longrightarrow> str_nat (s @ [digit_char d]) = 10 * str_nat s + d"
  by (simp add: str_nat_def of_char_digit)

lemma str_nat_nat_str [simp]: "str_nat (nat_str n) = n"
proof (induction n rule: nat_str.induct)
  case (1 n)
  show ?case
  proof (cases "n < 10")
    case True
    then show ?thesis by (simp add: nat_str.simps [of n] str_nat_def of_char_digit)
  next
    case False
    with "1.IH" show ?thesis by (simp add: nat_str.simps [of n] str_nat_snoc)
  qed
qed

lemma nat_str_inject [simp]: "nat_str m = nat_str n \<longleftrightarrow> m = n"
  by (metis str_nat_nat_str)

lemma digit_char_not_special: "d < 10 \<Longrightarrow> digit_char d \<notin> {CHR ''-'', CHR '':''}"
proof -
  assume "d < 10"
  then have "(of_char (digit_char d) :: nat) \<notin> {of_char CHR ''-'', of_char CHR '':''}"
    by (simp add: of_char_digit)
  then show ?thesis by auto
qed

lemma nat_str_chars: "c \<in> set (nat_str n) \<Longrightarrow> \<exists>d < 10. c = digit_char d"
proof (induction n rule: nat_str.induct)
  case (1 n)
  have "\<exists>d < 10. digit_char (n mod 10) = digit_char d" by (rule exI [of _ "n mod 10"]) simp
  with 1 show ?case by (cases "n < 10") (auto simp: nat_str.simps [of n])
qed

lemma nat_str_not_special: "CHR ''-'' \<notin> set (nat_str n) \<and> CHR '':'' \<notin> set (nat_str n)"
proof (intro conjI notI)
  show False if "CHR ''-'' \<in> set (nat_str n)"
    using nat_str_chars [OF that] digit_char_not_special by force
  show False if "CHR '':'' \<in> set (nat_str n)"
    using nat_str_chars [OF that] digit_char_not_special by force
qed

lemma int_str_inject [simp]: "int_str i = int_str j \<longleftrightarrow> i = j"
proof
  have minus: "nat_str n \<noteq> CHR ''-'' # s" for n s
    using nat_str_not_special [of n] by (metis list.set_intros(1))
  assume "int_str i = int_str j"
  then show "i = j"
    by (auto simp: int_str_def minus minus [symmetric] split: if_splits)
qed simp

lemma pos_str_nat: "0 \<le> i \<Longrightarrow> pos_str i = nat_str (nat i)"
proof (induction i rule: pos_str.induct)
  case (1 i)
  show ?case
  proof (cases "i < 10")
    case True
    then show ?thesis by (simp add: pos_str.simps [of i] nat_str.simps [of "nat i"])
  next
    case False
    with 1 show ?thesis
      by (simp add: pos_str.simps [of i] nat_str.simps [of "nat i"] nat_div_distrib nat_mod_distrib)
  qed
qed

lemma int_str_code [code]: "int_str i = (if i < 0 then CHR ''-'' # pos_str (- i) else pos_str i)"
  by (simp add: int_str_def pos_str_nat)

lemma int_str_nonempty [simp]: "int_str i \<noteq> []"
  by (simp add: int_str_def)

lemma int_str_no_colon: "CHR '':'' \<notin> set (int_str i)"
  using nat_str_not_special by (auto simp: int_str_def)

lemma int_str_no_dot: "CHR ''.'' \<notin> set (int_str i)"
proof -
  have "digit_char d \<noteq> CHR ''.''" if "d < 10" for d
  proof -
    have "(of_char (digit_char d) :: nat) \<noteq> of_char CHR ''.''" using that by (simp add: of_char_digit)
    then show ?thesis by auto
  qed
  then have "CHR ''.'' \<notin> set (nat_str n)" for n using nat_str_chars [of "CHR ''.''" n] by metis
  then show ?thesis by (simp add: int_str_def)
qed

section \<open>Lemmas on time\<close>

lemma us_per_s_pos [simp]: "0 < us_per_s" "0 \<le> us_per_s" "us_per_s \<noteq> 0"
  by (simp_all add: us_per_s_def)

lemma div_bounds: "0 < (w::int) \<Longrightarrow> e div w * w \<le> e \<and> e < (e div w + 1) * w"
proof -
  assume w: "0 < w"
  have "(e div w + 1) * w = e div w * w + w" by (simp add: distrib_right)
  with div_mult_mod_eq [of e w] pos_mod_bound [OF w, of e] pos_mod_sign [OF w, of e]
  show ?thesis by linarith
qed

lemma round_half_even_mono_0: "0 \<le> x \<Longrightarrow> 0 \<le> round_half_even x"
proof -
  assume "0 \<le> x"
  then have "0 \<le> floor x" by simp
  then show ?thesis by (auto simp: round_half_even_def Let_def)
qed

lemma timedelta_float_nonneg: "0 \<le> x \<Longrightarrow> 0 \<le> timedelta_float x"
  unfolding timedelta_float_def us_per_s_def by (rule round_half_even_mono_0) simp

lemma round_half_even_le: "x \<le> of_int n \<Longrightarrow> round_half_even x \<le> n"
proof -
  assume x: "x \<le> of_int n"
  show ?thesis
  proof (cases "floor x = n")
    case True
    then have "x - of_int (floor x) \<le> 0" using x by simp
    with True show ?thesis by (simp add: round_half_even_def Let_def)
  next
    case False
    then have "floor x < n" using x floor_le_iff [of x n] by linarith
    then show ?thesis by (auto simp: round_half_even_def Let_def)
  qed
qed

lemma timedelta_float_le: "x \<le> of_int n \<Longrightarrow> timedelta_float x \<le> timedelta n"
  unfolding timedelta_float_def timedelta_def us_per_s_def by (rule round_half_even_le) simp

section \<open>The last occurrence of an element\<close>

lemma last_split: "u @ x # v = u' @ x # v' \<Longrightarrow> x \<notin> set v \<Longrightarrow> x \<notin> set v' \<Longrightarrow> u = u' \<and> v = v'"
  by (auto simp: append_eq_append_conv2 append_eq_Cons_conv Cons_eq_append_conv)

end
