(* ===== verification/Py_Strings.thy ===== *)
theory Py_Strings
  imports Prelude
begin

text \<open>
  The operations of Python's \<open>str\<close> and \<open>float\<close> that the program uses, on ASCII text: \<open>strip\<close>,
  \<open>lower\<close>, \<open>upper\<close>, \<open>split(sep)\<close>, \<open>sep.join\<close>, \<open>startswith\<close>, substring test and \<open>float(s)\<close>.
\<close>

section \<open>Characters\<close>

definition is_space :: "char \<Rightarrow> bool" where
  "is_space c \<longleftrightarrow> (of_char c :: nat) \<in> {9, 10, 11, 12, 13, 28, 29, 30, 31, 32}"

definition is_digit :: "char \<Rightarrow> bool" where
  "is_digit c \<longleftrightarrow> 48 \<le> (of_char c :: nat) \<and> (of_char c :: nat) \<le> 57"

definition digit_val :: "char \<Rightarrow> nat" where
  "digit_val c = of_char c - 48"

definition lower_char :: "char \<Rightarrow> char" where
  "lower_char c =
     (if 65 \<le> (of_char c :: nat) \<and> (of_char c :: nat) \<le> 90 then char_of ((of_char c :: nat) + 32) else c)"

definition upper_char :: "char \<Rightarrow> char" where
  "upper_char c =
     (if 97 \<le> (of_char c :: nat) \<and> (of_char c :: nat) \<le> 122 then char_of ((of_char c :: nat) - 32) else c)"

section \<open>Strings\<close>

definition str_lower :: "string \<Rightarrow> string" where
  "str_lower s = map lower_char s"

definition str_upper :: "string \<Rightarrow> string" where
  "str_upper s = map upper_char s"

definition strip :: "string \<Rightarrow> string" where
  "strip s = rev (dropWhile is_space (rev (dropWhile is_space s)))"

fun split_on :: "char \<Rightarrow> string \<Rightarrow> string list" where
  "split_on sep [] = [[]]"
| "split_on sep (c # cs) =
     (if c = sep then [] # split_on sep cs
      else case split_on sep cs of [] \<Rightarrow> [[c]] | w # ws \<Rightarrow> (c # w) # ws)"

fun join :: "string \<Rightarrow> string list \<Rightarrow> string" where
  "join sep [] = []"
| "join sep [w] = w"
| "join sep (w # ws) = w @ sep @ join sep ws"

fun starts_with :: "string \<Rightarrow> string \<Rightarrow> bool" where
  "starts_with [] s = True"
| "starts_with (p # ps) [] = False"
| "starts_with (p # ps) (c # cs) = (p = c \<and> starts_with ps cs)"

definition ends_with :: "string \<Rightarrow> string \<Rightarrow> bool" where
  "ends_with p s = starts_with (rev p) (rev s)"

text \<open>\<open>p in s\<close> for strings.\<close>

fun contains :: "string \<Rightarrow> string \<Rightarrow> bool" where
  "contains p [] = (p = [])"
| "contains p (c # cs) = (starts_with p (c # cs) \<or> contains p cs)"

text \<open>\<open>[item.strip() for item in value.split(",") if item.strip()]\<close>, used for every CSV setting.\<close>

definition split_csv :: "string \<Rightarrow> string list" where
  "split_csv value = map strip (filter (\<lambda>item. strip item \<noteq> []) (split_on CHR '','' value))"

section \<open>\<open>repr(s)\<close>\<close>

text \<open>Single quotes unless the text has one and no double quote; control characters are escaped.\<close>

definition hex_digit :: "nat \<Rightarrow> char" where
  "hex_digit n = (if n < 10 then char_of (48 + n) else char_of (87 + n))"

definition repr_char :: "char \<Rightarrow> char \<Rightarrow> string" where
  "repr_char q c =
     (let n = (of_char c :: nat) in
      if c = q \<or> n = 92 then [CHR 0x5C, c]
      else if n = 10 then [CHR 0x5C, CHR ''n''] else if n = 13 then [CHR 0x5C, CHR ''r'']
      else if n = 9 then [CHR 0x5C, CHR ''t'']
      else if n < 32 \<or> n = 127 then [CHR 0x5C, CHR ''x'', hex_digit (n div 16), hex_digit (n mod 16)]
      else [c])"

definition repr_str :: "string \<Rightarrow> string" where
  "repr_str s =
     (let q = (if CHR 0x27 \<in> set s \<and> CHR 0x22 \<notin> set s then CHR 0x22 else CHR 0x27) in
      [q] @ concat (map (repr_char q) s) @ [q])"

section \<open>\<open>float(s)\<close>\<close>

fun take_digits :: "string \<Rightarrow> nat list \<times> string" where
  "take_digits [] = ([], [])"
| "take_digits (c # cs) =
     (if is_digit c then (let (ds, r) = take_digits cs in (digit_val c # ds, r))
      else if c = CHR ''_'' \<and> cs \<noteq> [] \<and> is_digit (hd cs) then take_digits cs
      else ([], c # cs))"

definition digit_part :: "string \<Rightarrow> nat list \<times> string" where
  "digit_part s = (if s \<noteq> [] \<and> is_digit (hd s) then take_digits s else ([], s))"

definition digits_value :: "nat list \<Rightarrow> rat" where
  "digits_value ds = foldl (\<lambda>acc d. 10 * acc + of_nat d) 0 ds"

definition split_sign :: "string \<Rightarrow> bool \<times> string" where
  "split_sign s = (case s of
       c # cs \<Rightarrow> if c = CHR ''-'' then (True, cs) else if c = CHR ''+'' then (False, cs) else (False, s)
     | [] \<Rightarrow> (False, s))"

definition exponent_part :: "string \<Rightarrow> int option" where
  "exponent_part s = (case s of
       [] \<Rightarrow> Some 0
     | c # cs \<Rightarrow>
         if lower_char c \<noteq> CHR ''e'' then None
         else (let (neg, r) = split_sign cs; (ds, rest) = digit_part r in
               if ds = [] \<or> rest \<noteq> [] then None
               else Some (let n = floor (digits_value ds) in if neg then - n else n)))"

definition decimal_value :: "string \<Rightarrow> rat option" where
  "decimal_value s =
     (let (ip, r1) = digit_part s;
          (fp, r2) = (if r1 \<noteq> [] \<and> hd r1 = CHR ''.'' then digit_part (tl r1) else ([], r1)) in
      if ip = [] \<and> fp = [] then None
      else case exponent_part r2 of
             None \<Rightarrow> None
           | Some e \<Rightarrow> Some ((digits_value ip + digits_value fp / 10 ^ length fp) * (10 powi e)))"

definition py_float_str :: "string \<Rightarrow> pyfloat option" where
  "py_float_str s =
     (let (neg, r) = split_sign (strip s); w = str_lower r in
      if w = ''inf'' \<or> w = ''infinity'' then Some (if neg then NInf else PInf)
      else if w = ''nan'' then Some NaN
      else map_option (\<lambda>x. Fin (if neg then - x else x)) (decimal_value r))"

text \<open>\<open>int(s)\<close> of a decimal string; \<open>None\<close> where it raises.\<close>

definition py_int_str :: "string \<Rightarrow> int option" where
  "py_int_str s =
     (let (neg, r) = split_sign (strip s); (ds, rest) = digit_part r in
      if ds = [] \<or> rest \<noteq> [] then None
      else Some (let n = floor (digits_value ds) in if neg then - n else n))"

lemmas py_float_defs [ops_simps] =
  py_float_str_def decimal_value_def exponent_part_def split_sign_def digits_value_def
  digit_part_def is_digit_def digit_val_def lower_char_def str_lower_def strip_def is_space_def

section \<open>Lemmas\<close>

lemma trim_idem:
  fixes P :: "char \<Rightarrow> bool"
  shows "rev (dropWhile P (rev (dropWhile P (rev (dropWhile P (rev (dropWhile P s))))))) = rev (dropWhile P (rev (dropWhile P s)))"
proof -
  have 1: "dropWhile P (dropWhile P xs) = dropWhile P xs" for P :: "char \<Rightarrow> bool" and xs
    by (induction xs) auto
  have 2: "dropWhile P (rev (dropWhile P (rev (dropWhile P xs)))) = rev (dropWhile P (rev (dropWhile P xs)))"
    for P :: "char \<Rightarrow> bool" and xs
  proof (cases "dropWhile P (rev (dropWhile P xs)) = []")
    case False
    obtain ys where ys: "dropWhile P xs = ys" by simp
    with False have "ys \<noteq> []" by auto
    with ys have hd: "\<not> P (hd ys)" using hd_dropWhile by blast
    obtain zs where zs: "rev (dropWhile P (rev ys)) @ zs = ys"
      by (metis rev_append rev_rev_ident takeWhile_dropWhile_id)
    with False ys have "hd (rev (dropWhile P (rev ys))) = hd ys"
      by (metis hd_append2 rev_is_Nil_conv)
    with hd False ys show ?thesis
      by (cases "rev (dropWhile P (rev ys))") auto
  next
    case True
    then show ?thesis by (metis dropWhile.simps(1) rev.simps(1))
  qed
  show ?thesis by (simp add: 2 1)
qed

lemma strip_idem [simp]: "strip (strip s) = strip s"
  unfolding strip_def by (rule trim_idem)

lemma split_on_nonempty [simp]: "split_on sep s \<noteq> []"
  by (induction s) (auto split: list.splits)

lemma join_split_on: "join [sep] (split_on sep s) = s"
proof (induction s)
  case (Cons c s)
  obtain w ws where ws: "split_on sep s = w # ws" by (cases "split_on sep s") auto
  with Cons show ?case by (cases ws) auto
qed simp

lemma split_on_no_sep: "w \<in> set (split_on sep s) \<Longrightarrow> sep \<notin> set w"
  by (induction s arbitrary: w) (auto split: list.splits if_splits)

lemma split_on_append_sep: "sep \<notin> set w \<Longrightarrow> split_on sep (w @ sep # s) = w # split_on sep s"
  by (induction w) auto

lemma split_on_single: "sep \<notin> set w \<Longrightarrow> split_on sep w = [w]"
  by (induction w) auto

lemma split_on_join:
  assumes "ws \<noteq> []" and "\<And>w. w \<in> set ws \<Longrightarrow> sep \<notin> set w"
  shows "split_on sep (join [sep] ws) = ws"
  using assms
proof (induction ws)
  case (Cons w ws)
  then show ?case by (cases ws) (auto simp: split_on_append_sep split_on_single)
qed simp

lemma starts_with_append [simp]: "starts_with p (p @ s)"
  by (induction p) auto

lemma starts_with_iff: "starts_with p s \<longleftrightarrow> (\<exists>r. s = p @ r)"
  by (induction p s rule: starts_with.induct) auto

lemma contains_iff: "contains p s \<longleftrightarrow> (\<exists>a b. s = a @ p @ b)"
proof (induction s)
  case (Cons c s)
  note IH = Cons
  show ?case
  proof
    assume "contains p (c # s)"
    then show "\<exists>a b. c # s = a @ p @ b"
      using Cons by (auto simp: starts_with_iff) (metis append_Nil append_Cons)+
  next
    assume "\<exists>a b. c # s = a @ p @ b"
    then obtain a b where ab: "c # s = a @ p @ b" by blast
    show "contains p (c # s)"
    proof (cases a)
      case Nil
      with ab have "starts_with p (c # s)" unfolding starts_with_iff by simp
      then show ?thesis by simp
    next
      case (Cons a0 a')
      with ab IH show ?thesis by auto
    qed
  qed
qed auto

lemma split_csv_nonblank: "w \<in> set (split_csv v) \<Longrightarrow> w \<noteq> [] \<and> strip w = w"
  by (auto simp: split_csv_def)

end
