(* ===== verification/Errors.thy ===== *)
theory Errors
  imports Py_Strings
begin

text \<open>
  Exceptions and the standard error envelope (\<open>src/app/core/errors.py\<close>).

  A raised exception is a value of \<open>exn\<close>; an operation that may raise returns \<open>exn + 'a\<close>. The
  application's own hierarchy is the record \<open>app_error\<close> with one constructor function per class;
  keyword arguments with defaults are \<open>option\<close> arguments. \<open>exc_view\<close> is what duck-typed code
  (\<open>getattr\<close>, \<open>isinstance\<close>, the class names of \<open>__mro__\<close>) can observe of any exception; an
  exception of a third-party library is given by that view alone. The handlers map every exception
  that escapes an endpoint to one JSON response.
\<close>

section \<open>What duck typing sees of an exception\<close>

datatype py_attr = ANone | ABool bool | AInt int | AFloat pyfloat | AStr string | AOther

record exc_view =
  view_class :: string
  view_mro :: "string list"
  view_timeout_or_connection :: bool
  view_status :: py_attr
  view_response_status :: py_attr
  view_retry_after :: py_attr
  view_response_retry_after :: "py_attr option"

section \<open>The application's exception classes\<close>

record app_error =
  ae_class :: string
  ae_code :: string
  ae_message :: string
  ae_status :: int
  ae_data :: "json option"
  ae_headers :: "(string \<times> string) list option"

definition dflt :: "'a \<Rightarrow> 'a option \<Rightarrow> 'a" where
  "dflt d x = (case x of None \<Rightarrow> d | Some v \<Rightarrow> v)"

definition mk_app_error ::
  "string \<Rightarrow> string \<Rightarrow> string \<Rightarrow> int \<Rightarrow> json option \<Rightarrow> (string \<times> string) list option \<Rightarrow> app_error" where
  "mk_app_error cls code msg status data hdrs =
     \<lparr>ae_class = cls, ae_code = code, ae_message = msg, ae_status = status, ae_data = data,
      ae_headers = hdrs\<rparr>"

definition BadRequestError :: "string option \<Rightarrow> string option \<Rightarrow> json option \<Rightarrow> app_error" where
  "BadRequestError msg code data =
     mk_app_error ''BadRequestError'' (dflt ''bad_request'' code) (dflt ''Bad request'' msg) 400
       data None"

definition UnauthorizedError :: "string option \<Rightarrow> string option \<Rightarrow> json option \<Rightarrow> app_error" where
  "UnauthorizedError msg code data =
     mk_app_error ''UnauthorizedError'' (dflt ''unauthorized'' code) (dflt ''Unauthorized'' msg) 401
       data None"

definition ForbiddenError :: "string option \<Rightarrow> string option \<Rightarrow> json option \<Rightarrow> app_error" where
  "ForbiddenError msg code data =
     mk_app_error ''ForbiddenError'' (dflt ''forbidden'' code) (dflt ''Forbidden'' msg) 403
       data None"

definition NotFoundError :: "string option \<Rightarrow> string option \<Rightarrow> json option \<Rightarrow> app_error" where
  "NotFoundError msg code data =
     mk_app_error ''NotFoundError'' (dflt ''not_found'' code) (dflt ''Not found'' msg) 404
       data None"

definition MethodNotAllowedError :: "string option \<Rightarrow> string option \<Rightarrow> json option \<Rightarrow> app_error" where
  "MethodNotAllowedError msg code data =
     mk_app_error ''MethodNotAllowedError'' (dflt ''method_not_allowed'' code)
       (dflt ''Method not allowed'' msg) 405 data None"

definition ConflictError :: "string option \<Rightarrow> string option \<Rightarrow> json option \<Rightarrow> app_error" where
  "ConflictError msg code data =
     mk_app_error ''ConflictError'' (dflt ''conflict'' code) (dflt ''Conflict'' msg) 409
       data None"

definition UnprocessableEntityError :: "string option \<Rightarrow> string option \<Rightarrow> json option \<Rightarrow> app_error" where
  "UnprocessableEntityError msg code data =
     mk_app_error ''UnprocessableEntityError'' (dflt ''unprocessable_entity'' code)
       (dflt ''Unprocessable entity'' msg) 422 data None"

definition RateLimitError ::
  "string option \<Rightarrow> string option \<Rightarrow> int option \<Rightarrow> json option \<Rightarrow> app_error" where
  "RateLimitError msg code retry_after data =
     mk_app_error ''RateLimitError'' (dflt ''rate_limit_exceeded'' code)
       (dflt ''Rate limit exceeded'' msg) 429 data
       (case retry_after of None \<Rightarrow> None | Some n \<Rightarrow> Some [(''Retry-After'', int_str n)])"

definition ServerError :: "string option \<Rightarrow> string option \<Rightarrow> json option \<Rightarrow> app_error" where
  "ServerError msg code data =
     mk_app_error ''ServerError'' (dflt ''internal_server_error'' code)
       (dflt ''Internal server error'' msg) 500 data None"

definition ServiceUnavailableError :: "string option \<Rightarrow> string option \<Rightarrow> json option \<Rightarrow> app_error" where
  "ServiceUnavailableError msg code data =
     mk_app_error ''ServiceUnavailableError'' (dflt ''service_unavailable'' code)
       (dflt ''Service unavailable'' msg) 503 data None"

definition TokenError :: "string option \<Rightarrow> string option \<Rightarrow> app_error" where
  "TokenError msg code =
     (UnauthorizedError (Some (dflt ''Invalid or expired token'' msg))
        (Some (dflt ''invalid_token'' code)) None)\<lparr>ae_class := ''TokenError''\<rparr>"

section \<open>All exceptions\<close>

datatype exn =
    ValueError string
  | KeyError string
  | RuntimeError string
  | TimeoutError
  | NonRetryableMessageError string
  | HTTPException int string "(string \<times> string) list option"
  | AppError app_error
  | Foreign exc_view

definition plain_view :: "string \<Rightarrow> string list \<Rightarrow> exc_view" where
  "plain_view cls bases =
     \<lparr>view_class = cls, view_mro = cls # bases, view_timeout_or_connection = False,
      view_status = ANone, view_response_status = ANone, view_retry_after = ANone,
      view_response_retry_after = None\<rparr>"

definition exception_bases :: "string list" where
  "exception_bases = [''Exception'', ''BaseException'', ''object'']"

fun exn_view :: "exn \<Rightarrow> exc_view" where
  "exn_view (ValueError m) = plain_view ''ValueError'' exception_bases"
| "exn_view (KeyError m) = plain_view ''KeyError'' (''LookupError'' # exception_bases)"
| "exn_view (RuntimeError m) = plain_view ''RuntimeError'' exception_bases"
| "exn_view TimeoutError =
     (plain_view ''TimeoutError'' (''OSError'' # exception_bases))
       \<lparr>view_timeout_or_connection := True\<rparr>"
| "exn_view (NonRetryableMessageError m) = plain_view ''NonRetryableMessageError'' exception_bases"
| "exn_view (HTTPException status detail hdrs) =
     (plain_view ''HTTPException'' exception_bases)\<lparr>view_status := AInt status\<rparr>"
| "exn_view (AppError a) =
     (plain_view (ae_class a) (''AppError'' # exception_bases))\<lparr>view_status := AInt (ae_status a)\<rparr>"
| "exn_view (Foreign v) = v"

definition exn_class_name :: "exn \<Rightarrow> string" where
  "exn_class_name e = view_class (exn_view e)"

section \<open>The error envelope and the handlers\<close>

record json_response =
  resp_status :: int
  resp_headers :: "(string \<times> string) list option"
  resp_content :: json

definition HTTP_STATUS_CODE_MAP :: "(int, string) dict" where
  "HTTP_STATUS_CODE_MAP =
     [(400, ''bad_request''), (401, ''unauthorized''), (403, ''forbidden''), (404, ''not_found''),
      (405, ''method_not_allowed''), (409, ''conflict''), (410, ''gone''),
      (413, ''payload_too_large''), (415, ''unsupported_media_type''),
      (422, ''unprocessable_entity''), (429, ''rate_limit_exceeded''),
      (500, ''internal_server_error''), (501, ''not_implemented''), (502, ''bad_gateway''),
      (503, ''service_unavailable''), (504, ''gateway_timeout'')]"

definition http_error_code :: "int \<Rightarrow> string" where
  "http_error_code status = dflt ''http_error'' (dict_get HTTP_STATUS_CODE_MAP status)"

text \<open>\<open>ctx\<close> is the value of the request-id context variable (\<open>get_request_id()\<close>).\<close>

definition py_or :: "string option \<Rightarrow> string \<Rightarrow> string" where
  "py_or x y = (case x of None \<Rightarrow> y | Some s \<Rightarrow> if s = '''' then y else s)"

definition envelope ::
  "string \<Rightarrow> string \<Rightarrow> string \<Rightarrow> json option \<Rightarrow> string option \<Rightarrow> json" where
  "envelope ctx code msg data request_id =
     JObj [(''error'',
       JObj ([(''code'', JStr code), (''message'', JStr msg),
              (''request_id'', JStr (py_or request_id ctx))]
             @ (case data of None \<Rightarrow> [] | Some d \<Rightarrow> [(''data'', d)])))]"

definition app_error_handler :: "string \<Rightarrow> app_error \<Rightarrow> json_response" where
  "app_error_handler ctx a =
     \<lparr>resp_status = ae_status a, resp_headers = ae_headers a,
      resp_content = envelope ctx (ae_code a) (ae_message a) (ae_data a) None\<rparr>"

definition http_exception_handler ::
  "string \<Rightarrow> int \<Rightarrow> string \<Rightarrow> (string \<times> string) list option \<Rightarrow> json_response" where
  "http_exception_handler ctx status detail hdrs =
     \<lparr>resp_status = status, resp_headers = hdrs,
      resp_content = envelope ctx (http_error_code status) detail None None\<rparr>"

text \<open>\<open>state_id\<close> is \<open>request.scope["state"].get("request_id")\<close>.\<close>

definition unhandled_exception_handler :: "string \<Rightarrow> string option \<Rightarrow> json_response" where
  "unhandled_exception_handler ctx state_id =
     (let request_id = py_or state_id ctx in
      \<lparr>resp_status = 500, resp_headers = Some [(''X-Request-ID'', request_id)],
       resp_content =
         envelope ctx ''internal_server_error'' ''Internal server error'' None (Some request_id)\<rparr>)"

text \<open>The handler registered for the most specific class of the exception runs.\<close>

fun handle_exception :: "string \<Rightarrow> string option \<Rightarrow> exn \<Rightarrow> json_response" where
  "handle_exception ctx state_id (AppError a) = app_error_handler ctx a"
| "handle_exception ctx state_id (HTTPException status detail hdrs) =
     http_exception_handler ctx status detail hdrs"
| "handle_exception ctx state_id e = unhandled_exception_handler ctx state_id"

lemmas app_error_defs [ops_simps] =
  mk_app_error_def dflt_def BadRequestError_def UnauthorizedError_def ForbiddenError_def
  NotFoundError_def MethodNotAllowedError_def ConflictError_def UnprocessableEntityError_def
  RateLimitError_def ServerError_def ServiceUnavailableError_def TokenError_def

lemmas envelope_defs [ops_simps] =
  envelope_def app_error_handler_def http_exception_handler_def unhandled_exception_handler_def
  http_error_code_def HTTP_STATUS_CODE_MAP_def py_or_def

lemma py_or_nonempty: "ctx \<noteq> '''' \<Longrightarrow> py_or x ctx \<noteq> ''''"
  by (simp add: py_or_def split: option.splits)

lemma app_error_view_status [simp]: "view_status (exn_view (AppError a)) = AInt (ae_status a)"
  by simp

lemma http_error_code_nonempty: "http_error_code status \<noteq> ''''"
  by (simp add: http_error_code_def HTTP_STATUS_CODE_MAP_def dflt_def)

text \<open>An exception the application does not know never influences the response.\<close>

lemma handle_unknown:
  "\<lbrakk>\<And>a. e \<noteq> AppError a; \<And>st d h. e \<noteq> HTTPException st d h\<rbrakk> \<Longrightarrow>
     handle_exception ctx state_id e = unhandled_exception_handler ctx state_id"
  by (cases e) auto

end
