(* ===== verification/Storage.thy ===== *)
theory Storage
  imports Errors "HOL-Library.List_Lexorder" "HOL-Library.Char_ord"
begin

text \<open>
  The in-process cache (\<open>src/app/modules/platform/cache/adapters/memory.py\<close>) and object store
  (\<open>src/app/modules/platform/objects/adapters/memory.py\<close>).

  Every operation takes the reading of the monotonic clock it makes. The cache is compared with a map
  from keys to values and their expiry; the object store with a map from normalised keys.
\<close>

section \<open>Cache\<close>

record mem_cache =
  mc_prefix :: string
  mc_default_ttl_seconds :: seconds
  mc_values :: "(string, string \<times> seconds) dict"
  mc_closed :: bool

definition MemoryCacheGateway :: "string \<Rightarrow> seconds \<Rightarrow> exn + mem_cache" where
  "MemoryCacheGateway prefix default_ttl_seconds =
     (if default_ttl_seconds \<le> 0 then Inl (ValueError ''default_ttl_seconds must be positive'')
      else Inr \<lparr>mc_prefix = prefix, mc_default_ttl_seconds = default_ttl_seconds, mc_values = [], mc_closed = False\<rparr>)"

definition cache_key :: "mem_cache \<Rightarrow> string \<Rightarrow> string" where
  "cache_key c key = mc_prefix c @ '':'' @ key"

definition resolve_ttl :: "mem_cache \<Rightarrow> seconds option \<Rightarrow> exn + seconds" where
  "resolve_ttl c ttl_seconds =
     (let ttl = (case ttl_seconds of None \<Rightarrow> mc_default_ttl_seconds c | Some t \<Rightarrow> t) in
      if ttl \<le> 0 then Inl (ValueError ''ttl_seconds must be positive'') else Inr ttl)"

definition cache_read :: "seconds \<Rightarrow> string \<Rightarrow> mem_cache \<Rightarrow> string option \<times> mem_cache" where
  "cache_read now ck c = (case dict_get (mc_values c) ck of
      None \<Rightarrow> (None, c)
    | Some (v, expires_at) \<Rightarrow>
        if expires_at \<le> now then (None, c\<lparr>mc_values := dict_pop (mc_values c) ck\<rparr>) else (Some v, c))"

definition cache_closed_error :: exn where "cache_closed_error = RuntimeError ''cache is closed''"

definition cache_get :: "seconds \<Rightarrow> string \<Rightarrow> mem_cache \<Rightarrow> (exn + string option) \<times> mem_cache" where
  "cache_get now key c =
     (if mc_closed c then (Inl cache_closed_error, c)
      else (let (v, c') = cache_read now (cache_key c key) c in (Inr v, c')))"

definition cache_set :: "seconds \<Rightarrow> string \<Rightarrow> string \<Rightarrow> seconds option \<Rightarrow> mem_cache \<Rightarrow> (exn + unit) \<times> mem_cache" where
  "cache_set now key v ttl_seconds c =
     (if mc_closed c then (Inl cache_closed_error, c)
      else (case resolve_ttl c ttl_seconds of
          Inl e \<Rightarrow> (Inl e, c)
        | Inr ttl \<Rightarrow> (Inr (), c\<lparr>mc_values := dict_set (mc_values c) (cache_key c key) (v, now + ttl)\<rparr>)))"

definition cache_delete :: "string \<Rightarrow> mem_cache \<Rightarrow> (exn + bool) \<times> mem_cache" where
  "cache_delete key c =
     (if mc_closed c then (Inl cache_closed_error, c)
      else (Inr (dict_get (mc_values c) (cache_key c key) \<noteq> None), c\<lparr>mc_values := dict_pop (mc_values c) (cache_key c key)\<rparr>))"

definition cache_exists :: "seconds \<Rightarrow> string \<Rightarrow> mem_cache \<Rightarrow> (exn + bool) \<times> mem_cache" where
  "cache_exists now key c = (case cache_get now key c of (Inl e, c') \<Rightarrow> (Inl e, c') | (Inr v, c') \<Rightarrow> (Inr (v \<noteq> None), c'))"

fun get_many_loop :: "seconds \<Rightarrow> string list \<Rightarrow> (string, string) dict \<Rightarrow> mem_cache \<Rightarrow> (string, string) dict \<times> mem_cache" where
  "get_many_loop now [] result c = (result, c)"
| "get_many_loop now (k # ks) result c =
     (case cache_read now (cache_key c k) c of
        (None, c') \<Rightarrow> get_many_loop now ks result c'
      | (Some v, c') \<Rightarrow> get_many_loop now ks (dict_set result k v) c')"

definition cache_get_many :: "seconds \<Rightarrow> string list \<Rightarrow> mem_cache \<Rightarrow> (exn + (string, string) dict) \<times> mem_cache" where
  "cache_get_many now keys c =
     (if mc_closed c then (Inl cache_closed_error, c)
      else (let (r, c') = get_many_loop now keys [] c in (Inr r, c')))"

fun set_many_loop :: "seconds \<Rightarrow> (string \<times> string) list \<Rightarrow> mem_cache \<Rightarrow> mem_cache" where
  "set_many_loop expires_at [] c = c"
| "set_many_loop expires_at ((k, v) # items) c =
     set_many_loop expires_at items (c\<lparr>mc_values := dict_set (mc_values c) (cache_key c k) (v, expires_at)\<rparr>)"

definition cache_set_many ::
  "seconds \<Rightarrow> (string, string) dict \<Rightarrow> seconds option \<Rightarrow> mem_cache \<Rightarrow> (exn + unit) \<times> mem_cache" where
  "cache_set_many now items ttl_seconds c =
     (if mc_closed c then (Inl cache_closed_error, c)
      else (case resolve_ttl c ttl_seconds of
          Inl e \<Rightarrow> (Inl e, c) | Inr ttl \<Rightarrow> (Inr (), set_many_loop (now + ttl) items c)))"

fun delete_many_loop :: "string list \<Rightarrow> nat \<Rightarrow> mem_cache \<Rightarrow> nat \<times> mem_cache" where
  "delete_many_loop [] removed c = (removed, c)"
| "delete_many_loop (k # ks) removed c =
     delete_many_loop ks (if dict_get (mc_values c) (cache_key c k) \<noteq> None then removed + 1 else removed)
       (c\<lparr>mc_values := dict_pop (mc_values c) (cache_key c k)\<rparr>)"

definition cache_delete_many :: "string list \<Rightarrow> mem_cache \<Rightarrow> (exn + nat) \<times> mem_cache" where
  "cache_delete_many keys c =
     (if mc_closed c then (Inl cache_closed_error, c)
      else (let (n, c') = delete_many_loop keys 0 c in (Inr n, c')))"

definition cache_close :: "mem_cache \<Rightarrow> mem_cache" where
  "cache_close c = c\<lparr>mc_closed := True, mc_values := []\<rparr>"

section \<open>Object store\<close>

definition strip_char :: "char \<Rightarrow> string \<Rightarrow> string" where
  "strip_char x s = rev (dropWhile (\<lambda>c. c = x) (rev (dropWhile (\<lambda>c. c = x) s)))"

definition strip_slashes :: "string \<Rightarrow> string" where "strip_slashes = strip_char (CHR ''/'')"

record mem_objects =
  mo_prefix :: string
  mo_values :: "(string, string) dict"
  mo_closed :: bool

definition MemoryObjectGateway :: "string \<Rightarrow> mem_objects" where
  "MemoryObjectGateway prefix = \<lparr>mo_prefix = strip_slashes prefix, mo_values = [], mo_closed = False\<rparr>"

definition object_key :: "mem_objects \<Rightarrow> string \<Rightarrow> string" where
  "object_key g key =
     (let normalized = strip_slashes key in
      if mo_prefix g \<noteq> '''' then mo_prefix g @ ''/'' @ normalized else normalized)"

definition objects_closed_error :: exn where "objects_closed_error = RuntimeError ''object gateway is closed''"

definition object_put :: "string \<Rightarrow> string \<Rightarrow> mem_objects \<Rightarrow> (exn + unit) \<times> mem_objects" where
  "object_put key v g =
     (if mo_closed g then (Inl objects_closed_error, g)
      else (Inr (), g\<lparr>mo_values := dict_set (mo_values g) (object_key g key) v\<rparr>))"

definition object_get :: "string \<Rightarrow> mem_objects \<Rightarrow> exn + string option" where
  "object_get key g = (if mo_closed g then Inl objects_closed_error else Inr (dict_get (mo_values g) (object_key g key)))"

definition object_delete :: "string \<Rightarrow> mem_objects \<Rightarrow> (exn + unit) \<times> mem_objects" where
  "object_delete key g =
     (if mo_closed g then (Inl objects_closed_error, g)
      else (Inr (), g\<lparr>mo_values := dict_pop (mo_values g) (object_key g key)\<rparr>))"

definition object_exists :: "string \<Rightarrow> mem_objects \<Rightarrow> exn + bool" where
  "object_exists key g = (if mo_closed g then Inl objects_closed_error else Inr (object_key g key \<in> set (dict_keys (mo_values g))))"

definition object_list :: "string \<Rightarrow> int \<Rightarrow> mem_objects \<Rightarrow> exn + string list" where
  "object_list prefix limit g =
     (if mo_closed g then Inl objects_closed_error
      else if limit \<le> 0 then Inl (ValueError ''limit must be positive'')
      else (let scoped_prefix = (if prefix \<noteq> '''' then object_key g prefix else mo_prefix g);
                prefix_len = (if mo_prefix g \<noteq> '''' then length (mo_prefix g) + 1 else 0);
                matches = sort (filter (starts_with scoped_prefix) (dict_keys (mo_values g))) in
            Inr (map (drop prefix_len) (take (nat limit) matches))))"

definition object_presign_get :: "string \<Rightarrow> mem_objects \<Rightarrow> exn + string" where
  "object_presign_get key g =
     (if mo_closed g then Inl objects_closed_error else Inr (''memory://'' @ object_key g key @ ''?op=get''))"

definition object_presign_put :: "string \<Rightarrow> string option \<Rightarrow> mem_objects \<Rightarrow> exn + string" where
  "object_presign_put key content_type g =
     (if mo_closed g then Inl objects_closed_error
      else Inr (''memory://'' @ object_key g key @ ''?op=put'' @
        (case content_type of None \<Rightarrow> '''' | Some ct \<Rightarrow> if ct = '''' then '''' else ''&content_type='' @ ct)))"

definition object_close :: "mem_objects \<Rightarrow> mem_objects" where
  "object_close g = g\<lparr>mo_closed := True, mo_values := []\<rparr>"

section \<open>What a cache promises\<close>

datatype cache_op =
    CGet string
  | CSet string string "seconds option"
  | CDelete string
  | CExists string
  | CGetMany "string list"
  | CSetMany "(string \<times> string) list" "seconds option"
  | CDeleteMany "string list"

datatype cache_answer = AUnit | AValue "string option" | ABool bool | AMany "(string, string) dict" | ACount nat | ARaise exn

definition answer :: "('a \<Rightarrow> cache_answer) \<Rightarrow> (exn + 'a) \<times> 's \<Rightarrow> cache_answer \<times> 's" where
  "answer f r = ((case fst r of Inl e \<Rightarrow> ARaise e | Inr x \<Rightarrow> f x), snd r)"

fun cache_call :: "seconds \<Rightarrow> cache_op \<Rightarrow> mem_cache \<Rightarrow> cache_answer \<times> mem_cache" where
  "cache_call now (CGet k) c = answer AValue (cache_get now k c)"
| "cache_call now (CSet k v ttl) c = answer (\<lambda>_. AUnit) (cache_set now k v ttl c)"
| "cache_call now (CDelete k) c = answer ABool (cache_delete k c)"
| "cache_call now (CExists k) c = answer ABool (cache_exists now k c)"
| "cache_call now (CGetMany ks) c = answer AMany (cache_get_many now ks c)"
| "cache_call now (CSetMany items ttl) c = answer (\<lambda>_. AUnit) (cache_set_many now items ttl c)"
| "cache_call now (CDeleteMany ks) c = answer ACount (cache_delete_many ks c)"

fun cache_run :: "(seconds \<times> cache_op) list \<Rightarrow> mem_cache \<Rightarrow> cache_answer list \<times> mem_cache" where
  "cache_run [] c = ([], c)"
| "cache_run ((now, op) # ops) c =
     (let (a, c1) = cache_call now op c; (as, c2) = cache_run ops c1 in (a # as, c2))"

text \<open>
  The abstract cache maps a key to its value and expiry and forgets nothing by itself. An answer is right
  when a read shows exactly the entries that have not expired; a delete reports every unexpired entry and nothing
  that was never stored.
\<close>

type_synonym ttl_map = "string \<Rightarrow> (string \<times> seconds) option"

definition visible :: "seconds \<Rightarrow> ttl_map \<Rightarrow> string \<Rightarrow> string option" where
  "visible now m k = (case m k of Some (v, e) \<Rightarrow> if e \<le> now then None else Some v | None \<Rightarrow> None)"

definition ttl_of :: "seconds \<Rightarrow> seconds option \<Rightarrow> seconds" where
  "ttl_of dttl ttl = (case ttl of None \<Rightarrow> dttl | Some t \<Rightarrow> t)"

definition put_all :: "(string \<times> string) list \<Rightarrow> seconds \<Rightarrow> ttl_map \<Rightarrow> ttl_map" where
  "put_all items e m = fold (\<lambda>(k, v) m. m(k \<mapsto> (v, e))) items m"

fun cache_spec :: "seconds \<Rightarrow> seconds \<Rightarrow> cache_op \<Rightarrow> cache_answer \<Rightarrow> ttl_map \<Rightarrow> bool \<times> ttl_map" where
  "cache_spec dttl now (CGet k) a m = (a = AValue (visible now m k), m)"
| "cache_spec dttl now (CExists k) a m = (a = ABool (visible now m k \<noteq> None), m)"
| "cache_spec dttl now (CGetMany ks) a m =
     ((case a of AMany d \<Rightarrow> (\<forall>k. dict_get d k = (if k \<in> set ks then visible now m k else None)) | _ \<Rightarrow> False), m)"
| "cache_spec dttl now (CSet k v ttl) a m =
     (if ttl_of dttl ttl \<le> 0 then (a = ARaise (ValueError ''ttl_seconds must be positive''), m)
      else (a = AUnit, m(k \<mapsto> (v, now + ttl_of dttl ttl))))"
| "cache_spec dttl now (CSetMany items ttl) a m =
     (if ttl_of dttl ttl \<le> 0 then (a = ARaise (ValueError ''ttl_seconds must be positive''), m)
      else (a = AUnit, put_all items (now + ttl_of dttl ttl) m))"
| "cache_spec dttl now (CDelete k) a m =
     ((case a of ABool b \<Rightarrow> (visible now m k \<noteq> None \<longrightarrow> b) \<and> (b \<longrightarrow> m k \<noteq> None) | _ \<Rightarrow> False), m(k := None))"
| "cache_spec dttl now (CDeleteMany ks) a m =
     ((case a of ACount n \<Rightarrow> card {k \<in> set ks. visible now m k \<noteq> None} \<le> n \<and> n \<le> card {k \<in> set ks. m k \<noteq> None} | _ \<Rightarrow> False),
      (\<lambda>k. if k \<in> set ks then None else m k))"

fun cache_spec_run :: "seconds \<Rightarrow> (seconds \<times> cache_op) list \<Rightarrow> cache_answer list \<Rightarrow> ttl_map \<Rightarrow> bool" where
  "cache_spec_run dttl [] [] m = True"
| "cache_spec_run dttl ((now, op) # ops) (a # as) m =
     (let (ok, m') = cache_spec dttl now op a m in ok \<and> cache_spec_run dttl ops as m')"
| "cache_spec_run dttl _ _ m = False"

section \<open>Lemmas: the memory cache is such a cache\<close>

text \<open>The concrete entry of a key is the abstract one, or it was swept after it had expired.\<close>

definition cache_rel :: "seconds \<Rightarrow> mem_cache \<Rightarrow> ttl_map \<Rightarrow> bool" where
  "cache_rel now c m \<longleftrightarrow> \<not> mc_closed c \<and>
     (\<forall>k. dict_get (mc_values c) (cache_key c k) = m k \<or>
          dict_get (mc_values c) (cache_key c k) = None \<and> visible now m k = None)"

lemma cache_key_inj [simp]: "cache_key c k = cache_key c k' \<longleftrightarrow> k = k'"
  by (simp add: cache_key_def)

lemma cache_key_upd [simp]: "cache_key (c\<lparr>mc_values := d\<rparr>) k = cache_key c k"
  by (simp add: cache_key_def)

lemma visible_mono: "visible now m k = None \<Longrightarrow> now \<le> now' \<Longrightarrow> visible now' m k = None"
  by (auto simp: visible_def split: option.splits if_splits)

lemma cache_rel_later: "cache_rel now c m \<Longrightarrow> now \<le> now' \<Longrightarrow> cache_rel now' c m"
  unfolding cache_rel_def using visible_mono by blast

lemma cache_rel_entry:
  "cache_rel now c m \<Longrightarrow> dict_get (mc_values c) (cache_key c k) = m k \<or>
     dict_get (mc_values c) (cache_key c k) = None \<and> visible now m k = None"
  by (simp add: cache_rel_def)

lemma cache_rel_sweep:
  "cache_rel now c m \<Longrightarrow> visible now m k = None \<Longrightarrow> cache_rel now (c\<lparr>mc_values := dict_pop (mc_values c) (cache_key c k)\<rparr>) m"
  by (simp add: cache_rel_def)

lemma cache_rel_get:
  assumes "cache_rel now c m"
  shows "fst (cache_read now (cache_key c k) c) = visible now m k"
    and "cache_rel now (snd (cache_read now (cache_key c k) c)) m"
    and "cache_key (snd (cache_read now (cache_key c k) c)) = cache_key c"
proof -
  have r: "dict_get (mc_values c) (cache_key c k) = m k \<or>
      dict_get (mc_values c) (cache_key c k) = None \<and> visible now m k = None"
    using assms by (auto simp: cache_rel_def)
  then show "fst (cache_read now (cache_key c k) c) = visible now m k"
    by (auto simp: cache_read_def visible_def split: option.splits)
  show "cache_rel now (snd (cache_read now (cache_key c k) c)) m"
    using assms r cache_rel_sweep [OF assms, of k] by (auto simp: cache_read_def visible_def split: option.splits)
  show "cache_key (snd (cache_read now (cache_key c k) c)) = cache_key c"
    by (rule ext) (simp add: cache_read_def split: option.split)
qed

lemma cache_rel_set: "cache_rel now c m \<Longrightarrow> cache_rel now (c\<lparr>mc_values := dict_set (mc_values c) (cache_key c k) x\<rparr>) (m(k \<mapsto> x))"
  by (auto simp: cache_rel_def visible_def)

lemma cache_rel_pop: "cache_rel now c m \<Longrightarrow> cache_rel now (c\<lparr>mc_values := dict_pop (mc_values c) (cache_key c k)\<rparr>) (m(k := None))"
  by (auto simp: cache_rel_def visible_def)

lemma get_many_rel:
  assumes "cache_rel now c m"
  shows "cache_rel now (snd (get_many_loop now ks r c)) m \<and>
    (\<forall>k. dict_get (fst (get_many_loop now ks r c)) k =
      (if k \<in> set ks \<and> visible now m k \<noteq> None then visible now m k else dict_get r k))"
  using assms
proof (induction ks arbitrary: r c)
  case (Cons a ks)
  obtain v c' where v: "cache_read now (cache_key c a) c = (v, c')" by fastforce
  have v': "v = visible now m a" "cache_rel now c' m" using cache_rel_get [OF Cons.prems, of a] v by simp_all
  show ?case
  proof (cases v)
    case None
    then show ?thesis using Cons.IH [OF v'(2), of r] v v'(1) by auto
  next
    case (Some x)
    then show ?thesis using Cons.IH [OF v'(2), of "dict_set r a x"] v v'(1) by auto
  qed
qed simp

lemma set_many_rel: "cache_rel now c m \<Longrightarrow> cache_rel now (set_many_loop e items c) (put_all items e m)"
proof (induction items arbitrary: c m)
  case (Cons kv items)
  obtain k v where kv: "kv = (k, v)" by fastforce
  show ?case using Cons.IH [OF cache_rel_set [OF Cons.prems, of k "(v, e)"]]     by (simp only: kv put_all_def set_many_loop.simps fold_simps prod.case comp_apply)
qed (simp add: put_all_def)

lemma delete_many_rel:
  assumes "cache_rel now c m"
  shows "cache_rel now (snd (delete_many_loop ks n c)) (\<lambda>k. if k \<in> set ks then None else m k) \<and>
    n + card {k \<in> set ks. visible now m k \<noteq> None} \<le> fst (delete_many_loop ks n c) \<and>
    fst (delete_many_loop ks n c) \<le> n + card {k \<in> set ks. m k \<noteq> None}"
  using assms
proof (induction ks arbitrary: n c m)
  case (Cons a ks)
  let ?m = "m(a := None)" and ?c = "c\<lparr>mc_values := dict_pop (mc_values c) (cache_key c a)\<rparr>"
  let ?hit = "dict_get (mc_values c) (cache_key c a) \<noteq> None"
  have rel: "cache_rel now ?c ?m" using Cons.prems by (rule cache_rel_pop)
  have hit: "visible now m a \<noteq> None \<Longrightarrow> ?hit" "?hit \<Longrightarrow> m a \<noteq> None"
    using cache_rel_entry [OF Cons.prems, of a] by (cases "m a"; auto simp: visible_def)+
  have vis: "{k \<in> set (a # ks). visible now m k \<noteq> None} =
      {k \<in> set ks. visible now ?m k \<noteq> None} \<union> (if visible now m a \<noteq> None then {a} else {})"
    by (auto simp: visible_def)
  have sto: "{k \<in> set (a # ks). m k \<noteq> None} = {k \<in> set ks. ?m k \<noteq> None} \<union> (if m a \<noteq> None then {a} else {})" by auto
  have c1: "card {k \<in> set (a # ks). visible now m k \<noteq> None} =
      card {k \<in> set ks. visible now ?m k \<noteq> None} + (if visible now m a \<noteq> None then 1 else 0)"
    unfolding vis by (auto simp: visible_def)
  have c2: "card {k \<in> set (a # ks). m k \<noteq> None} = card {k \<in> set ks. ?m k \<noteq> None} + (if m a \<noteq> None then 1 else 0)"
    unfolding sto by auto
  define V S hn L where "V = card {k \<in> set ks. visible now ?m k \<noteq> None}" and "S = card {k \<in> set ks. ?m k \<noteq> None}"
    and "hn = (if ?hit then n + 1 else n)" and "L = delete_many_loop ks hn ?c"
  note defs = V_def S_def L_def hn_def
  have ih: "cache_rel now (snd L) (\<lambda>k. if k \<in> set ks then None else ?m k)" "hn + V \<le> fst L" "fst L \<le> hn + S"
    using Cons.IH [OF rel, of hn] unfolding V_def S_def L_def by blast+
  have bounds: "n + (V + (if visible now m a \<noteq> None then 1 else 0)) \<le> fst L" "fst L \<le> n + (S + (if m a \<noteq> None then 1 else 0))"
    using ih(2,3) hit unfolding hn_def by (auto split: if_splits)
  have "(\<lambda>k. if k \<in> set ks then None else ?m k) = (\<lambda>k. if k \<in> set (a # ks) then None else m k)" by auto
  with ih(1) have "cache_rel now (snd L) (\<lambda>k. if k \<in> set (a # ks) then None else m k)" by simp
  with bounds show ?case unfolding c1 c2 by (simp only: delete_many_loop.simps defs)
qed simp

lemma loops_keep_ttl [simp]:
  "mc_default_ttl_seconds (snd (get_many_loop now ks r c)) = mc_default_ttl_seconds c"
  "mc_default_ttl_seconds (set_many_loop e items c) = mc_default_ttl_seconds c"
  "mc_default_ttl_seconds (snd (delete_many_loop ks n c)) = mc_default_ttl_seconds c"
  "mc_default_ttl_seconds (snd (cache_read now ck c)) = mc_default_ttl_seconds c"
proof -
  have read: "mc_default_ttl_seconds (snd (cache_read now ck c)) = mc_default_ttl_seconds c" for ck and c :: mem_cache
    by (simp add: cache_read_def split: option.split)
  then show "mc_default_ttl_seconds (snd (cache_read now ck c)) = mc_default_ttl_seconds c" .
  show "mc_default_ttl_seconds (snd (get_many_loop now ks r c)) = mc_default_ttl_seconds c"
  proof (induction ks arbitrary: r c)
    case (Cons a ks)
    obtain v c' where v: "cache_read now (cache_key c a) c = (v, c')" by fastforce
    then have "mc_default_ttl_seconds c' = mc_default_ttl_seconds c" using read [of "cache_key c a" c] by simp
    then show ?case using Cons.IH v by (cases v) simp_all
  qed simp
  show "mc_default_ttl_seconds (set_many_loop e items c) = mc_default_ttl_seconds c"
    by (induction items arbitrary: c) auto
  show "mc_default_ttl_seconds (snd (delete_many_loop ks n c)) = mc_default_ttl_seconds c"
    by (induction ks arbitrary: n c) simp_all
qed

definition call_ok :: "seconds \<Rightarrow> cache_op \<Rightarrow> mem_cache \<Rightarrow> ttl_map \<Rightarrow> bool" where
  "call_ok now op c m \<longleftrightarrow> (let (a, c') = cache_call now op c; (ok, m') = cache_spec (mc_default_ttl_seconds c) now op a m in
     ok \<and> cache_rel now c' m' \<and> mc_default_ttl_seconds c' = mc_default_ttl_seconds c)"

lemma cache_call_ok:
  assumes rel: "cache_rel now c m"
  shows "call_ok now op c m"
proof -
  have opn: "\<not> mc_closed c" using rel by (simp add: cache_rel_def)
  have ttl: "resolve_ttl c t = (if ttl_of (mc_default_ttl_seconds c) t \<le> 0 then Inl (ValueError ''ttl_seconds must be positive'')
      else Inr (ttl_of (mc_default_ttl_seconds c) t))" for t
    by (simp add: resolve_ttl_def ttl_of_def Let_def)
  show ?thesis
  proof (cases op)
    case (CGet k)
    then show ?thesis using cache_rel_get [OF rel, of k] opn
      by (simp add: call_ok_def answer_def cache_get_def split_beta)
  next
    case (CExists k)
    then show ?thesis using cache_rel_get [OF rel, of k] opn
      by (simp add: call_ok_def answer_def cache_exists_def cache_get_def split_beta)
  next
    case (CGetMany ks)
    then show ?thesis using get_many_rel [OF rel, of ks "[]"] opn
      by (simp add: call_ok_def answer_def cache_get_many_def split_beta)
  next
    case (CSet k v t)
    then show ?thesis using rel cache_rel_set [OF rel] opn
      by (simp add: call_ok_def answer_def cache_set_def ttl)
  next
    case (CSetMany items t)
    then show ?thesis using rel set_many_rel [OF rel] opn
      by (simp add: call_ok_def answer_def cache_set_many_def ttl)
  next
    case (CDelete k)
    then show ?thesis using cache_rel_pop [OF rel, of k] cache_rel_entry [OF rel, of k] opn
      by (cases "m k") (auto simp: call_ok_def answer_def cache_delete_def visible_def)
  next
    case (CDeleteMany ks)
    then show ?thesis using delete_many_rel [OF rel, of ks 0] opn
      by (simp add: call_ok_def answer_def cache_delete_many_def split_beta)
  qed
qed

text \<open>
  The memory cache is a map with expiry: from a new gateway, on calls whose clock never goes back, every read shows
  exactly the entries stored last under their keys and not yet expired, although entries are swept only when read; a time to
  live that is not positive is refused without effect. A delete reports every unexpired entry, and possibly entries that have expired but
  were not swept: it does not look at the expiry, so its answer is only bounded here.
\<close>

theorem cache_refines_ttl_map:
  assumes "MemoryCacheGateway prefix dttl = Inr c" and "sorted (map fst ops)"
  shows "cache_spec_run dttl ops (fst (cache_run ops c)) Map.empty"
proof -
  have run: "cache_spec_run (mc_default_ttl_seconds c) ops (fst (cache_run ops c)) m"
    if "sorted (map fst ops)" "ops \<noteq> [] \<Longrightarrow> cache_rel (fst (hd ops)) c m" for ops c m
    using that
  proof (induction ops arbitrary: c m)
    case (Cons top ops)
    obtain now op where top: "top = (now, op)" by fastforce
    obtain a c' where call: "cache_call now op c = (a, c')" by fastforce
    obtain ok m' where spec: "cache_spec (mc_default_ttl_seconds c) now op a m = (ok, m')" by fastforce
    have "call_ok now op c m" using Cons.prems(2) top by (simp add: cache_call_ok)
    then have step: "ok" "cache_rel now c' m'" "mc_default_ttl_seconds c' = mc_default_ttl_seconds c"
      by (simp_all add: call_ok_def call spec)
    have "cache_spec_run (mc_default_ttl_seconds c') ops (fst (cache_run ops c')) m'"
    proof (rule Cons.IH)
      show "cache_rel (fst (hd ops)) c' m'" if "ops \<noteq> []"
        using cache_rel_later [OF step(2)] Cons.prems(1) that by (cases ops) (auto simp: top)
    qed (use Cons.prems(1) in simp)
    with step show ?case by (simp add: top call spec split_beta)
  qed simp
  have "c = \<lparr>mc_prefix = prefix, mc_default_ttl_seconds = dttl, mc_values = [], mc_closed = False\<rparr>"
    using assms(1) by (simp add: MemoryCacheGateway_def split: if_splits)
  then show ?thesis using run [OF assms(2), of c Map.empty] by (simp add: cache_rel_def)
qed

theorem cache_refines_ttl_map_witness:
  "cache_spec_run 5 [(0, CSet ''k'' ''v'' None), (4, CGet ''k''), (5, CGet ''k'')]
     [AUnit, AValue (Some ''v''), AValue None] Map.empty"
proof -
  let ?c = "\<lparr>mc_prefix = ''app'', mc_default_ttl_seconds = 5, mc_values = [], mc_closed = False\<rparr>"
  let ?ops = "[(0, CSet ''k'' ''v'' None), (4, CGet ''k''), (5, CGet ''k'')]"
  have "MemoryCacheGateway ''app'' 5 = Inr ?c" by (simp add: MemoryCacheGateway_def)
  moreover have "fst (cache_run ?ops ?c) = [AUnit, AValue (Some ''v''), AValue None]" by code_simp
  ultimately show ?thesis using cache_refines_ttl_map [of "''app''" 5 ?c ?ops] by simp
qed

text \<open>An expired entry that nobody has read yet still counts as deleted.\<close>

lemma delete_reports_expired:
  "fst (cache_run [(0, CSet ''k'' ''v'' (Some 1)), (9, CDelete ''k'')]
     \<lparr>mc_prefix = ''app'', mc_default_ttl_seconds = 5, mc_values = [], mc_closed = False\<rparr>) = [AUnit, ABool True]"
  by code_simp

section \<open>What the object store promises\<close>

datatype object_op = OPut string string | ODelete string

fun object_step :: "object_op \<Rightarrow> mem_objects \<Rightarrow> mem_objects" where
  "object_step (OPut k v) g = snd (object_put k v g)"
| "object_step (ODelete k) g = snd (object_delete k g)"

fun object_spec :: "object_op \<Rightarrow> (string \<Rightarrow> string option) \<Rightarrow> string \<Rightarrow> string option" where
  "object_spec (OPut k v) m = m(strip_slashes k \<mapsto> v)"
| "object_spec (ODelete k) m = m(strip_slashes k := None)"

definition objects_rel :: "string \<Rightarrow> mem_objects \<Rightarrow> (string \<Rightarrow> string option) \<Rightarrow> bool" where
  "objects_rel P g m \<longleftrightarrow> \<not> mo_closed g \<and> mo_prefix g = P \<and> dict_wf (mo_values g) \<and>
     set (dict_keys (mo_values g)) = object_key g ` dom m \<and> (\<forall>k\<in>dom m. strip_slashes k = k) \<and>
     (\<forall>k. dict_get (mo_values g) (object_key g k) = m (strip_slashes k))"

lemma strip_slashes_idem [simp]: "strip_slashes (strip_slashes s) = strip_slashes s"
  unfolding strip_slashes_def strip_char_def by (rule trim_idem)

lemma object_key_upd [simp]: "object_key (g\<lparr>mo_values := d\<rparr>) = object_key g"
  by (rule ext) (simp add: object_key_def Let_def)

lemma object_key_eq [simp]: "object_key g k = object_key g k' \<longleftrightarrow> strip_slashes k = strip_slashes k'"
  by (simp add: object_key_def Let_def)

lemma object_key_strip [simp]: "object_key g (strip_slashes k) = object_key g k"
  by (simp add: object_key_def)

lemma dict_keys_set_iff: "fst ` set (dict_set d k v) = insert k (fst ` set d)"
  by (induction d) auto

lemma dict_keys_pop_iff: "fst ` set (dict_pop d k) = fst ` set d - {k}"
  by (induction d) auto

lemma objects_rel_step:
  assumes "objects_rel P g m"
  shows "objects_rel P (object_step op g) (object_spec op m)"
proof (cases op)
  case (OPut k v)
  have "object_key g ` insert (strip_slashes k) (dom m) = insert (object_key g k) (object_key g ` dom m)" by simp
  with assms show ?thesis
    unfolding objects_rel_def OPut by (auto simp: object_put_def dict_keys_set_iff)
next
  case (ODelete k)
  have "inj_on (object_key g) (insert (strip_slashes k) (dom m))"
    using assms by (auto simp: inj_on_def objects_rel_def)
  from inj_on_image_set_diff [OF this, of "dom m" "{strip_slashes k}"]
  have "object_key g ` (dom m - {strip_slashes k}) = object_key g ` dom m - {object_key g k}" by auto
  with assms show ?thesis
    unfolding objects_rel_def ODelete by (auto simp: object_delete_def dict_keys_pop_iff)
qed

lemma objects_rel_run:
  "objects_rel (strip_slashes P) (fold object_step ops (MemoryObjectGateway P)) (fold object_spec ops Map.empty)"
proof -
  have "objects_rel Q (fold object_step ops g) (fold object_spec ops m)" if "objects_rel Q g m" for Q g m
    using that by (induction ops arbitrary: g m) (simp_all add: objects_rel_step)
  moreover have "objects_rel (strip_slashes P) (MemoryObjectGateway P) Map.empty"
    by (simp add: objects_rel_def MemoryObjectGateway_def)
  ultimately show ?thesis .
qed

lemma starts_with_common [simp]: "starts_with (p @ q) (p @ s) = starts_with q s"
  by (induction p) simp_all

lemma starts_with_self [simp]: "starts_with p (p @ s)"
  using starts_with_common [of p "[]" s] by simp

lemma append_le_iff: "(p :: string) @ a \<le> p @ b \<longleftrightarrow> a \<le> b"
  by (induction p) simp_all

text \<open>The keys a listing looks through, and what it cuts off them.\<close>

lemma object_key_match:
  "starts_with (if p \<noteq> '''' then object_key g p else mo_prefix g) (object_key g k) = starts_with (strip_slashes p) (strip_slashes k)"
  by (auto simp: object_key_def Let_def strip_slashes_def strip_char_def)

lemma object_key_drop:
  "drop (if mo_prefix g \<noteq> '''' then length (mo_prefix g) + 1 else 0) (object_key g k) = strip_slashes k"
  by (simp add: object_key_def Let_def)

lemma object_key_le: "object_key g k \<le> object_key g k' \<longleftrightarrow> strip_slashes k \<le> strip_slashes k'"
proof -
  have "mo_prefix g @ ''/'' @ x \<le> mo_prefix g @ ''/'' @ y \<longleftrightarrow> x \<le> y" for x y :: string
    using append_le_iff [of "mo_prefix g @ ''/''" x y] by simp
  then show ?thesis by (simp add: object_key_def Let_def)
qed

lemma object_list_sorted:
  assumes rel: "objects_rel P g m"
  shows "object_list p limit g =
    (if limit \<le> 0 then Inl (ValueError ''limit must be positive'')
     else Inr (take (nat limit) (sorted_list_of_set {k \<in> dom m. starts_with (strip_slashes p) k})))"
proof -
  let ?K = "{k \<in> dom m. starts_with (strip_slashes p) k}"
  define S where "S = (if p \<noteq> '''' then object_key g p else mo_prefix g)"
  let ?keys = "filter (starts_with S) (dict_keys (mo_values g))"
  have wf: "distinct ?keys" and opn: "\<not> mo_closed g" and norm: "\<And>k. k \<in> dom m \<Longrightarrow> strip_slashes k = k"
    using rel by (auto simp: objects_rel_def)
  have match: "starts_with S (object_key g k) = starts_with (strip_slashes p) k" if "k \<in> dom m" for k
    using object_key_match [of p g k] norm [OF that] by (simp add: S_def)
  have "set (dict_keys (mo_values g)) = object_key g ` dom m" using rel by (simp add: objects_rel_def)
  with match have keys: "set ?keys = object_key g ` ?K" by auto
  have inj: "inj_on (object_key g) ?K" using norm by (auto simp: inj_on_def)
  have fin: "finite ?K" using finite_imageD [OF _ inj] keys by (metis List.finite_set)
  have srt: "sorted (map (object_key g) (sorted_list_of_set ?K))"
    unfolding sorted_map
  proof (rule sorted_wrt_mono_rel [OF _ sorted_sorted_list_of_set])
    fix x y assume "x \<in> set (sorted_list_of_set ?K)" "y \<in> set (sorted_list_of_set ?K)" "x \<le> y"
    then show "object_key g x \<le> object_key g y" using fin norm by (simp add: object_key_le)
  qed
  have "sort ?keys = map (object_key g) (sorted_list_of_set ?K)"
  proof (rule sorted_distinct_set_unique)
    show "distinct (map (object_key g) (sorted_list_of_set ?K))" using fin inj by (simp add: distinct_map)
    show "set (sort ?keys) = set (map (object_key g) (sorted_list_of_set ?K))" using keys fin by simp
  qed (use wf srt in simp_all)
  moreover have "map (drop (if mo_prefix g \<noteq> '''' then length (mo_prefix g) + 1 else 0)) (take n (map (object_key g) (sorted_list_of_set ?K))) =
      take n (sorted_list_of_set ?K)" for n
  proof -
    have "k \<in> dom m" if "k \<in> set (take n (sorted_list_of_set ?K))" for k
      using in_set_takeD [OF that] fin by auto
    then have "map (\<lambda>k. drop (if mo_prefix g \<noteq> '''' then length (mo_prefix g) + 1 else 0) (object_key g k)) (take n (sorted_list_of_set ?K)) =
        take n (sorted_list_of_set ?K)"
      unfolding object_key_drop by (intro map_idI norm)
    then show ?thesis by (simp only: take_map map_map comp_def)
  qed
  ultimately show ?thesis using opn by (simp add: object_list_def Let_def S_def)
qed

text \<open>
  The object store is a map from normalised keys: after any history, a key reads what was last put under it up to
  surrounding slashes, and a listing returns, in order and up to its limit, exactly the stored keys under the prefix, relative
  to the gateway's own prefix, so that each of them can be read again.
\<close>

theorem objects_refine_map:
  fixes ops P
  defines "g \<equiv> fold object_step ops (MemoryObjectGateway P)" and "m \<equiv> fold object_spec ops Map.empty"
  shows "object_get k g = Inr (m (strip_slashes k)) \<and> object_exists k g = Inr (m (strip_slashes k) \<noteq> None) \<and>
    object_list p limit g =
      (if limit \<le> 0 then Inl (ValueError ''limit must be positive'')
       else Inr (take (nat limit) (sorted_list_of_set {k \<in> dom m. starts_with (strip_slashes p) k}))) \<and>
    (x \<in> dom m \<longrightarrow> strip_slashes x = x)"
proof -
  have rel: "objects_rel (strip_slashes P) g m" unfolding g_def m_def by (rule objects_rel_run)
  have get: "object_get k g = Inr (m (strip_slashes k))" using rel by (simp add: objects_rel_def object_get_def)
  moreover have "object_exists k g = Inr (m (strip_slashes k) \<noteq> None)"
  proof -
    have "object_key g k \<in> set (dict_keys (mo_values g)) \<longleftrightarrow> dict_get (mo_values g) (object_key g k) \<noteq> None"
      by (simp only: map_of_eq_None_iff set_map not_not)
    with rel show ?thesis by (simp add: objects_rel_def object_exists_def)
  qed
  moreover note object_list_sorted [OF rel, of p limit]
  moreover have "x \<in> dom m \<longrightarrow> strip_slashes x = x" using rel by (simp add: objects_rel_def)
  ultimately show ?thesis by blast
qed

theorem objects_refine_map_witness:
  "object_get ''/a/b/'' (fold object_step [OPut ''a/b'' ''1'', OPut ''c'' ''2''] (MemoryObjectGateway ''app/'')) = Inr (Some ''1'') \<and>
   strip_slashes ''a/b'' = ''a/b''"
proof -
  have s: "strip_slashes ''/a/b/'' = ''a/b''" "strip_slashes ''a/b'' = ''a/b''" "strip_slashes ''c'' = ''c''" by code_simp+
  show ?thesis
    using objects_refine_map [of "''/a/b/''" "[OPut ''a/b'' ''1'', OPut ''c'' ''2'']" "''app/''" "''a/b''" 1 "''a/b''"]
    by (simp add: s)
qed

end
