(* ===== verification/Queue.thy ===== *)
theory Queue
  imports Errors
begin

text \<open>
  The message queue (\<open>src/app/modules/messaging/queue/\<close>: \<open>gateway.py\<close>, \<open>worker.py\<close> and the in-memory
  adapter \<open>adapters/memory.py\<close>).

  A gateway is the record of its methods. \<open>receive\<close> returns \<open>None\<close> when the call does not return (an
  unbounded wait on an empty queue). The polling worker is a step relation: a tick receives a batch
  and creates one task per message, a task starts when the semaphore admits it, and it ends by
  acknowledging or rejecting its message. The locale \<open>queue_gateway\<close> states what the worker relies
  on; its guarantees are proved there and read off for the in-memory adapter.
\<close>

section \<open>Messages and gateways\<close>

record qmsg =
  qm_id :: string
  qm_body :: body
  qm_receive_count :: int

record 'q queue_api =
  q_send :: "string \<Rightarrow> body \<Rightarrow> 'q \<Rightarrow> (exn + string) \<times> 'q"
  q_receive :: "int \<Rightarrow> seconds \<Rightarrow> 'q \<Rightarrow> ((exn + qmsg list) \<times> 'q) option"
  q_ack :: "qmsg \<Rightarrow> 'q \<Rightarrow> (exn + unit) \<times> 'q"
  q_nack :: "qmsg \<Rightarrow> bool \<Rightarrow> 'q \<Rightarrow> (exn + unit) \<times> 'q"

section \<open>The in-memory gateway\<close>

record mem_queue =
  mq_queue :: "qmsg list"
  mq_inflight :: "(string, qmsg) dict"
  mq_dead_letter :: "qmsg list"
  mq_closed :: bool

definition InMemoryQueueGateway :: mem_queue where
  "InMemoryQueueGateway = \<lparr>mq_queue = [], mq_inflight = [], mq_dead_letter = [], mq_closed = False\<rparr>"

text \<open>\<open>uuid\<close> is the id that \<open>uuid4\<close> draws.\<close>

definition mem_send :: "string \<Rightarrow> body \<Rightarrow> mem_queue \<Rightarrow> (exn + string) \<times> mem_queue" where
  "mem_send uuid payload q =
     (if mq_closed q then (Inl (RuntimeError ''queue is closed''), q)
      else (Inr uuid, q\<lparr>mq_queue := mq_queue q @ [\<lparr>qm_id = uuid, qm_body = payload, qm_receive_count = 1\<rparr>]\<rparr>))"

text \<open>
  \<open>timeout=deadline_wait or None\<close>: a zero wait is no timeout at all, so it waits for ever on an empty
  queue. One message is taken before the limit is looked at.
\<close>

definition mem_receive :: "int \<Rightarrow> seconds \<Rightarrow> mem_queue \<Rightarrow> ((exn + qmsg list) \<times> mem_queue) option" where
  "mem_receive max_messages wait_seconds q =
     (if mq_closed q then Some (Inr [], q)
      else case mq_queue q of
        [] \<Rightarrow> if max wait_seconds 0 = 0 then None else Some (Inr [], q)
      | first # rest \<Rightarrow>
          let more = take (nat (max_messages - 1)) rest; messages = first # more in
          Some (Inr messages,
            q\<lparr>mq_queue := drop (nat (max_messages - 1)) rest,
              mq_inflight := fold (\<lambda>m d. dict_set d (qm_id m) m) messages (mq_inflight q)\<rparr>))"

definition mem_ack :: "qmsg \<Rightarrow> mem_queue \<Rightarrow> (exn + unit) \<times> mem_queue" where
  "mem_ack m q = (Inr (), q\<lparr>mq_inflight := dict_pop (mq_inflight q) (qm_id m)\<rparr>)"

definition mem_nack :: "qmsg \<Rightarrow> bool \<Rightarrow> mem_queue \<Rightarrow> (exn + unit) \<times> mem_queue" where
  "mem_nack m requeue q = (case dict_get (mq_inflight q) (qm_id m) of
      None \<Rightarrow> (Inr (), q)
    | Some stored \<Rightarrow>
        (let q1 = q\<lparr>mq_inflight := dict_pop (mq_inflight q) (qm_id m)\<rparr> in
         if requeue
         then (Inr (), q1\<lparr>mq_queue := mq_queue q1 @ [stored\<lparr>qm_receive_count := qm_receive_count stored + 1\<rparr>]\<rparr>)
         else (Inr (), q1\<lparr>mq_dead_letter := mq_dead_letter q1 @ [stored]\<rparr>)))"

definition mem_queue_close :: "mem_queue \<Rightarrow> mem_queue" where
  "mem_queue_close q = q\<lparr>mq_closed := True\<rparr>"

definition pending_count :: "mem_queue \<Rightarrow> nat" where
  "pending_count q = length (mq_queue q)"

definition inflight_count :: "mem_queue \<Rightarrow> nat" where
  "inflight_count q = length (mq_inflight q)"

definition dead_letter_count :: "mem_queue \<Rightarrow> nat" where
  "dead_letter_count q = length (mq_dead_letter q)"

definition dead_letter_messages :: "mem_queue \<Rightarrow> qmsg list" where
  "dead_letter_messages q = mq_dead_letter q"

definition mem_queue_api :: "mem_queue queue_api" where
  "mem_queue_api = \<lparr>q_send = mem_send, q_receive = mem_receive, q_ack = mem_ack, q_nack = mem_nack\<rparr>"

section \<open>Typed dispatch\<close>

text \<open>A handler acts on the state \<open>'h\<close> of what it calls.\<close>

type_synonym 'h handler = "qmsg \<Rightarrow> 'h \<Rightarrow> (exn + unit) \<times> 'h"

record 'h typed_dispatcher =
  td_handlers :: "(string, 'h handler) dict"
  td_type_field :: string
  td_unknown_type :: "'h handler option"

definition TypedMessageDispatcher ::
  "(string, 'h handler) dict \<Rightarrow> string \<Rightarrow> 'h handler option \<Rightarrow> exn + 'h typed_dispatcher" where
  "TypedMessageDispatcher handlers type_field unknown_type =
     (if handlers = [] then Inl (ValueError ''handlers must not be empty'')
      else Inr \<lparr>td_handlers = handlers, td_type_field = type_field, td_unknown_type = unknown_type\<rparr>)"

definition JSONDecodeError :: exn where
  "JSONDecodeError = Foreign (plain_view ''JSONDecodeError'' (''ValueError'' # exception_bases))"

definition TypeError :: exn where
  "TypeError = Foreign (plain_view ''TypeError'' [''Exception''])"

text \<open>
  A type that is null or absent is missing; one that is not a string is no key of the table, and an
  unhashable one (a list or an object) raises in the lookup. \<open>repr\<close> of a value that is not a string
  is given by \<open>repr_json\<close>, left abstract.
\<close>

definition typed_call :: "(json \<Rightarrow> string) \<Rightarrow> 'h typed_dispatcher \<Rightarrow> 'h handler" where
  "typed_call repr_json d m h = (case dflt JNull (dict_get (qm_body m) (td_type_field d)) of
      JNull \<Rightarrow> (Inl (ValueError (''message '' @ qm_id m @ '' missing '' @ repr_str (td_type_field d) @ '' field'')), h)
    | JList _ \<Rightarrow> (Inl TypeError, h)
    | JObj _ \<Rightarrow> (Inl TypeError, h)
    | t \<Rightarrow> (case (case t of JStr s \<Rightarrow> dict_get (td_handlers d) s | _ \<Rightarrow> None) of
          Some f \<Rightarrow> f m h
        | None \<Rightarrow> (case td_unknown_type d of
            None \<Rightarrow> (Inl (ValueError (''no handler registered for type ''
                       @ (case t of JStr s \<Rightarrow> repr_str s | _ \<Rightarrow> repr_json t))), h)
          | Some f \<Rightarrow> f m h)))"

section \<open>The polling worker\<close>

record worker_cfg =
  wc_max_concurrent :: int
  wc_max_attempts :: int
  wc_poll_interval_seconds :: seconds
  wc_receive_batch_size :: int
  wc_receive_wait_seconds :: seconds

definition AsyncPollingWorker :: "worker_cfg \<Rightarrow> exn + worker_cfg" where
  "AsyncPollingWorker c =
     (if wc_max_concurrent c \<le> 0 then Inl (ValueError ''max_concurrent must be positive'')
      else if wc_max_attempts c \<le> 0 then Inl (ValueError ''max_attempts must be positive'')
      else if wc_poll_interval_seconds c < 0 then Inl (ValueError ''poll_interval_seconds must not be negative'')
      else Inr c)"

fun is_non_retryable :: "exn \<Rightarrow> bool" where
  "is_non_retryable (NonRetryableMessageError _) = True"
| "is_non_retryable _ = False"

definition should_requeue :: "worker_cfg \<Rightarrow> exn \<Rightarrow> qmsg \<Rightarrow> bool" where
  "should_requeue c e m \<longleftrightarrow> \<not> is_non_retryable e \<and> qm_receive_count m < wc_max_attempts c"

text \<open>An exception of the handler or of \<open>ack\<close> leads to \<open>nack\<close>; one of \<open>nack\<close> ends the task.\<close>

definition dispatch ::
  "worker_cfg \<Rightarrow> 'q queue_api \<Rightarrow> 'h handler \<Rightarrow> qmsg \<Rightarrow> 'q \<times> 'h \<Rightarrow> 'q \<times> 'h" where
  "dispatch c api handler m st = (case st of (q, h) \<Rightarrow>
     (case handler m h of
        (Inr _, h') \<Rightarrow> (case q_ack api m q of
            (Inr _, q') \<Rightarrow> (q', h')
          | (Inl e, q') \<Rightarrow> (snd (q_nack api m (should_requeue c e m) q'), h'))
      | (Inl e, h') \<Rightarrow> (snd (q_nack api m (should_requeue c e m) q), h')))"

record ('q, 'h) worker =
  w_queue :: 'q
  w_handler :: 'h
  w_waiting :: "qmsg list"
  w_running :: "qmsg list"
  w_sent :: "string list"
  w_done :: "string list"

text \<open>
  \<open>w_waiting\<close> and \<open>w_running\<close> together are \<open>_active\<close>: tasks created and not done, before and after they
  hold the semaphore. \<open>external\<close> is a \<open>send\<close> by another part of the program, with an id that \<open>uuid4\<close>
  did not draw before. \<open>w_sent\<close> and \<open>w_done\<close> are history: the ids sent, and those whose handler
  returned. A handler's effects are taken at the end of its task.
\<close>

definition active_count :: "('q, 'h) worker \<Rightarrow> int" where
  "active_count w = int (length (w_waiting w) + length (w_running w))"

definition tick_busy :: "worker_cfg \<Rightarrow> ('q, 'h) worker \<Rightarrow> bool" where
  "tick_busy c w \<longleftrightarrow> active_count w \<ge> wc_max_concurrent c * 2"

inductive wstep ::
  "worker_cfg \<Rightarrow> 'q queue_api \<Rightarrow> 'h handler \<Rightarrow> ('q, 'h) worker \<Rightarrow> ('q, 'h) worker \<Rightarrow> bool"
  for c api handler where
  tick_sleep: "tick_busy c w \<Longrightarrow> wstep c api handler w w"
| tick_receive: "\<lbrakk>\<not> tick_busy c w;
     q_receive api (wc_receive_batch_size c) (wc_receive_wait_seconds c) (w_queue w) = Some (Inr ms, q')\<rbrakk>
     \<Longrightarrow> wstep c api handler w (w\<lparr>w_queue := q', w_waiting := w_waiting w @ ms\<rparr>)"
| tick_error: "\<lbrakk>\<not> tick_busy c w;
     q_receive api (wc_receive_batch_size c) (wc_receive_wait_seconds c) (w_queue w) = Some (Inl e, q')\<rbrakk>
     \<Longrightarrow> wstep c api handler w (w\<lparr>w_queue := q'\<rparr>)"
| start: "\<lbrakk>w_waiting w = m # ms; int (length (w_running w)) < wc_max_concurrent c\<rbrakk>
     \<Longrightarrow> wstep c api handler w (w\<lparr>w_waiting := ms, w_running := w_running w @ [m]\<rparr>)"
| finish: "\<lbrakk>w_running w = xs @ m # ys; dispatch c api handler m (w_queue w, w_handler w) = (q', h')\<rbrakk>
     \<Longrightarrow> wstep c api handler w (w\<lparr>w_queue := q', w_handler := h', w_running := xs @ ys,
          w_done := (if isl (fst (handler m (w_handler w))) then w_done w else w_done w @ [qm_id m])\<rparr>)"
| external: "\<lbrakk>q_send api uuid payload (w_queue w) = (Inr i, q'); uuid \<notin> set (w_sent w)\<rbrakk>
     \<Longrightarrow> wstep c api handler w (w\<lparr>w_queue := q', w_sent := w_sent w @ [uuid]\<rparr>)"

definition worker_start :: "'q \<Rightarrow> 'h \<Rightarrow> ('q, 'h) worker" where
  "worker_start q h = \<lparr>w_queue = q, w_handler = h, w_waiting = [], w_running = [], w_sent = [], w_done = []\<rparr>"

inductive_cases wstepE: "wstep c api handler w w'"

section \<open>What the worker relies on\<close>

lemma map_of_ids:
  assumes "distinct (map qm_id ms)"
  shows "m \<in> set ms \<Longrightarrow> map_of (rev (map (\<lambda>m. (qm_id m, m)) ms)) (qm_id m) = Some m"
    and "map_of (rev (map (\<lambda>m. (qm_id m, m)) ms)) i = None \<longleftrightarrow> i \<notin> qm_id ` set ms"
proof -
  let ?d = "rev (map (\<lambda>m. (qm_id m, m)) ms)"
  have wf: "dict_wf ?d" using assms by (simp add: rev_map [symmetric] o_def)
  show "m \<in> set ms \<Longrightarrow> map_of ?d (qm_id m) = Some m"
    using dict_get_in_set [OF wf, of "qm_id m" m] by auto
  show "map_of ?d i = None \<longleftrightarrow> i \<notin> qm_id ` set ms"
    by (simp add: map_of_eq_None_iff image_comp o_def)
qed

locale queue_gateway =
  fixes api :: "'q queue_api" and inv :: "'q \<Rightarrow> bool" and pend :: "'q \<Rightarrow> qmsg list"
    and infl :: "'q \<Rightarrow> string \<Rightarrow> qmsg option" and dead :: "'q \<Rightarrow> qmsg list"
  assumes send_law: "\<lbrakk>inv q; q_send api uuid b q = (Inr i, q')\<rbrakk> \<Longrightarrow> inv q' \<and> i = uuid
        \<and> pend q' = pend q @ [\<lparr>qm_id = uuid, qm_body = b, qm_receive_count = 1\<rparr>]
        \<and> infl q' = infl q \<and> dead q' = dead q"
    and receive_law: "\<lbrakk>inv q; q_receive api n wait q = Some (Inr ms, q')\<rbrakk> \<Longrightarrow> inv q'
        \<and> pend q = ms @ pend q' \<and> int (length ms) \<le> max 1 n
        \<and> infl q' = infl q ++ map_of (rev (map (\<lambda>m. (qm_id m, m)) ms)) \<and> dead q' = dead q"
    and receive_error_law: "\<lbrakk>inv q; q_receive api n wait q = Some (Inl e, q')\<rbrakk> \<Longrightarrow> inv q'
        \<and> pend q' = pend q \<and> infl q' = infl q \<and> dead q' = dead q"
    and ack_law: "\<lbrakk>inv q; q_ack api m q = (r, q')\<rbrakk> \<Longrightarrow> r = Inr () \<and> inv q' \<and> pend q' = pend q
        \<and> infl q' = (infl q)(qm_id m := None) \<and> dead q' = dead q"
    and nack_law: "\<lbrakk>inv q; infl q (qm_id m) = Some st; q_nack api m requeue q = (r, q')\<rbrakk> \<Longrightarrow> inv q'
        \<and> infl q' = (infl q)(qm_id m := None)
        \<and> (if requeue then pend q' = pend q @ [st\<lparr>qm_receive_count := qm_receive_count st + 1\<rparr>] \<and> dead q' = dead q
           else pend q' = pend q \<and> dead q' = dead q @ [st])"
begin

text \<open>Where the messages of a worker are, and that each is in one place.\<close>

definition located :: "('q, 'h) worker \<Rightarrow> string list" where
  "located w = map qm_id (pend (w_queue w)) @ map qm_id (w_waiting w) @ map qm_id (w_running w)
     @ map qm_id (dead (w_queue w)) @ w_done w"

definition winv :: "worker_cfg \<Rightarrow> ('q, 'h) worker \<Rightarrow> bool" where
  "winv c w \<longleftrightarrow> inv (w_queue w) \<and> distinct (located w) \<and> set (located w) = set (w_sent w)
     \<and> (\<forall>m \<in> set (w_waiting w @ w_running w). infl (w_queue w) (qm_id m) = Some m)
     \<and> dom (infl (w_queue w)) = qm_id ` set (w_waiting w @ w_running w)
     \<and> (\<forall>m \<in> set (pend (w_queue w) @ w_waiting w @ w_running w @ dead (w_queue w)).
          1 \<le> qm_receive_count m \<and> qm_receive_count m \<le> wc_max_attempts c)
     \<and> int (length (w_running w)) \<le> wc_max_concurrent c
     \<and> active_count w < wc_max_concurrent c * 2 + max 1 (wc_receive_batch_size c)"

lemma winv_start:
  assumes "inv q" "pend q = []" "infl q = Map.empty" "dead q = []" "AsyncPollingWorker c = Inr c"
  shows "winv c (worker_start q h)"
  using assms by (auto simp: winv_def worker_start_def located_def active_count_def AsyncPollingWorker_def split: if_splits)

lemma winvD:
  assumes "winv c w"
  shows "inv (w_queue w)" "distinct (located w)" "set (located w) = set (w_sent w)"
    "\<And>m. m \<in> set (w_waiting w @ w_running w) \<Longrightarrow> infl (w_queue w) (qm_id m) = Some m"
    "dom (infl (w_queue w)) = qm_id ` set (w_waiting w @ w_running w)"
    "\<And>m. m \<in> set (pend (w_queue w) @ w_waiting w @ w_running w @ dead (w_queue w)) \<Longrightarrow>
       1 \<le> qm_receive_count m \<and> qm_receive_count m \<le> wc_max_attempts c"
    "int (length (w_running w)) \<le> wc_max_concurrent c"
    "active_count w < wc_max_concurrent c * 2 + max 1 (wc_receive_batch_size c)"
  using assms unfolding winv_def by blast+

lemma winvI:
  assumes "inv (w_queue w)" "distinct (located w)" "set (located w) = set (w_sent w)"
    "\<And>m. m \<in> set (w_waiting w @ w_running w) \<Longrightarrow> infl (w_queue w) (qm_id m) = Some m"
    "dom (infl (w_queue w)) = qm_id ` set (w_waiting w @ w_running w)"
    "\<And>m. m \<in> set (pend (w_queue w) @ w_waiting w @ w_running w @ dead (w_queue w)) \<Longrightarrow>
       1 \<le> qm_receive_count m \<and> qm_receive_count m \<le> wc_max_attempts c"
    "int (length (w_running w)) \<le> wc_max_concurrent c"
    "active_count w < wc_max_concurrent c * 2 + max 1 (wc_receive_batch_size c)"
  shows "winv c w"
  using assms unfolding winv_def by blast

lemma winv_receive:
  assumes w: "winv c w" and idle: "\<not> tick_busy c w"
    and rc: "q_receive api (wc_receive_batch_size c) wait (w_queue w) = Some (Inr ms, q')"
  shows "winv c (w\<lparr>w_queue := q', w_waiting := w_waiting w @ ms\<rparr>)" (is "winv c ?w")
proof (rule winvI)
  note d = winvD [OF w]
  note r = receive_law [OF d(1) rc]
  have loc: "located w = map qm_id ms @ map qm_id (pend q') @ map qm_id (w_waiting w) @ map qm_id (w_running w)
      @ map qm_id (dead (w_queue w)) @ w_done w"
    using r by (simp add: located_def)
  have loc': "located ?w = map qm_id (pend q') @ (map qm_id (w_waiting w) @ map qm_id ms) @ map qm_id (w_running w)
      @ map qm_id (dead (w_queue w)) @ w_done w"
    using r by (simp add: located_def)
  show "distinct (located ?w)" using d(2) unfolding loc loc' by auto
  show "set (located ?w) = set (w_sent ?w)" using d(3) unfolding loc loc' by auto
  have dm: "distinct (map qm_id ms)" using d(2) by (simp add: loc)
  have new: "qm_id m \<notin> qm_id ` set ms" if "m \<in> set (w_waiting w @ w_running w)" for m
    using d(2) that by (auto simp: loc)
  show "infl (w_queue ?w) (qm_id m) = Some m" if "m \<in> set (w_waiting ?w @ w_running ?w)" for m
  proof (cases "m \<in> set ms")
    case True
    then show ?thesis using r map_of_ids(1) [OF dm True] by (simp add: map_add_Some_iff)
  next
    case False
    with that have m: "m \<in> set (w_waiting w @ w_running w)" by auto
    then have "map_of (rev (map (\<lambda>m. (qm_id m, m)) ms)) (qm_id m) = None"
      using map_of_ids(2) [OF dm] new by blast
    then show ?thesis using r d(4) [OF m] by (simp add: map_add_def)
  qed
  show "dom (infl (w_queue ?w)) = qm_id ` set (w_waiting ?w @ w_running ?w)"
  proof -
    have "dom (map_of (rev (map (\<lambda>m. (qm_id m, m)) ms))) = qm_id ` set ms"
      using map_of_ids(2) [OF dm] by (auto simp: dom_def)
    then show ?thesis using r d(5) by auto
  qed
  show "1 \<le> qm_receive_count m \<and> qm_receive_count m \<le> wc_max_attempts c"
    if "m \<in> set (pend (w_queue ?w) @ w_waiting ?w @ w_running ?w @ dead (w_queue ?w))" for m
    using that r by (intro d(6)) auto
  show "active_count ?w < wc_max_concurrent c * 2 + max 1 (wc_receive_batch_size c)"
    using idle r by (auto simp: active_count_def tick_busy_def)
qed (use winvD [OF w] receive_law [OF winvD(1) [OF w] rc] in auto)

lemma dispatch_effect:
  assumes inv: "inv q" and m: "infl q (qm_id m) = Some m" and dp: "dispatch c api handler m (q, h) = (q', h')"
  shows "inv q' \<and> infl q' = (infl q)(qm_id m := None) \<and>
     (case fst (handler m h) of
        Inr _ \<Rightarrow> pend q' = pend q \<and> dead q' = dead q
      | Inl e \<Rightarrow> if should_requeue c e m
          then pend q' = pend q @ [m\<lparr>qm_receive_count := qm_receive_count m + 1\<rparr>] \<and> dead q' = dead q
          else pend q' = pend q \<and> dead q' = dead q @ [m])"
proof -
  obtain r h1 where hd: "handler m h = (r, h1)" by (cases "handler m h")
  show ?thesis
  proof (cases r)
    case (Inl e)
    obtain x q1 where n: "q_nack api m (should_requeue c e m) q = (x, q1)"
      by (cases "q_nack api m (should_requeue c e m) q")
    with dp hd Inl have "q' = q1" by (simp add: dispatch_def)
    with nack_law [OF inv m n] hd Inl show ?thesis by auto
  next
    case (Inr u)
    obtain x q1 where a: "q_ack api m q = (x, q1)" by (cases "q_ack api m q")
    with ack_law [OF inv a] dp hd Inr show ?thesis by (auto simp: dispatch_def)
  qed
qed

lemma winv_finish:
  assumes w: "winv c w" and run: "w_running w = xs @ m # ys"
    and dp: "dispatch c api handler m (w_queue w, w_handler w) = (q', h')"
  shows "winv c (w\<lparr>w_queue := q', w_handler := h', w_running := xs @ ys,
     w_done := (if isl (fst (handler m (w_handler w))) then w_done w else w_done w @ [qm_id m])\<rparr>)" (is "winv c ?w")
proof (rule winvI)
  note d = winvD [OF w]
  have m: "infl (w_queue w) (qm_id m) = Some m" using d(4) run by simp
  note e = dispatch_effect [OF d(1) m dp]
  have cnt: "1 \<le> qm_receive_count m" "qm_receive_count m \<le> wc_max_attempts c" using d(6) [of m] run by simp_all
  let ?rest = "map qm_id (w_waiting w) @ map qm_id (xs @ ys)"
  have loc: "distinct (map qm_id (pend (w_queue w)) @ map qm_id (w_waiting w) @ (map qm_id xs @ qm_id m # map qm_id ys)
      @ map qm_id (dead (w_queue w)) @ w_done w)"
    "set (map qm_id (pend (w_queue w)) @ map qm_id (w_waiting w) @ (map qm_id xs @ qm_id m # map qm_id ys)
      @ map qm_id (dead (w_queue w)) @ w_done w) = set (w_sent w)"
    using d(2,3) by (simp_all add: located_def run)
  consider (ok) u where "fst (handler m (w_handler w)) = Inr u" "pend q' = pend (w_queue w)" "dead q' = dead (w_queue w)"
    | (again) x where "fst (handler m (w_handler w)) = Inl x" "should_requeue c x m"
        "pend q' = pend (w_queue w) @ [m\<lparr>qm_receive_count := qm_receive_count m + 1\<rparr>]" "dead q' = dead (w_queue w)"
    | (dead) x where "fst (handler m (w_handler w)) = Inl x" "pend q' = pend (w_queue w)" "dead q' = dead (w_queue w) @ [m]"
    using e by (auto split: sum.splits if_splits)
  then have *: "distinct (located ?w) \<and> set (located ?w) = set (w_sent ?w) \<and>
     (\<forall>x \<in> set (pend q' @ dead q'). 1 \<le> qm_receive_count x \<and> qm_receive_count x \<le> wc_max_attempts c)"
  proof cases
    case ok
    then show ?thesis using loc d(6) by (auto simp: located_def)
  next
    case again
    then have "qm_receive_count m < wc_max_attempts c" by (simp add: should_requeue_def)
    with again loc d(6) cnt show ?thesis by (auto simp: located_def)
  next
    case dead
    then show ?thesis using loc d(6) cnt by (auto simp: located_def)
  qed
  then show "distinct (located ?w)" "set (located ?w) = set (w_sent ?w)" by blast+
  show "1 \<le> qm_receive_count x \<and> qm_receive_count x \<le> wc_max_attempts c"
    if "x \<in> set (pend (w_queue ?w) @ w_waiting ?w @ w_running ?w @ dead (w_queue ?w))" for x
    using that * d(6) [of x] run by auto
  have "qm_id m \<notin> qm_id ` set (w_waiting w @ xs @ ys)" using loc(1) by auto
  then have other: "qm_id x \<noteq> qm_id m" if "x \<in> set (w_waiting w @ xs @ ys)" for x
    using that by (metis imageI)
  show "infl (w_queue ?w) (qm_id x) = Some x" if "x \<in> set (w_waiting ?w @ w_running ?w)" for x
    using that e d(4) [of x] other [of x] run by auto
  have "qm_id ` set (w_waiting w @ w_running w) - {qm_id m} = qm_id ` set (w_waiting w @ xs @ ys)"
    using other run by auto
  then show "dom (infl (w_queue ?w)) = qm_id ` set (w_waiting ?w @ w_running ?w)"
    using e d(5) by simp
qed (use winvD [OF w] run dispatch_effect [OF winvD(1) [OF w] _ dp] in \<open>auto simp: active_count_def\<close>)

lemma winv_external:
  assumes w: "winv c w" and sd: "q_send api uuid b (w_queue w) = (Inr i, q')" and fresh: "uuid \<notin> set (w_sent w)"
    and c: "1 \<le> wc_max_attempts c"
  shows "winv c (w\<lparr>w_queue := q', w_sent := w_sent w @ [uuid]\<rparr>)" (is "winv c ?w")
proof (rule winvI)
  note d = winvD [OF w]
  note s = send_law [OF d(1) sd]
  have loc: "uuid \<notin> set (located w)" using d(3) fresh by simp
  then show "distinct (located ?w)" using d(2) s by (auto simp: located_def)
  show "set (located ?w) = set (w_sent ?w)" using d(3) s by (auto simp: located_def)
  show "1 \<le> qm_receive_count m \<and> qm_receive_count m \<le> wc_max_attempts c"
    if "m \<in> set (pend (w_queue ?w) @ w_waiting ?w @ w_running ?w @ dead (w_queue ?w))" for m
    using that s c d(6) [of m] by auto
qed (use winvD [OF w] send_law [OF winvD(1) [OF w] sd] in \<open>auto simp: active_count_def\<close>)

lemma winv_step:
  assumes w: "winv c w" and st: "wstep c api handler w w'" and c: "1 \<le> wc_max_attempts c"
  shows "winv c w'"
  using st
proof cases
  case tick_sleep
  with w show ?thesis by simp
next
  case (tick_receive ms q')
  with winv_receive [OF w] show ?thesis by simp
next
  case (tick_error e q')
  note r = receive_error_law [OF winvD(1) [OF w] tick_error(3)]
  show ?thesis unfolding tick_error(1)
    by (rule winvI) (use winvD [OF w] r in \<open>auto simp: located_def active_count_def\<close>)
next
  case (start m ms)
  show ?thesis unfolding start(1)
    by (rule winvI) (use winvD [OF w] start(2,3) in \<open>auto simp: located_def active_count_def\<close>)
next
  case (finish xs m ys q' h')
  with winv_finish [OF w] show ?thesis by simp
next
  case (external uuid payload i q')
  with winv_external [OF w _ _ c] show ?thesis by simp
qed

lemma winv_reachable:
  assumes "(wstep c api handler)\<^sup>*\<^sup>* w w'" "winv c w" "1 \<le> wc_max_attempts c"
  shows "winv c w'"
  using assms by (induction rule: rtranclp_induct) (auto intro: winv_step)

end

section \<open>The in-memory gateway fulfils it\<close>

definition mem_queue_inv :: "mem_queue \<Rightarrow> bool" where
  "mem_queue_inv q \<longleftrightarrow> dict_wf (mq_inflight q)"

lemma fold_inflight:
  "map_of (fold (\<lambda>m d. dict_set d (qm_id m) m) ms d) = map_of d ++ map_of (rev (map (\<lambda>m. (qm_id m, m)) ms))"
proof (induction ms arbitrary: d)
  case (Cons m ms)
  then show ?case by (auto simp: map_add_def fun_eq_iff split: option.splits)
qed simp

lemma fold_inflight_wf: "dict_wf d \<Longrightarrow> dict_wf (fold (\<lambda>m d. dict_set d (qm_id m) m) ms d)"
  by (induction ms arbitrary: d) auto

lemma mem_receive_cases:
  assumes "mem_receive n wait q = Some (r, q')"
  shows "\<exists>ms. r = Inr ms \<and> mq_queue q = ms @ mq_queue q' \<and> int (length ms) \<le> max 1 n
     \<and> mq_inflight q' = fold (\<lambda>m d. dict_set d (qm_id m) m) ms (mq_inflight q)
     \<and> mq_dead_letter q' = mq_dead_letter q"
  using assms
  by (auto simp: mem_receive_def Let_def split: if_splits list.splits)

lemma mem_queue_api_sel:
  "q_send mem_queue_api = mem_send" "q_receive mem_queue_api = mem_receive"
  "q_ack mem_queue_api = mem_ack" "q_nack mem_queue_api = mem_nack"
  by (simp_all add: mem_queue_api_def)

interpretation mem_gateway: queue_gateway mem_queue_api mem_queue_inv mq_queue
  "\<lambda>q. map_of (mq_inflight q)" mq_dead_letter
proof (unfold_locales, unfold mem_queue_api_sel, goal_cases)
  case (1 q uuid b i q')
  then show ?case by (auto simp: mem_send_def mem_queue_inv_def split: if_splits)
next
  case (2 q n wait ms q')
  from mem_receive_cases [OF 2(2)] 2(1) show ?case
    by (auto simp: fold_inflight mem_queue_inv_def fold_inflight_wf)
next
  case (3 q n wait e q')
  from mem_receive_cases [OF 3(2)] show ?case by simp
next
  case (4 q m r q')
  then show ?case by (auto simp: mem_ack_def mem_queue_inv_def fun_eq_iff)
next
  case (5 q m st requeue r q')
  then show ?case by (auto simp: mem_nack_def mem_queue_inv_def fun_eq_iff Let_def split: if_splits)
qed

section \<open>Guarantees of the worker over the in-memory queue\<close>

lemma mem_worker_inv:
  assumes "AsyncPollingWorker c = Inr c"
    and "(wstep c mem_queue_api handler)\<^sup>*\<^sup>* (worker_start InMemoryQueueGateway h) w"
  shows "mem_gateway.winv c w"
proof (rule mem_gateway.winv_reachable [OF assms(2)])
  show "mem_gateway.winv c (worker_start InMemoryQueueGateway h)"
    using assms(1) by (intro mem_gateway.winv_start) (auto simp: InMemoryQueueGateway_def mem_queue_inv_def)
  show "1 \<le> wc_max_attempts c" using assms(1) by (auto simp: AsyncPollingWorker_def split: if_splits)
qed

text \<open>
  C12. No message is lost or duplicated: in every state that the worker reaches over the in-memory
  queue, whatever the handler does and however receives, starts, ends of tasks and sends interleave,
  every message sent is in exactly one place: pending, with exactly one task waiting or running,
  dead-lettered, or done because its handler returned.
\<close>

theorem worker_conserves_messages:
  assumes "AsyncPollingWorker c = Inr c"
    and "(wstep c mem_queue_api handler)\<^sup>*\<^sup>* (worker_start InMemoryQueueGateway h) w"
  shows "distinct (map qm_id (mq_queue (w_queue w)) @ map qm_id (w_waiting w) @ map qm_id (w_running w)
            @ map qm_id (mq_dead_letter (w_queue w)) @ w_done w)
     \<and> set (map qm_id (mq_queue (w_queue w)) @ map qm_id (w_waiting w) @ map qm_id (w_running w)
            @ map qm_id (mq_dead_letter (w_queue w)) @ w_done w) = set (w_sent w)
     \<and> fst ` set (mq_inflight (w_queue w)) = qm_id ` set (w_waiting w @ w_running w)"
  using mem_gateway.winvD(2,3,5) [OF mem_worker_inv [OF assms]]
  by (simp add: mem_gateway.located_def dom_map_of_conv_image_fst)

definition demo_cfg :: worker_cfg where
  "demo_cfg = \<lparr>wc_max_concurrent = 1, wc_max_attempts = 2, wc_poll_interval_seconds = 1,
     wc_receive_batch_size = 10, wc_receive_wait_seconds = 1\<rparr>"

text \<open>One message is sent, received and started.\<close>

definition demo_msg :: qmsg where
  "demo_msg = \<lparr>qm_id = ''a'', qm_body = [], qm_receive_count = 1\<rparr>"

definition demo_q1 :: mem_queue where
  "demo_q1 = \<lparr>mq_queue = [demo_msg], mq_inflight = [], mq_dead_letter = [], mq_closed = False\<rparr>"

definition demo_q2 :: mem_queue where
  "demo_q2 = \<lparr>mq_queue = [], mq_inflight = [(''a'', demo_msg)], mq_dead_letter = [], mq_closed = False\<rparr>"

definition demo_w :: "mem_queue \<Rightarrow> qmsg list \<Rightarrow> qmsg list \<Rightarrow> (mem_queue, nat) worker" where
  "demo_w q waiting running = \<lparr>w_queue = q, w_handler = 0, w_waiting = waiting, w_running = running,
     w_sent = [''a''], w_done = []\<rparr>"

lemma demo_reachable:
  "(wstep demo_cfg mem_queue_api handler)\<^sup>*\<^sup>* (worker_start InMemoryQueueGateway 0) (demo_w demo_q2 [] [demo_msg])"
proof -
  let ?S = "wstep demo_cfg mem_queue_api handler" and ?w0 = "worker_start InMemoryQueueGateway (0 :: nat)"
  have send: "q_send mem_queue_api ''a'' [] (w_queue ?w0) = (Inr ''a'', demo_q1)"
    by (simp add: mem_queue_api_sel mem_send_def InMemoryQueueGateway_def worker_start_def demo_q1_def demo_msg_def)
  have "?S ?w0 (?w0\<lparr>w_queue := demo_q1, w_sent := w_sent ?w0 @ [''a'']\<rparr>)"
    by (rule wstep.external [OF send]) (simp add: worker_start_def)
  then have 1: "?S ?w0 (demo_w demo_q1 [] [])" by (simp add: worker_start_def demo_w_def)
  have recv: "q_receive mem_queue_api (wc_receive_batch_size demo_cfg) (wc_receive_wait_seconds demo_cfg)
      (w_queue (demo_w demo_q1 [] [])) = Some (Inr [demo_msg], demo_q2)"
    by (simp add: mem_queue_api_sel mem_receive_def demo_q1_def demo_q2_def demo_w_def demo_msg_def)
  have "?S (demo_w demo_q1 [] []) ((demo_w demo_q1 [] [])\<lparr>w_queue := demo_q2, w_waiting := w_waiting (demo_w demo_q1 [] []) @ [demo_msg]\<rparr>)"
    by (rule wstep.tick_receive [OF _ recv]) (simp add: tick_busy_def active_count_def demo_cfg_def demo_w_def)
  then have 2: "?S (demo_w demo_q1 [] []) (demo_w demo_q2 [demo_msg] [])" by (simp add: demo_w_def)
  have "?S (demo_w demo_q2 [demo_msg] []) ((demo_w demo_q2 [demo_msg] [])\<lparr>w_waiting := [], w_running := w_running (demo_w demo_q2 [demo_msg] []) @ [demo_msg]\<rparr>)"
    by (rule wstep.start) (simp_all add: demo_w_def demo_cfg_def)
  then have 3: "?S (demo_w demo_q2 [demo_msg] []) (demo_w demo_q2 [] [demo_msg])" by (simp add: demo_w_def)
  from 1 2 3 show ?thesis
    by (meson converse_rtranclp_into_rtranclp r_into_rtranclp)
qed

lemma demo_cfg_ok: "AsyncPollingWorker demo_cfg = Inr demo_cfg"
  by (simp add: AsyncPollingWorker_def demo_cfg_def)

theorem worker_conserves_messages_witness:
  "fst ` set (mq_inflight (w_queue (demo_w demo_q2 [] [demo_msg]))) = {''a''}"
  using worker_conserves_messages [OF demo_cfg_ok demo_reachable] by (simp add: demo_w_def demo_msg_def)

text \<open>
  The worker keeps to its limits: in every state it reaches, at most \<open>max_concurrent\<close> handlers
  run, fewer than twice that number plus one batch of tasks exist, and no message is delivered more
  than \<open>max_attempts\<close> times.
\<close>

theorem worker_keeps_limits:
  assumes "AsyncPollingWorker c = Inr c"
    and "(wstep c mem_queue_api handler)\<^sup>*\<^sup>* (worker_start InMemoryQueueGateway h) w"
  shows "int (length (w_running w)) \<le> wc_max_concurrent c
     \<and> active_count w < wc_max_concurrent c * 2 + max 1 (wc_receive_batch_size c)
     \<and> (\<forall>m \<in> set (mq_queue (w_queue w) @ w_waiting w @ w_running w @ mq_dead_letter (w_queue w)).
          1 \<le> qm_receive_count m \<and> qm_receive_count m \<le> wc_max_attempts c)"
  using mem_gateway.winvD(6-8) [OF mem_worker_inv [OF assms]] by blast

theorem worker_keeps_limits_witness:
  "active_count (demo_w demo_q2 [] [demo_msg]) < wc_max_concurrent demo_cfg * 2 + max 1 (wc_receive_batch_size demo_cfg)"
  using worker_keeps_limits [OF demo_cfg_ok demo_reachable] by blast

text \<open>
  A failing message is retried and then dead-lettered: when the handler of a running message
  raises, the message goes to the end of the queue with its delivery count raised by one if the error
  may be retried and fewer than \<open>max_attempts\<close> deliveries were made, and otherwise to the dead-letter
  list; it is acknowledged exactly when the handler returns.
\<close>

theorem failed_message_retried_or_dead_lettered:
  assumes "AsyncPollingWorker c = Inr c"
    and "(wstep c mem_queue_api handler)\<^sup>*\<^sup>* (worker_start InMemoryQueueGateway h) w"
    and "m \<in> set (w_running w)" and "dispatch c mem_queue_api handler m (w_queue w, w_handler w) = (q', h')"
  shows "dict_get (mq_inflight q') (qm_id m) = None \<and>
     (case fst (handler m (w_handler w)) of
        Inr _ \<Rightarrow> mq_queue q' = mq_queue (w_queue w) \<and> mq_dead_letter q' = mq_dead_letter (w_queue w)
      | Inl e \<Rightarrow> if \<not> is_non_retryable e \<and> qm_receive_count m < wc_max_attempts c
          then mq_queue q' = mq_queue (w_queue w) @ [m\<lparr>qm_receive_count := qm_receive_count m + 1\<rparr>]
               \<and> mq_dead_letter q' = mq_dead_letter (w_queue w)
          else mq_queue q' = mq_queue (w_queue w) \<and> mq_dead_letter q' = mq_dead_letter (w_queue w) @ [m])"
proof -
  note inv = mem_gateway.winvD [OF mem_worker_inv [OF assms(1,2)]]
  have "dict_get (mq_inflight (w_queue w)) (qm_id m) = Some m" using inv(4) [of m] assms(3) by simp
  from mem_gateway.dispatch_effect [OF inv(1) this assms(4)] show ?thesis
    by (auto simp: should_requeue_def split: sum.splits)
qed

theorem failed_message_retried_or_dead_lettered_witness:
  "mq_queue (fst (dispatch demo_cfg mem_queue_api (\<lambda>m h. (Inl (ValueError ''no''), h)) demo_msg (demo_q2, 0 :: nat)))
   = [demo_msg\<lparr>qm_receive_count := 2\<rparr>]"
  using failed_message_retried_or_dead_lettered
    [OF demo_cfg_ok demo_reachable [of "\<lambda>m h. (Inl (ValueError ''no''), h)"], of demo_msg, OF _ surjective_pairing]
  by (simp add: demo_w_def demo_msg_def demo_cfg_def demo_q2_def)

end
