(* ===== verification/Interleaving.thy ===== *)
theory Interleaving
  imports Errors "HOL-Library.Multiset"
begin

text \<open>
  Coroutines that share a server. A coroutine is the tree of its awaits: at each of them the server performs one command
  atomically and the coroutine goes on with the answer. Coroutines of many processes are interleaved by a schedule, the list
  of whose turn it is.

  The proof rule is that of ghost tokens: a coroutine holds a multiset of tokens that say what it knows of the server or owes
  it, and the invariant relates the server's state to all the tokens held. A coroutine that keeps the invariant at each of its
  awaits, whatever tokens the others hold, keeps it under every schedule.
\<close>

section \<open>Coroutines\<close>

datatype ('s, 'r) prog = Done 'r | Await "'s \<Rightarrow> 's \<times> ('s, 'r) prog"

primrec bind :: "('s, 'a) prog \<Rightarrow> ('a \<Rightarrow> ('s, 'b) prog) \<Rightarrow> ('s, 'b) prog" where
  "bind (Done r) f = f r"
| "bind (Await a) f = Await (\<lambda>s. map_prod id (\<lambda>p. bind p f) (a s))"

definition await :: "('s \<Rightarrow> 'a \<times> 's) \<Rightarrow> ('a \<Rightarrow> ('s, 'b) prog) \<Rightarrow> ('s, 'b) prog" where
  "await cmd f = Await (\<lambda>s. case cmd s of (x, s') \<Rightarrow> (s', f x))"

text \<open>A call that may raise: the exception leaves the caller as well.\<close>

definition call :: "('s, exn + 'a) prog \<Rightarrow> ('a \<Rightarrow> ('s, exn + 'b) prog) \<Rightarrow> ('s, exn + 'b) prog" where
  "call p f = bind p (\<lambda>r. case r of Inl e \<Rightarrow> Done (Inl e) | Inr x \<Rightarrow> f x)"

text \<open>Alone on the server.\<close>

primrec exec :: "('s, 'r) prog \<Rightarrow> 's \<Rightarrow> 'r \<times> 's" where
  "exec (Done r) = (\<lambda>s. (r, s))"
| "exec (Await a) = (\<lambda>s. case map_prod id exec (a s) of (s', g) \<Rightarrow> g s')"

text \<open>Among others.\<close>

definition turn :: "nat \<Rightarrow> 's \<times> ('s, 'r) prog list \<Rightarrow> 's \<times> ('s, 'r) prog list" where
  "turn i c = (case c of (s, ps) \<Rightarrow>
     if i < length ps then (case ps ! i of Done r \<Rightarrow> (s, ps) | Await a \<Rightarrow> (case a s of (s', p) \<Rightarrow> (s', ps[i := p])))
     else (s, ps))"

primrec schedule :: "nat list \<Rightarrow> 's \<times> ('s, 'r) prog list \<Rightarrow> 's \<times> ('s, 'r) prog list" where
  "schedule [] c = c"
| "schedule (i # is) c = schedule is (turn i c)"

fun result :: "('s, 'r) prog \<Rightarrow> 'r option" where
  "result (Done r) = Some r"
| "result (Await a) = None"

lemma exec_await [simp]: "exec (await cmd f) s = (case cmd s of (x, s') \<Rightarrow> exec (f x) s')"
  by (simp add: await_def split: prod.splits)

lemma bind_Done [simp]: "bind p Done = p"
proof (induction p)
  case (Await a)
  have "map_prod id (\<lambda>p. bind p Done) (a s) = a s" for s using Await.IH [OF rangeI, of "snd (a s)" s] by (cases "a s") auto
  then show ?case by simp
qed simp

lemma exec_bind: "exec (bind p f) s = (case exec p s of (x, s') \<Rightarrow> exec (f x) s')"
proof (induction p arbitrary: s)
  case (Await a)
  obtain s' p where a: "a s = (s', p)" by (cases "a s")
  have "exec (bind p f) s' = (case exec p s' of (x, s'') \<Rightarrow> exec (f x) s'')" using Await.IH [OF rangeI, of p s s'] by (simp add: a)
  then show ?case by (simp add: a)
qed simp

lemma exec_call: "exec (call p f) s = (case exec p s of (Inl e, s') \<Rightarrow> (Inl e, s') | (Inr x, s') \<Rightarrow> exec (f x) s')"
  by (auto simp: call_def exec_bind split: prod.splits sum.splits)

section \<open>Tokens\<close>

inductive safe :: "('s \<Rightarrow> 'g multiset \<Rightarrow> bool) \<Rightarrow> ('r \<Rightarrow> 'g multiset \<Rightarrow> bool) \<Rightarrow> 'g multiset \<Rightarrow> ('s, 'r) prog \<Rightarrow> bool"
  for I :: "'s \<Rightarrow> 'g multiset \<Rightarrow> bool" and Q :: "'r \<Rightarrow> 'g multiset \<Rightarrow> bool" where
  safe_Done: "Q r g \<Longrightarrow> safe I Q g (Done r)"
| safe_Await: "(\<And>s h. I s (g + h) \<Longrightarrow> \<exists>g'. I (fst (a s)) (g' + h) \<and> safe I Q g' (snd (a s))) \<Longrightarrow> safe I Q g (Await a)"

inductive_cases safe_DoneE: "safe I Q g (Done r)"
inductive_cases safe_AwaitE: "safe I Q g (Await a)"

lemma safe_await:
  assumes "\<And>s h x s'. I s (g + h) \<Longrightarrow> cmd s = (x, s') \<Longrightarrow> \<exists>g'. I s' (g' + h) \<and> safe I Q g' (f x)"
  shows "safe I Q g (await cmd f)"
  unfolding await_def by (rule safe_Await) (auto split: prod.splits intro: assms)

lemma safe_bind:
  assumes "safe I R g p" "\<And>r g'. R r g' \<Longrightarrow> safe I Q g' (f r)"
  shows "safe I Q g (bind p f)"
  using assms
proof (induction rule: safe.induct)
  case (safe_Await g a)
  show ?case unfolding bind.simps
  proof (rule safe.safe_Await)
    fix s h assume "I s (g + h)"
    then obtain g' where "I (fst (a s)) (g' + h)" "safe I Q g' (bind (snd (a s)) f)" using safe_Await by blast
    then show "\<exists>g'. I (fst (map_prod id (\<lambda>p. bind p f) (a s))) (g' + h) \<and> safe I Q g' (snd (map_prod id (\<lambda>p. bind p f) (a s)))" by auto
  qed
qed simp

lemma safe_call:
  assumes "safe I R g p" "\<And>x g'. R (Inr x) g' \<Longrightarrow> safe I Q g' (f x)" "\<And>e g'. R (Inl e) g' \<Longrightarrow> Q (Inl e) g'"
  shows "safe I Q g (call p f)"
  unfolding call_def by (rule safe_bind [OF assms(1)]) (auto split: sum.splits intro: assms safe_Done)

lemma safe_mono: "safe I Q g p \<Longrightarrow> (\<And>r g. Q r g \<Longrightarrow> Q' r g) \<Longrightarrow> safe I Q' g p"
  using safe_bind [where f = Done, of I Q g p Q'] by (simp add: safe_Done)

text \<open>The tokens of all coroutines of a configuration.\<close>

definition held :: "('s \<Rightarrow> 'g multiset \<Rightarrow> bool) \<Rightarrow> ('r \<Rightarrow> 'g multiset \<Rightarrow> bool) \<Rightarrow> 's \<times> ('s, 'r) prog list \<Rightarrow> 'g multiset list \<Rightarrow> bool" where
  "held I Q c gs \<longleftrightarrow> length gs = length (snd c) \<and> (\<forall>i < length gs. safe I Q (gs ! i) (snd c ! i)) \<and> I (fst c) (sum_list gs)"

lemma sum_list_frame:
  fixes gs :: "'g multiset list"
  assumes "i < length gs"
  obtains h where "sum_list gs = gs ! i + h" "\<And>g'. sum_list (gs[i := g']) = g' + h"
proof
  show "sum_list gs = gs ! i + (sum_list (take i gs) + sum_list (drop (Suc i) gs))"
    using arg_cong [OF id_take_nth_drop [OF assms], of sum_list] by (simp add: ac_simps)
  show "sum_list (gs[i := g']) = g' + (sum_list (take i gs) + sum_list (drop (Suc i) gs))" for g'
    by (simp add: upd_conv_take_nth_drop [OF assms] ac_simps)
qed

lemma held_turn:
  assumes "held I Q c gs"
  shows "\<exists>gs'. held I Q (turn i c) gs'"
proof (cases "i < length gs")
  case False
  then show ?thesis using assms by (auto simp: turn_def held_def split: prod.splits)
next
  case True
  obtain s ps where c: "c = (s, ps)" by (cases c)
  show ?thesis
  proof (cases "ps ! i")
    case (Done r)
    with assms c True show ?thesis by (auto simp: turn_def held_def)
  next
    case (Await a)
    from assms c True have s: "safe I Q (gs ! i) (Await a)" by (force simp: held_def Await [symmetric])
    obtain h where h: "sum_list gs = gs ! i + h" "\<And>g'. sum_list (gs[i := g']) = g' + h" using sum_list_frame [OF True] by blast
    then have "I s (gs ! i + h)" using assms c by (simp add: held_def)
    with s obtain g' where g': "I (fst (a s)) (g' + h)" "safe I Q g' (snd (a s))" by (blast elim: safe_AwaitE)
    then have "held I Q (turn i c) (gs[i := g'])"
      using assms c True Await by (auto simp: held_def turn_def h nth_list_update split: prod.splits)
    then show ?thesis by blast
  qed
qed

theorem schedule_keeps:
  assumes "held I Q c gs"
  shows "\<exists>gs'. held I Q (schedule is c) gs'"
  using assms
proof (induction "is" arbitrary: c gs)
  case (Cons i "is")
  then show ?case using held_turn [OF Cons.prems, of i] by fastforce
qed auto

lemma length_turn [simp]: "length (snd (turn i c)) = length (snd c)"
  by (auto simp: turn_def split: prod.splits prog.splits)

lemma length_schedule [simp]: "length (snd (schedule is c)) = length (snd c)"
  by (induction "is" arbitrary: c) auto

section \<open>Rely and guarantee\<close>

text \<open>
  Where what a coroutine knows is never undone by the others, no tokens have to be counted: \<open>R\<close> is what every command may do to the server,
  \<open>J\<close> the invariant, and between its awaits a coroutine relies on assertions that \<open>R\<close> does not falsify. \<open>Q\<close> is what holds of its result.
\<close>

definition stable :: "('s \<Rightarrow> 's \<Rightarrow> bool) \<Rightarrow> ('s \<Rightarrow> bool) \<Rightarrow> bool" where
  "stable R K \<longleftrightarrow> (\<forall>s s'. R s s' \<longrightarrow> K s \<longrightarrow> K s')"

inductive keeps :: "('s \<Rightarrow> bool) \<Rightarrow> ('s \<Rightarrow> 's \<Rightarrow> bool) \<Rightarrow> ('r \<Rightarrow> 's \<Rightarrow> bool) \<Rightarrow> ('s \<Rightarrow> bool) \<Rightarrow> ('s, 'r) prog \<Rightarrow> bool"
  for J :: "'s \<Rightarrow> bool" and R :: "'s \<Rightarrow> 's \<Rightarrow> bool" and Q :: "'r \<Rightarrow> 's \<Rightarrow> bool" where
  keeps_Done: "(\<And>s. J s \<Longrightarrow> K s \<Longrightarrow> Q r s) \<Longrightarrow> keeps J R Q K (Done r)"
| keeps_Await: "(\<And>s. J s \<Longrightarrow> K s \<Longrightarrow> R s (fst (a s)) \<and> J (fst (a s)) \<and>
    (\<exists>K'. K' (fst (a s)) \<and> stable R K' \<and> keeps J R Q K' (snd (a s)))) \<Longrightarrow> keeps J R Q K (Await a)"

inductive_cases keeps_DoneE: "keeps J R Q K (Done r)"
inductive_cases keeps_AwaitE: "keeps J R Q K (Await a)"

lemma keeps_await:
  assumes "\<And>s x s'. J s \<Longrightarrow> K s \<Longrightarrow> cmd s = (x, s') \<Longrightarrow> R s s' \<and> J s' \<and> K' x s'" "\<And>x. stable R (K' x)" "\<And>x. keeps J R Q (K' x) (f x)"
  shows "keeps J R Q K (await cmd f)"
  unfolding await_def
proof (rule keeps_Await)
  fix s assume s: "J s" "K s"
  obtain x s' where c: "cmd s = (x, s')" by fastforce
  show "R s (fst (case cmd s of (x, s') \<Rightarrow> (s', f x))) \<and> J (fst (case cmd s of (x, s') \<Rightarrow> (s', f x))) \<and>
    (\<exists>K'. K' (fst (case cmd s of (x, s') \<Rightarrow> (s', f x))) \<and> stable R K' \<and> keeps J R Q K' (snd (case cmd s of (x, s') \<Rightarrow> (s', f x))))"
    using assms(1) [OF s c] assms(2,3) by (simp add: c) blast
qed

lemma keeps_pre:
  assumes "keeps J R Q K' p" "\<And>s. J s \<Longrightarrow> K s \<Longrightarrow> K' s"
  shows "keeps J R Q K p"
  using assms(1)
proof (cases rule: keeps.cases)
  case keeps_Done
  then show ?thesis using assms(2) by (auto intro: keeps.keeps_Done)
next
  case (keeps_Await a)
  show ?thesis unfolding keeps_Await(1) by (rule keeps.keeps_Await) (use keeps_Await(2) assms(2) in blast)
qed

lemma keeps_bind:
  assumes "keeps J R P K p" "\<And>r. keeps J R Q (P r) (f r)"
  shows "keeps J R Q K (bind p f)"
  using assms(1)
proof (induction rule: keeps.induct)
  case (keeps_Done K r)
  then show ?case using keeps_pre [OF assms(2)] by simp
next
  case (keeps_Await K a)
  show ?case unfolding bind.simps by (rule keeps.keeps_Await) (use keeps_Await in \<open>fastforce\<close>)
qed

lemma keeps_call:
  assumes "keeps J R P K p" "\<And>x. keeps J R Q (P (Inr x)) (f x)" "\<And>e s. J s \<Longrightarrow> P (Inl e) s \<Longrightarrow> Q (Inl e) s"
  shows "keeps J R Q K (call p f)"
  unfolding call_def by (rule keeps_bind [OF assms(1)]) (auto split: sum.splits intro: assms keeps_Done)

definition relies :: "('s \<Rightarrow> bool) \<Rightarrow> ('s \<Rightarrow> 's \<Rightarrow> bool) \<Rightarrow> ('r \<Rightarrow> 's \<Rightarrow> bool) \<Rightarrow> 's \<Rightarrow> ('s, 'r) prog \<Rightarrow> bool" where
  "relies J R Q s p \<longleftrightarrow> (\<exists>K. K s \<and> stable R K \<and> keeps J R Q K p)"

lemma reliesI: "keeps J R Q K p \<Longrightarrow> stable R K \<Longrightarrow> K s \<Longrightarrow> relies J R Q s p"
  unfolding relies_def by metis

lemma relies_moves:
  assumes "relies J R Q s p" "R s s'"
  shows "relies J R Q s' p"
proof -
  obtain K where K: "K s" "stable R K" "keeps J R Q K p" using assms(1) by (auto simp: relies_def)
  then have "K s'" using assms(2) unfolding stable_def by metis
  with K(2,3) show ?thesis unfolding relies_def by metis
qed

lemma relies_turn:
  assumes "J (fst c)" "\<forall>p \<in> set (snd c). relies J R Q (fst c) p"
  shows "J (fst (turn i c)) \<and> (\<forall>p \<in> set (snd (turn i c)). relies J R Q (fst (turn i c)) p)"
proof -
  obtain s ps where c: "c = (s, ps)" by (cases c)
  show ?thesis
  proof (cases "i < length ps")
    case False
    then show ?thesis using assms by (simp add: turn_def c)
  next
    case i: True
    show ?thesis
    proof (cases "ps ! i")
      case (Done r)
      then show ?thesis using assms i by (simp add: turn_def c)
    next
      case (Await a)
      obtain s' p where a: "a s = (s', p)" by (cases "a s")
      obtain K where K: "K s" "keeps J R Q K (Await a)" using assms(2) nth_mem [OF i] by (auto simp: c relies_def Await)
      from keeps_AwaitE [OF K(2)] assms(1) K(1) have "R s (fst (a s)) \<and> J (fst (a s)) \<and> (\<exists>K'. K' (fst (a s)) \<and> stable R K' \<and> keeps J R Q K' (snd (a s)))"
        unfolding c fst_conv by metis
      then have st: "R s s'" "J s'" "\<exists>K'. K' s' \<and> stable R K' \<and> keeps J R Q K' p" unfolding a fst_conv snd_conv by blast+
      have "relies J R Q s' q" if "q \<in> set ps" for q
        by (rule relies_moves [where s = s]) (use assms(2) that st(1) in \<open>simp_all add: c\<close>)
      moreover have "relies J R Q s' p" using st(3) by (simp add: relies_def)
      ultimately have "\<forall>q \<in> set (ps[i := p]). relies J R Q s' q" using set_update_subset_insert [of ps i p] by blast
      then show ?thesis using st(2) i by (simp add: turn_def c Await a)
    qed
  qed
qed

theorem schedule_relies:
  assumes "J s" "\<forall>p \<in> set ps. relies J R Q s p" "schedule is (s, ps) = (s', ps')"
  shows "J s'" "\<forall>p \<in> set ps'. \<forall>r. result p = Some r \<longrightarrow> Q r s'"
proof -
  have "J (fst (schedule is c)) \<and> (\<forall>p \<in> set (snd (schedule is c)). relies J R Q (fst (schedule is c)) p)"
    if "J (fst c)" "\<forall>p \<in> set (snd c). relies J R Q (fst c) p" for c
    using that by (induction "is" arbitrary: c) (simp_all add: relies_turn)
  from this [of "(s, ps)"] have *: "J s'" "\<forall>p \<in> set ps'. relies J R Q s' p" using assms by simp_all
  show "J s'" by fact
  show "\<forall>p \<in> set ps'. \<forall>r. result p = Some r \<longrightarrow> Q r s'"
  proof (intro ballI allI impI)
    fix p r assume p: "p \<in> set ps'" "result p = Some r"
    then have "p = Done r" by (metis result.simps option.inject option.distinct(1) prog.exhaust)
    then obtain K where "K s'" "keeps J R Q K (Done r)" using * p(1) by (auto simp: relies_def)
    then show "Q r s'" using keeps_DoneE *(1) by metis
  qed
qed


end
