(* ===== verification/Queue_Streams.thy ===== *)
theory Queue_Streams
  imports Queue Interleaving "HOL-Library.Countable"
begin

text \<open>
  The queue gateway on Redis streams (\<open>src/app/modules/messaging/queue/adapters/redis_stream.py\<close>).

  Redis is an argument, the record of the commands the gateway sends; a call is a coroutine of them, and the commands of one
  \<open>MULTI\<close> are one step. What their documentation promises is the locale \<open>redis_streams\<close>. The JSON module is an argument too:
  \<open>dumps\<close> writes an object, \<open>loads\<close> reads the text of one (\<open>None\<close> where it raises). A client returns texts as \<open>str\<close> or as \<open>bytes\<close>,
  depending on how it was built; bytes are given by the text they decode to. A command that fails, and a process that stops, end a
  call at the await where it is: a schedule that leaves calls unfinished covers them.
\<close>

section \<open>The gateway\<close>

datatype rtext = RStr string | RBytes string

fun rdecode :: "rtext \<Rightarrow> string" where
  "rdecode (RStr t) = t"
| "rdecode (RBytes t) = t"

type_synonym fields = "(rtext, rtext) dict"

text \<open>
  \<open>x_add\<close> takes the stream, the fields and \<open>maxlen\<close>; \<open>x_group_create\<close> answers the message of a \<open>ResponseError\<close>; \<open>x_readgroup\<close> takes
  group, consumer, stream, count and block and answers the entries by stream; \<open>x_autoclaim\<close> takes stream, group, consumer, minimal idle
  time, start and count; \<open>x_claim\<close> takes stream, group, consumer, minimal idle time, ids and the idle time to set; \<open>x_pending_range\<close>
  takes stream, group, least and greatest id and count and answers how often each entry was delivered.
\<close>

record 'r stream_api =
  x_add :: "string \<Rightarrow> (string, string) dict \<Rightarrow> int option \<Rightarrow> 'r \<Rightarrow> rtext \<times> 'r"
  x_group_create :: "string \<Rightarrow> string \<Rightarrow> string \<Rightarrow> 'r \<Rightarrow> string option \<times> 'r"
  x_readgroup :: "string \<Rightarrow> string \<Rightarrow> string \<Rightarrow> int \<Rightarrow> int option \<Rightarrow> 'r \<Rightarrow> (rtext \<times> (rtext \<times> fields) list) list \<times> 'r"
  x_autoclaim :: "string \<Rightarrow> string \<Rightarrow> string \<Rightarrow> int \<Rightarrow> string \<Rightarrow> int \<Rightarrow> 'r \<Rightarrow> (rtext \<times> fields) list \<times> 'r"
  x_pending_range :: "string \<Rightarrow> string \<Rightarrow> string \<Rightarrow> string \<Rightarrow> int \<Rightarrow> 'r \<Rightarrow> int list"
  x_ack :: "string \<Rightarrow> string \<Rightarrow> string \<Rightarrow> 'r \<Rightarrow> 'r"
  x_del :: "string \<Rightarrow> string \<Rightarrow> 'r \<Rightarrow> 'r"
  x_claim :: "string \<Rightarrow> string \<Rightarrow> string \<Rightarrow> int \<Rightarrow> string list \<Rightarrow> int \<Rightarrow> 'r \<Rightarrow> 'r"

record 'r stream_gateway =
  sg_redis :: "'r stream_api"
  sg_dumps :: "body \<Rightarrow> string"
  sg_loads :: "string \<Rightarrow> body option"
  sg_stream :: string
  sg_dead_stream :: string
  sg_consumer_group :: string
  sg_consumer_name :: string
  sg_min_idle_ms :: int
  sg_max_deliveries :: int
  sg_dead_letter_maxlen :: int

text \<open>\<open>hostname\<close> is the environment variable \<open>HOSTNAME\<close>, \<open>hex\<close> the hexadecimal text of a fresh UUID.\<close>

definition RedisStreamQueueGateway ::
  "'r stream_api \<Rightarrow> (body \<Rightarrow> string) \<Rightarrow> (string \<Rightarrow> body option) \<Rightarrow> string \<Rightarrow> string \<Rightarrow> string option \<Rightarrow> string option \<Rightarrow> string \<Rightarrow> seconds \<Rightarrow> int \<Rightarrow> int
     \<Rightarrow> 'r stream_gateway" where
  "RedisStreamQueueGateway redis dumps loads stream consumer_group consumer_name hostname hex min_idle_seconds max_deliveries maxlen =
     \<lparr>sg_redis = redis, sg_dumps = dumps, sg_loads = loads, sg_stream = stream, sg_dead_stream = stream @ '':dead'',
      sg_consumer_group = consumer_group,
      sg_consumer_name = (if dflt '''' consumer_name \<noteq> '''' then dflt '''' consumer_name
                          else if dflt '''' hostname \<noteq> '''' then dflt '''' hostname else ''worker-'' @ take 8 hex),
      sg_min_idle_ms = py_trunc (min_idle_seconds * 1000), sg_max_deliveries = max_deliveries, sg_dead_letter_maxlen = maxlen\<rparr>"

definition filled :: "rtext option \<Rightarrow> string option" where
  "filled v = (case v of None \<Rightarrow> None | Some t \<Rightarrow> if rdecode t = '''' then None else Some (rdecode t))"

definition body_raw :: "fields \<Rightarrow> string option" where
  "body_raw fs = (case filled (dict_get fs (RStr ''body'')) of Some t \<Rightarrow> Some t | None \<Rightarrow> filled (dict_get fs (RBytes ''body'')))"

definition to_message :: "(string \<Rightarrow> body option) \<Rightarrow> rtext \<Rightarrow> fields \<Rightarrow> int \<Rightarrow> exn + qmsg" where
  "to_message loads raw_id fs receive_count = (case (case body_raw fs of None \<Rightarrow> Some [] | Some t \<Rightarrow> loads t) of
      None \<Rightarrow> Inl JSONDecodeError
    | Some b \<Rightarrow> Inr \<lparr>qm_id = rdecode raw_id, qm_body = b, qm_receive_count = receive_count\<rparr>)"

definition sq_send :: "'r stream_gateway \<Rightarrow> body \<Rightarrow> ('r, exn + string) prog" where
  "sq_send g payload = await (x_add (sg_redis g) (sg_stream g) [(''body'', sg_dumps g payload)] None) (\<lambda>i. Done (Inr (rdecode i)))"

definition dead_letter :: "'r stream_gateway \<Rightarrow> string \<Rightarrow> body \<Rightarrow> string \<Rightarrow> int option \<Rightarrow> ('r, exn + unit) prog" where
  "dead_letter g message_id b reason receive_count =
     (let fields = [(''body'', sg_dumps g b), (''original_message_id'', message_id), (''reason'', reason)]
                   @ (case receive_count of None \<Rightarrow> [] | Some n \<Rightarrow> [(''receive_count'', int_str n)]) in
      await (\<lambda>s. let (_, s1) = x_add (sg_redis g) (sg_dead_stream g) fields (Some (sg_dead_letter_maxlen g)) s;
                     s2 = x_ack (sg_redis g) (sg_stream g) (sg_consumer_group g) message_id s1 in
                 ((), x_del (sg_redis g) (sg_stream g) message_id s2)) (\<lambda>_. Done (Inr ())))"

fun claim_entries :: "'r stream_gateway \<Rightarrow> (rtext \<times> fields) list \<Rightarrow> qmsg list \<Rightarrow> ('r, exn + qmsg list) prog" where
  "claim_entries g [] messages = Done (Inr messages)"
| "claim_entries g ((raw_id, fs) # entries) messages =
     (let message_id = rdecode raw_id in
      if fs = [] then await (\<lambda>s. ((), x_ack (sg_redis g) (sg_stream g) (sg_consumer_group g) message_id s)) (\<lambda>_. claim_entries g entries messages)
      else await (\<lambda>s. (x_pending_range (sg_redis g) (sg_stream g) (sg_consumer_group g) message_id message_id 1 s, s)) (\<lambda>pending.
        let delivered = (case pending of [] \<Rightarrow> 1 | n # _ \<Rightarrow> n) in
        case to_message (sg_loads g) raw_id fs delivered of
          Inl e \<Rightarrow> Done (Inl e)
        | Inr m \<Rightarrow>
            if delivered > sg_max_deliveries g
            then call (dead_letter g (qm_id m) (qm_body m) ''max_deliveries'' (Some delivered)) (\<lambda>_. claim_entries g entries messages)
            else claim_entries g entries (messages @ [m])))"

definition claim_idle :: "'r stream_gateway \<Rightarrow> int \<Rightarrow> ('r, exn + qmsg list) prog" where
  "claim_idle g max_count =
     await (x_autoclaim (sg_redis g) (sg_stream g) (sg_consumer_group g) (sg_consumer_name g) (sg_min_idle_ms g) ''0-0'' max_count)
       (\<lambda>entries. claim_entries g entries [])"

text \<open>\<open>_group_ready\<close> is read when the call starts; its value afterwards is part of the result.\<close>

definition ensure_group :: "'r stream_gateway \<Rightarrow> bool \<Rightarrow> ('r, (exn + unit) \<times> bool) prog" where
  "ensure_group g ready =
     (if ready then Done (Inr (), ready)
      else await (x_group_create (sg_redis g) (sg_stream g) (sg_consumer_group g) ''0'') (\<lambda>err. case err of
          None \<Rightarrow> Done (Inr (), True)
        | Some msg \<Rightarrow> if contains ''BUSYGROUP'' msg then Done (Inr (), True)
                      else Done (Inl (Foreign (plain_view ''ResponseError'' (''RedisError'' # exception_bases))), ready)))"

fun append_entries :: "(string \<Rightarrow> body option) \<Rightarrow> (rtext \<times> fields) list \<Rightarrow> qmsg list \<Rightarrow> exn + qmsg list" where
  "append_entries loads [] messages = Inr messages"
| "append_entries loads ((raw_id, fs) # entries) messages = (case to_message loads raw_id fs 1 of
      Inl e \<Rightarrow> Inl e
    | Inr m \<Rightarrow> append_entries loads entries (messages @ [m]))"

definition read_new :: "'r stream_gateway \<Rightarrow> int \<Rightarrow> seconds \<Rightarrow> qmsg list \<Rightarrow> ('r, exn + qmsg list) prog" where
  "read_new g max_messages wait_seconds messages =
     (let remaining = max_messages - int (length messages);
          block_ms = (if messages \<noteq> [] then None else if wait_seconds > 0 then Some (py_trunc (wait_seconds * 1000)) else None) in
      if remaining > 0
      then await (x_readgroup (sg_redis g) (sg_consumer_group g) (sg_consumer_name g) (sg_stream g) remaining block_ms)
             (\<lambda>response. Done (append_entries (sg_loads g) (concat (map snd response)) messages))
      else Done (Inr messages))"

definition sq_receive :: "'r stream_gateway \<Rightarrow> int \<Rightarrow> seconds \<Rightarrow> bool \<Rightarrow> ('r, (exn + qmsg list) \<times> bool) prog" where
  "sq_receive g max_messages wait_seconds ready =
     bind (ensure_group g ready) (\<lambda>(r, ready'). case r of
       Inl e \<Rightarrow> Done (Inl e, ready')
     | Inr _ \<Rightarrow> bind (call (claim_idle g max_messages) (read_new g max_messages wait_seconds)) (\<lambda>r. Done (r, ready')))"

definition sq_ack :: "'r stream_gateway \<Rightarrow> qmsg \<Rightarrow> ('r, exn + unit) prog" where
  "sq_ack g m = await (\<lambda>s. ((), x_del (sg_redis g) (sg_stream g) (qm_id m) (x_ack (sg_redis g) (sg_stream g) (sg_consumer_group g) (qm_id m) s)))
     (\<lambda>_. Done (Inr ()))"

definition sq_nack :: "'r stream_gateway \<Rightarrow> qmsg \<Rightarrow> bool \<Rightarrow> ('r, exn + unit) prog" where
  "sq_nack g m requeue =
     (if \<not> requeue then dead_letter g (qm_id m) (qm_body m) ''rejected'' None
      else await (\<lambda>s. ((), x_claim (sg_redis g) (sg_stream g) (sg_consumer_group g) (sg_consumer_name g) 0 [qm_id m] (sg_min_idle_ms g) s))
             (\<lambda>_. Done (Inr ())))"

section \<open>What Redis promises\<close>

text \<open>
  \<open>written s k\<close> are the entries ever added to stream \<open>k\<close>, by id (ids are not used again); \<open>live s k\<close> those not deleted or trimmed. A client
  answers fields all as \<open>str\<close> or all as \<open>bytes\<close>.
\<close>

definition sent_as :: "fields \<Rightarrow> (string, string) dict \<Rightarrow> bool" where
  "sent_as fs e \<longleftrightarrow> fs = map (map_prod RStr RStr) e \<or> fs = map (map_prod RBytes RBytes) e"

text \<open>\<open>MAXLEN\<close> trims the oldest entries beyond the cap: nothing while no more than \<open>mx\<close> entries were ever added.\<close>

definition has_room :: "('r \<Rightarrow> string \<Rightarrow> string \<Rightarrow> (string, string) dict option) \<Rightarrow> string \<Rightarrow> int \<Rightarrow> 'r \<Rightarrow> bool" where
  "has_room written k mx s \<longleftrightarrow> finite (dom (written s k)) \<and> int (card (dom (written s k))) \<le> mx"

locale redis_streams =
  fixes api :: "'r stream_api" and written :: "'r \<Rightarrow> string \<Rightarrow> string \<Rightarrow> (string, string) dict option" and live :: "'r \<Rightarrow> string \<Rightarrow> string set"
  assumes add_law: "x_add api k e mx s = (i, s') \<Longrightarrow>
      written s k (rdecode i) = None \<and> written s' = (written s)(k := (written s k)(rdecode i \<mapsto> e))"
    and add_live: "x_add api k e mx s = (i, s') \<Longrightarrow> k' \<noteq> k \<or> mx = None \<Longrightarrow> live s k' \<subseteq> live s' k'"
    and add_capped: "x_add api k e (Some room) s = (i, s') \<Longrightarrow> has_room written k room s' \<Longrightarrow> insert (rdecode i) (live s k) \<subseteq> live s' k"
    and del_law: "written (x_del api k j s) = written s \<and> live (x_del api k j s) = (live s)(k := live s k - {j})"
    and ack_law: "written (x_ack api k grp j s) = written s \<and> live (x_ack api k grp j s) = live s"
    and claim_law: "written (x_claim api k grp c idle ids new_idle s) = written s \<and> live (x_claim api k grp c idle ids new_idle s) = live s"
    and group_law: "x_group_create api k grp start s = (err, s') \<Longrightarrow> written s' = written s \<and> live s' = live s"
    and read_law: "x_readgroup api grp c k n block s = (response, s') \<Longrightarrow> written s' = written s \<and> live s' = live s"
    and read_entry: "x_readgroup api grp c k n block s = (response, s') \<Longrightarrow> (i, fs) \<in> set (concat (map snd response)) \<Longrightarrow>
      \<exists>e. written s k (rdecode i) = Some e \<and> sent_as fs e"
    and autoclaim_law: "x_autoclaim api k grp c idle start n s = (entries, s') \<Longrightarrow> written s' = written s \<and> live s' = live s"
    and autoclaim_entry: "x_autoclaim api k grp c idle start n s = (entries, s') \<Longrightarrow> (i, fs) \<in> set entries \<Longrightarrow> fs \<noteq> [] \<Longrightarrow>
      \<exists>e. written s k (rdecode i) = Some e \<and> sent_as fs e"

section \<open>No message lost\<close>

text \<open>The object an entry carries, as \<open>_to_message\<close> reads it.\<close>

definition entry_body :: "(string \<Rightarrow> body option) \<Rightarrow> (string, string) dict \<Rightarrow> body option" where
  "entry_body loads e = (case dict_get e ''body'' of None \<Rightarrow> Some [] | Some t \<Rightarrow> if t = '''' then Some [] else loads t)"

text \<open>A message is genuine: its body is that of the entry with its id. An entry is dead-lettered: one with its id and body was
  added to the dead stream, and is in it still unless more entries than the cap of that stream were added.\<close>

definition genuine :: "('r \<Rightarrow> string \<Rightarrow> string \<Rightarrow> (string, string) dict option) \<Rightarrow> 'r stream_gateway \<Rightarrow> 'r \<Rightarrow> qmsg \<Rightarrow> bool" where
  "genuine written g s m \<longleftrightarrow> (\<exists>e. written s (sg_stream g) (qm_id m) = Some e \<and> entry_body (sg_loads g) e = Some (qm_body m))"

definition dead_lettered ::
  "('r \<Rightarrow> string \<Rightarrow> string \<Rightarrow> (string, string) dict option) \<Rightarrow> ('r \<Rightarrow> string \<Rightarrow> string set) \<Rightarrow> 'r stream_gateway \<Rightarrow> string \<Rightarrow> body \<Rightarrow> 'r \<Rightarrow> bool" where
  "dead_lettered written live g i b s \<longleftrightarrow> (\<exists>j e t. written s (sg_dead_stream g) j = Some e \<and> dict_get e ''original_message_id'' = Some i \<and>
     dict_get e ''body'' = Some t \<and> sg_loads g t = Some b \<and>
     (has_room written (sg_dead_stream g) (sg_dead_letter_maxlen g) s \<longrightarrow> j \<in> live s (sg_dead_stream g)))"

definition append_only :: "('r \<Rightarrow> string \<Rightarrow> string \<Rightarrow> (string, string) dict option) \<Rightarrow> 'r \<Rightarrow> 'r \<Rightarrow> bool" where
  "append_only written s s' \<longleftrightarrow> (\<forall>k j e. written s k j = Some e \<longrightarrow> written s' k j = Some e)"

definition grows ::
  "('r \<Rightarrow> string \<Rightarrow> string \<Rightarrow> (string, string) dict option) \<Rightarrow> ('r \<Rightarrow> string \<Rightarrow> string set) \<Rightarrow> 'r stream_gateway \<Rightarrow> 'r \<Rightarrow> 'r \<Rightarrow> bool" where
  "grows written live g s s' \<longleftrightarrow> append_only written s s' \<and>
     (has_room written (sg_dead_stream g) (sg_dead_letter_maxlen g) s' \<longrightarrow> live s (sg_dead_stream g) \<subseteq> live s' (sg_dead_stream g))"

definition entry_kept :: "('r \<Rightarrow> string \<Rightarrow> string \<Rightarrow> (string, string) dict option) \<Rightarrow> ('r \<Rightarrow> string \<Rightarrow> string set) \<Rightarrow> 'r stream_gateway \<Rightarrow> string \<Rightarrow> body \<Rightarrow> 'r \<Rightarrow> bool" where
  "entry_kept written live g i b s \<longleftrightarrow> (\<exists>e. written s (sg_stream g) i = Some e \<and> entry_body (sg_loads g) e = Some b) \<and>
     (i \<in> live s (sg_stream g) \<or> dead_lettered written live g i b s)"

text \<open>Gateways of the same stream, on the same server.\<close>

definition same_stream :: "'r stream_gateway \<Rightarrow> 'r stream_gateway \<Rightarrow> bool" where
  "same_stream g g' \<longleftrightarrow> sg_redis g' = sg_redis g \<and> sg_dumps g' = sg_dumps g \<and> sg_loads g' = sg_loads g \<and> sg_stream g' = sg_stream g \<and>
     sg_dead_stream g' = sg_dead_stream g \<and> sg_dead_letter_maxlen g' = sg_dead_letter_maxlen g"

lemma dict_get_map_prod: "inj C \<Longrightarrow> dict_get (map (map_prod C D) e) (C k) = map_option D (dict_get e k)"
  by (induction e) (auto dest: injD)

lemma dict_get_other: "(\<And>x. C x \<noteq> k) \<Longrightarrow> dict_get (map (map_prod C D) e) k = None"
  by (induction e) auto

lemma body_raw_sent: "sent_as fs e \<Longrightarrow> body_raw fs = (case dict_get e ''body'' of None \<Rightarrow> None | Some t \<Rightarrow> if t = '''' then None else Some t)"
  using dict_get_map_prod [of RStr RStr e "''body''"] dict_get_map_prod [of RBytes RBytes e "''body''"]
    dict_get_other [of RStr "RBytes ''body''" RStr e] dict_get_other [of RBytes "RStr ''body''" RBytes e]
  by (cases "dict_get e ''body''") (auto simp: sent_as_def body_raw_def filled_def inj_def)

lemma to_message_sent:
  assumes "to_message loads i fs n = Inr m" "sent_as fs e"
  shows "qm_id m = rdecode i \<and> entry_body loads e = Some (qm_body m)"
  using assms(1) body_raw_sent [OF assms(2)]
  by (cases "dict_get e ''body''") (auto simp: to_message_def entry_body_def split: option.splits if_splits)

lemma grows_refl: "written s' = written s \<Longrightarrow> live s (sg_dead_stream g) \<subseteq> live s' (sg_dead_stream g) \<Longrightarrow> grows written live g s s'"
  by (simp add: grows_def append_only_def)

lemma grows_append: "grows written live g s s' \<Longrightarrow> append_only written s s'"
  by (simp add: grows_def)

lemma has_room_before: "append_only written s s' \<Longrightarrow> has_room written k mx s' \<Longrightarrow> has_room written k mx s"
proof -
  assume a: "append_only written s s'" and r: "has_room written k mx s'"
  have "dom (written s k) \<subseteq> dom (written s' k)" using a by (auto simp: append_only_def)
  with r show "has_room written k mx s"
    using card_mono [of "dom (written s' k)" "dom (written s k)"] finite_subset [of "dom (written s k)"]
    by (auto simp: has_room_def)
qed

lemma stable_genuine: "stable (grows written live g) (\<lambda>s. genuine written g s m)"
  by (auto simp: stable_def grows_def append_only_def genuine_def)

lemma stable_dead: "stable (grows written live g) (\<lambda>s. dead_lettered written live g i b s)"
  unfolding stable_def
proof (intro allI impI)
  fix s s' let ?room = "has_room written (sg_dead_stream g) (sg_dead_letter_maxlen g)"
  assume a: "grows written live g s s'" and "dead_lettered written live g i b s"
  then obtain j e t where j: "written s (sg_dead_stream g) j = Some e" "?room s \<longrightarrow> j \<in> live s (sg_dead_stream g)"
    and e: "dict_get e ''original_message_id'' = Some i" "dict_get e ''body'' = Some t" "sg_loads g t = Some b"
    unfolding dead_lettered_def by blast
  have "written s' (sg_dead_stream g) j = Some e" using grows_append [OF a] j(1) unfolding append_only_def by blast
  moreover have "?room s' \<longrightarrow> j \<in> live s' (sg_dead_stream g)"
    using has_room_before [OF grows_append [OF a]] a j(2) unfolding grows_def by blast
  ultimately show "dead_lettered written live g i b s'" using e unfolding dead_lettered_def by blast
qed

definition entries_known :: "('r \<Rightarrow> string \<Rightarrow> string \<Rightarrow> (string, string) dict option) \<Rightarrow> 'r stream_gateway \<Rightarrow> (rtext \<times> fields) list \<Rightarrow> qmsg list \<Rightarrow> 'r \<Rightarrow> bool" where
  "entries_known written g es ms s \<longleftrightarrow> (\<forall>m \<in> set ms. genuine written g s m) \<and>
     (\<forall>(i, fs) \<in> set es. fs \<noteq> [] \<longrightarrow> (\<exists>e. written s (sg_stream g) (rdecode i) = Some e \<and> sent_as fs e))"

lemma stable_entries: "stable (grows written live g) (entries_known written g es ms)"
  unfolding stable_def entries_known_def
proof (intro allI impI conjI ballI; elim conjE)
  fix s s' m assume "grows written live g s s'" "\<forall>m \<in> set ms. genuine written g s m" "m \<in> set ms"
  then show "genuine written g s' m" using stable_genuine [of written live g m] unfolding stable_def by blast
next
  fix s s' x assume "grows written live g s s'" "x \<in> set es"
    "\<forall>(i, fs) \<in> set es. fs \<noteq> [] \<longrightarrow> (\<exists>e. written s (sg_stream g) (rdecode i) = Some e \<and> sent_as fs e)"
  then show "case x of (i, fs) \<Rightarrow> fs \<noteq> [] \<longrightarrow> (\<exists>e. written s' (sg_stream g) (rdecode i) = Some e \<and> sent_as fs e)"
    unfolding grows_def append_only_def by fastforce
qed

lemma append_entries_genuine:
  assumes "append_entries (sg_loads g) es ms = Inr ms'" "\<forall>m \<in> set ms. genuine written g s m"
    and "\<forall>(i, fs) \<in> set es. \<exists>e. written s (sg_stream g) (rdecode i) = Some e \<and> sent_as fs e"
  shows "\<forall>m \<in> set ms'. genuine written g s m"
  using assms
proof (induction es arbitrary: ms)
  case (Cons x es)
  obtain i fs where x: "x = (i, fs)" by (cases x)
  obtain m where m: "to_message (sg_loads g) i fs 1 = Inr m" "append_entries (sg_loads g) es (ms @ [m]) = Inr ms'"
    using Cons.prems(1) by (auto simp: x split: sum.splits)
  obtain e where "written s (sg_stream g) (rdecode i) = Some e" "sent_as fs e" using Cons.prems(3) by (auto simp: x)
  then have "genuine written g s m" using to_message_sent [OF m(1)] by (auto simp: genuine_def)
  then have "\<forall>m' \<in> set (ms @ [m]). genuine written g s m'" using Cons.prems(2) by simp
  moreover have "\<forall>(i, fs) \<in> set es. \<exists>e. written s (sg_stream g) (rdecode i) = Some e \<and> sent_as fs e" using Cons.prems(3) by simp
  ultimately show ?case by (rule Cons.IH [OF m(2)])
qed simp

lemma entry_kept_mono:
  assumes "entry_kept written live g i b s" "grows written live g s s'" "i \<in> live s (sg_stream g) \<Longrightarrow> i \<in> live s' (sg_stream g) \<or> dead_lettered written live g i b s'"
  shows "entry_kept written live g i b s'"
proof -
  obtain e where e: "written s (sg_stream g) i = Some e" "entry_body (sg_loads g) e = Some b" using assms(1) by (auto simp: entry_kept_def)
  then have "written s' (sg_stream g) i = Some e" using assms(2) by (simp add: grows_def append_only_def)
  moreover have "i \<in> live s' (sg_stream g) \<or> dead_lettered written live g i b s'"
    using assms stable_dead [of written live g i b] unfolding entry_kept_def stable_def by blast
  ultimately show ?thesis using e(2) by (auto simp: entry_kept_def)
qed

definition answers_genuine :: "('r \<Rightarrow> string \<Rightarrow> string \<Rightarrow> (string, string) dict option) \<Rightarrow> 'r stream_gateway \<Rightarrow> exn + qmsg list \<Rightarrow> 'r \<Rightarrow> bool" where
  "answers_genuine written g r s \<longleftrightarrow> (\<forall>ms. r = Inr ms \<longrightarrow> (\<forall>m \<in> set ms. genuine written g s m))"

lemma stable_answers: "stable (grows written live g) (answers_genuine written g r)"
  unfolding stable_def answers_genuine_def
proof (intro allI impI ballI)
  fix s s' ms m assume "grows written live g s s'" "\<forall>ms. r = Inr ms \<longrightarrow> (\<forall>m \<in> set ms. genuine written g s m)" "r = Inr ms" "m \<in> set ms"
  then show "genuine written g s' m" using stable_genuine [of written live g m] unfolding stable_def by blast
qed

context redis_streams
begin

lemma append_only_add: "x_add api k e mx s = (i, s') \<Longrightarrow> append_only written s s'"
  using add_law [of k e mx s i s'] by (auto simp: append_only_def)

lemma entry_kept_quiet:
  assumes "entry_kept written live g i b s" "written s' = written s" "live s' = live s"
  shows "grows written live g s s' \<and> entry_kept written live g i b s'"
  using assms grows_refl [of written s' s live g] by (auto intro: entry_kept_mono [OF assms(1)])

lemma entry_kept_dead_letter:
  assumes J: "entry_kept written live g i b s" and g: "sg_dead_stream g \<noteq> sg_stream g" "genuine written g s m"
    and e: "dict_get e ''original_message_id'' = Some (qm_id m)" "dict_get e ''body'' = Some t" "sg_loads g t = Some (qm_body m)"
    and s': "x_add api (sg_dead_stream g) e (Some (sg_dead_letter_maxlen g)) s = (j, s1)" "s' = x_del api (sg_stream g) (qm_id m) (x_ack api (sg_stream g) grp (qm_id m) s1)"
  shows "grows written live g s s' \<and> entry_kept written live g i b s'"
proof -
  have w: "written s' = written s1" "live s' (sg_stream g) = live s1 (sg_stream g) - {qm_id m}" by (simp_all add: s'(2) del_law ack_law)
  let ?room = "has_room written (sg_dead_stream g) (sg_dead_letter_maxlen g)"
  have d: "live s' (sg_dead_stream g) = live s1 (sg_dead_stream g)" using g(1) by (simp add: s'(2) del_law ack_law)
  have room: "?room s' \<Longrightarrow> insert (rdecode j) (live s (sg_dead_stream g)) \<subseteq> live s' (sg_dead_stream g)"
    using add_capped [OF s'(1)] unfolding d by (simp add: has_room_def w(1))
  have ao: "grows written live g s s'"
    using append_only_add [OF s'(1)] room by (simp add: grows_def append_only_def w(1))
  have new: "written s' (sg_dead_stream g) (rdecode j) = Some e" using add_law [OF s'(1)] by (simp add: w(1))
  have "dead_lettered written live g i b s'" if "i = qm_id m"
  proof -
    have "b = qm_body m" using J g(2) that by (auto simp: entry_kept_def genuine_def)
    with new e that room show ?thesis unfolding dead_lettered_def by blast
  qed
  moreover have "i \<in> live s' (sg_stream g)" if "i \<noteq> qm_id m" "i \<in> live s (sg_stream g)"
    using that add_live [OF s'(1), of "sg_stream g"] g(1) w(2) by auto
  ultimately show ?thesis using ao entry_kept_mono [OF J ao] by blast
qed

lemma keeps_dead_letter:
  assumes g: "sg_redis g = api" "sg_dead_stream g \<noteq> sg_stream g" "\<forall>b. sg_loads g (sg_dumps g b) = Some b" and P: "stable (grows written live g) P"
  shows "keeps (entry_kept written live g i b) (grows written live g) (\<lambda>r. P) (\<lambda>s. genuine written g s m \<and> P s)
    (dead_letter g (qm_id m) (qm_body m) reason n)"
  unfolding dead_letter_def Let_def g(1)
proof (rule keeps_await [where K' = "\<lambda>_. P"])
  let ?e = "[(''body'', sg_dumps g (qm_body m)), (''original_message_id'', qm_id m), (''reason'', reason)] @ (case n of None \<Rightarrow> [] | Some n \<Rightarrow> [(''receive_count'', int_str n)])"
  fix s x s' assume J: "entry_kept written live g i b s" and K: "genuine written g s m \<and> P s"
    and cmd: "(case x_add api (sg_dead_stream g) ?e (Some (sg_dead_letter_maxlen g)) s of (_, s1) \<Rightarrow>
      ((), x_del api (sg_stream g) (qm_id m) (x_ack api (sg_stream g) (sg_consumer_group g) (qm_id m) s1))) = (x, s')"
  obtain j s1 where add: "x_add api (sg_dead_stream g) ?e (Some (sg_dead_letter_maxlen g)) s = (j, s1)" by fastforce
  have s': "s' = x_del api (sg_stream g) (qm_id m) (x_ack api (sg_stream g) (sg_consumer_group g) (qm_id m) s1)" using cmd unfolding add by simp
  have "grows written live g s s' \<and> entry_kept written live g i b s'"
    by (rule entry_kept_dead_letter [OF J g(2) _ _ _ _ add s']) (use K g(3) [THEN spec, of "qm_body m"] in simp_all)
  then show "grows written live g s s' \<and> entry_kept written live g i b s' \<and> P s'" using P K unfolding stable_def by blast
qed (use P in \<open>auto intro: keeps_Done\<close>)

lemma keeps_quiet:
  assumes "\<And>s x s'. cmd s = (x, s') \<Longrightarrow> written s' = written s \<and> live s' = live s" "stable (grows written live g) K"
    and "\<And>x. keeps (entry_kept written live g i b) (grows written live g) Q K (f x)"
  shows "keeps (entry_kept written live g i b) (grows written live g) Q K (await cmd f)"
proof (rule keeps_await [where K' = "\<lambda>_. K"])
  fix s x s' assume "entry_kept written live g i b s" "K s" "cmd s = (x, s')"
  then show "grows written live g s s' \<and> entry_kept written live g i b s' \<and> K s'"
    using entry_kept_quiet assms(1,2) unfolding stable_def by blast
qed (use assms in auto)

lemma keeps_claim_entries:
  assumes g: "sg_redis g = api" "sg_dead_stream g \<noteq> sg_stream g" "\<forall>b. sg_loads g (sg_dumps g b) = Some b"
  shows "keeps (entry_kept written live g i b) (grows written live g) (answers_genuine written g) (entries_known written g es ms) (claim_entries g es ms)"
proof (induction es arbitrary: ms)
  case Nil
  show ?case by (auto intro!: keeps_Done simp: entries_known_def answers_genuine_def)
next
  case (Cons x es)
  let ?J = "entry_kept written live g i b" and ?R = "grows written live g" and ?Q = "answers_genuine written g"
  obtain raw_id fs where x: "x = (raw_id, fs)" by (cases x)
  have rest: "keeps ?J ?R ?Q (entries_known written g (x # es) ms) (claim_entries g es ms)"
    by (rule keeps_pre [OF Cons.IH]) (simp add: entries_known_def)
  have known: "genuine written g s m \<and> entries_known written g es ms s"
    if es: "entries_known written g (x # es) ms s" and m: "to_message (sg_loads g) raw_id fs n = Inr m" and fs: "fs \<noteq> []" for s n m
  proof -
    obtain e where "written s (sg_stream g) (rdecode raw_id) = Some e" "sent_as fs e" using es fs by (auto simp: entries_known_def x)
    then have "genuine written g s m" using to_message_sent [OF m] by (auto simp: genuine_def)
    then show ?thesis using es by (simp add: entries_known_def)
  qed
  have one: "keeps ?J ?R ?Q (entries_known written g (x # es) ms) (case to_message (sg_loads g) raw_id fs n of
          Inl e \<Rightarrow> Done (Inl e)
        | Inr m \<Rightarrow>
            if n > sg_max_deliveries g
            then call (dead_letter g (qm_id m) (qm_body m) ''max_deliveries'' (Some n)) (\<lambda>_. claim_entries g es ms)
            else claim_entries g es (ms @ [m]))" if "fs \<noteq> []" for n
  proof (cases "to_message (sg_loads g) raw_id fs n")
    case (Inl e)
    then show ?thesis by (auto intro!: keeps_Done simp: answers_genuine_def)
  next
    case (Inr m)
    have "keeps ?J ?R ?Q (entries_known written g (x # es) ms) (call (dead_letter g (qm_id m) (qm_body m) ''max_deliveries'' (Some n)) (\<lambda>_. claim_entries g es ms))"
      by (rule keeps_pre [OF keeps_call [OF keeps_dead_letter [OF g stable_entries] Cons.IH]]) (use known [OF _ Inr that] in \<open>auto simp: answers_genuine_def\<close>)
    moreover have "keeps ?J ?R ?Q (entries_known written g (x # es) ms) (claim_entries g es (ms @ [m]))"
      by (rule keeps_pre [OF Cons.IH]) (use known [OF _ Inr that] in \<open>auto simp: entries_known_def\<close>)
    ultimately show ?thesis using Inr by simp
  qed
  show ?case
  proof (cases "fs = []")
    case True
    have eq: "claim_entries g (x # es) ms = await (\<lambda>s. ((), x_ack api (sg_stream g) (sg_consumer_group g) (rdecode raw_id) s)) (\<lambda>_. claim_entries g es ms)"
      by (simp add: x True g(1))
    show ?thesis unfolding eq by (rule keeps_quiet [OF _ stable_entries rest]) (use ack_law in auto)
  next
    case False
    then show ?thesis unfolding x claim_entries.simps Let_def g(1) if_not_P [OF False]
      by (intro keeps_quiet stable_entries one [unfolded x]) auto
  qed
qed

lemma keeps_claim_idle:
  assumes g: "sg_redis g = api" "sg_dead_stream g \<noteq> sg_stream g" "\<forall>b. sg_loads g (sg_dumps g b) = Some b"
  shows "keeps (entry_kept written live g i b) (grows written live g) (answers_genuine written g) (\<lambda>s. True) (claim_idle g n)"
  unfolding claim_idle_def g(1)
proof (rule keeps_await [OF _ stable_entries keeps_claim_entries [OF g]])
  fix s es s' assume J: "entry_kept written live g i b s"
    and cmd: "x_autoclaim api (sg_stream g) (sg_consumer_group g) (sg_consumer_name g) (sg_min_idle_ms g) ''0-0'' n s = (es, s')"
  have "entries_known written g es [] s'"
    using autoclaim_entry [OF cmd] autoclaim_law [OF cmd] by (auto simp: entries_known_def)
  then show "grows written live g s s' \<and> entry_kept written live g i b s' \<and> entries_known written g es [] s'"
    using entry_kept_quiet [OF J] autoclaim_law [OF cmd] by blast
qed

lemma keeps_read_new:
  assumes g: "sg_redis g = api"
  shows "keeps (entry_kept written live g i b) (grows written live g) (answers_genuine written g) (answers_genuine written g (Inr ms)) (read_new g n wait ms)"
proof (cases "n - int (length ms) > 0")
  case False
  then show ?thesis by (auto simp: read_new_def intro: keeps_Done)
next
  case True
  let ?K = "\<lambda>response. answers_genuine written g (append_entries (sg_loads g) (concat (map snd response)) ms)"
  show ?thesis unfolding read_new_def Let_def g(1) if_P [OF True]
  proof (rule keeps_await [where K' = ?K])
    fix s response s' let ?block = "if ms \<noteq> [] then None else if wait > 0 then Some (py_trunc (wait * 1000)) else None"
    assume J: "entry_kept written live g i b s" and K: "answers_genuine written g (Inr ms) s"
      and cmd: "x_readgroup api (sg_consumer_group g) (sg_consumer_name g) (sg_stream g) (n - int (length ms)) ?block s = (response, s')"
    have "\<forall>(i, fs) \<in> set (concat (map snd response)). \<exists>e. written s' (sg_stream g) (rdecode i) = Some e \<and> sent_as fs e"
      using read_entry [OF cmd] read_law [OF cmd] by fastforce
    moreover have "\<forall>m \<in> set ms. genuine written g s' m" using K read_law [OF cmd] by (auto simp: answers_genuine_def genuine_def)
    ultimately have "?K response s'" unfolding answers_genuine_def by (intro allI impI) (rule append_entries_genuine)
    then show "grows written live g s s' \<and> entry_kept written live g i b s' \<and> ?K response s'"
      using entry_kept_quiet [OF J] read_law [OF cmd] by blast
  qed (auto intro: stable_answers keeps_Done)
qed

lemma keeps_receive:
  assumes g: "sg_redis g = api" "sg_dead_stream g \<noteq> sg_stream g" "\<forall>b. sg_loads g (sg_dumps g b) = Some b"
  shows "keeps (entry_kept written live g i b) (grows written live g) (\<lambda>(r, _). answers_genuine written g r) (\<lambda>s. True) (sq_receive g n wait ready)"
proof -
  let ?J = "entry_kept written live g i b" and ?R = "grows written live g"
  have grp: "keeps ?J ?R (\<lambda>_ _. True) (\<lambda>s. True) (ensure_group g ready)"
    by (auto simp: ensure_group_def g(1) stable_def intro!: keeps_Done keeps_quiet dest: group_law split: option.splits)
  have rd: "keeps ?J ?R (answers_genuine written g) (\<lambda>s. True) (call (claim_idle g n) (read_new g n wait))"
    by (rule keeps_call [OF keeps_claim_idle [OF g] keeps_read_new [OF g(1)]]) (simp add: answers_genuine_def)
  have ret: "keeps ?J ?R (\<lambda>(r, _). answers_genuine written g r) (answers_genuine written g r) (Done (r, ready'))" for r ready'
    by (auto intro: keeps_Done)
  show ?thesis unfolding sq_receive_def
  proof (rule keeps_bind [OF grp])
    fix x :: "(exn + unit) \<times> bool"
    obtain r ready' where x: "x = (r, ready')" by (cases x)
    show "keeps ?J ?R (\<lambda>(r, _). answers_genuine written g r) (\<lambda>s. True) (case x of (r, ready') \<Rightarrow> case r of Inl e \<Rightarrow> Done (Inl e, ready')
      | Inr _ \<Rightarrow> bind (call (claim_idle g n) (read_new g n wait)) (\<lambda>r. Done (r, ready')))"
    proof (cases r)
      case (Inl e)
      then show ?thesis by (auto simp: x answers_genuine_def intro: keeps_Done)
    next
      case (Inr u)
      then show ?thesis unfolding x Inr by simp (rule keeps_bind [OF rd ret])
    qed
  qed
qed

lemma keeps_send:
  assumes "sg_redis g = api"
  shows "keeps (entry_kept written live g i b) (grows written live g) (\<lambda>_ _. True) (\<lambda>s. True) (sq_send g payload)"
  unfolding sq_send_def assms
proof (rule keeps_await [where K' = "\<lambda>_ _. True"])
  fix s j s' assume J: "entry_kept written live g i b s" and cmd: "x_add api (sg_stream g) [(''body'', sg_dumps g payload)] None s = (j, s')"
  have ao: "grows written live g s s'"
    using append_only_add [OF cmd] add_live [OF cmd, of "sg_dead_stream g"] by (simp add: grows_def)
  have "entry_kept written live g i b s'"
    by (rule entry_kept_mono [OF J ao]) (use add_live [OF cmd, of "sg_stream g"] in blast)
  then show "grows written live g s s' \<and> entry_kept written live g i b s' \<and> True" using ao by blast
qed (auto simp: stable_def intro: keeps_Done)

lemma keeps_nack:
  assumes g: "sg_redis g = api" "sg_dead_stream g \<noteq> sg_stream g" "\<forall>b. sg_loads g (sg_dumps g b) = Some b"
  shows "keeps (entry_kept written live g i b) (grows written live g) (\<lambda>_ _. True) (\<lambda>s. genuine written g s m) (sq_nack g m requeue)"
proof (cases requeue)
  case False
  have "keeps (entry_kept written live g i b) (grows written live g) (\<lambda>_ _. True) (\<lambda>s. genuine written g s m) (dead_letter g (qm_id m) (qm_body m) ''rejected'' None)"
    by (rule keeps_pre [OF keeps_dead_letter [OF g]]) (auto simp: stable_def)
  with False show ?thesis by (simp add: sq_nack_def)
next
  case True
  then show ?thesis by (auto simp: sq_nack_def g(1) claim_law intro!: keeps_quiet stable_genuine keeps_Done)
qed

lemma keeps_ack:
  assumes g: "sg_redis g = api" and i: "qm_id m \<noteq> i" and d: "sg_dead_stream g \<noteq> sg_stream g"
  shows "keeps (entry_kept written live g i b) (grows written live g) (\<lambda>_ _. True) (\<lambda>s. True) (sq_ack g m)"
  unfolding sq_ack_def g
proof (rule keeps_await [where K' = "\<lambda>_ _. True"])
  fix s x s' assume J: "entry_kept written live g i b s"
    and cmd: "((), x_del api (sg_stream g) (qm_id m) (x_ack api (sg_stream g) (sg_consumer_group g) (qm_id m) s)) = (x, s')"
  then have w: "written s' = written s" "live s' (sg_stream g) = live s (sg_stream g) - {qm_id m}"
    "live s' (sg_dead_stream g) = live s (sg_dead_stream g)" using d by (auto simp: del_law ack_law)
  have ao: "grows written live g s s'" using w by (intro grows_refl) simp_all
  have "entry_kept written live g i b s'"
    by (rule entry_kept_mono [OF J ao]) (use w i in auto)
  then show "grows written live g s s' \<and> entry_kept written live g i b s' \<and> True" using ao by blast
qed (auto simp: stable_def intro: keeps_Done)

end

text \<open>Calls of any number of gateways of a stream. A message that is rejected was received before; the message in question is not acknowledged.\<close>

datatype 'r stream_call =
    StreamSend "'r stream_gateway" body
  | StreamReceive "'r stream_gateway" int seconds bool
  | StreamAck "'r stream_gateway" qmsg
  | StreamNack "'r stream_gateway" qmsg bool

fun stream_call_gateway :: "'r stream_call \<Rightarrow> 'r stream_gateway" where
  "stream_call_gateway (StreamSend g b) = g"
| "stream_call_gateway (StreamReceive g n wait ready) = g"
| "stream_call_gateway (StreamAck g m) = g"
| "stream_call_gateway (StreamNack g m requeue) = g"

fun stream_call_ok :: "('r \<Rightarrow> string \<Rightarrow> string \<Rightarrow> (string, string) dict option) \<Rightarrow> string \<Rightarrow> 'r \<Rightarrow> 'r stream_call \<Rightarrow> bool" where
  "stream_call_ok written i s (StreamAck g m) \<longleftrightarrow> qm_id m \<noteq> i"
| "stream_call_ok written i s (StreamNack g m requeue) \<longleftrightarrow> genuine written g s m"
| "stream_call_ok written i s c \<longleftrightarrow> True"

fun start_stream :: "'r stream_call \<Rightarrow> ('r, exn + qmsg list) prog" where
  "start_stream (StreamSend g b) = call (sq_send g b) (\<lambda>_. Done (Inr []))"
| "start_stream (StreamReceive g n wait ready) = bind (sq_receive g n wait ready) (\<lambda>(r, _). Done r)"
| "start_stream (StreamAck g m) = call (sq_ack g m) (\<lambda>_. Done (Inr []))"
| "start_stream (StreamNack g m requeue) = call (sq_nack g m requeue) (\<lambda>_. Done (Inr []))"

context redis_streams
begin

lemma genuine_same: "same_stream g g' \<Longrightarrow> genuine written g' = genuine written g"
  by (intro ext) (simp add: same_stream_def genuine_def)

lemma answers_same: "same_stream g g' \<Longrightarrow> answers_genuine written g' = answers_genuine written g"
  by (intro ext) (simp add: answers_genuine_def genuine_same)

lemma entry_kept_same: "same_stream g g' \<Longrightarrow> entry_kept written live g' = entry_kept written live g"
  by (intro ext) (simp add: same_stream_def entry_kept_def dead_lettered_def)

lemma grows_same: "same_stream g g' \<Longrightarrow> grows written live g' = grows written live g"
  by (intro ext) (simp add: same_stream_def grows_def)

lemma start_stream_relies:
  assumes g: "sg_redis g = api" "sg_dead_stream g \<noteq> sg_stream g" "\<forall>b. sg_loads g (sg_dumps g b) = Some b"
    and c: "stream_call_gateway c = g" "stream_call_ok written i s c"
  shows "relies (entry_kept written live g i b) (grows written live g) (answers_genuine written g) s (start_stream c)"
proof -
  let ?J = "entry_kept written live g i b" and ?R = "grows written live g" and ?Q = "answers_genuine written g"
  have st: "stable ?R (\<lambda>s. True)" by (simp add: stable_def)
  have plain: "keeps ?J ?R ?Q K (call p (\<lambda>_. Done (Inr [])))" if "keeps ?J ?R (\<lambda>_ _. True) K p" for K and p :: "('r, exn + 'x) prog"
    by (rule keeps_call [OF that]) (auto simp: answers_genuine_def intro: keeps_Done)
  show ?thesis
  proof (cases c)
    case (StreamSend g' b')
    then have "keeps ?J ?R ?Q (\<lambda>s. True) (start_stream c)" using plain [OF keeps_send [OF g(1)]] c(1) by simp
    then show ?thesis by (rule reliesI [OF _ st]) simp
  next
    case (StreamReceive g' n wait ready)
    have "keeps ?J ?R ?Q (\<lambda>s. True) (bind (sq_receive g n wait ready) (\<lambda>(r, _). Done r))"
      by (rule keeps_bind [OF keeps_receive [OF g]]) (auto split: prod.splits intro: keeps_Done)
    then have "keeps ?J ?R ?Q (\<lambda>s. True) (start_stream c)" using StreamReceive c(1) by simp
    then show ?thesis by (rule reliesI [OF _ st]) simp
  next
    case (StreamAck g' m)
    then have "keeps ?J ?R ?Q (\<lambda>s. True) (start_stream c)" using plain [OF keeps_ack [OF g(1) _ g(2)]] c by simp
    then show ?thesis by (rule reliesI [OF _ st]) simp
  next
    case (StreamNack g' m requeue)
    then have "keeps ?J ?R ?Q (\<lambda>s. genuine written g s m) (start_stream c)" using plain [OF keeps_nack [OF g]] c by simp
    then show ?thesis by (rule reliesI [OF _ stable_genuine]) (use StreamNack c in simp)
  qed
qed

lemma no_entry_lost:
  assumes g: "sg_redis g = api" "sg_dead_stream g \<noteq> sg_stream g" "\<forall>b. sg_loads g (sg_dumps g b) = Some b"
    and s: "written s (sg_stream g) i = Some e" "entry_body (sg_loads g) e = Some b" "i \<in> live s (sg_stream g)"
    and c: "\<forall>c \<in> set calls. same_stream g (stream_call_gateway c) \<and> stream_call_ok written i s c"
    and run: "schedule is (s, map start_stream calls) = (s', ps)"
  shows "i \<in> live s' (sg_stream g) \<or> dead_lettered written live g i b s'" "\<forall>p \<in> set ps. \<forall>r. result p = Some r \<longrightarrow> answers_genuine written g r s'"
proof -
  have J: "entry_kept written live g i b s" using s by (simp add: entry_kept_def)
  have "relies (entry_kept written live g i b) (grows written live g) (answers_genuine written g) s (start_stream c)" if "c \<in> set calls" for c
  proof -
    let ?g = "stream_call_gateway c"
    have same: "same_stream g ?g" and ok: "stream_call_ok written i s c" using assms(7) that by auto
    have "relies (entry_kept written live ?g i b) (grows written live ?g) (answers_genuine written ?g) s (start_stream c)"
      by (rule start_stream_relies) (use same g ok in \<open>auto simp: same_stream_def\<close>)
    then show ?thesis by (simp add: entry_kept_same [OF same] answers_same [OF same] grows_same [OF same])
  qed
  then have "\<forall>p \<in> set (map start_stream calls). relies (entry_kept written live g i b) (grows written live g) (answers_genuine written g) s p" by auto
  note end_state = schedule_relies [OF J this run]
  show "i \<in> live s' (sg_stream g) \<or> dead_lettered written live g i b s'" using end_state(1) by (simp add: entry_kept_def)
  show "\<forall>p \<in> set ps. \<forall>r. result p = Some r \<longrightarrow> answers_genuine written g r s'" by (rule end_state(2))
qed

end

section \<open>A server\<close>

text \<open>
  A stream server with one clock tick per command. Entries are numbered; \<open>ss_gone\<close> are those deleted or trimmed, \<open>ss_given\<close> counts how many
  entries of a stream a group has been given, \<open>ss_pending\<close> has the idle time and the number of deliveries of each entry given and not acknowledged.
\<close>

record stream_server =
  ss_entries :: "((string \<times> string) \<times> (string, string) dict) list"
  ss_gone :: "(string \<times> string) list"
  ss_groups :: "(string \<times> string) list"
  ss_given :: "(string \<times> string, nat) dict"
  ss_pending :: "((string \<times> string \<times> string) \<times> int \<times> int) list"

definition ss_written :: "stream_server \<Rightarrow> string \<Rightarrow> string \<Rightarrow> (string, string) dict option" where
  "ss_written s k i = map_of (ss_entries s) (k, i)"

definition ss_ids :: "stream_server \<Rightarrow> string \<Rightarrow> string list" where
  "ss_ids s k = map snd (filter (\<lambda>(k', i). k' = k) (map fst (ss_entries s)))"

definition ss_live :: "stream_server \<Rightarrow> string \<Rightarrow> string set" where
  "ss_live s k = set (filter (\<lambda>i. (k, i) \<notin> set (ss_gone s)) (ss_ids s k))"

definition ss_fresh :: "stream_server \<Rightarrow> string" where
  "ss_fresh s = nat_str (Suc (fold max (map (\<lambda>((_, i), _). str_nat i) (ss_entries s) @ map (\<lambda>(_, i). str_nat i) (ss_gone s)) 0))"

definition ss_show :: "stream_server \<Rightarrow> string \<Rightarrow> string \<Rightarrow> rtext \<times> fields" where
  "ss_show s k i = (RStr i, if (k, i) \<in> set (ss_gone s) then [] else map (map_prod RStr RStr) (dflt [] (ss_written s k i)))"

definition ss_add :: "string \<Rightarrow> (string, string) dict \<Rightarrow> int option \<Rightarrow> stream_server \<Rightarrow> rtext \<times> stream_server" where
  "ss_add k e mx s =
     (let i = ss_fresh s; s' = s\<lparr>ss_entries := ss_entries s @ [((k, i), e)]\<rparr>; ids = ss_ids s' k in
      (RStr i, case mx of None \<Rightarrow> s' | Some n \<Rightarrow> s'\<lparr>ss_gone := map (Pair k) (take (card (set ids) - nat n) ids) @ ss_gone s'\<rparr>))"

definition ss_group_create :: "string \<Rightarrow> string \<Rightarrow> string \<Rightarrow> stream_server \<Rightarrow> string option \<times> stream_server" where
  "ss_group_create k grp start s =
     (if (k, grp) \<in> set (ss_groups s) then (Some ''BUSYGROUP Consumer Group name already exists'', s) else (None, s\<lparr>ss_groups := (k, grp) # ss_groups s\<rparr>))"

definition ss_readgroup ::
  "string \<Rightarrow> string \<Rightarrow> string \<Rightarrow> int \<Rightarrow> int option \<Rightarrow> stream_server \<Rightarrow> (rtext \<times> (rtext \<times> fields) list) list \<times> stream_server" where
  "ss_readgroup grp c k n block s =
     (let given = dflt 0 (dict_get (ss_given s) (k, grp)); ids = take (nat n) (drop given (ss_ids s k));
          shown = filter (\<lambda>i. (k, i) \<notin> set (ss_gone s)) ids in
      (if shown = [] then [] else [(RStr k, map (ss_show s k) shown)],
       s\<lparr>ss_given := dict_set (ss_given s) (k, grp) (given + length ids),
         ss_pending := ss_pending s @ map (\<lambda>i. ((k, grp, i), 0, 1)) shown\<rparr>))"

definition ss_autoclaim ::
  "string \<Rightarrow> string \<Rightarrow> string \<Rightarrow> int \<Rightarrow> string \<Rightarrow> int \<Rightarrow> stream_server \<Rightarrow> (rtext \<times> fields) list \<times> stream_server" where
  "ss_autoclaim k grp c min_idle start n s =
     (let ids = take (nat n) (map (\<lambda>((_, _, i), _). i) (filter (\<lambda>((k', grp', _), idle, _). k' = k \<and> grp' = grp \<and> min_idle \<le> idle) (ss_pending s))) in
      (map (ss_show s k) ids,
       s\<lparr>ss_pending := map (\<lambda>((k', grp', i), idle, times).
          if k' = k \<and> grp' = grp \<and> i \<in> set ids then ((k', grp', i), 0, times + 1) else ((k', grp', i), idle, times)) (ss_pending s)\<rparr>))"

definition ss_api :: "stream_server stream_api" where
  "ss_api = \<lparr>x_add = ss_add, x_group_create = ss_group_create, x_readgroup = ss_readgroup, x_autoclaim = ss_autoclaim,
     x_pending_range = (\<lambda>k grp least greatest n s. map (\<lambda>(_, _, times). times) (filter (\<lambda>((k', grp', i), _). k' = k \<and> grp' = grp \<and> i = least) (ss_pending s))),
     x_ack = (\<lambda>k grp i s. s\<lparr>ss_pending := filter (\<lambda>(ki, _). ki \<noteq> (k, grp, i)) (ss_pending s)\<rparr>),
     x_del = (\<lambda>k i s. s\<lparr>ss_gone := (k, i) # ss_gone s\<rparr>),
     x_claim = (\<lambda>k grp c min_idle ids idle s. s\<lparr>ss_pending := map (\<lambda>((k', grp', i), idle', times).
        if k' = k \<and> grp' = grp \<and> i \<in> set ids then ((k', grp', i), idle, times) else ((k', grp', i), idle', times)) (ss_pending s)\<rparr>)\<rparr>"

lemma fold_max_start: "(a::nat) \<le> fold max ns a"
proof (induction ns arbitrary: a)
  case (Cons n ns)
  have "a \<le> max n a" by simp
  also have "\<dots> \<le> fold max ns (max n a)" by (rule Cons.IH)
  finally show ?case by simp
qed simp

lemma fold_max_ge: "(n::nat) \<in> set ns \<Longrightarrow> n \<le> fold max ns a"
proof (induction ns arbitrary: a)
  case (Cons m ns)
  then show ?case using fold_max_start [of "max m a" ns] by auto
qed simp

lemma ss_fresh_above: "n \<in> set (map (\<lambda>((_, i), _). str_nat i) (ss_entries s) @ map (\<lambda>(_, i). str_nat i) (ss_gone s)) \<Longrightarrow> n < str_nat (ss_fresh s)"
  using fold_max_ge [of n _ 0] unfolding ss_fresh_def str_nat_nat_str by (rule le_imp_less_Suc)

lemma ss_fresh_new: "((k, ss_fresh s), e) \<notin> set (ss_entries s)"
proof
  assume "((k, ss_fresh s), e) \<in> set (ss_entries s)"
  then have "str_nat (ss_fresh s) \<in> set (map (\<lambda>((_, i), _). str_nat i) (ss_entries s) @ map (\<lambda>(_, i). str_nat i) (ss_gone s))" by force
  from ss_fresh_above [OF this] show False by simp
qed

lemma fresh_not_gone: "(k, ss_fresh s) \<notin> set (ss_gone s)"
proof
  assume "(k, ss_fresh s) \<in> set (ss_gone s)"
  then have "str_nat (ss_fresh s) \<in> set (map (\<lambda>((_, i), _). str_nat i) (ss_entries s) @ map (\<lambda>(_, i). str_nat i) (ss_gone s))" by force
  from ss_fresh_above [OF this] show False by simp
qed

lemma ss_ids_written: "i \<in> set (ss_ids s k) \<Longrightarrow> \<exists>e. ss_written s k i = Some e"
  by (auto simp: ss_ids_def ss_written_def) (metis map_of_eq_None_iff not_None_eq fst_conv image_eqI)

lemma ss_quiet: "ss_entries s' = ss_entries s \<Longrightarrow> ss_gone s' = ss_gone s \<Longrightarrow> ss_written s' = ss_written s \<and> ss_live s' = ss_live s"
  by (intro conjI ext) (simp_all add: ss_written_def ss_live_def ss_ids_def)

lemma ss_del: "ss_written (s\<lparr>ss_gone := (k, i) # ss_gone s\<rparr>) = ss_written s \<and> ss_live (s\<lparr>ss_gone := (k, i) # ss_gone s\<rparr>) = (ss_live s)(k := ss_live s k - {i})"
  by (intro conjI ext) (auto simp: ss_written_def ss_live_def ss_ids_def)

lemma ss_show_written:
  assumes "ss_show s k i = (raw, fs)" "i \<in> set (ss_ids s k) \<or> fs \<noteq> []" "(k, i) \<notin> set (ss_gone s) \<or> fs \<noteq> []"
  shows "\<exists>e. ss_written s k (rdecode raw) = Some e \<and> sent_as fs e"
  using assms ss_ids_written [of i s k] by (cases "ss_written s k i") (auto simp: ss_show_def sent_as_def dflt_def split: if_splits)

lemma ss_add_law:
  assumes "ss_add k e mx s = (i, s')"
  shows "ss_written s k (rdecode i) = None \<and> ss_written s' = (ss_written s)(k := (ss_written s k)(rdecode i \<mapsto> e))"
proof -
  have i: "i = RStr (ss_fresh s)" and s': "ss_entries s' = ss_entries s @ [((k, ss_fresh s), e)]"
    using assms by (auto simp: ss_add_def Let_def split: option.splits)
  have none: "map_of (ss_entries s) (k, ss_fresh s) = None" using ss_fresh_new [of k s] by (auto simp: map_of_eq_None_iff)
  show ?thesis unfolding i by (auto simp: ss_written_def s' none fun_eq_iff map_add_def split: option.splits)
qed

lemma ss_add_live:
  assumes "ss_add k e mx s = (i, s')" "k' \<noteq> k \<or> mx = None"
  shows "ss_live s k' \<subseteq> ss_live s' k'"
proof -
  have "ss_entries s' = ss_entries s @ [((k, ss_fresh s), e)]" using assms(1) by (cases mx) (auto simp: ss_add_def Let_def)
  then have "\<exists>new. ss_ids s' k' = ss_ids s k' @ new" unfolding ss_ids_def by simp
  then have ids: "set (ss_ids s k') \<subseteq> set (ss_ids s' k')" by auto
  have "(k', j) \<in> set (ss_gone s') \<longleftrightarrow> (k', j) \<in> set (ss_gone s)" for j
    using assms by (cases mx) (auto simp: ss_add_def Let_def)
  with ids show ?thesis unfolding ss_live_def by auto
qed

lemma ss_dom: "dom (ss_written s k) = set (ss_ids s k)"
proof (intro set_eqI)
  fix i
  have "i \<in> dom (ss_written s k) \<longleftrightarrow> (k, i) \<in> fst ` set (ss_entries s)"
    by (metis domIff map_of_eq_None_iff ss_written_def)
  also have "\<dots> \<longleftrightarrow> i \<in> set (ss_ids s k)" unfolding ss_ids_def by force
  finally show "i \<in> dom (ss_written s k) \<longleftrightarrow> i \<in> set (ss_ids s k)" .
qed

lemma ss_add_capped:
  assumes add: "ss_add k e (Some cap) s = (i, s')" and room: "has_room ss_written k cap s'"
  shows "insert (rdecode i) (ss_live s k) \<subseteq> ss_live s' k"
proof -
  let ?s = "s\<lparr>ss_entries := ss_entries s @ [((k, ss_fresh s), e)]\<rparr>"
  have i: "i = RStr (ss_fresh s)" and s': "s' = ?s\<lparr>ss_gone := map (Pair k) (take (card (set (ss_ids ?s k)) - nat cap) (ss_ids ?s k)) @ ss_gone s\<rparr>"
    using add by (auto simp: ss_add_def Let_def)
  have ids: "ss_ids s' k = ss_ids ?s k" "set (ss_ids ?s k) = insert (ss_fresh s) (set (ss_ids s k))"
    by (simp_all add: s' ss_ids_def)
  have "card (set (ss_ids ?s k)) \<le> nat cap" using room ids(1) by (simp add: has_room_def ss_dom)
  then have gone: "ss_gone s' = ss_gone s" by (simp add: s')
  show ?thesis
    using ids fresh_not_gone by (auto simp: ss_live_def gone i)
qed

interpretation stream_srv: redis_streams ss_api ss_written ss_live
proof unfold_locales
  fix k grp start :: string and s err s'
  assume "x_group_create ss_api k grp start s = (err, s')"
  then show "ss_written s' = ss_written s \<and> ss_live s' = ss_live s"
    by (intro ss_quiet) (auto simp: ss_api_def ss_group_create_def split: if_splits)
next
  fix grp c k n block s response s' i fs
  assume cmd: "x_readgroup ss_api grp c k n block s = (response, s')"
  then show "ss_written s' = ss_written s \<and> ss_live s' = ss_live s"
    by (intro ss_quiet) (auto simp: ss_api_def ss_readgroup_def Let_def)
  assume "(i, fs) \<in> set (concat (map snd response))"
  with cmd have "\<exists>j \<in> set (ss_ids s k). (k, j) \<notin> set (ss_gone s) \<and> ss_show s k j = (i, fs)"
    by (auto simp: ss_api_def ss_readgroup_def Let_def split: if_splits dest!: in_set_takeD in_set_dropD) blast
  then show "\<exists>e. ss_written s k (rdecode i) = Some e \<and> sent_as fs e" using ss_show_written by metis
next
  fix k grp c idle start n s entries s' i and fs :: fields
  assume cmd: "x_autoclaim ss_api k grp c idle start n s = (entries, s')"
  then show "ss_written s' = ss_written s \<and> ss_live s' = ss_live s"
    by (intro ss_quiet) (auto simp: ss_api_def ss_autoclaim_def Let_def)
  assume "(i, fs) \<in> set entries" and fs: "fs \<noteq> []"
  moreover have "\<exists>ids. entries = map (ss_show s k) ids" using cmd unfolding ss_api_def ss_autoclaim_def Let_def by auto
  ultimately have "\<exists>j. ss_show s k j = (i, fs)" by auto metis
  then show "\<exists>e. ss_written s k (rdecode i) = Some e \<and> sent_as fs e" using ss_show_written fs by metis
next
  fix k grp c :: string and idle new_idle :: int and ids s
  show "ss_written (x_claim ss_api k grp c idle ids new_idle s) = ss_written s \<and> ss_live (x_claim ss_api k grp c idle ids new_idle s) = ss_live s"
    by (intro ss_quiet) (simp_all add: ss_api_def)
next
  fix k grp j s
  show "ss_written (x_ack ss_api k grp j s) = ss_written s \<and> ss_live (x_ack ss_api k grp j s) = ss_live s"
    by (intro ss_quiet) (simp_all add: ss_api_def)
next
  fix k e room s i s'
  assume "x_add ss_api k e (Some room) s = (i, s')" "has_room ss_written k room s'"
  then show "insert (rdecode i) (ss_live s k) \<subseteq> ss_live s' k" by (intro ss_add_capped) (simp_all add: ss_api_def)
qed (simp_all add: ss_api_def ss_del ss_add_law ss_add_live)

instance json :: countable
  by countable_datatype

definition numbered_gateway :: "string \<Rightarrow> stream_server stream_gateway" where
  "numbered_gateway consumer = RedisStreamQueueGateway ss_api (\<lambda>b. nat_str (to_nat b)) (\<lambda>t. Some (from_nat (str_nat t))) ''q'' ''workers'' (Some consumer) None ''0''
     60 5 10000"

text \<open>
  C13. No message on a stream is lost. However the sends, receives, acknowledgements and rejections of any number of gateways of a stream are
  interleaved, and wherever calls are cut off, an entry that nobody acknowledges is still in the stream, or an entry with its id and its body
  was added to the dead-letter stream and is in it still unless more than \<open>dead_letter_maxlen\<close> entries were ever added there (beyond
  them Redis trims the oldest); and every message a receive answers has the body of the entry with its id. Assumed: ids are not used
  again, rejected messages were received before, the stream itself is not trimmed, and JSON texts are read back as written.
\<close>

theorem stream_messages_not_lost:
  assumes "redis_streams (sg_redis g) written live" "sg_dead_stream g = sg_stream g @ '':dead''" "\<forall>b. sg_loads g (sg_dumps g b) = Some b"
    and "written s (sg_stream g) i = Some e" "entry_body (sg_loads g) e = Some b" "i \<in> live s (sg_stream g)"
    and "\<forall>c \<in> set calls. same_stream g (stream_call_gateway c) \<and> stream_call_ok written i s c"
    and "schedule sched (s, map start_stream calls) = (s', ps)"
  shows "(i \<in> live s' (sg_stream g) \<or> dead_lettered written live g i b s') \<and>
    (\<forall>p \<in> set ps. \<forall>ms. result p = Some (Inr ms) \<longrightarrow> (\<forall>m \<in> set ms. genuine written g s' m))"
proof -
  have "sg_dead_stream g \<noteq> sg_stream g" using assms(2) by simp
  note kept = redis_streams.no_entry_lost [OF assms(1) refl this assms(3-8)]
  then show ?thesis by (auto simp: answers_genuine_def)
qed

definition numbered_state :: stream_server where
  "numbered_state = \<lparr>ss_entries = [((''q'', ''1''), [(''body'', nat_str (to_nat [(''n'', JInt 7)]))])], ss_gone = [], ss_groups = [(''q'', ''workers'')],
     ss_given = [((''q'', ''workers''), 1)], ss_pending = [((''q'', ''workers'', ''1''), 0, 1)]\<rparr>"

definition numbered_calls :: "stream_server stream_call list" where
  "numbered_calls = [StreamNack (numbered_gateway ''a'') \<lparr>qm_id = ''1'', qm_body = [(''n'', JInt 7)], qm_receive_count = 1\<rparr> False,
     StreamReceive (numbered_gateway ''b'') 10 0 True, StreamSend (numbered_gateway ''c'') []]"

theorem stream_messages_not_lost_witness:
  "''1'' \<in> ss_live (fst (schedule [1, 0, 2, 1, 1] (numbered_state, map start_stream numbered_calls))) ''q'' \<or>
   dead_lettered ss_written ss_live (numbered_gateway ''a'') ''1'' [(''n'', JInt 7)] (fst (schedule [1, 0, 2, 1, 1] (numbered_state, map start_stream numbered_calls)))"
proof -
  have g: "sg_redis (numbered_gateway c) = ss_api" "sg_stream (numbered_gateway c) = ''q''" "sg_dead_stream (numbered_gateway c) = ''q:dead''"
    "sg_dead_letter_maxlen (numbered_gateway c) = 10000"
    "sg_loads (numbered_gateway c) = (\<lambda>t. Some (from_nat (str_nat t)))" "sg_dumps (numbered_gateway c) = (\<lambda>b. nat_str (to_nat b))" for c
    by (simp_all add: numbered_gateway_def RedisStreamQueueGateway_def)
  have w: "ss_written numbered_state ''q'' ''1'' = Some [(''body'', nat_str (to_nat [(''n'', JInt 7)]))]"
    by (simp add: ss_written_def numbered_state_def)
  have b: "entry_body (\<lambda>t. Some (from_nat (str_nat t))) [(''body'', nat_str (to_nat [(''n'', JInt 7)]))] = Some [(''n'', JInt 7)]"
    by (simp add: entry_body_def nat_str_nonempty str_nat_nat_str)
  have l: "''1'' \<in> ss_live numbered_state ''q''" by (simp add: ss_live_def ss_ids_def numbered_state_def)
  have c: "\<forall>c \<in> set numbered_calls. same_stream (numbered_gateway ''a'') (stream_call_gateway c) \<and> stream_call_ok ss_written ''1'' numbered_state c"
    by (simp add: numbered_calls_def same_stream_def g genuine_def w b)
  show ?thesis
    using stream_messages_not_lost [where g = "numbered_gateway ''a''" and written = ss_written and live = ss_live and s = numbered_state and i = "''1''"
        and b = "[(''n'', JInt 7)]" and calls = numbered_calls and sched = "[1, 0, 2, 1, 1]", OF _ _ _ _ _ _ c prod.collapse [symmetric]]
    by (simp add: g w b l stream_srv.redis_streams_axioms str_nat_nat_str)
qed

text \<open>
  An entry whose text is not JSON stops every receive that reclaims it, whatever its delivery count: it is not dead-lettered.
\<close>

theorem poison_entry_not_dead_lettered:
  assumes "body_raw fs = Some t" "sg_loads g t = None"
    and "x_autoclaim (sg_redis g) (sg_stream g) (sg_consumer_group g) (sg_consumer_name g) (sg_min_idle_ms g) ''0-0'' n s = ((i, fs) # es, s')"
  shows "exec (sq_receive g n wait True) s = ((Inl JSONDecodeError, True), s')"
proof -
  have "fs \<noteq> []" using assms(1) by (auto simp: body_raw_def filled_def)
  then show ?thesis
    using assms by (simp add: sq_receive_def ensure_group_def exec_bind exec_call claim_idle_def to_message_def Let_def)
qed

end
