(* ===== verification/Queue_SQS.thy ===== *)
theory Queue_SQS
  imports Queue Interleaving
begin

text \<open>
  The queue gateway on SQS (\<open>src/app/modules/messaging/queue/adapters/sqs.py\<close>, \<open>src/app/core/aws_errors.py\<close>).

  The SQS client is an argument, the record of the calls the gateway makes; a gateway call is a coroutine of them. What SQS promises is the
  locale \<open>sqs_queues\<close>. \<open>dumps\<close> and \<open>loads\<close> are the JSON module (\<open>None\<close> where it raises; bodies are objects). Unlike on Redis, a message is
  dead-lettered by two calls, and a process may stop between them.
\<close>

section \<open>Errors of AWS\<close>

text \<open>A \<open>ClientError\<close> with its code, if the response has one, or another exception; both with their text.\<close>

datatype aws_exc = ClientError "string option" string | OtherExc string

fun aws_exc_str :: "aws_exc \<Rightarrow> string" where
  "aws_exc_str (ClientError code text) = text"
| "aws_exc_str (OtherExc text) = text"

definition PERMISSION_DENIED_CODES :: "string list" where
  "PERMISSION_DENIED_CODES = [''AccessDenied'', ''AccessDeniedException'', ''AllAccessDisabled'', ''Forbidden'']"

fun is_permission_denied :: "bool \<Rightarrow> aws_exc \<Rightarrow> bool" where
  "is_permission_denied botocore (OtherExc text) = False"
| "is_permission_denied botocore (ClientError code text) = (botocore \<and> (case code of None \<Rightarrow> False | Some c \<Rightarrow> c \<in> set PERMISSION_DENIED_CODES))"

section \<open>The gateway\<close>

record sqs_raw =
  raw_message_id :: string
  raw_body :: string
  raw_receipt_handle :: "string option"
  raw_attributes :: "(string, string) dict option"

record sqs_msg = qmsg + qm_raw :: "sqs_raw option"

text \<open>
  Messages are sent with attributes (name, type, value). \<open>sqs_receive_message\<close> takes the queue, the largest number, the waiting time and the
  visibility timeout. \<open>sqs_probe\<close> is \<open>get_queue_attributes\<close>: the exception it raises, if any.
\<close>

record 'c sqs_api =
  sqs_probe :: "string \<Rightarrow> 'c \<Rightarrow> aws_exc option"
  sqs_send_message :: "string \<Rightarrow> string \<Rightarrow> (string \<times> string \<times> string) list \<Rightarrow> 'c \<Rightarrow> string \<times> 'c"
  sqs_receive_message :: "string \<Rightarrow> int \<Rightarrow> int \<Rightarrow> int option \<Rightarrow> 'c \<Rightarrow> sqs_raw list \<times> 'c"
  sqs_delete_message :: "string \<Rightarrow> string \<Rightarrow> 'c \<Rightarrow> 'c"
  sqs_change_visibility :: "string \<Rightarrow> string \<Rightarrow> int \<Rightarrow> 'c \<Rightarrow> 'c"

record 'c sqs_gateway =
  qg_client :: "'c sqs_api"
  qg_dumps :: "body \<Rightarrow> string"
  qg_loads :: "string \<Rightarrow> body option"
  qg_queue_url :: string
  qg_region_name :: string
  qg_endpoint_url :: "string option"
  qg_visibility_timeout :: "int option"
  qg_dead_letter_queue_url :: "string option"
  qg_client_open :: bool

definition require_aioboto3 :: "bool \<Rightarrow> exn option" where
  "require_aioboto3 installed =
     (if installed then None else Some (RuntimeError (''SQS adapter requires the [aws] extra: uv pip install '' @ [CHR 0x27] @ ''fastapi-template[aws]'' @ [CHR 0x27])))"

definition SQSQueueGateway ::
  "bool \<Rightarrow> 'c sqs_api \<Rightarrow> (body \<Rightarrow> string) \<Rightarrow> (string \<Rightarrow> body option) \<Rightarrow> string \<Rightarrow> string \<Rightarrow> string option \<Rightarrow> int option \<Rightarrow> string option
     \<Rightarrow> exn + 'c sqs_gateway" where
  "SQSQueueGateway installed client dumps loads queue_url region_name endpoint_url visibility_timeout dead_letter_queue_url =
     (case require_aioboto3 installed of
        Some e \<Rightarrow> Inl e
      | None \<Rightarrow>
          if queue_url = '''' then Inl (ValueError ''queue_url is required for SQS gateway'')
          else Inr \<lparr>qg_client = client, qg_dumps = dumps, qg_loads = loads, qg_queue_url = queue_url, qg_region_name = region_name,
                    qg_endpoint_url = endpoint_url, qg_visibility_timeout = visibility_timeout,
                    qg_dead_letter_queue_url = dead_letter_queue_url, qg_client_open = False\<rparr>)"

text \<open>\<open>open\<close> answers the gateway as it is afterwards as well: on failure its client is closed again.\<close>

definition sqs_open :: "bool \<Rightarrow> 'c sqs_gateway \<Rightarrow> 'c \<Rightarrow> (exn + unit) \<times> 'c sqs_gateway" where
  "sqs_open botocore g s =
     (let g1 = g\<lparr>qg_client_open := True\<rparr> in
      case sqs_probe (qg_client g) (qg_queue_url g) s of
        None \<Rightarrow> (Inr (), g1)
      | Some exc \<Rightarrow>
          if is_permission_denied botocore exc then (Inr (), g1)
          else (Inl (RuntimeError (''SQS queue '' @ repr_str (qg_queue_url g) @ '' is not reachable (endpoint ''
                       @ (if dflt '''' (qg_endpoint_url g) \<noteq> '''' then dflt '''' (qg_endpoint_url g) else ''default'') @ ''): '' @ aws_exc_str exc)),
                g1\<lparr>qg_client_open := False\<rparr>))"

definition sqs_close :: "'c sqs_gateway \<Rightarrow> 'c sqs_gateway" where
  "sqs_close g = g\<lparr>qg_client_open := False\<rparr>"

definition sqs_send :: "'c sqs_gateway \<Rightarrow> body \<Rightarrow> ('c, exn + string) prog" where
  "sqs_send g payload = await (sqs_send_message (qg_client g) (qg_queue_url g) (qg_dumps g payload) []) (\<lambda>i. Done (Inr i))"

definition raw_receive_count :: "sqs_raw \<Rightarrow> exn + int" where
  "raw_receive_count raw = (case dict_get (dflt [] (raw_attributes raw)) ''ApproximateReceiveCount'' of
      None \<Rightarrow> Inr 1
    | Some t \<Rightarrow> (case py_int_str t of
        Some n \<Rightarrow> Inr n
      | None \<Rightarrow> Inl (ValueError (''invalid literal for int() with base 10: '' @ repr_str t))))"

definition sqs_message :: "(string \<Rightarrow> body option) \<Rightarrow> sqs_raw \<Rightarrow> exn + sqs_msg" where
  "sqs_message loads raw = (case loads (raw_body raw) of
      None \<Rightarrow> Inl JSONDecodeError
    | Some b \<Rightarrow> (case raw_receive_count raw of
        Inl e \<Rightarrow> Inl e
      | Inr n \<Rightarrow> Inr \<lparr>qm_id = raw_message_id raw, qm_body = b, qm_receive_count = n, qm_raw = Some raw\<rparr>))"

fun sqs_messages :: "(string \<Rightarrow> body option) \<Rightarrow> sqs_raw list \<Rightarrow> exn + sqs_msg list" where
  "sqs_messages loads [] = Inr []"
| "sqs_messages loads (raw # raws) = (case sqs_message loads raw of
      Inl e \<Rightarrow> Inl e
    | Inr m \<Rightarrow> map_sum id (\<lambda>ms. m # ms) (sqs_messages loads raws))"

definition sqs_receive :: "'c sqs_gateway \<Rightarrow> int \<Rightarrow> seconds \<Rightarrow> ('c, exn + sqs_msg list) prog" where
  "sqs_receive g max_messages wait_seconds =
     await (sqs_receive_message (qg_client g) (qg_queue_url g) (min max_messages 10) (min (py_trunc wait_seconds) 20) (qg_visibility_timeout g))
       (\<lambda>raws. Done (sqs_messages (qg_loads g) raws))"

text \<open>\<open>(message.raw or {}).get("ReceiptHandle")\<close>, where an empty handle counts as none.\<close>

definition receipt_handle :: "sqs_msg \<Rightarrow> string option" where
  "receipt_handle m = (case qm_raw m of
      None \<Rightarrow> None
    | Some raw \<Rightarrow> (case raw_receipt_handle raw of None \<Rightarrow> None | Some h \<Rightarrow> if h = '''' then None else Some h))"

definition missing_handle :: exn where
  "missing_handle = ValueError ''missing ReceiptHandle on SQS message''"

definition sqs_ack :: "'c sqs_gateway \<Rightarrow> sqs_msg \<Rightarrow> ('c, exn + unit) prog" where
  "sqs_ack g m = (case receipt_handle m of
      None \<Rightarrow> Done (Inl missing_handle)
    | Some h \<Rightarrow> await (\<lambda>s. ((), sqs_delete_message (qg_client g) (qg_queue_url g) h s)) (\<lambda>_. Done (Inr ())))"

definition dead_letter_attributes :: "sqs_msg \<Rightarrow> (string \<times> string \<times> string) list" where
  "dead_letter_attributes m =
     [(''reason'', ''String'', ''nack_no_requeue''), (''original_message_id'', ''String'', qm_id m),
      (''receive_count'', ''Number'', int_str (qm_receive_count m))]"

definition sqs_nack :: "'c sqs_gateway \<Rightarrow> sqs_msg \<Rightarrow> bool \<Rightarrow> ('c, exn + unit) prog" where
  "sqs_nack g m requeue =
     (if \<not> requeue then
        (case qg_dead_letter_queue_url g of
           None \<Rightarrow> Done (Inr ())
         | Some dlq \<Rightarrow> (case (receipt_handle m, qm_raw m) of
             (Some h, Some raw) \<Rightarrow>
               await (sqs_send_message (qg_client g) dlq (raw_body raw) (dead_letter_attributes m)) (\<lambda>_.
               await (\<lambda>s. ((), sqs_delete_message (qg_client g) (qg_queue_url g) h s)) (\<lambda>_. Done (Inr ())))
           | _ \<Rightarrow> Done (Inl missing_handle)))
      else (case receipt_handle m of
          None \<Rightarrow> Done (Inr ())
        | Some h \<Rightarrow> await (\<lambda>s. ((), sqs_change_visibility (qg_client g) (qg_queue_url g) h 0 s)) (\<lambda>_. Done (Inr ()))))"

section \<open>What SQS promises\<close>

text \<open>
  \<open>sent s u\<close> are the messages ever sent to queue \<open>u\<close>, by id, with body and attributes; \<open>here s u\<close> those SQS still has, in the queue or where
  the queue's own redrive policy has put them, none having passed its retention period; \<open>owner s u\<close> tells which message a receipt handle is for.
\<close>

locale sqs_queues =
  fixes api :: "'c sqs_api" and sent :: "'c \<Rightarrow> string \<Rightarrow> string \<Rightarrow> (string \<times> (string \<times> string \<times> string) list) option"
    and here :: "'c \<Rightarrow> string \<Rightarrow> string set" and owner :: "'c \<Rightarrow> string \<Rightarrow> string \<Rightarrow> string option"
  assumes send_law: "sqs_send_message api u t a s = (i, s') \<Longrightarrow> sent s u i = None \<and> sent s' = (sent s)(u := (sent s u)(i \<mapsto> (t, a))) \<and> owner s' = owner s"
    and send_here: "sqs_send_message api u t a s = (i, s') \<Longrightarrow> here s v \<subseteq> here s' v"
    and delete_law: "sent (sqs_delete_message api u h s) = sent s \<and> owner (sqs_delete_message api u h s) = owner s"
    and delete_here: "i \<in> here s v \<Longrightarrow> v \<noteq> u \<or> owner s u h \<noteq> Some i \<Longrightarrow> i \<in> here (sqs_delete_message api u h s) v"
    and visibility_law: "sent (sqs_change_visibility api u h n s) = sent s \<and> here (sqs_change_visibility api u h n s) = here s \<and>
      owner (sqs_change_visibility api u h n s) = owner s"
    and receive_law: "sqs_receive_message api u n w vt s = (raws, s') \<Longrightarrow> sent s' = sent s \<and> here s' = here s \<and>
      (\<forall>v h i. owner s v h = Some i \<longrightarrow> owner s' v h = Some i)"
    and receive_raw: "sqs_receive_message api u n w vt s = (raws, s') \<Longrightarrow> raw \<in> set raws \<Longrightarrow>
      (\<exists>a. sent s u (raw_message_id raw) = Some (raw_body raw, a)) \<and> (\<forall>h. raw_receipt_handle raw = Some h \<longrightarrow> owner s' u h = Some (raw_message_id raw))"

section \<open>No message lost\<close>

text \<open>A message is genuine: it carries the raw message with its id, as SQS has it, and a handle of that message.\<close>

definition sqs_genuine ::
  "('c \<Rightarrow> string \<Rightarrow> string \<Rightarrow> (string \<times> (string \<times> string \<times> string) list) option) \<Rightarrow> ('c \<Rightarrow> string \<Rightarrow> string \<Rightarrow> string option) \<Rightarrow> 'c sqs_gateway \<Rightarrow> 'c \<Rightarrow> sqs_msg \<Rightarrow> bool" where
  "sqs_genuine sent owner g s m \<longleftrightarrow> (\<exists>raw a. qm_raw m = Some raw \<and> qm_id m = raw_message_id raw \<and> qg_loads g (raw_body raw) = Some (qm_body m) \<and>
     sent s (qg_queue_url g) (qm_id m) = Some (raw_body raw, a) \<and> (\<forall>h. raw_receipt_handle raw = Some h \<longrightarrow> owner s (qg_queue_url g) h = Some (qm_id m)))"

definition sqs_dead_lettered ::
  "('c \<Rightarrow> string \<Rightarrow> string \<Rightarrow> (string \<times> (string \<times> string \<times> string) list) option) \<Rightarrow> string option \<Rightarrow> string \<Rightarrow> string \<Rightarrow> 'c \<Rightarrow> bool" where
  "sqs_dead_lettered sent dlq i t s \<longleftrightarrow> (\<exists>u j a. dlq = Some u \<and> sent s u j = Some (t, a) \<and> (''original_message_id'', ''String'', i) \<in> set a)"

definition sqs_kept ::
  "('c \<Rightarrow> string \<Rightarrow> string \<Rightarrow> (string \<times> (string \<times> string \<times> string) list) option) \<Rightarrow> ('c \<Rightarrow> string \<Rightarrow> string set) \<Rightarrow> string \<Rightarrow> string option \<Rightarrow> string \<Rightarrow> string \<Rightarrow> 'c \<Rightarrow> bool" where
  "sqs_kept sent here u dlq i t s \<longleftrightarrow> (\<exists>a. sent s u i = Some (t, a)) \<and> (i \<in> here s u \<or> sqs_dead_lettered sent dlq i t s)"

definition sqs_grows ::
  "('c \<Rightarrow> string \<Rightarrow> string \<Rightarrow> (string \<times> (string \<times> string \<times> string) list) option) \<Rightarrow> ('c \<Rightarrow> string \<Rightarrow> string \<Rightarrow> string option) \<Rightarrow> 'c \<Rightarrow> 'c \<Rightarrow> bool" where
  "sqs_grows sent owner s s' \<longleftrightarrow> (\<forall>u i x. sent s u i = Some x \<longrightarrow> sent s' u i = Some x) \<and> (\<forall>u h i. owner s u h = Some i \<longrightarrow> owner s' u h = Some i)"

lemma stable_sqs_genuine: "stable (sqs_grows sent owner) (\<lambda>s. sqs_genuine sent owner g s m)"
  by (auto simp: stable_def sqs_grows_def sqs_genuine_def)

lemma stable_sqs_dead: "stable (sqs_grows sent owner) (\<lambda>s. sqs_dead_lettered sent dlq i t s)"
  unfolding stable_def sqs_grows_def sqs_dead_lettered_def by blast

lemma sqs_kept_mono:
  assumes "sqs_kept sent here u dlq i t s" "sqs_grows sent owner s s'" "i \<in> here s u \<Longrightarrow> i \<in> here s' u \<or> sqs_dead_lettered sent dlq i t s'"
  shows "sqs_kept sent here u dlq i t s'"
  using assms stable_sqs_dead [of sent owner dlq i t] unfolding sqs_kept_def stable_def sqs_grows_def by blast

definition sqs_answers ::
  "('c \<Rightarrow> string \<Rightarrow> string \<Rightarrow> (string \<times> (string \<times> string \<times> string) list) option) \<Rightarrow> ('c \<Rightarrow> string \<Rightarrow> string \<Rightarrow> string option) \<Rightarrow> 'c sqs_gateway \<Rightarrow> exn + sqs_msg list \<Rightarrow> 'c \<Rightarrow> bool" where
  "sqs_answers sent owner g r s \<longleftrightarrow> (\<forall>ms. r = Inr ms \<longrightarrow> (\<forall>m \<in> set ms. sqs_genuine sent owner g s m))"

lemma stable_sqs_answers: "stable (sqs_grows sent owner) (sqs_answers sent owner g r)"
  unfolding stable_def sqs_answers_def
proof (intro allI impI ballI)
  fix s s' ms m assume "sqs_grows sent owner s s'" "\<forall>ms. r = Inr ms \<longrightarrow> (\<forall>m \<in> set ms. sqs_genuine sent owner g s m)" "r = Inr ms" "m \<in> set ms"
  then show "sqs_genuine sent owner g s' m" using stable_sqs_genuine [of sent owner g m] unfolding stable_def by blast
qed

lemma sqs_messages_raw: "sqs_messages loads raws = Inr ms \<Longrightarrow> m \<in> set ms \<Longrightarrow>
  \<exists>raw \<in> set raws. qm_raw m = Some raw \<and> qm_id m = raw_message_id raw \<and> loads (raw_body raw) = Some (qm_body m)"
proof (induction raws arbitrary: ms)
  case (Cons raw raws)
  obtain m' ms' where m': "sqs_message loads raw = Inr m'" and ms': "sqs_messages loads raws = Inr ms'" "ms = m' # ms'"
    using Cons.prems(1) by (cases "sqs_message loads raw"; cases "sqs_messages loads raws") auto
  show ?case
  proof (cases "m \<in> set ms'")
    case True
    then show ?thesis using Cons.IH [OF ms'(1)] by auto
  next
    case False
    then have "m = m'" using Cons.prems(2) ms'(2) by simp
    then show ?thesis using m' by (auto simp: sqs_message_def split: option.splits sum.splits)
  qed
qed simp

lemma receipt_handle_raw: "receipt_handle m = Some h \<longleftrightarrow> (\<exists>raw. qm_raw m = Some raw \<and> raw_receipt_handle raw = Some h \<and> h \<noteq> '''')"
  by (auto simp: receipt_handle_def split: option.splits)

lemma genuine_owner: "sqs_genuine sent owner g s m \<Longrightarrow> receipt_handle m = Some h \<Longrightarrow> owner s (qg_queue_url g) h = Some (qm_id m)"
  by (auto simp: sqs_genuine_def receipt_handle_raw)

context sqs_queues
begin

lemma grows_send: "sqs_send_message api u t a s = (i, s') \<Longrightarrow> sqs_grows sent owner s s'"
  using send_law [of u t a s i s'] by (auto simp: sqs_grows_def)

lemma grows_delete: "sqs_grows sent owner s (sqs_delete_message api u h s)"
  by (simp add: sqs_grows_def delete_law)

lemma kept_delete:
  assumes J: "sqs_kept sent here u dlq i t s" and "owner s u h \<noteq> Some i \<or> sqs_dead_lettered sent dlq i t s"
  shows "sqs_kept sent here u dlq i t (sqs_delete_message api u h s)"
  by (rule sqs_kept_mono [OF J grows_delete])
    (use assms(2) delete_here [of i s u u h] stable_sqs_dead [of sent owner dlq i t] grows_delete [of s u h] in \<open>auto simp: stable_def\<close>)

lemma keeps_sqs_send:
  assumes g: "qg_client g = api"
  shows "keeps (sqs_kept sent here u dlq i t) (sqs_grows sent owner) (\<lambda>_ _. True) (\<lambda>s. True) (sqs_send g payload)"
  unfolding sqs_send_def g
proof (rule keeps_await [where K' = "\<lambda>_ _. True"])
  fix s j s' assume J: "sqs_kept sent here u dlq i t s" and cmd: "sqs_send_message api (qg_queue_url g) (qg_dumps g payload) [] s = (j, s')"
  have "sqs_kept sent here u dlq i t s'" by (rule sqs_kept_mono [OF J grows_send [OF cmd]]) (use send_here [OF cmd, of u] in blast)
  then show "sqs_grows sent owner s s' \<and> sqs_kept sent here u dlq i t s' \<and> True" using grows_send [OF cmd] by blast
qed (auto simp: stable_def intro: keeps_Done)

lemma keeps_sqs_receive:
  assumes g: "qg_client g = api"
  shows "keeps (sqs_kept sent here u dlq i t) (sqs_grows sent owner) (sqs_answers sent owner g) (\<lambda>s. True) (sqs_receive g n wait)"
  unfolding sqs_receive_def g
proof (rule keeps_await [where K' = "\<lambda>raws. sqs_answers sent owner g (sqs_messages (qg_loads g) raws)"])
  fix s raws s' assume J: "sqs_kept sent here u dlq i t s"
    and cmd: "sqs_receive_message api (qg_queue_url g) (min n 10) (min (py_trunc wait) 20) (qg_visibility_timeout g) s = (raws, s')"
  note law = receive_law [OF cmd]
  have "sqs_grows sent owner s s'" using law by (simp add: sqs_grows_def)
  moreover have "sqs_kept sent here u dlq i t s'" by (rule sqs_kept_mono [OF J \<open>sqs_grows sent owner s s'\<close>]) (simp add: law)
  moreover have "sqs_answers sent owner g (sqs_messages (qg_loads g) raws) s'"
    unfolding sqs_answers_def
  proof (intro allI impI ballI)
    fix ms m assume "sqs_messages (qg_loads g) raws = Inr ms" "m \<in> set ms"
    from sqs_messages_raw [OF this] obtain raw where raw: "raw \<in> set raws" "qm_raw m = Some raw" "qm_id m = raw_message_id raw"
      "qg_loads g (raw_body raw) = Some (qm_body m)" by blast
    from receive_raw [OF cmd raw(1)] raw show "sqs_genuine sent owner g s' m" by (auto simp: sqs_genuine_def law)
  qed
  ultimately show "sqs_grows sent owner s s' \<and> sqs_kept sent here u dlq i t s' \<and> sqs_answers sent owner g (sqs_messages (qg_loads g) raws) s'" by blast
qed (auto intro: stable_sqs_answers keeps_Done)

lemma keeps_sqs_delete:
  assumes "\<And>s. sqs_kept sent here u dlq i t s \<Longrightarrow> K s \<Longrightarrow> owner s u h \<noteq> Some i \<or> sqs_dead_lettered sent dlq i t s"
  shows "keeps (sqs_kept sent here u dlq i t) (sqs_grows sent owner) (\<lambda>_ _. True) K
    (await (\<lambda>s. ((), sqs_delete_message api u h s)) (\<lambda>_. Done (Inr ())))"
  by (rule keeps_await [where K' = "\<lambda>_ _. True"]) (use kept_delete assms grows_delete in \<open>auto simp: stable_def intro: keeps_Done\<close>)

lemma keeps_sqs_ack:
  assumes g: "qg_client g = api" "qg_queue_url g = u" and "qm_id m \<noteq> i"
  shows "keeps (sqs_kept sent here u dlq i t) (sqs_grows sent owner) (\<lambda>_ _. True) (\<lambda>s. sqs_genuine sent owner g s m) (sqs_ack g m)"
proof (cases "receipt_handle m")
  case None
  then show ?thesis by (auto simp: sqs_ack_def intro: keeps_Done)
next
  case (Some h)
  have "keeps (sqs_kept sent here u dlq i t) (sqs_grows sent owner) (\<lambda>_ _. True) (\<lambda>s. sqs_genuine sent owner g s m)
      (await (\<lambda>s. ((), sqs_delete_message api u h s)) (\<lambda>_. Done (Inr ())))"
    by (rule keeps_sqs_delete) (simp add: genuine_owner [OF _ Some, where g = g, unfolded g(2)] assms(3))
  then show ?thesis by (simp add: sqs_ack_def Some g)
qed

lemma keeps_sqs_dead_letter:
  assumes g: "qg_client g = api" "qg_queue_url g = u" and h: "receipt_handle m = Some h" "qm_raw m = Some raw" and dlq: "dlq = Some d"
  shows "keeps (sqs_kept sent here u dlq i t) (sqs_grows sent owner) (\<lambda>_ _. True) (\<lambda>s. sqs_genuine sent owner g s m)
    (await (sqs_send_message api d (raw_body raw) (dead_letter_attributes m)) (\<lambda>_.
     await (\<lambda>s. ((), sqs_delete_message api u h s)) (\<lambda>_. Done (Inr ()))))"
proof (rule keeps_await [where K' = "\<lambda>_ s. sqs_genuine sent owner g s m \<and> (qm_id m = i \<longrightarrow> sqs_dead_lettered sent dlq i t s)"])
  fix s j s' assume J: "sqs_kept sent here u dlq i t s" and K: "sqs_genuine sent owner g s m"
    and cmd: "sqs_send_message api d (raw_body raw) (dead_letter_attributes m) s = (j, s')"
  have "sqs_kept sent here u dlq i t s'" by (rule sqs_kept_mono [OF J grows_send [OF cmd]]) (use send_here [OF cmd, of u] in blast)
  moreover have "sqs_genuine sent owner g s' m" using K grows_send [OF cmd] stable_sqs_genuine [of sent owner g m] unfolding stable_def by blast
  moreover have "sqs_dead_lettered sent dlq i t s'" if "qm_id m = i"
  proof -
    have "t = raw_body raw" using J K that h(2) g(2) by (auto simp: sqs_kept_def sqs_genuine_def)
    moreover have "sent s' d j = Some (raw_body raw, dead_letter_attributes m)" using send_law [OF cmd] by simp
    moreover have "(''original_message_id'', ''String'', i) \<in> set (dead_letter_attributes m)" by (simp add: dead_letter_attributes_def that)
    ultimately show ?thesis unfolding sqs_dead_lettered_def dlq by blast
  qed
  ultimately show "sqs_grows sent owner s s' \<and> sqs_kept sent here u dlq i t s' \<and> sqs_genuine sent owner g s' m \<and> (qm_id m = i \<longrightarrow> sqs_dead_lettered sent dlq i t s')"
    using grows_send [OF cmd] by blast
next
  show "stable (sqs_grows sent owner) (\<lambda>s. sqs_genuine sent owner g s m \<and> (qm_id m = i \<longrightarrow> sqs_dead_lettered sent dlq i t s))"
    using stable_sqs_genuine [of sent owner g m] stable_sqs_dead [of sent owner dlq i t] unfolding stable_def by blast
next
  show "keeps (sqs_kept sent here u dlq i t) (sqs_grows sent owner) (\<lambda>_ _. True)
      (\<lambda>s. sqs_genuine sent owner g s m \<and> (qm_id m = i \<longrightarrow> sqs_dead_lettered sent dlq i t s))
      (await (\<lambda>s. ((), sqs_delete_message api u h s)) (\<lambda>_. Done (Inr ())))"
    by (rule keeps_sqs_delete) (auto simp: genuine_owner [OF _ h(1), where g = g, unfolded g(2)])
qed

lemma keeps_sqs_nack:
  assumes g: "qg_client g = api" "qg_queue_url g = u" "qg_dead_letter_queue_url g = dlq"
  shows "keeps (sqs_kept sent here u dlq i t) (sqs_grows sent owner) (\<lambda>_ _. True) (\<lambda>s. sqs_genuine sent owner g s m) (sqs_nack g m requeue)"
proof (cases "receipt_handle m")
  case None
  then show ?thesis by (auto simp: sqs_nack_def intro: keeps_Done split: option.splits)
next
  case h: (Some h)
  then obtain raw where raw: "qm_raw m = Some raw" by (auto simp: receipt_handle_raw)
  show ?thesis
  proof (cases "requeue \<or> dlq = None")
    case False
    then obtain d where "dlq = Some d" "\<not> requeue" by auto
    then show ?thesis using keeps_sqs_dead_letter [OF g(1,2) h raw, of dlq d] by (simp add: sqs_nack_def h raw g)
  next
    case True
    have "keeps (sqs_kept sent here u dlq i t) (sqs_grows sent owner) (\<lambda>_ _. True) (\<lambda>s. sqs_genuine sent owner g s m)
        (await (\<lambda>s. ((), sqs_change_visibility api u h 0 s)) (\<lambda>_. Done (Inr ())))"
      by (rule keeps_await [where K' = "\<lambda>_ _. True"])
        (auto simp: stable_def sqs_grows_def visibility_law sqs_kept_def sqs_dead_lettered_def intro: keeps_Done)
    then show ?thesis using True by (auto simp: sqs_nack_def h raw g intro: keeps_Done split: option.splits)
  qed
qed

end
text \<open>Calls of any number of gateways of a queue. A message that is settled was received before; the message in question is not acknowledged.\<close>

datatype 'c sqs_call =
    SqsSend "'c sqs_gateway" body
  | SqsReceive "'c sqs_gateway" int seconds
  | SqsAck "'c sqs_gateway" sqs_msg
  | SqsNack "'c sqs_gateway" sqs_msg bool

fun sqs_call_gateway :: "'c sqs_call \<Rightarrow> 'c sqs_gateway" where
  "sqs_call_gateway (SqsSend g b) = g"
| "sqs_call_gateway (SqsReceive g n wait) = g"
| "sqs_call_gateway (SqsAck g m) = g"
| "sqs_call_gateway (SqsNack g m requeue) = g"

fun sqs_call_ok ::
  "('c \<Rightarrow> string \<Rightarrow> string \<Rightarrow> (string \<times> (string \<times> string \<times> string) list) option) \<Rightarrow> ('c \<Rightarrow> string \<Rightarrow> string \<Rightarrow> string option) \<Rightarrow> string \<Rightarrow> 'c \<Rightarrow> 'c sqs_call \<Rightarrow> bool" where
  "sqs_call_ok sent owner i s (SqsAck g m) \<longleftrightarrow> qm_id m \<noteq> i \<and> sqs_genuine sent owner g s m"
| "sqs_call_ok sent owner i s (SqsNack g m requeue) \<longleftrightarrow> sqs_genuine sent owner g s m"
| "sqs_call_ok sent owner i s c \<longleftrightarrow> True"

fun start_sqs :: "'c sqs_call \<Rightarrow> ('c, exn + sqs_msg list) prog" where
  "start_sqs (SqsSend g b) = call (sqs_send g b) (\<lambda>_. Done (Inr []))"
| "start_sqs (SqsReceive g n wait) = sqs_receive g n wait"
| "start_sqs (SqsAck g m) = call (sqs_ack g m) (\<lambda>_. Done (Inr []))"
| "start_sqs (SqsNack g m requeue) = call (sqs_nack g m requeue) (\<lambda>_. Done (Inr []))"

definition same_queue :: "'c sqs_gateway \<Rightarrow> 'c sqs_gateway \<Rightarrow> bool" where
  "same_queue g g' \<longleftrightarrow> qg_client g' = qg_client g \<and> qg_queue_url g' = qg_queue_url g \<and> qg_dead_letter_queue_url g' = qg_dead_letter_queue_url g \<and>
     qg_loads g' = qg_loads g"

lemma sqs_answers_same: "same_queue g g' \<Longrightarrow> sqs_answers sent owner g' = sqs_answers sent owner g"
  by (intro ext) (simp add: sqs_answers_def sqs_genuine_def same_queue_def)

context sqs_queues
begin

lemma start_sqs_relies:
  assumes g: "qg_client g = api" and c: "same_queue g (sqs_call_gateway c)" "sqs_call_ok sent owner i s c"
  shows "relies (sqs_kept sent here (qg_queue_url g) (qg_dead_letter_queue_url g) i t) (sqs_grows sent owner) (sqs_answers sent owner g) s (start_sqs c)"
proof -
  let ?J = "sqs_kept sent here (qg_queue_url g) (qg_dead_letter_queue_url g) i t" and ?R = "sqs_grows sent owner" and ?Q = "sqs_answers sent owner g"
  have st: "stable ?R (\<lambda>s. True)" by (simp add: stable_def)
  have plain: "keeps ?J ?R ?Q K (call p (\<lambda>_. Done (Inr [])))" if "keeps ?J ?R (\<lambda>_ _. True) K p" for K and p :: "('c, exn + 'x) prog"
    by (rule keeps_call [OF that]) (auto simp: sqs_answers_def intro: keeps_Done)
  show ?thesis
  proof (cases c)
    case (SqsSend g' b)
    then have "keeps ?J ?R ?Q (\<lambda>s. True) (start_sqs c)" using plain [OF keeps_sqs_send [of g']] g c(1) by (simp add: same_queue_def)
    then show ?thesis by (rule reliesI [OF _ st]) simp
  next
    case (SqsReceive g' n wait)
    then have "keeps ?J ?R ?Q (\<lambda>s. True) (start_sqs c)" using keeps_sqs_receive [of g'] g c(1) sqs_answers_same [of g g' sent owner] by (simp add: same_queue_def)
    then show ?thesis by (rule reliesI [OF _ st]) simp
  next
    case (SqsAck g' m)
    then have "keeps ?J ?R ?Q (\<lambda>s. sqs_genuine sent owner g' s m) (start_sqs c)" using plain [OF keeps_sqs_ack [of g']] g c by (simp add: same_queue_def)
    then show ?thesis by (rule reliesI [OF _ stable_sqs_genuine]) (use SqsAck c in simp)
  next
    case (SqsNack g' m requeue)
    then have "keeps ?J ?R ?Q (\<lambda>s. sqs_genuine sent owner g' s m) (start_sqs c)" using plain [OF keeps_sqs_nack [of g']] g c by (simp add: same_queue_def)
    then show ?thesis by (rule reliesI [OF _ stable_sqs_genuine]) (use SqsNack c in simp)
  qed
qed

lemma no_sqs_message_lost:
  assumes g: "qg_client g = api" and s: "sent s (qg_queue_url g) i = Some (t, a)" "i \<in> here s (qg_queue_url g)"
    and c: "\<forall>c \<in> set calls. same_queue g (sqs_call_gateway c) \<and> sqs_call_ok sent owner i s c"
    and run: "schedule sched (s, map start_sqs calls) = (s', ps)"
  shows "i \<in> here s' (qg_queue_url g) \<or> sqs_dead_lettered sent (qg_dead_letter_queue_url g) i t s'"
    "\<forall>p \<in> set ps. \<forall>r. result p = Some r \<longrightarrow> sqs_answers sent owner g r s'"
proof -
  let ?J = "sqs_kept sent here (qg_queue_url g) (qg_dead_letter_queue_url g) i t"
  have J: "?J s" using s by (auto simp: sqs_kept_def)
  have "\<forall>p \<in> set (map start_sqs calls). relies ?J (sqs_grows sent owner) (sqs_answers sent owner g) s p"
    using start_sqs_relies [OF g] c by auto
  note end_state = schedule_relies [OF J this run]
  show "i \<in> here s' (qg_queue_url g) \<or> sqs_dead_lettered sent (qg_dead_letter_queue_url g) i t s'" using end_state(1) by (simp add: sqs_kept_def)
  show "\<forall>p \<in> set ps. \<forall>r. result p = Some r \<longrightarrow> sqs_answers sent owner g r s'" by (rule end_state(2))
qed

end

section \<open>A server\<close>

text \<open>
  Messages are numbered, and a receipt handle is the id it is for. \<open>qs_hidden\<close> are the messages that were received and are invisible.
\<close>

record sqs_server =
  qs_sent :: "((string \<times> string) \<times> string \<times> (string \<times> string \<times> string) list) list"
  qs_deleted :: "(string \<times> string) list"
  qs_hidden :: "(string \<times> string) list"

definition qs_lookup :: "sqs_server \<Rightarrow> string \<Rightarrow> string \<Rightarrow> (string \<times> (string \<times> string \<times> string) list) option" where
  "qs_lookup s u i = map_of (qs_sent s) (u, i)"

definition qs_here :: "sqs_server \<Rightarrow> string \<Rightarrow> string set" where
  "qs_here s u = {i. (u, i) \<in> fst ` set (qs_sent s) \<and> (u, i) \<notin> set (qs_deleted s)}"

definition qs_owner :: "sqs_server \<Rightarrow> string \<Rightarrow> string \<Rightarrow> string option" where
  "qs_owner s u h = Some h"

definition qs_fresh :: "sqs_server \<Rightarrow> string" where
  "qs_fresh s = nat_str (Suc (sum_list (map (\<lambda>((_, i), _). str_nat i) (qs_sent s))))"

definition qs_raw :: "sqs_server \<Rightarrow> string \<Rightarrow> string \<Rightarrow> sqs_raw" where
  "qs_raw s u i = \<lparr>raw_message_id = i, raw_body = fst (the (qs_lookup s u i)), raw_receipt_handle = Some i, raw_attributes = None\<rparr>"

definition qs_api :: "sqs_server sqs_api" where
  "qs_api = \<lparr>sqs_probe = (\<lambda>u s. None),
     sqs_send_message = (\<lambda>u t a s. (qs_fresh s, s\<lparr>qs_sent := qs_sent s @ [((u, qs_fresh s), t, a)]\<rparr>)),
     sqs_receive_message = (\<lambda>u n w vt s.
        let ids = take (nat n) (map snd (filter (\<lambda>ui. fst ui = u \<and> ui \<notin> set (qs_deleted s) \<and> ui \<notin> set (qs_hidden s)) (map fst (qs_sent s)))) in
        (map (qs_raw s u) ids, s\<lparr>qs_hidden := map (Pair u) ids @ qs_hidden s\<rparr>)),
     sqs_delete_message = (\<lambda>u h s. s\<lparr>qs_deleted := (u, h) # qs_deleted s\<rparr>),
     sqs_change_visibility = (\<lambda>u h n s. if n = 0 then s\<lparr>qs_hidden := removeAll (u, h) (qs_hidden s)\<rparr> else s)\<rparr>"

lemma qs_fresh_new: "map_of (qs_sent s) (u, qs_fresh s) = None"
proof (rule ccontr)
  assume "map_of (qs_sent s) (u, qs_fresh s) \<noteq> None"
  then obtain x where "((u, qs_fresh s), x) \<in> set (qs_sent s)" by (auto dest: map_of_SomeD)
  then have "str_nat (qs_fresh s) \<in> set (map (\<lambda>((_, i), _). str_nat i) (qs_sent s))" by force
  from member_le_sum_list [OF this] show False by (simp add: qs_fresh_def str_nat_nat_str)
qed

interpretation sqs_srv: sqs_queues qs_api qs_lookup qs_here qs_owner
proof unfold_locales
  fix u n w vt s raws s'
  assume cmd: "sqs_receive_message qs_api u n w vt s = (raws, s')"
  then show "qs_lookup s' = qs_lookup s \<and> qs_here s' = qs_here s \<and> (\<forall>v h i. qs_owner s v h = Some i \<longrightarrow> qs_owner s' v h = Some i)"
    by (auto simp: qs_api_def Let_def qs_lookup_def qs_here_def qs_owner_def fun_eq_iff)
  fix raw assume "raw \<in> set raws"
  with cmd obtain i where i: "raw = qs_raw s u i" "(u, i) \<in> fst ` set (qs_sent s)"
    by (auto simp: qs_api_def Let_def dest!: in_set_takeD) force
  then obtain x where "qs_lookup s u i = Some x" unfolding qs_lookup_def by (metis map_of_eq_None_iff not_None_eq)
  then show "(\<exists>a. qs_lookup s u (raw_message_id raw) = Some (raw_body raw, a)) \<and>
      (\<forall>h. raw_receipt_handle raw = Some h \<longrightarrow> qs_owner s' u h = Some (raw_message_id raw))"
    by (cases x) (simp add: i qs_raw_def qs_owner_def)
next
  fix u t a s i s' assume "sqs_send_message qs_api u t a s = (i, s')"
  then show "qs_lookup s u i = None \<and> qs_lookup s' = (qs_lookup s)(u := (qs_lookup s u)(i \<mapsto> (t, a))) \<and> qs_owner s' = qs_owner s"
    using qs_fresh_new [of s u] by (auto simp: qs_api_def qs_lookup_def qs_owner_def fun_eq_iff map_add_def split: option.splits)
qed (auto simp: qs_api_def qs_lookup_def qs_here_def qs_owner_def fun_eq_iff)

text \<open>
  C14. No message on SQS is lost. However the sends, receives, acknowledgements and rejections of any number of gateways of a queue are
  interleaved, and wherever calls are cut off, also between the two calls by which a message is dead-lettered, a message that nobody
  acknowledges is still with the queue or was sent to the dead-letter queue with its id and its text; and every message a receive answers
  has the text of the message with its id.
\<close>

theorem sqs_messages_not_lost:
  assumes "sqs_queues (qg_client g) sent here owner" "sent s (qg_queue_url g) i = Some (t, a)" "i \<in> here s (qg_queue_url g)"
    and "\<forall>c \<in> set calls. same_queue g (sqs_call_gateway c) \<and> sqs_call_ok sent owner i s c"
    and "schedule sched (s, map start_sqs calls) = (s', ps)"
  shows "(i \<in> here s' (qg_queue_url g) \<or> sqs_dead_lettered sent (qg_dead_letter_queue_url g) i t s') \<and>
    (\<forall>p \<in> set ps. \<forall>ms. result p = Some (Inr ms) \<longrightarrow> (\<forall>m \<in> set ms. sqs_genuine sent owner g s' m))"
  using sqs_queues.no_sqs_message_lost [OF assms(1) refl assms(2-5)] by (auto simp: sqs_answers_def)

definition demo_sqs :: "sqs_server sqs_gateway" where
  "demo_sqs = \<lparr>qg_client = qs_api, qg_dumps = (\<lambda>b. ''{}''), qg_loads = (\<lambda>t. Some []), qg_queue_url = ''q'', qg_region_name = ''r'', qg_endpoint_url = None,
     qg_visibility_timeout = None, qg_dead_letter_queue_url = Some ''dlq'', qg_client_open = True\<rparr>"

definition demo_sqs_state :: sqs_server where
  "demo_sqs_state = \<lparr>qs_sent = [((''q'', ''1''), ''{}'', [])], qs_deleted = [], qs_hidden = [(''q'', ''1'')]\<rparr>"

definition demo_sqs_calls :: "sqs_server sqs_call list" where
  "demo_sqs_calls = [SqsNack demo_sqs \<lparr>qm_id = ''1'', qm_body = [], qm_receive_count = 1,
       qm_raw = Some \<lparr>raw_message_id = ''1'', raw_body = ''{}'', raw_receipt_handle = Some ''1'', raw_attributes = None\<rparr>\<rparr> False, SqsReceive demo_sqs 10 0]"

theorem sqs_messages_not_lost_witness:
  "''1'' \<in> qs_here (fst (schedule [0, 1, 0] (demo_sqs_state, map start_sqs demo_sqs_calls))) ''q'' \<or>
   sqs_dead_lettered qs_lookup (Some ''dlq'') ''1'' ''{}'' (fst (schedule [0, 1, 0] (demo_sqs_state, map start_sqs demo_sqs_calls)))"
proof -
  have g: "qg_client demo_sqs = qs_api" "qg_queue_url demo_sqs = ''q''" "qg_dead_letter_queue_url demo_sqs = Some ''dlq''" "qg_loads demo_sqs = (\<lambda>t. Some [])"
    by (simp_all add: demo_sqs_def)
  have w: "qs_lookup demo_sqs_state ''q'' ''1'' = Some (''{}'', [])" by (simp add: qs_lookup_def demo_sqs_state_def)
  have l: "''1'' \<in> qs_here demo_sqs_state ''q''" by (simp add: qs_here_def demo_sqs_state_def)
  have c: "\<forall>c \<in> set demo_sqs_calls. same_queue demo_sqs (sqs_call_gateway c) \<and> sqs_call_ok qs_lookup qs_owner ''1'' demo_sqs_state c"
    by (simp add: demo_sqs_calls_def same_queue_def g sqs_genuine_def w qs_owner_def)
  show ?thesis
    using sqs_messages_not_lost [where g = demo_sqs and sent = qs_lookup and here = qs_here and owner = qs_owner and s = demo_sqs_state and i = "''1''"
        and t = "''{}''" and calls = demo_sqs_calls and sched = "[0, 1, 0]", OF _ _ _ c prod.collapse [symmetric]]
    by (simp add: g w l sqs_srv.sqs_queues_axioms)
qed

text \<open>Opening never leaves a client open behind a failure, and a policy that forbids the probe is no failure.\<close>

theorem sqs_open_tidy:
  "case sqs_open botocore g s of (r, g') \<Rightarrow> qg_client_open g' = (r = Inr ()) \<and>
     (r = Inr () \<longleftrightarrow> (\<forall>e. sqs_probe (qg_client g) (qg_queue_url g) s = Some e \<longrightarrow> is_permission_denied botocore e))"
  by (auto simp: sqs_open_def Let_def split: option.splits)

end
