(* ===== verification/Storage_Remote.thy ===== *)
theory Storage_Remote
  imports Storage Queue_Streams Queue_SQS
begin

text \<open>
  The cache on Redis (\<open>src/app/modules/platform/cache/adapters/redis.py\<close>) and the object store on S3
  (\<open>src/app/modules/platform/objects/adapters/s3.py\<close>).

  Both services are arguments; the locales \<open>redis_cache\<close> and \<open>s3_service\<close> state what they promise. Each operation is one command, so
  calls of many processes are some sequence of them. Redis reads its own clock, in milliseconds. Bytes are given as text.
\<close>

section \<open>Cache on Redis\<close>

record 'r cache_api =
  kc_get :: "int \<Rightarrow> string \<Rightarrow> 'r \<Rightarrow> rtext option"
  kc_mget :: "int \<Rightarrow> string list \<Rightarrow> 'r \<Rightarrow> rtext option list"
  kc_exists :: "int \<Rightarrow> string \<Rightarrow> 'r \<Rightarrow> int"
  kc_set :: "int \<Rightarrow> string \<Rightarrow> string \<Rightarrow> int \<Rightarrow> 'r \<Rightarrow> 'r"
  kc_delete :: "int \<Rightarrow> string list \<Rightarrow> 'r \<Rightarrow> int \<times> 'r"

record 'r redis_cache_gateway =
  rc_redis :: "'r cache_api"
  rc_prefix :: string
  rc_default_ttl_seconds :: seconds

definition RedisCacheGateway :: "'r cache_api \<Rightarrow> string \<Rightarrow> seconds \<Rightarrow> exn + 'r redis_cache_gateway" where
  "RedisCacheGateway redis prefix default_ttl_seconds =
     (if default_ttl_seconds \<le> 0 then Inl (ValueError ''default_ttl_seconds must be positive'')
      else Inr \<lparr>rc_redis = redis, rc_prefix = prefix, rc_default_ttl_seconds = default_ttl_seconds\<rparr>)"

definition coerce_bytes :: "rtext option \<Rightarrow> string option" where
  "coerce_bytes v = map_option rdecode v"

definition rc_key :: "'r redis_cache_gateway \<Rightarrow> string \<Rightarrow> string" where
  "rc_key g key = rc_prefix g @ '':'' @ key"

definition resolve_ttl_ms :: "'r redis_cache_gateway \<Rightarrow> seconds option \<Rightarrow> exn + int" where
  "resolve_ttl_ms g ttl_seconds =
     (let ttl = (case ttl_seconds of None \<Rightarrow> rc_default_ttl_seconds g | Some t \<Rightarrow> t) in
      if ttl \<le> 0 then Inl (ValueError ''ttl_seconds must be positive'') else Inr (max (ceiling (ttl * 1000)) 1))"

definition rc_get :: "'r redis_cache_gateway \<Rightarrow> int \<Rightarrow> string \<Rightarrow> 'r \<Rightarrow> (exn + string option) \<times> 'r" where
  "rc_get g now key s = (Inr (coerce_bytes (kc_get (rc_redis g) now (rc_key g key) s)), s)"

definition rc_set :: "'r redis_cache_gateway \<Rightarrow> int \<Rightarrow> string \<Rightarrow> string \<Rightarrow> seconds option \<Rightarrow> 'r \<Rightarrow> (exn + unit) \<times> 'r" where
  "rc_set g now key v ttl_seconds s = (case resolve_ttl_ms g ttl_seconds of
      Inl e \<Rightarrow> (Inl e, s)
    | Inr ttl_ms \<Rightarrow> (Inr (), kc_set (rc_redis g) now (rc_key g key) v ttl_ms s))"

definition rc_delete :: "'r redis_cache_gateway \<Rightarrow> int \<Rightarrow> string \<Rightarrow> 'r \<Rightarrow> (exn + bool) \<times> 'r" where
  "rc_delete g now key s = (case kc_delete (rc_redis g) now [rc_key g key] s of (n, s') \<Rightarrow> (Inr (n \<noteq> 0), s'))"

definition rc_exists :: "'r redis_cache_gateway \<Rightarrow> int \<Rightarrow> string \<Rightarrow> 'r \<Rightarrow> (exn + bool) \<times> 'r" where
  "rc_exists g now key s = (Inr (kc_exists (rc_redis g) now (rc_key g key) s \<noteq> 0), s)"

fun collect_values :: "(string \<times> rtext option) list \<Rightarrow> (string, string) dict \<Rightarrow> (string, string) dict" where
  "collect_values [] found = found"
| "collect_values ((original_key, raw) # rest) found = (case coerce_bytes raw of
      None \<Rightarrow> collect_values rest found
    | Some v \<Rightarrow> collect_values rest (dict_set found original_key v))"

definition rc_get_many :: "'r redis_cache_gateway \<Rightarrow> int \<Rightarrow> string list \<Rightarrow> 'r \<Rightarrow> (exn + (string, string) dict) \<times> 'r" where
  "rc_get_many g now keys s =
     (if keys = [] then (Inr [], s)
      else (Inr (collect_values (zip keys (kc_mget (rc_redis g) now (map (rc_key g) keys) s)) []), s))"

definition rc_set_many :: "'r redis_cache_gateway \<Rightarrow> int \<Rightarrow> (string, string) dict \<Rightarrow> seconds option \<Rightarrow> 'r \<Rightarrow> (exn + unit) \<times> 'r" where
  "rc_set_many g now items ttl_seconds s =
     (if items = [] then (Inr (), s)
      else (case resolve_ttl_ms g ttl_seconds of
          Inl e \<Rightarrow> (Inl e, s)
        | Inr ttl_ms \<Rightarrow> (Inr (), fold (\<lambda>(key, v). kc_set (rc_redis g) now (rc_key g key) v ttl_ms) items s)))"

definition rc_delete_many :: "'r redis_cache_gateway \<Rightarrow> int \<Rightarrow> string list \<Rightarrow> 'r \<Rightarrow> (exn + nat) \<times> 'r" where
  "rc_delete_many g now keys s =
     (if keys = [] then (Inr 0, s)
      else (case kc_delete (rc_redis g) now (map (rc_key g) keys) s of (n, s') \<Rightarrow> (Inr (nat n), s')))"

fun rc_call :: "'r redis_cache_gateway \<Rightarrow> int \<Rightarrow> cache_op \<Rightarrow> 'r \<Rightarrow> cache_answer \<times> 'r" where
  "rc_call g now (CGet k) s = answer AValue (rc_get g now k s)"
| "rc_call g now (CSet k v ttl) s = answer (\<lambda>_. AUnit) (rc_set g now k v ttl s)"
| "rc_call g now (CDelete k) s = answer ABool (rc_delete g now k s)"
| "rc_call g now (CExists k) s = answer ABool (rc_exists g now k s)"
| "rc_call g now (CGetMany ks) s = answer AMany (rc_get_many g now ks s)"
| "rc_call g now (CSetMany items ttl) s = answer (\<lambda>_. AUnit) (rc_set_many g now items ttl s)"
| "rc_call g now (CDeleteMany ks) s = answer ACount (rc_delete_many g now ks s)"

fun rc_run :: "'r redis_cache_gateway \<Rightarrow> (int \<times> cache_op) list \<Rightarrow> 'r \<Rightarrow> cache_answer list \<times> 'r" where
  "rc_run g [] s = ([], s)"
| "rc_run g ((now, op) # ops) s = (let (a, s1) = rc_call g now op s; (as, s2) = rc_run g ops s1 in (a # as, s2))"

text \<open>The value and the expiry, in milliseconds, last set for a key that was not deleted; a key is live before its expiry.\<close>

definition live_at :: "('r \<Rightarrow> string \<Rightarrow> (string \<times> int) option) \<Rightarrow> int \<Rightarrow> 'r \<Rightarrow> string \<Rightarrow> string option" where
  "live_at entry now s k = (case entry s k of None \<Rightarrow> None | Some (v, e) \<Rightarrow> if e \<le> now then None else Some v)"

locale redis_cache =
  fixes api :: "'r cache_api" and entry :: "'r \<Rightarrow> string \<Rightarrow> (string \<times> int) option"
  assumes get_law: "map_option rdecode (kc_get api now k s) = live_at entry now s k"
    and mget_law: "map (map_option rdecode) (kc_mget api now ks s) = map (live_at entry now s) ks"
    and exists_law: "kc_exists api now k s = (if live_at entry now s k = None then 0 else 1)"
    and set_law: "0 < px \<Longrightarrow> entry (kc_set api now k v px s) = (entry s)(k \<mapsto> (v, now + px))"
    and delete_law: "kc_delete api now ks s = (n, s') \<Longrightarrow>
      n = int (card {k \<in> set ks. live_at entry now s k \<noteq> None}) \<and> entry s' = (\<lambda>k. if k \<in> set ks then None else entry s k)"

text \<open>
  The Redis cache as one map from keys to values with their expiry, in milliseconds of the server's clock: the answer \<open>a\<close> of a call and
  the map after it. A time to live is rounded up to a whole millisecond; setting nothing does not look at it.
\<close>

type_synonym ms_map = "string \<Rightarrow> (string \<times> int) option"

definition shown :: "int \<Rightarrow> ms_map \<Rightarrow> string \<Rightarrow> string option" where
  "shown now m k = (case m k of None \<Rightarrow> None | Some (v, e) \<Rightarrow> if e \<le> now then None else Some v)"

fun ttl_spec :: "seconds \<Rightarrow> int \<Rightarrow> cache_op \<Rightarrow> cache_answer \<Rightarrow> ms_map \<Rightarrow> bool \<times> ms_map" where
  "ttl_spec dttl now (CGet k) a m = (a = AValue (shown now m k), m)"
| "ttl_spec dttl now (CExists k) a m = (a = ABool (shown now m k \<noteq> None), m)"
| "ttl_spec dttl now (CGetMany ks) a m =
     ((case a of AMany d \<Rightarrow> (\<forall>k. dict_get d k = (if k \<in> set ks then shown now m k else None)) | _ \<Rightarrow> False), m)"
| "ttl_spec dttl now (CSet k v ttl) a m =
     (if ttl_of dttl ttl \<le> 0 then (a = ARaise (ValueError ''ttl_seconds must be positive''), m)
      else (a = AUnit, m(k \<mapsto> (v, now + ceiling (ttl_of dttl ttl * 1000)))))"
| "ttl_spec dttl now (CSetMany items ttl) a m =
     (if items = [] then (a = AUnit, m)
      else if ttl_of dttl ttl \<le> 0 then (a = ARaise (ValueError ''ttl_seconds must be positive''), m)
      else (a = AUnit, fold (\<lambda>(k, v) m. m(k \<mapsto> (v, now + ceiling (ttl_of dttl ttl * 1000)))) items m))"
| "ttl_spec dttl now (CDelete k) a m = (a = ABool (shown now m k \<noteq> None), m(k := None))"
| "ttl_spec dttl now (CDeleteMany ks) a m =
     (a = ACount (card {k \<in> set ks. shown now m k \<noteq> None}), (\<lambda>k. if k \<in> set ks then None else m k))"

fun ttl_spec_run :: "seconds \<Rightarrow> (int \<times> cache_op) list \<Rightarrow> cache_answer list \<Rightarrow> ms_map \<Rightarrow> bool" where
  "ttl_spec_run dttl [] [] m = True"
| "ttl_spec_run dttl ((now, op) # ops) (a # as) m =
     (let (ok, m') = ttl_spec dttl now op a m in ok \<and> ttl_spec_run dttl ops as m')"
| "ttl_spec_run dttl _ _ m = False"

definition rc_rel :: "('r \<Rightarrow> string \<Rightarrow> (string \<times> int) option) \<Rightarrow> 'r redis_cache_gateway \<Rightarrow> 'r \<Rightarrow> ms_map \<Rightarrow> bool" where
  "rc_rel entry g s m \<longleftrightarrow> (\<forall>k. m k = entry s (rc_key g k))"

lemma rc_key_inject [simp]: "rc_key g k = rc_key g k' \<longleftrightarrow> k = k'"
  by (simp add: rc_key_def)

lemma rc_shown: "rc_rel entry g s m \<Longrightarrow> shown now m k = live_at entry now s (rc_key g k)"
  by (simp add: rc_rel_def shown_def live_at_def)

lemma collect_get:
  assumes "\<And>k r. (k, r) \<in> set ks \<Longrightarrow> map_option rdecode r = f k"
  shows "dict_get (collect_values ks d) k = (if k \<in> fst ` set ks \<and> f k \<noteq> None then f k else dict_get d k)"
  using assms
proof (induction ks arbitrary: d)
  case (Cons x ks)
  obtain k' r where x: "x = (k', r)" by (cases x)
  have f: "coerce_bytes r = f k'" using Cons.prems [of k' r] by (simp add: coerce_bytes_def x)
  show ?case
  proof (cases "f k'")
    case None
    then show ?thesis using Cons.IH [of d] Cons.prems f by (auto simp: x)
  next
    case (Some v)
    then show ?thesis using Cons.IH [of "dict_set d k' v"] Cons.prems f by (auto simp: x dict_get_set)
  qed
qed simp

lemma resolve_positive:
  "resolve_ttl_ms g ttl = (if ttl_of (rc_default_ttl_seconds g) ttl \<le> 0 then Inl (ValueError ''ttl_seconds must be positive'')
     else Inr (ceiling (ttl_of (rc_default_ttl_seconds g) ttl * 1000)))"
  "\<not> t \<le> 0 \<Longrightarrow> 0 < ceiling (t * 1000 :: seconds)"
proof -
  show pos: "\<not> t \<le> 0 \<Longrightarrow> 0 < ceiling (t * 1000)" for t :: seconds by simp
  have "max (ceiling (t * 1000)) 1 = ceiling (t * 1000)" if "\<not> t \<le> 0" for t :: seconds using pos [OF that] by simp
  then show "resolve_ttl_ms g ttl = (if ttl_of (rc_default_ttl_seconds g) ttl \<le> 0 then Inl (ValueError ''ttl_seconds must be positive'')
     else Inr (ceiling (ttl_of (rc_default_ttl_seconds g) ttl * 1000)))"
    by (simp add: resolve_ttl_ms_def Let_def ttl_of_def split: option.splits)
qed

context redis_cache
begin

lemma rc_rel_set:
  "rc_rel entry g s m \<Longrightarrow> 0 < px \<Longrightarrow> rc_rel entry g (kc_set api now (rc_key g k) v px s) (m(k \<mapsto> (v, now + px)))"
  by (simp add: rc_rel_def set_law)

lemma rc_rel_set_all:
  assumes "rc_rel entry g s m" "0 < px"
  shows "rc_rel entry g (fold (\<lambda>(key, v). kc_set api now (rc_key g key) v px) items s) (fold (\<lambda>(k, v) m. m(k \<mapsto> (v, now + px))) items m)"
  using assms
proof (induction items arbitrary: s m)
  case (Cons x items)
  obtain k v where x: "x = (k, v)" by (cases x)
  show ?case using Cons.IH [OF rc_rel_set [OF Cons.prems, of now k v] Cons.prems(2)] by (simp only: x fold_simps prod.case)
qed simp

lemma rc_rel_delete:
  assumes rel: "rc_rel entry g s m" and del: "kc_delete api now (map (rc_key g) ks) s = (n, s')"
  shows "n = int (card {k \<in> set ks. shown now m k \<noteq> None})" "rc_rel entry g s' (\<lambda>k. if k \<in> set ks then None else m k)"
proof -
  have "{k \<in> set (map (rc_key g) ks). live_at entry now s k \<noteq> None} = rc_key g ` {k \<in> set ks. shown now m k \<noteq> None}"
    using rc_shown [OF rel] by auto
  then show "n = int (card {k \<in> set ks. shown now m k \<noteq> None})" using delete_law [OF del] by (simp add: card_image inj_on_def)
  show "rc_rel entry g s' (\<lambda>k. if k \<in> set ks then None else m k)"
    using rel delete_law [OF del] by (auto simp: rc_rel_def image_iff)
qed

lemma rc_call_ok:
  assumes g: "rc_redis g = api" and rel: "rc_rel entry g s m"
  shows "case rc_call g now op s of (a, s') \<Rightarrow> case ttl_spec (rc_default_ttl_seconds g) now op a m of (ok, m') \<Rightarrow> ok \<and> rc_rel entry g s' m'"
proof (cases op)
  case (CGet k)
  then show ?thesis using rel by (simp add: answer_def rc_get_def g coerce_bytes_def get_law rc_shown)
next
  case (CExists k)
  then show ?thesis using rel by (simp add: answer_def rc_exists_def g exists_law rc_shown)
next
  case (CSet k v ttl)
  then show ?thesis using rel resolve_positive(2) by (auto simp: answer_def rc_set_def resolve_positive(1) g intro!: rc_rel_set)
next
  case (CSetMany items ttl)
  then show ?thesis using rel resolve_positive(2)
    by (auto simp: answer_def rc_set_many_def resolve_positive(1) g intro!: rc_rel_set_all)
next
  case (CDelete k)
  obtain n s' where del: "kc_delete api now [rc_key g k] s = (n, s')" by fastforce
  note d = rc_rel_delete [OF rel, of now "[k]", simplified, OF del]
  have "n \<noteq> 0 \<longleftrightarrow> shown now m k \<noteq> None" unfolding d(1) by (cases "shown now m k") (auto simp: card_eq_0_iff)
  moreover have "(\<lambda>k'. if k' = k then None else m k') = m(k := None)" by auto
  ultimately show ?thesis using d(2) by (simp add: CDelete answer_def rc_delete_def g del)
next
  case (CGetMany ks)
  let ?raws = "kc_mget api now (map (rc_key g) ks) s"
  have len: "length ?raws = length ks" using arg_cong [OF mget_law [of now "map (rc_key g) ks" s], of length] by simp
  have "map_option rdecode r = shown now m k" if kr: "(k, r) \<in> set (zip ks ?raws)" for k r
  proof -
    obtain i where i: "i < length ks" "k = ks ! i" "r = ?raws ! i" using kr len by (auto simp: set_zip)
    then show ?thesis using arg_cong [OF mget_law [of now "map (rc_key g) ks" s], of "\<lambda>xs. xs ! i"] len by (simp add: rc_shown [OF rel])
  qed
  from collect_get [OF this] have "dict_get (collect_values (zip ks ?raws) []) k = (if k \<in> set ks then shown now m k else None)" for k
    using len by (simp add: map_fst_zip flip: set_map)
  then show ?thesis using rel by (auto simp: CGetMany answer_def rc_get_many_def g)
next
  case (CDeleteMany ks)
  show ?thesis
  proof (cases "ks = []")
    case True
    then show ?thesis using rel by (simp add: CDeleteMany answer_def rc_delete_many_def)
  next
    case False
    obtain n s' where del: "kc_delete api now (map (rc_key g) ks) s = (n, s')" by fastforce
    then show ?thesis using rc_rel_delete [OF rel del] False by (simp add: CDeleteMany answer_def rc_delete_many_def g)
  qed
qed

lemma rc_run_ok:
  assumes g: "rc_redis g = api" and rel: "rc_rel entry g s m"
  shows "ttl_spec_run (rc_default_ttl_seconds g) ops (fst (rc_run g ops s)) m"
  using rel
proof (induction ops arbitrary: s m)
  case (Cons x ops)
  obtain now op where x: "x = (now, op)" by (cases x)
  obtain a s' where call: "rc_call g now op s = (a, s')" by fastforce
  obtain ok m' where spec: "ttl_spec (rc_default_ttl_seconds g) now op a m = (ok, m')" by fastforce
  have "ok" "rc_rel entry g s' m'" using rc_call_ok [OF g Cons.prems, where now = now and op = op] by (simp_all add: call spec)
  then show ?case using Cons.IH by (simp add: x call spec split_beta)
qed simp

end

text \<open>A server: the entries, as they were set.\<close>

definition list_cache :: "(string, string \<times> int) dict cache_api" where
  "list_cache = \<lparr>kc_get = (\<lambda>now k s. map_option RBytes (live_at dict_get now s k)), kc_mget = (\<lambda>now ks s. map (\<lambda>k. map_option RBytes (live_at dict_get now s k)) ks),
     kc_exists = (\<lambda>now k s. if live_at dict_get now s k = None then 0 else 1), kc_set = (\<lambda>now k v px s. dict_set s k (v, now + px)),
     kc_delete = (\<lambda>now ks s. (int (length (filter (\<lambda>k. live_at dict_get now s k \<noteq> None) (remdups ks))), filter (\<lambda>(k, _). k \<notin> set ks) s))\<rparr>"

interpretation cache_srv: redis_cache list_cache dict_get
proof unfold_locales
  fix now ks n and s s' :: "(string, string \<times> int) dict"
  assume d: "kc_delete list_cache now ks s = (n, s')"
  have "length (filter (\<lambda>k. live_at dict_get now s k \<noteq> None) (remdups ks)) = card {k \<in> set ks. live_at dict_get now s k \<noteq> None}"
    using distinct_card [of "filter (\<lambda>k. live_at dict_get now s k \<noteq> None) (remdups ks)"] by simp
  moreover have "dict_get (filter (\<lambda>(k, _). k \<notin> set ks) s) = (\<lambda>k. if k \<in> set ks then None else dict_get s k)"
    by (induction s) (auto simp: fun_eq_iff)
  ultimately show "n = int (card {k \<in> set ks. live_at dict_get now s k \<noteq> None}) \<and> dict_get s' = (\<lambda>k. if k \<in> set ks then None else dict_get s k)"
    using d by (simp add: list_cache_def)
qed (simp_all add: list_cache_def option.map_comp comp_def option.map_ident fun_eq_iff dict_get_set)

text \<open>
  C34. The Redis cache is exactly a map from keys to values with an expiry: on an empty Redis that keeps its documented promises, every
  sequence of calls, at any times, is answered as that map answers it. Reads show exactly the entries stored last and not
  expired; a delete says whether there was such an entry, and how many there were; a time to live that is not positive is refused
  without effect, unless there is nothing to store; and times to live are rounded up to whole milliseconds of the server's clock.
\<close>

theorem redis_cache_refines_ttl_map:
  assumes "redis_cache api entry" "RedisCacheGateway api prefix dttl = Inr g" "entry s = Map.empty"
  shows "ttl_spec_run dttl ops (fst (rc_run g ops s)) Map.empty"
proof -
  have g: "rc_redis g = api" "rc_default_ttl_seconds g = dttl" using assms(2) by (auto simp: RedisCacheGateway_def split: if_splits)
  have "rc_rel entry g s Map.empty" by (simp add: rc_rel_def assms(3))
  from redis_cache.rc_run_ok [OF assms(1) g(1) this] show ?thesis by (simp add: g(2))
qed

theorem redis_cache_refines_ttl_map_witness:
  "ttl_spec_run 5 [(0, CSet ''k'' ''v'' (Some (1 / 2000))), (1, CGet ''k''), (1, CDelete ''k'')] [AUnit, AValue None, ABool False] Map.empty"
proof -
  let ?g = "\<lparr>rc_redis = list_cache, rc_prefix = ''app'', rc_default_ttl_seconds = 5\<rparr>"
    and ?ops = "[(0, CSet ''k'' ''v'' (Some (1 / 2000))), (1, CGet ''k''), (1, CDelete ''k'')]"
  have g: "RedisCacheGateway list_cache ''app'' 5 = Inr ?g" by (simp add: RedisCacheGateway_def)
  have "fst (rc_run ?g ?ops []) = [AUnit, AValue None, ABool False]"
    by (simp add: answer_def rc_set_def rc_get_def rc_delete_def resolve_ttl_ms_def list_cache_def live_at_def coerce_bytes_def)
  with redis_cache_refines_ttl_map [OF cache_srv.redis_cache_axioms g, of "[]" ?ops] show ?thesis by (simp add: fun_eq_iff)
qed

section \<open>Objects on S3\<close>

text \<open>
  Commands answer an exception or a value. \<open>s3_probe\<close> is \<open>list_objects_v2\<close> with one key, as \<open>open\<close> calls it: the exception it raises, if any.
  \<open>s3_presign\<close> takes the operation, its parameters and the time.
\<close>

record 's s3_api =
  s3_probe :: "string \<Rightarrow> string \<Rightarrow> 's \<Rightarrow> aws_exc option"
  s3_put_object :: "string \<Rightarrow> string \<Rightarrow> string \<Rightarrow> string option \<Rightarrow> 's \<Rightarrow> (exn + unit) \<times> 's"
  s3_get_object :: "string \<Rightarrow> string \<Rightarrow> 's \<Rightarrow> exn + string"
  s3_head_object :: "string \<Rightarrow> string \<Rightarrow> 's \<Rightarrow> exn + unit"
  s3_delete_object :: "string \<Rightarrow> string \<Rightarrow> 's \<Rightarrow> (exn + unit) \<times> 's"
  s3_list_objects :: "string \<Rightarrow> string \<Rightarrow> int \<Rightarrow> 's \<Rightarrow> exn + string list"
  s3_presign :: "string \<Rightarrow> (string, string) dict \<Rightarrow> int \<Rightarrow> string"

record 's s3_gateway =
  so_client :: "'s s3_api"
  so_bucket :: string
  so_region_name :: string
  so_prefix :: string
  so_endpoint_url :: "string option"
  so_open :: bool



definition s3_key :: "'s s3_gateway \<Rightarrow> string \<Rightarrow> string" where
  "s3_key g key = (let normalized = strip_slashes key in if so_prefix g \<noteq> '''' then so_prefix g @ ''/'' @ normalized else normalized)"

definition s3_open :: "bool \<Rightarrow> 's s3_gateway \<Rightarrow> 's \<Rightarrow> (exn + unit) \<times> 's s3_gateway" where
  "s3_open botocore g s =
     (let g1 = g\<lparr>so_open := True\<rparr> in
      case s3_probe (so_client g) (so_bucket g) (so_prefix g @ ''/'') s of
        None \<Rightarrow> (Inr (), g1)
      | Some exc \<Rightarrow>
          if is_permission_denied botocore exc then (Inr (), g1)
          else (Inl (RuntimeError (''S3 bucket '' @ repr_str (so_bucket g) @ '' is not reachable (endpoint ''
                       @ (if dflt '''' (so_endpoint_url g) \<noteq> '''' then dflt '''' (so_endpoint_url g) else ''default'') @ ''): '' @ aws_exc_str exc)),
                g1\<lparr>so_open := False\<rparr>))"

definition s3_close :: "'s s3_gateway \<Rightarrow> 's s3_gateway" where
  "s3_close g = g\<lparr>so_open := False\<rparr>"

definition nonempty :: "string option \<Rightarrow> string option" where
  "nonempty t = (if t = Some '''' then None else t)"


definition taken_for_missing :: "exn \<Rightarrow> bool" where
  "taken_for_missing e \<longleftrightarrow> view_class (exn_view e) \<in> {''NoSuchKey'', ''ClientError''}"

definition s3_get :: "'s s3_gateway \<Rightarrow> string \<Rightarrow> 's \<Rightarrow> exn + string option" where
  "s3_get g key s = (case s3_get_object (so_client g) (so_bucket g) (s3_key g key) s of
      Inl e \<Rightarrow> if taken_for_missing e then Inr None else Inl e
    | Inr v \<Rightarrow> Inr (Some v))"



definition s3_list :: "'s s3_gateway \<Rightarrow> string \<Rightarrow> int \<Rightarrow> 's \<Rightarrow> exn + string list" where
  "s3_list g prefix limit s =
     (if limit \<le> 0 then Inl (ValueError ''limit must be positive'')
      else (let scoped = (if prefix \<noteq> '''' then s3_key g prefix else so_prefix g);
                prefix_len = (if so_prefix g \<noteq> '''' then length (so_prefix g) + 1 else 0) in
            map_sum id (map (drop prefix_len)) (s3_list_objects (so_client g) (so_bucket g) scoped limit s)))"

definition s3_presign_get :: "'s s3_gateway \<Rightarrow> string \<Rightarrow> int \<Rightarrow> string" where
  "s3_presign_get g key expires_seconds =
     s3_presign (so_client g) ''get_object'' [(''Bucket'', so_bucket g), (''Key'', s3_key g key)] expires_seconds"

definition s3_presign_put :: "'s s3_gateway \<Rightarrow> string \<Rightarrow> int \<Rightarrow> string option \<Rightarrow> string" where
  "s3_presign_put g key expires_seconds content_type =
     s3_presign (so_client g) ''put_object''
       ([(''Bucket'', so_bucket g), (''Key'', s3_key g key)] @ (case nonempty content_type of None \<Rightarrow> [] | Some ct \<Rightarrow> [(''ContentType'', ct)])) expires_seconds"




text \<open>A bucket as a dictionary.\<close>

definition missing_key :: exn where
  "missing_key = Foreign (plain_view ''NoSuchKey'' (''ClientError'' # exception_bases))"

definition dict_s3 :: "(string, string) dict s3_api" where
  "dict_s3 = \<lparr>s3_probe = (\<lambda>b p s. None), s3_put_object = (\<lambda>b k v ct s. (Inr (), dict_set s k v)),
     s3_get_object = (\<lambda>b k s. case dict_get s k of None \<Rightarrow> Inl missing_key | Some v \<Rightarrow> Inr v),
     s3_head_object = (\<lambda>b k s. case dict_get s k of None \<Rightarrow> Inl missing_key | Some v \<Rightarrow> Inr ()),
     s3_delete_object = (\<lambda>b k s. (Inr (), dict_pop s k)),
     s3_list_objects = (\<lambda>b p n s. Inr (take (nat (min n 1000)) (sort (remdups (filter (starts_with p) (dict_keys s)))))),
     s3_presign = (\<lambda>op ps n. op)\<rparr>"




text \<open>
  A listing of everything asks for keys that begin with the prefix, without its slash: it answers the objects of another prefix that begins
  the same way, under names that are not theirs.
\<close>

theorem list_shows_sibling_prefix:
  "s3_list \<lparr>so_client = dict_s3, so_bucket = ''b'', so_region_name = ''r'', so_prefix = ''app'', so_endpoint_url = None, so_open = True\<rparr> '''' 10 [(''app2/secret'', ''v'')]
   = Inr [''/secret'']"
  by code_simp

text \<open>Every \<open>ClientError\<close> of a read, a refused permission included, is answered as a missing object.\<close>

theorem refused_read_is_missing:
  assumes "s3_get_object (so_client g) (so_bucket g) (s3_key g k) s = Inl (Foreign v)" "view_class v = ''ClientError''"
  shows "s3_get g k s = Inr None"
  using assms by (simp add: s3_get_def taken_for_missing_def)

end
