(* ===== verification/SQL.thy ===== *)
theory SQL
  imports Errors
begin

text \<open>
  The statements the Postgres adapters issue, over a table given as the list of its rows.

  \<open>RETURNING\<close> yields the rows after the update. \<open>one()\<close>, \<open>one_or_none()\<close> and \<open>scalar()\<close> are the
  accessors of a SQLAlchemy result. \<open>transaction\<close> is \<open>session.begin()\<close>: an exception that leaves the
  block rolls the state back to what it was at the start. Statements of one transaction are taken
  together as one step, as row locks and the unique indexes make them for the rows they touch.
\<close>

type_synonym 'r table = "'r list"

definition sql_update :: "('r \<Rightarrow> bool) \<Rightarrow> ('r \<Rightarrow> 'r) \<Rightarrow> 'r table \<Rightarrow> 'r list \<times> 'r table" where
  "sql_update P f t = (map f (filter P t), map (\<lambda>r. if P r then f r else r) t)"

definition sql_delete :: "('r \<Rightarrow> bool) \<Rightarrow> 'r table \<Rightarrow> 'r table" where
  "sql_delete P t = filter (\<lambda>r. \<not> P r) t"

text \<open>\<open>INSERT ... ON CONFLICT DO NOTHING RETURNING\<close>; \<open>clash\<close> says which rows conflict.\<close>

definition sql_insert_nothing :: "('r \<Rightarrow> 'r \<Rightarrow> bool) \<Rightarrow> 'r \<Rightarrow> 'r table \<Rightarrow> 'r option \<times> 'r table" where
  "sql_insert_nothing clash row t =
     (if \<exists>r \<in> set t. clash row r then (None, t) else (Some row, t @ [row]))"

text \<open>\<open>INSERT ... ON CONFLICT DO UPDATE SET\<close>.\<close>

definition sql_upsert :: "('r \<Rightarrow> 'r \<Rightarrow> bool) \<Rightarrow> ('r \<Rightarrow> 'r) \<Rightarrow> 'r \<Rightarrow> 'r table \<Rightarrow> 'r table" where
  "sql_upsert clash f row t =
     (if \<exists>r \<in> set t. clash row r then map (\<lambda>r. if clash row r then f r else r) t else t @ [row])"

definition NoResultFound :: exn where
  "NoResultFound = Foreign (plain_view ''NoResultFound'' [''InvalidRequestError'', ''Exception''])"

definition MultipleResultsFound :: exn where
  "MultipleResultsFound =
     Foreign (plain_view ''MultipleResultsFound'' [''InvalidRequestError'', ''Exception''])"

definition IntegrityError :: exn where
  "IntegrityError = Foreign (plain_view ''IntegrityError'' [''DatabaseError'', ''Exception''])"

fun sql_one :: "'r list \<Rightarrow> exn + 'r" where
  "sql_one [] = Inl NoResultFound"
| "sql_one [r] = Inr r"
| "sql_one (_ # _ # _) = Inl MultipleResultsFound"

fun sql_one_or_none :: "'r list \<Rightarrow> exn + 'r option" where
  "sql_one_or_none [] = Inr None"
| "sql_one_or_none [r] = Inr (Some r)"
| "sql_one_or_none (_ # _ # _) = Inl MultipleResultsFound"

fun sql_scalar :: "'r list \<Rightarrow> 'r option" where
  "sql_scalar [] = None"
| "sql_scalar (r # _) = Some r"

definition transaction :: "('s \<Rightarrow> (exn + 'a) \<times> 's) \<Rightarrow> 's \<Rightarrow> (exn + 'a) \<times> 's" where
  "transaction f s = (case f s of (Inl e, _) \<Rightarrow> (Inl e, s) | (Inr x, s') \<Rightarrow> (Inr x, s'))"

text \<open>
  \<open>SELECT ... LIMIT n\<close> without \<open>ORDER BY\<close>: which of the matching rows it returns is the server's
  choice, so the choice is a parameter; \<open>limit_ok\<close> is what the \<open>SELECT\<close> documentation promises of it.
\<close>

type_synonym 'r limiter_fn = "nat \<Rightarrow> 'r list \<Rightarrow> 'r list"

definition limit_ok :: "'r limiter_fn \<Rightarrow> bool" where
  "limit_ok pick \<longleftrightarrow> (\<forall>n xs. set (pick n xs) \<subseteq> set xs \<and> length (pick n xs) = min n (length xs)
     \<and> (distinct xs \<longrightarrow> distinct (pick n xs)))"

lemma limit_ok_take: "limit_ok take"
  by (auto simp: limit_ok_def dest: in_set_takeD)

text \<open>\<open>LIKE\<close> with the default escape character; \<open>column.startswith(p)\<close> is \<open>column LIKE p || '%'\<close>, so a
  wildcard in \<open>p\<close> is one.\<close>

function sql_like :: "string \<Rightarrow> string \<Rightarrow> bool" where
  "sql_like [] s = (s = [])"
| "sql_like (c # p) s =
     (if c = CHR 0x25 then sql_like p s \<or> (case s of [] \<Rightarrow> False | _ # s' \<Rightarrow> sql_like (c # p) s')
      else if c = CHR 0x5F then (case s of [] \<Rightarrow> False | _ # s' \<Rightarrow> sql_like p s')
      else if c = CHR 0x5C
        then (case (p, s) of (d # p', x # s') \<Rightarrow> x = d \<and> sql_like p' s' | _ \<Rightarrow> False)
      else (case s of [] \<Rightarrow> False | x # s' \<Rightarrow> x = c \<and> sql_like p s'))"
  by pat_completeness auto
termination
  by (relation "measure (\<lambda>(p, s). length p + length s)") auto

definition sql_startswith :: "string \<Rightarrow> string \<Rightarrow> bool" where
  "sql_startswith p s = sql_like (p @ [CHR 0x25]) s"

section \<open>Lemmas\<close>

declare sql_like.simps [simp del]

lemma sql_like_percent [simp]: "sql_like [CHR 0x25] s"
proof (induction s)
  case Nil
  show ?case by (simp add: sql_like.simps(1) sql_like.simps(2) [of "CHR 0x25" "[]" "[]"])
next
  case (Cons x s)
  then show ?case by (simp add: sql_like.simps(2) [of "CHR 0x25" "[]" "x # s"])
qed

lemma sql_startswith_plain:
  "set p \<inter> {CHR 0x25, CHR 0x5F, CHR 0x5C} = {} \<Longrightarrow> sql_startswith p s \<longleftrightarrow> starts_with p s"
proof (induction p arbitrary: s)
  case (Cons c p)
  then have IH: "sql_startswith p t \<longleftrightarrow> starts_with p t" for t by auto
  have "sql_startswith (c # p) s \<longleftrightarrow> (case s of [] \<Rightarrow> False | x # t \<Rightarrow> x = c \<and> sql_startswith p t)"
    using Cons.prems by (auto simp: sql_startswith_def sql_like.simps(2) [of c] split: list.splits)
  with IH show ?case by (cases s) auto
qed (simp add: sql_startswith_def)

lemma filter_key_unique:
  "\<lbrakk>distinct (map f xs); x \<in> set xs\<rbrakk> \<Longrightarrow> filter (\<lambda>y. f y = f x) xs = [x]"
proof (induction xs)
  case (Cons a xs)
  then show ?case
  proof (cases "x = a")
    case True
    with Cons.prems have "filter (\<lambda>y. f y = f x) xs = []" by (auto simp: filter_empty_conv image_iff)
    with True show ?thesis by simp
  qed auto
qed simp

lemma distinct_key_inj: "\<lbrakk>distinct (map f xs); x \<in> set xs; y \<in> set xs; f x = f y\<rbrakk> \<Longrightarrow> x = y"
  unfolding distinct_map by (meson inj_onD)

lemma filter_key_none: "k \<notin> f ` set xs \<Longrightarrow> filter (\<lambda>y. f y = k) xs = []"
  by (auto simp: filter_empty_conv)

lemma sql_scalar_find: "sql_scalar (filter P t) = find P t"
  by (induction t) auto

lemma sql_scalar_map: "sql_scalar (map f xs) = map_option f (sql_scalar xs)"
  by (cases xs) auto

lemma find_map: "find P (map f xs) = map_option f (find (P \<circ> f) xs)"
  by (induction xs) auto

lemma map_update_key:
  "(\<And>r. P r \<Longrightarrow> k (f r) = k r) \<Longrightarrow> map k (map (\<lambda>r. if P r then f r else r) t) = map k t"
  by (induction t) auto

end
