(* ===== verification/Tasks.thy ===== *)
theory Tasks
  imports SQL
begin

text \<open>
  Asynchronous tasks: the record, its transitions and the contract of a task store
  (\<open>src/app/modules/messaging/tasks/store.py\<close>, the enum of \<open>models.py\<close> and the message of
  \<open>message.py\<close>).

  The locale \<open>task_store\<close> is the contract: a store is a partial map from ids to tasks (time stamps and
  free metadata set aside), and each operation moves that map as the specification transitions say.
  Which of several stale or expired tasks a bounded operation picks is left to the store. The locale
  is interpreted for the memory and the Postgres store in their theories; lease exclusion and the
  worker's guarantees are proved from the contract alone.
\<close>

section \<open>Records\<close>

datatype task_status = QUEUED | PROCESSING | COMPLETED | FAILED

record task =
  t_id :: string
  t_type :: string
  t_status :: task_status
  t_payload :: body
  t_expires_at :: datetime
  t_attempts :: int
  t_result :: "body option"
  t_error :: "string option"
  t_created_at :: "datetime option"
  t_updated_at :: "datetime option"
  t_locked_until :: "datetime option"
  t_metadata :: body
  t_principal_id :: string
  t_request_id :: "string option"

definition MAX_ATTEMPTS_EXCEEDED :: string where
  "MAX_ATTEMPTS_EXCEEDED = ''max_attempts_exceeded''"

record task_ref =
  ref_id :: string
  ref_type :: string
  ref_request_id :: "string option"

section \<open>The message between dispatcher and worker\<close>

record task_message =
  msg_task_id :: string
  msg_type :: string
  msg_request_id :: "string option"

text \<open>\<open>model_dump(exclude_none=True)\<close>.\<close>

definition to_body :: "task_message \<Rightarrow> body" where
  "to_body m = [(''task_id'', JStr (msg_task_id m)), (''type'', JStr (msg_type m))]
     @ (case msg_request_id m of None \<Rightarrow> [] | Some r \<Rightarrow> [(''request_id'', JStr r)])"

text \<open>
  Validation in strict mode: a required field is missing, not a string or too short; an optional one
  may be absent or null; an unknown field is one error each. \<open>error_count()\<close> is the sum.
\<close>

definition str_field_errors :: "body \<Rightarrow> string \<Rightarrow> bool \<Rightarrow> nat" where
  "str_field_errors b f required = (case dict_get b f of
      None \<Rightarrow> if required then 1 else 0
    | Some (JStr s) \<Rightarrow> if s = '''' then 1 else 0
    | Some JNull \<Rightarrow> if required then 1 else 0
    | Some _ \<Rightarrow> 1)"

definition message_errors :: "body \<Rightarrow> nat" where
  "message_errors b = str_field_errors b ''task_id'' True + str_field_errors b ''type'' True
     + str_field_errors b ''request_id'' False
     + length (filter (\<lambda>(k, _). k \<notin> {''task_id'', ''type'', ''request_id''}) b)"

definition str_field :: "body \<Rightarrow> string \<Rightarrow> string option" where
  "str_field b f = (case dict_get b f of Some (JStr s) \<Rightarrow> Some s | _ \<Rightarrow> None)"

definition from_body :: "body \<Rightarrow> exn + task_message" where
  "from_body b =
     (if message_errors b = 0
      then Inr \<lparr>msg_task_id = dflt '''' (str_field b ''task_id''), msg_type = dflt '''' (str_field b ''type''),
                msg_request_id = str_field b ''request_id''\<rparr>
      else Inl (NonRetryableMessageError
             (''malformed task message: '' @ nat_str (message_errors b) @ '' invalid field(s)'')))"

text \<open>The model's constructor checks the same constraints.\<close>

definition message_valid :: "task_message \<Rightarrow> bool" where
  "message_valid m \<longleftrightarrow> msg_task_id m \<noteq> '''' \<and> msg_type m \<noteq> '''' \<and> msg_request_id m \<noteq> Some ''''"

section \<open>Transitions\<close>

definition lease_expired :: "task \<Rightarrow> datetime \<Rightarrow> bool" where
  "lease_expired t now \<longleftrightarrow> t_status t = PROCESSING \<and> (case t_locked_until t of None \<Rightarrow> False | Some l \<Rightarrow> l \<le> now)"

definition claimable :: "task \<Rightarrow> datetime \<Rightarrow> bool" where
  "claimable t now \<longleftrightarrow> t_status t = QUEUED \<or> lease_expired t now"

text \<open>Time stamps and metadata carry no behaviour; \<open>core\<close> sets them aside.\<close>

definition core :: "task \<Rightarrow> task" where
  "core t = t\<lparr>t_created_at := None, t_updated_at := None, t_metadata := []\<rparr>"

definition claim :: "int \<Rightarrow> datetime \<Rightarrow> task \<Rightarrow> task" where
  "claim lease_seconds now t =
     t\<lparr>t_status := PROCESSING, t_attempts := t_attempts t + 1,
       t_locked_until := Some (now + timedelta lease_seconds)\<rparr>"

definition complete :: "body \<Rightarrow> task \<Rightarrow> task" where
  "complete res t = t\<lparr>t_status := COMPLETED, t_result := Some res, t_locked_until := None\<rparr>"

definition fail :: "string \<Rightarrow> task \<Rightarrow> task" where
  "fail err t = t\<lparr>t_status := FAILED, t_error := Some err, t_locked_until := None\<rparr>"

definition settle :: "int \<Rightarrow> task \<Rightarrow> task" where
  "settle max_attempts t =
     (if t_attempts t \<ge> max_attempts
      then t\<lparr>t_locked_until := None, t_status := FAILED, t_error := Some MAX_ATTEMPTS_EXCEEDED\<rparr>
      else t\<lparr>t_locked_until := None, t_status := QUEUED\<rparr>)"

section \<open>The contract\<close>

record 's task_api =
  tk_create :: "datetime \<Rightarrow> task \<Rightarrow> 's \<Rightarrow> (exn + unit) \<times> 's"
  tk_get :: "string \<Rightarrow> string option \<Rightarrow> 's \<Rightarrow> task option"
  tk_mark_processing :: "string \<Rightarrow> int \<Rightarrow> datetime \<Rightarrow> 's \<Rightarrow> (exn + bool) \<times> 's"
  tk_mark_completed :: "string \<Rightarrow> body \<Rightarrow> datetime \<Rightarrow> 's \<Rightarrow> (exn + unit) \<times> 's"
  tk_mark_failed :: "string \<Rightarrow> string \<Rightarrow> datetime \<Rightarrow> 's \<Rightarrow> (exn + unit) \<times> 's"
  tk_reclaim :: "datetime \<Rightarrow> int \<Rightarrow> int \<Rightarrow> 's \<Rightarrow> (exn + task_ref list) \<times> 's"
  tk_delete_expired :: "datetime \<Rightarrow> int \<Rightarrow> 's \<Rightarrow> (exn + nat) \<times> 's"

type_synonym task_map = "string \<Rightarrow> task option"

definition stale :: "task_map \<Rightarrow> datetime \<Rightarrow> string set" where
  "stale m now = {i. \<exists>t. m i = Some t \<and> lease_expired t now}"

definition expired :: "task_map \<Rightarrow> datetime \<Rightarrow> string set" where
  "expired m before = {i. \<exists>t. m i = Some t \<and> t_expires_at t \<le> before}"

definition map_on :: "string set \<Rightarrow> (task \<Rightarrow> task) \<Rightarrow> task_map \<Rightarrow> task_map" where
  "map_on S f m = (\<lambda>i. if i \<in> S then map_option f (m i) else m i)"

definition refs_ok :: "task_map \<Rightarrow> string set \<Rightarrow> int \<Rightarrow> task_ref list \<Rightarrow> bool" where
  "refs_ok m S max_attempts refs \<longleftrightarrow> distinct (map ref_id refs)
     \<and> ref_id ` set refs = {i \<in> S. \<exists>t. m i = Some t \<and> t_attempts t < max_attempts}
     \<and> (\<forall>r \<in> set refs. \<exists>t. m (ref_id r) = Some t \<and> ref_type r = t_type t \<and> ref_request_id r = t_request_id t)"

locale task_store =
  fixes api :: "'s task_api" and inv :: "'s \<Rightarrow> bool" and abs :: "'s \<Rightarrow> task_map"
  assumes create_law: "\<lbrakk>inv s; tk_create api now t s = (ru, s')\<rbrakk> \<Longrightarrow> inv s' \<and>
        (if abs s (t_id t) = None then ru = Inr () \<and> abs s' = (abs s)(t_id t \<mapsto> core t)
         else (\<exists>e. ru = Inl e) \<and> abs s' = abs s)"
    and get_law: "inv s \<Longrightarrow> map_option core (tk_get api i p s) =
        (case abs s i of Some t \<Rightarrow> if p = None \<or> p = Some (t_principal_id t) then Some t else None | None \<Rightarrow> None)"
    and mark_processing_law: "\<lbrakk>inv s; tk_mark_processing api i lease now s = (rb, s')\<rbrakk> \<Longrightarrow> inv s' \<and>
        (if lease \<le> 0 then rb = Inl (ValueError ''lease_seconds must be positive'') \<and> abs s' = abs s
         else case abs s i of
           None \<Rightarrow> rb = Inl (KeyError i) \<and> abs s' = abs s
         | Some t \<Rightarrow> rb = Inr (claimable t now)
             \<and> abs s' = (if claimable t now then (abs s)(i \<mapsto> claim lease now t) else abs s))"
    and mark_completed_law: "\<lbrakk>inv s; tk_mark_completed api i res now s = (ru, s')\<rbrakk> \<Longrightarrow> inv s' \<and>
        (case abs s i of None \<Rightarrow> ru = Inl (KeyError i) \<and> abs s' = abs s
         | Some t \<Rightarrow> ru = Inr () \<and> abs s' = (abs s)(i \<mapsto> complete res t))"
    and mark_failed_law: "\<lbrakk>inv s; tk_mark_failed api i err now s = (ru, s')\<rbrakk> \<Longrightarrow> inv s' \<and>
        (case abs s i of None \<Rightarrow> ru = Inl (KeyError i) \<and> abs s' = abs s
         | Some t \<Rightarrow> ru = Inr () \<and> abs s' = (abs s)(i \<mapsto> fail err t))"
    and reclaim_law: "\<lbrakk>inv s; tk_reclaim api now limit max_attempts s = (rr, s')\<rbrakk> \<Longrightarrow> inv s' \<and>
        (if limit \<le> 0 then rr = Inl (ValueError ''limit must be positive'') \<and> abs s' = abs s
         else \<exists>S refs. rr = Inr refs \<and> S \<subseteq> stale (abs s) now
             \<and> card S = min (nat limit) (card (stale (abs s) now))
             \<and> refs_ok (abs s) S max_attempts refs \<and> abs s' = map_on S (settle max_attempts) (abs s))"
    and delete_expired_law: "\<lbrakk>inv s; tk_delete_expired api before limit s = (rn, s')\<rbrakk> \<Longrightarrow> inv s' \<and>
        (if limit \<le> 0 then rn = Inl (ValueError ''limit must be positive'') \<and> abs s' = abs s
         else \<exists>S. rn = Inr (card S) \<and> S \<subseteq> expired (abs s) before
             \<and> card S = min (nat limit) (card (expired (abs s) before)) \<and> abs s' = (abs s) |` (- S))"
    and finite_tasks: "inv s \<Longrightarrow> finite (dom (abs s))"
    and key_id: "\<lbrakk>inv s; abs s i = Some t\<rbrakk> \<Longrightarrow> t_id t = i"

end
