(* ===== verification/Tasks_Memory.thy ===== *)
theory Tasks_Memory
  imports Tasks
begin

text \<open>
  The in-memory task store (\<open>src/app/modules/messaging/tasks/adapters/memory.py\<close>): a dictionary from
  ids to records, every writing operation under one lock. Records are values here; that a caller who
  keeps the object it got from \<open>get\<close> sees later changes of it is not modelled.
\<close>

type_synonym mem_tasks = "(string, task) dict"

definition InMemoryTaskStore :: mem_tasks where
  "InMemoryTaskStore = []"

definition mem_create :: "datetime \<Rightarrow> task \<Rightarrow> mem_tasks \<Rightarrow> (exn + unit) \<times> mem_tasks" where
  "mem_create now t s =
     (if dict_get s (t_id t) \<noteq> None then (Inl (ValueError (''task '' @ t_id t @ '' already exists'')), s)
      else (Inr (), dict_set s (t_id t)
              (t\<lparr>t_created_at := Some (dflt now (t_created_at t)), t_updated_at := Some now\<rparr>)))"

definition mem_get :: "string \<Rightarrow> string option \<Rightarrow> mem_tasks \<Rightarrow> task option" where
  "mem_get i principal_id s = (case dict_get s i of
      None \<Rightarrow> None
    | Some t \<Rightarrow> if principal_id \<noteq> None \<and> Some (t_principal_id t) \<noteq> principal_id then None else Some t)"

definition mem_mark_processing :: "string \<Rightarrow> int \<Rightarrow> datetime \<Rightarrow> mem_tasks \<Rightarrow> (exn + bool) \<times> mem_tasks" where
  "mem_mark_processing i lease_seconds now s =
     (if lease_seconds \<le> 0 then (Inl (ValueError ''lease_seconds must be positive''), s)
      else (case dict_get s i of
          None \<Rightarrow> (Inl (KeyError i), s)
        | Some t \<Rightarrow> if \<not> claimable t now then (Inr False, s)
            else (Inr True, dict_set s i
              (t\<lparr>t_status := PROCESSING, t_attempts := t_attempts t + 1,
                 t_locked_until := Some (now + timedelta lease_seconds), t_updated_at := Some now\<rparr>))))"

text \<open>\<open>locked_until\<close> is \<open>None\<close> where the keyword was not given (\<open>_UNSET\<close>).\<close>

definition update_status ::
  "string \<Rightarrow> task_status \<Rightarrow> body option \<Rightarrow> string option \<Rightarrow> datetime option option \<Rightarrow> datetime \<Rightarrow> mem_tasks \<Rightarrow>
   (exn + unit) \<times> mem_tasks" where
  "update_status i st res err locked_until now s = (case dict_get s i of
      None \<Rightarrow> (Inl (KeyError i), s)
    | Some t \<Rightarrow>
        (let t1 = t\<lparr>t_status := st, t_updated_at := Some now\<rparr>;
             t2 = (if res \<noteq> None then t1\<lparr>t_result := res\<rparr> else t1);
             t3 = (if err \<noteq> None then t2\<lparr>t_error := err\<rparr> else t2);
             t4 = (case locked_until of None \<Rightarrow> t3 | Some l \<Rightarrow> t3\<lparr>t_locked_until := l\<rparr>) in
         (Inr (), dict_set s i t4)))"

definition mem_mark_completed :: "string \<Rightarrow> body \<Rightarrow> datetime \<Rightarrow> mem_tasks \<Rightarrow> (exn + unit) \<times> mem_tasks" where
  "mem_mark_completed i res now s = update_status i COMPLETED (Some res) None (Some None) now s"

definition mem_mark_failed :: "string \<Rightarrow> string \<Rightarrow> datetime \<Rightarrow> mem_tasks \<Rightarrow> (exn + unit) \<times> mem_tasks" where
  "mem_mark_failed i err now s = update_status i FAILED None (Some err) (Some None) now s"

text \<open>The loop over the dictionary's values; \<open>settled\<close> counts the tasks it has handled.\<close>

fun reclaim_loop :: "datetime \<Rightarrow> int \<Rightarrow> int \<Rightarrow> int \<Rightarrow> mem_tasks \<Rightarrow> task_ref list \<times> mem_tasks" where
  "reclaim_loop now limit max_attempts settled [] = ([], [])"
| "reclaim_loop now limit max_attempts settled ((k, t) # rest) =
     (if settled \<ge> limit then ([], (k, t) # rest)
      else if \<not> lease_expired t now
      then (let (refs, rest') = reclaim_loop now limit max_attempts settled rest in (refs, (k, t) # rest'))
      else (let (refs, rest') = reclaim_loop now limit max_attempts (settled + 1) rest;
                t1 = t\<lparr>t_locked_until := None, t_updated_at := Some now\<rparr> in
            if t_attempts t \<ge> max_attempts
            then (refs, (k, t1\<lparr>t_status := FAILED, t_error := Some MAX_ATTEMPTS_EXCEEDED\<rparr>) # rest')
            else (\<lparr>ref_id = t_id t, ref_type = t_type t, ref_request_id = t_request_id t\<rparr> # refs,
                  (k, t1\<lparr>t_status := QUEUED\<rparr>) # rest')))"

definition mem_reclaim :: "datetime \<Rightarrow> int \<Rightarrow> int \<Rightarrow> mem_tasks \<Rightarrow> (exn + task_ref list) \<times> mem_tasks" where
  "mem_reclaim now limit max_attempts s =
     (if limit \<le> 0 then (Inl (ValueError ''limit must be positive''), s)
      else (let (refs, s') = reclaim_loop now limit max_attempts 0 s in (Inr refs, s')))"

definition mem_delete_expired :: "datetime \<Rightarrow> int \<Rightarrow> mem_tasks \<Rightarrow> (exn + nat) \<times> mem_tasks" where
  "mem_delete_expired before limit s =
     (if limit \<le> 0 then (Inl (ValueError ''limit must be positive''), s)
      else (let stale_ids = take (nat limit) (map fst (filter (\<lambda>(_, t). t_expires_at t \<le> before) s)) in
            (Inr (length stale_ids), fold (\<lambda>i d. dict_pop d i) stale_ids s)))"

definition mem_tasks_api :: "mem_tasks task_api" where
  "mem_tasks_api = \<lparr>tk_create = mem_create, tk_get = mem_get, tk_mark_processing = mem_mark_processing,
     tk_mark_completed = mem_mark_completed, tk_mark_failed = mem_mark_failed, tk_reclaim = mem_reclaim,
     tk_delete_expired = mem_delete_expired\<rparr>"

section \<open>The memory store fulfils the contract\<close>

definition mem_tasks_inv :: "mem_tasks \<Rightarrow> bool" where
  "mem_tasks_inv s \<longleftrightarrow> dict_wf s \<and> (\<forall>(k, t) \<in> set s. t_id t = k)"

definition mem_tasks_abs :: "mem_tasks \<Rightarrow> task_map" where
  "mem_tasks_abs s = (\<lambda>i. map_option core (dict_get s i))"

lemma core_sel [simp]:
  "t_id (core t) = t_id t" "t_type (core t) = t_type t" "t_status (core t) = t_status t"
  "t_expires_at (core t) = t_expires_at t" "t_attempts (core t) = t_attempts t"
  "t_locked_until (core t) = t_locked_until t" "t_principal_id (core t) = t_principal_id t"
  "t_request_id (core t) = t_request_id t"
  by (simp_all add: core_def)

lemma core_pred [simp]: "lease_expired (core t) now = lease_expired t now" "claimable (core t) now = claimable t now"
  by (simp_all add: lease_expired_def claimable_def)

lemma mem_tasks_id: "\<lbrakk>mem_tasks_inv s; dict_get s i = Some t\<rbrakk> \<Longrightarrow> t_id t = i"
  by (auto simp: mem_tasks_inv_def dest: map_of_SomeD)

lemma mem_tasks_set:
  assumes "mem_tasks_inv s" "t_id t = i"
  shows "mem_tasks_inv (dict_set s i t)"
    and "mem_tasks_abs (dict_set s i t) = (mem_tasks_abs s)(i \<mapsto> core t)"
proof -
  have wf: "dict_wf (dict_set s i t)" using assms by (simp add: mem_tasks_inv_def)
  have "t_id u = k" if "(k, u) \<in> set (dict_set s i t)" for k u
    using that assms mem_tasks_id [OF assms(1)] dict_get_in_set [OF wf, of k u] by (auto split: if_splits)
  with wf show "mem_tasks_inv (dict_set s i t)" by (auto simp: mem_tasks_inv_def)
  show "mem_tasks_abs (dict_set s i t) = (mem_tasks_abs s)(i \<mapsto> core t)"
    by (auto simp: mem_tasks_abs_def fun_eq_iff)
qed

lemma mem_create_law:
  "\<lbrakk>mem_tasks_inv s; mem_create now t s = (r, s')\<rbrakk> \<Longrightarrow> mem_tasks_inv s' \<and>
     (if mem_tasks_abs s (t_id t) = None then r = Inr () \<and> mem_tasks_abs s' = (mem_tasks_abs s)(t_id t \<mapsto> core t)
      else (\<exists>e. r = Inl e) \<and> mem_tasks_abs s' = mem_tasks_abs s)"
  using mem_tasks_set [of s "t\<lparr>t_created_at := Some (dflt now (t_created_at t)), t_updated_at := Some now\<rparr>" "t_id t"]
  by (auto simp: mem_create_def mem_tasks_abs_def core_def split: if_splits)

lemma mem_get_law:
  "map_option core (mem_get i p s) = (case mem_tasks_abs s i of
      Some t \<Rightarrow> if p = None \<or> p = Some (t_principal_id t) then Some t else None | None \<Rightarrow> None)"
  by (auto simp: mem_get_def mem_tasks_abs_def split: option.splits)

lemma mem_mark_processing_law:
  assumes inv: "mem_tasks_inv s" and op: "mem_mark_processing i lease now s = (r, s')"
  shows "mem_tasks_inv s' \<and>
     (if lease \<le> 0 then r = Inl (ValueError ''lease_seconds must be positive'') \<and> mem_tasks_abs s' = mem_tasks_abs s
      else case mem_tasks_abs s i of
        None \<Rightarrow> r = Inl (KeyError i) \<and> mem_tasks_abs s' = mem_tasks_abs s
      | Some t \<Rightarrow> r = Inr (claimable t now)
          \<and> mem_tasks_abs s' = (if claimable t now then (mem_tasks_abs s)(i \<mapsto> claim lease now t) else mem_tasks_abs s))"
proof (cases "dict_get s i")
  case None
  with inv op show ?thesis by (auto simp: mem_mark_processing_def mem_tasks_abs_def split: if_splits)
next
  case (Some t)
  let ?t = "t\<lparr>t_status := PROCESSING, t_attempts := t_attempts t + 1,
     t_locked_until := Some (now + timedelta lease), t_updated_at := Some now\<rparr>"
  have "core ?t = claim lease now (core t)" by (simp add: core_def claim_def)
  moreover have "t_id ?t = i" using mem_tasks_id [OF inv Some] by simp
  moreover have "mem_tasks_abs s i = Some (core t)" by (simp add: mem_tasks_abs_def Some)
  ultimately show ?thesis
    using inv op Some mem_tasks_set [OF inv, of ?t i] by (auto simp: mem_mark_processing_def split: if_splits)
qed

lemma update_status_law:
  assumes inv: "mem_tasks_inv s" and op: "update_status i st res err (Some None) now s = (r, s')"
    and f: "\<And>t. core (f t) = f (core t)"
    and upd: "\<And>t. f t = t\<lparr>t_status := st, t_result := (if res = None then t_result t else res),
                t_error := (if err = None then t_error t else err), t_locked_until := None\<rparr>"
  shows "mem_tasks_inv s' \<and> (case mem_tasks_abs s i of
      None \<Rightarrow> r = Inl (KeyError i) \<and> mem_tasks_abs s' = mem_tasks_abs s
    | Some t \<Rightarrow> r = Inr () \<and> mem_tasks_abs s' = (mem_tasks_abs s)(i \<mapsto> f t))"
proof (cases "dict_get s i")
  case None
  with inv op show ?thesis by (auto simp: update_status_def mem_tasks_abs_def)
next
  case (Some t)
  let ?t = "(f t)\<lparr>t_updated_at := Some now\<rparr>"
  have "core ?t = f (core t)" using f [of t] by (simp add: core_def)
  moreover have "t_id ?t = i" using mem_tasks_id [OF inv Some] by (simp add: upd)
  moreover have "(r, s') = (Inr (), dict_set s i ?t)"
    using op Some by (cases t) (auto simp: update_status_def Let_def upd split: if_splits)
  ultimately show ?thesis
    using mem_tasks_set [OF inv, of ?t i] by (simp add: mem_tasks_abs_def Some)
qed

lemma mem_mark_completed_law:
  "\<lbrakk>mem_tasks_inv s; mem_mark_completed i res now s = (r, s')\<rbrakk> \<Longrightarrow> mem_tasks_inv s' \<and>
     (case mem_tasks_abs s i of None \<Rightarrow> r = Inl (KeyError i) \<and> mem_tasks_abs s' = mem_tasks_abs s
      | Some t \<Rightarrow> r = Inr () \<and> mem_tasks_abs s' = (mem_tasks_abs s)(i \<mapsto> complete res t))"
  unfolding mem_mark_completed_def by (rule update_status_law) (auto simp: core_def complete_def)

lemma mem_mark_failed_law:
  "\<lbrakk>mem_tasks_inv s; mem_mark_failed i err now s = (r, s')\<rbrakk> \<Longrightarrow> mem_tasks_inv s' \<and>
     (case mem_tasks_abs s i of None \<Rightarrow> r = Inl (KeyError i) \<and> mem_tasks_abs s' = mem_tasks_abs s
      | Some t \<Rightarrow> r = Inr () \<and> mem_tasks_abs s' = (mem_tasks_abs s)(i \<mapsto> fail err t))"
  unfolding mem_mark_failed_def by (rule update_status_law) (auto simp: core_def fail_def)

definition mk_ref :: "task \<Rightarrow> task_ref" where
  "mk_ref t = \<lparr>ref_id = t_id t, ref_type = t_type t, ref_request_id = t_request_id t\<rparr>"

definition stale_items :: "datetime \<Rightarrow> mem_tasks \<Rightarrow> mem_tasks" where
  "stale_items now s = filter (\<lambda>(_, t). lease_expired t now) s"

definition settle_at :: "datetime \<Rightarrow> int \<Rightarrow> task \<Rightarrow> task" where
  "settle_at now m t = (settle m t)\<lparr>t_updated_at := Some now\<rparr>"

text \<open>The loop settles the first \<open>limit - settled\<close> stale entries.\<close>

lemma reclaim_loop_eq:
  "dict_wf s \<Longrightarrow> reclaim_loop now limit m settled s =
     (let P = take (nat (limit - settled)) (stale_items now s) in
      (map (mk_ref \<circ> snd) (filter (\<lambda>(_, t). t_attempts t < m) P),
       map (\<lambda>(k, t). (k, if k \<in> fst ` set P then settle_at now m t else t)) s))"
proof (induction s arbitrary: settled)
  case (Cons p s)
  obtain k t where p: "p = (k, t)" by (cases p)
  let ?P = "\<lambda>n. take n (stale_items now s)"
  have fresh: "k \<notin> fst ` set s" and wf: "dict_wf s" using Cons.prems by (auto simp: p)
  have sub: "fst ` set (?P n) \<subseteq> fst ` set s" for n
    by (auto simp: stale_items_def dest!: in_set_takeD)
  have skip: "map (\<lambda>(k', x). (k', if k' \<in> insert k A then settle_at now m x else x)) s =
      map (\<lambda>(k', x). (k', if k' \<in> A then settle_at now m x else x)) s" for A
    using fresh by (intro map_cong) (auto simp: rev_image_eqI)
  show ?case
  proof (cases "settled \<ge> limit")
    case True
    have "map (\<lambda>(k', x). (k', x)) s = s" by (induction s) auto
    with True show ?thesis by (simp add: p)
  next
    case False
    show ?thesis
    proof (cases "lease_expired t now")
      case no: False
      have k: "k \<notin> fst ` set (?P n)" for n using sub fresh by blast
      show ?thesis
        using False no k Cons.IH [OF wf, of settled] by (simp add: p stale_items_def Let_def)
    next
      case True
      have n: "nat (limit - settled) = Suc (nat (limit - (settled + 1)))" using False by linarith
      have P: "take (nat (limit - settled)) (stale_items now (p # s)) = (k, t) # ?P (nat (limit - (settled + 1)))"
        using True by (simp add: p n stale_items_def)
      have upd: "settle_at now m t = (if t_attempts t \<ge> m
          then t\<lparr>t_locked_until := None, t_updated_at := Some now, t_status := FAILED, t_error := Some MAX_ATTEMPTS_EXCEEDED\<rparr>
          else t\<lparr>t_locked_until := None, t_updated_at := Some now, t_status := QUEUED\<rparr>)"
        by (cases t) (simp add: settle_at_def settle_def)
      show ?thesis
        unfolding P Let_def
        using False True Cons.IH [OF wf, of "settled + 1"] skip [of "fst ` set (?P (nat (limit - (settled + 1))))"]
        by (simp add: p upd Let_def mk_ref_def)
    qed
  qed
qed (simp add: stale_items_def)

lemma core_settle_at [simp]: "core (settle_at now m t) = settle m (core t)"
  by (cases t) (simp add: core_def settle_at_def settle_def)

lemma map_of_map_on:
  "map_of (map (\<lambda>(k, t). (k, if k \<in> A then f t else t)) s) i =
     (if i \<in> A then map_option f (map_of s i) else map_of s i)"
  by (induction s) auto

lemma stale_abs:
  assumes "mem_tasks_inv s"
  shows "stale (mem_tasks_abs s) now = fst ` set (stale_items now s)" and "distinct (map fst (stale_items now s))"
  using dict_keys_where [of s "\<lambda>t. lease_expired t now"] assms
  by (auto simp: stale_def mem_tasks_abs_def mem_tasks_inv_def stale_items_def)

lemma mem_reclaim_law:
  assumes inv: "mem_tasks_inv s" and op: "mem_reclaim now limit m s = (r, s')"
  shows "mem_tasks_inv s' \<and>
     (if limit \<le> 0 then r = Inl (ValueError ''limit must be positive'') \<and> mem_tasks_abs s' = mem_tasks_abs s
      else \<exists>S refs. r = Inr refs \<and> S \<subseteq> stale (mem_tasks_abs s) now
          \<and> card S = min (nat limit) (card (stale (mem_tasks_abs s) now))
          \<and> refs_ok (mem_tasks_abs s) S m refs \<and> mem_tasks_abs s' = map_on S (settle m) (mem_tasks_abs s))"
proof (cases "limit \<le> 0")
  case True
  with inv op show ?thesis by (simp add: mem_reclaim_def)
next
  case False
  have wf: "dict_wf s" using inv by (simp add: mem_tasks_inv_def)
  let ?P = "take (nat limit) (stale_items now s)"
  let ?S = "fst ` set ?P" and ?refs = "map (mk_ref \<circ> snd) (filter (\<lambda>(_, t). t_attempts t < m) ?P)"
  note st = stale_abs [OF inv, of now]
  have res: "r = Inr ?refs" "s' = map (\<lambda>(k, t). (k, if k \<in> ?S then settle_at now m t else t)) s"
    using op False reclaim_loop_eq [OF wf, of now limit m 0] by (auto simp: mem_reclaim_def Let_def)
  have dS: "distinct (map fst ?P)" using st(2) by (simp add: take_map [symmetric])
  have PS: "dict_get s k = Some t" "t_id t = k" if "(k, t) \<in> set ?P" for k t
    using that inv dict_get_in_set [OF wf, of k t]
    by (auto simp: stale_items_def mem_tasks_inv_def dest!: in_set_takeD)
  have "card ?S = min (nat limit) (card (fst ` set (stale_items now s)))"
    using card_take_distinct [OF st(2), of "nat limit"] by (simp add: take_map)
  moreover have "?S \<subseteq> fst ` set (stale_items now s)" by (auto dest: in_set_takeD)
  moreover have "refs_ok (mem_tasks_abs s) ?S m ?refs"
  proof -
    have ids: "map ref_id ?refs = map fst (filter (\<lambda>(_, t). t_attempts t < m) ?P)"
      using PS(2) by (auto simp: mk_ref_def intro!: map_cong)
    have "ref_id ` set ?refs = {i \<in> ?S. \<exists>t. mem_tasks_abs s i = Some t \<and> t_attempts t < m}"
    proof -
      have "ref_id ` set ?refs = fst ` set (filter (\<lambda>(_, t). t_attempts t < m) ?P)"
        using ids by (metis list.set_map)
      also have "\<dots> = {i \<in> ?S. \<exists>t. mem_tasks_abs s i = Some t \<and> t_attempts t < m}"
        using PS(1) by (force simp: mem_tasks_abs_def)
      finally show ?thesis .
    qed
    moreover have "distinct (map ref_id ?refs)" unfolding ids using dS by (rule distinct_map_filter)
    moreover have "\<exists>t. mem_tasks_abs s (ref_id x) = Some t \<and> ref_type x = t_type t \<and> ref_request_id x = t_request_id t"
      if "x \<in> set ?refs" for x
      using that PS by (auto simp: mk_ref_def mem_tasks_abs_def)
    ultimately show ?thesis by (simp only: refs_ok_def) blast
  qed
  moreover have "mem_tasks_abs s' = map_on ?S (settle m) (mem_tasks_abs s)"
    unfolding mem_tasks_abs_def res(2) map_of_map_on map_on_def
    by (rule ext) (simp add: option.map_comp o_def)
  moreover have "mem_tasks_inv s'"
  proof -
    have "map fst s' = map fst s" unfolding res(2) by (simp add: case_prod_beta')
    moreover have "t_id (settle_at now m t) = t_id t" for t by (simp add: settle_at_def settle_def)
    then have "\<forall>(k, t) \<in> set s'. t_id t = k" using inv unfolding mem_tasks_inv_def res(2) by auto
    ultimately show ?thesis using inv by (simp add: mem_tasks_inv_def)
  qed
  ultimately show ?thesis using False res(1) unfolding st(1) by auto
qed

lemma mem_delete_expired_law:
  assumes inv: "mem_tasks_inv s" and op: "mem_delete_expired before limit s = (r, s')"
  shows "mem_tasks_inv s' \<and>
     (if limit \<le> 0 then r = Inl (ValueError ''limit must be positive'') \<and> mem_tasks_abs s' = mem_tasks_abs s
      else \<exists>S. r = Inr (card S) \<and> S \<subseteq> expired (mem_tasks_abs s) before
          \<and> card S = min (nat limit) (card (expired (mem_tasks_abs s) before))
          \<and> mem_tasks_abs s' = (mem_tasks_abs s) |` (- S))"
proof (cases "limit \<le> 0")
  case True
  with inv op show ?thesis by (simp add: mem_delete_expired_def)
next
  case False
  have wf: "dict_wf s" using inv by (simp add: mem_tasks_inv_def)
  let ?E = "map fst (filter (\<lambda>(_, t). t_expires_at t \<le> before) s)"
  let ?S = "set (take (nat limit) ?E)"
  have "expired (mem_tasks_abs s) before = {k. \<exists>v. dict_get s k = Some v \<and> t_expires_at v \<le> before}"
    by (auto simp: expired_def mem_tasks_abs_def)
  then have ex: "expired (mem_tasks_abs s) before = set ?E" "distinct ?E"
    using dict_keys_where [OF wf, of "\<lambda>t. t_expires_at t \<le> before"] by simp_all
  have res: "r = Inr (length (take (nat limit) ?E))" "s' = filter (\<lambda>(k, _). k \<notin> ?S) s"
    using op False by (simp_all add: mem_delete_expired_def Let_def fold_dict_pop)
  have card: "card ?S = length (take (nat limit) ?E)" using ex(2) by (simp only: distinct_card distinct_take)
  have cards: "card ?S = min (nat limit) (card (set ?E))" using ex(2) by (rule card_take_distinct)
  have sub: "?S \<subseteq> set ?E" by (rule set_take_subset)
  have "mem_tasks_abs s' = (mem_tasks_abs s) |` (- ?S)"
    unfolding mem_tasks_abs_def res(2) dict_get_filter [OF wf] restrict_map_def
    by (rule ext) (simp split: option.split)
  moreover have "mem_tasks_inv s'" using inv by (auto simp: res(2) mem_tasks_inv_def distinct_map_filter)
  ultimately show ?thesis using False res(1) card cards sub unfolding ex(1) by metis
qed

lemma mem_finite: "finite (dom (mem_tasks_abs s))"
proof -
  have "dom (mem_tasks_abs s) = dom (map_of s)" by (auto simp: mem_tasks_abs_def dom_def)
  then show ?thesis by (simp add: finite_dom_map_of)
qed

lemma mem_tasks_api_sel:
  "tk_create mem_tasks_api = mem_create" "tk_get mem_tasks_api = mem_get"
  "tk_mark_processing mem_tasks_api = mem_mark_processing" "tk_mark_completed mem_tasks_api = mem_mark_completed"
  "tk_mark_failed mem_tasks_api = mem_mark_failed" "tk_reclaim mem_tasks_api = mem_reclaim"
  "tk_delete_expired mem_tasks_api = mem_delete_expired"
  by (simp_all add: mem_tasks_api_def)

interpretation mem_task: task_store mem_tasks_api mem_tasks_inv mem_tasks_abs
proof (unfold_locales, unfold mem_tasks_api_sel, goal_cases)
  case (2 s i p) show ?case by (rule mem_get_law)
next
  case (8 s) show ?case by (rule mem_finite)
next
  case (9 s i t) then show ?case by (auto simp: mem_tasks_abs_def dest: mem_tasks_id)
qed (rule mem_create_law mem_mark_processing_law mem_mark_completed_law mem_mark_failed_law
    mem_reclaim_law mem_delete_expired_law; assumption)+

lemma InMemoryTaskStore_inv: "mem_tasks_inv InMemoryTaskStore"
  by (simp add: InMemoryTaskStore_def mem_tasks_inv_def)

end
