(* ===== verification/Tasks_Postgres.thy ===== *)
theory Tasks_Postgres
  imports Tasks_Memory
begin

text \<open>
  The Postgres task store (\<open>src/app/modules/messaging/tasks/adapters/postgres.py\<close>, table \<open>tasks\<close> of
  \<open>tasks/models.py\<close>): guarded \<open>UPDATE\<close> statements over the rows. \<open>ORDER BY locked_until LIMIT n\<close> is a
  stable sort; with \<open>SKIP LOCKED\<close>, rows that another transaction holds are not considered, so a
  statement alone in its transaction sees them all.
\<close>

record task_row =
  tr_id :: string
  tr_type :: string
  tr_status :: task_status
  tr_principal_id :: string
  tr_request_id :: "string option"
  tr_payload :: body
  tr_result :: "body option"
  tr_error :: "string option"
  tr_attempts :: int
  tr_locked_until :: "datetime option"
  tr_expires_at :: datetime
  tr_created_at :: datetime
  tr_updated_at :: datetime

type_synonym pg_tasks = "task_row table"

text \<open>The time stamps are column defaults, taken when the row is written.\<close>

definition new_task_row :: "datetime \<Rightarrow> task \<Rightarrow> task_row" where
  "new_task_row now t =
     \<lparr>tr_id = t_id t, tr_type = t_type t, tr_status = t_status t, tr_principal_id = t_principal_id t,
      tr_request_id = t_request_id t, tr_payload = t_payload t, tr_result = t_result t,
      tr_error = t_error t, tr_attempts = t_attempts t, tr_locked_until = t_locked_until t,
      tr_expires_at = t_expires_at t, tr_created_at = now, tr_updated_at = now\<rparr>"

definition to_record :: "task_row \<Rightarrow> task" where
  "to_record r =
     \<lparr>t_id = tr_id r, t_type = tr_type r, t_status = tr_status r, t_payload = tr_payload r,
      t_expires_at = tr_expires_at r, t_attempts = tr_attempts r, t_result = tr_result r,
      t_error = tr_error r, t_created_at = Some (tr_created_at r), t_updated_at = Some (tr_updated_at r),
      t_locked_until = tr_locked_until r, t_metadata = [], t_principal_id = tr_principal_id r,
      t_request_id = tr_request_id r\<rparr>"

definition pgt_create :: "datetime \<Rightarrow> task \<Rightarrow> pg_tasks \<Rightarrow> (exn + unit) \<times> pg_tasks" where
  "pgt_create now t s =
     (if \<exists>r \<in> set s. tr_id r = t_id t then (Inl IntegrityError, s) else (Inr (), s @ [new_task_row now t]))"

definition pgt_get :: "string \<Rightarrow> string option \<Rightarrow> pg_tasks \<Rightarrow> task option" where
  "pgt_get i principal_id s =
     map_option to_record (sql_scalar (filter
       (\<lambda>r. tr_id r = i \<and> (case principal_id of None \<Rightarrow> True | Some p \<Rightarrow> tr_principal_id r = p)) s))"

text \<open>\<open>locked_until <= now\<close> is not true of a null column.\<close>

definition row_lease_expired :: "task_row \<Rightarrow> datetime \<Rightarrow> bool" where
  "row_lease_expired r now \<longleftrightarrow>
     tr_status r = PROCESSING \<and> (case tr_locked_until r of None \<Rightarrow> False | Some l \<Rightarrow> l \<le> now)"

definition pgt_mark_processing :: "string \<Rightarrow> int \<Rightarrow> datetime \<Rightarrow> pg_tasks \<Rightarrow> (exn + bool) \<times> pg_tasks" where
  "pgt_mark_processing i lease_seconds now s =
     (if lease_seconds \<le> 0 then (Inl (ValueError ''lease_seconds must be positive''), s)
      else (let (rows, s') = sql_update
                  (\<lambda>r. tr_id r = i \<and> (tr_status r = QUEUED \<or> row_lease_expired r now))
                  (\<lambda>r. r\<lparr>tr_status := PROCESSING, tr_locked_until := Some (now + timedelta lease_seconds),
                         tr_attempts := tr_attempts r + 1, tr_updated_at := now\<rparr>) s in
            if rows \<noteq> [] then (Inr True, s')
            else if filter (\<lambda>r. tr_id r = i) s' = [] then (Inl (KeyError i), s)
            else (Inr False, s')))"

definition pgt_update ::
  "string \<Rightarrow> task_status \<Rightarrow> body option \<Rightarrow> string option \<Rightarrow> datetime option \<Rightarrow> datetime \<Rightarrow> pg_tasks \<Rightarrow>
   (exn + unit) \<times> pg_tasks" where
  "pgt_update i st res err locked_until now s =
     (let (rows, s') = sql_update (\<lambda>r. tr_id r = i)
            (\<lambda>r. r\<lparr>tr_status := st, tr_locked_until := locked_until,
                   tr_result := (if res \<noteq> None then res else tr_result r),
                   tr_error := (if err \<noteq> None then err else tr_error r), tr_updated_at := now\<rparr>) s in
      if rows = [] then (Inl (KeyError i), s) else (Inr (), s'))"

definition pgt_mark_completed :: "string \<Rightarrow> body \<Rightarrow> datetime \<Rightarrow> pg_tasks \<Rightarrow> (exn + unit) \<times> pg_tasks" where
  "pgt_mark_completed i res now s = pgt_update i COMPLETED (Some res) None None now s"

definition pgt_mark_failed :: "string \<Rightarrow> string \<Rightarrow> datetime \<Rightarrow> pg_tasks \<Rightarrow> (exn + unit) \<times> pg_tasks" where
  "pgt_mark_failed i err now s = pgt_update i FAILED None (Some err) None now s"

definition row_settle :: "datetime \<Rightarrow> int \<Rightarrow> task_row \<Rightarrow> task_row" where
  "row_settle now max_attempts r =
     r\<lparr>tr_status := (if tr_attempts r \<ge> max_attempts then FAILED else QUEUED),
       tr_error := (if tr_attempts r \<ge> max_attempts then Some MAX_ATTEMPTS_EXCEEDED else tr_error r),
       tr_locked_until := None, tr_updated_at := now\<rparr>"

definition row_ref :: "task_row \<Rightarrow> task_ref" where
  "row_ref r = \<lparr>ref_id = tr_id r, ref_type = tr_type r, ref_request_id = tr_request_id r\<rparr>"

definition reclaim_stale_in :: "datetime \<Rightarrow> int \<Rightarrow> int \<Rightarrow> pg_tasks \<Rightarrow> (exn + task_ref list) \<times> pg_tasks" where
  "reclaim_stale_in now limit max_attempts s =
     (if limit \<le> 0 then (Inl (ValueError ''limit must be positive''), s)
      else (let ids = map tr_id (take (nat limit)
                  (sort_key (\<lambda>r. dflt 0 (tr_locked_until r)) (filter (\<lambda>r. row_lease_expired r now) s)));
                (rows, s') = sql_update (\<lambda>r. tr_id r \<in> set ids) (row_settle now max_attempts) s in
            (Inr (map row_ref (filter (\<lambda>r. tr_status r = QUEUED) rows)), s')))"

definition pgt_reclaim :: "datetime \<Rightarrow> int \<Rightarrow> int \<Rightarrow> pg_tasks \<Rightarrow> (exn + task_ref list) \<times> pg_tasks" where
  "pgt_reclaim now limit max_attempts = transaction (reclaim_stale_in now limit max_attempts)"

definition pgt_delete_expired ::
  "task_row limiter_fn \<Rightarrow> datetime \<Rightarrow> int \<Rightarrow> pg_tasks \<Rightarrow> (exn + nat) \<times> pg_tasks" where
  "pgt_delete_expired pick before limit s =
     (if limit \<le> 0 then (Inl (ValueError ''limit must be positive''), s)
      else (let ids = map tr_id (pick (nat limit) (filter (\<lambda>r. tr_expires_at r \<le> before) s));
                s' = sql_delete (\<lambda>r. tr_id r \<in> set ids) s in
            (Inr (length s - length s'), s')))"

definition pg_tasks_api :: "task_row limiter_fn \<Rightarrow> pg_tasks task_api" where
  "pg_tasks_api pick = \<lparr>tk_create = pgt_create, tk_get = pgt_get, tk_mark_processing = pgt_mark_processing,
     tk_mark_completed = pgt_mark_completed, tk_mark_failed = pgt_mark_failed, tk_reclaim = pgt_reclaim,
     tk_delete_expired = pgt_delete_expired pick\<rparr>"

section \<open>The Postgres store fulfils the contract\<close>

definition pg_tasks_inv :: "pg_tasks \<Rightarrow> bool" where
  "pg_tasks_inv s \<longleftrightarrow> distinct (map tr_id s)"

definition row_item :: "task_row \<Rightarrow> string \<times> task" where
  "row_item r = (tr_id r, core (to_record r))"

definition pg_tasks_abs :: "pg_tasks \<Rightarrow> task_map" where
  "pg_tasks_abs s = map_of (map row_item s)"

lemma row_sel [simp]:
  "t_type (to_record r) = tr_type r" "t_status (to_record r) = tr_status r"
  "t_expires_at (to_record r) = tr_expires_at r" "t_attempts (to_record r) = tr_attempts r"
  "t_locked_until (to_record r) = tr_locked_until r" "t_principal_id (to_record r) = tr_principal_id r"
  "t_request_id (to_record r) = tr_request_id r"
  by (simp_all add: to_record_def)

lemma row_pred [simp]: "lease_expired (to_record r) now = row_lease_expired r now"
  by (simp add: lease_expired_def row_lease_expired_def)

lemma pg_tasks_find: "pg_tasks_abs s i = map_option (core \<circ> to_record) (find (\<lambda>r. tr_id r = i) s)"
  by (induction s) (auto simp: pg_tasks_abs_def row_item_def)

lemma pg_tasks_row:
  assumes "pg_tasks_inv s" "r \<in> set s"
  shows "pg_tasks_abs s (tr_id r) = Some (core (to_record r))"
  using assms by (induction s) (auto simp: pg_tasks_abs_def row_item_def pg_tasks_inv_def rev_image_eqI)

lemma pg_tasks_some:
  "pg_tasks_abs s i = Some t \<Longrightarrow> \<exists>r \<in> set s. tr_id r = i \<and> t = core (to_record r)"
  by (auto simp: pg_tasks_find find_Some_iff)

lemma pg_tasks_none: "pg_tasks_abs s i = None \<longleftrightarrow> (\<forall>r \<in> set s. tr_id r \<noteq> i)"
  by (auto simp: pg_tasks_find find_None_iff)

text \<open>An update of the rows of a set of ids is the same update of the map.\<close>

lemma pg_tasks_update:
  assumes "\<And>r. tr_id (f r) = tr_id r" and "\<And>r. core (to_record (f r)) = g (core (to_record r))"
    and "\<And>r. r \<in> set s \<Longrightarrow> P r \<longleftrightarrow> tr_id r \<in> S"
  shows "pg_tasks_abs (map (\<lambda>r. if P r then f r else r) s) = map_on S g (pg_tasks_abs s)"
    and "pg_tasks_inv s \<Longrightarrow> pg_tasks_inv (map (\<lambda>r. if P r then f r else r) s)"
proof -
  show "pg_tasks_abs (map (\<lambda>r. if P r then f r else r) s) = map_on S g (pg_tasks_abs s)"
    using assms by (induction s) (auto simp: pg_tasks_abs_def row_item_def map_on_def fun_eq_iff)
  show "pg_tasks_inv (map (\<lambda>r. if P r then f r else r) s)" if "pg_tasks_inv s"
  proof -
    have "map tr_id (map (\<lambda>r. if P r then f r else r) s) = map tr_id s" using assms(1) by simp
    with that show ?thesis unfolding pg_tasks_inv_def by (simp only:)
  qed
qed

lemma map_on_single: "map_on {i} g m = (case m i of None \<Rightarrow> m | Some t \<Rightarrow> m(i \<mapsto> g t))"
  by (auto simp: map_on_def fun_eq_iff split: option.split)

lemma core_new_row [simp]: "core (to_record (new_task_row now t)) = core t"
  by (cases t) (simp add: core_def to_record_def new_task_row_def)

lemma pgt_create_law:
  assumes inv: "pg_tasks_inv s" and op: "pgt_create now t s = (r, s')"
  shows "pg_tasks_inv s' \<and>
     (if pg_tasks_abs s (t_id t) = None then r = Inr () \<and> pg_tasks_abs s' = (pg_tasks_abs s)(t_id t \<mapsto> core t)
      else (\<exists>e. r = Inl e) \<and> pg_tasks_abs s' = pg_tasks_abs s)"
proof (cases "pg_tasks_abs s (t_id t) = None")
  case True
  then have none: "\<forall>r \<in> set s. tr_id r \<noteq> t_id t" by (simp add: pg_tasks_none)
  with op have res: "r = Inr ()" "s' = s @ [new_task_row now t]" by (auto simp: pgt_create_def)
  have "pg_tasks_abs s' = (pg_tasks_abs s)(t_id t \<mapsto> core t)"
    using True by (auto simp: res pg_tasks_abs_def row_item_def fun_eq_iff map_add_def new_task_row_def [of now t, THEN arg_cong [of _ _ tr_id]]
        split: option.split)
  moreover have "pg_tasks_inv s'" using inv none by (auto simp: pg_tasks_inv_def res new_task_row_def)
  ultimately show ?thesis using True res by simp
next
  case False
  then have "\<exists>r \<in> set s. tr_id r = t_id t" by (simp add: pg_tasks_none)
  with False inv op show ?thesis by (auto simp: pgt_create_def)
qed

lemma pgt_get_law:
  assumes inv: "pg_tasks_inv s"
  shows "map_option core (pgt_get i p s) = (case pg_tasks_abs s i of
      Some t \<Rightarrow> if p = None \<or> p = Some (t_principal_id t) then Some t else None | None \<Rightarrow> None)"
proof -
  let ?Q = "\<lambda>r. case p of None \<Rightarrow> True | Some q \<Rightarrow> tr_principal_id r = q"
  have eq: "filter (\<lambda>r. tr_id r = i \<and> ?Q r) s = filter ?Q (filter (\<lambda>r. tr_id r = i) s)"
    by (simp add: conj_commute)
  show ?thesis
  proof (cases "pg_tasks_abs s i")
    case None
    then have "filter (\<lambda>r. tr_id r = i) s = []" by (simp add: pg_tasks_none filter_empty_conv)
    then show ?thesis using None by (simp only: pgt_get_def eq) simp
  next
    case (Some t)
    from pg_tasks_some [OF this] obtain r where r: "r \<in> set s" "tr_id r = i" "t = core (to_record r)" by blast
    have "filter (\<lambda>r. tr_id r = i) s = [r]"
      using filter_key_unique [of tr_id s r] inv r(1,2) by (simp add: pg_tasks_inv_def)
    then show ?thesis using Some r(3) by (simp only: pgt_get_def eq) (auto split: option.splits)
  qed
qed

lemma pgt_mark_processing_law:
  assumes inv: "pg_tasks_inv s" and op: "pgt_mark_processing i lease now s = (r, s')"
  shows "pg_tasks_inv s' \<and>
     (if lease \<le> 0 then r = Inl (ValueError ''lease_seconds must be positive'') \<and> pg_tasks_abs s' = pg_tasks_abs s
      else case pg_tasks_abs s i of
        None \<Rightarrow> r = Inl (KeyError i) \<and> pg_tasks_abs s' = pg_tasks_abs s
      | Some t \<Rightarrow> r = Inr (claimable t now)
          \<and> pg_tasks_abs s' = (if claimable t now then (pg_tasks_abs s)(i \<mapsto> claim lease now t) else pg_tasks_abs s))"
proof (cases "lease \<le> 0")
  case True
  with inv op show ?thesis by (simp add: pgt_mark_processing_def)
next
  case False
  let ?f = "\<lambda>r. r\<lparr>tr_status := PROCESSING, tr_locked_until := Some (now + timedelta lease),
       tr_attempts := tr_attempts r + 1, tr_updated_at := now\<rparr>"
  let ?P = "\<lambda>r. tr_id r = i \<and> (tr_status r = QUEUED \<or> row_lease_expired r now)"
  let ?s = "map (\<lambda>r. if ?P r then ?f r else r) s"
  have eq: "pgt_mark_processing i lease now s =
     (if filter ?P s \<noteq> [] then (Inr True, ?s)
      else if filter (\<lambda>r. tr_id r = i) ?s = [] then (Inl (KeyError i), s) else (Inr False, ?s))"
    using False by (simp add: pgt_mark_processing_def sql_update_def)
  show ?thesis
  proof (cases "pg_tasks_abs s i")
    case None
    then have no: "\<forall>r \<in> set s. tr_id r \<noteq> i" by (simp add: pg_tasks_none)
    then have "filter ?P s = []" "filter (\<lambda>r. tr_id r = i) ?s = []" by (auto simp: filter_empty_conv)
    with op inv None False show ?thesis unfolding eq by simp
  next
    case (Some t)
    from pg_tasks_some [OF this] obtain x where x: "x \<in> set s" "tr_id x = i" "t = core (to_record x)" by blast
    have uniq: "r = x" if "r \<in> set s" "tr_id r = i" for r
      using that x inv distinct_key_inj [of tr_id s r x] by (simp add: pg_tasks_inv_def)
    have Px: "?P r \<longleftrightarrow> tr_id r \<in> (if claimable t now then {i} else {})" if "r \<in> set s" for r
      using uniq [OF that] x by (auto simp: claimable_def)
    have cf: "core (to_record (?f r)) = claim lease now (core (to_record r))" for r
      by (cases r) (simp add: core_def to_record_def claim_def)
    have idf: "tr_id (?f r) = tr_id r" for r by simp
    have upd: "pg_tasks_abs ?s = map_on (if claimable t now then {i} else {}) (claim lease now) (pg_tasks_abs s)"
      "pg_tasks_inv ?s"
      by (rule pg_tasks_update(1), rule idf, rule cf, rule Px, assumption)
        (rule pg_tasks_update(2) [OF _ _ _ inv], rule idf, rule cf, rule Px)
    have "?P x \<longleftrightarrow> claimable t now" using Px [OF x(1)] x(2) by simp
    then have ne: "filter ?P s \<noteq> [] \<longleftrightarrow> claimable t now"
      unfolding filter_empty_conv using x(1) uniq by blast
    have "map tr_id ?s = map tr_id s" by (simp add: idf)
    then have "i \<in> tr_id ` set ?s" using x(1,2) by (metis image_eqI list.set_map)
    then have "filter (\<lambda>r. tr_id r = i) ?s \<noteq> []" by (force simp only: filter_empty_conv)
    then have "r = Inr (claimable t now)" "s' = ?s"
      using op unfolding eq ne by (auto split: if_splits)
    moreover have "pg_tasks_abs ?s = (if claimable t now then (pg_tasks_abs s)(i \<mapsto> claim lease now t) else pg_tasks_abs s)"
      unfolding upd(1) using Some by (simp add: map_on_single) (simp add: map_on_def)
    ultimately show ?thesis using upd(2) Some False by simp
  qed
qed

lemma pgt_update_law:
  assumes inv: "pg_tasks_inv s" and op: "pgt_update i st res err None now s = (r, s')"
    and g: "\<And>t. g t = t\<lparr>t_status := st, t_result := (if res = None then t_result t else res),
              t_error := (if err = None then t_error t else err), t_locked_until := None\<rparr>"
  shows "pg_tasks_inv s' \<and> (case pg_tasks_abs s i of
      None \<Rightarrow> r = Inl (KeyError i) \<and> pg_tasks_abs s' = pg_tasks_abs s
    | Some t \<Rightarrow> r = Inr () \<and> pg_tasks_abs s' = (pg_tasks_abs s)(i \<mapsto> g t))"
proof -
  let ?f = "\<lambda>r. r\<lparr>tr_status := st, tr_locked_until := None, tr_result := (if res \<noteq> None then res else tr_result r),
       tr_error := (if err \<noteq> None then err else tr_error r), tr_updated_at := now\<rparr>"
  let ?s = "map (\<lambda>r. if tr_id r = i then ?f r else r) s"
  have eq: "pgt_update i st res err None now s =
      (if filter (\<lambda>r. tr_id r = i) s = [] then (Inl (KeyError i), s) else (Inr (), ?s))"
    by (simp add: pgt_update_def sql_update_def)
  have none: "filter (\<lambda>r. tr_id r = i) s = [] \<longleftrightarrow> pg_tasks_abs s i = None"
    by (simp add: filter_empty_conv pg_tasks_none)
  have cf: "core (to_record (?f r)) = g (core (to_record r))" for r
    unfolding g by (cases r) (simp add: core_def to_record_def)
  have idf: "tr_id (?f r) = tr_id r" for r by simp
  have "tr_id r = i \<longleftrightarrow> tr_id r \<in> {i}" for r by simp
  note upd = pg_tasks_update [where f = ?f and P = "\<lambda>r. tr_id r = i", OF idf cf this]
  show ?thesis
  proof (cases "pg_tasks_abs s i")
    case None
    with op inv show ?thesis unfolding eq none by simp
  next
    case (Some t)
    then have "r = Inr ()" "s' = ?s" using op unfolding eq none by simp_all
    moreover have "pg_tasks_abs ?s = (pg_tasks_abs s)(i \<mapsto> g t)" unfolding upd(1) map_on_single by (simp add: Some)
    ultimately show ?thesis using upd(2) [OF inv] Some by simp
  qed
qed

lemma pgt_mark_completed_law:
  "\<lbrakk>pg_tasks_inv s; pgt_mark_completed i res now s = (r, s')\<rbrakk> \<Longrightarrow> pg_tasks_inv s' \<and>
     (case pg_tasks_abs s i of None \<Rightarrow> r = Inl (KeyError i) \<and> pg_tasks_abs s' = pg_tasks_abs s
      | Some t \<Rightarrow> r = Inr () \<and> pg_tasks_abs s' = (pg_tasks_abs s)(i \<mapsto> complete res t))"
  unfolding pgt_mark_completed_def by (rule pgt_update_law) (auto simp: complete_def)

lemma pgt_mark_failed_law:
  "\<lbrakk>pg_tasks_inv s; pgt_mark_failed i err now s = (r, s')\<rbrakk> \<Longrightarrow> pg_tasks_inv s' \<and>
     (case pg_tasks_abs s i of None \<Rightarrow> r = Inl (KeyError i) \<and> pg_tasks_abs s' = pg_tasks_abs s
      | Some t \<Rightarrow> r = Inr () \<and> pg_tasks_abs s' = (pg_tasks_abs s)(i \<mapsto> fail err t))"
  unfolding pgt_mark_failed_def by (rule pgt_update_law) (auto simp: fail_def)

lemma ids_where:
  assumes "pg_tasks_inv s" and "\<And>r. Q (core (to_record r)) \<longleftrightarrow> R r"
  shows "{i. \<exists>t. pg_tasks_abs s i = Some t \<and> Q t} = set (map tr_id (filter R s))"
    and "distinct (map tr_id (filter R s))"
proof -
  show "{i. \<exists>t. pg_tasks_abs s i = Some t \<and> Q t} = set (map tr_id (filter R s))"
    using pg_tasks_some [of s] pg_tasks_row [OF assms(1)] assms(2) by (fastforce simp: image_iff)
  show "distinct (map tr_id (filter R s))" using assms(1) by (simp add: pg_tasks_inv_def distinct_map_filter)
qed

lemma requeued_refs:
  "map row_ref (filter (\<lambda>r. tr_status r = QUEUED) (map (row_settle now m) rs)) =
     map row_ref (filter (\<lambda>r. tr_attempts r < m) rs)"
  by (induction rs) (auto simp: row_settle_def row_ref_def)

lemma pgt_reclaim_law:
  assumes inv: "pg_tasks_inv s" and op: "pgt_reclaim now limit m s = (r, s')"
  shows "pg_tasks_inv s' \<and>
     (if limit \<le> 0 then r = Inl (ValueError ''limit must be positive'') \<and> pg_tasks_abs s' = pg_tasks_abs s
      else \<exists>S refs. r = Inr refs \<and> S \<subseteq> stale (pg_tasks_abs s) now
          \<and> card S = min (nat limit) (card (stale (pg_tasks_abs s) now))
          \<and> refs_ok (pg_tasks_abs s) S m refs \<and> pg_tasks_abs s' = map_on S (settle m) (pg_tasks_abs s))"
proof (cases "limit \<le> 0")
  case True
  with inv op show ?thesis by (simp add: pgt_reclaim_def transaction_def reclaim_stale_in_def)
next
  case False
  let ?E = "filter (\<lambda>r. row_lease_expired r now) s"
  let ?ids = "map tr_id (take (nat limit) (sort_key (\<lambda>r. dflt 0 (tr_locked_until r)) ?E))"
  let ?R = "filter (\<lambda>r. tr_id r \<in> set ?ids) s"
  let ?refs = "map row_ref (filter (\<lambda>r. tr_status r = QUEUED) (map (row_settle now m) ?R))"
  have res: "r = Inr ?refs" "s' = map (\<lambda>r. if tr_id r \<in> set ?ids then row_settle now m r else r) s"
    using op False by (simp_all add: pgt_reclaim_def transaction_def reclaim_stale_in_def sql_update_def Let_def)
  have st: "stale (pg_tasks_abs s) now = set (map tr_id ?E)" "distinct (map tr_id ?E)"
    unfolding stale_def using ids_where [OF inv, of "\<lambda>t. lease_expired t now" "\<lambda>r. row_lease_expired r now"] by simp_all
  have "set (map tr_id (sort_key (\<lambda>r. dflt 0 (tr_locked_until r)) ?E)) = set (map tr_id ?E)" by simp
  moreover have "distinct (map tr_id (sort_key (\<lambda>r. dflt 0 (tr_locked_until r)) ?E))"
    using st(2) by (simp add: distinct_map)
  ultimately have card: "card (set ?ids) = min (nat limit) (card (set (map tr_id ?E)))"
    and sub: "set ?ids \<subseteq> set (map tr_id ?E)"
    using card_take_distinct [of "map tr_id (sort_key (\<lambda>r. dflt 0 (tr_locked_until r)) ?E)" "nat limit"]
      set_take_subset [of "nat limit" "map tr_id (sort_key (\<lambda>r. dflt 0 (tr_locked_until r)) ?E)"]
    by (simp_all only: take_map)
  have cf: "core (to_record (row_settle now m r)) = settle m (core (to_record r))" for r
    by (cases r) (simp add: core_def to_record_def row_settle_def settle_def)
  have idf: "tr_id (row_settle now m r) = tr_id r" for r by (simp add: row_settle_def)
  note upd = pg_tasks_update [where f = "row_settle now m" and P = "\<lambda>r. tr_id r \<in> set ?ids" and S = "set ?ids", OF idf cf refl]
  have refs: "?refs = map row_ref (filter (\<lambda>r. tr_attempts r < m) ?R)"
    by (rule requeued_refs)
  have "refs_ok (pg_tasks_abs s) (set ?ids) m ?refs"
    unfolding refs refs_ok_def
  proof (intro conjI)
    have ids: "map ref_id (map row_ref (filter (\<lambda>r. tr_attempts r < m) ?R)) = map tr_id (filter (\<lambda>r. tr_attempts r < m) ?R)"
      by (simp add: row_ref_def)
    show "distinct (map ref_id (map row_ref (filter (\<lambda>r. tr_attempts r < m) ?R)))"
      unfolding ids using inv by (simp add: pg_tasks_inv_def distinct_map_filter)
    have "ref_id ` set (map row_ref (filter (\<lambda>r. tr_attempts r < m) ?R)) = tr_id ` set (filter (\<lambda>r. tr_attempts r < m) ?R)"
      using ids by (metis list.set_map)
    also have "\<dots> = {i \<in> set ?ids. \<exists>t. pg_tasks_abs s i = Some t \<and> t_attempts t < m}"
      using pg_tasks_some [of s] pg_tasks_row [OF inv] by (fastforce simp: image_iff)
    finally show "ref_id ` set (map row_ref (filter (\<lambda>r. tr_attempts r < m) ?R)) =
        {i \<in> set ?ids. \<exists>t. pg_tasks_abs s i = Some t \<and> t_attempts t < m}" .
    show "\<forall>x \<in> set (map row_ref (filter (\<lambda>r. tr_attempts r < m) ?R)). \<exists>t. pg_tasks_abs s (ref_id x) = Some t
        \<and> ref_type x = t_type t \<and> ref_request_id x = t_request_id t"
      using pg_tasks_row [OF inv] by (auto simp: row_ref_def)
  qed
  then show ?thesis
    using False res upd(1) upd(2) [OF inv] card sub unfolding st(1)
    by (intro conjI) (simp_all only: if_False, blast)
qed

lemma pg_tasks_delete: "pg_tasks_abs (filter (\<lambda>r. tr_id r \<notin> S) s) = (pg_tasks_abs s) |` (- S)"
proof
  fix i
  show "pg_tasks_abs (filter (\<lambda>r. tr_id r \<notin> S) s) i = ((pg_tasks_abs s) |` (- S)) i"
    unfolding pg_tasks_find restrict_map_def by (induction s) (auto simp: o_def)
qed

lemma pgt_delete_expired_law:
  assumes pick: "limit_ok pick" and inv: "pg_tasks_inv s" and op: "pgt_delete_expired pick before limit s = (r, s')"
  shows "pg_tasks_inv s' \<and>
     (if limit \<le> 0 then r = Inl (ValueError ''limit must be positive'') \<and> pg_tasks_abs s' = pg_tasks_abs s
      else \<exists>S. r = Inr (card S) \<and> S \<subseteq> expired (pg_tasks_abs s) before
          \<and> card S = min (nat limit) (card (expired (pg_tasks_abs s) before))
          \<and> pg_tasks_abs s' = (pg_tasks_abs s) |` (- S))"
proof (cases "limit \<le> 0")
  case True
  with inv op show ?thesis by (simp add: pgt_delete_expired_def)
next
  case False
  let ?E = "filter (\<lambda>r. tr_expires_at r \<le> before) s"
  let ?P = "pick (nat limit) ?E"
  let ?S = "tr_id ` set ?P"
  let ?s = "filter (\<lambda>r. tr_id r \<notin> ?S) s"
  have dist: "distinct (map tr_id s)" using inv by (simp add: pg_tasks_inv_def)
  have ex: "expired (pg_tasks_abs s) before = set (map tr_id ?E)" "distinct (map tr_id ?E)"
    unfolding expired_def using ids_where [OF inv, of "\<lambda>t. t_expires_at t \<le> before" "\<lambda>r. tr_expires_at r \<le> before"] by simp_all
  have "distinct ?E" using ex(2) by (rule distinct_map [THEN iffD1, THEN conjunct1])
  with pick have P: "set ?P \<subseteq> set ?E" "length ?P = min (nat limit) (length ?E)" "distinct ?P"
    unfolding limit_ok_def by blast+
  have inj: "inj_on tr_id (set ?E)" using ex(2) by (rule distinct_map [THEN iffD1, THEN conjunct2])
  have cardS: "card ?S = length ?P"
    using card_image [OF inj_on_subset [OF inj P(1)]] distinct_card [OF P(3)] by simp
  have cardE: "card (set (map tr_id ?E)) = length ?E" using distinct_card [OF ex(2)] by simp
  have sub: "?S \<subseteq> set (map tr_id ?E)" using P(1) by auto
  have res: "r = Inr (length s - length ?s)" "s' = ?s"
    using op False by (auto simp: pgt_delete_expired_def sql_delete_def Let_def)
  have "length s = length ?s + length (filter (\<lambda>r. tr_id r \<in> ?S) s)"
    using sum_length_filter_compl [of "\<lambda>r. tr_id r \<in> ?S" s] by simp
  moreover have "length (filter (\<lambda>r. tr_id r \<in> ?S) s) = card ?S"
  proof -
    have "set (map tr_id (filter (\<lambda>r. tr_id r \<in> ?S) s)) = ?S"
      using P(1) by force
    moreover have "distinct (map tr_id (filter (\<lambda>r. tr_id r \<in> ?S) s))" using dist by (rule distinct_map_filter)
    ultimately show ?thesis by (metis distinct_card length_map)
  qed
  ultimately have "r = Inr (card ?S)" using res(1) by simp
  moreover have "pg_tasks_abs s' = (pg_tasks_abs s) |` (- ?S)"
    unfolding res(2) by (rule pg_tasks_delete)
  moreover have "pg_tasks_inv s'" using inv by (simp add: res(2) pg_tasks_inv_def distinct_map_filter)
  ultimately show ?thesis using False cardS cardE P(2) sub unfolding ex(1) by metis
qed

lemma pg_tasks_finite: "finite (dom (pg_tasks_abs s))"
  by (simp add: pg_tasks_abs_def finite_dom_map_of)

lemma pg_tasks_api_sel:
  "tk_create (pg_tasks_api pick) = pgt_create" "tk_get (pg_tasks_api pick) = pgt_get"
  "tk_mark_processing (pg_tasks_api pick) = pgt_mark_processing"
  "tk_mark_completed (pg_tasks_api pick) = pgt_mark_completed"
  "tk_mark_failed (pg_tasks_api pick) = pgt_mark_failed" "tk_reclaim (pg_tasks_api pick) = pgt_reclaim"
  "tk_delete_expired (pg_tasks_api pick) = pgt_delete_expired pick"
  by (simp_all add: pg_tasks_api_def)

lemma pg_task_store: "limit_ok pick \<Longrightarrow> task_store (pg_tasks_api pick) pg_tasks_inv pg_tasks_abs"
proof (unfold_locales, unfold pg_tasks_api_sel, goal_cases)
  case (7 s before limit rn s')
  then show ?case by (rule pgt_delete_expired_law)
next
  case (8 s) show ?case by (rule pg_tasks_finite)
next
  case (9 s i t)
  then show ?case by (auto simp: pg_tasks_abs_def row_item_def to_record_def dest!: map_of_SomeD)
qed (rule pgt_create_law pgt_get_law pgt_mark_processing_law pgt_mark_completed_law pgt_mark_failed_law
    pgt_reclaim_law; assumption)+

interpretation pg_task: task_store "pg_tasks_api take" pg_tasks_inv pg_tasks_abs
  by (rule pg_task_store [OF limit_ok_take])

lemma pg_tasks_inv_empty: "pg_tasks_inv []"
  by (simp add: pg_tasks_inv_def)

end
