(* ===== verification/Task_Service.thy ===== *)
theory Task_Service
  imports Tasks_Postgres Queue
begin

text \<open>
  Task submission, polling and processing over any task store and queue gateway
  (\<open>src/app/modules/messaging/tasks/service.py\<close>, \<open>tasks/message.py\<close> and the message handler of
  \<open>src/app/bootstrap/worker.py\<close>).

  The completion service that the handler calls is an argument, as it is in the code. Time stamps and
  drawn ids are arguments. What the contract of a store gives to its users (a live lease excludes
  other workers, reclaim leaves no task stuck) is proved in \<open>context task_store\<close>.
\<close>

section \<open>Dispatch through the queue\<close>

definition ValidationError :: exn where
  "ValidationError = Foreign (plain_view ''ValidationError'' [''ValueError'', ''Exception''])"

definition TaskMessage :: "string \<Rightarrow> string \<Rightarrow> string option \<Rightarrow> exn + task_message" where
  "TaskMessage task_id typ request_id =
     (let m = \<lparr>msg_task_id = task_id, msg_type = typ, msg_request_id = request_id\<rparr> in
      if message_valid m then Inr m else Inl ValidationError)"

definition announce ::
  "'q queue_api \<Rightarrow> string \<Rightarrow> string \<Rightarrow> string \<Rightarrow> string option \<Rightarrow> 'q \<Rightarrow> (exn + unit) \<times> 'q" where
  "announce q_api uuid task_id typ request_id q = (case TaskMessage task_id typ request_id of
      Inl e \<Rightarrow> (Inl e, q)
    | Inr m \<Rightarrow> (case q_send q_api uuid (to_body m) q of (Inl e, q') \<Rightarrow> (Inl e, q') | (Inr _, q') \<Rightarrow> (Inr (), q')))"

definition queue_submit ::
  "'s task_api \<Rightarrow> 'q queue_api \<Rightarrow> datetime \<Rightarrow> string \<Rightarrow> task \<Rightarrow> 's \<times> 'q \<Rightarrow> (exn + unit) \<times> 's \<times> 'q" where
  "queue_submit api q_api now uuid t st = (case st of (s, q) \<Rightarrow>
     (case tk_create api now t s of
        (Inl e, s') \<Rightarrow> (Inl e, s', q)
      | (Inr _, s') \<Rightarrow>
          (let (r, q') = announce q_api uuid (t_id t) (t_type t) (t_request_id t) q in (r, s', q'))))"

text \<open>The loop over the requeued tasks; \<open>uuid k\<close> is the id of the \<open>k\<close>-th message.\<close>

fun announce_all :: "'q queue_api \<Rightarrow> (nat \<Rightarrow> string) \<Rightarrow> nat \<Rightarrow> task_ref list \<Rightarrow> 'q \<Rightarrow> (exn + unit) \<times> 'q" where
  "announce_all q_api uuid k [] q = (Inr (), q)"
| "announce_all q_api uuid k (r # rs) q =
     (case announce q_api (uuid k) (ref_id r) (ref_type r) (ref_request_id r) q of
        (Inl e, q') \<Rightarrow> (Inl e, q')
      | (Inr _, q') \<Rightarrow> announce_all q_api uuid (Suc k) rs q')"

definition queue_reclaim ::
  "'s task_api \<Rightarrow> 'q queue_api \<Rightarrow> (nat \<Rightarrow> string) \<Rightarrow> datetime \<Rightarrow> int \<Rightarrow> int \<Rightarrow> 's \<times> 'q \<Rightarrow> (exn + nat) \<times> 's \<times> 'q" where
  "queue_reclaim api q_api uuid now limit max_attempts st = (case st of (s, q) \<Rightarrow>
     (case tk_reclaim api now limit max_attempts s of
        (Inl e, s') \<Rightarrow> (Inl e, s', q)
      | (Inr refs, s') \<Rightarrow> (case announce_all q_api uuid 0 refs q of
            (Inl e, q') \<Rightarrow> (Inl e, s', q')
          | (Inr _, q') \<Rightarrow> (Inr (length refs), s', q'))))"

section \<open>The service\<close>

record task_service_cfg =
  ts_ttl_seconds :: int
  ts_lease_seconds :: int

definition TaskService :: "int \<Rightarrow> int \<Rightarrow> exn + task_service_cfg" where
  "TaskService ttl lease =
     (if ttl \<le> 0 then Inl (ValueError ''ttl_seconds must be positive'')
      else if lease \<le> 0 then Inl (ValueError ''lease_seconds must be positive'')
      else Inr \<lparr>ts_ttl_seconds = ttl, ts_lease_seconds = lease\<rparr>)"

definition new_task ::
  "task_service_cfg \<Rightarrow> datetime \<Rightarrow> string \<Rightarrow> string \<Rightarrow> body \<Rightarrow> string \<Rightarrow> string option \<Rightarrow> task" where
  "new_task c now uuid typ payload principal_id request_id =
     \<lparr>t_id = uuid, t_type = typ, t_status = QUEUED, t_payload = payload,
      t_expires_at = now + timedelta (ts_ttl_seconds c), t_attempts = 0, t_result = None, t_error = None,
      t_created_at = Some now, t_updated_at = Some now, t_locked_until = None, t_metadata = [],
      t_principal_id = principal_id, t_request_id = request_id\<rparr>"

text \<open>\<open>submit_to\<close> is the dispatcher's \<open>submit\<close>.\<close>

definition task_submit ::
  "task_service_cfg \<Rightarrow> (task \<Rightarrow> 'w \<Rightarrow> (exn + unit) \<times> 'w) \<Rightarrow> datetime \<Rightarrow> string \<Rightarrow> string \<Rightarrow> body \<Rightarrow> string \<Rightarrow>
   string option \<Rightarrow> 'w \<Rightarrow> (exn + task) \<times> 'w" where
  "task_submit c submit_to now uuid typ payload principal_id request_id w =
     (let t = new_task c now uuid typ payload principal_id request_id in
      case submit_to t w of (Inl e, w') \<Rightarrow> (Inl e, w') | (Inr _, w') \<Rightarrow> (Inr t, w'))"

definition task_not_found :: "string \<Rightarrow> exn" where
  "task_not_found i = AppError (NotFoundError (Some (''Task '' @ i @ '' not found'')) (Some ''task_not_found'') None)"

definition task_require :: "'s task_api \<Rightarrow> string \<Rightarrow> 's \<Rightarrow> exn + task" where
  "task_require api i s = (case tk_get api i None s of None \<Rightarrow> Inl (task_not_found i) | Some t \<Rightarrow> Inr t)"

definition task_require_owned :: "'s task_api \<Rightarrow> string \<Rightarrow> string \<Rightarrow> string \<Rightarrow> 's \<Rightarrow> exn + task" where
  "task_require_owned api i principal_id typ s = (case tk_get api i (Some principal_id) s of
      None \<Rightarrow> Inl (task_not_found i)
    | Some t \<Rightarrow> if t_type t \<noteq> typ then Inl (task_not_found i) else Inr t)"

definition task_mark_processing ::
  "task_service_cfg \<Rightarrow> 's task_api \<Rightarrow> string \<Rightarrow> datetime \<Rightarrow> 's \<Rightarrow> (exn + bool) \<times> 's" where
  "task_mark_processing c api i now s = tk_mark_processing api i (ts_lease_seconds c) now s"

section \<open>The worker's handler\<close>

definition safe_error :: "exn \<Rightarrow> string" where
  "safe_error e = exn_class_name e @ '': task failed (see worker logs)''"

text \<open>
  \<open>run_completion\<close> builds the completion request from the payload and runs it; it acts on its own state.
  \<open>t0\<close> is the time of the claim and \<open>t1\<close> the time the task is settled.
\<close>

definition process_task ::
  "task_service_cfg \<Rightarrow> 's task_api \<Rightarrow> (body \<Rightarrow> 'c \<Rightarrow> (exn + body) \<times> 'c) \<Rightarrow> datetime \<Rightarrow> datetime \<Rightarrow> string \<Rightarrow>
   's \<times> 'c \<Rightarrow> (exn + unit) \<times> 's \<times> 'c" where
  "process_task cfg api run_completion t0 t1 i st = (case st of (s, c) \<Rightarrow>
     (case task_require api i s of
        Inl e \<Rightarrow> (Inl e, s, c)
      | Inr t \<Rightarrow>
         (case task_mark_processing cfg api i t0 s of
            (Inl e, s1) \<Rightarrow> (Inl e, s1, c)
          | (Inr False, s1) \<Rightarrow> (Inr (), s1, c)
          | (Inr True, s1) \<Rightarrow>
             (case run_completion (t_payload t) c of
                (Inl e, c') \<Rightarrow>
                  (case tk_mark_failed api i (safe_error e) t1 s1 of
                     (Inl e', s2) \<Rightarrow> (Inl e', s2, c')
                   | (Inr _, s2) \<Rightarrow> (Inl (NonRetryableMessageError (''task '' @ i @ '' failed'')), s2, c'))
              | (Inr res, c') \<Rightarrow>
                  (let (r, s2) = tk_mark_completed api i res t1 s1 in (r, s2, c'))))))"

text \<open>The request id that is set around the call only tags log lines.\<close>

definition process_message ::
  "task_service_cfg \<Rightarrow> 's task_api \<Rightarrow> (body \<Rightarrow> 'c \<Rightarrow> (exn + body) \<times> 'c) \<Rightarrow> datetime \<Rightarrow> datetime \<Rightarrow>
   ('s \<times> 'c) handler" where
  "process_message cfg api run_completion t0 t1 m st = (case from_body (qm_body m) of
      Inl e \<Rightarrow> (Inl e, st)
    | Inr tm \<Rightarrow> process_task cfg api run_completion t0 t1 (msg_task_id tm) st)"

section \<open>Runs of a store\<close>

datatype task_op =
    TCreate datetime task
  | TClaim string int datetime
  | TComplete string body datetime
  | TFail string string datetime
  | TReclaim datetime int int
  | TPurge datetime int

fun task_step :: "'s task_api \<Rightarrow> task_op \<Rightarrow> 's \<Rightarrow> 's" where
  "task_step api (TCreate now t) s = snd (tk_create api now t s)"
| "task_step api (TClaim i lease now) s = snd (tk_mark_processing api i lease now s)"
| "task_step api (TComplete i res now) s = snd (tk_mark_completed api i res now s)"
| "task_step api (TFail i err now) s = snd (tk_mark_failed api i err now s)"
| "task_step api (TReclaim now limit m) s = snd (tk_reclaim api now limit m s)"
| "task_step api (TPurge before limit) s = snd (tk_delete_expired api before limit s)"

definition task_run :: "'s task_api \<Rightarrow> task_op list \<Rightarrow> 's \<Rightarrow> 's" where
  "task_run api xs s = fold (task_step api) xs s"

text \<open>The operation happens while the lease of \<open>t\<close> is live and is not its holder's own result.\<close>

fun under_lease :: "task \<Rightarrow> datetime \<Rightarrow> task_op \<Rightarrow> bool" where
  "under_lease t lu (TCreate _ _) = True"
| "under_lease t lu (TClaim _ _ now) = (now < lu)"
| "under_lease t lu (TComplete i _ _) = (i \<noteq> t_id t)"
| "under_lease t lu (TFail i _ _) = (i \<noteq> t_id t)"
| "under_lease t lu (TReclaim now _ _) = (now < lu)"
| "under_lease t lu (TPurge before _) = (before < t_expires_at t)"

text \<open>The operation happens before the lease \<open>lu\<close> ends and is not the creation of a task with the same id.\<close>

fun before_end :: "string \<Rightarrow> datetime \<Rightarrow> task_op \<Rightarrow> bool" where
  "before_end i lu (TCreate _ t) = (t_id t \<noteq> i)"
| "before_end i lu (TClaim _ _ now) = (now < lu)"
| "before_end i lu (TReclaim now _ _) = (now < lu)"
| "before_end i lu x = True"

text \<open>What \<open>get\<close> shows of a store, time stamps and metadata aside.\<close>

definition view :: "'s task_api \<Rightarrow> 's \<Rightarrow> task_map" where
  "view api s = (\<lambda>i. map_option core (tk_get api i None s))"

text \<open>What a reclaim with a sufficient limit has to do.\<close>

definition reclaims_all :: "'s task_api \<Rightarrow> datetime \<Rightarrow> int \<Rightarrow> int \<Rightarrow> 's \<Rightarrow> bool" where
  "reclaims_all api now limit max_attempts s \<longleftrightarrow>
     (let (r, s') = tk_reclaim api now limit max_attempts s; st = stale (view api s) now in
      stale (view api s') now = {}
      \<and> view api s' = map_on st (settle max_attempts) (view api s)
      \<and> (\<exists>refs. r = Inr refs \<and> refs_ok (view api s) st max_attempts refs))"

text \<open>
  What a lease gives its holder: a claim at \<open>now'\<close>, after the operations \<open>xs\<close>, is not granted; and when none of them settles or purges
  the task, the task is as the holder left it.
\<close>

definition lease_excludes ::
  "'s task_api \<Rightarrow> string \<Rightarrow> int \<Rightarrow> datetime \<Rightarrow> task_op list \<Rightarrow> int \<Rightarrow> datetime \<Rightarrow> 's \<Rightarrow> bool" where
  "lease_excludes api i lease now xs lease' now' s \<longleftrightarrow>
     (let s1 = snd (tk_mark_processing api i lease now s); s2 = task_run api xs s1; r = fst (tk_mark_processing api i lease' now' s2) in
      r \<noteq> Inr True
      \<and> ((\<forall>x \<in> set xs. \<forall>t. view api s1 i = Some t \<longrightarrow> under_lease t (now + timedelta lease) x) \<longrightarrow>
           view api s2 i = view api s1 i \<and> (\<exists>t. view api s2 i = Some t \<and> t_status t = PROCESSING) \<and> r = Inr False))"

text \<open>What the worker's handler has to leave behind for a task that it claims.\<close>

definition handled ::
  "'s task_api \<Rightarrow> int \<Rightarrow> datetime \<Rightarrow> string \<Rightarrow> task \<Rightarrow> exn + body \<Rightarrow> 's \<Rightarrow> (exn + unit) \<times> 's \<Rightarrow> bool" where
  "handled api lease now i t outcome s res \<longleftrightarrow> (case outcome of
      Inr b \<Rightarrow> fst res = Inr () \<and> view api (snd res) = (view api s)(i \<mapsto> complete b (claim lease now t))
    | Inl e \<Rightarrow> fst res = Inl (NonRetryableMessageError (''task '' @ i @ '' failed''))
        \<and> view api (snd res) = (view api s)(i \<mapsto> fail (safe_error e) (claim lease now t)))"

section \<open>What the contract gives\<close>

context task_store
begin

lemma lease_stable_step:
  assumes inv: "inv s" and t: "abs s (t_id t) = Some t" "t_status t = PROCESSING" "t_locked_until t = Some lu"
    and r: "under_lease t lu x"
  shows "inv (task_step api x s) \<and> abs (task_step api x s) (t_id t) = Some t"
proof (cases x)
  case (TCreate now u)
  obtain r s' where op: "tk_create api now u s = (r, s')" by (cases "tk_create api now u s")
  from create_law [OF inv op] t show ?thesis by (auto simp: TCreate op split: if_splits)
next
  case (TClaim i lease now)
  obtain r s' where op: "tk_mark_processing api i lease now s = (r, s')" by (cases "tk_mark_processing api i lease now s")
  have "\<not> claimable t now" using t r TClaim by (simp add: claimable_def lease_expired_def)
  with mark_processing_law [OF inv op] t show ?thesis
    by (auto simp: TClaim op split: if_splits option.splits)
next
  case (TComplete i res now)
  obtain r s' where op: "tk_mark_completed api i res now s = (r, s')" by (cases "tk_mark_completed api i res now s")
  from mark_completed_law [OF inv op] t r show ?thesis by (auto simp: TComplete op split: option.splits)
next
  case (TFail i err now)
  obtain r s' where op: "tk_mark_failed api i err now s = (r, s')" by (cases "tk_mark_failed api i err now s")
  from mark_failed_law [OF inv op] t r show ?thesis by (auto simp: TFail op split: option.splits)
next
  case (TReclaim now limit m)
  obtain r s' where op: "tk_reclaim api now limit m s = (r, s')" by (cases "tk_reclaim api now limit m s")
  have "t_id t \<notin> stale (abs s) now" using t r TReclaim by (simp add: stale_def lease_expired_def)
  with reclaim_law [OF inv op] t show ?thesis
    by (auto simp: TReclaim op map_on_def split: if_splits)
next
  case (TPurge before limit)
  obtain r s' where op: "tk_delete_expired api before limit s = (r, s')" by (cases "tk_delete_expired api before limit s")
  have "t_id t \<notin> expired (abs s) before" using t r TPurge by (simp add: expired_def)
  with delete_expired_law [OF inv op] t show ?thesis
    by (auto simp: TPurge op restrict_map_def split: if_splits)
qed

lemma lease_stable_run:
  "\<lbrakk>inv s; abs s (t_id t) = Some t; t_status t = PROCESSING; t_locked_until t = Some lu;
    \<forall>x \<in> set xs. under_lease t lu x\<rbrakk> \<Longrightarrow> inv (task_run api xs s) \<and> abs (task_run api xs s) (t_id t) = Some t"
proof (induction xs arbitrary: s)
  case (Cons x xs)
  from lease_stable_step [OF Cons.prems(1-4), of x] Cons.prems(5)
  have "inv (task_step api x s) \<and> abs (task_step api x s) (t_id t) = Some t" by simp
  with Cons.IH [of "task_step api x s"] Cons.prems(3-5) show ?case by (simp add: task_run_def)
qed (simp add: task_run_def)

text \<open>Whoever settles the task, and however often: while the lease lasts it is not claimable again.\<close>

lemma unclaimable_run:
  "\<lbrakk>inv s; \<forall>t. abs s i = Some t \<longrightarrow> t_status t \<noteq> QUEUED \<and> (\<forall>l. t_status t = PROCESSING \<longrightarrow> t_locked_until t = Some l \<longrightarrow> lu \<le> l);
    \<forall>x \<in> set xs. before_end i lu x\<rbrakk> \<Longrightarrow>
     inv (task_run api xs s) \<and> (\<forall>t. abs (task_run api xs s) i = Some t \<longrightarrow> t_status t \<noteq> QUEUED \<and>
       (\<forall>l. t_status t = PROCESSING \<longrightarrow> t_locked_until t = Some l \<longrightarrow> lu \<le> l))"
proof (induction xs arbitrary: s)
  case (Cons x xs)
  let ?ok = "\<lambda>s. \<forall>t. abs s i = Some t \<longrightarrow> t_status t \<noteq> QUEUED \<and> (\<forall>l. t_status t = PROCESSING \<longrightarrow> t_locked_until t = Some l \<longrightarrow> lu \<le> l)"
  have x: "before_end i lu x" using Cons.prems(3) by simp
  have idle: "\<not> claimable t now" "\<not> lease_expired t now" if "abs s i = Some t" "now < lu" for t now
    using Cons.prems(2) that by (auto simp: claimable_def lease_expired_def split: option.splits)
  have "inv (task_step api x s) \<and> ?ok (task_step api x s)"
  proof (cases x)
    case (TCreate now t)
    obtain r s' where op: "tk_create api now t s = (r, s')" by (cases "tk_create api now t s")
    from create_law [OF Cons.prems(1) op] Cons.prems(2) x show ?thesis by (auto simp: TCreate op split: if_splits)
  next
    case (TClaim j lease now)
    obtain r s' where op: "tk_mark_processing api j lease now s = (r, s')" by (cases "tk_mark_processing api j lease now s")
    from mark_processing_law [OF Cons.prems(1) op] idle(1) Cons.prems(2) x show ?thesis
      by (cases "j = i") (use op in \<open>auto simp: TClaim split: if_splits option.splits\<close>)
  next
    case (TComplete j res now)
    obtain r s' where op: "tk_mark_completed api j res now s = (r, s')" by (cases "tk_mark_completed api j res now s")
    from mark_completed_law [OF Cons.prems(1) op] Cons.prems(2) show ?thesis
      by (cases "j = i") (use op in \<open>auto simp: TComplete complete_def split: option.splits\<close>)
  next
    case (TFail j err now)
    obtain r s' where op: "tk_mark_failed api j err now s = (r, s')" by (cases "tk_mark_failed api j err now s")
    from mark_failed_law [OF Cons.prems(1) op] Cons.prems(2) show ?thesis
      by (cases "j = i") (use op in \<open>auto simp: TFail fail_def split: option.splits\<close>)
  next
    case (TReclaim now limit m)
    obtain r s' where op: "tk_reclaim api now limit m s = (r, s')" by (cases "tk_reclaim api now limit m s")
    have "i \<notin> stale (abs s) now" using idle(2) x TReclaim by (auto simp: stale_def)
    with reclaim_law [OF Cons.prems(1) op] Cons.prems(2) show ?thesis
      by (auto simp: TReclaim op map_on_def split: if_splits)
  next
    case (TPurge before limit)
    obtain r s' where op: "tk_delete_expired api before limit s = (r, s')" by (cases "tk_delete_expired api before limit s")
    from delete_expired_law [OF Cons.prems(1) op] Cons.prems(2) show ?thesis
      by (auto simp: TPurge op restrict_map_def split: if_splits)
  qed
  with Cons.IH [of "task_step api x s"] Cons.prems(3) show ?case by (simp add: task_run_def)
qed (simp add: task_run_def)

lemma view_abs: "inv s \<Longrightarrow> view api s = abs s"
  by (rule ext) (simp add: view_def get_law split: option.split)

lemma lease_excludes:
  assumes inv: "inv s"
    and claim: "fst (tk_mark_processing api i lease now s) = Inr True"
    and ops: "\<forall>x \<in> set xs. before_end i (now + timedelta lease) x"
    and now: "now' < now + timedelta lease" and lease': "0 < lease'"
  shows "Task_Service.lease_excludes api i lease now xs lease' now' s"
proof -
  obtain s1 where op1: "tk_mark_processing api i lease now s = (Inr True, s1)" using claim by (metis prod.collapse)
  from mark_processing_law [OF inv op1] obtain t where t: "abs s i = Some t" "claimable t now"
    and s1: "inv s1" "abs s1 = (abs s)(i \<mapsto> Tasks.claim lease now t)"
    by (auto split: if_splits option.splits)
  let ?t = "Tasks.claim lease now t" and ?s2 = "task_run api xs s1" and ?lu = "now + timedelta lease"
  have id: "t_id ?t = i" using key_id [OF inv t(1)] by (simp add: claim_def)
  have p: "t_status ?t = PROCESSING" "t_locked_until ?t = Some ?lu" by (simp_all add: claim_def)
  obtain r' s' where op: "tk_mark_processing api i lease' now' ?s2 = (r', s')"
    by (cases "tk_mark_processing api i lease' now' ?s2")
  have s2: "inv ?s2 \<and> (\<forall>t. abs ?s2 i = Some t \<longrightarrow> t_status t \<noteq> QUEUED \<and>
      (\<forall>l. t_status t = PROCESSING \<longrightarrow> t_locked_until t = Some l \<longrightarrow> ?lu \<le> l))"
    by (rule unclaimable_run [OF s1(1) _ ops]) (simp add: s1(2) p)
  then have "\<not> claimable u now'" if "abs ?s2 i = Some u" for u
    using that now by (auto simp: claimable_def lease_expired_def split: option.splits)
  with mark_processing_law [OF _ op] s2 lease' have no: "r' \<noteq> Inr True" by (auto split: option.splits)
  have "abs ?s2 i = Some ?t \<and> r' = Inr False"
    if r: "\<forall>x \<in> set xs. \<forall>t. abs s1 i = Some t \<longrightarrow> under_lease t ?lu x"
  proof -
    have u: "\<forall>x \<in> set xs. under_lease ?t ?lu x" using r s1(2) by simp
    have *: "inv ?s2 \<and> abs ?s2 i = Some ?t"
      using lease_stable_run [OF s1(1) _ p u] s1(2) by (simp add: id)
    with mark_processing_law [OF _ op] lease' no show ?thesis by auto
  qed
  with s1 s2 no p show ?thesis
    by (simp add: lease_excludes_def op1 op view_abs Let_def)
qed

lemma reclaim_clears:
  assumes inv: "inv s" and op: "tk_reclaim api now limit m s = (r, s')"
    and big: "int (card (stale (abs s) now)) \<le> limit" "0 < limit"
  shows "\<exists>refs. r = Inr refs \<and> refs_ok (abs s) (stale (abs s) now) m refs \<and> stale (abs s') now = {}
     \<and> abs s' = map_on (stale (abs s) now) (settle m) (abs s)"
proof -
  have fin: "finite (stale (abs s) now)"
    using finite_tasks [OF inv] by (rule finite_subset [rotated]) (auto simp: stale_def)
  from reclaim_law [OF inv op] big obtain S refs where S: "r = Inr refs" "S \<subseteq> stale (abs s) now"
      "card S = min (nat limit) (card (stale (abs s) now))" "refs_ok (abs s) S m refs"
      "abs s' = map_on S (settle m) (abs s)" by auto
  have "card S = card (stale (abs s) now)" using S(3) big by linarith
  then have eq: "S = stale (abs s) now" using card_subset_eq [OF fin S(2)] by simp
  have "stale (abs s') now = {}"
    unfolding S(5) eq by (auto simp: stale_def map_on_def lease_expired_def settle_def split: if_splits)
  with S eq show ?thesis by simp
qed

lemma step_inv: "inv s \<Longrightarrow> inv (task_step api x s)"
  using create_law mark_processing_law mark_completed_law mark_failed_law reclaim_law delete_expired_law
  by (cases x) (metis task_step.simps surjective_pairing)+

lemma run_inv: "inv s \<Longrightarrow> inv (task_run api xs s)"
  by (induction xs arbitrary: s) (simp_all add: task_run_def step_inv)

lemma reclaims_all:
  assumes inv: "inv s" and big: "int (card (stale (view api s) now)) \<le> limit" "0 < limit"
  shows "reclaims_all api now limit m s"
proof -
  obtain r s' where op: "tk_reclaim api now limit m s = (r, s')" by (cases "tk_reclaim api now limit m s")
  have "inv s'" using reclaim_law [OF inv op] by simp
  with reclaim_clears [OF inv op] inv big op show ?thesis by (auto simp: reclaims_all_def view_abs)
qed

lemma owned_law:
  assumes inv: "inv s"
  shows "case task_require_owned api i p typ s of
      Inr t \<Rightarrow> abs s i = Some (core t) \<and> t_id t = i \<and> t_principal_id t = p \<and> t_type t = typ
    | Inl e \<Rightarrow> e = task_not_found i \<and> (\<forall>t. abs s i = Some t \<longrightarrow> t_principal_id t \<noteq> p \<or> t_type t \<noteq> typ)"
proof (cases "tk_get api i (Some p) s")
  case None
  with get_law [OF inv, of i "Some p"] show ?thesis
    by (auto simp: task_require_owned_def split: option.splits if_splits)
next
  case (Some t)
  with get_law [OF inv, of i "Some p"] have "abs s i = Some (core t)" "t_principal_id t = p"
    by (auto split: option.splits if_splits)
  with Some key_id [OF inv, of i] show ?thesis by (auto simp: task_require_owned_def core_def)
qed

lemma handler_law:
  assumes inv: "inv s" and t: "abs s i = Some t" "claimable t t0" and lease: "0 < ts_lease_seconds cfg"
    and run: "run_completion (t_payload t) c = (outcome, c')"
  shows "\<exists>r s'. process_task cfg api run_completion t0 t1 i (s, c) = (r, s', c') \<and> inv s'
     \<and> handled api (ts_lease_seconds cfg) t0 i t outcome s (r, s')
     \<and> (\<exists>s''. process_task cfg api run_completion t2 t3 i (s', c') = (Inr (), s'', c') \<and> view api s'' = view api s')"
proof -
  let ?l = "ts_lease_seconds cfg"
  have get: "\<exists>u. tk_get api i None s = Some u \<and> core u = v" if "inv s" "abs s i = Some v" for s v
    using get_law [OF that(1), of i None] that(2) by auto
  obtain u where u: "tk_get api i None s = Some u" "core u = t" using get [OF inv t(1)] by blast
  have pay: "t_payload u = t_payload t" using u(2) by (auto simp: core_def)
  obtain b s1 where c1: "tk_mark_processing api i ?l t0 s = (b, s1)" by (cases "tk_mark_processing api i ?l t0 s")
  have s1: "b = Inr True" "inv s1" "abs s1 = (abs s)(i \<mapsto> claim ?l t0 t)"
    using mark_processing_law [OF inv c1] lease t by (auto split: if_splits)
  define f where "f = (case outcome of Inr res \<Rightarrow> complete res | Inl e \<Rightarrow> fail (safe_error e))"
  obtain r s2 where step: "process_task cfg api run_completion t0 t1 i (s, c) = (r, s2, c')"
      "r = (case outcome of Inr _ \<Rightarrow> Inr () | Inl _ \<Rightarrow> Inl (NonRetryableMessageError (''task '' @ i @ '' failed'')))"
      "inv s2" "abs s2 = (abs s)(i \<mapsto> f (claim ?l t0 t))"
  proof (cases outcome)
    case (Inl e)
    obtain r s2 where op: "tk_mark_failed api i (safe_error e) t1 s1 = (r, s2)"
      by (cases "tk_mark_failed api i (safe_error e) t1 s1")
    with that mark_failed_law [OF s1(2) op] s1 c1 u pay run Inl show ?thesis
      by (simp add: process_task_def task_require_def task_mark_processing_def f_def)
  next
    case (Inr res)
    obtain r s2 where op: "tk_mark_completed api i res t1 s1 = (r, s2)"
      by (cases "tk_mark_completed api i res t1 s1")
    with that mark_completed_law [OF s1(2) op] s1 c1 u pay run Inr show ?thesis
      by (simp add: process_task_def task_require_def task_mark_processing_def f_def)
  qed
  have h: "handled api ?l t0 i t outcome s (r, s2)"
    using step inv by (auto simp: handled_def view_abs f_def split: sum.splits)
  have abs2: "abs s2 i = Some (f (claim ?l t0 t))" using step(4) by simp
  have no: "\<not> claimable (f (claim ?l t0 t)) t2"
    by (simp add: f_def claimable_def lease_expired_def complete_def fail_def split: sum.split)
  obtain u2 where u2: "tk_get api i None s2 = Some u2" using get [OF step(3) abs2] by blast
  obtain b2 s3 where c2: "tk_mark_processing api i ?l t2 s2 = (b2, s3)" by (cases "tk_mark_processing api i ?l t2 s2")
  have s3: "b2 = Inr False" "inv s3" "abs s3 = abs s2"
    using mark_processing_law [OF step(3) c2] lease abs2 no by (auto split: if_splits)
  have "process_task cfg api run_completion t2 t3 i (s2, c') = (Inr (), s3, c')"
    using u2 c2 s3(1) by (simp add: process_task_def task_require_def task_mark_processing_def)
  with step(1,3) h s3 show ?thesis by (auto simp: view_abs)
qed

end

section \<open>Properties\<close>

abbreviation mem_history :: "task_op list \<Rightarrow> mem_tasks" where
  "mem_history ys \<equiv> task_run mem_tasks_api ys InMemoryTaskStore"

abbreviation pg_history :: "task_op list \<Rightarrow> pg_tasks" where
  "pg_history ys \<equiv> task_run (pg_tasks_api take) ys []"

lemma history_inv: "mem_tasks_inv (mem_history ys)" "pg_tasks_inv (pg_history ys)"
  by (rule mem_task.run_inv [OF InMemoryTaskStore_inv], rule pg_task.run_inv [OF pg_tasks_inv_empty])

definition sample_task :: task where
  "sample_task = \<lparr>t_id = ''t1'', t_type = ''completion'', t_status = QUEUED, t_payload = [], t_expires_at = timedelta 100,
     t_attempts = 0, t_result = None, t_error = None, t_created_at = None, t_updated_at = None,
     t_locked_until = None, t_metadata = [], t_principal_id = ''alice'', t_request_id = None\<rparr>"

text \<open>
  C16. A lease excludes a second claim, in the memory and the Postgres store. After any history, once a claim of a task is granted and
  until its lease ends, no further claim of it is granted, whatever claims, reclaims (at times before the end), completions, failures,
  purges and creations of other tasks happen in between, by whichever worker. When none of them completes, fails or purges this task,
  the task stays exactly as claimed and the second claim is answered \<open>False\<close>. (A lease does not fence results: a completion or failure of
  the task by a worker whose own lease has ended still goes through.)
\<close>

theorem lease_excludes_workers:
  assumes "\<forall>x \<in> set xs. before_end i (now + timedelta lease) x" and "now' < now + timedelta lease" and "0 < lease'"
  shows "(fst (tk_mark_processing mem_tasks_api i lease now (mem_history ys)) = Inr True \<longrightarrow>
         Task_Service.lease_excludes mem_tasks_api i lease now xs lease' now' (mem_history ys))
     \<and> (fst (tk_mark_processing (pg_tasks_api take) i lease now (pg_history ys)) = Inr True \<longrightarrow>
         Task_Service.lease_excludes (pg_tasks_api take) i lease now xs lease' now' (pg_history ys))"
  using mem_task.lease_excludes [OF history_inv(1) _ assms] pg_task.lease_excludes [OF history_inv(2) _ assms] by blast

theorem lease_excludes_workers_witness:
  "let s1 = snd (pgt_mark_processing ''t1'' 10 0 (pg_history [TCreate 0 sample_task])) in
   fst (pgt_mark_processing ''t1'' 10 5 (task_run (pg_tasks_api take) [TClaim ''t1'' 10 1, TComplete ''t1'' [] 1, TReclaim 2 5 3] s1)) \<noteq> Inr True"
proof -
  let ?xs = "[TClaim ''t1'' 10 1, TComplete ''t1'' [] 1, TReclaim 2 5 3]"
  have "fst (tk_mark_processing (pg_tasks_api take) ''t1'' 10 0 (pg_history [TCreate 0 sample_task])) = Inr True" by code_simp
  moreover have "\<forall>x \<in> set ?xs. before_end ''t1'' (0 + timedelta 10) x" by (simp add: timedelta_def us_per_s_def)
  ultimately have "Task_Service.lease_excludes (pg_tasks_api take) ''t1'' 10 0 ?xs 10 5 (pg_history [TCreate 0 sample_task])"
    using lease_excludes_workers [of ?xs "''t1''" 0 10 5 10] by (simp add: timedelta_def us_per_s_def)
  then show ?thesis by (simp add: lease_excludes_def Let_def pg_tasks_api_sel)
qed

text \<open>
  C19. No task stays stuck: after any history, a reclaim whose limit covers the expired leases leaves
  no expired lease in either store. Each such task with attempts left is queued again and referenced
  exactly once for announcement; each without is failed with \<open>max_attempts_exceeded\<close>; no other task
  changes.
\<close>

theorem reclaim_leaves_none_stuck:
  assumes "0 < limit"
    and "int (card (stale (view mem_tasks_api (mem_history ys)) now)) \<le> limit"
    and "int (card (stale (view (pg_tasks_api take) (pg_history ys)) now)) \<le> limit"
  shows "reclaims_all mem_tasks_api now limit max_attempts (mem_history ys)
     \<and> reclaims_all (pg_tasks_api take) now limit max_attempts (pg_history ys)"
  using mem_task.reclaims_all [OF history_inv(1)] pg_task.reclaims_all [OF history_inv(2)] assms by blast

theorem reclaim_leaves_none_stuck_witness:
  "let ys = [TCreate 0 sample_task, TClaim ''t1'' 10 1] in
   reclaims_all mem_tasks_api (timedelta 20) 5 3 (mem_history ys)
     \<and> reclaims_all (pg_tasks_api take) (timedelta 20) 5 3 (pg_history ys)"
proof -
  let ?ys = "[TCreate 0 sample_task, TClaim ''t1'' 10 1]" and ?now = "timedelta 20"
  have one: "int (card (stale (\<lambda>i. map_option core (f i)) ?now)) \<le> 5" if "\<And>i. i \<noteq> ''t1'' \<Longrightarrow> f i = None" for f
  proof -
    have "stale (\<lambda>i. map_option core (f i)) ?now \<subseteq> {''t1''}" using that by (force simp: stale_def)
    from card_mono [OF _ this] show ?thesis by simp
  qed
  have keys: "map fst (mem_history ?ys) = [''t1'']" "map tr_id (pg_history ?ys) = [''t1'']" by code_simp+
  have "mem_get i None (mem_history ?ys) = None" if "i \<noteq> ''t1''" for i
  proof -
    have "i \<notin> set (map fst (mem_history ?ys))" unfolding keys using that by simp
    then show ?thesis by (simp add: mem_get_def map_of_eq_None_iff [THEN iffD2])
  qed
  then have m: "int (card (stale (view mem_tasks_api (mem_history ?ys)) ?now)) \<le> 5"
    unfolding view_def mem_tasks_api_sel by (rule one)
  have "pgt_get i None (pg_history ?ys) = None" if "i \<noteq> ''t1''" for i
  proof -
    have "i \<notin> set (map tr_id (pg_history ?ys))" unfolding keys using that by simp
    then have "filter (\<lambda>r. tr_id r = i) (pg_history ?ys) = []" by (auto simp: filter_empty_conv)
    then show ?thesis by (simp add: pgt_get_def)
  qed
  then have p: "int (card (stale (view (pg_tasks_api take) (pg_history ?ys)) ?now)) \<le> 5"
    unfolding view_def pg_tasks_api_sel by (rule one)
  show ?thesis unfolding Let_def by (rule reclaim_leaves_none_stuck [OF _ m p]) simp
qed

text \<open>
  Tasks are isolated by owner: after any history of either store, the status endpoint's lookup
  returns a task only to the principal that submitted it and only under its own type; in every other
  case the answer is the one a task that does not exist gives, and nothing is denied to its owner.
\<close>

theorem tasks_isolated_by_owner:
  "(case task_require_owned mem_tasks_api i p ty (mem_history ys) of
      Inr t \<Rightarrow> view mem_tasks_api (mem_history ys) i = Some (core t) \<and> t_id t = i \<and> t_principal_id t = p \<and> t_type t = ty
    | Inl e \<Rightarrow> e = task_not_found i
        \<and> (\<forall>t. view mem_tasks_api (mem_history ys) i = Some t \<longrightarrow> t_principal_id t \<noteq> p \<or> t_type t \<noteq> ty))
   \<and> (case task_require_owned (pg_tasks_api take) i p ty (pg_history ys) of
      Inr t \<Rightarrow> view (pg_tasks_api take) (pg_history ys) i = Some (core t) \<and> t_id t = i \<and> t_principal_id t = p \<and> t_type t = ty
    | Inl e \<Rightarrow> e = task_not_found i
        \<and> (\<forall>t. view (pg_tasks_api take) (pg_history ys) i = Some t \<longrightarrow> t_principal_id t \<noteq> p \<or> t_type t \<noteq> ty))"
  unfolding mem_task.view_abs [OF history_inv(1)] pg_task.view_abs [OF history_inv(2)]
  using mem_task.owned_law [OF history_inv(1)] pg_task.owned_law [OF history_inv(2)] by blast

theorem tasks_isolated_by_owner_witness:
  "task_require_owned (pg_tasks_api take) ''t1'' ''bob'' ''completion'' (pg_history [TCreate 0 sample_task]) =
     Inl (task_not_found ''t1'')
   \<and> (\<exists>t. view (pg_tasks_api take) (pg_history [TCreate 0 sample_task]) ''t1'' = Some t \<and> t_principal_id t = ''alice'')"
proof -
  let ?h = "pg_history [TCreate 0 sample_task]"
  have "isl (task_require_owned (pg_tasks_api take) ''t1'' ''bob'' ''completion'' ?h)" by code_simp
  moreover have "view (pg_tasks_api take) ?h ''t1'' = Some sample_task" by code_simp
  moreover have "t_principal_id sample_task = ''alice''" by (simp add: sample_task_def)
  ultimately show ?thesis
    using tasks_isolated_by_owner [where i = "''t1''" and p = "''bob''" and ty = "''completion''" and ys = "[TCreate 0 sample_task]"]
    by (auto split: sum.splits)
qed

text \<open>
  C21. A delivered task message settles its task, and a redelivery does nothing: when the handler gets
  a valid message for a task that can be claimed, the completion runs once on the task's payload; on
  success the task is completed with its result, on an exception it is failed with the exception's
  class name only and the message is rejected for good. A second delivery of the same message, at any
  time, returns normally, does not run the completion again and leaves every task as it is.
\<close>

theorem handler_settles_once:
  assumes m: "from_body (qm_body m) = Inr tm"
    and t: "view (pg_tasks_api take) (pg_history ys) (msg_task_id tm) = Some t" "claimable t t0"
    and lease: "0 < ts_lease_seconds cfg" and run: "run_completion (t_payload t) c = (outcome, c')"
  shows "\<exists>r s'. process_message cfg (pg_tasks_api take) run_completion t0 t1 m (pg_history ys, c) = (r, s', c')
     \<and> handled (pg_tasks_api take) (ts_lease_seconds cfg) t0 (msg_task_id tm) t outcome (pg_history ys) (r, s')
     \<and> (\<exists>s''. process_message cfg (pg_tasks_api take) run_completion t2 t3 m (s', c') = (Inr (), s'', c')
          \<and> view (pg_tasks_api take) s'' = view (pg_tasks_api take) s')"
proof -
  have "pg_tasks_abs (pg_history ys) (msg_task_id tm) = Some t"
    using t(1) by (simp add: pg_task.view_abs [OF history_inv(2)])
  from pg_task.handler_law [OF history_inv(2) this t(2) lease, of run_completion c outcome c' t1 t2 t3, OF run]
  show ?thesis unfolding process_message_def m sum.case by blast
qed

theorem handler_settles_once_witness:
  "\<exists>r s'. process_message \<lparr>ts_ttl_seconds = 60, ts_lease_seconds = 10\<rparr> (pg_tasks_api take)
      (\<lambda>b c. (Inr [(''answer'', JStr ''yes'')], c + 1)) 1 2
      \<lparr>qm_id = ''m1'', qm_body = [(''task_id'', JStr ''t1''), (''type'', JStr ''completion'')], qm_receive_count = 1\<rparr>
      (pg_history [TCreate 0 sample_task], 0::nat) = (r, s', 1)
    \<and> handled (pg_tasks_api take) 10 1 ''t1'' sample_task (Inr [(''answer'', JStr ''yes'')])
        (pg_history [TCreate 0 sample_task]) (r, s')"
proof -
  let ?m = "\<lparr>qm_id = ''m1'', qm_body = [(''task_id'', JStr ''t1''), (''type'', JStr ''completion'')], qm_receive_count = 1\<rparr>"
  let ?tm = "\<lparr>msg_task_id = ''t1'', msg_type = ''completion'', msg_request_id = None\<rparr>"
  let ?cfg = "\<lparr>ts_ttl_seconds = 60, ts_lease_seconds = 10\<rparr>"
  have m: "from_body (qm_body ?m) = Inr ?tm" by code_simp
  have t: "view (pg_tasks_api take) (pg_history [TCreate 0 sample_task]) (msg_task_id ?tm) = Some sample_task"
    by code_simp
  have c: "claimable sample_task 1" by code_simp
  have l: "0 < ts_lease_seconds ?cfg" by simp
  from handler_settles_once [OF m t c l, of "\<lambda>b c. (Inr [(''answer'', JStr ''yes'')], c + 1)" "0::nat"
      "Inr [(''answer'', JStr ''yes'')]" 1 2 5 6]
  obtain r s' where "process_message ?cfg (pg_tasks_api take) (\<lambda>b c. (Inr [(''answer'', JStr ''yes'')], c + 1)) 1 2 ?m
      (pg_history [TCreate 0 sample_task], 0::nat) = (r, s', 1)"
    and "handled (pg_tasks_api take) (ts_lease_seconds ?cfg) 1 (msg_task_id ?tm) sample_task
      (Inr [(''answer'', JStr ''yes'')]) (pg_history [TCreate 0 sample_task]) (r, s')" by auto
  then show ?thesis unfolding task_service_cfg.select_convs task_message.select_convs by blast
qed

text \<open>
  What is announced is what the worker reads: every message body that \<open>announce\<close> puts on the
  in-memory queue for a task is read back by the worker's \<open>from_body\<close> as that task's id, type and
  request id; a reference with an empty field is refused before anything is sent.
\<close>

theorem announced_message_roundtrip:
  "announce mem_queue_api uuid i typ req q =
     (if i = '''' \<or> typ = '''' \<or> req = Some '''' then (Inl ValidationError, q)
      else if mq_closed q then (Inl (RuntimeError ''queue is closed''), q)
      else (Inr (), q\<lparr>mq_queue := mq_queue q @
        [\<lparr>qm_id = uuid, qm_body = to_body \<lparr>msg_task_id = i, msg_type = typ, msg_request_id = req\<rparr>,
          qm_receive_count = 1\<rparr>]\<rparr>))
   \<and> (from_body (to_body \<lparr>msg_task_id = i, msg_type = typ, msg_request_id = req\<rparr>) =
        Inr \<lparr>msg_task_id = i, msg_type = typ, msg_request_id = req\<rparr>) = (i \<noteq> '''' \<and> typ \<noteq> '''' \<and> req \<noteq> Some '''')"
  by (cases req) (auto simp: announce_def TaskMessage_def message_valid_def mem_queue_api_def mem_send_def Let_def
      from_body_def to_body_def message_errors_def str_field_errors_def str_field_def dflt_def)

end
