(* ===== verification/Completions.thy ===== *)
theory Completions
  imports Errors
begin

text \<open>
  Completions: request schema, guards and service (\<open>src/app/modules/business/completions/\<close>:
  \<open>schemas.py\<close>, \<open>guards.py\<close>, \<open>service.py\<close>, \<open>handlers/echo.py\<close>), their observations
  (\<open>src/app/core/telemetry.py\<close>), the streaming endpoint (\<open>src/app/api/v1/completions/router.py\<close>) and
  server-sent events (\<open>src/app/api/sse.py\<close>).

  A call that is awaited returns, raises or is cancelled (\<open>CancelledError\<close> is no \<open>Exception\<close>). A
  handler's stream is the list of its steps, each with the time it takes to arrive; a step that takes
  the deadline or longer counts as late. Times of observations other than the time to the first
  token are left out. JSON text is an argument, \<open>dumps\<close>.
\<close>

section \<open>Schemas\<close>

datatype message_role = User | Assistant

record completion_message =
  cm_role :: message_role
  cm_content :: string

record completion_request =
  cr_messages :: "completion_message list"
  cr_metadata :: body

definition MAX_MESSAGES :: nat where "MAX_MESSAGES = 64"
definition MAX_MESSAGE_CHARS :: nat where "MAX_MESSAGE_CHARS = 32000"
definition MAX_METADATA_KEYS :: nat where "MAX_METADATA_KEYS = 32"
definition MAX_METADATA_BYTES :: nat where "MAX_METADATA_BYTES = 4096"

definition message_ok :: "completion_message \<Rightarrow> bool" where
  "message_ok m \<longleftrightarrow> 1 \<le> length (cm_content m) \<and> length (cm_content m) \<le> MAX_MESSAGE_CHARS"

definition bound_metadata :: "(json \<Rightarrow> string) \<Rightarrow> body \<Rightarrow> bool" where
  "bound_metadata dumps md \<longleftrightarrow> length md \<le> MAX_METADATA_KEYS \<and> length (dumps (JObj md)) \<le> MAX_METADATA_BYTES"

definition request_ok :: "(json \<Rightarrow> string) \<Rightarrow> completion_request \<Rightarrow> bool" where
  "request_ok dumps r \<longleftrightarrow> 1 \<le> length (cr_messages r) \<and> length (cr_messages r) \<le> MAX_MESSAGES
     \<and> list_all message_ok (cr_messages r) \<and> bound_metadata dumps (cr_metadata r)"

fun role_str :: "message_role \<Rightarrow> string" where
  "role_str User = ''user''"
| "role_str Assistant = ''assistant''"

definition parse_role :: "json \<Rightarrow> message_role option" where
  "parse_role j = (if j = JStr ''user'' then Some User else if j = JStr ''assistant'' then Some Assistant else None)"

definition keys_within :: "string list \<Rightarrow> body \<Rightarrow> bool" where
  "keys_within ks b \<longleftrightarrow> set (map fst b) \<subseteq> set ks"

definition parse_message :: "json \<Rightarrow> completion_message option" where
  "parse_message j = (case j of
      JObj b \<Rightarrow>
        (case (Option.bind (dict_get b ''role'') parse_role, dict_get b ''content'') of
           (Some r, Some (JStr c)) \<Rightarrow>
             if keys_within [''role'', ''content''] b then Some \<lparr>cm_role = r, cm_content = c\<rparr> else None
         | _ \<Rightarrow> None)
    | _ \<Rightarrow> None)"

fun parse_all :: "('a \<Rightarrow> 'b option) \<Rightarrow> 'a list \<Rightarrow> 'b list option" where
  "parse_all f [] = Some []"
| "parse_all f (x # xs) = (case (f x, parse_all f xs) of (Some y, Some ys) \<Rightarrow> Some (y # ys) | _ \<Rightarrow> None)"

text \<open>\<open>CompletionRequest(**payload)\<close> and the parsing of a request body; \<open>None\<close> is a validation error.\<close>

definition CompletionRequest :: "(json \<Rightarrow> string) \<Rightarrow> body \<Rightarrow> completion_request option" where
  "CompletionRequest dumps b =
     (case dict_get b ''messages'' of
        Some (JList js) \<Rightarrow>
          (case (parse_all parse_message js, dflt (JObj []) (dict_get b ''metadata'')) of
             (Some ms, JObj md) \<Rightarrow>
               (let r = \<lparr>cr_messages = ms, cr_metadata = md\<rparr> in
                if keys_within [''messages'', ''metadata''] b \<and> request_ok dumps r then Some r else None)
           | _ \<Rightarrow> None)
      | _ \<Rightarrow> None)"

definition request_dump :: "completion_request \<Rightarrow> body" where
  "request_dump r =
     [(''messages'', JList (map (\<lambda>m. JObj [(''role'', JStr (role_str (cm_role m))), (''content'', JStr (cm_content m))]) (cr_messages r))),
      (''metadata'', JObj (cr_metadata r))]"

record usage =
  us_input_tokens :: int
  us_output_tokens :: int
  us_total_tokens :: int

record stream_summary =
  ss_usage :: "usage option"
  ss_finish_reason :: "string option"
  ss_model :: "string option"

record completion_result =
  re_content :: string
  re_model :: "string option"
  re_usage :: "usage option"
  re_finish_reason :: "string option"
  re_metadata :: body

record stream_chunk =
  ch_delta :: string
  ch_model :: "string option"
  ch_usage :: "usage option"
  ch_finish_reason :: "string option"
  ch_metadata :: body

definition StreamSummary :: stream_summary where
  "StreamSummary = \<lparr>ss_usage = None, ss_finish_reason = None, ss_model = None\<rparr>"

text \<open>\<open>new or old\<close> of optional strings: an empty string counts as absent.\<close>

definition or_str :: "string option \<Rightarrow> string option \<Rightarrow> string option" where
  "or_str new old = (case new of Some s \<Rightarrow> if s = '''' then old else new | None \<Rightarrow> old)"

definition merge_fields ::
  "string option \<Rightarrow> usage option \<Rightarrow> string option \<Rightarrow> stream_summary \<Rightarrow> stream_summary" where
  "merge_fields m u f s = \<lparr>ss_usage = (case u of Some _ \<Rightarrow> u | None \<Rightarrow> ss_usage s),
     ss_finish_reason = or_str f (ss_finish_reason s), ss_model = or_str m (ss_model s)\<rparr>"

definition merge_chunk :: "stream_chunk \<Rightarrow> stream_summary \<Rightarrow> stream_summary" where
  "merge_chunk c = merge_fields (ch_model c) (ch_usage c) (ch_finish_reason c)"

definition merge_result :: "completion_result \<Rightarrow> stream_summary \<Rightarrow> stream_summary" where
  "merge_result r = merge_fields (re_model r) (re_usage r) (re_finish_reason r)"

section \<open>Guards and observations\<close>

datatype 'a ran = Returned 'a | Raised exn | Cancelled

record 'g guard =
  gd_check_input :: "completion_request \<Rightarrow> 'g \<Rightarrow> unit ran \<times> 'g"
  gd_check_output :: "completion_request \<Rightarrow> completion_result \<Rightarrow> 'g \<Rightarrow> unit ran \<times> 'g"

definition GuardrailViolation :: "string option \<Rightarrow> string option \<Rightarrow> json option \<Rightarrow> exn" where
  "GuardrailViolation message code data = AppError ((UnprocessableEntityError
     (Some (dflt ''Request blocked by guardrail'' message)) (Some (dflt ''guardrail_input_violation'' code)) data)
     \<lparr>ae_class := ''GuardrailViolation''\<rparr>)"

datatype call_mode = Sync | StreamMode
datatype call_outcome = Ok | Error | Timeout | Disconnected

record observation =
  obs_mode :: call_mode
  obs_outcome :: call_outcome
  obs_ttft :: "seconds option"
  obs_model :: "string option"
  obs_finish_reason :: "string option"
  obs_input_tokens :: "int option"
  obs_output_tokens :: "int option"
  obs_total_tokens :: "int option"

definition observe :: "call_mode \<Rightarrow> stream_summary \<Rightarrow> seconds option \<Rightarrow> call_outcome \<Rightarrow> observation" where
  "observe mode s ttft outcome = \<lparr>obs_mode = mode, obs_outcome = outcome, obs_ttft = ttft, obs_model = ss_model s,
     obs_finish_reason = ss_finish_reason s, obs_input_tokens = map_option us_input_tokens (ss_usage s),
     obs_output_tokens = map_option us_output_tokens (ss_usage s), obs_total_tokens = map_option us_total_tokens (ss_usage s)\<rparr>"

text \<open>A sink that fans out hands the observation to each of its sinks in order.\<close>

definition fan_out :: "('k \<Rightarrow> observation \<Rightarrow> 'k) list \<Rightarrow> observation \<Rightarrow> 'k list \<Rightarrow> 'k list" where
  "fan_out sinks obs ks = map2 (\<lambda>f k. f k obs) sinks ks"

section \<open>The service\<close>

record stream_policy =
  first_token_timeout :: seconds
  idle_timeout :: seconds

definition DEFAULT_POLICY :: stream_policy where
  "DEFAULT_POLICY = \<lparr>first_token_timeout = 30, idle_timeout = 30\<rparr>"

definition StreamTimeoutError :: exn where
  "StreamTimeoutError = AppError (mk_app_error ''StreamTimeoutError'' ''stream_timeout'' ''Timed out waiting for the model'' 504 None None)"

fun run_checks :: "('g \<Rightarrow> unit ran \<times> 'g) list \<Rightarrow> 'g \<Rightarrow> unit ran \<times> 'g" where
  "run_checks [] g = (Returned (), g)"
| "run_checks (c # cs) g = (case c g of (Returned _, g') \<Rightarrow> run_checks cs g' | (x, g') \<Rightarrow> (x, g'))"

definition check_input :: "'g guard list \<Rightarrow> completion_request \<Rightarrow> 'g \<Rightarrow> unit ran \<times> 'g" where
  "check_input guards r = run_checks (map (\<lambda>gd. gd_check_input gd r) guards)"

definition check_output :: "'g guard list \<Rightarrow> completion_request \<Rightarrow> completion_result \<Rightarrow> 'g \<Rightarrow> unit ran \<times> 'g" where
  "check_output guards r x = run_checks (map (\<lambda>gd. gd_check_output gd r x) guards)"

text \<open>The \<open>try\<close> block of \<open>complete\<close>; guards act on \<open>'g\<close> and the handler on \<open>'h\<close>.\<close>

definition complete_body ::
  "'g guard list \<Rightarrow> (completion_request \<Rightarrow> 'h \<Rightarrow> completion_result ran \<times> 'h) \<Rightarrow> completion_request \<Rightarrow> 'g \<times> 'h \<Rightarrow>
   completion_result ran \<times> 'g \<times> 'h" where
  "complete_body guards handler r st = (case st of (g, h) \<Rightarrow>
     (case check_input guards r g of
        (Raised e, g1) \<Rightarrow> (Raised e, g1, h)
      | (Cancelled, g1) \<Rightarrow> (Cancelled, g1, h)
      | (Returned _, g1) \<Rightarrow>
         (case handler r h of
            (Raised e, h1) \<Rightarrow> (Raised e, g1, h1)
          | (Cancelled, h1) \<Rightarrow> (Cancelled, g1, h1)
          | (Returned x, h1) \<Rightarrow>
             (case check_output guards r x g1 of
                (Raised e, g2) \<Rightarrow> (Raised e, g2, h1)
              | (Cancelled, g2) \<Rightarrow> (Cancelled, g2, h1)
              | (Returned _, g2) \<Rightarrow> (Returned x, g2, h1)))))"

definition completion_complete ::
  "'g guard list \<Rightarrow> (completion_request \<Rightarrow> 'h \<Rightarrow> completion_result ran \<times> 'h) \<Rightarrow> completion_request \<Rightarrow>
   'g \<times> 'h \<times> observation list \<Rightarrow> completion_result ran \<times> 'g \<times> 'h \<times> observation list" where
  "completion_complete guards handler r st = (case st of (g, h, obs) \<Rightarrow>
     (case complete_body guards handler r (g, h) of
        (Returned x, g', h') \<Rightarrow> (Returned x, g', h', obs @ [observe Sync (merge_result x StreamSummary) None Ok])
      | (Raised e, g', h') \<Rightarrow> (Raised e, g', h', obs @ [observe Sync StreamSummary None Error])
      | (Cancelled, g', h') \<Rightarrow> (Cancelled, g', h', obs @ [observe Sync StreamSummary None Disconnected])))"

datatype stream_step = Arrives seconds stream_chunk | Fails seconds exn | Waits

text \<open>
  How a stream ends for its consumer: exhausted, with an exception, or closed (by the consumer at a
  \<open>yield\<close>, or cancelled while it waits). \<open>Waits\<close> is a wait that is cancelled. \<open>close_after\<close> is the number of
  chunks after which the consumer closes the stream, if it does; a generator that is closed before it was
  ever asked for a chunk runs none of its code.
\<close>

datatype stream_end = Exhausted | Failed exn | Closed

fun stream_loop ::
  "stream_policy \<Rightarrow> seconds \<Rightarrow> nat option \<Rightarrow> stream_step list \<Rightarrow> seconds \<Rightarrow> stream_summary \<Rightarrow> seconds option \<Rightarrow>
   stream_chunk list \<times> stream_end \<times> stream_summary \<times> seconds option" where
  "stream_loop p deadline close_after [] elapsed s ttft = ([], Exhausted, s, ttft)"
| "stream_loop p deadline close_after (Waits # rest) elapsed s ttft = ([], Closed, s, ttft)"
| "stream_loop p deadline close_after (Fails dt e # rest) elapsed s ttft =
     ([], (if dt \<ge> deadline then Failed StreamTimeoutError else Failed e), s, ttft)"
| "stream_loop p deadline close_after (Arrives dt c # rest) elapsed s ttft =
     (if dt \<ge> deadline then ([], Failed StreamTimeoutError, s, ttft)
      else (let s' = merge_chunk c s;
                ttft' = (if ch_delta c \<noteq> '''' \<and> ttft = None then Some (elapsed + dt) else ttft) in
            if close_after = Some 1 then ([c], Closed, s', ttft')
            else (let (cs, fin) = stream_loop p (idle_timeout p) (map_option (\<lambda>n. n - 1) close_after) rest (elapsed + dt) s' ttft'
                  in (c # cs, fin))))"

fun stream_outcome :: "stream_end \<Rightarrow> call_outcome" where
  "stream_outcome Exhausted = Ok"
| "stream_outcome Closed = Disconnected"
| "stream_outcome (Failed (AppError a)) = (if ae_class a = ''StreamTimeoutError'' then Timeout else Error)"
| "stream_outcome (Failed e) = Error"

definition completion_stream ::
  "'g guard list \<Rightarrow> stream_policy \<Rightarrow> nat option \<Rightarrow> stream_step list \<Rightarrow> completion_request \<Rightarrow>
   'g \<times> observation list \<Rightarrow> (stream_chunk list \<times> stream_end) \<times> 'g \<times> observation list" where
  "completion_stream guards p close_after steps r st = (case st of (g, obs) \<Rightarrow>
     if close_after = Some 0 then (([], Closed), g, obs)
     else (case check_input guards r g of
        (Raised e, g') \<Rightarrow> (([], Failed e), g', obs @ [observe StreamMode StreamSummary None (stream_outcome (Failed e))])
      | (Cancelled, g') \<Rightarrow> (([], Closed), g', obs @ [observe StreamMode StreamSummary None Disconnected])
      | (Returned _, g') \<Rightarrow>
          (let (cs, fin, s, ttft) = stream_loop p (first_token_timeout p) close_after steps 0 StreamSummary None in
           ((cs, fin), g', obs @ [observe StreamMode s ttft (stream_outcome fin)]))))"

section \<open>The placeholder handler\<close>

text \<open>\<open>len(text.split())\<close>: the number of runs of characters that are not white space.\<close>

fun word_count :: "bool \<Rightarrow> string \<Rightarrow> int" where
  "word_count in_word [] = 0"
| "word_count in_word (c # s) =
     (if is_space c then word_count False s else (if in_word then 0 else 1) + word_count True s)"

text \<open>A valid request has a last message.\<close>

definition echo_complete :: "completion_request \<Rightarrow> 'h \<Rightarrow> completion_result ran \<times> 'h" where
  "echo_complete r h =
     (let content = ''echo: '' @ cm_content (last (cr_messages r));
          i = sum_list (map (\<lambda>m. word_count False (cm_content m)) (cr_messages r)); out = word_count False content in
      (Returned \<lparr>re_content = content, re_model = Some ''echo'',
          re_usage = Some \<lparr>us_input_tokens = i, us_output_tokens = out, us_total_tokens = i + out\<rparr>,
          re_finish_reason = Some ''stop'', re_metadata = []\<rparr>, h))"

definition echo_stream :: "completion_request \<Rightarrow> stream_step list" where
  "echo_stream r = (case echo_complete r () of
      (Returned x, _) \<Rightarrow> [Arrives 0 \<lparr>ch_delta = re_content x, ch_model = re_model x, ch_usage = re_usage x,
         ch_finish_reason = re_finish_reason x, ch_metadata = []\<rparr>]
    | _ \<Rightarrow> [])"

section \<open>Server-sent events\<close>

record server_sent_event =
  sse_data :: body
  sse_event :: "string option"

definition newline :: string where "newline = [CHR 0x0A]"

definition sse_encode :: "(json \<Rightarrow> string) \<Rightarrow> server_sent_event \<Rightarrow> string" where
  "sse_encode dumps e =
     (case sse_event e of None \<Rightarrow> '''' | Some n \<Rightarrow> if n = '''' then '''' else ''event: '' @ n @ newline)
     @ ''data: '' @ dumps (JObj (sse_data e)) @ newline @ newline"

definition PING :: string where "PING = '': ping'' @ newline @ newline"
definition STREAM_ERROR_CODE :: string where "STREAM_ERROR_CODE = ''stream_error''"

definition error_event :: "string \<Rightarrow> server_sent_event" where
  "error_event code = \<lparr>sse_data = [(''type'', JStr ''error''), (''code'', JStr code)], sse_event = Some ''error''\<rparr>"

definition error_frame :: "(json \<Rightarrow> string) \<Rightarrow> string \<Rightarrow> string" where
  "error_frame dumps code = sse_encode dumps (error_event code)"

fun error_code :: "exn \<Rightarrow> string" where
  "error_code (AppError a) = ae_code a"
| "error_code e = STREAM_ERROR_CODE"

text \<open>
  The frames after the first event is there; \<open>pings k\<close> is the number of heartbeats that pass before the
  \<open>k\<close>-th wait is over. A closed stream writes no more.
\<close>

fun sse_frames ::
  "(json \<Rightarrow> string) \<Rightarrow> (nat \<Rightarrow> nat) \<Rightarrow> nat \<Rightarrow> server_sent_event list \<Rightarrow> stream_end \<Rightarrow> string list" where
  "sse_frames dumps pings k [] (Failed e) = [error_frame dumps (error_code e)]"
| "sse_frames dumps pings k [] _ = []"
| "sse_frames dumps pings k (e # es) fin =
     sse_encode dumps e # replicate (pings k) PING @ sse_frames dumps pings (Suc k) es fin"

text \<open>The response, or the exception that the normal error handlers answer.\<close>

definition event_stream_response ::
  "(json \<Rightarrow> string) \<Rightarrow> (nat \<Rightarrow> nat) \<Rightarrow> server_sent_event list \<times> stream_end \<Rightarrow> string list ran" where
  "event_stream_response dumps pings events = (case events of
      ([], Failed e) \<Rightarrow> Raised e
    | ([], Closed) \<Rightarrow> Cancelled
    | ([], Exhausted) \<Rightarrow> Raised (Foreign (plain_view ''StopAsyncIteration'' exception_bases))
    | (es, fin) \<Rightarrow> Returned (sse_frames dumps pings 0 es fin))"

definition usage_json :: "usage \<Rightarrow> json" where
  "usage_json u = JObj [(''input_tokens'', JInt (us_input_tokens u)), (''output_tokens'', JInt (us_output_tokens u)),
     (''total_tokens'', JInt (us_total_tokens u))]"

definition done_event :: "stream_summary \<Rightarrow> server_sent_event" where
  "done_event s = \<lparr>sse_data = (''type'', JStr ''done'')
       # (case ss_usage s of None \<Rightarrow> [] | Some u \<Rightarrow> [(''usage'', usage_json u)])
       @ (case ss_finish_reason s of None \<Rightarrow> [] | Some f \<Rightarrow> [(''finish_reason'', JStr f)])
       @ (case ss_model s of None \<Rightarrow> [] | Some m \<Rightarrow> [(''model'', JStr m)]), sse_event = None\<rparr>"

definition delta_event :: "stream_chunk \<Rightarrow> server_sent_event" where
  "delta_event c = \<lparr>sse_data = [(''type'', JStr ''content.delta''), (''delta'', JStr (ch_delta c)), (''metadata'', JObj (ch_metadata c))],
     sse_event = None\<rparr>"

text \<open>The events of a stream of chunks; the last one is sent only when the stream was exhausted.\<close>

definition stream_events :: "stream_chunk list \<times> stream_end \<Rightarrow> server_sent_event list \<times> stream_end" where
  "stream_events st = (case st of (cs, fin) \<Rightarrow>
     (map delta_event (filter (\<lambda>c. ch_delta c \<noteq> '''') cs)
      @ (if fin = Exhausted then [done_event (fold merge_chunk cs StreamSummary)] else []), fin))"

section \<open>A reader of event streams\<close>

text \<open>
  How a client reads the text: lines, with \<open>:\<close> starting a comment; an empty line dispatches the event if
  data came.
\<close>

fun sse_lines :: "string option \<times> string option \<Rightarrow> string list \<Rightarrow> (string option \<times> string) list" where
  "sse_lines (ev, dat) [] = []"
| "sse_lines (ev, dat) (l # ls) =
     (if l = '''' then (case dat of None \<Rightarrow> sse_lines (None, None) ls | Some d \<Rightarrow> (ev, d) # sse_lines (None, None) ls)
      else if starts_with '':'' l then sse_lines (ev, dat) ls
      else if starts_with ''event: '' l then sse_lines (Some (drop 7 l), dat) ls
      else if starts_with ''data: '' l then sse_lines (ev, Some (drop 6 l)) ls
      else sse_lines (ev, dat) ls)"

definition sse_parse :: "string \<Rightarrow> (string option \<times> string) list" where
  "sse_parse text = sse_lines (None, None) (split_on (CHR 0x0A) text)"

definition sse_read :: "(json \<Rightarrow> string) \<Rightarrow> server_sent_event \<Rightarrow> string option \<times> string" where
  "sse_read dumps e = (sse_event e, dumps (JObj (sse_data e)))"

definition sse_plain :: "server_sent_event \<Rightarrow> bool" where
  "sse_plain e \<longleftrightarrow> (case sse_event e of None \<Rightarrow> True | Some n \<Rightarrow> n \<noteq> '''' \<and> CHR 0x0A \<notin> set n)"

lemma parse_frame:
  assumes d: "\<And>j. CHR 0x0A \<notin> set (dumps j)" and e: "sse_plain e"
  shows "sse_lines (None, None) (split_on (CHR 0x0A) (sse_encode dumps e @ rest)) =
     sse_read dumps e # sse_lines (None, None) (split_on (CHR 0x0A) rest)"
proof -
  let ?d = "dumps (JObj (sse_data e))" and ?n = "CHR 0x0A"
  have dl: "?n \<notin> set (''data: '' @ ?d)" using d by simp
  have data: "split_on ?n ((''data: '' @ ?d) @ ?n # [] @ ?n # rest) = (''data: '' @ ?d) # [] # split_on ?n rest"
    by (subst split_on_append_sep [OF dl], subst split_on_append_sep) simp_all
  have sw: "starts_with ''data: '' (''data: '' @ ?d)" "\<not> starts_with '':'' (''data: '' @ ?d)" "\<not> starts_with ''event: '' (''data: '' @ ?d)"
    by simp_all
  show ?thesis
  proof (cases "sse_event e")
    case None
    then show ?thesis using data sw by (simp add: sse_encode_def newline_def sse_read_def)
  next
    case (Some n)
    then have n: "n \<noteq> ''''" "?n \<notin> set (''event: '' @ n)" using e by (simp_all add: sse_plain_def)
    have "split_on ?n ((''event: '' @ n) @ ?n # (''data: '' @ ?d) @ ?n # [] @ ?n # rest) =
        (''event: '' @ n) # (''data: '' @ ?d) # [] # split_on ?n rest"
      by (subst split_on_append_sep [OF n(2)], subst data) simp
    then show ?thesis using Some n(1) by (simp add: sse_encode_def newline_def sse_read_def)
  qed
qed

lemma parse_pings:
  "sse_lines (None, None) (split_on (CHR 0x0A) (concat (replicate n PING) @ rest)) =
     sse_lines (None, None) (split_on (CHR 0x0A) rest)"
proof (induction n)
  case (Suc n)
  have "split_on (CHR 0x0A) ('': ping'' @ CHR 0x0A # [] @ CHR 0x0A # t) = '': ping'' # [] # split_on (CHR 0x0A) t" for t
    by (subst split_on_append_sep, simp, subst split_on_append_sep) simp_all
  with Suc show ?case by (simp add: PING_def newline_def)
qed simp

lemma parse_frames:
  assumes d: "\<And>j. CHR 0x0A \<notin> set (dumps j)" and es: "list_all sse_plain es"
  shows "sse_parse (concat (sse_frames dumps pings k es fin)) =
     map (sse_read dumps) es @ (case fin of Failed e \<Rightarrow> [sse_read dumps (error_event (error_code e))] | _ \<Rightarrow> [])"
  using es
proof (induction es arbitrary: k)
  case Nil
  have "sse_plain (error_event c)" for c by (simp add: error_event_def sse_plain_def)
  then show ?case
    using parse_frame [OF d, where rest = "[]"]
    by (cases fin) (simp_all add: sse_parse_def error_frame_def)
next
  case (Cons e es)
  from Cons.prems have e: "sse_plain e" and rest: "list_all sse_plain es" by simp_all
  show ?case
    using Cons.IH [OF rest, of "Suc k"] parse_frame [OF d e] parse_pings by (simp add: sse_parse_def)
qed

section \<open>Properties\<close>

text \<open>
  Checks that all pass, one after the other, each in the state the one before left; and checks of which one does not pass (the first such,
  ending in \<open>y\<close>).
\<close>

definition passed :: "('g \<Rightarrow> unit ran \<times> 'g) list \<Rightarrow> 'g \<Rightarrow> 'g \<Rightarrow> bool" where
  "passed cs g g' \<longleftrightarrow> (\<exists>gs. length gs = Suc (length cs) \<and> gs ! 0 = g \<and> gs ! length cs = g'
     \<and> (\<forall>k < length cs. (cs ! k) (gs ! k) = (Returned (), gs ! Suc k)))"

definition blocked :: "('g \<Rightarrow> unit ran \<times> 'g) list \<Rightarrow> 'g \<Rightarrow> unit ran \<Rightarrow> bool" where
  "blocked cs g y \<longleftrightarrow> y \<noteq> Returned () \<and> (\<exists>k < length cs. \<exists>gk. passed (take k cs) g gk \<and> fst ((cs ! k) gk) = y)"

fun stopped :: "unit ran \<Rightarrow> 'a ran \<Rightarrow> bool" where
  "stopped (Raised e) x = (x = Raised e)"
| "stopped Cancelled x = (x = Cancelled)"
| "stopped (Returned _) x = False"

lemma passed_Nil [simp]: "passed [] g g' \<longleftrightarrow> g' = g"
  by (auto simp: passed_def intro: exI [of _ "[g]"])

lemma passed_Nil_ex [simp]: "Ex (passed [] g)"
  by auto

lemma passed_Cons: "passed (c # cs) g g' \<longleftrightarrow> (\<exists>g1. c g = (Returned (), g1) \<and> passed cs g1 g')"
proof
  assume "passed (c # cs) g g'"
  then obtain gs where gs: "length gs = Suc (Suc (length cs))" "gs ! 0 = g" "gs ! Suc (length cs) = g'"
    "\<forall>k < Suc (length cs). ((c # cs) ! k) (gs ! k) = (Returned (), gs ! Suc k)" by (auto simp: passed_def)
  have "c g = (Returned (), tl gs ! 0)" using gs(4) [rule_format, of 0] gs(1,2) by (simp add: nth_tl)
  moreover have "passed cs (tl gs ! 0) g'"
    unfolding passed_def
    by (intro exI [of _ "tl gs"]) (use gs(1,3) gs(4) [rule_format, of "Suc _"] in \<open>auto simp: nth_tl\<close>)
  ultimately show "\<exists>g1. c g = (Returned (), g1) \<and> passed cs g1 g'" by blast
next
  assume "\<exists>g1. c g = (Returned (), g1) \<and> passed cs g1 g'"
  then obtain gs where gs: "length gs = Suc (length cs)" "c g = (Returned (), gs ! 0)" "gs ! length cs = g'"
    "\<forall>k < length cs. (cs ! k) (gs ! k) = (Returned (), gs ! Suc k)" by (auto simp: passed_def)
  then show "passed (c # cs) g g'"
    unfolding passed_def by (intro exI [of _ "g # gs"]) (auto simp: nth_Cons split: nat.splits)
qed

lemma run_checks_passed: "run_checks cs g = (Returned (), g') \<longleftrightarrow> passed cs g g'"
proof (induction cs arbitrary: g)
  case (Cons c cs)
  then show ?case by (cases "c g"; cases "fst (c g)") (auto simp: passed_Cons)
qed auto

lemma run_checks_blocked: "blocked cs g y \<Longrightarrow> fst (run_checks cs g) = y"
proof -
  assume "blocked cs g y"
  then obtain k gk where k: "y \<noteq> Returned ()" "k < length cs" "passed (take k cs) g gk" "fst ((cs ! k) gk) = y"
    by (auto simp: blocked_def)
  from k(2-4) show "fst (run_checks cs g) = y"
  proof (induction cs arbitrary: g k)
    case (Cons c cs)
    show ?case
    proof (cases k)
      case 0
      with Cons.prems k(1) show ?thesis by (cases "c g"; cases "fst (c g)") auto
    next
      case (Suc j)
      with Cons.prems(2) obtain g1 where "c g = (Returned (), g1)" "passed (take j cs) g1 gk" by (auto simp: passed_Cons)
      with Cons.IH [of j g1] Cons.prems(1,3) Suc show ?thesis by simp
    qed
  qed simp
qed

lemma run_checks_cases: "(\<exists>g'. passed cs g g') \<or> (\<exists>y. blocked cs g y)"
proof (induction cs arbitrary: g)
  case (Cons c cs)
  obtain y g1 where c: "c g = (y, g1)" by (cases "c g")
  show ?case
  proof (cases "y = Returned ()")
    case True
    from Cons [of g1] show ?thesis
    proof
      assume "\<exists>g'. passed cs g1 g'"
      with c True show ?thesis by (auto simp: passed_Cons)
    next
      assume "\<exists>y. blocked cs g1 y"
      then obtain y k gk where "y \<noteq> Returned ()" "k < length cs" "passed (take k cs) g1 gk" "fst ((cs ! k) gk) = y"
        by (auto simp: blocked_def)
      with c True have "blocked (c # cs) g y"
        unfolding blocked_def by (intro conjI exI [of _ "Suc k"] exI [of _ gk]) (auto simp: passed_Cons)
      then show ?thesis by blast
    qed
  next
    case False
    with c have "blocked (c # cs) g y" unfolding blocked_def by (intro conjI exI [of _ 0] exI [of _ g]) auto
    then show ?thesis by blast
  qed
qed simp

abbreviation input_checks :: "'g guard list \<Rightarrow> completion_request \<Rightarrow> ('g \<Rightarrow> unit ran \<times> 'g) list" where
  "input_checks guards r \<equiv> map (\<lambda>gd. gd_check_input gd r) guards"

abbreviation output_checks :: "'g guard list \<Rightarrow> completion_request \<Rightarrow> completion_result \<Rightarrow> ('g \<Rightarrow> unit ran \<times> 'g) list" where
  "output_checks guards r res \<equiv> map (\<lambda>gd. gd_check_output gd r res) guards"

lemma complete_body_cases:
  assumes "complete_body guards handler r (g, h) = (x, g', h')"
  shows "(\<exists>y. blocked (input_checks guards r) g y \<and> stopped y x \<and> h' = h)
     \<or> (\<exists>g1. passed (input_checks guards r) g g1
          \<and> ((\<exists>e. handler r h = (Raised e, h') \<and> x = Raised e) \<or> handler r h = (Cancelled, h') \<and> x = Cancelled
             \<or> (\<exists>res. handler r h = (Returned res, h') \<and>
                  (x = Returned res \<and> passed (output_checks guards r res) g1 g'
                   \<or> (\<exists>y. blocked (output_checks guards r res) g1 y \<and> stopped y x)))))"
proof -
  have stop: "\<exists>y. blocked cs k y \<and> stopped y (z :: completion_result ran)"
    if "run_checks cs k = (y, k')" "y \<noteq> Returned ()" "stopped y z" for cs and k k' :: 'a and y z
  proof -
    have "\<not> passed cs k k''" for k'' using that(1,2) run_checks_passed [of cs k k''] by auto
    then obtain y' where "blocked cs k y'" using run_checks_cases [of cs k] by blast
    with run_checks_blocked [OF this] that show ?thesis by auto
  qed
  obtain a g1 where i: "run_checks (input_checks guards r) g = (a, g1)" by fastforce
  show ?thesis
  proof (cases "a = Returned ()")
    case False
    with assms i have "stopped a x" "h' = h" by (cases a; auto simp: complete_body_def check_input_def)+
    with stop [OF i False] show ?thesis by blast
  next
    case True
    with i have p: "passed (input_checks guards r) g g1" by (simp add: run_checks_passed)
    obtain b h1 where hd: "handler r h = (b, h1)" by (cases "handler r h")
    show ?thesis
    proof (cases b)
      case (Returned res)
      obtain c g2 where o: "run_checks (output_checks guards r res) g1 = (c, g2)" by fastforce
      show ?thesis
      proof (cases "c = Returned ()")
        case pass: True
        then have "passed (output_checks guards r res) g1 g2" using o by (simp add: run_checks_passed)
        with assms i True p hd Returned o pass show ?thesis
          by (auto simp: complete_body_def check_input_def check_output_def)
      next
        case False
        with assms i True hd Returned o have "stopped c x" "h' = h1"
          by (cases c; auto simp: complete_body_def check_input_def check_output_def)+
        with stop [OF o False] hd Returned p show ?thesis by blast
      qed
    qed (use assms i True p hd in \<open>auto simp: complete_body_def check_input_def\<close>)
  qed
qed

lemma passed_not_blocked: "passed cs g g' \<Longrightarrow> \<not> blocked cs g y"
proof
  assume p: "passed cs g g'" and b: "blocked cs g y"
  have "fst (run_checks cs g) = Returned ()" using p by (simp flip: run_checks_passed)
  with run_checks_blocked [OF b] b show False by (simp add: blocked_def)
qed

lemma blocked_unique: "blocked cs g y \<Longrightarrow> blocked cs g z \<Longrightarrow> y = z"
  using run_checks_blocked [of cs g y] run_checks_blocked [of cs g z] by simp

lemma passed_unique: "passed cs g g1 \<Longrightarrow> passed cs g g2 \<Longrightarrow> g1 = g2"
  using run_checks_passed [of cs g] by (metis prod.inject)

text \<open>
  C27. Completions fail closed. A result is returned exactly when every input guard passed in turn, the handler then returned that very
  result, and every output guard passed, in turn, on that result and in the state it was run in. When an input guard does not pass, the
  call ends as that guard did and the handler was not run; when an output guard does not pass the handler's result, the call ends as that
  guard did. Every call records exactly one observation: \<open>ok\<close> with the summary of the result when one is returned, otherwise \<open>error\<close> or, when
  cancelled, \<open>disconnected\<close>, with an empty summary.
\<close>

theorem completion_fails_closed:
  assumes run: "completion_complete guards handler r (g, h, obs) = (x, g', h', obs')"
  shows "(x = Returned res \<longleftrightarrow> (\<exists>g1 g2 h1. passed (map (\<lambda>gd. gd_check_input gd r) guards) g g1 \<and> handler r h = (Returned res, h1)
          \<and> passed (map (\<lambda>gd. gd_check_output gd r res) guards) g1 g2))
     \<and> (blocked (map (\<lambda>gd. gd_check_input gd r) guards) g y \<longrightarrow> stopped y x \<and> h' = h)
     \<and> (passed (map (\<lambda>gd. gd_check_input gd r) guards) g g1 \<and> handler r h = (Returned res, h1)
          \<and> blocked (map (\<lambda>gd. gd_check_output gd r res) guards) g1 y \<longrightarrow> stopped y x)
     \<and> obs' = obs @ [case x of
          Returned out \<Rightarrow> observe Sync (merge_result out StreamSummary) None Ok
        | Raised e \<Rightarrow> observe Sync StreamSummary None Error
        | Cancelled \<Rightarrow> observe Sync StreamSummary None Disconnected]"
proof -
  let ?in = "input_checks guards r" and ?out = "output_checks guards r res"
  have body: "complete_body guards handler r (g, h) = (x, g', h')"
    and obs: "obs' = obs @ [case x of
          Returned out \<Rightarrow> observe Sync (merge_result out StreamSummary) None Ok
        | Raised e \<Rightarrow> observe Sync StreamSummary None Error
        | Cancelled \<Rightarrow> observe Sync StreamSummary None Disconnected]"
    using run by (auto simp: completion_complete_def split: prod.splits ran.splits)
  note cases = complete_body_cases [OF body]
  have no: "\<not> stopped z (Returned u)" for z and u :: completion_result by (cases z) auto
  have "x = Returned res \<longleftrightarrow> (\<exists>g1 g2 h1. passed ?in g g1 \<and> handler r h = (Returned res, h1) \<and> passed ?out g1 g2)"
  proof
    assume "x = Returned res"
    with cases no show "\<exists>g1 g2 h1. passed ?in g g1 \<and> handler r h = (Returned res, h1) \<and> passed ?out g1 g2" by auto
  next
    assume "\<exists>g1 g2 h1. passed ?in g g1 \<and> handler r h = (Returned res, h1) \<and> passed ?out g1 g2"
    then obtain k1 k2 h1 where k: "passed ?in g k1" "handler r h = (Returned res, h1)" "passed ?out k1 k2" by blast
    from cases passed_not_blocked [OF k(1)] k(2) obtain g1 where
      "passed ?in g g1" "x = Returned res \<or> (\<exists>y. blocked ?out g1 y)" by auto
    with passed_unique [OF k(1)] passed_not_blocked [OF k(3)] show "x = Returned res" by blast
  qed
  moreover have "stopped y x \<and> h' = h" if "blocked ?in g y"
  proof -
    have "\<not> passed ?in g k" for k using passed_not_blocked [of ?in g k y] that by blast
    with cases obtain y' where "blocked ?in g y'" "stopped y' x" "h' = h" by blast
    with blocked_unique [OF that] show ?thesis by simp
  qed
  moreover have "stopped y x" if p: "passed ?in g g1" "handler r h = (Returned res, h1)" and b: "blocked ?out g1 y"
  proof -
    from cases passed_not_blocked [OF p(1)] p(2) obtain k where
      k: "passed ?in g k" "passed ?out k g' \<or> (\<exists>y. blocked ?out k y \<and> stopped y x)" by auto
    have "k = g1" using passed_unique [OF p(1) k(1)] by simp
    moreover have "\<not> passed ?out g1 g'" using passed_not_blocked [of ?out g1 g' y] b by blast
    ultimately obtain y' where "blocked ?out g1 y'" "stopped y' x" using k(2) by blast
    with blocked_unique [OF b] show ?thesis by simp
  qed
  ultimately show ?thesis using obs by blast
qed

definition sample_request :: completion_request where
  "sample_request = \<lparr>cr_messages = [\<lparr>cm_role = User, cm_content = ''hello there''\<rparr>], cr_metadata = []\<rparr>"

definition blocking_guard :: "unit guard" where
  "blocking_guard = \<lparr>gd_check_input = (\<lambda>r g. (Raised (GuardrailViolation None None None), g)),
     gd_check_output = (\<lambda>r x g. (Returned (), g))\<rparr>"

theorem completion_fails_closed_witness:
  "let (x, g', h', obs') = completion_complete [blocking_guard] (\<lambda>r h. echo_complete r (h + 1)) sample_request ((), 0::nat, []) in
   x = Raised (GuardrailViolation None None None) \<and> h' = 0"
proof -
  let ?run = "completion_complete [blocking_guard] (\<lambda>r h. echo_complete r (h + 1)) sample_request ((), 0::nat, [])"
  have "?run = (fst ?run, fst (snd ?run), fst (snd (snd ?run)), snd (snd (snd ?run)))" by (metis surjective_pairing)
  note law = completion_fails_closed [OF this, THEN conjunct2, THEN conjunct1, THEN mp]
  have "blocked (map (\<lambda>gd. gd_check_input gd sample_request) [blocking_guard]) () (Raised (GuardrailViolation None None None))"
    by (simp add: blocked_def blocking_guard_def)
  from law [OF this] have "stopped (Raised (GuardrailViolation None None None)) (fst ?run) \<and> fst (snd (snd ?run)) = 0" .
  then show ?thesis by (simp add: split_def Let_def)
qed

text \<open>Why a stream of the steps \<open>steps\<close> ended after \<open>n\<close> chunks, when the wait for the next chunk had the deadline \<open>dl\<close>.\<close>

definition ended :: "nat option \<Rightarrow> stream_step list \<Rightarrow> seconds \<Rightarrow> nat \<Rightarrow> stream_end \<Rightarrow> bool" where
  "ended close_after steps dl n fin \<longleftrightarrow>
     (if 0 < n \<and> close_after = Some n then fin = Closed
      else if n = length steps then fin = Exhausted
      else (case steps ! n of
          Waits \<Rightarrow> fin = Closed
        | Fails dt e \<Rightarrow> fin = Failed (if dl \<le> dt then StreamTimeoutError else e)
        | Arrives dt c \<Rightarrow> dl \<le> dt \<and> fin = Failed StreamTimeoutError))"

lemma stream_loop_law:
  "stream_loop p deadline ca steps t s ttft = (cs, fin, s', ttft') \<Longrightarrow> ca \<noteq> Some 0 \<Longrightarrow>
     s' = fold merge_chunk cs s \<and> length cs \<le> length steps
     \<and> (\<forall>i < length cs. \<exists>dt. steps ! i = Arrives dt (cs ! i) \<and> dt < (if i = 0 then deadline else idle_timeout p))
     \<and> ended ca steps (if cs = [] then deadline else idle_timeout p) (length cs) fin"
proof (induction p deadline ca steps t s ttft arbitrary: cs rule: stream_loop.induct)
  case (4 p deadline ca dt c rest t s ttft)
  show ?case
  proof (cases "dt \<ge> deadline \<or> ca = Some 1")
    case True
    show ?thesis
    proof (cases "dt \<ge> deadline")
      case True
      with 4(2) show ?thesis by (auto simp: ended_def)
    next
      case False
      with True 4(2) have "cs = [c]" "fin = Closed" "s' = merge_chunk c s" "ca = Some 1" by (auto simp: Let_def)
      with False show ?thesis by (simp add: ended_def)
    qed
  next
    case False
    let ?s = "merge_chunk c s" and ?tt = "if ch_delta c \<noteq> '''' \<and> ttft = None then Some (t + dt) else ttft"
    let ?ca = "map_option (\<lambda>n. n - 1) ca"
    obtain ds where ds: "cs = c # ds"
      "stream_loop p (idle_timeout p) ?ca rest (t + dt) ?s ?tt = (ds, fin, s', ttft')"
      using 4(2) False by (auto simp: Let_def split: prod.splits if_splits)
    have ca: "?ca \<noteq> Some 0" using 4(3) False by (cases ca) auto
    from 4(1) [OF _ refl refl _ ds(2) ca] False have IH: "s' = fold merge_chunk ds ?s" "length ds \<le> length rest"
      "\<forall>i < length ds. \<exists>u. rest ! i = Arrives u (ds ! i) \<and> u < (if i = 0 then idle_timeout p else idle_timeout p)"
      "ended ?ca rest (idle_timeout p) (length ds) fin" by auto
    have "ended ca (Arrives dt c # rest) (idle_timeout p) (Suc (length ds)) fin"
      using IH(4) False 4(3) by (cases ca) (auto simp: ended_def split: if_splits stream_step.splits)
    then show ?thesis using False IH(1-3) by (auto simp: ds(1) nth_Cons split: nat.splits)
  qed
qed (auto simp: ended_def split: if_splits)

text \<open>
  C28. A stream is observed once and never waits past its deadlines. The chunks a caller gets are the handler's own, from the first on and
  in order, each in time (the first within the first-token timeout, the others within the idle timeout), and \<open>ended\<close> says why there are
  no more: the consumer closed the stream or was cancelled while waiting, the handler's stream was exhausted or failed, or the next step
  came too late. There is one observation, with the summary of exactly those chunks, and its outcome is \<open>ok\<close> exactly when the stream
  was exhausted, \<open>timeout\<close> exactly when it failed with a stream timeout, \<open>error\<close> exactly when it failed otherwise, and
  \<open>disconnected\<close> exactly when it was closed. When an input guard does not pass, nothing is yielded and the stream ends as that guard did.
  (A stream that is closed before its first chunk was asked for, \<open>close_after = Some 0\<close>, runs no code and is not observed.)
\<close>

theorem stream_observed_once:
  assumes run: "completion_stream guards p close_after steps r (g, obs) = ((cs, fin), g', obs')"
  shows "if close_after = Some 0 then cs = [] \<and> fin = Closed \<and> g' = g \<and> obs' = obs
     else (\<exists>o1. obs' = obs @ [o1] \<and> (\<exists>ttft outcome. o1 = observe StreamMode (fold merge_chunk cs StreamSummary) ttft outcome
         \<and> (outcome = Ok \<longleftrightarrow> fin = Exhausted) \<and> (outcome = Disconnected \<longleftrightarrow> fin = Closed)
         \<and> (outcome = Timeout \<longleftrightarrow> (\<exists>a. fin = Failed (AppError a) \<and> ae_class a = ''StreamTimeoutError''))
         \<and> (outcome = Error \<longleftrightarrow> (\<exists>e. fin = Failed e \<and> (\<forall>a. e = AppError a \<longrightarrow> ae_class a \<noteq> ''StreamTimeoutError'')))))
     \<and> (\<forall>i < length cs. i < length steps \<and> (\<exists>dt. steps ! i = Arrives dt (cs ! i)
          \<and> dt < (if i = 0 then first_token_timeout p else idle_timeout p)))
     \<and> (case fst (check_input guards r g) of
          Returned _ \<Rightarrow> ended close_after steps (if cs = [] then first_token_timeout p else idle_timeout p) (length cs) fin
        | Raised e \<Rightarrow> cs = [] \<and> fin = Failed e
        | Cancelled \<Rightarrow> cs = [] \<and> fin = Closed)"
proof (cases "close_after = Some 0")
  case True
  with run show ?thesis by (simp add: completion_stream_def)
next
  case False
  have oc: "(stream_outcome f = Ok \<longleftrightarrow> f = Exhausted) \<and> (stream_outcome f = Disconnected \<longleftrightarrow> f = Closed)
     \<and> (stream_outcome f = Timeout \<longleftrightarrow> (\<exists>a. f = Failed (AppError a) \<and> ae_class a = ''StreamTimeoutError''))
     \<and> (stream_outcome f = Error \<longleftrightarrow> (\<exists>e. f = Failed e \<and> (\<forall>a. e = AppError a \<longrightarrow> ae_class a \<noteq> ''StreamTimeoutError'')))" for f
    by (cases f rule: stream_outcome.cases) auto
  obtain a g1 where i: "check_input guards r g = (a, g1)" by (cases "check_input guards r g")
  show ?thesis
  proof (cases a)
    case (Returned u)
    obtain s ttft where l: "stream_loop p (first_token_timeout p) close_after steps 0 StreamSummary None = (cs, fin, s, ttft)"
      and o: "obs' = obs @ [observe StreamMode s ttft (stream_outcome fin)]"
      using run i Returned False by (auto simp: completion_stream_def Let_def split: prod.splits)
    note law = stream_loop_law [OF l False]
    then have o1: "obs' = obs @ [observe StreamMode (fold merge_chunk cs StreamSummary) ttft (stream_outcome fin)]" using o by simp
    have "\<forall>i < length cs. i < length steps" using law by auto
    then show ?thesis unfolding if_not_P [OF False] i fst_conv Returned ran.case o1
      by (intro conjI exI [of _ "observe StreamMode (fold merge_chunk cs StreamSummary) ttft (stream_outcome fin)"] exI [of _ ttft]
          exI [of _ "stream_outcome fin"] refl) (use oc [of fin] law in blast)+
  next
    case (Raised e)
    with run i False have "cs = []" "fin = Failed e" "obs' = obs @ [observe StreamMode (fold merge_chunk cs StreamSummary) None (stream_outcome fin)]"
      by (auto simp: completion_stream_def)
    then show ?thesis unfolding if_not_P [OF False] i fst_conv Raised ran.case
      by (intro conjI exI [of _ "observe StreamMode (fold merge_chunk cs StreamSummary) None (stream_outcome fin)"] exI [of _ None]
          exI [of _ "stream_outcome fin"] refl) (use oc [of fin] in \<open>auto\<close>)
  next
    case Cancelled
    with run i False have "cs = []" "fin = Closed" "obs' = obs @ [observe StreamMode (fold merge_chunk cs StreamSummary) None (stream_outcome fin)]"
      by (auto simp: completion_stream_def)
    then show ?thesis unfolding if_not_P [OF False] i fst_conv Cancelled ran.case
      by (intro conjI exI [of _ "observe StreamMode (fold merge_chunk cs StreamSummary) None (stream_outcome fin)"] exI [of _ None]
          exI [of _ "stream_outcome fin"] refl) (use oc [of fin] in \<open>auto\<close>)
  qed
qed

theorem stream_observed_once_witness:
  "let ((cs, fin), g', obs') = completion_stream ([] :: unit guard list) DEFAULT_POLICY None [Arrives 1 \<lparr>ch_delta = ''a'', ch_model = None,
       ch_usage = None, ch_finish_reason = None, ch_metadata = []\<rparr>, Arrives 31 \<lparr>ch_delta = ''b'', ch_model = None,
       ch_usage = None, ch_finish_reason = None, ch_metadata = []\<rparr>] sample_request ((), []) in
   length cs = 1 \<and> fin = Failed StreamTimeoutError \<and> map obs_outcome obs' = [Timeout]"
proof -
  let ?steps = "[Arrives 1 \<lparr>ch_delta = ''a'', ch_model = None, ch_usage = None, ch_finish_reason = None, ch_metadata = []\<rparr>,
     Arrives 31 \<lparr>ch_delta = ''b'', ch_model = None, ch_usage = None, ch_finish_reason = None, ch_metadata = []\<rparr>]"
  let ?run = "completion_stream ([] :: unit guard list) DEFAULT_POLICY None ?steps sample_request ((), [])"
  have v: "length (fst (fst ?run)) = 1" "snd (fst ?run) = Failed StreamTimeoutError" by code_simp+
  have "?run = ((fst (fst ?run), snd (fst ?run)), fst (snd ?run), snd (snd ?run))" by (metis surjective_pairing)
  from stream_observed_once [OF this] have "\<exists>o1 s ttft. snd (snd ?run) = [] @ [o1] \<and> o1 = observe StreamMode s ttft Timeout"
    unfolding v(2) StreamTimeoutError_def by (auto simp: mk_app_error_def)
  then have "map obs_outcome (snd (snd ?run)) = [Timeout]" by (auto simp: observe_def)
  with v show ?thesis by (simp only: split_def Let_def)
qed

text \<open>
  C29. What the client reads is what was streamed: whenever a streaming response is returned, reading
  its text as server-sent events gives the non-empty deltas in order, then the summary if the stream
  was exhausted, or one \<open>error\<close> event if it failed, whose code is that of the application error and
  never the text of an exception. Heartbeats do not show. The JSON text must not contain a line break,
  which JSON encoders escape.
\<close>

theorem sse_roundtrip:
  assumes nl: "\<And>j. CHR 0x0A \<notin> set (dumps j)"
    and resp: "event_stream_response dumps pings (stream_events (cs, fin)) = Returned frames"
  shows "sse_parse (concat frames) =
     map (\<lambda>c. (None, dumps (JObj (sse_data (delta_event c))))) (filter (\<lambda>c. ch_delta c \<noteq> '''') cs)
     @ (case fin of
          Exhausted \<Rightarrow> [(None, dumps (JObj (sse_data (done_event (fold merge_chunk cs StreamSummary)))))]
        | Failed e \<Rightarrow> [(Some ''error'', dumps (JObj [(''type'', JStr ''error''), (''code'', JStr (error_code e))]))]
        | Closed \<Rightarrow> [])"
proof -
  let ?es = "fst (stream_events (cs, fin))"
  have fin: "snd (stream_events (cs, fin)) = fin" by (simp add: stream_events_def)
  have plain: "list_all sse_plain ?es"
    by (auto simp: stream_events_def list_all_iff sse_plain_def delta_event_def done_event_def)
  have "frames = sse_frames dumps pings 0 ?es fin"
    using resp fin by (auto simp: event_stream_response_def split: prod.splits list.splits stream_end.splits)
  then show ?thesis
    using parse_frames [OF nl plain, where pings = pings and k = 0 and fin = fin]
    by (auto simp: stream_events_def sse_read_def delta_event_def done_event_def error_event_def o_def split: stream_end.splits)
qed

theorem sse_roundtrip_witness:
  "\<exists>frames. event_stream_response (\<lambda>_. ''{}'') (\<lambda>_. 2) (stream_events ([\<lparr>ch_delta = ''hi'', ch_model = None, ch_usage = None,
       ch_finish_reason = None, ch_metadata = []\<rparr>], Failed TimeoutError)) = Returned frames
     \<and> sse_parse (concat frames) = [(None, ''{}''), (Some ''error'', ''{}'')]"
proof -
  let ?c = "\<lparr>ch_delta = ''hi'', ch_model = None, ch_usage = None, ch_finish_reason = None, ch_metadata = []\<rparr>"
  obtain frames where f: "event_stream_response (\<lambda>_. ''{}'') (\<lambda>_. 2) (stream_events ([?c], Failed TimeoutError)) = Returned frames"
    by (simp add: event_stream_response_def stream_events_def)
  have nl: "CHR 0x0A \<notin> set ((\<lambda>_. ''{}'') (j::json))" for j by simp
  from sse_roundtrip [OF nl f] f show ?thesis by (intro exI [of _ frames]) simp
qed

lemma parse_all_map: "(\<And>x. x \<in> set xs \<Longrightarrow> f (g x) = Some x) \<Longrightarrow> parse_all f (map g xs) = Some xs"
  by (induction xs) auto

lemma parse_message_dump:
  "parse_message (JObj [(''role'', JStr (role_str (cm_role m))), (''content'', JStr (cm_content m))]) = Some m"
  by (cases m; cases "cm_role m") (auto simp: parse_message_def parse_role_def keys_within_def)

text \<open>
  A request survives the task queue: whatever body the API accepts is within the documented
  bounds, and the payload that is stored for the worker is accepted by the worker as the same request.
\<close>

theorem request_roundtrip:
  assumes "CompletionRequest dumps b = Some r"
  shows "request_ok dumps r \<and> CompletionRequest dumps (request_dump r) = Some r"
proof -
  have ok: "request_ok dumps r"
    using assms by (auto simp: CompletionRequest_def Let_def split: option.splits json.splits if_splits)
  have "parse_all parse_message (map (\<lambda>m. JObj [(''role'', JStr (role_str (cm_role m))), (''content'', JStr (cm_content m))]) (cr_messages r))
      = Some (cr_messages r)"
    by (rule parse_all_map) (rule parse_message_dump)
  then show ?thesis using ok
    by (cases r) (simp add: CompletionRequest_def request_dump_def keys_within_def dflt_def Let_def)
qed

theorem request_roundtrip_witness:
  "CompletionRequest (\<lambda>_. ''{}'') (request_dump sample_request) = Some sample_request"
proof -
  have "CompletionRequest (\<lambda>_. ''{}'') [(''messages'', JList [JObj [(''content'', JStr ''hello there''), (''role'', JStr ''user'')]])] =
      Some sample_request" by code_simp
  from request_roundtrip [OF this] show ?thesis by simp
qed

end
