(* ===== verification/Py_Datetime.thy ===== *)
theory Py_Datetime
  imports Py_Strings
begin

text \<open>
  \<open>datetime.isoformat()\<close> of an aware UTC time and \<open>datetime.fromisoformat\<close> on the texts of that form, with the round trip
  over the years 1 to 9999 that Python's type holds: the proleptic Gregorian calendar date of a number of
  days since 1970-01-01, and the text \<open>YYYY-MM-DDTHH:MM:SS[.ffffff]+00:00\<close>.
\<close>

text \<open>Days since the epoch to (year, month, day), counting in 400-year eras that start on March 1st.\<close>

definition civil_from_days :: "int \<Rightarrow> int \<times> int \<times> int" where
  "civil_from_days days =
     (let z = days + 719468; era = z div 146097; doe = z mod 146097;
          yoe = (doe - doe div 1460 + doe div 36524 - doe div 146096) div 365;
          doy = doe - (365 * yoe + yoe div 4 - yoe div 100);
          mp = (5 * doy + 2) div 153;
          d = doy - (153 * mp + 2) div 5 + 1;
          m = (if mp < 10 then mp + 3 else mp - 9);
          y = yoe + era * 400 + (if m \<le> 2 then 1 else 0)
      in (y, m, d))"

text \<open>Zero-padded decimal of a given width.\<close>

definition pad :: "nat \<Rightarrow> int \<Rightarrow> string" where
  "pad w n = (let s = int_str n in replicate (w - length s) CHR ''0'' @ s)"

definition isoformat :: "datetime \<Rightarrow> string" where
  "isoformat t =
     (let secs = t div us_per_s; us = t mod us_per_s; days = secs div 86400; sod = secs mod 86400;
          (y, m, d) = civil_from_days days in
      pad 4 y @ ''-'' @ pad 2 m @ ''-'' @ pad 2 d @ ''T'' @ pad 2 (sod div 3600) @ '':''
      @ pad 2 (sod div 60 mod 60) @ '':'' @ pad 2 (sod mod 60)
      @ (if us = 0 then '''' else ''.'' @ pad 6 us) @ ''+00:00'')"

lemma isoformat_epoch: "isoformat 0 = ''1970-01-01T00:00:00+00:00''"
  by code_simp

lemma isoformat_leap_day: "isoformat (timedelta 951782400) = ''2000-02-29T00:00:00+00:00''"
  by code_simp

lemma isoformat_micros: "isoformat (timedelta 1700000000 + 250000) = ''2023-11-14T22:13:20.250000+00:00''"
  by code_simp

section \<open>Reading it back\<close>

definition days_from_civil :: "int \<Rightarrow> int \<Rightarrow> int \<Rightarrow> int" where
  "days_from_civil y m d =
     (let y' = (if m \<le> 2 then y - 1 else y); era = y' div 400; yoe = y' mod 400;
          mp = (if m \<le> 2 then m + 9 else m - 3);
          doy = (153 * mp + 2) div 5 + d - 1;
          doe = 365 * yoe + yoe div 4 - yoe div 100 + doy
      in era * 146097 + doe - 719468)"

text \<open>A number of exactly \<open>w\<close> digits, and the rest of the text; one expected character.\<close>

definition digits :: "nat \<Rightarrow> string \<Rightarrow> (int \<times> string) option" where
  "digits w s = (if w \<le> length s \<and> list_all is_digit (take w s) then Some (int (str_nat (take w s)), drop w s) else None)"

definition lit :: "char \<Rightarrow> string \<Rightarrow> string option" where
  "lit c s = (case s of [] \<Rightarrow> None | x # xs \<Rightarrow> if x = c then Some xs else None)"

definition field :: "nat \<Rightarrow> char \<Rightarrow> string \<Rightarrow> (int \<times> string) option" where
  "field w c s = (case digits w s of None \<Rightarrow> None | Some (n, r) \<Rightarrow> (case lit c r of None \<Rightarrow> None | Some r' \<Rightarrow> Some (n, r')))"

definition fraction :: "string \<Rightarrow> (int \<times> string) option" where
  "fraction s = (case lit CHR ''.'' s of None \<Rightarrow> Some (0, s) | Some r \<Rightarrow> digits 6 r)"

text \<open>\<open>None\<close> stands for \<open>ValueError\<close>.\<close>

definition fromisoformat :: "string \<Rightarrow> datetime option" where
  "fromisoformat s =
     Option.bind (field 4 CHR ''-'' s) (\<lambda>(y, s). Option.bind (field 2 CHR ''-'' s) (\<lambda>(m, s).
     Option.bind (field 2 CHR ''T'' s) (\<lambda>(d, s). Option.bind (field 2 CHR '':'' s) (\<lambda>(hh, s).
     Option.bind (field 2 CHR '':'' s) (\<lambda>(mm, s). Option.bind (digits 2 s) (\<lambda>(ss, s).
     Option.bind (fraction s) (\<lambda>(us, s).
       if s = ''+00:00'' \<and> 1 \<le> y \<and> 1 \<le> m \<and> m \<le> 12 \<and> 1 \<le> d \<and> d \<le> 31 \<and> hh < 24 \<and> mm < 60 \<and> ss < 60
       then Some ((days_from_civil y m d * 86400 + hh * 3600 + mm * 60 + ss) * us_per_s + us) else None)))))))"

definition year_of :: "datetime \<Rightarrow> int" where
  "year_of t = fst (civil_from_days (t div us_per_s div 86400))"

definition datetime_ok :: "datetime \<Rightarrow> bool" where
  "datetime_ok t \<longleftrightarrow> 1 \<le> year_of t \<and> year_of t \<le> 9999"

lemma year_of_era:
  fixes doe :: int
  assumes doe: "0 \<le> doe" "doe < 146097"
  defines "yoe \<equiv> (doe - doe div 1460 + doe div 36524 - doe div 146096) div 365"
  shows "0 \<le> yoe" "yoe < 400" "0 \<le> doe - (365 * yoe + yoe div 4 - yoe div 100)" "doe - (365 * yoe + yoe div 4 - yoe div 100) \<le> 366"
proof -
  define a b c n where "a = doe div 1460" and "b = doe div 36524" and "c = doe div 146096" and "n = doe - a + b - c"
  define q h where "q = yoe div 4" and "h = yoe div 100"
  have a: "1460 * a \<le> doe" "doe < 1460 * a + 1460" and b: "36524 * b \<le> doe" "doe < 36524 * b + 36524"
    and c: "146096 * c \<le> doe" "doe < 146096 * c + 146096" and y: "365 * yoe \<le> n" "n < 365 * yoe + 365"
    and q: "4 * q \<le> yoe" "yoe < 4 * q + 4" and h: "100 * h \<le> yoe" "yoe < 100 * h + 100"
    using div_bounds [of 1460 doe] div_bounds [of 36524 doe] div_bounds [of 146096 doe] div_bounds [of 365 n] div_bounds [of 4 yoe] div_bounds [of 100 yoe]
    by (auto simp: a_def b_def c_def n_def yoe_def q_def h_def)
  have bc: "0 \<le> b" "b \<le> 4" "0 \<le> c" "c \<le> 1" using doe b c by linarith+
  have "36500 * (b - c) \<le> n \<and> n < 36500 * (b + 1) \<and> n < 146000 \<and> 0 \<le> n \<and> n \<le> doe"
  proof (cases "doe = 146096")
    case True
    then show ?thesis unfolding n_def a_def b_def c_def by simp
  next
    case False
    then have "c = 0" using c bc doe by linarith
    moreover have "b \<le> 3" using b doe False by linarith
    then have "b = 0 \<or> b = 1 \<or> b = 2 \<or> b = 3" using bc by auto
    moreover have "b \<le> a" using a b bc doe by linarith
    ultimately have c0: "c = 0" and cases: "b = 0 \<or> b = 1 \<or> b = 2 \<or> b = 3" and ba: "b \<le> a" by blast+
    have "36500 * b \<le> doe - a + b" using cases a b by - (elim disjE; simp; linarith)
    moreover have "doe - a + b < 36500 * (b + 1)" using cases a b by - (elim disjE; simp; linarith)
    moreover have "doe - a + b < 146000" using calculation cases by auto
    moreover have "0 \<le> doe - a + b" using a bc doe by linarith
    ultimately show ?thesis using ba c0 unfolding n_def by auto
  qed
  then have n: "36500 * (b - c) \<le> n" "n < 36500 * (b + 1)" "n < 146000" "0 \<le> n" "n \<le> doe" by auto
  show "0 \<le> yoe" using y(2) n(4) by linarith
  show "yoe < 400" using y(1) n(3) by linarith
  have "q \<le> a" "b - c \<le> h" "h \<le> b" "a \<le> q + 1" using a b c y q h n n_def bc doe by linarith+
  moreover have "doe - 365 * yoe \<ge> a - b + c" "doe - 365 * yoe \<le> 364 + a - b + c" using y n_def by linarith+
  ultimately show "0 \<le> doe - (365 * yoe + yoe div 4 - yoe div 100)" "doe - (365 * yoe + yoe div 4 - yoe div 100) \<le> 366"
    using bc unfolding q_def [symmetric] h_def [symmetric] by linarith+
qed

lemma month_of_year:
  fixes doy :: int
  assumes "0 \<le> doy" "doy \<le> 366"
  defines "mp \<equiv> (5 * doy + 2) div 153"
  shows "0 \<le> mp" "mp \<le> 11" "0 \<le> doy - (153 * mp + 2) div 5" "doy - (153 * mp + 2) div 5 \<le> 30"
proof -
  define e where "e = (153 * mp + 2) div 5"
  have m: "153 * mp \<le> 5 * doy + 2" "5 * doy + 2 < 153 * mp + 153" and e: "5 * e \<le> 153 * mp + 2" "153 * mp + 2 < 5 * e + 5"
    using div_bounds [of 153 "5 * doy + 2"] div_bounds [of 5 "153 * mp + 2"] by (auto simp: mp_def e_def)
  show "0 \<le> mp" using m assms by linarith
  show "mp \<le> 11" using m assms by linarith
  show "0 \<le> doy - (153 * mp + 2) div 5" using m e unfolding e_def [symmetric] by linarith
  show "doy - (153 * mp + 2) div 5 \<le> 30" using m e unfolding e_def [symmetric] by linarith
qed

lemma civil_roundtrip:
  assumes "civil_from_days z = (y, m, d)"
  shows "days_from_civil y m d = z" "1 \<le> m" "m \<le> 12" "1 \<le> d" "d \<le> 31"
proof -
  define era doe where "era = (z + 719468) div 146097" and "doe = (z + 719468) mod 146097"
  define yoe where "yoe = (doe - doe div 1460 + doe div 36524 - doe div 146096) div 365"
  define doy where "doy = doe - (365 * yoe + yoe div 4 - yoe div 100)"
  define mp where "mp = (5 * doy + 2) div 153"
  have doe: "0 \<le> doe" "doe < 146097" by (simp_all add: doe_def)
  note yb = year_of_era [OF doe, folded yoe_def, folded doy_def]
  note mb = month_of_year [OF yb(3,4), folded mp_def]
  have m: "m = (if mp < 10 then mp + 3 else mp - 9)" and d: "d = doy - (153 * mp + 2) div 5 + 1"
    and y: "y = yoe + era * 400 + (if m \<le> 2 then 1 else 0)"
    using assms unfolding civil_from_days_def Let_def era_def [symmetric] doe_def [symmetric] yoe_def [symmetric] doy_def [symmetric] mp_def [symmetric]
    by auto
  have m2: "m \<le> 2 \<longleftrightarrow> 10 \<le> mp" using m mb by auto
  have mp: "(if m \<le> 2 then m + 9 else m - 3) = mp" using m m2 by auto
  have y': "(if m \<le> 2 then y - 1 else y) = yoe + era * 400" using y by simp
  have "(yoe + era * 400) div 400 = era" "(yoe + era * 400) mod 400 = yoe" using yb(1,2) by simp_all
  then have "days_from_civil y m d = era * 146097 + doe - 719468"
    unfolding days_from_civil_def Let_def mp y' using d by (simp add: doy_def)
  then show "days_from_civil y m d = z" using div_mult_mod_eq [of "z + 719468" 146097] by (simp add: era_def doe_def)
  show "1 \<le> m" "m \<le> 12" "1 \<le> d" "d \<le> 31" using m mb d by auto
qed

text \<open>Each field of the text is read back with the rest untouched.\<close>

lemma length_nat_str: "n < 10 ^ w \<Longrightarrow> 0 < w \<Longrightarrow> length (nat_str n) \<le> w"
proof (induction n arbitrary: w rule: nat_str.induct)
  case (1 n)
  show ?case
  proof (cases "n < 10")
    case False
    then obtain v where w: "w = Suc v" "0 < v" using 1(2,3) by (cases w; cases "w - 1") auto
    then have "n div 10 < 10 ^ v" using 1(2) by (simp add: less_mult_imp_div_less mult.commute)
    with 1(1) [OF False this w(2)] False w show ?thesis by (simp add: nat_str.simps [of n])
  qed (use 1 in \<open>simp add: nat_str.simps [of n]\<close>)
qed

lemma pad_props:
  assumes "0 \<le> n" "n < 10 ^ w" "0 < w"
  shows "length (pad w n) = w" "list_all is_digit (pad w n)" "str_nat (pad w n) = nat n"
proof -
  have small: "length (nat_str (nat n)) \<le> w" using assms length_nat_str [of "nat n" w] by (simp add: nat_less_iff)
  have p: "pad w n = replicate (w - length (nat_str (nat n))) CHR ''0'' @ nat_str (nat n)"
    using assms by (simp add: pad_def int_str_def Let_def)
  show "length (pad w n) = w" using small by (simp add: p)
  have "is_digit c" if "c \<in> set (nat_str (nat n))" for c
    using nat_str_chars [OF that] by (auto simp: is_digit_def of_char_digit)
  then show "list_all is_digit (pad w n)" by (auto simp: p list_all_iff is_digit_def)
  have "str_nat (replicate k CHR ''0'' @ s) = str_nat s" for k s by (induction k) (simp_all add: str_nat_def)
  then show "str_nat (pad w n) = nat n" by (simp add: p)
qed

lemma digits_pad: "0 \<le> n \<Longrightarrow> n < 10 ^ w \<Longrightarrow> 0 < w \<Longrightarrow> digits w (pad w n @ r) = Some (n, r)"
  using pad_props [of n w] by (simp add: digits_def)

lemma field_pad: "0 \<le> n \<Longrightarrow> n < 10 ^ w \<Longrightarrow> 0 < w \<Longrightarrow> field w c (pad w n @ c # r) = Some (n, r)"
  by (simp add: field_def digits_pad lit_def)

lemma fraction_text:
  assumes "0 \<le> us" "us < us_per_s"
  shows "fraction ((if us = 0 then '''' else ''.'' @ pad 6 us) @ ''+00:00'') = Some (us, ''+00:00'')"
  using assms digits_pad [of us 6 "''+00:00''"] by (simp add: fraction_def lit_def us_per_s_def)

lemma time_of_day:
  fixes sod :: int
  shows "sod div 3600 * 3600 + sod div 60 mod 60 * 60 + sod mod 60 = sod"
proof -
  have "sod div 3600 = sod div 60 div 60" using zdiv_zmult2_eq [of 60 sod 60] by simp
  then show ?thesis using div_mult_mod_eq [of sod 60] div_mult_mod_eq [of "sod div 60" 60] by linarith
qed

text \<open>\<open>datetime.fromisoformat(t.isoformat()) == t\<close>.\<close>

theorem fromisoformat_isoformat: "datetime_ok t \<Longrightarrow> fromisoformat (isoformat t) = Some t"
proof -
  assume ok: "datetime_ok t"
  define secs us where "secs = t div us_per_s" and "us = t mod us_per_s"
  define sod where "sod = secs mod 86400"
  obtain y m d where ymd: "civil_from_days (secs div 86400) = (y, m, d)" by (metis prod.exhaust)
  note civil = civil_roundtrip [OF ymd]
  have y: "1 \<le> y" "y \<le> 9999" using ok ymd by (auto simp: datetime_ok_def year_of_def secs_def)
  have us: "0 \<le> us" "us < us_per_s" by (simp_all add: us_def)
  have sod: "0 \<le> sod" "sod < 86400" by (simp_all add: sod_def)
  define hh mm ss where "hh = sod div 3600" and "mm = sod div 60 mod 60" and "ss = sod mod 60"
  have hms: "0 \<le> hh" "hh < 24" "0 \<le> mm" "mm < 60" "0 \<le> ss" "ss < 60" using sod by (auto simp: hh_def mm_def ss_def)
  let ?tail = "(if us = 0 then '''' else ''.'' @ pad 6 us) @ ''+00:00''"
  have iso: "isoformat t = pad 4 y @ CHR ''-'' # pad 2 m @ CHR ''-'' # pad 2 d @ CHR ''T'' # pad 2 hh @ CHR '':'' # pad 2 mm @ CHR '':'' # pad 2 ss @ ?tail"
    unfolding isoformat_def Let_def secs_def [symmetric] us_def [symmetric] ymd sod_def [symmetric] hh_def [symmetric] mm_def [symmetric] ss_def [symmetric]
    by simp
  have f: "field 4 CHR ''-'' (pad 4 y @ CHR ''-'' # r) = Some (y, r)" "field 2 CHR ''-'' (pad 2 m @ CHR ''-'' # r) = Some (m, r)"
    "field 2 CHR ''T'' (pad 2 d @ CHR ''T'' # r) = Some (d, r)" "field 2 CHR '':'' (pad 2 hh @ CHR '':'' # r) = Some (hh, r)"
    "field 2 CHR '':'' (pad 2 mm @ CHR '':'' # r) = Some (mm, r)" "digits 2 (pad 2 ss @ r) = Some (ss, r)" for r
    using y civil hms by (simp_all add: field_pad digits_pad)
  have "fromisoformat (isoformat t) = Some ((days_from_civil y m d * 86400 + hh * 3600 + mm * 60 + ss) * us_per_s + us)"
    unfolding iso fromisoformat_def f Option.bind.bind_lunit prod.case fraction_text [OF us] using y civil hms by simp
  also have "\<dots> = Some ((secs div 86400 * 86400 + sod div 3600 * 3600 + sod div 60 mod 60 * 60 + sod mod 60) * us_per_s + us)"
    unfolding civil(1) hh_def mm_def ss_def ..
  also have "\<dots> = Some t"
    using time_of_day [of sod] div_mult_mod_eq [of secs 86400] div_mult_mod_eq [of t us_per_s] by (simp add: sod_def secs_def us_def add.assoc)
  finally show ?thesis .
qed

end
