(* ===== verification/Tasks_Redis.thy ===== *)
theory Tasks_Redis
  imports Tasks Py_Datetime Interleaving
begin

text \<open>
  The Redis task store (\<open>src/app/modules/messaging/tasks/adapters/redis.py\<close>).

  A task is stored as JSON text; the text and the JSON module that writes and reads it are arguments (a type \<open>'t\<close>, \<open>dumps\<close>, \<open>loads\<close>). Redis is an argument: its commands act on a
  state of their own, and the locale \<open>redis_versions\<close> states what their documentation promises. \<open>WATCH\<close> answers the version of a
  key and \<open>EXEC\<close> succeeds when the version is still the same; \<open>UNWATCH\<close> has no effect on keys and is left out. A call is a
  coroutine of single commands. The loop that retries after a \<open>WatchError\<close> has a number of attempts as argument; running out of them
  is the answer \<open>None\<close>, a call that has not returned.
\<close>

section \<open>Text of a task\<close>

fun status_str :: "task_status \<Rightarrow> string" where
  "status_str QUEUED = ''queued''"
| "status_str PROCESSING = ''processing''"
| "status_str COMPLETED = ''completed''"
| "status_str FAILED = ''failed''"

definition TaskStatus :: "string \<Rightarrow> exn + task_status" where
  "TaskStatus s = (if s = ''queued'' then Inr QUEUED else if s = ''processing'' then Inr PROCESSING
     else if s = ''completed'' then Inr COMPLETED else if s = ''failed'' then Inr FAILED
     else Inl (ValueError (s @ '' is not a valid TaskStatus'')))"

definition json_opt :: "('a \<Rightarrow> json) \<Rightarrow> 'a option \<Rightarrow> json" where
  "json_opt f x = (case x of None \<Rightarrow> JNull | Some y \<Rightarrow> f y)"

definition json_time :: "datetime \<Rightarrow> json" where
  "json_time t = JStr (isoformat t)"

definition task_object :: "task \<Rightarrow> body" where
  "task_object t = [
     (''id'', JStr (t_id t)), (''type'', JStr (t_type t)), (''principal_id'', JStr (t_principal_id t)),
     (''request_id'', json_opt JStr (t_request_id t)), (''status'', JStr (status_str (t_status t))), (''payload'', JObj (t_payload t)),
     (''result'', json_opt JObj (t_result t)), (''error'', json_opt JStr (t_error t)), (''attempts'', JInt (t_attempts t)),
     (''locked_until'', json_opt json_time (t_locked_until t)), (''expires_at'', json_time (t_expires_at t)),
     (''created_at'', json_opt json_time (t_created_at t)), (''updated_at'', json_opt json_time (t_updated_at t))]"

definition serialize :: "(json \<Rightarrow> 't) \<Rightarrow> task \<Rightarrow> 't" where
  "serialize dumps t = dumps (JObj (task_object t))"

text \<open>
  Fields of a JSON object: required, or with a default. A value of another type than \<open>_serialize\<close> writes has no place in the
  record; it is a \<open>TypeError\<close> here.
\<close>

definition TypeError :: exn where
  "TypeError = Foreign (plain_view ''TypeError'' exception_bases)"

fun as_str :: "json \<Rightarrow> exn + string" where
  "as_str (JStr s) = Inr s"
| "as_str _ = Inl TypeError"

fun as_obj :: "json \<Rightarrow> exn + body" where
  "as_obj (JObj b) = Inr b"
| "as_obj _ = Inl TypeError"

fun as_int :: "json \<Rightarrow> exn + int" where
  "as_int (JInt i) = Inr i"
| "as_int _ = Inl TypeError"

fun as_opt :: "(json \<Rightarrow> exn + 'a) \<Rightarrow> json \<Rightarrow> exn + 'a option" where
  "as_opt f JNull = Inr None"
| "as_opt f v = map_sum id Some (f v)"

definition parse_required_dt :: "string \<Rightarrow> exn + datetime" where
  "parse_required_dt s = (case fromisoformat s of None \<Rightarrow> Inl (ValueError ''Invalid isoformat string'') | Some t \<Rightarrow> Inr t)"

definition parse_dt :: "string option \<Rightarrow> exn + datetime option" where
  "parse_dt value = (case value of None \<Rightarrow> Inr None
     | Some s \<Rightarrow> if s = '''' then Inr None else map_sum id Some (parse_required_dt s))"

definition andThen :: "exn + 'a \<Rightarrow> ('a \<Rightarrow> exn + 'b) \<Rightarrow> exn + 'b" where
  "andThen r f = (case r of Inl e \<Rightarrow> Inl e | Inr x \<Rightarrow> f x)"

definition item :: "body \<Rightarrow> string \<Rightarrow> (json \<Rightarrow> exn + 'a) \<Rightarrow> exn + 'a" where
  "item data k f = (case dict_get data k of None \<Rightarrow> Inl (KeyError k) | Some v \<Rightarrow> f v)"

definition item_or :: "body \<Rightarrow> string \<Rightarrow> 'a \<Rightarrow> (json \<Rightarrow> exn + 'a) \<Rightarrow> exn + 'a" where
  "item_or data k dv f = (case dict_get data k of None \<Rightarrow> Inr dv | Some v \<Rightarrow> f v)"

definition dt_item :: "body \<Rightarrow> string \<Rightarrow> exn + datetime option" where
  "dt_item data k = andThen (item_or data k None (as_opt as_str)) parse_dt"

definition task_of_object :: "body \<Rightarrow> exn + task" where
  "task_of_object data =
     andThen (item data ''id'' as_str) (\<lambda>i. andThen (item data ''type'' as_str) (\<lambda>ty.
     andThen (item_or data ''principal_id'' '''' as_str) (\<lambda>p. andThen (item_or data ''request_id'' None (as_opt as_str)) (\<lambda>rq.
     andThen (andThen (item data ''status'' as_str) TaskStatus) (\<lambda>st. andThen (item data ''payload'' as_obj) (\<lambda>pl.
     andThen (item_or data ''result'' None (as_opt as_obj)) (\<lambda>res. andThen (item_or data ''error'' None (as_opt as_str)) (\<lambda>err.
     andThen (item_or data ''attempts'' 0 as_int) (\<lambda>att. andThen (dt_item data ''locked_until'') (\<lambda>lk.
     andThen (andThen (item data ''expires_at'' as_str) parse_required_dt) (\<lambda>ex.
     andThen (dt_item data ''created_at'') (\<lambda>cr. andThen (dt_item data ''updated_at'') (\<lambda>up.
     Inr \<lparr>t_id = i, t_type = ty, t_status = st, t_payload = pl, t_expires_at = ex, t_attempts = att, t_result = res, t_error = err,
       t_created_at = cr, t_updated_at = up, t_locked_until = lk, t_metadata = [], t_principal_id = p, t_request_id = rq\<rparr>)))))))))))))"

definition deserialize :: "('t \<Rightarrow> json option) \<Rightarrow> 't \<Rightarrow> exn + task" where
  "deserialize loads raw = (case loads raw of
      Some (JObj data) \<Rightarrow> task_of_object data
    | Some _ \<Rightarrow> Inl TypeError
    | None \<Rightarrow> Inl (Foreign (plain_view ''JSONDecodeError'' (''ValueError'' # exception_bases))))"

text \<open>Tasks whose times Python can hold, and which carry no metadata: the store does not keep it.\<close>

definition storable :: "task \<Rightarrow> bool" where
  "storable t \<longleftrightarrow> datetime_ok (t_expires_at t) \<and> t_metadata t = [] \<and>
     (\<forall>x \<in> set [t_locked_until t, t_created_at t, t_updated_at t]. case x of None \<Rightarrow> True | Some d \<Rightarrow> datetime_ok d)"

lemma TaskStatus_str [simp]: "TaskStatus (status_str st) = Inr st"
  by (cases st) (simp_all add: TaskStatus_def)

lemma andThen_simps [simp]: "andThen (Inr x) f = f x" "andThen (Inl e) f = Inl e"
  by (simp_all add: andThen_def)

lemma isoformat_nonempty [simp]: "isoformat t \<noteq> []"
  by (simp add: isoformat_def Let_def split: prod.splits)

lemma as_opt_json_opt: "as_opt as_str (json_opt JStr x) = Inr x" "as_opt as_obj (json_opt JObj y) = Inr y"
  by (cases x; simp add: json_opt_def) (cases y; simp add: json_opt_def)

lemma parse_dt_text:
  "(case x of None \<Rightarrow> True | Some d \<Rightarrow> datetime_ok d) \<Longrightarrow> andThen (as_opt as_str (json_opt json_time x)) parse_dt = Inr x"
  by (cases x) (simp_all add: json_opt_def json_time_def parse_dt_def parse_required_dt_def fromisoformat_isoformat)

lemma task_of_object_roundtrip: "storable t \<Longrightarrow> task_of_object (task_object t) = Inr t"
  unfolding task_of_object_def task_object_def item_def item_or_def dt_item_def storable_def
  by (simp add: as_opt_json_opt parse_dt_text parse_required_dt_def json_time_def fromisoformat_isoformat)

section \<open>Commands\<close>

text \<open>\<open>kv_exec w k ttl v\<close> is \<open>MULTI\<close>, \<open>SETEX k ttl v\<close>, \<open>EXEC\<close> on a connection that watched \<open>k\<close> at version \<open>w\<close>; \<open>kv_evict\<close> is the server
  dropping an expired key.\<close>

record ('s, 't) redis_kv =
  kv_get :: "string \<Rightarrow> 's \<Rightarrow> 't option"
  kv_ttl :: "string \<Rightarrow> 's \<Rightarrow> int"
  kv_setex :: "string \<Rightarrow> int \<Rightarrow> 't \<Rightarrow> 's \<Rightarrow> 's"
  kv_watch :: "string \<Rightarrow> 's \<Rightarrow> nat"
  kv_exec :: "nat \<Rightarrow> string \<Rightarrow> int \<Rightarrow> 't \<Rightarrow> 's \<Rightarrow> bool \<times> 's"
  kv_scan :: "int \<Rightarrow> string \<Rightarrow> 's \<Rightarrow> int \<times> string list"
  kv_evict :: "string \<Rightarrow> 's \<Rightarrow> 's"

text \<open>A store: Redis, the JSON module and the key prefix.\<close>

record ('s, 't) redis_tasks =
  rt_redis :: "('s, 't) redis_kv"
  rt_dumps :: "json \<Rightarrow> 't"
  rt_loads :: "'t \<Rightarrow> json option"
  rt_prefix :: string

section \<open>Operations\<close>

definition task_key :: "('s, 't) redis_tasks \<Rightarrow> string \<Rightarrow> string" where
  "task_key m task_id = rt_prefix m @ '':'' @ task_id"

definition rt_lease_expired :: "task \<Rightarrow> datetime \<Rightarrow> bool" where
  "rt_lease_expired t now \<longleftrightarrow> t_status t = PROCESSING \<and> (case t_locked_until t of None \<Rightarrow> False | Some l \<Rightarrow> l \<le> now)"

definition kept_ttl :: "int \<Rightarrow> int" where
  "kept_ttl remaining = (if remaining > 0 then remaining else 1)"

definition rt_create :: "('s, 't) redis_tasks \<Rightarrow> datetime \<Rightarrow> task \<Rightarrow> ('s, exn + unit) prog" where
  "rt_create m now t =
     (let t' = t\<lparr>t_created_at := Some (dflt now (t_created_at t)), t_updated_at := Some now\<rparr>;
          ttl = max (py_trunc (of_int (t_expires_at t' - now) / of_int us_per_s)) 1 in
      await (\<lambda>s. ((), kv_setex (rt_redis m) (task_key m (t_id t')) ttl (serialize (rt_dumps m) t') s)) (\<lambda>_. Done (Inr ())))"

definition rt_get :: "('s, 't) redis_tasks \<Rightarrow> string \<Rightarrow> string option \<Rightarrow> ('s, exn + task option) prog" where
  "rt_get m task_id principal_id =
     await (\<lambda>s. (kv_get (rt_redis m) (task_key m task_id) s, s)) (\<lambda>raw. case raw of
       None \<Rightarrow> Done (Inr None)
     | Some raw \<Rightarrow> (case deserialize (rt_loads m) raw of
           Inl e \<Rightarrow> Done (Inl e)
         | Inr t \<Rightarrow> Done (Inr (if principal_id \<noteq> None \<and> Some (t_principal_id t) \<noteq> principal_id then None else Some t))))"

text \<open>\<open>_transition\<close>: the answer of \<open>mutate\<close> is the task it leaves and whether to save it.\<close>

fun transition :: "('s, 't) redis_tasks \<Rightarrow> nat \<Rightarrow> string \<Rightarrow> (task \<Rightarrow> task \<times> bool) \<Rightarrow> ('s, (exn + task option \<times> bool) option) prog" where
  "transition m 0 key mutate = Done None"
| "transition m (Suc attempts) key mutate =
     await (\<lambda>s. (kv_watch (rt_redis m) key s, s)) (\<lambda>w.
     await (\<lambda>s. (kv_get (rt_redis m) key s, s)) (\<lambda>raw. case raw of
       None \<Rightarrow> Done (Some (Inr (None, False)))
     | Some raw \<Rightarrow> (case deserialize (rt_loads m) raw of
           Inl e \<Rightarrow> Done (Some (Inl e))
         | Inr task \<Rightarrow> (case mutate task of (task', save) \<Rightarrow>
             if \<not> save then Done (Some (Inr (Some task', False)))
             else await (\<lambda>s. (kv_ttl (rt_redis m) key s, s)) (\<lambda>remaining.
                  await (kv_exec (rt_redis m) w key (kept_ttl remaining) (serialize (rt_dumps m) task')) (\<lambda>ok.
                  if ok then Done (Some (Inr (Some task', True))) else transition m attempts key mutate))))))"

definition claim_mutation :: "int \<Rightarrow> datetime \<Rightarrow> task \<Rightarrow> task \<times> bool" where
  "claim_mutation lease_seconds now t =
     (if t_status t \<noteq> QUEUED \<and> \<not> rt_lease_expired t now then (t, False)
      else (t\<lparr>t_status := PROCESSING, t_attempts := t_attempts t + 1, t_locked_until := Some (now + timedelta lease_seconds),
              t_updated_at := Some now\<rparr>, True))"

definition rt_mark_processing :: "('s, 't) redis_tasks \<Rightarrow> nat \<Rightarrow> string \<Rightarrow> int \<Rightarrow> datetime \<Rightarrow> ('s, (exn + bool) option) prog" where
  "rt_mark_processing m attempts task_id lease_seconds now =
     (if lease_seconds \<le> 0 then Done (Some (Inl (ValueError ''lease_seconds must be positive'')))
      else bind (transition m attempts (task_key m task_id) (claim_mutation lease_seconds now)) (\<lambda>r. case r of
          None \<Rightarrow> Done None
        | Some (Inl e) \<Rightarrow> Done (Some (Inl e))
        | Some (Inr (None, applied)) \<Rightarrow> Done (Some (Inl (KeyError task_id)))
        | Some (Inr (Some t, applied)) \<Rightarrow> Done (Some (Inr applied))))"

definition rt_update :: "('s, 't) redis_tasks \<Rightarrow> datetime \<Rightarrow> string \<Rightarrow> task_status \<Rightarrow> body option \<Rightarrow> string option \<Rightarrow> datetime option \<Rightarrow> ('s, exn + unit) prog" where
  "rt_update m now task_id st res err locked_until =
     await (\<lambda>s. (kv_get (rt_redis m) (task_key m task_id) s, s)) (\<lambda>raw. case raw of
       None \<Rightarrow> Done (Inl (KeyError task_id))
     | Some raw \<Rightarrow> (case deserialize (rt_loads m) raw of
           Inl e \<Rightarrow> Done (Inl e)
         | Inr t \<Rightarrow>
             (let t1 = t\<lparr>t_status := st, t_updated_at := Some now, t_locked_until := locked_until\<rparr>;
                  t2 = (if res \<noteq> None then t1\<lparr>t_result := res\<rparr> else t1);
                  t3 = (if err \<noteq> None then t2\<lparr>t_error := err\<rparr> else t2) in
              await (\<lambda>s. (kv_ttl (rt_redis m) (task_key m task_id) s, s)) (\<lambda>remaining.
              await (\<lambda>s. ((), kv_setex (rt_redis m) (task_key m task_id) (kept_ttl remaining) (serialize (rt_dumps m) t3) s)) (\<lambda>_.
              Done (Inr ()))))))"

definition rt_mark_completed :: "('s, 't) redis_tasks \<Rightarrow> datetime \<Rightarrow> string \<Rightarrow> body \<Rightarrow> ('s, exn + unit) prog" where
  "rt_mark_completed m now task_id res = rt_update m now task_id COMPLETED (Some res) None None"

definition rt_mark_failed :: "('s, 't) redis_tasks \<Rightarrow> datetime \<Rightarrow> string \<Rightarrow> string \<Rightarrow> ('s, exn + unit) prog" where
  "rt_mark_failed m now task_id err = rt_update m now task_id FAILED None (Some err) None"

definition reclaim_mutation :: "datetime \<Rightarrow> int \<Rightarrow> task \<Rightarrow> task \<times> bool" where
  "reclaim_mutation now max_attempts t =
     (if \<not> rt_lease_expired t now then (t, False)
      else let t1 = t\<lparr>t_locked_until := None, t_updated_at := Some now\<rparr> in
           (if t_attempts t1 \<ge> max_attempts then t1\<lparr>t_status := FAILED, t_error := Some MAX_ATTEMPTS_EXCEEDED\<rparr>
            else t1\<lparr>t_status := QUEUED\<rparr>, True))"

text \<open>The inner loop over the keys of one \<open>SCAN\<close> answer, then the outer loop over the cursor.\<close>

fun reclaim_keys :: "('s, 't) redis_tasks \<Rightarrow> nat \<Rightarrow> datetime \<Rightarrow> int \<Rightarrow> int \<Rightarrow> string list \<Rightarrow> int \<Rightarrow> task_ref list \<Rightarrow>
    (int \<Rightarrow> task_ref list \<Rightarrow> ('s, (exn + task_ref list) option) prog) \<Rightarrow> ('s, (exn + task_ref list) option) prog" where
  "reclaim_keys m attempts now limit max_attempts [] settled reclaimed f = f settled reclaimed"
| "reclaim_keys m attempts now limit max_attempts (key # keys) settled reclaimed f =
     (if settled \<ge> limit then f settled reclaimed
      else bind (transition m attempts key (reclaim_mutation now max_attempts)) (\<lambda>r. case r of
          None \<Rightarrow> Done None
        | Some (Inl e) \<Rightarrow> Done (Some (Inl e))
        | Some (Inr (None, applied)) \<Rightarrow> reclaim_keys m attempts now limit max_attempts keys settled reclaimed f
        | Some (Inr (Some t, applied)) \<Rightarrow>
            if \<not> applied then reclaim_keys m attempts now limit max_attempts keys settled reclaimed f
            else reclaim_keys m attempts now limit max_attempts keys (settled + 1)
              (if t_status t = QUEUED then reclaimed @ [\<lparr>ref_id = t_id t, ref_type = t_type t, ref_request_id = t_request_id t\<rparr>] else reclaimed) f))"

fun reclaim_scan :: "('s, 't) redis_tasks \<Rightarrow> nat \<Rightarrow> datetime \<Rightarrow> int \<Rightarrow> int \<Rightarrow> nat \<Rightarrow> int \<Rightarrow> int \<Rightarrow> task_ref list \<Rightarrow> ('s, (exn + task_ref list) option) prog" where
  "reclaim_scan m attempts now limit max_attempts 0 cursor settled reclaimed = Done None"
| "reclaim_scan m attempts now limit max_attempts (Suc rounds) cursor settled reclaimed =
     (if settled \<ge> limit then Done (Some (Inr reclaimed))
      else await (\<lambda>s. (kv_scan (rt_redis m) cursor (rt_prefix m @ '':'') s, s)) (\<lambda>(cursor', keys).
        reclaim_keys m attempts now limit max_attempts keys settled reclaimed (\<lambda>settled reclaimed.
          if cursor' = 0 then Done (Some (Inr reclaimed))
          else reclaim_scan m attempts now limit max_attempts rounds cursor' settled reclaimed)))"

definition rt_reclaim :: "('s, 't) redis_tasks \<Rightarrow> nat \<Rightarrow> nat \<Rightarrow> datetime \<Rightarrow> int \<Rightarrow> int \<Rightarrow> ('s, (exn + task_ref list) option) prog" where
  "rt_reclaim m attempts rounds now limit max_attempts =
     (if limit \<le> 0 then Done (Some (Inl (ValueError ''limit must be positive'')))
      else reclaim_scan m attempts now limit max_attempts rounds 0 0 [])"

definition rt_delete_expired :: "datetime \<Rightarrow> int \<Rightarrow> ('s, exn + nat) prog" where
  "rt_delete_expired before limit = Done (Inr 0)"

section \<open>What Redis promises\<close>

text \<open>\<open>val\<close>: the value of a key that has not expired. \<open>ver\<close>: a number that grows with every change of a key.\<close>

locale redis_versions =
  fixes api :: "('s, 't) redis_kv" and val :: "'s \<Rightarrow> string \<Rightarrow> 't option" and ver :: "'s \<Rightarrow> string \<Rightarrow> nat"
  assumes get_law: "kv_get api k s = val s k"
    and watch_law: "kv_watch api k s = ver s k"
    and setex_law: "0 < ttl \<Longrightarrow> val (kv_setex api k ttl v s) = (val s)(k \<mapsto> v)"
    and exec_law: "\<lbrakk>0 < ttl; kv_exec api w k ttl v s = (ok, s')\<rbrakk> \<Longrightarrow>
        ok = (ver s k = w) \<and> (if ok then val s' = (val s)(k \<mapsto> v) else s' = s)"
    and exec_ver: "\<lbrakk>0 < ttl; kv_exec api w k ttl v s = (ok, s')\<rbrakk> \<Longrightarrow>
        ver s k' \<le> ver s' k' \<and> (ver s' k' = ver s k' \<longrightarrow> val s' k' = val s k')"
    and evict_law: "val (kv_evict api k s) = (val s)(k := None)"
    and evict_ver: "ver s k' \<le> ver (kv_evict api k s) k' \<and> (ver (kv_evict api k s) k' = ver s k' \<longrightarrow> val (kv_evict api k s) k' = val s k')"
    and scan_law: "kv_scan api cursor prefix s = (cursor', keys) \<Longrightarrow> k \<in> set keys \<Longrightarrow> \<exists>u. k = prefix @ u"

section \<open>One claim wins\<close>

text \<open>
  Tokens: \<open>Watch k w v\<close>, as long as key \<open>k\<close> has version \<open>w\<close> its value is \<open>v\<close>; \<open>Won k\<close>, the holder has claimed the task at \<open>k\<close>. \<open>held_until\<close> is
  a time before which every claim of the episode ends no lease.
\<close>

datatype 't claim_token = Watch string nat "'t option" | Won string

definition held_until :: "datetime \<Rightarrow> task \<Rightarrow> bool" where
  "held_until l t \<longleftrightarrow> t_status t = PROCESSING \<and> (\<exists>u. t_locked_until t = Some u \<and> l \<le> u)"

definition json_inverse :: "('s, 't) redis_tasks \<Rightarrow> bool" where
  "json_inverse m \<longleftrightarrow> (\<forall>b. rt_loads m (rt_dumps m (JObj b)) = Some (JObj b))"

definition tasks_stored :: "('s, 't) redis_tasks \<Rightarrow> (string \<Rightarrow> 't option) \<Rightarrow> bool" where
  "tasks_stored m vs \<longleftrightarrow> (\<forall>i v. vs (task_key m i) = Some v \<longrightarrow> (\<exists>t. storable t \<and> v = serialize (rt_dumps m) t))"

definition watches_ok :: "('s \<Rightarrow> string \<Rightarrow> 't option) \<Rightarrow> ('s \<Rightarrow> string \<Rightarrow> nat) \<Rightarrow> 's \<Rightarrow> 't claim_token multiset \<Rightarrow> bool" where
  "watches_ok val ver s G \<longleftrightarrow> (\<forall>k w v. Watch k w v \<in># G \<longrightarrow> w \<le> ver s k \<and> (ver s k = w \<longrightarrow> val s k = v))"

definition won_ok :: "('s, 't) redis_tasks \<Rightarrow> (string \<Rightarrow> 't option) \<Rightarrow> datetime \<Rightarrow> 't claim_token multiset \<Rightarrow> bool" where
  "won_ok m vs l G \<longleftrightarrow> (\<forall>k. count G (Won k) \<le> 1) \<and>
     (\<forall>k t. Won k \<in># G \<longrightarrow> vs k = Some (serialize (rt_dumps m) t) \<longrightarrow> storable t \<longrightarrow> held_until l t)"

definition claims_inv :: "('s, 't) redis_tasks \<Rightarrow> ('s \<Rightarrow> string \<Rightarrow> 't option) \<Rightarrow> ('s \<Rightarrow> string \<Rightarrow> nat) \<Rightarrow> datetime \<Rightarrow> 's \<Rightarrow> 't claim_token multiset \<Rightarrow> bool" where
  "claims_inv m val ver l s G \<longleftrightarrow> tasks_stored m (val s) \<and> watches_ok val ver s G \<and> won_ok m (val s) l G"

lemma deserialize_serialize: "json_inverse m \<Longrightarrow> storable t \<Longrightarrow> deserialize (rt_loads m) (serialize (rt_dumps m) t) = Inr t"
  by (simp add: json_inverse_def deserialize_def serialize_def task_of_object_roundtrip)

lemma serialize_inject: "json_inverse m \<Longrightarrow> storable t \<Longrightarrow> storable u \<Longrightarrow> serialize (rt_dumps m) t = serialize (rt_dumps m) u \<Longrightarrow> t = u"
proof -
  assume m: "json_inverse m" "storable t" "storable u" and eq: "serialize (rt_dumps m) t = serialize (rt_dumps m) u"
  have "Inr t = deserialize (rt_loads m) (serialize (rt_dumps m) t)" by (rule deserialize_serialize [symmetric]) fact+
  also have "\<dots> = Inr u" unfolding eq by (rule deserialize_serialize) fact+
  finally show "t = u" by simp
qed

lemma kept_ttl_pos: "0 < kept_ttl r"
  by (simp add: kept_ttl_def)

text \<open>What a step that changes no value may do, and what writing a task does.\<close>

definition grows :: "('s \<Rightarrow> string \<Rightarrow> 't option) \<Rightarrow> ('s \<Rightarrow> string \<Rightarrow> nat) \<Rightarrow> 's \<Rightarrow> 's \<Rightarrow> bool" where
  "grows val ver s s' \<longleftrightarrow> (\<forall>k. ver s k \<le> ver s' k \<and> (ver s' k = ver s k \<longrightarrow> val s' k = val s k))"

lemma watches_grow: "watches_ok val ver s G \<Longrightarrow> grows val ver s s' \<Longrightarrow> watches_ok val ver s' G"
  unfolding watches_ok_def
proof (intro allI impI)
  fix k w v assume w: "\<forall>k w v. Watch k w v \<in># G \<longrightarrow> w \<le> ver s k \<and> (ver s k = w \<longrightarrow> val s k = v)" and g: "grows val ver s s'" and "Watch k w v \<in># G"
  then have 1: "w \<le> ver s k" "ver s k = w \<longrightarrow> val s k = v" by blast+
  moreover have "ver s k \<le> ver s' k" "ver s' k = ver s k \<longrightarrow> val s' k = val s k" using g by (auto simp: grows_def)
  ultimately show "w \<le> ver s' k \<and> (ver s' k = w \<longrightarrow> val s' k = v)" by auto
qed

lemma won_ok_fewer: "won_ok m vs l G \<Longrightarrow> (\<And>k v. vs' k = Some v \<Longrightarrow> vs k = Some v) \<Longrightarrow> won_ok m vs' l G"
  unfolding won_ok_def by (elim conjE, intro conjI allI impI) simp_all

lemma won_ok_add:
  assumes "won_ok m vs l G" "Won k \<notin># G" "\<And>u. vs k = Some (serialize (rt_dumps m) u) \<Longrightarrow> storable u \<Longrightarrow> held_until l u"
  shows "won_ok m vs l (add_mset (Won k) G)"
  unfolding won_ok_def
proof (intro conjI allI impI)
  show "count (add_mset (Won k) G) (Won k') \<le> 1" for k'
    using assms(1,2) by (cases "k' = k") (simp_all add: won_ok_def not_in_iff)
  show "held_until l t" if "Won k' \<in># add_mset (Won k) G" "vs k' = Some (serialize (rt_dumps m) t)" "storable t" for k' t
    using that assms(1,3) by (cases "k' = k") (simp_all add: won_ok_def)
qed

lemma tasks_stored_fewer: "tasks_stored m vs \<Longrightarrow> (\<And>k v. vs' k = Some v \<Longrightarrow> vs k = Some v) \<Longrightarrow> tasks_stored m vs'"
  unfolding tasks_stored_def by blast

lemma claims_inv_quiet:
  assumes "claims_inv m val ver l s G" "grows val ver s s'" "\<And>k v. val s' k = Some v \<Longrightarrow> val s k = Some v"
  shows "claims_inv m val ver l s' G"
  unfolding claims_inv_def
proof (intro conjI)
  show "tasks_stored m (val s')" by (rule tasks_stored_fewer [of m "val s"]) (use assms in \<open>simp_all add: claims_inv_def\<close>)
  show "watches_ok val ver s' G" by (rule watches_grow [OF _ assms(2)]) (use assms in \<open>simp add: claims_inv_def\<close>)
  show "won_ok m (val s') l G" by (rule won_ok_fewer [of m "val s"]) (use assms in \<open>simp_all add: claims_inv_def\<close>)
qed

lemma claims_inv_write:
  assumes json: "json_inverse m" and inv: "claims_inv m val ver l s G" and grow: "grows val ver s s'"
    and vs: "val s' = (val s)(k \<mapsto> serialize (rt_dumps m) t')" "storable t'"
    and old: "val s k = Some (serialize (rt_dumps m) t)" "storable t" "\<not> held_until l t"
  shows "claims_inv m val ver l s' G" "held_until l t' \<Longrightarrow> claims_inv m val ver l s' (add_mset (Won k) G)"
proof -
  have none: "Won k \<notin># G" using inv old by (auto simp: claims_inv_def won_ok_def)
  have w: "watches_ok val ver s' G" by (rule watches_grow [OF _ grow]) (use inv in \<open>simp add: claims_inv_def\<close>)
  have st: "tasks_stored m (val s')" using inv vs unfolding claims_inv_def tasks_stored_def by (auto split: if_splits)
  have won: "won_ok m (val s') l G"
    unfolding won_ok_def
  proof (intro conjI allI impI)
    show "count G (Won k') \<le> 1" for k' using inv by (simp add: claims_inv_def won_ok_def)
    show "held_until l u" if u: "Won k' \<in># G" "val s' k' = Some (serialize (rt_dumps m) u)" "storable u" for k' u
    proof -
      have "k' \<noteq> k" using none u(1) by auto
      with u inv vs(1) show ?thesis by (simp add: claims_inv_def won_ok_def)
    qed
  qed
  show "claims_inv m val ver l s' G" using w st won unfolding claims_inv_def by blast
  have mine: "u = t'" if "val s' k = Some (serialize (rt_dumps m) u)" "storable u" for u
    using that vs serialize_inject [OF json] by auto
  show "claims_inv m val ver l s' (add_mset (Won k) G)" if "held_until l t'"
  proof -
    have "won_ok m (val s') l (add_mset (Won k) G)"
      by (rule won_ok_add [OF won none]) (use mine that in blast)
    moreover have "watches_ok val ver s' (add_mset (Won k) G)" using w unfolding watches_ok_def by auto
    ultimately show ?thesis using st unfolding claims_inv_def by blast
  qed
qed

text \<open>A mutation that only touches tasks nobody holds, and with \<open>won\<close> leaves them held.\<close>

definition polite :: "datetime \<Rightarrow> bool \<Rightarrow> (task \<Rightarrow> task \<times> bool) \<Rightarrow> bool" where
  "polite l won mutate \<longleftrightarrow> (\<forall>t t'. storable t \<longrightarrow> mutate t = (t', True) \<longrightarrow>
     storable t' \<and> \<not> held_until l t \<and> (won \<longrightarrow> held_until l t'))"

lemma watches_add: "watches_ok val ver s G \<Longrightarrow> w \<le> ver s k \<Longrightarrow> val s k = v \<Longrightarrow> watches_ok val ver s (add_mset (Watch k w v) G)"
  by (auto simp: watches_ok_def)

lemma won_ok_watch: "won_ok m vs l (add_mset (Watch k w v) G) \<longleftrightarrow> won_ok m vs l G"
  by (simp add: won_ok_def)

lemma claims_inv_watch:
  "claims_inv m val ver l s G \<Longrightarrow> w \<le> ver s k \<Longrightarrow> val s k = v \<Longrightarrow> claims_inv m val ver l s (add_mset (Watch k w v) G)"
  by (simp add: claims_inv_def watches_add won_ok_watch)

lemma claims_inv_unwatch:
  "claims_inv m val ver l s (add_mset (Watch k w v) G) \<Longrightarrow> claims_inv m val ver l s G \<and> w \<le> ver s k \<and> (ver s k = w \<longrightarrow> val s k = v)"
  by (auto simp: claims_inv_def won_ok_watch watches_ok_def)

context redis_versions
begin

lemma transition_safe:
  assumes json: "json_inverse m" and m: "rt_redis m = api" and mut: "polite l won mutate" and key: "key = task_key m i"
    and Q: "\<And>r g. (\<And>t. r \<noteq> Some (Inr (Some t, True))) \<Longrightarrow> Q r g" "\<And>t g. (won \<Longrightarrow> Won key \<in># g) \<Longrightarrow> Q (Some (Inr (Some t, True))) g"
  shows "safe (claims_inv m val ver l) Q g (transition m n key mutate)"
proof (induction n arbitrary: g)
  case 0
  show ?case by (auto intro: safe_Done Q)
next
  case (Suc n)
  let ?I = "claims_inv m val ver l"
  let ?save = "\<lambda>w t'. await (\<lambda>s. (kv_ttl api key s, s)) (\<lambda>remaining.
      await (kv_exec api w key (kept_ttl remaining) (serialize (rt_dumps m) t')) (\<lambda>ok.
      if ok then Done (Some (Inr (Some t', True))) else transition m n key mutate))"
  have saves: "safe ?I Q (add_mset (Watch key w (Some (serialize (rt_dumps m) t))) g) (?save w t')"
    if t: "storable t" "mutate t = (t', True)" for w t t' g
  proof (rule safe_await, goal_cases)
    case (1 s h x s')
    have t': "storable t'" "\<not> held_until l t" "won \<Longrightarrow> held_until l t'" using mut t by (auto simp: polite_def)
    let ?g = "add_mset (Watch key w (Some (serialize (rt_dumps m) t))) g"
    have "safe ?I Q ?g (await (kv_exec api w key (kept_ttl x) (serialize (rt_dumps m) t')) (\<lambda>ok.
      if ok then Done (Some (Inr (Some t', True))) else transition m n key mutate))"
    proof (rule safe_await)
      fix s h ok s' assume I: "?I s (?g + h)" and cmd: "kv_exec api w key (kept_ttl x) (serialize (rt_dumps m) t') s = (ok, s')"
      note law = exec_law [OF kept_ttl_pos cmd]
      have grow: "grows val ver s s'" using exec_ver [OF kept_ttl_pos cmd] by (simp add: grows_def)
      show "\<exists>g'. ?I s' (g' + h) \<and> safe ?I Q g' (if ok then Done (Some (Inr (Some t', True))) else transition m n key mutate)"
      proof (cases ok)
        case False
        then show ?thesis using law I Suc.IH by (intro exI [of _ ?g]) simp
      next
        case True
        have "val s key = Some (serialize (rt_dumps m) t)"
          using claims_inv_unwatch [of m val ver l s key w _ "g + h"] I law True by simp
        note old = this
        have new: "val s' = (val s)(key \<mapsto> serialize (rt_dumps m) t')" using law True by simp
        note wr = claims_inv_write [OF json I grow new t'(1) old t(1) t'(2)]
        show ?thesis
        proof (cases won)
          case won: True
          have "?I s' (add_mset (Won key) ?g + h)" using wr(2) t'(3) won by simp
          moreover have "safe ?I Q (add_mset (Won key) ?g) (Done (Some (Inr (Some t', True))))" by (intro safe_Done Q(2)) simp
          ultimately show ?thesis unfolding if_P [OF True] by blast
        next
          case False
          then have "safe ?I Q ?g (Done (Some (Inr (Some t', True))))" by (intro safe_Done Q(2)) simp
          with wr(1) show ?thesis unfolding if_P [OF True] by blast
        qed
      qed
    qed
    with 1 show ?case by (intro exI [of _ ?g]) auto
  qed
  have body: "safe ?I Q (add_mset (Watch key w v) g) (case v of
       None \<Rightarrow> Done (Some (Inr (None, False)))
     | Some raw \<Rightarrow> (case deserialize (rt_loads m) raw of
           Inl e \<Rightarrow> Done (Some (Inl e))
         | Inr task \<Rightarrow> (case mutate task of (task', save) \<Rightarrow>
             if \<not> save then Done (Some (Inr (Some task', False))) else ?save w task')))"
    if v: "v = None \<or> (\<exists>t. storable t \<and> v = Some (serialize (rt_dumps m) t))" for w v g
    using v
  proof (elim disjE exE conjE)
    fix t assume t: "storable t" "v = Some (serialize (rt_dumps m) t)"
    obtain t' save where mt: "mutate t = (t', save)" by (cases "mutate t")
    then show ?thesis using saves [OF t(1), of t' w g] t Q(1)
      by (cases save) (auto simp: deserialize_serialize [OF json] intro: safe_Done)
  qed (auto intro: safe_Done Q(1))
  show ?case unfolding transition.simps m
  proof (rule safe_await, goal_cases)
    case (1 s h w s')
    then have w: "w = ver s key" "s' = s" by (auto simp: watch_law)
    have "?I s (add_mset (Watch key w (val s key)) g + h)" using claims_inv_watch [OF 1(1), of w key "val s key"] by (simp add: w)
    moreover have "safe ?I Q (add_mset (Watch key w u) g) (await (\<lambda>s. (kv_get api key s, s)) (\<lambda>raw. case raw of
       None \<Rightarrow> Done (Some (Inr (None, False)))
     | Some raw \<Rightarrow> (case deserialize (rt_loads m) raw of
           Inl e \<Rightarrow> Done (Some (Inl e))
         | Inr task \<Rightarrow> (case mutate task of (task', save) \<Rightarrow>
             if \<not> save then Done (Some (Inr (Some task', False))) else ?save w task'))))" for u
    proof (rule safe_await, goal_cases)
      case (1 s h raw s')
      then have raw: "raw = val s key" "s' = s" by (auto simp: get_law)
      have stored: "raw = None \<or> (\<exists>t. storable t \<and> raw = Some (serialize (rt_dumps m) t))"
      proof (cases raw)
        case (Some v)
        have "tasks_stored m (val s)" using 1(1) by (simp add: claims_inv_def)
        moreover have "val s (task_key m i) = Some v" using raw Some key by simp
        ultimately show ?thesis using Some unfolding tasks_stored_def by blast
      qed simp
      have "?I s (add_mset (Watch key w raw) g + h)"
        using claims_inv_unwatch [of m val ver l s key w u "g + h"] claims_inv_watch [of m val ver l s "g + h" w key raw] 1(1) raw by simp
      then show ?case using body [OF stored, of w g] raw by (intro exI [of _ "add_mset (Watch key w raw) g"]) simp
    qed
    ultimately show ?case using w by (intro exI [of _ "add_mset (Watch key w (val s key)) g"]) simp
  qed
qed

end

lemma claim_polite:
  assumes "now < l" "l \<le> now + timedelta lease" "datetime_ok now" "datetime_ok (now + timedelta lease)"
  shows "polite l True (claim_mutation lease now)"
  using assms by (auto simp: polite_def claim_mutation_def held_until_def storable_def rt_lease_expired_def split: if_splits option.splits)

lemma reclaim_polite:
  assumes "now < l" "datetime_ok now"
  shows "polite l False (reclaim_mutation now max_attempts)"
  using assms by (auto simp: polite_def reclaim_mutation_def held_until_def storable_def rt_lease_expired_def Let_def split: if_splits option.splits)

section \<open>Claims, reclaims and expiry at once\<close>

datatype redis_call = RClaim nat string int datetime | RReclaim nat nat datetime int int | REvict string

definition claim_call :: "('s, 't) redis_tasks \<Rightarrow> nat \<Rightarrow> string \<Rightarrow> int \<Rightarrow> datetime \<Rightarrow> ('s, redis_call \<times> (exn + bool) option) prog" where
  "claim_call m attempts i lease now = bind (rt_mark_processing m attempts i lease now) (\<lambda>r. Done (RClaim attempts i lease now, r))"

fun start_redis :: "('s, 't) redis_tasks \<Rightarrow> redis_call \<Rightarrow> ('s, redis_call \<times> (exn + bool) option) prog" where
  "start_redis m (RClaim attempts i lease now) = claim_call m attempts i lease now"
| "start_redis m (RReclaim attempts rounds now limit max_attempts) =
     bind (rt_reclaim m attempts rounds now limit max_attempts) (\<lambda>r. Done (RReclaim attempts rounds now limit max_attempts, None))"
| "start_redis m (REvict k) = await (\<lambda>s. ((), kv_evict (rt_redis m) k s)) (\<lambda>_. Done (REvict k, None))"

text \<open>The claims of an episode: their clocks are before \<open>l\<close> and their leases end after it.\<close>

fun redis_call_ok :: "datetime \<Rightarrow> redis_call \<Rightarrow> bool" where
  "redis_call_ok l (RClaim attempts i lease now) \<longleftrightarrow>
     now < l \<and> l \<le> now + timedelta lease \<and> datetime_ok now \<and> datetime_ok (now + timedelta lease)"
| "redis_call_ok l (RReclaim attempts rounds now limit max_attempts) \<longleftrightarrow> now < l \<and> datetime_ok now"
| "redis_call_ok l (REvict k) \<longleftrightarrow> True"

fun granted :: "string \<Rightarrow> redis_call \<times> (exn + bool) option \<Rightarrow> bool" where
  "granted i (RClaim attempts j lease now, r) \<longleftrightarrow> j = i \<and> r = Some (Inr True)"
| "granted i _ \<longleftrightarrow> False"

definition claim_post :: "('s, 't) redis_tasks \<Rightarrow> redis_call \<times> (exn + bool) option \<Rightarrow> 't claim_token multiset \<Rightarrow> bool" where
  "claim_post m x g \<longleftrightarrow> (\<forall>i. granted i x \<longrightarrow> Won (task_key m i) \<in># g)"

lemma count_granted:
  "length gs = length ps \<Longrightarrow> (\<And>j. j < length ps \<Longrightarrow> P (ps ! j) \<Longrightarrow> x \<in># gs ! j) \<Longrightarrow> length (filter P ps) \<le> count (sum_list gs) x"
proof (induction gs ps rule: list_induct2)
  case (Cons g gs p ps)
  have "length (filter P ps) \<le> count (sum_list gs) x" using Cons.IH Cons.prems by (metis Suc_less_eq length_Cons nth_Cons_Suc)
  moreover have "P p \<Longrightarrow> 1 \<le> count g x" using Cons.prems [of 0] by (simp add: Suc_le_eq)
  moreover have "count (sum_list (g # gs)) x = count g x + count (sum_list gs) x" by simp
  ultimately show ?case by (cases "P p"; simp only: filter.simps if_True if_False list.size) linarith+
qed simp

context redis_versions
begin

lemma claim_safe:
  assumes "json_inverse m" "rt_redis m = api" "redis_call_ok l (RClaim n i lease now)"
  shows "safe (claims_inv m val ver l) (claim_post m) g (claim_call m n i lease now)"
proof -
  have "polite l True (claim_mutation lease now)" using claim_polite assms(3) by simp
  note tr = transition_safe [OF assms(1,2) this refl, where Q = "\<lambda>r g. (\<exists>t. r = Some (Inr (Some t, True))) \<longrightarrow> Won (task_key m i) \<in># g" and i = i]
  have "safe (claims_inv m val ver l) (\<lambda>r g. r = Some (Inr True) \<longrightarrow> Won (task_key m i) \<in># g) g (rt_mark_processing m n i lease now)"
    unfolding rt_mark_processing_def
    by (auto intro!: safe_bind [OF tr] safe_Done split: option.splits sum.splits)
  then show ?thesis unfolding claim_call_def by (rule safe_bind) (auto intro!: safe_Done simp: claim_post_def)
qed

lemma reclaim_keys_safe:
  assumes "json_inverse m" "rt_redis m = api" "polite l False (reclaim_mutation now max_attempts)"
    and "\<forall>k \<in> set keys. \<exists>i. k = task_key m i" "\<And>g a b. safe (claims_inv m val ver l) (\<lambda>r g. True) g (f a b)"
  shows "safe (claims_inv m val ver l) (\<lambda>r g. True) g (reclaim_keys m n now limit max_attempts keys settled reclaimed f)"
  using assms(4)
proof (induction keys arbitrary: settled reclaimed g)
  case Nil
  show ?case by (simp add: assms(5))
next
  case (Cons k keys)
  obtain i where k: "k = task_key m i" using Cons.prems by auto
  have ih: "safe (claims_inv m val ver l) (\<lambda>r g. True) g (reclaim_keys m n now limit max_attempts keys a b f)" for a b g
    using Cons by simp
  note tr = transition_safe [OF assms(1-3) k, where Q = "\<lambda>r g. True" and g = g and n = n]
  show ?case unfolding reclaim_keys.simps
    by (auto intro!: safe_bind [OF tr] safe_Done ih assms(5) split: option.splits sum.splits)
qed

lemma reclaim_scan_safe:
  assumes "json_inverse m" "rt_redis m = api" "polite l False (reclaim_mutation now max_attempts)"
  shows "safe (claims_inv m val ver l) (\<lambda>r g. True) g (reclaim_scan m n now limit max_attempts rounds cursor settled reclaimed)"
proof (induction rounds arbitrary: cursor settled reclaimed g)
  case (Suc rounds)
  let ?I = "claims_inv m val ver l"
  let ?k = "\<lambda>(cursor', keys). reclaim_keys m n now limit max_attempts keys settled reclaimed (\<lambda>settled reclaimed.
          if cursor' = 0 then Done (Some (Inr reclaimed)) else reclaim_scan m n now limit max_attempts rounds cursor' settled reclaimed)"
  have "safe ?I (\<lambda>r g. True) g (await (\<lambda>s. (kv_scan api cursor (rt_prefix m @ '':'') s, s)) ?k)"
  proof (rule safe_await, goal_cases)
    case (1 s h x s')
    obtain c ks where x: "x = (c, ks)" by (cases x)
    with 1 have s': "s' = s" and scan: "kv_scan api cursor (rt_prefix m @ '':'') s = (c, ks)" by auto
    have "\<forall>k \<in> set ks. \<exists>i. k = task_key m i" using scan_law [OF scan] by (auto simp: task_key_def)
    then have "safe ?I (\<lambda>r g. True) g (?k x)" unfolding x prod.case
      by (rule reclaim_keys_safe [OF assms]) (auto intro: safe_Done Suc.IH)
    with 1(1) s' show ?case by blast
  qed
  then show ?case by (auto intro: safe_Done simp: assms(2))
qed (auto intro: safe_Done)

lemma evict_safe:
  assumes "rt_redis m = api"
  shows "safe (claims_inv m val ver l) (claim_post m) {#} (start_redis m (REvict k))"
  unfolding start_redis.simps assms
proof (rule safe_await, goal_cases)
  case (1 s h x s')
  have "claims_inv m val ver l (kv_evict api k s) h"
  proof (rule claims_inv_quiet [of m val ver l s])
    show "grows val ver s (kv_evict api k s)" using evict_ver [of s _ k] by (simp add: grows_def)
  qed (use 1 in \<open>auto simp: evict_law split: if_splits\<close>)
  then have "claims_inv m val ver l s' h" using 1 by simp
  then show ?case by (intro exI [of _ "{#}"]) (auto intro: safe_Done simp: claim_post_def)
qed

lemma start_redis_safe:
  assumes "json_inverse m" "rt_redis m = api" "redis_call_ok l x"
  shows "safe (claims_inv m val ver l) (claim_post m) {#} (start_redis m x)"
proof (cases x)
  case (RClaim n i lease now)
  then show ?thesis using claim_safe [OF assms(1,2)] assms(3) by simp
next
  case (RReclaim n rounds now limit max_attempts)
  then have "safe (claims_inv m val ver l) (\<lambda>r g. True) {#} (rt_reclaim m n rounds now limit max_attempts)"
    unfolding rt_reclaim_def using assms(3) reclaim_polite
    by (auto intro!: safe_Done reclaim_scan_safe [OF assms(1,2)])
  then show ?thesis unfolding RReclaim start_redis.simps by (rule safe_bind) (auto intro!: safe_Done simp: claim_post_def)
next
  case (REvict k)
  then show ?thesis using evict_safe [OF assms(2)] by simp
qed

lemma one_winner:
  assumes "json_inverse m" "rt_redis m = api" "tasks_stored m (val s)" "\<forall>x \<in> set calls. redis_call_ok l x"
  shows "length (filter (\<lambda>p. \<exists>x. result p = Some x \<and> granted i x) (snd (schedule is (s, map (start_redis m) calls)))) \<le> 1"
proof -
  let ?c = "schedule is (s, map (start_redis m) calls)"
  have zero: "sum_list (replicate n {#}) = {#}" for n :: nat by (induction n) auto
  have "held (claims_inv m val ver l) (claim_post m) (s, map (start_redis m) calls) (replicate (length calls) {#})"
    using assms start_redis_safe [OF assms(1,2)] by (auto simp: held_def zero claims_inv_def watches_ok_def won_ok_def)
  then obtain gs where gs: "held (claims_inv m val ver l) (claim_post m) ?c gs" using schedule_keeps by blast
  have "Won (task_key m i) \<in># gs ! j" if j: "j < length (snd ?c)" and res: "\<exists>x. result (snd ?c ! j) = Some x \<and> granted i x" for j
  proof -
    obtain x where x: "snd ?c ! j = Done x" "granted i x" using res by (cases "snd ?c ! j") auto
    have "safe (claims_inv m val ver l) (claim_post m) (gs ! j) (snd ?c ! j)" using gs j by (simp add: held_def)
    then have "safe (claims_inv m val ver l) (claim_post m) (gs ! j) (Done x)" by (simp only: x(1))
    then show ?thesis using x(2) by (auto elim!: safe_DoneE simp: claim_post_def)
  qed
  then have "length (filter (\<lambda>p. \<exists>x. result p = Some x \<and> granted i x) (snd ?c)) \<le> count (sum_list gs) (Won (task_key m i))"
    using gs by (intro count_granted) (simp_all add: held_def)
  moreover have "count (sum_list gs) (Won (task_key m i)) \<le> 1" using gs by (simp add: held_def claims_inv_def won_ok_def)
  ultimately show ?thesis by linarith
qed

end

section \<open>A server\<close>

text \<open>The log of all writes, the last first: a value with its time to live, or \<open>None\<close> for a key that expired.\<close>

type_synonym 't write_log = "(string \<times> ('t \<times> int) option) list"

definition log_value :: "'t write_log \<Rightarrow> string \<Rightarrow> ('t \<times> int) option" where
  "log_value s k = (case dict_get s k of None \<Rightarrow> None | Some v \<Rightarrow> v)"

definition log_version :: "'t write_log \<Rightarrow> string \<Rightarrow> nat" where
  "log_version s k = length (filter (\<lambda>w. fst w = k) s)"

fun is_prefix :: "string \<Rightarrow> string \<Rightarrow> bool" where
  "is_prefix [] ys = True"
| "is_prefix (x # xs) [] = False"
| "is_prefix (x # xs) (y # ys) = (x = y \<and> is_prefix xs ys)"

definition log_kv :: "('t write_log, 't) redis_kv" where
  "log_kv = \<lparr>
     kv_get = (\<lambda>k s. map_option fst (log_value s k)),
     kv_ttl = (\<lambda>k s. case log_value s k of None \<Rightarrow> - 2 | Some (_, ttl) \<Rightarrow> ttl),
     kv_setex = (\<lambda>k ttl v s. (k, Some (v, ttl)) # s),
     kv_watch = (\<lambda>k s. log_version s k),
     kv_exec = (\<lambda>w k ttl v s. if log_version s k = w then (True, (k, Some (v, ttl)) # s) else (False, s)),
     kv_scan = (\<lambda>cursor prefix s. (0, filter (\<lambda>k. is_prefix prefix k \<and> log_value s k \<noteq> None) (remdups (map fst s)))),
     kv_evict = (\<lambda>k s. (k, None) # s)\<rparr>"

lemma is_prefix_append: "is_prefix xs ys \<Longrightarrow> \<exists>u. ys = xs @ u"
  by (induction xs ys rule: is_prefix.induct) auto

interpretation write_log: redis_versions log_kv "\<lambda>s k. map_option fst (log_value s k)" log_version
  by unfold_locales (auto simp: log_kv_def log_value_def log_version_def fun_eq_iff dest: is_prefix_append split: if_splits option.splits)

section \<open>Properties\<close>

text \<open>
  C18. A task is read back as it was written. \<open>_deserialize(_serialize(task))\<close> is the task, for every task whose times lie in the years
  Python can hold: no field, time stamp to the microsecond, status or missing value is changed by the text (metadata is not kept).
\<close>

theorem task_text_roundtrip:
  assumes "\<forall>b. loads (dumps (JObj b)) = Some (JObj b)" "storable (t\<lparr>t_metadata := []\<rparr>)"
  shows "deserialize loads (serialize dumps t) = Inr (t\<lparr>t_metadata := []\<rparr>)"
proof -
  have "task_object t = task_object (t\<lparr>t_metadata := []\<rparr>)" by (simp add: task_object_def)
  then show ?thesis using assms by (simp add: deserialize_def serialize_def task_of_object_roundtrip)
qed

definition sample_task :: task where
  "sample_task = \<lparr>t_id = ''a'', t_type = ''completion'', t_status = QUEUED, t_payload = [(''prompt'', JStr ''x'')], t_expires_at = timedelta 1700000000,
     t_attempts = 0, t_result = None, t_error = None, t_created_at = Some 5, t_updated_at = None, t_locked_until = None,
     t_metadata = [], t_principal_id = ''p'', t_request_id = Some ''r''\<rparr>"

lemma sample_storable: "storable sample_task"
  by code_simp

theorem task_text_roundtrip_witness: "deserialize Some (serialize (\<lambda>v. v) sample_task) = Inr sample_task"
proof -
  have t: "sample_task\<lparr>t_metadata := []\<rparr> = sample_task" by (simp add: sample_task_def)
  show ?thesis using task_text_roundtrip [of Some "\<lambda>v. v" sample_task] sample_storable by (simp add: t)
qed

text \<open>
  C17. One claim wins. However the calls of any number of workers claiming tasks, of reclaimers and the server's expiry of keys are
  interleaved, at most one claim of a task is granted, as long as the clocks of all of them are before the end of the leases they
  take: the optimistic transaction is as good as a lock.
\<close>

theorem redis_claims_exclusive:
  assumes "redis_versions (rt_redis m) val ver" "json_inverse m" "tasks_stored m (val s)" "\<forall>x \<in> set calls. redis_call_ok l x"
    and "schedule is (s, map (start_redis m) calls) = (s', ps)"
  shows "length (filter (\<lambda>p. \<exists>x. result p = Some x \<and> granted i x) ps) \<le> 1"
proof -
  have "length (filter (\<lambda>p. \<exists>x. result p = Some x \<and> granted i x) (snd (schedule is (s, map (start_redis m) calls)))) \<le> 1"
    by (rule redis_versions.one_winner [OF assms(1,2) refl assms(3,4)])
  then show ?thesis unfolding assms(5) by simp
qed

definition log_tasks :: "(json write_log, json) redis_tasks" where
  "log_tasks = \<lparr>rt_redis = log_kv, rt_dumps = (\<lambda>v. v), rt_loads = Some, rt_prefix = ''tasks''\<rparr>"

definition one_task :: "json write_log" where
  "one_task = [(''tasks:a'', Some (JObj (task_object sample_task), 60))]"

definition claim_race :: "json write_log \<times> (json write_log, redis_call \<times> (exn + bool) option) prog list" where
  "claim_race = schedule [0, 1, 0, 1, 0, 1, 0, 1, 1, 1, 1, 1] (one_task, map (start_redis log_tasks) [RClaim 3 ''a'' 60 1000, RClaim 3 ''a'' 60 2000])"

lemma claim_race_results: "map result (snd claim_race) = [Some (RClaim 3 ''a'' 60 1000, Some (Inr True)), Some (RClaim 3 ''a'' 60 2000, Some (Inr False))]"
  by code_simp

theorem redis_claims_exclusive_witness:
  "\<exists>s' ps. schedule [0, 1, 0, 1, 0, 1, 0, 1, 1, 1, 1, 1] (one_task, map (start_redis log_tasks) [RClaim 3 ''a'' 60 1000, RClaim 3 ''a'' 60 2000]) = (s', ps) \<and>
     length (filter (\<lambda>p. \<exists>x. result p = Some x \<and> granted ''a'' x) ps) \<le> 1"
proof -
  obtain s' ps where run: "schedule [0, 1, 0, 1, 0, 1, 0, 1, 1, 1, 1, 1] (one_task, map (start_redis log_tasks) [RClaim 3 ''a'' 60 1000, RClaim 3 ''a'' 60 2000]) = (s', ps)"
    by (metis prod.exhaust)
  have m: "redis_versions (rt_redis log_tasks) (\<lambda>s k. map_option fst (log_value s k)) log_version"
    using write_log.redis_versions_axioms by (simp add: log_tasks_def)
  have j: "json_inverse log_tasks" by (simp add: json_inverse_def log_tasks_def)
  have st: "tasks_stored log_tasks (\<lambda>k. map_option fst (log_value one_task k))"
    using sample_storable by (auto simp: tasks_stored_def log_value_def one_task_def log_tasks_def serialize_def split: if_splits)
  have ok: "\<forall>x \<in> set [RClaim 3 ''a'' 60 1000, RClaim 3 ''a'' 60 2000]. redis_call_ok 3000 x" by code_simp
  have "length (filter (\<lambda>p. \<exists>x. result p = Some x \<and> granted ''a'' x) ps) \<le> 1"
    by (rule redis_claims_exclusive [OF m j st ok run])
  with run show ?thesis by blast
qed

text \<open>
  \<open>_update\<close> is not such a transaction. A worker whose lease has expired reads the task, a second worker claims it, and the first
  writes back what it read: the second claim is gone from the store.
\<close>

definition stale_task :: task where
  "stale_task = sample_task\<lparr>t_status := PROCESSING, t_attempts := 1, t_locked_until := Some 500\<rparr>"

definition update_race :: "json write_log \<times> (json write_log, (exn + bool) option) prog list" where
  "update_race = schedule [0, 1, 1, 1, 1, 0, 0] ([(''tasks:a'', Some (JObj (task_object stale_task), 60))],
     [bind (rt_mark_failed log_tasks 1000 ''a'' ''e'') (\<lambda>r. Done (Some (map_sum id (\<lambda>_. True) r))), rt_mark_processing log_tasks 3 ''a'' 60 1000])"

theorem update_overwrites_claim:
  "map result (snd update_race) = [Some (Some (Inr True)), Some (Some (Inr True))] \<and>
   (case log_value (fst update_race) ''tasks:a'' of Some (v, _) \<Rightarrow> map_sum id (\<lambda>t. (t_status t, t_attempts t)) (deserialize Some v) | None \<Rightarrow> Inl TypeError)
     = Inr (FAILED, 1)"
  by code_simp

text \<open>
  A claim that runs alone returns at its first attempt, and does what the contract of a task store says: it is granted exactly when
  the task is claimable, and the task stored afterwards is the claimed one.
\<close>

theorem redis_claim_alone:
  assumes "redis_versions (rt_redis m) val ver" "json_inverse m" "0 < lease" "storable t"
    and "val s (task_key m i) = Some (serialize (rt_dumps m) t)"
  shows "\<exists>s'. exec (rt_mark_processing m (Suc n) i lease now) s = (Some (Inr (claimable t now)), s') \<and>
    val s' = (if claimable t now then (val s)(task_key m i \<mapsto> serialize (rt_dumps m) ((claim lease now t)\<lparr>t_updated_at := Some now\<rparr>)) else val s)"
proof -
  note laws = redis_versions.get_law [OF assms(1)] redis_versions.watch_law [OF assms(1)]
  have ex: "rt_lease_expired t now = lease_expired t now" by (simp add: rt_lease_expired_def lease_expired_def)
  let ?t = "(claim lease now t)\<lparr>t_updated_at := Some now\<rparr>" and ?ttl = "kept_ttl (kv_ttl (rt_redis m) (task_key m i) s)"
  have mut: "claim_mutation lease now t = (if claimable t now then (?t, True) else (t, False))"
    by (simp add: claim_mutation_def claimable_def ex claim_def)
  obtain ok s' where e: "kv_exec (rt_redis m) (ver s (task_key m i)) (task_key m i) ?ttl (serialize (rt_dumps m) ?t) s = (ok, s')" by fastforce
  note el = redis_versions.exec_law [OF assms(1) kept_ttl_pos e]
  show ?thesis
    using assms(3-5) el by (cases "claimable t now") (simp_all add: rt_mark_processing_def exec_bind laws deserialize_serialize [OF assms(2)] mut e)
qed

end
