(* ===== verification/API.thy ===== *)
theory API
  imports Task_Service Completions Tasks_Redis
begin

text \<open>
  The edge of the HTTP API: the answer to a request that does not validate (\<open>src/app/core/errors.py\<close>), pagination
  (\<open>src/app/core/pagination.py\<close>), and the task routes with their response models
  (\<open>src/app/api/v1/completions/tasks.py\<close>, \<open>src/app/modules/messaging/tasks/schemas.py\<close>).

  FastAPI validates the body and resolves the principal before a route runs; a route takes both as arguments.
\<close>

section \<open>Validation errors\<close>

definition PYDANTIC_ERROR_MESSAGES :: "(string, string) dict" where
  "PYDANTIC_ERROR_MESSAGES =
     [(''bool_parsing'', ''Could not parse boolean value''),
      (''bool_type'', ''Expected a boolean''),
      (''bytes_too_long'', ''Bytes value is too long''),
      (''bytes_too_short'', ''Bytes value is too short''),
      (''bytes_type'', ''Expected bytes''),
      (''date_from_datetime_inexact'', ''Datetime must have zero time component''),
      (''date_from_datetime_parsing'', ''Could not parse date from datetime''),
      (''date_future'', ''Date must be in the future''),
      (''date_parsing'', ''Could not parse date''),
      (''date_past'', ''Date must be in the past''),
      (''date_type'', ''Expected a date''),
      (''datetime_future'', ''Datetime must be in the future''),
      (''datetime_object_invalid'', ''Invalid datetime object''),
      (''datetime_parsing'', ''Could not parse datetime''),
      (''datetime_past'', ''Datetime must be in the past''),
      (''datetime_type'', ''Expected a datetime''),
      (''decimal_max_digits'', ''Too many decimal digits''),
      (''decimal_max_places'', ''Too many decimal places''),
      (''decimal_parsing'', ''Could not parse decimal''),
      (''decimal_type'', ''Expected a decimal''),
      (''decimal_whole_digits'', ''Invalid decimal whole digits''),
      (''dict_type'', ''Expected a dictionary''),
      (''enum'', ''Invalid enum value, allowed values are {expected}''),
      (''extra_forbidden'', ''Extra fields are not allowed''),
      (''finite_number'', ''Expected a finite number''),
      (''float_parsing'', ''Could not parse float''),
      (''float_type'', ''Expected a float''),
      (''frozen_field'', ''Field is frozen and cannot be changed''),
      (''greater_than'', ''Value must be greater than {gt}''),
      (''greater_than_equal'', ''Value must be greater than or equal to {ge}''),
      (''int_from_float'', ''Expected an integer, got a float''),
      (''int_parsing'', ''Could not parse integer''),
      (''int_parsing_size'', ''Integer is out of range''),
      (''int_type'', ''Expected an integer''),
      (''invalid_key'', ''Invalid key''),
      (''is_instance_of'', ''Expected an instance of {class_name}''),
      (''json_invalid'', ''Invalid JSON: {error}''),
      (''json_type'', ''Expected a JSON value''),
      (''less_than'', ''Value must be less than {lt}''),
      (''less_than_equal'', ''Value must be less than or equal to {le}''),
      (''list_type'', ''Expected a list''),
      (''literal_error'', ''Expected one of: {expected}''),
      (''mapping_type'', ''Expected a mapping''),
      (''missing'', ''Field is required''),
      (''missing_argument'', ''Missing required argument''),
      (''model_attributes_type'', ''Invalid model attributes''),
      (''model_type'', ''Invalid model instance''),
      (''multiple_of'', ''Value must be a multiple of {multiple_of}''),
      (''none_required'', ''Value must be None''),
      (''set_type'', ''Expected a set''),
      (''string_pattern_mismatch'', ''String does not match pattern {pattern}''),
      (''string_too_long'', ''String is too long (max {max_length})''),
      (''string_too_short'', ''String is too short (min {min_length})''),
      (''string_type'', ''Expected a string''),
      (''time_parsing'', ''Could not parse time''),
      (''time_type'', ''Expected a time''),
      (''timezone_aware'', ''Datetime must include timezone information''),
      (''timezone_naive'', ''Datetime must not include timezone information''),
      (''too_long'', ''Value is too long''),
      (''too_short'', ''Value is too short''),
      (''tuple_type'', ''Expected a tuple''),
      (''url_parsing'', ''Could not parse URL''),
      (''url_scheme'', ''Invalid URL scheme''),
      (''url_syntax_violation'', ''URL has invalid syntax''),
      (''url_too_long'', ''URL is too long''),
      (''url_type'', ''Expected a URL''),
      (''uuid_parsing'', ''Could not parse UUID''),
      (''uuid_type'', ''Expected a UUID''),
      (''uuid_version'', ''Invalid UUID version''),
      (''value_error'', ''Invalid value'')]"

text \<open>
  \<open>template.format(**ctx)\<close> for templates whose fields are plain names: \<open>None\<close> where a name is not in \<open>ctx\<close> (\<open>KeyError\<close>). \<open>ctx\<close> gives the
  text of a value.
\<close>

function str_format :: "(string \<Rightarrow> string option) \<Rightarrow> string \<Rightarrow> string option" where
  "str_format ctx [] = Some []"
| "str_format ctx (c # cs) =
     (if c = CHR ''{'' then
        (case ctx (takeWhile (\<lambda>x. x \<noteq> CHR ''}'') cs) of
           None \<Rightarrow> None
         | Some v \<Rightarrow> map_option (\<lambda>rest. v @ rest) (str_format ctx (drop (Suc (length (takeWhile (\<lambda>x. x \<noteq> CHR ''}'') cs))) cs)))
      else map_option (\<lambda>rest. c # rest) (str_format ctx cs))"
  by pat_completeness auto
termination by (relation "measure (\<lambda>(_, cs). length cs)") auto

text \<open>\<open>str_json\<close> is \<open>str\<close> of a value. An error is the dictionary pydantic reports.\<close>

definition format_error :: "(json \<Rightarrow> string) \<Rightarrow> body \<Rightarrow> body" where
  "format_error str_json err =
     (case dict_get PYDANTIC_ERROR_MESSAGES (case dict_get err ''type'' of Some (JStr t) \<Rightarrow> t | _ \<Rightarrow> '''') of
        None \<Rightarrow> err
      | Some template \<Rightarrow>
          (let ctx = (case dict_get err ''ctx'' of Some (JObj c) \<Rightarrow> c | _ \<Rightarrow> []);
               msg = dflt template (str_format (\<lambda>name. map_option str_json (dict_get ctx name)) template) in
           dict_set err ''msg'' (JStr msg)))"

definition format_validation_errors :: "(json \<Rightarrow> string) \<Rightarrow> body list \<Rightarrow> body list" where
  "format_validation_errors str_json errs = map (format_error str_json) errs"

text \<open>\<open>encode\<close> is \<open>jsonable_encoder\<close>.\<close>

definition validation_error_handler :: "(json \<Rightarrow> string) \<Rightarrow> (json \<Rightarrow> json) \<Rightarrow> string \<Rightarrow> body list \<Rightarrow> json_response" where
  "validation_error_handler str_json encode ctx errs =
     \<lparr>resp_status = 422, resp_headers = None,
      resp_content = envelope ctx ''validation_error'' ''Request validation failed''
        (Some (encode (JList (map JObj (format_validation_errors str_json errs))))) None\<rparr>"

section \<open>Pagination\<close>

record pagination_params =
  pp_limit :: int
  pp_offset :: int

definition PaginationParams :: "int option \<Rightarrow> int option \<Rightarrow> exn + pagination_params" where
  "PaginationParams limit offset =
     (let l = dflt 50 limit; off = dflt 0 offset in
      if 1 \<le> l \<and> l \<le> 100 \<and> 0 \<le> off then Inr \<lparr>pp_limit = l, pp_offset = off\<rparr> else Inl ValidationError)"

record 'a list_response =
  lr_items :: "'a list"
  lr_limit :: int
  lr_offset :: int
  lr_total :: int

definition build_list_response :: "'a list \<Rightarrow> int \<Rightarrow> pagination_params \<Rightarrow> exn + 'a list_response" where
  "build_list_response items total_count params =
     (if total_count < 0 then Inl ValidationError
      else Inr \<lparr>lr_items = items, lr_limit = pp_limit params, lr_offset = pp_offset params, lr_total = total_count\<rparr>)"

section \<open>Task routes\<close>

text \<open>The models strip white space around every text they declare, the keys of dictionaries included.\<close>

definition strip_keys :: "body \<Rightarrow> body" where
  "strip_keys b = fold (\<lambda>(k, v) d. dict_set d (strip k) v) b []"

record task_submit_response =
  sub_task_id :: string
  sub_status :: string
  sub_expires_at :: datetime

definition TaskSubmitResponse :: "task \<Rightarrow> task_submit_response" where
  "TaskSubmitResponse t = \<lparr>sub_task_id = strip (t_id t), sub_status = status_str (t_status t), sub_expires_at = t_expires_at t\<rparr>"

record task_response =
  rsp_task_id :: string
  rsp_type :: string
  rsp_status :: string
  rsp_payload :: body
  rsp_result :: "body option"
  rsp_error :: "string option"
  rsp_attempts :: int
  rsp_created_at :: "datetime option"
  rsp_updated_at :: "datetime option"
  rsp_expires_at :: datetime

definition TaskResponse :: "task \<Rightarrow> task_response" where
  "TaskResponse t = \<lparr>rsp_task_id = strip (t_id t), rsp_type = strip (t_type t), rsp_status = status_str (t_status t),
     rsp_payload = strip_keys (t_payload t), rsp_result = map_option strip_keys (t_result t), rsp_error = map_option strip (t_error t),
     rsp_attempts = t_attempts t, rsp_created_at = t_created_at t, rsp_updated_at = t_updated_at t, rsp_expires_at = t_expires_at t\<rparr>"

definition COMPLETION_TASK_TYPE :: string where
  "COMPLETION_TASK_TYPE = ''completion''"

definition submit_completion ::
  "task_service_cfg \<Rightarrow> (task \<Rightarrow> 'w \<Rightarrow> (exn + unit) \<times> 'w) \<Rightarrow> datetime \<Rightarrow> string \<Rightarrow> completion_request \<Rightarrow> string \<Rightarrow> string \<Rightarrow> 'w
     \<Rightarrow> (exn + task_submit_response) \<times> 'w" where
  "submit_completion c submit_to now uuid payload principal_id request_id w =
     (case task_submit c submit_to now uuid COMPLETION_TASK_TYPE (request_dump payload) principal_id (Some request_id) w of
        (Inl e, w') \<Rightarrow> (Inl e, w')
      | (Inr t, w') \<Rightarrow> (Inr (TaskSubmitResponse t), w'))"

definition get_completion_task :: "'s task_api \<Rightarrow> string \<Rightarrow> string \<Rightarrow> 's \<Rightarrow> exn + task_response" where
  "get_completion_task api task_id principal_id s = map_sum id TaskResponse (task_require_owned api task_id principal_id COMPLETION_TASK_TYPE s)"

section \<open>Properties\<close>

text \<open>Every message of the table can be filled from the context values pydantic gives with its error type, and no field is left in it.\<close>

definition known_fields :: "string list" where
  "known_fields = [''expected'', ''gt'', ''ge'', ''lt'', ''le'', ''class_name'', ''error'', ''multiple_of'', ''pattern'', ''max_length'', ''min_length'']"

lemma messages_fill:
  "list_all (\<lambda>(_, template). case str_format (\<lambda>name. if name \<in> set known_fields then Some ''x'' else None) template of
     None \<Rightarrow> False | Some msg \<Rightarrow> list_all (\<lambda>c. c \<noteq> CHR ''{'' \<and> c \<noteq> CHR ''}'') msg) PYDANTIC_ERROR_MESSAGES"
  by code_simp

text \<open>Formatting changes the message of an error and nothing else of it.\<close>

lemma format_error_keeps: "k \<noteq> ''msg'' \<Longrightarrow> dict_get (format_error str_json err) k = dict_get err k"
  by (simp add: format_error_def Let_def dict_get_set split: option.splits)

section \<open>Submit, then read\<close>

text \<open>What reading a task back over the API has to answer, for its submitter and for others.\<close>

definition readable_by_owner :: "'s task_api \<Rightarrow> string \<Rightarrow> string \<Rightarrow> completion_request \<Rightarrow> task_submit_response \<Rightarrow> 's \<Rightarrow> bool" where
  "readable_by_owner api i p payload r s \<longleftrightarrow>
     (\<exists>r'. get_completion_task api i p s = Inr r' \<and> rsp_task_id r' = sub_task_id r \<and> rsp_status r' = sub_status r \<and> rsp_expires_at r' = sub_expires_at r \<and>
        rsp_payload r' = strip_keys (request_dump payload) \<and> rsp_result r' = None \<and> rsp_error r' = None \<and> rsp_attempts r' = 0) \<and>
     (\<forall>p'. p' \<noteq> p \<longrightarrow> get_completion_task api i p' s = Inl (task_not_found i))"

context task_store
begin

lemma submitted_readable:
  assumes inv: "inv s" and sub: "submit_completion c (queue_submit api q_api now msg_id) now i payload p request_id (s, q) = (Inr r, s', q')"
  shows "inv s' \<and> sub_status r = ''queued'' \<and> readable_by_owner api i p payload r s'"
proof -
  let ?t = "new_task c now i COMPLETION_TASK_TYPE (request_dump payload) p (Some request_id)"
  obtain ru s1 where cr: "tk_create api now ?t s = (ru, s1)" by fastforce
  have r: "ru = Inr ()" "s' = s1" "r = TaskSubmitResponse ?t"
    using sub by (auto simp: submit_completion_def task_submit_def queue_submit_def cr Let_def split: sum.splits prod.splits)
  have id: "t_id ?t = i" by (simp add: new_task_def)
  from create_law [OF inv cr] r(1,2) have s': "inv s'" "abs s' i = Some (core ?t)" by (auto simp: id split: if_splits)
  obtain u where u: "task_require_owned api i p COMPLETION_TASK_TYPE s' = Inr u" "core ?t = core u"
    using owned_law [OF s'(1), of i p COMPLETION_TASK_TYPE] s'(2)
    by (cases "task_require_owned api i p COMPLETION_TASK_TYPE s'") (auto simp: new_task_def core_def)
  have eq: "t_id u = i" "t_status u = QUEUED" "t_expires_at u = t_expires_at ?t" "t_payload u = request_dump payload" "t_result u = None" "t_error u = None"
    "t_attempts u = 0"
    using u(2) [symmetric] by (cases u; simp add: core_def new_task_def)+
  have "get_completion_task api i p' s' = Inl (task_not_found i)" if "p' \<noteq> p" for p'
  proof (cases "task_require_owned api i p' COMPLETION_TASK_TYPE s'")
    case (Inl e)
    then show ?thesis using owned_law [OF s'(1), of i p' COMPLETION_TASK_TYPE] by (simp add: get_completion_task_def)
  next
    case (Inr b)
    then have "core ?t = core b" "t_principal_id b = p'" using owned_law [OF s'(1), of i p' COMPLETION_TASK_TYPE] s'(2) by auto
    then have "p' = p" by (cases b) (simp add: core_def new_task_def)
    with that show ?thesis by simp
  qed
  then show ?thesis
    using u(1) eq s'(1) by (auto simp: readable_by_owner_def get_completion_task_def r(3) TaskResponse_def TaskSubmitResponse_def new_task_def)
qed

end

text \<open>
  C20. What is submitted over the API can be read over it, by its submitter alone: after any history of the task store, a submission that is
  accepted answers the id under which its submitter at once reads the queued task, with the payload and expiry of the submission, while
  every other principal is told that there is no such task. The same holds for the memory and the Postgres store.
\<close>

theorem submitted_task_read_by_owner_only:
  "(\<forall>s' q'. submit_completion c (queue_submit mem_tasks_api q_api now msg_id) now i payload p request_id (mem_history ys, q) = (Inr r, s', q') \<longrightarrow>
      sub_status r = ''queued'' \<and> readable_by_owner mem_tasks_api i p payload r s') \<and>
   (\<forall>s' q'. submit_completion c (queue_submit (pg_tasks_api take) q_api now msg_id) now i payload p request_id (pg_history ys, q) = (Inr r, s', q') \<longrightarrow>
      sub_status r = ''queued'' \<and> readable_by_owner (pg_tasks_api take) i p payload r s')"
  by (auto dest: mem_task.submitted_readable [OF history_inv(1)] pg_task.submitted_readable [OF history_inv(2)])

definition sample_submission :: "(exn + task_submit_response) \<times> mem_tasks \<times> mem_queue" where
  "sample_submission = submit_completion \<lparr>ts_ttl_seconds = 60, ts_lease_seconds = 10\<rparr> (queue_submit mem_tasks_api mem_queue_api 0 ''m'') 0 ''t9''
     sample_request ''alice'' ''req'' (mem_history [], InMemoryQueueGateway)"

theorem submitted_task_read_by_owner_only_witness:
  "case sample_submission of (Inr r, s', q') \<Rightarrow> readable_by_owner mem_tasks_api ''t9'' ''alice'' sample_request r s' | _ \<Rightarrow> False"
proof -
  have "isl (fst sample_submission) = False" by code_simp
  then obtain r where "fst sample_submission = Inr r" by (cases "fst sample_submission") auto
  then obtain s' q' where r: "sample_submission = (Inr r, s', q')" by (metis prod.collapse)
  have "readable_by_owner mem_tasks_api ''t9'' ''alice'' sample_request r s'"
    using conjunct1 [OF submitted_task_read_by_owner_only [where ys = "[]" and q = InMemoryQueueGateway and q_api = mem_queue_api]] r [unfolded sample_submission_def]
    by blast
  then show ?thesis by (simp add: r)
qed

end
