(* ===== verification/Queue_Rabbit.thy ===== *)
theory Queue_Rabbit
  imports Queue Interleaving
begin

text \<open>
  The queue gateway on RabbitMQ (\<open>src/app/modules/messaging/queue/adapters/rabbitmq.py\<close>).

  The broker is an argument, the record of the operations the gateway performs on its channel; what it promises is the locale
  \<open>amqp_broker\<close>. Any number of gateways, each with a channel and its own \<open>_inflight\<close>, share a broker: the state is the broker and the
  inflight dictionaries by channel. A body is the text of its bytes; \<open>loads\<close> and \<open>dumps\<close> are the JSON module (\<open>None\<close> where it raises).
\<close>

section \<open>The gateway\<close>

text \<open>A header that is an \<open>int\<close> in Python (a boolean counts as one), or another value.\<close>

datatype header = HInt int | HOther string

record incoming =
  in_delivery_tag :: nat
  in_message_id :: "string option"
  in_body :: string
  in_headers :: "(string, header) dict option"
  in_redelivered :: bool

record outgoing =
  out_body :: string
  out_message_id :: "string option"
  out_headers :: "(string, header) dict"

text \<open>What a pull answers: a message, none, or that the time is up.\<close>

datatype pull = Got incoming | NoMessage | PullTimeout

datatype topology = DeclareExchange string | DeclareQueue string "(string, string) dict" | BindQueue string string string

record 'b amqp_api =
  am_publish :: "string \<Rightarrow> outgoing \<Rightarrow> 'b \<Rightarrow> 'b"
  am_get :: "nat \<Rightarrow> string \<Rightarrow> seconds option \<Rightarrow> 'b \<Rightarrow> pull \<times> 'b"
  am_ack :: "nat \<Rightarrow> nat \<Rightarrow> 'b \<Rightarrow> 'b"
  am_reject :: "nat \<Rightarrow> nat \<Rightarrow> 'b \<Rightarrow> 'b"
  am_declare :: "topology \<Rightarrow> 'b \<Rightarrow> exn option \<times> 'b"

record 'b rabbit_gateway =
  rq_channel :: nat
  rq_api :: "'b amqp_api"
  rq_dumps :: "body \<Rightarrow> string"
  rq_loads :: "string \<Rightarrow> body option"
  rq_url :: string
  rq_queue_name :: string
  rq_dead_letter_enabled :: bool
  rq_dead_letter_exchange :: string
  rq_dead_letter_queue :: string
  rq_connected :: bool

definition require_aio_pika :: "bool \<Rightarrow> exn option" where
  "require_aio_pika installed =
     (if installed then None
      else Some (RuntimeError (''RabbitMQ adapter requires the [rabbitmq] extra: uv pip install '' @ [CHR 0x27] @ ''fastapi-template[rabbitmq]'' @ [CHR 0x27])))"

definition RabbitMQQueueGateway ::
  "bool \<Rightarrow> nat \<Rightarrow> 'b amqp_api \<Rightarrow> (body \<Rightarrow> string) \<Rightarrow> (string \<Rightarrow> body option) \<Rightarrow> string \<Rightarrow> string \<Rightarrow> bool \<Rightarrow> string \<Rightarrow> string \<Rightarrow> exn + 'b rabbit_gateway" where
  "RabbitMQQueueGateway installed channel api dumps loads url queue_name dead_letter_enabled dead_letter_exchange dead_letter_queue =
     (case require_aio_pika installed of
        Some e \<Rightarrow> Inl e
      | None \<Rightarrow>
          if url = '''' then Inl (ValueError ''url is required for RabbitMQ gateway'')
          else Inr \<lparr>rq_channel = channel, rq_api = api, rq_dumps = dumps, rq_loads = loads, rq_url = url, rq_queue_name = queue_name,
                    rq_dead_letter_enabled = dead_letter_enabled,
                    rq_dead_letter_exchange = (if dead_letter_exchange \<noteq> '''' then dead_letter_exchange else queue_name @ ''.dlx''),
                    rq_dead_letter_queue = (if dead_letter_queue \<noteq> '''' then dead_letter_queue else queue_name @ ''.dead''), rq_connected = False\<rparr>)"

text \<open>The declarations of \<open>open\<close>, in order; all are durable.\<close>

definition rabbit_topology :: "'b rabbit_gateway \<Rightarrow> topology list" where
  "rabbit_topology g =
     (if rq_dead_letter_enabled g
      then [DeclareExchange (rq_dead_letter_exchange g), DeclareQueue (rq_dead_letter_queue g) [],
            BindQueue (rq_dead_letter_queue g) (rq_dead_letter_exchange g) (rq_queue_name g),
            DeclareQueue (rq_queue_name g) [(''x-dead-letter-exchange'', rq_dead_letter_exchange g), (''x-dead-letter-routing-key'', rq_queue_name g)]]
      else [DeclareQueue (rq_queue_name g) []])"

fun declare_all :: "'b amqp_api \<Rightarrow> topology list \<Rightarrow> 'b \<Rightarrow> exn option \<times> 'b" where
  "declare_all api [] s = (None, s)"
| "declare_all api (t # ts) s = (case am_declare api t s of (Some e, s') \<Rightarrow> (Some e, s') | (None, s') \<Rightarrow> declare_all api ts s')"

text \<open>\<open>connect\<close> is the exception of \<open>connect_robust\<close>, \<open>channel\<close> that of opening the channel and setting its prefetch count, if any.\<close>

definition rabbit_open :: "exn option \<Rightarrow> exn option \<Rightarrow> 'b rabbit_gateway \<Rightarrow> 'b \<Rightarrow> (exn + unit) \<times> 'b rabbit_gateway \<times> 'b" where
  "rabbit_open connect channel g s = (case connect of
      Some e \<Rightarrow> (Inl e, g, s)
    | None \<Rightarrow> (case (case channel of Some e \<Rightarrow> (Some e, s) | None \<Rightarrow> declare_all (rq_api g) (rabbit_topology g) s) of
        (Some e, s') \<Rightarrow> (Inl e, g\<lparr>rq_connected := False\<rparr>, s')
      | (None, s') \<Rightarrow> (Inr (), g\<lparr>rq_connected := True\<rparr>, s')))"

definition rabbit_close :: "'b rabbit_gateway \<Rightarrow> 'b rabbit_gateway" where
  "rabbit_close g = g\<lparr>rq_connected := False\<rparr>"

type_synonym 'b rabbit_state = "'b \<times> (nat \<Rightarrow> (string, incoming) dict)"

definition on_broker :: "('b \<Rightarrow> 'b) \<Rightarrow> 'b rabbit_state \<Rightarrow> unit \<times> 'b rabbit_state" where
  "on_broker f s = ((), f (fst s), snd s)"

text \<open>The message sent has no id of its own, so \<open>message.message_id or ""\<close> is empty.\<close>

definition rabbit_send :: "'b rabbit_gateway \<Rightarrow> body \<Rightarrow> ('b rabbit_state, exn + string) prog" where
  "rabbit_send g payload =
     (let message = \<lparr>out_body = rq_dumps g payload, out_message_id = None, out_headers = []\<rparr> in
      await (on_broker (am_publish (rq_api g) (rq_queue_name g) message)) (\<lambda>_. Done (Inr (dflt '''' (out_message_id message)))))"

definition rabbit_receive_count :: "incoming \<Rightarrow> int" where
  "rabbit_receive_count x =
     (let headers = dflt [] (in_headers x);
          c1 = (case dict_get headers ''x-delivery-count'' of Some (HInt n) \<Rightarrow> max 1 (n + 1) | _ \<Rightarrow> 1);
          c2 = (case dict_get headers ''x-attempt'' of Some (HInt n) \<Rightarrow> max c1 n | _ \<Rightarrow> c1) in
      if in_redelivered x then max c2 2 else c2)"

definition incoming_id :: "incoming \<Rightarrow> string" where
  "incoming_id x = (if dflt '''' (in_message_id x) \<noteq> '''' then dflt '''' (in_message_id x) else nat_str (in_delivery_tag x))"

definition wrap_message :: "'b rabbit_gateway \<Rightarrow> incoming \<Rightarrow> exn + qmsg" where
  "wrap_message g x = (case rq_loads g (in_body x) of
      None \<Rightarrow> Inl JSONDecodeError
    | Some b \<Rightarrow> Inr \<lparr>qm_id = incoming_id x, qm_body = b, qm_receive_count = rabbit_receive_count x\<rparr>)"

text \<open>A pull, and the first statements of \<open>_wrap\<close>: what arrives is put into \<open>_inflight\<close>.\<close>

definition pull_one :: "'b rabbit_gateway \<Rightarrow> seconds option \<Rightarrow> 'b rabbit_state \<Rightarrow> pull \<times> 'b rabbit_state" where
  "pull_one g timeout s = (case am_get (rq_api g) (rq_channel g) (rq_queue_name g) timeout (fst s) of
      (Got x, b') \<Rightarrow> (Got x, b', (snd s)(rq_channel g := dict_set (snd s (rq_channel g)) (incoming_id x) x))
    | (r, b') \<Rightarrow> (r, b', snd s))"

primrec pull_more :: "'b rabbit_gateway \<Rightarrow> seconds option \<Rightarrow> nat \<Rightarrow> qmsg list \<Rightarrow> ('b rabbit_state, exn + qmsg list) prog" where
  "pull_more g deadline 0 messages = Done (Inr messages)"
| "pull_more g deadline (Suc n) messages = await (pull_one g deadline) (\<lambda>r. case r of
      Got x \<Rightarrow> (case wrap_message g x of Inl e \<Rightarrow> Done (Inl e) | Inr m \<Rightarrow> pull_more g deadline n (messages @ [m]))
    | _ \<Rightarrow> Done (Inr messages))"

definition rabbit_receive :: "'b rabbit_gateway \<Rightarrow> int \<Rightarrow> seconds \<Rightarrow> ('b rabbit_state, exn + qmsg list) prog" where
  "rabbit_receive g max_messages wait_seconds =
     (let deadline = (if wait_seconds > 0 then Some wait_seconds else None) in
      await (pull_one g deadline) (\<lambda>r. case r of
        NoMessage \<Rightarrow> Done (Inr [])
      | PullTimeout \<Rightarrow> Done (Inl TimeoutError)
      | Got x \<Rightarrow> (case wrap_message g x of
            Inl e \<Rightarrow> Done (Inl e)
          | Inr m \<Rightarrow> pull_more g deadline (nat (max_messages - 1)) [m])))"

definition pop_inflight :: "'b rabbit_gateway \<Rightarrow> string \<Rightarrow> 'b rabbit_state \<Rightarrow> incoming option \<times> 'b rabbit_state" where
  "pop_inflight g i s = (dict_get (snd s (rq_channel g)) i, fst s, (snd s)(rq_channel g := dict_pop (snd s (rq_channel g)) i))"

definition rabbit_ack :: "'b rabbit_gateway \<Rightarrow> qmsg \<Rightarrow> ('b rabbit_state, exn + unit) prog" where
  "rabbit_ack g m = await (pop_inflight g (qm_id m)) (\<lambda>incoming. case incoming of
      None \<Rightarrow> Done (Inr ())
    | Some x \<Rightarrow> await (on_broker (am_ack (rq_api g) (rq_channel g) (in_delivery_tag x))) (\<lambda>_. Done (Inr ())))"

definition republished :: "incoming \<Rightarrow> int \<Rightarrow> outgoing" where
  "republished x receive_count = \<lparr>out_body = in_body x, out_message_id = in_message_id x,
     out_headers = dict_set (dflt [] (in_headers x)) ''x-attempt'' (HInt (receive_count + 1))\<rparr>"

definition rabbit_nack :: "'b rabbit_gateway \<Rightarrow> qmsg \<Rightarrow> bool \<Rightarrow> ('b rabbit_state, exn + unit) prog" where
  "rabbit_nack g m requeue = await (pop_inflight g (qm_id m)) (\<lambda>incoming. case incoming of
      None \<Rightarrow> Done (Inr ())
    | Some x \<Rightarrow>
        if \<not> requeue then await (on_broker (am_reject (rq_api g) (rq_channel g) (in_delivery_tag x))) (\<lambda>_. Done (Inr ()))
        else await (on_broker (am_publish (rq_api g) (rq_queue_name g) (republished x (qm_receive_count m)))) (\<lambda>_.
             await (on_broker (am_ack (rq_api g) (rq_channel g) (in_delivery_tag x))) (\<lambda>_. Done (Inr ()))))"

section \<open>What RabbitMQ promises\<close>

text \<open>
  For a queue \<open>q\<close> declared with a dead-letter exchange: \<open>present\<close> is the multiset of the bodies the broker has, ready or delivered and not
  settled in \<open>q\<close>, or dead-lettered from it; \<open>delivered s ch tag\<close> the body that was delivered on a channel under a tag (tags are not used again).
\<close>

locale amqp_broker =
  fixes api :: "'b amqp_api" and q :: string and present :: "'b \<Rightarrow> string multiset" and delivered :: "'b \<Rightarrow> nat \<Rightarrow> nat \<Rightarrow> string option"
  assumes publish_law: "add_mset (out_body x) (present s) \<subseteq># present (am_publish api q x s) \<and> delivered (am_publish api q x s) = delivered s"
    and get_law: "am_get api ch q timeout s = (r, s') \<Longrightarrow> present s \<subseteq># present s' \<and>
      (\<forall>c tag t. delivered s c tag = Some t \<longrightarrow> delivered s' c tag = Some t)"
    and get_message: "am_get api ch q timeout s = (Got m, s') \<Longrightarrow> delivered s' ch (in_delivery_tag m) = Some (in_body m)"
    and ack_law: "delivered s ch tag = Some t \<Longrightarrow> present s \<subseteq># add_mset t (present (am_ack api ch tag s))"
    and ack_delivered: "delivered (am_ack api ch tag s) = delivered s"
    and reject_law: "present s \<subseteq># present (am_reject api ch tag s) \<and> delivered (am_reject api ch tag s) = delivered s"

section \<open>No message lost\<close>

text \<open>Tokens: \<open>Handed ch tag t\<close>, a delivery of body \<open>t\<close>; \<open>Copied t\<close>, a second copy of \<open>t\<close> was published, and one may be removed.\<close>

datatype rabbit_token = Handed nat nat string | Copied string

fun copies :: "rabbit_token \<Rightarrow> string multiset" where
  "copies (Handed ch tag t) = {#}"
| "copies (Copied t) = {#t#}"

definition inflight_ok :: "('b \<Rightarrow> nat \<Rightarrow> nat \<Rightarrow> string option) \<Rightarrow> 'b rabbit_state \<Rightarrow> bool" where
  "inflight_ok delivered s \<longleftrightarrow> (\<forall>ch i x. dict_get (snd s ch) i = Some x \<longrightarrow> delivered (fst s) ch (in_delivery_tag x) = Some (in_body x))"

definition rabbit_inv :: "('b \<Rightarrow> string multiset) \<Rightarrow> ('b \<Rightarrow> nat \<Rightarrow> nat \<Rightarrow> string option) \<Rightarrow> string multiset \<Rightarrow> 'b rabbit_state \<Rightarrow> rabbit_token multiset \<Rightarrow> bool" where
  "rabbit_inv present delivered B s G \<longleftrightarrow> B + (\<Sum>x\<in>#G. copies x) \<subseteq># present (fst s) \<and> inflight_ok delivered s \<and>
     (\<forall>ch tag t. Handed ch tag t \<in># G \<longrightarrow> delivered (fst s) ch tag = Some t)"

lemma rabbit_inv_grow:
  assumes "rabbit_inv present delivered B s G" "present (fst s) \<subseteq># present (fst s')" "inflight_ok delivered s'"
    and "\<And>c tag t. delivered (fst s) c tag = Some t \<Longrightarrow> delivered (fst s') c tag = Some t"
  shows "rabbit_inv present delivered B s' G"
  using assms unfolding rabbit_inv_def by (meson subset_mset.order_trans)

lemma rabbit_inv_copied:
  assumes "rabbit_inv present delivered B s G" "add_mset t (present (fst s)) \<subseteq># present (fst s')" "delivered (fst s') = delivered (fst s)" "snd s' = snd s"
  shows "rabbit_inv present delivered B s' (add_mset (Copied t) G)"
proof -
  have "add_mset t (B + (\<Sum>x\<in>#G. copies x)) \<subseteq># add_mset t (present (fst s))" using assms(1) by (simp add: rabbit_inv_def)
  also have "\<dots> \<subseteq># present (fst s')" by (rule assms(2))
  finally show ?thesis using assms(1,3,4) by (auto simp: rabbit_inv_def inflight_ok_def)
qed

lemma rabbit_inv_removed:
  assumes "rabbit_inv present delivered B s (add_mset (Copied t) G)" "present (fst s) \<subseteq># add_mset t (present (fst s'))"
    and "delivered (fst s') = delivered (fst s)" "snd s' = snd s"
  shows "rabbit_inv present delivered B s' G"
proof -
  have "add_mset t (B + (\<Sum>x\<in>#G. copies x)) \<subseteq># present (fst s)" using assms(1) by (simp add: rabbit_inv_def)
  also have "\<dots> \<subseteq># add_mset t (present (fst s'))" by (rule assms(2))
  finally show ?thesis using assms(1,3,4) by (auto simp: rabbit_inv_def inflight_ok_def)
qed

lemma inflight_pop: "inflight_ok delivered s \<Longrightarrow> pop_inflight g i s = (r, s') \<Longrightarrow>
  inflight_ok delivered s' \<and> fst s' = fst s \<and> (\<forall>x. r = Some x \<longrightarrow> delivered (fst s) (rq_channel g) (in_delivery_tag x) = Some (in_body x))"
  by (auto simp: inflight_ok_def pop_inflight_def dict_get_pop split: if_splits)

context amqp_broker
begin

lemma safe_pull:
  assumes g: "rq_api g = api" "rq_queue_name g = q" and f: "\<And>r. safe (rabbit_inv present delivered B) Q {#} (f r)"
  shows "safe (rabbit_inv present delivered B) Q {#} (await (pull_one g timeout) f)"
proof (rule safe_await)
  fix s h r s' assume "rabbit_inv present delivered B s ({#} + h)" and cmd: "pull_one g timeout s = (r, s')"
  then have I: "rabbit_inv present delivered B s h" by simp
  obtain r' b' where get: "am_get api (rq_channel g) q timeout (fst s) = (r', b')" by fastforce
  have s': "fst s' = b'" and infl: "snd s' = (case r' of Got x \<Rightarrow> (snd s)(rq_channel g := dict_set (snd s (rq_channel g)) (incoming_id x) x) | _ \<Rightarrow> snd s)"
    using cmd by (auto simp: pull_one_def g get split: pull.splits)
  note law = get_law [OF get]
  have old: "delivered b' ch (in_delivery_tag x) = Some (in_body x)" if "dict_get (snd s ch) i = Some x" for ch i x
    using I law that by (simp add: rabbit_inv_def inflight_ok_def)
  have "inflight_ok delivered s'"
  proof (cases r')
    case (Got x)
    then show ?thesis using old get_message [OF get [unfolded Got]] by (auto simp: inflight_ok_def s' infl dict_get_set split: if_splits)
  qed (use old in \<open>simp_all add: inflight_ok_def s' infl\<close>)
  then have "rabbit_inv present delivered B s' ({#} + h)" using rabbit_inv_grow [OF I] law by (simp add: s')
  then show "\<exists>g'. rabbit_inv present delivered B s' (g' + h) \<and> safe (rabbit_inv present delivered B) Q g' (f r)" using f by blast
qed

lemma safe_pull_more:
  assumes g: "rq_api g = api" "rq_queue_name g = q"
  shows "safe (rabbit_inv present delivered B) (\<lambda>r g. True) {#} (pull_more g deadline n ms)"
proof (induction n arbitrary: ms)
  case (Suc n)
  show ?case unfolding pull_more.simps by (rule safe_pull [OF g]) (auto intro: safe_Done Suc.IH split: pull.split sum.split)
qed (simp add: safe_Done)

lemma safe_rabbit_receive:
  assumes g: "rq_api g = api" "rq_queue_name g = q"
  shows "safe (rabbit_inv present delivered B) (\<lambda>r g. True) {#} (rabbit_receive g n wait)"
  unfolding rabbit_receive_def Let_def
  by (rule safe_pull [OF g]) (auto intro: safe_Done safe_pull_more [OF g] split: pull.split sum.split)

lemma safe_publish:
  assumes f: "safe (rabbit_inv present delivered B) Q (add_mset (Copied (out_body x)) g) (f ())"
  shows "safe (rabbit_inv present delivered B) Q g (await (on_broker (am_publish api q x)) f)"
proof (rule safe_await)
  fix s h r s' assume I: "rabbit_inv present delivered B s (g + h)" and cmd: "on_broker (am_publish api q x) s = (r, s')"
  have s': "fst s' = am_publish api q x (fst s)" "snd s' = snd s" using cmd by (auto simp: on_broker_def)
  have "rabbit_inv present delivered B s' (add_mset (Copied (out_body x)) (g + h))"
    by (rule rabbit_inv_copied [OF I]) (use publish_law [of x "fst s"] s' in auto)
  then have "rabbit_inv present delivered B s' (add_mset (Copied (out_body x)) g + h)" by simp
  then show "\<exists>g'. rabbit_inv present delivered B s' (g' + h) \<and> safe (rabbit_inv present delivered B) Q g' (f r)"
    using f by (intro exI [of _ "add_mset (Copied (out_body x)) g"]) simp
qed

lemma safe_rabbit_send:
  assumes g: "rq_api g = api" "rq_queue_name g = q"
  shows "safe (rabbit_inv present delivered B) (\<lambda>r g. True) {#} (rabbit_send g payload)"
  unfolding rabbit_send_def Let_def g by (rule safe_publish) (simp add: safe_Done)

lemma safe_settle:
  "safe (rabbit_inv present delivered B) (\<lambda>r g. True) {#Copied t, Handed ch tag t#} (await (on_broker (am_ack api ch tag)) (\<lambda>_. Done (Inr ())))"
proof (rule safe_await)
  fix s h r s' assume I: "rabbit_inv present delivered B s ({#Copied t, Handed ch tag t#} + h)" and cmd: "on_broker (am_ack api ch tag) s = (r, s')"
  have s': "fst s' = am_ack api ch tag (fst s)" "snd s' = snd s" using cmd by (auto simp: on_broker_def)
  have "delivered (fst s) ch tag = Some t" using I by (simp add: rabbit_inv_def)
  then have "rabbit_inv present delivered B s' ({#Handed ch tag t#} + h)"
    using rabbit_inv_removed [of present delivered B s t "{#Handed ch tag t#} + h" s'] I ack_law [of "fst s" ch tag t] ack_delivered [of ch tag "fst s"] s' by simp
  then show "\<exists>g'. rabbit_inv present delivered B s' (g' + h) \<and> safe (rabbit_inv present delivered B) (\<lambda>r g. True) g' (Done (Inr ()))"
    by (intro exI [of _ "{#Handed ch tag t#}"]) (simp add: safe_Done)
qed

lemma safe_reject:
  "safe (rabbit_inv present delivered B) (\<lambda>r g. True) g (await (on_broker (am_reject api ch tag)) (\<lambda>_. Done (Inr ())))"
proof (rule safe_await)
  fix s h r s' assume I: "rabbit_inv present delivered B s (g + h)" and cmd: "on_broker (am_reject api ch tag) s = (r, s')"
  have s': "fst s' = am_reject api ch tag (fst s)" "snd s' = snd s" using cmd by (auto simp: on_broker_def)
  have "rabbit_inv present delivered B s' (g + h)"
    by (rule rabbit_inv_grow [OF I]) (use I reject_law [of "fst s" ch tag] s' in \<open>auto simp: rabbit_inv_def inflight_ok_def\<close>)
  then show "\<exists>g'. rabbit_inv present delivered B s' (g' + h) \<and> safe (rabbit_inv present delivered B) (\<lambda>r g. True) g' (Done (Inr ()))"
    by (intro exI [of _ g]) (simp add: safe_Done)
qed

lemma safe_rabbit_nack:
  assumes g: "rq_api g = api" "rq_queue_name g = q"
  shows "safe (rabbit_inv present delivered B) (\<lambda>r g. True) {#} (rabbit_nack g m requeue)"
  unfolding rabbit_nack_def
proof (rule safe_await)
  fix s h r s' assume "rabbit_inv present delivered B s ({#} + h)" and cmd: "pop_inflight g (qm_id m) s = (r, s')"
  then have I: "rabbit_inv present delivered B s h" by simp
  have ok: "inflight_ok delivered s' \<and> fst s' = fst s \<and> (\<forall>x. r = Some x \<longrightarrow> delivered (fst s) (rq_channel g) (in_delivery_tag x) = Some (in_body x))"
    by (rule inflight_pop [OF _ cmd]) (use I in \<open>simp add: rabbit_inv_def\<close>)
  have I': "rabbit_inv present delivered B s' h" by (rule rabbit_inv_grow [OF I]) (use ok in auto)
  show "\<exists>g'. rabbit_inv present delivered B s' (g' + h) \<and> safe (rabbit_inv present delivered B) (\<lambda>r g. True) g' (case r of
      None \<Rightarrow> Done (Inr () :: exn + unit)
    | Some x \<Rightarrow>
        if \<not> requeue then await (on_broker (am_reject (rq_api g) (rq_channel g) (in_delivery_tag x))) (\<lambda>_. Done (Inr ()))
        else await (on_broker (am_publish (rq_api g) (rq_queue_name g) (republished x (qm_receive_count m)))) (\<lambda>_.
             await (on_broker (am_ack (rq_api g) (rq_channel g) (in_delivery_tag x))) (\<lambda>_. Done (Inr ()))))"
  proof (cases r)
    case None
    then show ?thesis using I' by (intro exI [of _ "{#}"]) (simp add: safe_Done)
  next
    case (Some x)
    let ?t = "Handed (rq_channel g) (in_delivery_tag x) (in_body x)"
    have "rabbit_inv present delivered B s' ({#?t#} + h)" using I' ok Some by (auto simp: rabbit_inv_def)
    moreover have "safe (rabbit_inv present delivered B) (\<lambda>r g. True) {#?t#} (await (on_broker (am_publish api q (republished x (qm_receive_count m)))) (\<lambda>_.
             await (on_broker (am_ack api (rq_channel g) (in_delivery_tag x))) (\<lambda>_. Done (Inr () :: exn + unit))))"
      by (rule safe_publish) (use safe_settle [of B "in_body x"] in \<open>simp add: republished_def\<close>)
    ultimately show ?thesis by (intro exI [of _ "{#?t#}"]) (simp add: Some g safe_reject)
  qed
qed

end

datatype 'b rabbit_call =
    RabbitSend "'b rabbit_gateway" body
  | RabbitReceive "'b rabbit_gateway" int seconds
  | RabbitNack "'b rabbit_gateway" qmsg bool

fun rabbit_call_gateway :: "'b rabbit_call \<Rightarrow> 'b rabbit_gateway" where
  "rabbit_call_gateway (RabbitSend g b) = g"
| "rabbit_call_gateway (RabbitReceive g n wait) = g"
| "rabbit_call_gateway (RabbitNack g m requeue) = g"

fun start_rabbit :: "'b rabbit_call \<Rightarrow> ('b rabbit_state, exn + qmsg list) prog" where
  "start_rabbit (RabbitSend g b) = call (rabbit_send g b) (\<lambda>_. Done (Inr []))"
| "start_rabbit (RabbitReceive g n wait) = rabbit_receive g n wait"
| "start_rabbit (RabbitNack g m requeue) = call (rabbit_nack g m requeue) (\<lambda>_. Done (Inr []))"

context amqp_broker
begin

lemma safe_start_rabbit:
  assumes g: "rq_api (rabbit_call_gateway c) = api" "rq_queue_name (rabbit_call_gateway c) = q"
  shows "safe (rabbit_inv present delivered B) (\<lambda>r g. True) {#} (start_rabbit c)"
proof -
  have plain: "safe (rabbit_inv present delivered B) (\<lambda>r g. True) {#} (call p (\<lambda>_. Done (Inr [])))"
    if "safe (rabbit_inv present delivered B) (\<lambda>r g. True) {#} p" for p :: "('b rabbit_state, exn + 'x) prog"
    by (rule safe_call [OF that]) (auto intro: safe_Done)
  show ?thesis using g by (cases c) (simp_all add: plain safe_rabbit_send safe_rabbit_nack safe_rabbit_receive)
qed

lemma no_body_lost:
  assumes c: "\<forall>c \<in> set calls. rq_api (rabbit_call_gateway c) = api \<and> rq_queue_name (rabbit_call_gateway c) = q" and s: "inflight_ok delivered s"
    and run: "schedule sched (s, map start_rabbit calls) = (s', ps)"
  shows "present (fst s) \<subseteq># present (fst s')"
proof -
  let ?I = "rabbit_inv present delivered (present (fst s))"
  have "held ?I (\<lambda>r g. True) (s, map start_rabbit calls) (replicate (length calls) {#})"
    using c s by (auto simp: held_def rabbit_inv_def sum_list_replicate intro!: safe_start_rabbit)
  from schedule_keeps [OF this, of sched] obtain gs where "?I s' (sum_list gs)" unfolding run held_def by auto
  then have "present (fst s) + (\<Sum>x\<in>#sum_list gs. copies x) \<subseteq># present (fst s')" by (simp add: rabbit_inv_def)
  then show ?thesis by (rule subset_mset.order_trans [OF mset_subset_eq_add_left])
qed

end
section \<open>A broker\<close>

text \<open>
  One queue with a dead-letter queue. \<open>bk_ready\<close> are the messages to deliver, \<open>bk_deliveries\<close> all deliveries by channel and tag, with whether
  they are settled.
\<close>

record broker =
  bk_ready :: "(outgoing \<times> bool) list"
  bk_deliveries :: "((nat \<times> nat) \<times> string \<times> bool) list"
  bk_dead :: "string list"

definition unsettled :: "((nat \<times> nat) \<times> string \<times> bool) list \<Rightarrow> string multiset" where
  "unsettled ds = mset (map (fst \<circ> snd) (filter (\<lambda>(_, _, settled). \<not> settled) ds))"

definition bk_present :: "broker \<Rightarrow> string multiset" where
  "bk_present b = mset (map (out_body \<circ> fst) (bk_ready b)) + unsettled (bk_deliveries b) + mset (bk_dead b)"

definition bk_delivered :: "broker \<Rightarrow> nat \<Rightarrow> nat \<Rightarrow> string option" where
  "bk_delivered b ch tag = map_option fst (map_of (bk_deliveries b) (ch, tag))"

fun settle :: "nat \<times> nat \<Rightarrow> ((nat \<times> nat) \<times> string \<times> bool) list \<Rightarrow> ((nat \<times> nat) \<times> string \<times> bool) list" where
  "settle k [] = []"
| "settle k ((k', t, settled) # ds) = (if k' = k then (k', t, True) # ds else (k', t, settled) # settle k ds)"

definition bk_tag :: "broker \<Rightarrow> nat" where
  "bk_tag b = Suc (sum_list (map (\<lambda>((_, tag), _). tag) (bk_deliveries b)))"

definition bk_get :: "nat \<Rightarrow> string \<Rightarrow> seconds option \<Rightarrow> broker \<Rightarrow> pull \<times> broker" where
  "bk_get ch q timeout b = (case bk_ready b of
      [] \<Rightarrow> (NoMessage, b)
    | (m, redelivered) # ready \<Rightarrow>
        (Got \<lparr>in_delivery_tag = bk_tag b, in_message_id = out_message_id m, in_body = out_body m, in_headers = Some (out_headers m), in_redelivered = redelivered\<rparr>,
         b\<lparr>bk_ready := ready, bk_deliveries := bk_deliveries b @ [((ch, bk_tag b), out_body m, False)]\<rparr>))"

definition bk_api :: "broker amqp_api" where
  "bk_api = \<lparr>am_publish = (\<lambda>q m b. b\<lparr>bk_ready := bk_ready b @ [(m, False)]\<rparr>), am_get = bk_get,
     am_ack = (\<lambda>ch tag b. b\<lparr>bk_deliveries := settle (ch, tag) (bk_deliveries b)\<rparr>),
     am_reject = (\<lambda>ch tag b. case bk_delivered b ch tag of
        None \<Rightarrow> b
      | Some t \<Rightarrow> b\<lparr>bk_deliveries := settle (ch, tag) (bk_deliveries b), bk_dead := bk_dead b @ [t]\<rparr>),
     am_declare = (\<lambda>t b. (None, b))\<rparr>"

lemma settle_lookup: "map_option fst (map_of (settle k ds) k') = map_option fst (map_of ds k')"
  by (induction k ds rule: settle.induct) auto

lemma unsettled_Cons: "unsettled ((k, t, settled) # ds) = (if settled then unsettled ds else add_mset t (unsettled ds))"
  by (simp add: unsettled_def)

lemma settle_unsettled: "map_option fst (map_of ds k) = Some t \<Longrightarrow> unsettled ds \<subseteq># add_mset t (unsettled (settle k ds))"
proof (induction k ds rule: settle.induct)
  case (2 k k' t' settled ds)
  show ?case
  proof (cases "k' = k")
    case True
    then show ?thesis using 2(2) by (simp add: unsettled_Cons)
  next
    case False
    then have "unsettled ds \<subseteq># add_mset t (unsettled (settle k ds))" using 2 by simp
    then show ?thesis using False by (simp add: unsettled_Cons add_mset_commute [of t' t])
  qed
qed simp

lemma unsettled_snoc: "unsettled (ds @ [(k, t, False)]) = add_mset t (unsettled ds)"
  by (simp add: unsettled_def)

lemma bk_tag_new: "map_of (bk_deliveries b) (ch, bk_tag b) = None"
proof (rule ccontr)
  assume "map_of (bk_deliveries b) (ch, bk_tag b) \<noteq> None"
  then obtain x where "((ch, bk_tag b), x) \<in> set (bk_deliveries b)" by (auto dest: map_of_SomeD)
  then have "bk_tag b \<in> set (map (\<lambda>((_, tag), _). tag) (bk_deliveries b))" by force
  from member_le_sum_list [OF this] show False by (simp add: bk_tag_def)
qed

interpretation rabbit_srv: amqp_broker bk_api q bk_present bk_delivered
proof unfold_locales
  fix ch timeout b r b' assume cmd: "am_get bk_api ch q timeout b = (r, b')"
  show "bk_present b \<subseteq># bk_present b' \<and> (\<forall>c tag t. bk_delivered b c tag = Some t \<longrightarrow> bk_delivered b' c tag = Some t)"
  proof (cases "bk_ready b")
    case Nil
    then show ?thesis using cmd by (simp add: bk_api_def bk_get_def)
  next
    case (Cons x ready)
    obtain m redelivered where x: "x = (m, redelivered)" by (cases x)
    have b': "b' = b\<lparr>bk_ready := ready, bk_deliveries := bk_deliveries b @ [((ch, bk_tag b), out_body m, False)]\<rparr>"
      using cmd by (simp add: bk_api_def bk_get_def Cons x)
    show ?thesis by (auto simp: b' bk_present_def Cons x unsettled_snoc bk_delivered_def map_add_def split: option.splits)
  qed
next
  fix ch timeout b m b' assume "am_get bk_api ch q timeout b = (Got m, b')"
  then show "bk_delivered b' ch (in_delivery_tag m) = Some (in_body m)"
    using bk_tag_new [of b ch] by (auto simp: bk_api_def bk_get_def bk_delivered_def map_add_def split: list.splits prod.splits)
next
  fix b ch tag t assume "bk_delivered b ch tag = Some t"
  then show "bk_present b \<subseteq># add_mset t (bk_present (am_ack bk_api ch tag b))"
    using settle_unsettled [of "bk_deliveries b" "(ch, tag)" t] by (simp add: bk_api_def bk_present_def bk_delivered_def)
next
  fix b ch tag
  show "bk_present b \<subseteq># bk_present (am_reject bk_api ch tag b) \<and> bk_delivered (am_reject bk_api ch tag b) = bk_delivered b"
  proof (cases "bk_delivered b ch tag")
    case None
    then show ?thesis by (simp add: bk_api_def)
  next
    case (Some t)
    have r: "am_reject bk_api ch tag b = b\<lparr>bk_deliveries := settle (ch, tag) (bk_deliveries b), bk_dead := bk_dead b @ [t]\<rparr>"
      by (simp add: bk_api_def Some)
    have "unsettled (bk_deliveries b) \<subseteq># add_mset t (unsettled (settle (ch, tag) (bk_deliveries b)))"
      by (rule settle_unsettled) (use Some in \<open>simp add: bk_delivered_def\<close>)
    then show ?thesis unfolding r by (simp add: bk_present_def bk_delivered_def settle_lookup fun_eq_iff)
  qed
qed (simp_all add: bk_api_def bk_present_def bk_delivered_def settle_lookup fun_eq_iff)

text \<open>
  C15. No message on RabbitMQ is lost. However the sends, receives and rejections of any number of gateways of a queue with a dead-letter
  exchange are interleaved, and wherever calls are cut off, also between the publication of a copy and the acknowledgement of the
  original, each body is in the queue, delivered and not settled, or dead-lettered, at least as often as before.
\<close>

theorem rabbit_messages_not_lost:
  assumes "amqp_broker api q present delivered" "inflight_ok delivered s"
    and "\<forall>c \<in> set calls. rq_api (rabbit_call_gateway c) = api \<and> rq_queue_name (rabbit_call_gateway c) = q"
    and "schedule sched (s, map start_rabbit calls) = (s', ps)"
  shows "present (fst s) \<subseteq># present (fst s')"
  by (rule amqp_broker.no_body_lost [OF assms(1,3,2,4)])

definition demo_rabbit :: "nat \<Rightarrow> broker rabbit_gateway" where
  "demo_rabbit ch = \<lparr>rq_channel = ch, rq_api = bk_api, rq_dumps = (\<lambda>b. ''{}''), rq_loads = (\<lambda>t. Some []), rq_url = ''u'', rq_queue_name = ''q'',
     rq_dead_letter_enabled = True, rq_dead_letter_exchange = ''q.dlx'', rq_dead_letter_queue = ''q.dead'', rq_connected = True\<rparr>"

definition demo_rabbit_state :: "broker rabbit_state" where
  "demo_rabbit_state = (\<lparr>bk_ready = [], bk_deliveries = [((1, 5), ''x'', False)], bk_dead = []\<rparr>,
     (\<lambda>_. [])(1 := [(''5'', \<lparr>in_delivery_tag = 5, in_message_id = None, in_body = ''x'', in_headers = None, in_redelivered = False\<rparr>)]))"

definition demo_rabbit_calls :: "broker rabbit_call list" where
  "demo_rabbit_calls = [RabbitNack (demo_rabbit 1) \<lparr>qm_id = ''5'', qm_body = [], qm_receive_count = 1\<rparr> True, RabbitReceive (demo_rabbit 2) 1 0]"

theorem rabbit_messages_not_lost_witness:
  "bk_present (fst demo_rabbit_state) = {#''x''#} \<and>
   bk_present (fst demo_rabbit_state) \<subseteq># bk_present (fst (fst (schedule [0, 0, 1, 0] (demo_rabbit_state, map start_rabbit demo_rabbit_calls))))"
proof
  show "bk_present (fst demo_rabbit_state) = {#''x''#}" by (simp add: bk_present_def demo_rabbit_state_def unsettled_def)
  have "inflight_ok bk_delivered demo_rabbit_state" by (simp add: inflight_ok_def bk_delivered_def demo_rabbit_state_def)
  moreover have "\<forall>c \<in> set demo_rabbit_calls. rq_api (rabbit_call_gateway c) = bk_api \<and> rq_queue_name (rabbit_call_gateway c) = ''q''"
    by (simp add: demo_rabbit_calls_def demo_rabbit_def)
  ultimately show "bk_present (fst demo_rabbit_state) \<subseteq># bk_present (fst (fst (schedule [0, 0, 1, 0] (demo_rabbit_state, map start_rabbit demo_rabbit_calls))))"
    by (rule rabbit_messages_not_lost [OF rabbit_srv.amqp_broker_axioms _ _ prod.collapse [symmetric]])
qed

text \<open>
  The attempt count survives a rejection: the copy that is published, received under any tag, counts at least one attempt more.
\<close>

theorem republished_count:
  "rabbit_receive_count \<lparr>in_delivery_tag = tag, in_message_id = out_message_id (republished x n), in_body = out_body (republished x n),
     in_headers = Some (out_headers (republished x n)), in_redelivered = redelivered\<rparr> \<ge> n + 1"
  by (auto simp: rabbit_receive_count_def republished_def Let_def dflt_def dict_get_set split: option.splits header.splits)

end
