(* ===== verification/Rate_Limit.thy ===== *)
theory Rate_Limit
  imports Errors
begin

text \<open>
  The in-memory sliding-window-counter rate limiter (\<open>src/app/modules/platform/rate_limit/service.py\<close>).

  The state is the dictionary of per-window counts; the clock reading is an argument. \<open>check\<close> evicts
  stale buckets and then decides, \<open>check_window\<close> is the decision alone. The abstract specification
  \<open>spec_run\<close> keeps nothing but the list of admitted requests and decides by counting in it; the
  limiter refines it under a clock that never goes back, whatever it evicts. The locale
  \<open>rate_limiter\<close> is the contract its clients (authentication, the per-IP middleware) rely on.
\<close>

record rate_limit_result =
  allowed :: bool
  remaining :: int
  rl_retry_after_seconds :: "int option"

record limiter =
  rl_limit :: int
  rl_window_seconds :: int
  rl_eviction_threshold :: int
  rl_counts :: "(string \<times> int, int) dict"

definition DEFAULT_EVICTION_THRESHOLD :: int where
  "DEFAULT_EVICTION_THRESHOLD = 10000"

definition InMemoryRateLimiter :: "int \<Rightarrow> int \<Rightarrow> int \<Rightarrow> exn + limiter" where
  "InMemoryRateLimiter limit window_seconds eviction_threshold =
     (if limit \<le> 0 then Inl (ValueError ''limit must be positive'')
      else if window_seconds \<le> 0 then Inl (ValueError ''window_seconds must be positive'')
      else if eviction_threshold \<le> 0 then Inl (ValueError ''eviction_threshold must be positive'')
      else Inr \<lparr>rl_limit = limit, rl_window_seconds = window_seconds,
                rl_eviction_threshold = eviction_threshold, rl_counts = []\<rparr>)"

definition evict_if_needed :: "int \<Rightarrow> limiter \<Rightarrow> limiter" where
  "evict_if_needed current_window_index l =
     (if int (length (rl_counts l)) < rl_eviction_threshold l then l
      else l\<lparr>rl_counts := filter (\<lambda>(bucket, _). \<not> snd bucket < current_window_index - 1) (rl_counts l)\<rparr>)"

definition window_index :: "int \<Rightarrow> seconds \<Rightarrow> int" where
  "window_index window_seconds now = floor (now / of_int window_seconds)"

definition elapsed :: "int \<Rightarrow> seconds \<Rightarrow> seconds" where
  "elapsed window_seconds now = now - of_int (window_index window_seconds now * window_seconds)"

definition previous_weight :: "int \<Rightarrow> seconds \<Rightarrow> rat" where
  "previous_weight window_seconds now = max (1 - elapsed window_seconds now / of_int window_seconds) 0"

definition bucket_count :: "limiter \<Rightarrow> string \<Rightarrow> int \<Rightarrow> int" where
  "bucket_count l key i = (case dict_get (rl_counts l) (key, i) of None \<Rightarrow> 0 | Some c \<Rightarrow> c)"

definition check_window :: "seconds \<Rightarrow> string \<Rightarrow> limiter \<Rightarrow> rate_limit_result \<times> limiter" where
  "check_window now key l =
     (let w = rl_window_seconds l;
          idx = window_index w now;
          current = bucket_count l key idx;
          previous = bucket_count l key (idx - 1);
          weighted = current + py_trunc (of_int previous * previous_weight w now) in
      if weighted \<ge> rl_limit l
      then (\<lparr>allowed = False, remaining = 0,
             rl_retry_after_seconds = Some (max (py_trunc (of_int w - elapsed w now)) 1)\<rparr>, l)
      else (let weighted_after = (current + 1) + py_trunc (of_int previous * previous_weight w now) in
            (\<lparr>allowed = True, remaining = max (rl_limit l - weighted_after) 0,
              rl_retry_after_seconds = None\<rparr>,
             l\<lparr>rl_counts := dict_set (rl_counts l) (key, idx) (current + 1)\<rparr>)))"

definition check :: "seconds \<Rightarrow> string \<Rightarrow> limiter \<Rightarrow> rate_limit_result \<times> limiter" where
  "check now key l =
     check_window now key (evict_if_needed (window_index (rl_window_seconds l) now) l)"

fun run_checks :: "limiter \<Rightarrow> (seconds \<times> string) list \<Rightarrow> rate_limit_result list \<times> limiter" where
  "run_checks l [] = ([], l)"
| "run_checks l ((now, key) # calls) =
     (let (r, l') = check now key l; (rs, l'') = run_checks l' calls in (r # rs, l''))"

section \<open>Specification: decide by counting the admitted requests\<close>

definition admitted :: "int \<Rightarrow> (seconds \<times> string) list \<Rightarrow> string \<Rightarrow> int \<Rightarrow> int" where
  "admitted w hist key i = int (length (filter (\<lambda>(t, k). k = key \<and> window_index w t = i) hist))"

definition spec_allows :: "int \<Rightarrow> int \<Rightarrow> (seconds \<times> string) list \<Rightarrow> seconds \<Rightarrow> string \<Rightarrow> bool" where
  "spec_allows limit w hist now key \<longleftrightarrow>
     admitted w hist key (window_index w now)
     + floor (of_int (admitted w hist key (window_index w now - 1)) * previous_weight w now) < limit"

fun spec_run :: "int \<Rightarrow> int \<Rightarrow> (seconds \<times> string) list \<Rightarrow> (seconds \<times> string) list \<Rightarrow> bool list" where
  "spec_run limit w hist [] = []"
| "spec_run limit w hist ((now, key) # calls) =
     (if spec_allows limit w hist now key
      then True # spec_run limit w ((now, key) # hist) calls
      else False # spec_run limit w hist calls)"

definition limiter_inv :: "limiter \<Rightarrow> bool" where
  "limiter_inv l \<longleftrightarrow>
     0 < rl_limit l \<and> 0 < rl_window_seconds l \<and> 0 < rl_eviction_threshold l \<and> dict_wf (rl_counts l) \<and>
     (\<forall>b c. dict_get (rl_counts l) b = Some c \<longrightarrow> 0 < c \<and> c \<le> rl_limit l)"

text \<open>The limiter's buckets of the last two windows hold exactly what the history says.\<close>

definition tracks :: "limiter \<Rightarrow> (seconds \<times> string) list \<Rightarrow> int \<Rightarrow> bool" where
  "tracks l hist i \<longleftrightarrow>
     (\<forall>key j. i - 1 \<le> j \<longrightarrow> bucket_count l key j = admitted (rl_window_seconds l) hist key j)"

section \<open>The contract clients rely on\<close>

locale rate_limiter =
  fixes check_op :: "seconds \<Rightarrow> string \<Rightarrow> 's \<Rightarrow> rate_limit_result \<times> 's"
    and inv :: "'s \<Rightarrow> bool"
  assumes check_inv: "inv s \<Longrightarrow> inv (snd (check_op now key s))"
    and blocked_retry: "inv s \<Longrightarrow> \<not> allowed (fst (check_op now key s)) \<Longrightarrow>
       remaining (fst (check_op now key s)) = 0
       \<and> (\<exists>n \<ge> 1. rl_retry_after_seconds (fst (check_op now key s)) = Some n)"
    and allowed_remaining: "inv s \<Longrightarrow> allowed (fst (check_op now key s)) \<Longrightarrow>
       0 \<le> remaining (fst (check_op now key s)) \<and> rl_retry_after_seconds (fst (check_op now key s)) = None"
    and blocked_again: "inv s \<Longrightarrow> \<not> allowed (fst (check_op now key s)) \<Longrightarrow>
       fst (check_op now key (snd (check_op now key s))) = fst (check_op now key s)"
begin

text \<open>A rejected caller that hammers the limiter at the same instant is rejected every time alike.\<close>

lemma hammering_stays_blocked:
  "inv s \<Longrightarrow> \<not> allowed (fst (check_op now key s)) \<Longrightarrow>
     fst (check_op now key (((\<lambda>s. snd (check_op now key s)) ^^ n) s)) = fst (check_op now key s)
     \<and> inv (((\<lambda>s. snd (check_op now key s)) ^^ n) s)"
proof (induction n)
  case (Suc n)
  then show ?case using blocked_again check_inv by simp
qed simp

end

section \<open>Lemmas\<close>

lemma elapsed_bounds:
  assumes "0 < w"
  shows "0 \<le> elapsed w now" and "elapsed w now < of_int w"
proof -
  have w: "(0::rat) < of_int w" using assms by simp
  have "of_int (floor (now / of_int w)) \<le> now / of_int w" by (rule of_int_floor_le)
  then have "of_int (floor (now / of_int w)) * of_int w \<le> now"
    using w by (simp only: pos_le_divide_eq [OF w])
  then show "0 \<le> elapsed w now" by (simp add: elapsed_def window_index_def)
  have "now / of_int w < of_int (floor (now / of_int w)) + 1" by linarith
  then have "now < (of_int (floor (now / of_int w)) + 1) * of_int w" 
    using w by (simp only: pos_divide_less_eq [OF w])
  then show "elapsed w now < of_int w" by (simp add: elapsed_def window_index_def algebra_simps)
qed

lemma weight_bounds:
  assumes "0 < w"
  shows "0 \<le> previous_weight w now" and "previous_weight w now \<le> 1"
proof -
  show "0 \<le> previous_weight w now" by (simp add: previous_weight_def)
  have "0 \<le> elapsed w now / of_int w" using elapsed_bounds(1) [OF assms, of now] assms by simp
  then show "previous_weight w now \<le> 1" by (simp add: previous_weight_def)
qed

lemma window_index_mono: "0 < w \<Longrightarrow> t \<le> u \<Longrightarrow> window_index w t \<le> window_index w u"
  unfolding window_index_def by (intro floor_mono divide_right_mono) simp_all

lemma trunc_floor: "0 \<le> x \<Longrightarrow> py_trunc x = floor x"
  by (simp add: py_trunc_def)

lemma bucket_count_nonneg: "limiter_inv l \<Longrightarrow> 0 \<le> bucket_count l key i"
  by (fastforce simp: limiter_inv_def bucket_count_def split: option.splits)

lemma weighted_trunc:
  "limiter_inv l \<Longrightarrow>
     py_trunc (of_int (bucket_count l key i) * previous_weight (rl_window_seconds l) now)
     = floor (of_int (bucket_count l key i) * previous_weight (rl_window_seconds l) now)"
  using bucket_count_nonneg weight_bounds(1) by (intro trunc_floor) (simp add: limiter_inv_def)

lemma evict_static [simp]:
  "rl_limit (evict_if_needed i l) = rl_limit l"
  "rl_window_seconds (evict_if_needed i l) = rl_window_seconds l"
  "rl_eviction_threshold (evict_if_needed i l) = rl_eviction_threshold l"
  by (simp_all add: evict_if_needed_def)

lemma evict_inv: "limiter_inv l \<Longrightarrow> limiter_inv (evict_if_needed i l)"
  by (auto simp: limiter_inv_def evict_if_needed_def dict_get_filter split: option.splits if_splits)

lemma evict_keeps:
  "\<lbrakk>limiter_inv l; i - 1 \<le> j\<rbrakk> \<Longrightarrow> bucket_count (evict_if_needed i l) key j = bucket_count l key j"
  by (auto simp: limiter_inv_def bucket_count_def evict_if_needed_def dict_get_filter split: option.splits)

lemma check_window_static [simp]:
  "rl_limit (snd (check_window now key l)) = rl_limit l"
  "rl_window_seconds (snd (check_window now key l)) = rl_window_seconds l"
  by (simp_all add: check_window_def Let_def)

lemma check_window_inv:
  assumes "limiter_inv l"
  shows "limiter_inv (snd (check_window now key l))"
proof -
  let ?w = "rl_window_seconds l" and ?i = "window_index (rl_window_seconds l) now"
  have "0 \<le> py_trunc (of_int (bucket_count l key (?i - 1)) * previous_weight ?w now)"
    using assms bucket_count_nonneg weight_bounds(1)
    by (subst weighted_trunc) (simp_all add: limiter_inv_def)
  moreover have "0 \<le> bucket_count l key ?i" using assms by (rule bucket_count_nonneg)
  ultimately show ?thesis
    using assms unfolding check_window_def limiter_inv_def by (auto simp: Let_def)
qed

lemma check_inv: "limiter_inv l \<Longrightarrow> limiter_inv (snd (check now key l))"
  by (simp add: check_def check_window_inv evict_inv)

lemma check_allowed_iff:
  assumes "limiter_inv l"
  defines "w \<equiv> rl_window_seconds l"
  shows "allowed (fst (check now key l)) \<longleftrightarrow>
     bucket_count l key (window_index w now)
     + floor (of_int (bucket_count l key (window_index w now - 1)) * previous_weight w now) < rl_limit l"
proof -
  let ?l = "evict_if_needed (window_index w now) l"
  have "limiter_inv ?l" by (rule evict_inv [OF assms(1)])
  from weighted_trunc [OF this, of key "window_index w now - 1" now] evict_keeps [OF assms(1)]
  show ?thesis by (auto simp: check_def check_window_def w_def Let_def)
qed

lemma check_blocked_state:
  "\<not> allowed (fst (check now key l)) \<Longrightarrow>
     snd (check now key l) = evict_if_needed (window_index (rl_window_seconds l) now) l"
  by (auto simp: check_def check_window_def Let_def split: if_splits)

lemma check_counts:
  assumes "limiter_inv l" and "window_index (rl_window_seconds l) now - 1 \<le> j"
  shows "bucket_count (snd (check now key l)) k j =
     bucket_count l k j + (if allowed (fst (check now key l)) \<and> k = key
                              \<and> j = window_index (rl_window_seconds l) now then 1 else 0)"
proof -
  let ?i = "window_index (rl_window_seconds l) now"
  let ?l = "evict_if_needed ?i l"
  have ev: "bucket_count ?l k' j' = bucket_count l k' j'" if "?i - 1 \<le> j'" for k' j'
    using evict_keeps [OF assms(1) that] .
  show ?thesis
    using assms(2) ev [of j k] ev [of ?i key]
    by (auto simp: check_def check_window_def Let_def bucket_count_def split: if_splits)
qed

lemma check_static [simp]:
  "rl_limit (snd (check now key l)) = rl_limit l"
  "rl_window_seconds (snd (check now key l)) = rl_window_seconds l"
  by (simp_all add: check_def)

lemma admitted_Cons:
  "admitted w ((t, k) # hist) key i = admitted w hist key i + (if k = key \<and> window_index w t = i then 1 else 0)"
  by (simp add: admitted_def)

lemma tracks_mono: "tracks l hist i \<Longrightarrow> i \<le> i' \<Longrightarrow> tracks l hist i'"
  by (simp add: tracks_def)

lemma tracks_check:
  assumes "limiter_inv l" and "tracks l hist (window_index (rl_window_seconds l) now)"
  shows "allowed (fst (check now key l)) \<longleftrightarrow> spec_allows (rl_limit l) (rl_window_seconds l) hist now key"
    and "tracks (snd (check now key l))
           (if allowed (fst (check now key l)) then (now, key) # hist else hist)
           (window_index (rl_window_seconds l) now)"
proof -
  show "allowed (fst (check now key l)) \<longleftrightarrow> spec_allows (rl_limit l) (rl_window_seconds l) hist now key"
    using assms(2) by (simp add: check_allowed_iff [OF assms(1)] spec_allows_def tracks_def)
  show "tracks (snd (check now key l))
           (if allowed (fst (check now key l)) then (now, key) # hist else hist)
           (window_index (rl_window_seconds l) now)"
    using assms(2) by (auto simp: tracks_def check_counts [OF assms(1)] admitted_Cons)
qed

lemma run_checks_refines:
  assumes "limiter_inv l" and "sorted (map fst calls)"
    and "calls \<noteq> [] \<Longrightarrow> tracks l hist (window_index (rl_window_seconds l) (fst (hd calls)))"
  shows "map allowed (fst (run_checks l calls)) = spec_run (rl_limit l) (rl_window_seconds l) hist calls"
  using assms
proof (induction calls arbitrary: l hist)
  case (Cons call calls)
  obtain now key where call: "call = (now, key)" by (cases call)
  let ?l = "snd (check now key l)" and ?a = "allowed (fst (check now key l))"
  let ?hist = "if ?a then (now, key) # hist else hist"
  have tr: "tracks l hist (window_index (rl_window_seconds l) now)" using Cons.prems(3) by (simp add: call)
  note step = tracks_check [OF Cons.prems(1) tr, of key]
  have "tracks ?l ?hist (window_index (rl_window_seconds ?l) (fst (hd calls)))" if "calls \<noteq> []"
    using step(2) that Cons.prems(1,2)
    by (intro tracks_mono [OF step(2)])
       (cases calls; auto simp: call limiter_inv_def intro: window_index_mono)
  then have "map allowed (fst (run_checks ?l calls)) = spec_run (rl_limit l) (rl_window_seconds l) ?hist calls"
    using Cons.IH [of ?l ?hist] Cons.prems(1,2) by (simp add: call check_inv)
  with step(1) show ?case by (simp add: call case_prod_beta)
qed simp

lemma fresh_tracks: "InMemoryRateLimiter limit w thr = Inr l \<Longrightarrow> limiter_inv l \<and> tracks l [] i"
  by (auto simp: InMemoryRateLimiter_def limiter_inv_def tracks_def bucket_count_def admitted_def split: if_splits)

lemma check_blocked_again:
  assumes "limiter_inv l" and "\<not> allowed (fst (check now key l))"
  shows "fst (check now key (snd (check now key l))) = fst (check now key l)"
proof -
  let ?i = "window_index (rl_window_seconds l) now"
  let ?l = "evict_if_needed ?i l"
  have same: "bucket_count (evict_if_needed ?i ?l) key j = bucket_count ?l key j" if "?i - 1 \<le> j" for j
    using evict_keeps [OF evict_inv [OF assms(1)] that] .
  have "fst (check_window now key (evict_if_needed ?i ?l)) = fst (check_window now key ?l)"
    using same [of ?i] same [of "?i - 1"] by (simp add: check_window_def Let_def)
  then show ?thesis unfolding check_blocked_state [OF assms(2)] by (simp add: check_def)
qed

interpretation memory_limiter: rate_limiter check limiter_inv
proof
  fix l :: limiter and now :: seconds and key :: string
  assume inv: "limiter_inv l"
  show "limiter_inv (snd (check now key l))" using inv by (rule check_inv)
  show "remaining (fst (check now key l)) = 0
        \<and> (\<exists>n \<ge> 1. rl_retry_after_seconds (fst (check now key l)) = Some n)"
    if "\<not> allowed (fst (check now key l))"
    using that by (auto simp: check_def check_window_def Let_def split: if_splits)
  show "0 \<le> remaining (fst (check now key l)) \<and> rl_retry_after_seconds (fst (check now key l)) = None"
    if "allowed (fst (check now key l))"
    using that by (auto simp: check_def check_window_def Let_def split: if_splits)
  show "fst (check now key (snd (check now key l))) = fst (check now key l)"
    if "\<not> allowed (fst (check now key l))"
    using inv that by (rule check_blocked_again)
qed

lemma spec_run_in_window:
  assumes "0 < w" and "\<forall>j. admitted w hist key j \<le> limit"
  shows "admitted w hist key i
         + int (length (filter (\<lambda>((t, k), a). a \<and> k = key \<and> window_index w t = i)
                               (zip calls (spec_run limit w hist calls)))) \<le> limit"
  using assms
proof (induction calls arbitrary: hist)
  case (Cons call calls)
  obtain now k where call: "call = (now, k)" by (cases call)
  show ?case
  proof (cases "spec_allows limit w hist now k")
    case True
    have "0 \<le> of_int (admitted w hist k (window_index w now - 1)) * previous_weight w now"
      using weight_bounds(1) [OF Cons.prems(1)] by (simp add: admitted_def)
    then have "0 \<le> floor (of_int (admitted w hist k (window_index w now - 1)) * previous_weight w now)"
      by (simp only: zero_le_floor)
    with True have "admitted w hist k (window_index w now) + 1 \<le> limit"
      unfolding spec_allows_def by linarith
    with Cons.prems(2) have "\<forall>j. admitted w ((now, k) # hist) key j \<le> limit"
      by (auto simp: admitted_Cons)
    from Cons.IH [OF Cons.prems(1) this] True show ?thesis
      by (cases "k = key \<and> window_index w now = i") (auto simp: call admitted_Cons)
  next
    case False
    with Cons show ?thesis by (simp add: call)
  qed
qed simp

lemma length_run_checks [simp]: "length (fst (run_checks l calls)) = length calls"
  by (induction calls arbitrary: l) (auto simp: case_prod_beta)

section \<open>Properties\<close>

text \<open>
  C4. Sliding-window specification. Under a clock that never goes back, the limiter admits a request
  exactly when the requests it admitted for that key in the current window, plus the weighted share
  of those it admitted in the previous one, are below the limit: its decisions are those of the
  specification that keeps the whole history, whatever the lazy eviction has dropped.
\<close>

theorem limiter_refines_spec:
  assumes "InMemoryRateLimiter limit w threshold = Inr l" and "sorted (map fst calls)"
  shows "map allowed (fst (run_checks l calls)) = spec_run limit w [] calls"
proof -
  have "rl_limit l = limit" "rl_window_seconds l = w"
    using assms(1) by (auto simp: InMemoryRateLimiter_def split: if_splits)
  with run_checks_refines [OF _ assms(2), of l "[]"] fresh_tracks [OF assms(1)] show ?thesis by simp
qed

theorem limiter_refines_spec_witness:
  "\<exists>l. InMemoryRateLimiter 2 60 1 = Inr l \<and>
     map allowed (fst (run_checks l [(0, ''a''), (1, ''a''), (2, ''a''), (60, ''a''), (90, ''a''), (91, ''a'')]))
       = [True, True, False, False, True, True]"
proof -
  obtain l where l: "InMemoryRateLimiter 2 60 1 = Inr l" by (simp add: InMemoryRateLimiter_def)
  have calls: "spec_run 2 60 [] [(0, ''a''), (1, ''a''), (2, ''a''), (60, ''a''), (90, ''a''), (91, ''a'')]
       = [True, True, False, False, True, True]"
    by code_simp
  let ?calls = "[(0, ''a''), (1, ''a''), (2, ''a''), (60, ''a''), (90, ''a''), (91, ''a'')]"
  have "map allowed (fst (run_checks l ?calls)) = spec_run 2 60 [] ?calls"
    by (rule limiter_refines_spec [OF l]) simp
  also note calls
  finally have "map allowed (fst (run_checks l ?calls)) = [True, True, False, False, True, True]" .
  with l show ?thesis by (intro exI [of _ l] conjI)
qed

text \<open>
  No key is ever admitted more than \<open>limit\<close> times within one window, over any run of checks
  under a clock that never goes back.
\<close>

theorem limiter_window_bound:
  assumes "InMemoryRateLimiter limit w threshold = Inr l" and "sorted (map fst calls)"
  shows "int (length (filter (\<lambda>((t, k), r). allowed r \<and> k = key \<and> window_index w t = i)
                             (zip calls (fst (run_checks l calls))))) \<le> limit"
proof -
  have pos: "0 < w" "0 < limit"
    using assms(1) by (auto simp: InMemoryRateLimiter_def split: if_splits)
  have "map allowed (fst (run_checks l calls)) = spec_run limit w [] calls"
  proof -
    have "rl_limit l = limit" "rl_window_seconds l = w"
      using assms(1) by (auto simp: InMemoryRateLimiter_def split: if_splits)
    with run_checks_refines [OF _ assms(2), of l "[]"] fresh_tracks [OF assms(1)] show ?thesis by simp
  qed
  then have zip: "zip calls (spec_run limit w [] calls)
       = map (\<lambda>(c, r). (c, allowed r)) (zip calls (fst (run_checks l calls)))"
    by (simp add: zip_map2 [symmetric])
  have "int (length (filter (\<lambda>((t, k), a). a \<and> k = key \<and> window_index w t = i)
                            (zip calls (spec_run limit w [] calls)))) \<le> limit"
    using spec_run_in_window [OF pos(1), of "[]" key limit i calls] pos by (simp add: admitted_def)
  then show ?thesis
    by (simp add: zip filter_map o_def case_prod_beta')
qed

theorem limiter_window_bound_witness:
  "\<exists>l. InMemoryRateLimiter 1 60 10 = Inr l \<and>
     int (length (filter (\<lambda>((t, k), r). allowed r \<and> k = ''a'' \<and> window_index 60 t = 0)
        (zip [(0, ''a''), (1, ''b''), (2, ''a'')] (fst (run_checks l [(0, ''a''), (1, ''b''), (2, ''a'')]))))) \<le> 1"
proof -
  obtain l where l: "InMemoryRateLimiter 1 60 10 = Inr l" by (simp add: InMemoryRateLimiter_def)
  from l limiter_window_bound [OF l, of "[(0, ''a''), (1, ''b''), (2, ''a'')]" "''a''" 0] show ?thesis
    by auto
qed

end
