(* ===== verification/Rate_Limit_Redis.thy ===== *)
theory Rate_Limit_Redis
  imports Rate_Limit
begin

text \<open>
  The rate limiter shared by all processes (\<open>RedisRateLimiter\<close> in \<open>src/app/modules/platform/rate_limit/service.py\<close>) with
  the script it runs inside Redis.

  Redis is an argument: the commands the script calls, on a database type of their own, with the server's clock. The
  locale \<open>redis_counters\<close> states what their documentation promises of counter keys; the limiter is proved over it, and the
  locale is interpreted on a keyspace of keys with optional expiry times. A script runs atomically, so a call is one step.
\<close>

section \<open>Commands\<close>

record 'd redis_api =
  rd_get :: "'d \<Rightarrow> seconds \<Rightarrow> string \<Rightarrow> int option"
  rd_incr :: "'d \<Rightarrow> seconds \<Rightarrow> string \<Rightarrow> int \<times> 'd"
  rd_expire :: "'d \<Rightarrow> seconds \<Rightarrow> string \<Rightarrow> int \<Rightarrow> 'd"

section \<open>The limiter\<close>

record redis_limiter =
  rr_prefix :: string
  rr_limit :: int
  rr_window_seconds :: int

definition server_now :: "int \<times> int \<Rightarrow> seconds" where
  "server_now t = of_int (fst t) + of_int (snd t) / 1000000"

text \<open>The Lua script: \<open>KEYS[1]\<close>, the two arguments and the answer of \<open>TIME\<close>.\<close>

definition CHECK_SCRIPT ::
  "'d redis_api \<Rightarrow> string \<Rightarrow> int \<Rightarrow> int \<Rightarrow> int \<times> int \<Rightarrow> 'd \<Rightarrow> (int \<times> int \<times> int) \<times> 'd" where
  "CHECK_SCRIPT api base_key window_seconds limit server_time d =
     (let now = server_now server_time;
          window_index = floor (now / of_int window_seconds);
          elapsed = now - of_int (window_index * window_seconds);
          current_key = base_key @ '':'' @ int_str window_index;
          previous_key = base_key @ '':'' @ int_str (window_index - 1);
          current = (case rd_get api d now current_key of None \<Rightarrow> 0 | Some n \<Rightarrow> n);
          previous = (case rd_get api d now previous_key of None \<Rightarrow> 0 | Some n \<Rightarrow> n);
          previous_weight = (let p = 1 - elapsed / of_int window_seconds in if p < 0 then 0 else p);
          weighted = current + floor (of_int previous * previous_weight);
          retry_after = (let r = ceiling (of_int window_seconds - elapsed) in if r < 1 then 1 else r) in
      if weighted \<ge> limit then ((weighted, retry_after, 0), d)
      else (let (new_current, d1) = rd_incr api d now current_key;
                d2 = (if new_current = 1 then rd_expire api d1 now current_key (window_seconds * 2) else d1);
                weighted_after = new_current + floor (of_int previous * previous_weight) in
            ((weighted_after, retry_after, 1), d2)))"

definition redis_check :: "'d redis_api \<Rightarrow> redis_limiter \<Rightarrow> int \<times> int \<Rightarrow> string \<Rightarrow> 'd \<Rightarrow> rate_limit_result \<times> 'd" where
  "redis_check api l server_time key d =
     (let ((weighted, retry_after, flag), d') =
        CHECK_SCRIPT api (rr_prefix l @ '':'' @ key) (rr_window_seconds l) (rr_limit l) server_time d in
      if flag = 0 then (\<lparr>allowed = False, remaining = 0, rl_retry_after_seconds = Some (max retry_after 1)\<rparr>, d')
      else (\<lparr>allowed = True, remaining = max (rr_limit l - weighted) 0, rl_retry_after_seconds = None\<rparr>, d'))"

fun run_redis :: "'d redis_api \<Rightarrow> redis_limiter \<Rightarrow> ((int \<times> int) \<times> string) list \<Rightarrow> 'd \<Rightarrow> rate_limit_result list \<times> 'd" where
  "run_redis api l [] d = ([], d)"
| "run_redis api l ((t, key) # calls) d =
     (let (r, d') = redis_check api l t key d; (rs, d'') = run_redis api l calls d' in (r # rs, d''))"

section \<open>What Redis promises of counters\<close>

text \<open>\<open>peek\<close>: the number at a key and the time it expires, if it was given one.\<close>

locale redis_counters =
  fixes api :: "'d redis_api" and peek :: "'d \<Rightarrow> string \<Rightarrow> (int \<times> seconds option) option"
  assumes get_absent: "peek d k = None \<Longrightarrow> rd_get api d now k = None"
    and get_live: "peek d k = Some (n, x) \<Longrightarrow> (\<And>t. x = Some t \<Longrightarrow> now < t) \<Longrightarrow> rd_get api d now k = Some n"
    and incr_absent: "peek d k = None \<Longrightarrow> \<exists>d'. rd_incr api d now k = (1, d') \<and> peek d' = (peek d)(k \<mapsto> (1, None))"
    and incr_live: "peek d k = Some (n, x) \<Longrightarrow> (\<And>t. x = Some t \<Longrightarrow> now < t) \<Longrightarrow>
      \<exists>d'. rd_incr api d now k = (n + 1, d') \<and> peek d' = (peek d)(k \<mapsto> (n + 1, x))"
    and expire_live: "peek d k = Some (n, x) \<Longrightarrow> (\<And>t. x = Some t \<Longrightarrow> now < t) \<Longrightarrow>
      \<exists>t. of_int (floor now + s) \<le> t \<and> peek (rd_expire api d now k s) = (peek d)(k \<mapsto> (n, Some t))"
begin

text \<open>A counter that has not expired is read as it is.\<close>

lemma get_before:
  "peek d k = Some (n, Some t) \<Longrightarrow> now < t \<Longrightarrow> rd_get api d now k = Some n"
  by (rule get_live) auto

lemma incr_before:
  "peek d k = Some (n, Some t) \<Longrightarrow> now < t \<Longrightarrow> \<exists>d'. rd_incr api d now k = (n + 1, d') \<and> peek d' = (peek d)(k \<mapsto> (n + 1, Some t))"
  by (rule incr_live) auto

lemma count_first:
  assumes "peek d k = None"
  obtains d' t where "rd_incr api d now k = (1, d')" "of_int (floor now + s) \<le> t"
    "peek (rd_expire api d' now k s) = (peek d)(k \<mapsto> (1, Some t))"
proof -
  obtain d' where d': "rd_incr api d now k = (1, d')" "peek d' = (peek d)(k \<mapsto> (1, None))" using incr_absent [OF assms] by blast
  have "\<exists>t. of_int (floor now + s) \<le> t \<and> peek (rd_expire api d' now k s) = (peek d')(k \<mapsto> (1, Some t))"
    by (rule expire_live [where x = None]) (simp_all add: d')
  with d' that show thesis by auto
qed

end

text \<open>
  The database against a history of admitted requests, from window \<open>i\<close> on: the counter of a key and a window that can
  still be read holds the number of requests admitted there and lives on until the end of the next window; no counter exists
  without a request.
\<close>

definition counter_key :: "redis_limiter \<Rightarrow> string \<Rightarrow> int \<Rightarrow> string" where
  "counter_key l key j = (rr_prefix l @ '':'' @ key) @ '':'' @ int_str j"

definition counter_ok :: "int \<Rightarrow> int \<Rightarrow> int \<Rightarrow> (int \<times> seconds option) option \<Rightarrow> bool" where
  "counter_ok w n j c \<longleftrightarrow> (case c of None \<Rightarrow> n = 0 | Some (m, x) \<Rightarrow> m = n \<and> 0 < m \<and> (\<exists>t. x = Some t \<and> of_int ((j + 2) * w) \<le> t))"

definition counts :: "('d \<Rightarrow> string \<Rightarrow> (int \<times> seconds option) option) \<Rightarrow> redis_limiter \<Rightarrow> 'd \<Rightarrow> (seconds \<times> string) list \<Rightarrow> int \<Rightarrow> bool" where
  "counts peek l d hist i \<longleftrightarrow> (\<forall>key j. i - 1 \<le> j \<longrightarrow>
     counter_ok (rr_window_seconds l) (admitted (rr_window_seconds l) hist key j) j (peek d (counter_key l key j)))"

lemma counter_ok_simps [simp]:
  "counter_ok w n j None \<longleftrightarrow> n = 0"
  "counter_ok w n j (Some (m, Some t)) \<longleftrightarrow> m = n \<and> 0 < m \<and> of_int ((j + 2) * w) \<le> t"
  by (simp_all add: counter_ok_def)

lemma counter_key_inj: "counter_key l k j = counter_key l k' j' \<longleftrightarrow> k = k' \<and> j = j'"
proof
  assume "counter_key l k j = counter_key l k' j'"
  then have "k @ CHR '':'' # int_str j = k' @ CHR '':'' # int_str j'" by (simp add: counter_key_def)
  then show "k = k' \<and> j = j'" using last_split [of k "CHR '':''" "int_str j" k' "int_str j'"] by (simp add: int_str_no_colon int_str_inject)
qed simp

lemma counts_mono: "counts peek l d hist i \<Longrightarrow> i \<le> i' \<Longrightarrow> counts peek l d hist i'"
  unfolding counts_def by (meson diff_right_mono order_trans)

lemma before_next_window: "0 < w \<Longrightarrow> now < of_int ((window_index w now + 1) * w)"
  using elapsed_bounds(2) [of w now] by (simp add: elapsed_def algebra_simps)

lemma after_window_start: "0 < w \<Longrightarrow> of_int (window_index w now * w) \<le> now"
  using elapsed_bounds(1) [of w now] by (simp add: elapsed_def)

lemma counter_ok_live:
  assumes "counter_ok w n j (Some c)" "0 < w" "window_index w now - 1 \<le> j"
  obtains t where "c = (n, Some t)" "now < t" "0 < n" "of_int ((j + 2) * w) \<le> t"
proof -
  obtain t where c: "c = (n, Some t)" "0 < n" and t: "of_int ((j + 2) * w) \<le> t"
    using assms(1) by (cases c) (auto simp: counter_ok_def)
  have "(window_index w now + 1) * w \<le> (j + 2) * w" using assms(2,3) by (intro mult_right_mono) auto
  then have "(of_int ((window_index w now + 1) * w) :: rat) \<le> of_int ((j + 2) * w)" by (simp only: of_int_le_iff)
  with before_next_window [OF assms(2), of now] t have "now < t" by linarith
  with c t that show thesis by blast
qed

lemma new_counter_lives:
  assumes "0 < w" "of_int (floor now + w * 2) \<le> t"
  shows "of_int ((window_index w now + 2) * w) \<le> (t :: rat)"
proof -
  have "window_index w now * w \<le> floor now" using after_window_start [OF assms(1), of now] by (simp only: le_floor_iff)
  then have "(window_index w now + 2) * w \<le> floor now + w * 2" by (simp add: algebra_simps)
  then have "(of_int ((window_index w now + 2) * w) :: rat) \<le> of_int (floor now + w * 2)" by (simp only: of_int_le_iff)
  with assms(2) show ?thesis by linarith
qed

lemma counts_at: "counts peek l d hist i \<Longrightarrow> i - 1 \<le> j \<Longrightarrow>
    counter_ok (rr_window_seconds l) (admitted (rr_window_seconds l) hist key j) j (peek d (counter_key l key j))"
  by (simp add: counts_def)

lemma counts_admit:
  assumes "counts peek l d hist i" "i = window_index (rr_window_seconds l) now"
    "peek d' = (peek d)(counter_key l key i \<mapsto> (admitted (rr_window_seconds l) hist key i + 1, Some t))"
    "of_int ((i + 2) * rr_window_seconds l) \<le> t"
  shows "counts peek l d' ((now, key) # hist) i"
  using assms by (auto simp: counts_def admitted_Cons counter_key_inj) (simp add: admitted_def)

lemma weight_cases: "(if 1 - elapsed w now / of_int w < 0 then 0 else 1 - elapsed w now / of_int w) = previous_weight w now"
  by (simp add: previous_weight_def max_def)

lemma at_least_one: "(if r < 1 then 1 else r) = max r (1 :: int)"
  by simp

context redis_counters
begin

text \<open>What the script reads is what the history says.\<close>

lemma counts_read:
  assumes "counts peek l d hist (window_index (rr_window_seconds l) now)" "0 < rr_window_seconds l"
    "window_index (rr_window_seconds l) now - 1 \<le> j"
  shows "(case rd_get api d now (counter_key l key j) of None \<Rightarrow> 0 | Some n \<Rightarrow> n) = admitted (rr_window_seconds l) hist key j"
proof (cases "peek d (counter_key l key j)")
  case None
  with counts_at [OF assms(1,3), of key] get_absent [OF None] show ?thesis by simp
next
  case (Some c)
  have "counter_ok (rr_window_seconds l) (admitted (rr_window_seconds l) hist key j) j (Some c)"
    using counts_at [OF assms(1,3), of key] by (simp only: Some)
  then obtain t where "c = (admitted (rr_window_seconds l) hist key j, Some t)" "now < t"
    using counter_ok_live assms(2,3) by blast
  with get_before [of d "counter_key l key j" _ t now] Some show ?thesis by simp
qed

text \<open>Counting a request: one more in the current window's counter, which lives until the next window is over.\<close>

lemma counts_incr:
  assumes "counts peek l d hist i" "0 < rr_window_seconds l" "i = window_index (rr_window_seconds l) now"
  obtains d1 where "rd_incr api d now (counter_key l key i) = (admitted (rr_window_seconds l) hist key i + 1, d1)"
    "counts peek l (if admitted (rr_window_seconds l) hist key i + 1 = 1
        then rd_expire api d1 now (counter_key l key i) (rr_window_seconds l * 2) else d1) ((now, key) # hist) i"
proof (cases "peek d (counter_key l key i)")
  case None
  have zero: "admitted (rr_window_seconds l) hist key i = 0" using counts_at [OF assms(1), of i key] None by simp
  obtain d1 t where inc: "rd_incr api d now (counter_key l key i) = (1, d1)" and t: "of_int (floor now + rr_window_seconds l * 2) \<le> t"
    and e: "peek (rd_expire api d1 now (counter_key l key i) (rr_window_seconds l * 2)) = (peek d)(counter_key l key i \<mapsto> (1, Some t))"
    using count_first [OF None] by blast
  have "counts peek l (rd_expire api d1 now (counter_key l key i) (rr_window_seconds l * 2)) ((now, key) # hist) i"
    using counts_admit [OF assms(1,3), of _ key t] new_counter_lives [OF assms(2) t] e zero assms(3) by simp
  then show thesis using that inc zero by simp
next
  case (Some c)
  have "counter_ok (rr_window_seconds l) (admitted (rr_window_seconds l) hist key i) i (Some c)"
    using counts_at [OF assms(1), of i key] by (simp add: Some)
  then obtain t where c: "c = (admitted (rr_window_seconds l) hist key i, Some t)" "now < t" "0 < admitted (rr_window_seconds l) hist key i"
    "of_int ((i + 2) * rr_window_seconds l) \<le> t"
    using counter_ok_live [of _ _ _ _ now] assms(2,3) by (metis diff_le_eq le_add_same_cancel1 zero_le_one)
  then obtain d1 where "rd_incr api d now (counter_key l key i) = (admitted (rr_window_seconds l) hist key i + 1, d1)"
    "peek d1 = (peek d)(counter_key l key i \<mapsto> (admitted (rr_window_seconds l) hist key i + 1, Some t))"
    using incr_before [of d "counter_key l key i"] Some by blast
  then show thesis using that counts_admit [OF assms(1,3) _ c(4)] c(3) by simp
qed

text \<open>One call decides as the specification does and keeps the counters in step with the history.\<close>

lemma redis_check_spec:
  assumes "counts peek l d hist (window_index (rr_window_seconds l) (server_now t))" "0 < rr_window_seconds l"
  shows "allowed (fst (redis_check api l t key d)) \<longleftrightarrow> spec_allows (rr_limit l) (rr_window_seconds l) hist (server_now t) key"
    "counts peek l (snd (redis_check api l t key d))
       (if allowed (fst (redis_check api l t key d)) then (server_now t, key) # hist else hist) (window_index (rr_window_seconds l) (server_now t))"
proof -
  let ?w = "rr_window_seconds l" and ?now = "server_now t"
  let ?i = "window_index ?w ?now"
  let ?weighted = "admitted ?w hist key ?i + floor (of_int (admitted ?w hist key (?i - 1)) * previous_weight ?w ?now)"
  obtain d1 where inc: "rd_incr api d ?now (counter_key l key ?i) = (admitted ?w hist key ?i + 1, d1)"
    and kept: "counts peek l (if admitted ?w hist key ?i + 1 = 1 then rd_expire api d1 ?now (counter_key l key ?i) (?w * 2) else d1)
        ((?now, key) # hist) ?i"
    using counts_incr [OF assms refl] by blast
  have script: "CHECK_SCRIPT api (rr_prefix l @ '':'' @ key) ?w (rr_limit l) t d =
    (if ?weighted \<ge> rr_limit l then ((?weighted, max (ceiling (of_int ?w - elapsed ?w ?now)) 1, 0), d)
     else ((?weighted + 1, max (ceiling (of_int ?w - elapsed ?w ?now)) 1, 1),
       if admitted ?w hist key ?i + 1 = 1 then rd_expire api d1 ?now (counter_key l key ?i) (?w * 2) else d1))"
    unfolding CHECK_SCRIPT_def Let_def window_index_def [symmetric] elapsed_def [symmetric] counter_key_def [symmetric]
      counts_read [OF assms order_refl] counts_read [OF assms, of ?i, simplified] inc weight_cases at_least_one
    by simp
  show "allowed (fst (redis_check api l t key d)) \<longleftrightarrow> spec_allows (rr_limit l) ?w hist ?now key"
    unfolding redis_check_def script by (simp add: spec_allows_def)
  show "counts peek l (snd (redis_check api l t key d)) (if allowed (fst (redis_check api l t key d)) then (?now, key) # hist else hist) ?i"
    using kept assms(1) unfolding redis_check_def script by simp
qed

lemma run_redis_refines:
  assumes "0 < rr_window_seconds l" "sorted (map (\<lambda>c. server_now (fst c)) calls)"
    and "calls \<noteq> [] \<Longrightarrow> counts peek l d hist (window_index (rr_window_seconds l) (server_now (fst (hd calls))))"
  shows "map allowed (fst (run_redis api l calls d)) = spec_run (rr_limit l) (rr_window_seconds l) hist (map (apfst server_now) calls)"
  using assms
proof (induction calls arbitrary: d hist)
  case (Cons call calls)
  obtain t key where call: "call = (t, key)" by (cases call)
  let ?d = "snd (redis_check api l t key d)" and ?a = "allowed (fst (redis_check api l t key d))"
  let ?hist = "if ?a then (server_now t, key) # hist else hist"
  have now: "counts peek l d hist (window_index (rr_window_seconds l) (server_now t))" using Cons.prems(3) by (simp add: call)
  note step = redis_check_spec [OF now Cons.prems(1), of key]
  have "counts peek l ?d ?hist (window_index (rr_window_seconds l) (server_now (fst (hd calls))))" if "calls \<noteq> []"
    using step(2) that Cons.prems(1,2)
    by (intro counts_mono [OF step(2)]) (cases calls; auto simp: call intro: window_index_mono)
  then have "map allowed (fst (run_redis api l calls ?d)) = spec_run (rr_limit l) (rr_window_seconds l) ?hist (map (apfst server_now) calls)"
    using Cons.IH [of ?d ?hist] Cons.prems(1,2) by (simp add: call)
  with step(1) show ?case by (simp add: call case_prod_beta)
qed simp

end

section \<open>A keyspace\<close>

text \<open>Keys with a number and an optional expiry; an expired key is gone for every command.\<close>

type_synonym keyspace = "(string, int \<times> seconds option) dict"

definition live_value :: "keyspace \<Rightarrow> seconds \<Rightarrow> string \<Rightarrow> (int \<times> seconds option) option" where
  "live_value d now k = (case dict_get d k of None \<Rightarrow> None
     | Some (n, x) \<Rightarrow> (case x of None \<Rightarrow> Some (n, x) | Some t \<Rightarrow> if now < t then Some (n, x) else None))"

definition keyspace_api :: "keyspace redis_api" where
  "keyspace_api = \<lparr>
     rd_get = (\<lambda>d now k. map_option fst (live_value d now k)),
     rd_incr = (\<lambda>d now k. case live_value d now k of
         None \<Rightarrow> (1, dict_set d k (1, None))
       | Some (n, x) \<Rightarrow> (n + 1, dict_set d k (n + 1, x))),
     rd_expire = (\<lambda>d now k s. case live_value d now k of
         None \<Rightarrow> d
       | Some (n, x) \<Rightarrow> dict_set d k (n, Some (now + of_int s)))\<rparr>"

lemma live_value_live: "dict_get d k = Some (n, x) \<Longrightarrow> (\<And>t. x = Some t \<Longrightarrow> now < t) \<Longrightarrow> live_value d now k = Some (n, x)"
  by (cases x) (simp_all add: live_value_def)

interpretation keyspace: redis_counters keyspace_api dict_get
proof
  fix d :: keyspace and k :: string and now :: seconds and n :: int and x :: "seconds option" and s :: int
  show "rd_get keyspace_api d now k = None" if "dict_get d k = None"
    using that by (simp add: keyspace_api_def live_value_def)
  show "\<exists>d'. rd_incr keyspace_api d now k = (1, d') \<and> dict_get d' = (dict_get d)(k \<mapsto> (1, None))" if "dict_get d k = None"
    using that by (auto simp: keyspace_api_def live_value_def)
  assume live: "dict_get d k = Some (n, x)" "\<And>t. x = Some t \<Longrightarrow> now < t"
  note lv = live_value_live [OF this]
  show "rd_get keyspace_api d now k = Some n" by (simp add: keyspace_api_def lv)
  show "\<exists>d'. rd_incr keyspace_api d now k = (n + 1, d') \<and> dict_get d' = (dict_get d)(k \<mapsto> (n + 1, x))"
    by (auto simp: keyspace_api_def lv)
  show "\<exists>t. of_int (floor now + s) \<le> t \<and> dict_get (rd_expire keyspace_api d now k s) = (dict_get d)(k \<mapsto> (n, Some t))"
    by (intro exI [of _ "now + of_int s"]) (auto simp: keyspace_api_def lv)
qed

section \<open>Properties\<close>

text \<open>
  C5. The two limiters agree. On a Redis that keeps the promises \<open>redis_counters\<close> and holds no counter under the limiter's
  prefix yet, the limiter shared by all processes admits exactly the requests the in-memory limiter admits when it is asked the
  same at the server's times: switching the backend, or sharing the counters between processes, changes no decision.
\<close>

theorem limiters_agree:
  assumes "redis_counters api peek"
    and "\<And>key j. peek d (counter_key r key j) = None"
    and "InMemoryRateLimiter (rr_limit r) (rr_window_seconds r) threshold = Inr l"
    and "sorted (map (\<lambda>c. server_now (fst c)) calls)"
  shows "map allowed (fst (run_redis api r calls d)) = map allowed (fst (run_checks l (map (apfst server_now) calls)))"
proof -
  have l: "rl_limit l = rr_limit r" "rl_window_seconds l = rr_window_seconds r" "0 < rr_window_seconds r"
    using assms(3) by (auto simp: InMemoryRateLimiter_def split: if_splits)
  have "counts peek r d [] i" for i by (simp add: counts_def assms(2) admitted_def)
  then have "map allowed (fst (run_redis api r calls d)) = spec_run (rr_limit r) (rr_window_seconds r) [] (map (apfst server_now) calls)"
    using redis_counters.run_redis_refines [OF assms(1) l(3) assms(4)] by blast
  also have "\<dots> = map allowed (fst (run_checks l (map (apfst server_now) calls)))"
    using run_checks_refines [of l "map (apfst server_now) calls" "[]"] fresh_tracks [OF assms(3)] assms(4) l by (simp add: o_def)
  finally show ?thesis .
qed

theorem limiters_agree_witness:
  "\<exists>l. InMemoryRateLimiter 2 60 1 = Inr l \<and>
     map allowed (fst (run_redis keyspace_api \<lparr>rr_prefix = ''rate-limit'', rr_limit = 2, rr_window_seconds = 60\<rparr>
        [((0, 0), ''a''), ((1, 500000), ''a''), ((2, 0), ''a''), ((90, 0), ''a'')] []))
     = map allowed (fst (run_checks l [(0, ''a''), (3 / 2, ''a''), (2, ''a''), (90, ''a'')]))"
proof -
  let ?r = "\<lparr>rr_prefix = ''rate-limit'', rr_limit = 2, rr_window_seconds = 60\<rparr>"
  obtain l where l: "InMemoryRateLimiter 2 60 1 = Inr l" by (simp add: InMemoryRateLimiter_def)
  have "map allowed (fst (run_redis keyspace_api ?r [((0, 0), ''a''), ((1, 500000), ''a''), ((2, 0), ''a''), ((90, 0), ''a'')] []))
     = map allowed (fst (run_checks l (map (apfst server_now) [((0, 0), ''a''), ((1, 500000), ''a''), ((2, 0), ''a''), ((90, 0), ''a'')])))"
    by (rule limiters_agree [OF keyspace.redis_counters_axioms, where threshold = 1]) (simp_all add: l server_now_def)
  with l show ?thesis by (auto simp: server_now_def)
qed

end
