(* ===== verification/Quota.thy ===== *)
theory Quota
  imports Errors
begin

text \<open>
  Quota: data model, fixed windows and the abstract ledger
  (\<open>src/app/modules/platform/quota/models.py\<close>, the window functions of \<open>quota/service.py\<close> and the
  contract of \<open>quota/store.py\<close>).

  The ledger is the specification of a quota store: a list of reservations and nothing else. What
  a counter holds is derived from it (\<open>charged\<close>: the costs of the reservations of a window that are
  not refunded). The locale \<open>quota_store\<close> states that a store implements the ledger; it is
  interpreted for the memory and the Postgres adapter in their own theories, and the service's
  guarantees are proved once inside it.
\<close>

section \<open>Models\<close>

datatype reservation_status = RESERVED | FINALIZED | REFUNDED

record quota_policy =
  qp_resource :: string
  qp_limit :: int
  qp_window_seconds :: int
  qp_default_cost :: int

definition QuotaPolicy :: "string \<Rightarrow> int \<Rightarrow> int \<Rightarrow> int \<Rightarrow> exn + quota_policy" where
  "QuotaPolicy resource limit window_seconds default_cost =
     (if resource = '''' then Inl (ValueError ''resource must be non-empty'')
      else if limit \<le> 0 then Inl (ValueError ''limit must be positive'')
      else if window_seconds \<le> 0 then Inl (ValueError ''window_seconds must be positive'')
      else if default_cost \<le> 0 then Inl (ValueError ''default_cost must be positive'')
      else Inr \<lparr>qp_resource = resource, qp_limit = limit, qp_window_seconds = window_seconds,
                qp_default_cost = default_cost\<rparr>)"

record quota_window =
  win_key :: string
  win_reset_at :: datetime

record quota_usage =
  u_subject_id :: string
  u_resource :: string
  u_window_key :: string
  u_used :: int
  u_limit :: int
  u_remaining :: int
  u_reset_at :: datetime

record quota_reservation =
  r_id :: string
  r_subject_id :: string
  r_resource :: string
  r_window_key :: string
  r_cost :: int
  r_status :: reservation_status
  r_usage :: quota_usage
  r_idempotency_key :: "string option"

record reserve_quota =
  c_subject_id :: string
  c_resource :: string
  c_window_key :: string
  c_limit :: int
  c_cost :: int
  c_reset_at :: datetime
  c_reservation_id :: string
  c_idempotency_key :: "string option"

text \<open>\<open>__post_init__\<close>: the checks every command passes.\<close>

definition ReserveQuota_check :: "reserve_quota \<Rightarrow> exn + reserve_quota" where
  "ReserveQuota_check c =
     (if c_subject_id c = '''' then Inl (ValueError ''subject_id must be non-empty'')
      else if c_resource c = '''' then Inl (ValueError ''resource must be non-empty'')
      else if c_window_key c = '''' then Inl (ValueError ''window_key must be non-empty'')
      else if c_limit c \<le> 0 then Inl (ValueError ''limit must be positive'')
      else if c_cost c \<le> 0 then Inl (ValueError ''cost must be positive'')
      else Inr c)"

text \<open>\<open>uuid\<close> is the value of \<open>str(uuid4())\<close>.\<close>

definition ReserveQuota_create ::
  "string \<Rightarrow> string \<Rightarrow> string \<Rightarrow> string \<Rightarrow> int \<Rightarrow> int \<Rightarrow> datetime \<Rightarrow> string option \<Rightarrow> exn + reserve_quota" where
  "ReserveQuota_create uuid subject_id resource window_key limit cost reset_at idempotency_key =
     ReserveQuota_check
       \<lparr>c_subject_id = subject_id, c_resource = resource, c_window_key = window_key, c_limit = limit,
        c_cost = cost, c_reset_at = reset_at, c_reservation_id = uuid,
        c_idempotency_key = idempotency_key\<rparr>"

record usage_query =
  q_subject_id :: string
  q_resource :: string
  q_window_key :: string
  q_limit :: int
  q_reset_at :: datetime

definition usage_from_query :: "usage_query \<Rightarrow> quota_usage" where
  "usage_from_query q =
     \<lparr>u_subject_id = q_subject_id q, u_resource = q_resource q, u_window_key = q_window_key q,
      u_used = 0, u_limit = q_limit q, u_remaining = q_limit q, u_reset_at = q_reset_at q\<rparr>"

section \<open>Fixed windows\<close>

text \<open>A Python \<open>datetime\<close>: naive, or aware with its UTC offset (both in microseconds).\<close>

datatype py_datetime = Naive int | Aware int int

fun ensure_utc :: "py_datetime \<Rightarrow> datetime" where
  "ensure_utc (Naive wall) = wall"
| "ensure_utc (Aware wall offset) = wall - offset"

text \<open>\<open>int(current.timestamp())\<close>: whole seconds, truncated towards zero.\<close>

definition epoch_seconds :: "datetime \<Rightarrow> int" where
  "epoch_seconds now = (if 0 \<le> now then now div us_per_s else - ((- now) div us_per_s))"

definition resolve_fixed_window :: "datetime \<Rightarrow> int \<Rightarrow> exn + quota_window" where
  "resolve_fixed_window now window_seconds =
     (if window_seconds \<le> 0 then Inl (ValueError ''window_seconds must be positive'')
      else (let window_index = epoch_seconds now div window_seconds;
                reset_epoch = (window_index + 1) * window_seconds in
            Inr \<lparr>win_key = int_str window_index, win_reset_at = reset_epoch * us_per_s\<rparr>))"

text \<open>\<open>max(ceil((reset_at - now).total_seconds()), 1)\<close>.\<close>

definition retry_after_secs :: "datetime \<Rightarrow> datetime \<Rightarrow> int" where
  "retry_after_secs reset_at now = max (- ((- (reset_at - now)) div us_per_s)) 1"

section \<open>The ledger\<close>

type_synonym quota_key = "string \<times> string \<times> string"

record entry =
  e_id :: string
  e_key :: quota_key
  e_cost :: int
  e_status :: reservation_status
  e_idem :: "string option"

type_synonym ledger = "entry list"

definition cmd_key :: "reserve_quota \<Rightarrow> quota_key" where
  "cmd_key c = (c_subject_id c, c_resource c, c_window_key c)"

definition charged :: "ledger \<Rightarrow> quota_key \<Rightarrow> int" where
  "charged L k = sum_list (map e_cost (filter (\<lambda>e. e_key e = k \<and> e_status e \<noteq> REFUNDED) L))"

definition led_find_idem :: "reserve_quota \<Rightarrow> ledger \<Rightarrow> entry option" where
  "led_find_idem c L = (case c_idempotency_key c of
      None \<Rightarrow> None
    | Some ik \<Rightarrow> find (\<lambda>e. e_key e = cmd_key c \<and> e_idem e = Some ik) L)"

definition new_entry :: "reserve_quota \<Rightarrow> entry" where
  "new_entry c = \<lparr>e_id = c_reservation_id c, e_key = cmd_key c, e_cost = c_cost c, e_status = RESERVED,
                  e_idem = c_idempotency_key c\<rparr>"

definition led_reserve :: "reserve_quota \<Rightarrow> ledger \<Rightarrow> entry option \<times> ledger" where
  "led_reserve c L = (case led_find_idem c L of
      Some e \<Rightarrow> (Some e, L)
    | None \<Rightarrow> if charged L (cmd_key c) + c_cost c > c_limit c then (None, L)
              else (Some (new_entry c), L @ [new_entry c]))"

definition led_lookup :: "string \<Rightarrow> ledger \<Rightarrow> entry option" where
  "led_lookup i L = find (\<lambda>e. e_id e = i) L"

definition led_set_status :: "string \<Rightarrow> reservation_status \<Rightarrow> ledger \<Rightarrow> ledger" where
  "led_set_status i st L = map (\<lambda>e. if e_id e = i then e\<lparr>e_status := st\<rparr> else e) L"

definition led_finalize :: "string \<Rightarrow> ledger \<Rightarrow> exn option \<times> ledger" where
  "led_finalize i L = (case led_lookup i L of
      None \<Rightarrow> (Some (KeyError i), L)
    | Some e \<Rightarrow> if e_status e = REFUNDED
                then (Some (ValueError ''refunded reservation cannot be finalized''), L)
                else (None, led_set_status i FINALIZED L))"

definition led_refund :: "string \<Rightarrow> ledger \<Rightarrow> exn option \<times> ledger" where
  "led_refund i L = (case led_lookup i L of
      None \<Rightarrow> (Some (KeyError i), L)
    | Some e \<Rightarrow> if e_status e = FINALIZED
                then (Some (ValueError ''finalized reservation cannot be refunded''), L)
                else (None, led_set_status i REFUNDED L))"

definition led_reset_usage :: "string \<Rightarrow> string \<Rightarrow> ledger \<Rightarrow> ledger" where
  "led_reset_usage subject resource L =
     filter (\<lambda>e. fst (e_key e) \<noteq> subject \<or> fst (snd (e_key e)) \<noteq> resource) L"

definition led_reset_resource :: "string \<Rightarrow> ledger \<Rightarrow> ledger" where
  "led_reset_resource resource L = filter (\<lambda>e. fst (snd (e_key e)) \<noteq> resource) L"

definition idem_unique :: "ledger \<Rightarrow> bool" where
  "idem_unique L \<longleftrightarrow> (\<forall>e \<in> set L. \<forall>e' \<in> set L.
     e_idem e \<noteq> None \<and> (e_key e, e_idem e) = (e_key e', e_idem e') \<longrightarrow> e_id e = e_id e')"

definition led_wf :: "ledger \<Rightarrow> bool" where
  "led_wf L \<longleftrightarrow> distinct (map e_id L) \<and> (\<forall>e \<in> set L. 0 < e_cost e) \<and> idem_unique L"

definition fresh_cmd :: "reserve_quota \<Rightarrow> ledger \<Rightarrow> bool" where
  "fresh_cmd c L \<longleftrightarrow> ReserveQuota_check c = Inr c \<and> c_reservation_id c \<notin> e_id ` set L"

definition entry_of :: "quota_reservation \<Rightarrow> entry" where
  "entry_of r = \<lparr>e_id = r_id r, e_key = (r_subject_id r, r_resource r, r_window_key r),
                 e_cost = r_cost r, e_status = r_status r, e_idem = r_idempotency_key r\<rparr>"

section \<open>Window lemmas\<close>

lemma epoch_seconds_bounds:
  "0 \<le> now \<Longrightarrow> epoch_seconds now * us_per_s \<le> now \<and> now < (epoch_seconds now + 1) * us_per_s"
  using div_bounds [of us_per_s now] by (simp add: epoch_seconds_def)

lemma resolve_fixed_window_bounds:
  assumes "0 \<le> now" and "resolve_fixed_window now w = Inr win"
  shows "now < win_reset_at win" and "win_reset_at win - now \<le> w * us_per_s"
proof -
  from assms(2) have w: "0 < w" and r: "win_reset_at win = (epoch_seconds now div w + 1) * w * us_per_s"
    by (auto simp: resolve_fixed_window_def Let_def split: if_splits)
  note d = div_bounds [OF w, of "epoch_seconds now"] and e = epoch_seconds_bounds [OF assms(1)]
  have "(epoch_seconds now + 1) * us_per_s \<le> win_reset_at win"
    unfolding r using d by (intro mult_right_mono) simp_all
  with e show "now < win_reset_at win" by linarith
  have "win_reset_at win - w * us_per_s = (epoch_seconds now div w * w) * us_per_s"
    unfolding r by (simp add: algebra_simps)
  also have "\<dots> \<le> epoch_seconds now * us_per_s" using d by (intro mult_right_mono) simp_all
  finally show "win_reset_at win - now \<le> w * us_per_s" using e by linarith
qed

lemma retry_after_secs_bounds:
  "0 < reset_at - now \<Longrightarrow> reset_at - now \<le> w * us_per_s \<Longrightarrow>
     1 \<le> retry_after_secs reset_at now \<and> retry_after_secs reset_at now \<le> w
     \<and> reset_at \<le> now + retry_after_secs reset_at now * us_per_s"
proof -
  assume pos: "0 < reset_at - now" and le: "reset_at - now \<le> w * us_per_s"
  define d where "d = (- (reset_at - now)) div us_per_s"
  have d: "d * us_per_s \<le> - (reset_at - now)" "- (reset_at - now) < (d + 1) * us_per_s"
    using div_bounds [of us_per_s "- (reset_at - now)"] by (auto simp: d_def)
  have "- w * us_per_s \<le> - (reset_at - now)" using le by simp
  with d(2) have "- w * us_per_s < (d + 1) * us_per_s" by linarith
  then have "- w < d + 1" using mult_right_less_imp_less [of "- w" us_per_s "d + 1"] by simp
  moreover from d(1) pos have "d * us_per_s < 0" by linarith
  then have neg: "d < 0" by (metis linorder_not_less mult_nonneg_nonneg us_per_s_pos(2))
  moreover have "retry_after_secs reset_at now = - d"
    using neg unfolding retry_after_secs_def d_def [symmetric] by simp
  ultimately show ?thesis using d(1) by simp
qed

section \<open>Ledger lemmas\<close>

lemma charged_Nil [simp]: "charged [] k = 0"
  by (simp add: charged_def)

lemma charged_append [simp]: "charged (L @ M) k = charged L k + charged M k"
  by (simp add: charged_def)

lemma charged_Cons: "charged (e # L) k = (if e_key e = k \<and> e_status e \<noteq> REFUNDED then e_cost e else 0) + charged L k"
  by (simp add: charged_def)

lemma charged_nonneg: "led_wf L \<Longrightarrow> 0 \<le> charged L k"
  unfolding charged_def by (rule sum_list_nonneg) (force simp: led_wf_def)

lemma charged_no_entries: "(\<And>e. e \<in> set L \<Longrightarrow> e_key e \<noteq> k) \<Longrightarrow> charged L k = 0"
  by (induction L) (auto simp: charged_Cons)

lemma led_set_status_other: "i \<notin> e_id ` set L \<Longrightarrow> led_set_status i st L = L"
  unfolding led_set_status_def by (rule map_idI) auto

lemma led_set_status_ids [simp]: "map e_id (led_set_status i st L) = map e_id L"
  by (induction L) (simp_all add: led_set_status_def)

lemma led_lookup_Some: "led_lookup i L = Some e \<Longrightarrow> e \<in> set L \<and> e_id e = i"
  unfolding led_lookup_def by (metis (mono_tags, lifting) find_Some_iff nth_mem)

lemma led_lookup_None: "led_lookup i L = None \<longleftrightarrow> i \<notin> e_id ` set L"
  unfolding led_lookup_def by (auto simp: find_None_iff)

lemma led_lookup_unique: "\<lbrakk>distinct (map e_id L); e \<in> set L\<rbrakk> \<Longrightarrow> led_lookup (e_id e) L = Some e"
  by (induction L) (auto simp: led_lookup_def)

lemma charged_set_status:
  assumes "distinct (map e_id L)" and "led_lookup i L = Some e"
  shows "charged (led_set_status i st L) k = charged L k
     - (if e_key e = k \<and> e_status e \<noteq> REFUNDED then e_cost e else 0)
     + (if e_key e = k \<and> st \<noteq> REFUNDED then e_cost e else 0)"
  using assms
proof (induction L)
  case (Cons x L)
  show ?case
  proof (cases "e_id x = i")
    case True
    with Cons.prems have x: "x = e" by (simp add: led_lookup_def)
    have "led_set_status i st (x # L) = x\<lparr>e_status := st\<rparr> # L"
      using True Cons.prems(1) led_set_status_other [of i L st] by (simp add: led_set_status_def)
    then show ?thesis by (simp add: charged_Cons x)
  next
    case False
    with Cons show ?thesis by (simp add: led_set_status_def led_lookup_def charged_Cons)
  qed
qed (simp add: led_lookup_def)

lemma idem_uniqueI:
  "(\<And>e e' ik. \<lbrakk>e \<in> set L; e' \<in> set L; e_idem e = Some ik; e_idem e' = Some ik; e_key e = e_key e'\<rbrakk>
      \<Longrightarrow> e_id e = e_id e') \<Longrightarrow> idem_unique L"
  unfolding idem_unique_def by (metis option.exhaust prod.inject)

lemma idem_uniqueD:
  "\<lbrakk>idem_unique L; e \<in> set L; e' \<in> set L; e_idem e = Some ik; e_idem e' = Some ik; e_key e = e_key e'\<rbrakk>
     \<Longrightarrow> e_id e = e_id e'"
  unfolding idem_unique_def by (metis option.distinct(1))

lemma led_wf_snoc:
  assumes wf: "led_wf L" and fresh: "fresh_cmd c L" and none: "led_find_idem c L = None"
  shows "led_wf (L @ [new_entry c])"
proof -
  have "distinct (map e_id (L @ [new_entry c]))"
    using wf fresh by (auto simp: led_wf_def fresh_cmd_def new_entry_def)
  moreover have "0 < e_cost (new_entry c)"
    using fresh by (auto simp: fresh_cmd_def new_entry_def ReserveQuota_check_def split: if_splits)
  moreover have new: "\<not> (e_key e = cmd_key c \<and> e_idem e = Some ik)"
    if "e \<in> set L" "c_idempotency_key c = Some ik" for e ik
    using none that by (simp add: led_find_idem_def find_None_iff)
  have "idem_unique (L @ [new_entry c])"
  proof (rule idem_uniqueI)
    fix e e' ik
    assume *: "e \<in> set (L @ [new_entry c])" "e' \<in> set (L @ [new_entry c])"
      "e_idem e = Some ik" "e_idem e' = Some ik" "e_key e = e_key e'"
    consider "e \<in> set L" "e' \<in> set L" | "e = new_entry c" "e' = new_entry c"
      | "e \<in> set L" "e' = new_entry c" | "e = new_entry c" "e' \<in> set L" using * by auto
    then show "e_id e = e_id e'"
    proof cases
      case 1
      with * wf show ?thesis using idem_uniqueD by (auto simp: led_wf_def)
    qed (use * new [of e ik] new [of e' ik] in \<open>auto simp: new_entry_def\<close>)
  qed
  ultimately show ?thesis using wf by (simp add: led_wf_def)
qed

lemma led_set_status_mem:
  "e \<in> set (led_set_status i st L) \<Longrightarrow>
     \<exists>e' \<in> set L. e_id e' = e_id e \<and> e_key e' = e_key e \<and> e_idem e' = e_idem e \<and> e_cost e' = e_cost e"
  by (auto simp: led_set_status_def)

lemma led_wf_set_status: "led_wf L \<Longrightarrow> led_wf (led_set_status i st L)"
proof -
  assume wf: "led_wf L"
  have "distinct (map e_id (led_set_status i st L))" using wf by (simp add: led_wf_def)
  moreover have "\<forall>e \<in> set (led_set_status i st L). 0 < e_cost e"
    using wf by (auto simp: led_wf_def led_set_status_def)
  moreover have "idem_unique (led_set_status i st L)"
  proof (rule idem_uniqueI)
    fix e e' ik
    assume *: "e \<in> set (led_set_status i st L)" "e' \<in> set (led_set_status i st L)"
      "e_idem e = Some ik" "e_idem e' = Some ik" "e_key e = e_key e'"
    obtain a where a: "a \<in> set L" "e_id a = e_id e" "e_key a = e_key e" "e_idem a = e_idem e"
      using led_set_status_mem [OF *(1)] by auto
    obtain b where b: "b \<in> set L" "e_id b = e_id e'" "e_key b = e_key e'" "e_idem b = e_idem e'"
      using led_set_status_mem [OF *(2)] by auto
    from wf have "idem_unique L" by (simp add: led_wf_def)
    from idem_uniqueD [OF this a(1) b(1), of ik] * a b show "e_id e = e_id e'" by simp
  qed
  ultimately show ?thesis by (simp add: led_wf_def)
qed

lemma led_wf_filter: "led_wf L \<Longrightarrow> led_wf (filter P L)"
  by (auto simp: led_wf_def distinct_map_filter idem_unique_def)

lemma led_reserve_bound:
  "led_reserve c L = (Some e, L') \<Longrightarrow> led_find_idem c L = None \<Longrightarrow> charged L' (cmd_key c) \<le> c_limit c"
  by (auto simp: led_reserve_def charged_Cons new_entry_def split: if_splits)

lemma led_reserve_charge:
  "led_reserve c L = (r, L') \<Longrightarrow>
     charged L' k = charged L k + (if led_find_idem c L = None \<and> r \<noteq> None \<and> k = cmd_key c then c_cost c else 0)"
  by (auto simp: led_reserve_def charged_Cons new_entry_def split: if_splits option.splits)

lemma charged_filter_key: "charged (filter (\<lambda>e. P (e_key e)) L) k = (if P k then charged L k else 0)"
  by (induction L) (auto simp: charged_Cons)

lemma led_wf_reserve: "\<lbrakk>led_wf L; fresh_cmd c L\<rbrakk> \<Longrightarrow> led_wf (snd (led_reserve c L))"
  by (auto simp: led_reserve_def led_wf_snoc split: option.splits)

lemma led_wf_finalize: "led_wf L \<Longrightarrow> led_wf (snd (led_finalize i L))"
  by (auto simp: led_finalize_def led_wf_set_status split: option.splits)

lemma led_wf_refund: "led_wf L \<Longrightarrow> led_wf (snd (led_refund i L))"
  by (auto simp: led_refund_def led_wf_set_status split: option.splits)

lemma led_wf_id_inj: "\<lbrakk>led_wf L; e \<in> set L; e' \<in> set L; e_id e = e_id e'\<rbrakk> \<Longrightarrow> e = e'"
  by (auto simp: led_wf_def distinct_map dest: inj_onD)

lemma led_find_idem_unique:
  assumes wf: "led_wf L" and e: "e \<in> set L" "e_key e = cmd_key c"
    and ik: "c_idempotency_key c = Some ik" "e_idem e = Some ik"
  shows "led_find_idem c L = Some e"
proof (cases "led_find_idem c L")
  case None
  with e ik show ?thesis by (auto simp: led_find_idem_def find_None_iff)
next
  case (Some e')
  with ik have e': "e' \<in> set L" "e_key e' = cmd_key c" "e_idem e' = Some ik"
    by (auto simp: led_find_idem_def find_Some_iff)
  from wf have "e_id e = e_id e'"
    using idem_uniqueD [of L e e' ik] e e' ik by (simp add: led_wf_def)
  with led_wf_id_inj [OF wf] e e' Some show ?thesis by metis
qed

lemma led_set_status_same:
  assumes "distinct (map e_id L)" "led_lookup i L = Some e" "e_status e = st"
  shows "led_set_status i st L = L"
  unfolding led_set_status_def
proof (rule map_idI)
  fix x assume x: "x \<in> set L"
  show "(if e_id x = i then x\<lparr>e_status := st\<rparr> else x) = x"
    using led_lookup_unique [OF assms(1) x] assms by auto
qed

lemma charged_lookup_le:
  "\<lbrakk>led_wf L; led_lookup i L = Some e; e_status e \<noteq> REFUNDED\<rbrakk> \<Longrightarrow> e_cost e \<le> charged L (e_key e)"
  using charged_set_status [of L i e REFUNDED "e_key e"]
    charged_nonneg [OF led_wf_set_status, of L i REFUNDED "e_key e"]
  by (simp add: led_wf_def)

section \<open>The contract of a quota store\<close>

text \<open>
  \<open>abs\<close> reads the ledger off a store's state and \<open>inv\<close> holds of the states that it reaches. The
  laws say what the operations return and how they move the ledger; the usage that \<open>finalize\<close> and
  \<open>refund\<close> return is left open (the adapters differ there), the one of \<open>get_usage\<close> is not.
\<close>

text \<open>A store is the record of its methods, as \<open>QuotaStore\<close> is a protocol class.\<close>

record 's quota_api =
  api_reserve :: "reserve_quota \<Rightarrow> 's \<Rightarrow> (exn + quota_reservation option) \<times> 's"
  api_finalize :: "string \<Rightarrow> 's \<Rightarrow> (exn + quota_usage) \<times> 's"
  api_refund :: "string \<Rightarrow> 's \<Rightarrow> (exn + quota_usage) \<times> 's"
  api_get_usage :: "usage_query \<Rightarrow> 's \<Rightarrow> (exn + quota_usage) \<times> 's"
  api_reset_usage :: "usage_query \<Rightarrow> 's \<Rightarrow> (exn + quota_usage) \<times> 's"
  api_reset_resource :: "string \<Rightarrow> 's \<Rightarrow> (exn + unit) \<times> 's"

datatype quota_op =
    OpReserve reserve_quota
  | OpFinalize string
  | OpRefund string
  | OpUsage usage_query
  | OpResetUsage usage_query
  | OpResetResource string

text \<open>What a caller observes of one operation, without the usage snapshots of reservations.\<close>

datatype quota_obs = ObsEntry "entry option" | ObsError exn | ObsDone | ObsUsed int

fun obs :: "('a \<Rightarrow> quota_obs) \<Rightarrow> exn + 'a \<Rightarrow> quota_obs" where
  "obs f (Inl e) = ObsError e"
| "obs f (Inr x) = f x"

fun quota_step :: "'s quota_api \<Rightarrow> quota_op \<Rightarrow> 's \<Rightarrow> quota_obs \<times> 's" where
  "quota_step api (OpReserve c) s = map_prod (obs (ObsEntry \<circ> map_option entry_of)) id (api_reserve api c s)"
| "quota_step api (OpFinalize i) s = map_prod (obs (\<lambda>_. ObsDone)) id (api_finalize api i s)"
| "quota_step api (OpRefund i) s = map_prod (obs (\<lambda>_. ObsDone)) id (api_refund api i s)"
| "quota_step api (OpUsage q) s = map_prod (obs (ObsUsed \<circ> u_used)) id (api_get_usage api q s)"
| "quota_step api (OpResetUsage q) s = map_prod (obs (ObsUsed \<circ> u_used)) id (api_reset_usage api q s)"
| "quota_step api (OpResetResource res) s = map_prod (obs (\<lambda>_. ObsDone)) id (api_reset_resource api res s)"

fun led_step :: "quota_op \<Rightarrow> ledger \<Rightarrow> quota_obs \<times> ledger" where
  "led_step (OpReserve c) L = map_prod ObsEntry id (led_reserve c L)"
| "led_step (OpFinalize i) L = map_prod (\<lambda>e. case e of Some x \<Rightarrow> ObsError x | None \<Rightarrow> ObsDone) id (led_finalize i L)"
| "led_step (OpRefund i) L = map_prod (\<lambda>e. case e of Some x \<Rightarrow> ObsError x | None \<Rightarrow> ObsDone) id (led_refund i L)"
| "led_step (OpUsage q) L = (ObsUsed (charged L (q_subject_id q, q_resource q, q_window_key q)), L)"
| "led_step (OpResetUsage q) L = (ObsUsed 0, led_reset_usage (q_subject_id q) (q_resource q) L)"
| "led_step (OpResetResource res) L = (ObsDone, led_reset_resource res L)"

fun run_ops :: "('op \<Rightarrow> 's \<Rightarrow> 'o \<times> 's) \<Rightarrow> 'op list \<Rightarrow> 's \<Rightarrow> 'o list \<times> 's" where
  "run_ops step [] s = ([], s)"
| "run_ops step (x # xs) s = (let (a, s1) = step x s; (as, s2) = run_ops step xs s1 in (a # as, s2))"

fun op_ids :: "quota_op list \<Rightarrow> string list" where
  "op_ids [] = []"
| "op_ids (OpReserve c # xs) = c_reservation_id c # op_ids xs"
| "op_ids (_ # xs) = op_ids xs"

text \<open>
  Every command passed its checks, and every reservation id is new: \<open>ReserveQuota.create\<close> draws it
  from \<open>uuid4\<close>.
\<close>

definition ops_ok :: "quota_op list \<Rightarrow> bool" where
  "ops_ok ops \<longleftrightarrow> (\<forall>c. OpReserve c \<in> set ops \<longrightarrow> ReserveQuota_check c = Inr c) \<and> distinct (op_ids ops)"

lemma led_step_ids:
  "led_step x L = (a, L') \<Longrightarrow> e_id ` set L' \<subseteq> e_id ` set L \<union> set (op_ids [x])"
proof -
  have ids: "e_id e \<in> e_id ` set L" if "e \<in> set (led_set_status i st L)" for e i st
    using that led_set_status_ids [of i st L] by (metis image_eqI list.set_map)
  assume "led_step x L = (a, L')"
  then show ?thesis
    by (cases x) (auto simp: led_reserve_def led_finalize_def led_refund_def led_reset_usage_def
        led_reset_resource_def new_entry_def dest: ids split: option.splits if_splits)
qed

lemma op_ids_append: "op_ids (xs @ ys) = op_ids xs @ op_ids ys"
  by (induction xs rule: op_ids.induct) auto

lemma ops_ok_Cons: "ops_ok (x # xs) \<Longrightarrow> ops_ok xs \<and> set (op_ids [x]) \<inter> set (op_ids xs) = {}"
  by (cases x) (auto simp: ops_ok_def)

locale quota_store =
  fixes api :: "'s quota_api"
    and inv :: "'s \<Rightarrow> bool"
    and abs :: "'s \<Rightarrow> ledger"
  assumes inv_wf: "inv s \<Longrightarrow> led_wf (abs s)"
    and reserve_law: "\<lbrakk>inv s; fresh_cmd c (abs s); api_reserve api c s = (r, s')\<rbrakk> \<Longrightarrow>
        inv s' \<and> abs s' = snd (led_reserve c (abs s)) \<and>
        (\<exists>x. r = Inr x \<and> map_option entry_of x = fst (led_reserve c (abs s)))"
    and finalize_law: "\<lbrakk>inv s; api_finalize api i s = (ru, s')\<rbrakk> \<Longrightarrow>
        inv s' \<and> abs s' = snd (led_finalize i (abs s)) \<and>
        fst (led_finalize i (abs s)) = (case ru of Inl e \<Rightarrow> Some e | Inr _ \<Rightarrow> None)"
    and refund_law: "\<lbrakk>inv s; api_refund api i s = (ru, s')\<rbrakk> \<Longrightarrow>
        inv s' \<and> abs s' = snd (led_refund i (abs s)) \<and>
        fst (led_refund i (abs s)) = (case ru of Inl e \<Rightarrow> Some e | Inr _ \<Rightarrow> None)"
    and get_usage_law: "\<lbrakk>inv s; api_get_usage api q s = (ru, s')\<rbrakk> \<Longrightarrow>
        inv s' \<and> abs s' = abs s \<and>
        (\<exists>u. ru = Inr u \<and> u_used u = charged (abs s) (q_subject_id q, q_resource q, q_window_key q))"
    and reset_usage_law: "\<lbrakk>inv s; api_reset_usage api q s = (ru, s')\<rbrakk> \<Longrightarrow>
        inv s' \<and> abs s' = led_reset_usage (q_subject_id q) (q_resource q) (abs s) \<and> ru = Inr (usage_from_query q)"
    and reset_resource_law: "\<lbrakk>inv s; api_reset_resource api res s = (rn, s')\<rbrakk> \<Longrightarrow>
        inv s' \<and> abs s' = led_reset_resource res (abs s) \<and> rn = Inr ()"
begin

definition op_fresh :: "quota_op \<Rightarrow> 's \<Rightarrow> bool" where
  "op_fresh x s = (case x of OpReserve c \<Rightarrow> fresh_cmd c (abs s) | _ \<Rightarrow> True)"

lemma step_refines:
  assumes inv: "inv s" and fresh: "op_fresh x s" and st: "quota_step api x s = (a, s')"
  shows "inv s' \<and> led_step x (abs s) = (a, abs s')"
proof (cases x)
  case (OpReserve c)
  obtain r t where r: "api_reserve api c s = (r, t)" by (cases "api_reserve api c s")
  with st OpReserve have "s' = t" "a = obs (ObsEntry \<circ> map_option entry_of) r" by auto
  with reserve_law [OF inv _ r] fresh OpReserve show ?thesis
    by (auto simp: op_fresh_def prod_eq_iff)
next
  case (OpFinalize i)
  obtain r t where r: "api_finalize api i s = (r, t)" by (cases "api_finalize api i s")
  with st OpFinalize have "s' = t" "a = obs (\<lambda>_. ObsDone) r" by auto
  with finalize_law [OF inv r] OpFinalize show ?thesis by (cases r) (auto simp: prod_eq_iff)
next
  case (OpRefund i)
  obtain r t where r: "api_refund api i s = (r, t)" by (cases "api_refund api i s")
  with st OpRefund have "s' = t" "a = obs (\<lambda>_. ObsDone) r" by auto
  with refund_law [OF inv r] OpRefund show ?thesis by (cases r) (auto simp: prod_eq_iff)
next
  case (OpUsage q)
  obtain r t where r: "api_get_usage api q s = (r, t)" by (cases "api_get_usage api q s")
  with st OpUsage have "s' = t" "a = obs (ObsUsed \<circ> u_used) r" by auto
  with get_usage_law [OF inv r] OpUsage show ?thesis by auto
next
  case (OpResetUsage q)
  obtain r t where r: "api_reset_usage api q s = (r, t)" by (cases "api_reset_usage api q s")
  with st OpResetUsage have "s' = t" "a = obs (ObsUsed \<circ> u_used) r" by auto
  with reset_usage_law [OF inv r] OpResetUsage show ?thesis by (auto simp: usage_from_query_def)
next
  case (OpResetResource res)
  obtain r t where r: "api_reset_resource api res s = (r, t)" by (cases "api_reset_resource api res s")
  with st OpResetResource have "s' = t" "a = obs (\<lambda>_. ObsDone) r" by auto
  with reset_resource_law [OF inv r] OpResetResource show ?thesis by auto
qed

lemma run_refines:
  "\<lbrakk>inv s; ops_ok xs; set (op_ids xs) \<inter> e_id ` set (abs s) = {}; run_ops (quota_step api) xs s = (as, s')\<rbrakk>
     \<Longrightarrow> inv s' \<and> run_ops led_step xs (abs s) = (as, abs s')"
proof (induction xs arbitrary: s as)
  case (Cons x xs)
  obtain a s1 where st: "quota_step api x s = (a, s1)" by (cases "quota_step api x s")
  with Cons.prems(4) obtain bs where bs: "run_ops (quota_step api) xs s1 = (bs, s')" "as = a # bs"
    by (auto split: prod.splits)
  have "op_fresh x s"
    using Cons.prems(2,3) by (cases x) (auto simp: op_fresh_def fresh_cmd_def ops_ok_def)
  from step_refines [OF Cons.prems(1) this st]
  have s1: "inv s1" "led_step x (abs s) = (a, abs s1)" by auto
  have "set (op_ids xs) \<inter> e_id ` set (abs s1) = {}"
    using led_step_ids [OF s1(2)] ops_ok_Cons [OF Cons.prems(2)] Cons.prems(3)
      op_ids_append [of "[x]" xs] by auto
  from Cons.IH [OF s1(1) _ this bs(1)] ops_ok_Cons [OF Cons.prems(2)] s1 bs show ?case by simp
qed simp

end

end
