(* ===== verification/Quota_Memory.thy ===== *)
theory Quota_Memory
  imports Quota
begin

text \<open>
  The in-memory quota store (\<open>src/app/modules/platform/quota/adapters/memory.py\<close>).

  Each operation holds the store's lock from its first read to its last write, so it is one step
  from state to state. The counters are denormalised sums of the reservations: the invariant says
  that each counter holds what the ledger charges to its window, and the interpretation of
  \<open>quota_store\<close> at the end shows that every operation keeps it so.
\<close>

section \<open>State\<close>

record counter =
  ct_subject_id :: string
  ct_resource :: string
  ct_window_key :: string
  ct_used :: int
  ct_limit :: int
  ct_reset_at :: datetime

type_synonym idem_key = "string \<times> string \<times> string \<times> string"

record mem_quota =
  mq_counters :: "(quota_key, counter) dict"
  mq_reservations :: "(string, quota_reservation) dict"
  mq_idempotency :: "(idem_key, string) dict"
  mq_closed :: bool

definition MemoryQuotaStore :: mem_quota where
  "MemoryQuotaStore = \<lparr>mq_counters = [], mq_reservations = [], mq_idempotency = [], mq_closed = False\<rparr>"

section \<open>Operations\<close>

definition usage_from_counter :: "counter \<Rightarrow> quota_usage" where
  "usage_from_counter c =
     \<lparr>u_subject_id = ct_subject_id c, u_resource = ct_resource c, u_window_key = ct_window_key c,
      u_used = ct_used c, u_limit = ct_limit c, u_remaining = max (ct_limit c - ct_used c) 0,
      u_reset_at = ct_reset_at c\<rparr>"

definition ensure_open :: "mem_quota \<Rightarrow> exn + unit" where
  "ensure_open s = (if mq_closed s then Inl (RuntimeError ''quota store is closed'') else Inr ())"

definition require_reservation :: "string \<Rightarrow> mem_quota \<Rightarrow> exn + quota_reservation" where
  "require_reservation i s = (case dict_get (mq_reservations s) i of
      None \<Rightarrow> Inl (KeyError i) | Some r \<Rightarrow> Inr r)"

definition counter_for :: "reserve_quota \<Rightarrow> mem_quota \<Rightarrow> counter \<times> mem_quota" where
  "counter_for c s = (case dict_get (mq_counters s) (cmd_key c) of
      Some ct \<Rightarrow> (ct, s)
    | None \<Rightarrow> let ct = \<lparr>ct_subject_id = c_subject_id c, ct_resource = c_resource c,
                       ct_window_key = c_window_key c, ct_used = 0, ct_limit = c_limit c,
                       ct_reset_at = c_reset_at c\<rparr> in
              (ct, s\<lparr>mq_counters := dict_set (mq_counters s) (cmd_key c) ct\<rparr>))"

definition res_key :: "quota_reservation \<Rightarrow> quota_key" where
  "res_key r = (r_subject_id r, r_resource r, r_window_key r)"

definition counter_for_reservation :: "quota_reservation \<Rightarrow> mem_quota \<Rightarrow> exn + counter" where
  "counter_for_reservation r s = (case dict_get (mq_counters s) (res_key r) of
      Some ct \<Rightarrow> Inr ct | None \<Rightarrow> Inl (KeyError (r_window_key r)))"

definition usage_for_reservation :: "quota_reservation \<Rightarrow> mem_quota \<Rightarrow> exn + quota_usage" where
  "usage_for_reservation r s = (case counter_for_reservation r s of
      Inl e \<Rightarrow> Inl e | Inr ct \<Rightarrow> Inr (usage_from_counter ct))"

definition idem_key_of :: "reserve_quota \<Rightarrow> string \<Rightarrow> idem_key" where
  "idem_key_of c ik = (c_subject_id c, c_resource c, c_window_key c, ik)"

definition existing_id :: "reserve_quota \<Rightarrow> mem_quota \<Rightarrow> string option" where
  "existing_id c s = (case c_idempotency_key c of
      None \<Rightarrow> None | Some ik \<Rightarrow> dict_get (mq_idempotency s) (idem_key_of c ik))"

definition charge_counter :: "reserve_quota \<Rightarrow> counter \<Rightarrow> counter" where
  "charge_counter c ct =
     ct\<lparr>ct_used := ct_used ct + c_cost c, ct_limit := c_limit c, ct_reset_at := c_reset_at c\<rparr>"

definition mk_reservation :: "reserve_quota \<Rightarrow> quota_usage \<Rightarrow> quota_reservation" where
  "mk_reservation c u =
     \<lparr>r_id = c_reservation_id c, r_subject_id = c_subject_id c, r_resource = c_resource c,
      r_window_key = c_window_key c, r_cost = c_cost c, r_status = RESERVED, r_usage = u,
      r_idempotency_key = c_idempotency_key c\<rparr>"

definition add_reservation :: "reserve_quota \<Rightarrow> counter \<Rightarrow> mem_quota \<Rightarrow> quota_reservation \<times> mem_quota" where
  "add_reservation c ct s =
     (let ct' = charge_counter c ct; r = mk_reservation c (usage_from_counter ct') in
      (r, s\<lparr>mq_counters := dict_set (mq_counters s) (cmd_key c) ct',
            mq_reservations := dict_set (mq_reservations s) (r_id r) r,
            mq_idempotency := (case c_idempotency_key c of
                None \<Rightarrow> mq_idempotency s
              | Some ik \<Rightarrow> dict_set (mq_idempotency s) (idem_key_of c ik) (r_id r))\<rparr>))"

definition mem_reserve :: "reserve_quota \<Rightarrow> mem_quota \<Rightarrow> (exn + quota_reservation option) \<times> mem_quota" where
  "mem_reserve c s = (case ensure_open s of
      Inl e \<Rightarrow> (Inl e, s)
    | Inr _ \<Rightarrow> (case existing_id c s of
        Some i \<Rightarrow> (case dict_get (mq_reservations s) i of
            None \<Rightarrow> (Inl (KeyError i), s) | Some r \<Rightarrow> (Inr (Some r), s))
      | None \<Rightarrow> (let (ct, s1) = counter_for c s in
          if ct_used ct + c_cost c > c_limit c then (Inr None, s1)
          else (let (r, s2) = add_reservation c ct s1 in (Inr (Some r), s2)))))"

definition store_reservation :: "quota_reservation \<Rightarrow> mem_quota \<Rightarrow> mem_quota" where
  "store_reservation r s = s\<lparr>mq_reservations := dict_set (mq_reservations s) (r_id r) r\<rparr>"

definition mem_finalize :: "string \<Rightarrow> mem_quota \<Rightarrow> (exn + quota_usage) \<times> mem_quota" where
  "mem_finalize i s = (case ensure_open s of
      Inl e \<Rightarrow> (Inl e, s)
    | Inr _ \<Rightarrow> (case require_reservation i s of
        Inl e \<Rightarrow> (Inl e, s)
      | Inr r \<Rightarrow>
          if r_status r = REFUNDED
          then (Inl (ValueError ''refunded reservation cannot be finalized''), s)
          else if r_status r = RESERVED then
            (case usage_for_reservation r s of
              Inl e \<Rightarrow> (Inl e, s)
            | Inr u \<Rightarrow> (Inr u, store_reservation (r\<lparr>r_status := FINALIZED, r_usage := u\<rparr>) s))
          else (Inr (r_usage r), s)))"

definition mem_refund :: "string \<Rightarrow> mem_quota \<Rightarrow> (exn + quota_usage) \<times> mem_quota" where
  "mem_refund i s = (case ensure_open s of
      Inl e \<Rightarrow> (Inl e, s)
    | Inr _ \<Rightarrow> (case require_reservation i s of
        Inl e \<Rightarrow> (Inl e, s)
      | Inr r \<Rightarrow>
          if r_status r = FINALIZED
          then (Inl (ValueError ''finalized reservation cannot be refunded''), s)
          else if r_status r = REFUNDED then (Inr (r_usage r), s)
          else (case counter_for_reservation r s of
              Inl e \<Rightarrow> (Inl e, s)
            | Inr ct \<Rightarrow> let ct' = ct\<lparr>ct_used := max (ct_used ct - r_cost r) 0\<rparr>;
                          u = usage_from_counter ct' in
                (Inr u, store_reservation (r\<lparr>r_status := REFUNDED, r_usage := u\<rparr>)
                          (s\<lparr>mq_counters := dict_set (mq_counters s) (res_key r) ct'\<rparr>)))))"

definition mem_get_usage :: "usage_query \<Rightarrow> mem_quota \<Rightarrow> (exn + quota_usage) \<times> mem_quota" where
  "mem_get_usage q s = (case ensure_open s of
      Inl e \<Rightarrow> (Inl e, s)
    | Inr _ \<Rightarrow> (let k = (q_subject_id q, q_resource q, q_window_key q) in
        case dict_get (mq_counters s) k of
          None \<Rightarrow> (Inr (usage_from_query q), s)
        | Some ct \<Rightarrow> let ct' = ct\<lparr>ct_limit := q_limit q, ct_reset_at := q_reset_at q\<rparr> in
            (Inr (usage_from_counter ct'), s\<lparr>mq_counters := dict_set (mq_counters s) k ct'\<rparr>)))"

definition mem_reset_usage :: "usage_query \<Rightarrow> mem_quota \<Rightarrow> (exn + quota_usage) \<times> mem_quota" where
  "mem_reset_usage q s = (case ensure_open s of
      Inl e \<Rightarrow> (Inl e, s)
    | Inr _ \<Rightarrow> (Inr (usage_from_query q),
        s\<lparr>mq_counters := filter (\<lambda>(k, _). fst k \<noteq> q_subject_id q \<or> fst (snd k) \<noteq> q_resource q) (mq_counters s),
          mq_reservations := filter (\<lambda>(_, r). r_subject_id r \<noteq> q_subject_id q \<or> r_resource r \<noteq> q_resource q)
                               (mq_reservations s),
          mq_idempotency := filter (\<lambda>(k, _). fst k \<noteq> q_subject_id q \<or> fst (snd k) \<noteq> q_resource q)
                              (mq_idempotency s)\<rparr>))"

definition mem_reset_resource :: "string \<Rightarrow> mem_quota \<Rightarrow> (exn + unit) \<times> mem_quota" where
  "mem_reset_resource res s = (case ensure_open s of
      Inl e \<Rightarrow> (Inl e, s)
    | Inr _ \<Rightarrow> (Inr (),
        s\<lparr>mq_counters := filter (\<lambda>(k, _). fst (snd k) \<noteq> res) (mq_counters s),
          mq_reservations := filter (\<lambda>(_, r). r_resource r \<noteq> res) (mq_reservations s),
          mq_idempotency := filter (\<lambda>(k, _). fst (snd k) \<noteq> res) (mq_idempotency s)\<rparr>))"

definition mem_close :: "mem_quota \<Rightarrow> mem_quota" where
  "mem_close s = s\<lparr>mq_closed := True, mq_counters := [], mq_reservations := [], mq_idempotency := []\<rparr>"

section \<open>Abstraction and invariant\<close>

definition mem_abs :: "mem_quota \<Rightarrow> ledger" where
  "mem_abs s = map (entry_of \<circ> snd) (mq_reservations s)"

definition counter_used :: "(quota_key, counter) dict \<Rightarrow> quota_key \<Rightarrow> int" where
  "counter_used cs k = (case dict_get cs k of None \<Rightarrow> 0 | Some ct \<Rightarrow> ct_used ct)"

definition idem_ok :: "mem_quota \<Rightarrow> bool" where
  "idem_ok s \<longleftrightarrow> (\<forall>a b w ik i. dict_get (mq_idempotency s) (a, b, w, ik) = Some i \<longleftrightarrow>
     (\<exists>r. dict_get (mq_reservations s) i = Some r \<and> res_key r = (a, b, w) \<and> r_idempotency_key r = Some ik))"

definition mem_inv :: "mem_quota \<Rightarrow> bool" where
  "mem_inv s \<longleftrightarrow> \<not> mq_closed s \<and> dict_wf (mq_counters s) \<and> dict_wf (mq_reservations s)
     \<and> dict_wf (mq_idempotency s)
     \<and> (\<forall>(i, r) \<in> set (mq_reservations s). r_id r = i \<and> dict_get (mq_counters s) (res_key r) \<noteq> None)
     \<and> (\<forall>k. counter_used (mq_counters s) k = charged (mem_abs s) k)
     \<and> idem_ok s \<and> led_wf (mem_abs s)"

section \<open>The memory store implements the ledger\<close>

lemma mem_abs_lookup_list:
  "\<forall>(i, r) \<in> set d. r_id r = i \<Longrightarrow>
     led_lookup i (map (entry_of \<circ> snd) d) = map_option entry_of (map_of d i)"
  by (induction d) (auto simp: led_lookup_def entry_of_def)

lemma mem_abs_lookup:
  "mem_inv s \<Longrightarrow> led_lookup i (mem_abs s) = map_option entry_of (dict_get (mq_reservations s) i)"
  unfolding mem_abs_def by (rule mem_abs_lookup_list) (auto simp: mem_inv_def)

lemma mem_inv_reservation:
  assumes "mem_inv s" "dict_get (mq_reservations s) i = Some r"
  shows "r_id r = i" and "\<exists>ct. dict_get (mq_counters s) (res_key r) = Some ct"
    and "entry_of r \<in> set (mem_abs s)"
  using assms map_of_SomeD [OF assms(2)] by (force simp: mem_inv_def mem_abs_def)+

lemma mem_inv_idem:
  "mem_inv s \<Longrightarrow> dict_get (mq_idempotency s) (a, b, w, ik) = Some i \<longleftrightarrow>
     (\<exists>r. dict_get (mq_reservations s) i = Some r \<and> res_key r = (a, b, w) \<and> r_idempotency_key r = Some ik)"
  unfolding mem_inv_def idem_ok_def by blast

lemma counter_used_set [simp]:
  "counter_used (dict_set cs k ct) k' = (if k = k' then ct_used ct else counter_used cs k')"
  by (simp add: counter_used_def)

lemma mem_inv_counter_used: "mem_inv s \<Longrightarrow> counter_used (mq_counters s) k = charged (mem_abs s) k"
  unfolding mem_inv_def by blast

lemma mem_invD:
  assumes "mem_inv s"
  shows "\<not> mq_closed s" "dict_wf (mq_counters s)" "dict_wf (mq_reservations s)"
    "dict_wf (mq_idempotency s)" "idem_ok s" "led_wf (mem_abs s)"
    "\<forall>(i, r) \<in> set (mq_reservations s). r_id r = i \<and> dict_get (mq_counters s) (res_key r) \<noteq> None"
  using assms unfolding mem_inv_def by blast+

lemma mem_invI:
  "\<lbrakk>\<not> mq_closed s; dict_wf (mq_counters s); dict_wf (mq_reservations s); dict_wf (mq_idempotency s);
    idem_ok s; led_wf (mem_abs s);
    \<forall>(i, r) \<in> set (mq_reservations s). r_id r = i \<and> dict_get (mq_counters s) (res_key r) \<noteq> None;
    \<And>k. counter_used (mq_counters s) k = charged (mem_abs s) k\<rbrakk> \<Longrightarrow> mem_inv s"
  unfolding mem_inv_def by blast

lemma mem_inv_used:
  "\<lbrakk>mem_inv s; dict_get (mq_counters s) k = Some ct\<rbrakk> \<Longrightarrow> ct_used ct = charged (mem_abs s) k"
  unfolding mem_inv_def counter_used_def by (metis option.simps(5))

lemma mem_find_existing:
  assumes inv: "mem_inv s" and ex: "existing_id c s = Some i"
  obtains r where "dict_get (mq_reservations s) i = Some r"
    and "led_find_idem c (mem_abs s) = Some (entry_of r)"
proof -
  from ex obtain ik where ik: "c_idempotency_key c = Some ik"
    and get: "dict_get (mq_idempotency s) (idem_key_of c ik) = Some i"
    by (auto simp: existing_id_def split: option.splits)
  with inv obtain r where r: "dict_get (mq_reservations s) i = Some r" "res_key r = cmd_key c"
    "r_idempotency_key r = Some ik"
    by (auto simp: mem_inv_idem idem_key_of_def cmd_key_def)
  have "led_find_idem c (mem_abs s) = Some (entry_of r)"
    using led_find_idem_unique [of "mem_abs s" "entry_of r" c ik] inv ik r
      mem_inv_reservation(3) [OF inv r(1)]
    by (simp add: mem_inv_def entry_of_def res_key_def)
  with r(1) show ?thesis by (rule that)
qed

lemma mem_find_none:
  assumes inv: "mem_inv s" and ex: "existing_id c s = None"
  shows "led_find_idem c (mem_abs s) = None"
proof (cases "c_idempotency_key c")
  case (Some ik)
  have "\<not> (e_key (entry_of r) = cmd_key c \<and> e_idem (entry_of r) = Some ik)"
    if "(i, r) \<in> set (mq_reservations s)" for i r
  proof -
    from inv that have "dict_get (mq_reservations s) i = Some r"
      by (simp add: mem_inv_def)
    with mem_inv_idem [OF inv, of "c_subject_id c" "c_resource c" "c_window_key c" ik i] ex Some
    show ?thesis by (auto simp: existing_id_def idem_key_of_def entry_of_def res_key_def cmd_key_def)
  qed
  with Some show ?thesis by (auto simp: led_find_idem_def find_None_iff mem_abs_def)
qed (simp add: led_find_idem_def)

lemma entry_mk_reservation [simp]: "entry_of (mk_reservation c u) = new_entry c"
  by (simp add: entry_of_def mk_reservation_def new_entry_def cmd_key_def)

lemma mk_reservation_id [simp]: "r_id (mk_reservation c u) = c_reservation_id c"
  by (simp add: mk_reservation_def)

lemma counter_for_cases:
  assumes inv: "mem_inv s" and cf: "counter_for c s = (ct, s1)"
  shows "mem_inv s1" and "mq_reservations s1 = mq_reservations s" and "mq_idempotency s1 = mq_idempotency s"
    and "dict_get (mq_counters s1) (cmd_key c) = Some ct"
proof -
  show res: "mq_reservations s1 = mq_reservations s" and idm: "mq_idempotency s1 = mq_idempotency s"
    and "dict_get (mq_counters s1) (cmd_key c) = Some ct"
    using cf by (auto simp: counter_for_def Let_def split: option.splits)
  show "mem_inv s1"
  proof (cases "dict_get (mq_counters s) (cmd_key c)")
    case None
    have abs: "mem_abs s1 = mem_abs s" by (simp add: mem_abs_def res)
    from None cf have cs: "mq_counters s1 = dict_set (mq_counters s) (cmd_key c) ct" "ct_used ct = 0"
      "mq_closed s1 = mq_closed s" by (auto simp: counter_for_def Let_def)
    have zero: "charged (mem_abs s) (cmd_key c) = 0"
      using mem_inv_counter_used [OF inv, of "cmd_key c"] None by (simp add: counter_used_def)
    have "idem_ok s1" using mem_invD(5) [OF inv] by (simp add: idem_ok_def res idm)
    then show ?thesis
      using mem_invD [OF inv] zero mem_inv_counter_used [OF inv]
      by (intro mem_invI) (auto simp: cs abs res idm)
  qed (use inv cf in \<open>simp add: counter_for_def\<close>)
qed

lemma add_reservation_inv:
  assumes inv: "mem_inv s" and fresh: "fresh_cmd c (mem_abs s)" and none: "existing_id c s = None"
    and ct: "dict_get (mq_counters s) (cmd_key c) = Some ct"
    and add: "add_reservation c ct s = (r, s')"
  shows "mem_inv s' \<and> mem_abs s' = mem_abs s @ [new_entry c] \<and> entry_of r = new_entry c"
proof -
  let ?i = "c_reservation_id c" and ?r = "mk_reservation c (usage_from_counter (charge_counter c ct))"
  have new: "dict_get (mq_reservations s) ?i = None"
    using fresh mem_abs_lookup [OF inv, of ?i] led_lookup_None [of ?i "mem_abs s"]
    by (simp add: fresh_cmd_def)
  have res: "mq_reservations s' = mq_reservations s @ [(?i, ?r)]" and r: "r = ?r"
    and cnt: "mq_counters s' = dict_set (mq_counters s) (cmd_key c) (charge_counter c ct)"
    and clo: "mq_closed s' = mq_closed s"
    and idm: "mq_idempotency s' = (case c_idempotency_key c of None \<Rightarrow> mq_idempotency s
              | Some ik \<Rightarrow> dict_set (mq_idempotency s) (idem_key_of c ik) ?i)"
    using add by (auto simp: add_reservation_def Let_def dict_set_fresh [OF new] split: option.splits)
  have abs: "mem_abs s' = mem_abs s @ [new_entry c]" by (simp add: mem_abs_def res)
  have used: "counter_used (mq_counters s') k = charged (mem_abs s') k" for k
    using mem_inv_counter_used [OF inv, of k] mem_inv_used [OF inv ct]
    by (auto simp: cnt abs charge_counter_def charged_Cons new_entry_def)
  have get: "dict_get (mq_reservations s') j = (if j = ?i then Some ?r else dict_get (mq_reservations s) j)" for j
    using new by (auto simp: res map_add_def split: option.splits)
  have "idem_ok s'"
    unfolding idem_ok_def
  proof (intro allI)
    fix a b w ik j
    show "dict_get (mq_idempotency s') (a, b, w, ik) = Some j \<longleftrightarrow>
      (\<exists>r. dict_get (mq_reservations s') j = Some r \<and> res_key r = (a, b, w) \<and> r_idempotency_key r = Some ik)"
      using mem_inv_idem [OF inv, of a b w ik j] none new
      by (auto simp: get idm idem_key_of_def res_key_def mk_reservation_def existing_id_def split: option.splits)
  qed
  moreover have "led_wf (mem_abs s')"
    unfolding abs using inv fresh mem_find_none [OF inv none] by (intro led_wf_snoc) (auto simp: mem_inv_def)
  moreover have "dict_wf (mq_reservations s')"
    using inv new by (auto simp: res mem_inv_def map_of_eq_None_iff)
  moreover have "dict_wf (mq_idempotency s')"
    using inv by (auto simp: idm mem_inv_def split: option.splits)
  moreover have "\<forall>(i, r) \<in> set (mq_reservations s'). r_id r = i \<and> dict_get (mq_counters s') (res_key r) \<noteq> None"
    using inv by (auto simp: res cnt mem_inv_def mk_reservation_def res_key_def cmd_key_def)
  ultimately have "mem_inv s'"
    using mem_invD [OF inv] used by (intro mem_invI) (auto simp: clo cnt)
  with abs r show ?thesis by simp
qed

lemma mem_reserve_refines:
  assumes inv: "mem_inv s" and fresh: "fresh_cmd c (mem_abs s)" and op: "mem_reserve c s = (r, s')"
  shows "mem_inv s' \<and> mem_abs s' = snd (led_reserve c (mem_abs s)) \<and>
     (\<exists>x. r = Inr x \<and> map_option entry_of x = fst (led_reserve c (mem_abs s)))"
proof -
  have opened: "ensure_open s = Inr ()" using inv by (simp add: ensure_open_def mem_inv_def)
  show ?thesis
  proof (cases "existing_id c s")
    case (Some i)
    from mem_find_existing [OF inv Some] obtain x where
      "dict_get (mq_reservations s) i = Some x" "led_find_idem c (mem_abs s) = Some (entry_of x)" by blast
    with op inv Some opened show ?thesis by (auto simp: mem_reserve_def led_reserve_def)
  next
    case None
    obtain ct s1 where cf: "counter_for c s = (ct, s1)" by (cases "counter_for c s")
    note s1 = counter_for_cases [OF inv cf]
    have abs1: "mem_abs s1 = mem_abs s" by (simp add: mem_abs_def s1)
    have ex1: "existing_id c s1 = None" using None unfolding existing_id_def s1(3) .
    have used: "ct_used ct = charged (mem_abs s) (cmd_key c)"
      using mem_inv_used [OF s1(1) s1(4)] abs1 by simp
    show ?thesis
    proof (cases "ct_used ct + c_cost c > c_limit c")
      case True
      with op None opened cf s1 abs1 used mem_find_none [OF inv None] show ?thesis
        by (auto simp: mem_reserve_def led_reserve_def)
    next
      case False
      obtain x s2 where add: "add_reservation c ct s1 = (x, s2)" by (cases "add_reservation c ct s1")
      from add_reservation_inv [OF s1(1) _ ex1 s1(4) add] fresh abs1
      have "mem_inv s2 \<and> mem_abs s2 = mem_abs s @ [new_entry c] \<and> entry_of x = new_entry c" by simp
      with op None opened cf False add used mem_find_none [OF inv None] show ?thesis
        by (auto simp: mem_reserve_def led_reserve_def)
    qed
  qed
qed

text \<open>Replacing a stored reservation by one that differs in its status and usage snapshot only.\<close>

lemma store_status:
  assumes inv: "mem_inv s" and get: "dict_get (mq_reservations s) i = Some r"
    and r': "r' = r\<lparr>r_status := st, r_usage := u\<rparr>"
    and s': "mq_reservations s' = dict_set (mq_reservations s) i r'"
  shows "mem_abs s' = led_set_status i st (mem_abs s)"
proof -
  have wf: "dict_wf (mq_reservations s)" using mem_invD(3) [OF inv] .
  have "map (entry_of \<circ> snd) (mq_reservations s') =
        map (\<lambda>(k, x). entry_of (if k = i then r' else x)) (mq_reservations s)"
    using dict_set_existing [OF wf dict_get_Some_key [OF get], of r'] by (simp add: s' case_prod_beta')
  also have "\<dots> = map (\<lambda>(k, x). if e_id (entry_of x) = i then (entry_of x)\<lparr>e_status := st\<rparr> else entry_of x)
      (mq_reservations s)"
  proof (rule map_cong [OF refl])
    fix p assume p: "p \<in> set (mq_reservations s)"
    obtain k x where kx: "p = (k, x)" by (cases p)
    with p have "dict_get (mq_reservations s) k = Some x" using wf by simp
    with get mem_invD(7) [OF inv] p kx show "(case p of (k, x) \<Rightarrow> entry_of (if k = i then r' else x)) =
      (case p of (k, x) \<Rightarrow> if e_id (entry_of x) = i then (entry_of x)\<lparr>e_status := st\<rparr> else entry_of x)"
      by (auto simp: entry_of_def r')
  qed
  finally show ?thesis by (simp add: mem_abs_def led_set_status_def case_prod_beta' o_def)
qed

lemma store_status_inv:
  assumes inv: "mem_inv s" and get: "dict_get (mq_reservations s) i = Some r"
    and r': "r' = r\<lparr>r_status := st, r_usage := u\<rparr>"
    and s': "s' = store_reservation r' (s\<lparr>mq_counters := cs\<rparr>)"
    and cs: "dict_wf cs" "\<And>k. dict_get (mq_counters s) k \<noteq> None \<Longrightarrow> dict_get cs k \<noteq> None"
    and used: "\<And>k. counter_used cs k = charged (led_set_status i st (mem_abs s)) k"
  shows "mem_inv s' \<and> mem_abs s' = led_set_status i st (mem_abs s)"
proof -
  have id: "r_id r' = i" using mem_inv_reservation(1) [OF inv get] by (simp add: r')
  have sel: "mq_reservations s' = dict_set (mq_reservations s) i r'" "mq_counters s' = cs"
    "mq_idempotency s' = mq_idempotency s" "mq_closed s' = mq_closed s"
    by (simp_all add: s' store_reservation_def id)
  have abs: "mem_abs s' = led_set_status i st (mem_abs s)" by (rule store_status [OF inv get r' sel(1)])
  have key: "res_key r' = res_key r" "r_idempotency_key r' = r_idempotency_key r"
    by (simp_all add: r' res_key_def)
  have get': "dict_get (mq_reservations s') j = (if i = j then Some r' else dict_get (mq_reservations s) j)" for j
    by (simp add: sel)
  have "idem_ok s'"
    unfolding idem_ok_def
  proof (intro allI)
    fix a b w ik j
    show "dict_get (mq_idempotency s') (a, b, w, ik) = Some j \<longleftrightarrow>
      (\<exists>r. dict_get (mq_reservations s') j = Some r \<and> res_key r = (a, b, w) \<and> r_idempotency_key r = Some ik)"
      using mem_inv_idem [OF inv, of a b w ik j] get by (auto simp: get' key sel(3))
  qed
  moreover have "r_id x = j \<and> dict_get (mq_counters s') (res_key x) \<noteq> None"
    if "(j, x) \<in> set (mq_reservations s')" for j x
  proof -
    have "dict_wf (mq_reservations s')" using mem_invD(3) [OF inv] by (simp add: sel)
    from dict_get_in_set [OF this] that have "dict_get (mq_reservations s') j = Some x" by blast
    then show ?thesis
      using mem_inv_reservation(1,2) [OF inv] get cs(2) id key(1)
      by (auto simp: get' sel(2) split: if_splits)
  qed
  ultimately have "mem_inv s'"
    using mem_invD [OF inv] cs(1) used led_wf_set_status [OF mem_invD(6) [OF inv]]
    by (intro mem_invI) (auto simp: sel(2-4) abs, simp add: sel(1))
  with abs show ?thesis by simp
qed

lemma mem_finalize_refines:
  assumes inv: "mem_inv s" and op: "mem_finalize i s = (r, s')"
  shows "mem_inv s' \<and> mem_abs s' = snd (led_finalize i (mem_abs s)) \<and>
     fst (led_finalize i (mem_abs s)) = (case r of Inl e \<Rightarrow> Some e | Inr _ \<Rightarrow> None)"
proof -
  have opened: "ensure_open s = Inr ()" using mem_invD(1) [OF inv] by (simp add: ensure_open_def)
  show ?thesis
  proof (cases "dict_get (mq_reservations s) i")
    case None
    with op inv opened show ?thesis
      by (auto simp: mem_finalize_def require_reservation_def led_finalize_def mem_abs_lookup)
  next
    case (Some x)
    have look: "led_lookup i (mem_abs s) = Some (entry_of x)" using Some inv by (simp add: mem_abs_lookup)
    have dist: "distinct (map e_id (mem_abs s))" using mem_invD(6) [OF inv] by (simp add: led_wf_def)
    have st: "e_status (entry_of x) = r_status x" by (simp add: entry_of_def)
    obtain ct where ct: "dict_get (mq_counters s) (res_key x) = Some ct"
      using mem_inv_reservation(2) [OF inv Some] by blast
    show ?thesis
    proof (cases "r_status x")
      case RESERVED
      let ?u = "usage_from_counter ct"
      let ?s = "store_reservation (x\<lparr>r_status := FINALIZED, r_usage := ?u\<rparr>) s"
      have "mem_inv ?s \<and> mem_abs ?s = led_set_status i FINALIZED (mem_abs s)"
      proof (rule store_status_inv [OF inv Some refl, where cs = "mq_counters s"])
        show "counter_used (mq_counters s) k = charged (led_set_status i FINALIZED (mem_abs s)) k" for k
          using charged_set_status [OF dist look, of FINALIZED k] mem_inv_counter_used [OF inv, of k]
          by (simp add: st RESERVED)
      qed (use mem_invD [OF inv] in simp_all)
      with op Some opened ct RESERVED look st show ?thesis
        by (auto simp: mem_finalize_def require_reservation_def led_finalize_def
            usage_for_reservation_def counter_for_reservation_def)
    next
      case FINALIZED
      with op Some opened look st inv led_set_status_same [OF dist look] show ?thesis
        by (auto simp: mem_finalize_def require_reservation_def led_finalize_def)
    qed (use op Some opened look st inv in
        \<open>auto simp: mem_finalize_def require_reservation_def led_finalize_def\<close>)
  qed
qed

lemma mem_refund_refines:
  assumes inv: "mem_inv s" and op: "mem_refund i s = (r, s')"
  shows "mem_inv s' \<and> mem_abs s' = snd (led_refund i (mem_abs s)) \<and>
     fst (led_refund i (mem_abs s)) = (case r of Inl e \<Rightarrow> Some e | Inr _ \<Rightarrow> None)"
proof -
  have opened: "ensure_open s = Inr ()" using mem_invD(1) [OF inv] by (simp add: ensure_open_def)
  show ?thesis
  proof (cases "dict_get (mq_reservations s) i")
    case None
    with op inv opened show ?thesis
      by (auto simp: mem_refund_def require_reservation_def led_refund_def mem_abs_lookup)
  next
    case (Some x)
    have look: "led_lookup i (mem_abs s) = Some (entry_of x)" using Some inv by (simp add: mem_abs_lookup)
    have dist: "distinct (map e_id (mem_abs s))" using mem_invD(6) [OF inv] by (simp add: led_wf_def)
    have st: "e_status (entry_of x) = r_status x" "e_key (entry_of x) = res_key x" "e_cost (entry_of x) = r_cost x"
      by (simp_all add: entry_of_def res_key_def)
    obtain ct where ct: "dict_get (mq_counters s) (res_key x) = Some ct"
      using mem_inv_reservation(2) [OF inv Some] by blast
    show ?thesis
    proof (cases "r_status x")
      case RESERVED
      let ?ct = "ct\<lparr>ct_used := max (ct_used ct - r_cost x) 0\<rparr>"
      let ?u = "usage_from_counter ?ct" and ?cs = "dict_set (mq_counters s) (res_key x) ?ct"
      let ?s = "store_reservation (x\<lparr>r_status := REFUNDED, r_usage := ?u\<rparr>) (s\<lparr>mq_counters := ?cs\<rparr>)"
      have le: "r_cost x \<le> ct_used ct"
        using charged_lookup_le [OF mem_invD(6) [OF inv] look] mem_inv_used [OF inv ct] by (simp add: st RESERVED)
      have "mem_inv ?s \<and> mem_abs ?s = led_set_status i REFUNDED (mem_abs s)"
      proof (rule store_status_inv [OF inv Some refl refl])
        show "counter_used ?cs k = charged (led_set_status i REFUNDED (mem_abs s)) k" for k
          using charged_set_status [OF dist look, of REFUNDED k] mem_inv_counter_used [OF inv, of k]
            mem_inv_used [OF inv ct] le by (auto simp: st RESERVED)
      qed (use mem_invD [OF inv] in auto)
      with op Some opened ct RESERVED look st show ?thesis
        by (auto simp: mem_refund_def require_reservation_def led_refund_def Let_def
            counter_for_reservation_def)
    next
      case REFUNDED
      with op Some opened look st inv led_set_status_same [OF dist look] show ?thesis
        by (auto simp: mem_refund_def require_reservation_def led_refund_def)
    qed (use op Some opened look st inv in
        \<open>auto simp: mem_refund_def require_reservation_def led_refund_def\<close>)
  qed
qed

lemma mem_get_usage_refines:
  assumes inv: "mem_inv s" and op: "mem_get_usage q s = (r, s')"
  shows "mem_inv s' \<and> mem_abs s' = mem_abs s \<and>
     (\<exists>u. r = Inr u \<and> u_used u = charged (mem_abs s) (q_subject_id q, q_resource q, q_window_key q))"
proof -
  let ?k = "(q_subject_id q, q_resource q, q_window_key q)"
  have opened: "ensure_open s = Inr ()" using mem_invD(1) [OF inv] by (simp add: ensure_open_def)
  show ?thesis
  proof (cases "dict_get (mq_counters s) ?k")
    case None
    with op inv opened mem_inv_counter_used [OF inv, of ?k] show ?thesis
      by (auto simp: mem_get_usage_def usage_from_query_def counter_used_def)
  next
    case (Some ct)
    let ?cs = "dict_set (mq_counters s) ?k (ct\<lparr>ct_limit := q_limit q, ct_reset_at := q_reset_at q\<rparr>)"
    let ?s = "s\<lparr>mq_counters := ?cs\<rparr>"
    have abs: "mem_abs ?s = mem_abs s" by (simp add: mem_abs_def)
    have "idem_ok ?s" using mem_invD(5) [OF inv] by (simp add: idem_ok_def)
    then have "mem_inv ?s"
      using mem_invD [OF inv] mem_inv_counter_used [OF inv] mem_inv_used [OF inv Some]
      by (intro mem_invI) (auto simp: abs)
    with op opened Some abs mem_inv_used [OF inv Some] show ?thesis
      by (auto simp: mem_get_usage_def Let_def usage_from_counter_def)
  qed
qed

text \<open>Both resets keep the entries whose (subject, resource, window) satisfies a predicate.\<close>

definition keep_keys :: "(quota_key \<Rightarrow> bool) \<Rightarrow> mem_quota \<Rightarrow> mem_quota" where
  "keep_keys P s =
     s\<lparr>mq_counters := filter (\<lambda>(k, _). P k) (mq_counters s),
       mq_reservations := filter (\<lambda>(_, r). P (res_key r)) (mq_reservations s),
       mq_idempotency := filter (\<lambda>((a, b, w, _), _). P (a, b, w)) (mq_idempotency s)\<rparr>"

lemma keep_keys_abs: "mem_abs (keep_keys P s) = filter (\<lambda>e. P (e_key e)) (mem_abs s)"
  by (simp add: mem_abs_def keep_keys_def filter_map o_def entry_of_def res_key_def case_prod_beta')

lemma keep_keys_inv:
  assumes inv: "mem_inv s"
  shows "mem_inv (keep_keys P s)"
proof -
  let ?s = "keep_keys P s"
  note wf = mem_invD(2-4) [OF inv]
  have getr: "dict_get (mq_reservations ?s) j = (case dict_get (mq_reservations s) j of
      Some r \<Rightarrow> if P (res_key r) then Some r else None | None \<Rightarrow> None)" for j
    by (simp add: keep_keys_def dict_get_filter [OF wf(2)] split: option.split)
  have geti: "dict_get (mq_idempotency ?s) (a, b, w, ik) =
      (if P (a, b, w) then dict_get (mq_idempotency s) (a, b, w, ik) else None)" for a b w ik
    by (simp add: keep_keys_def dict_get_filter [OF wf(3)] split: option.split)
  have getc: "dict_get (mq_counters ?s) k = (if P k then dict_get (mq_counters s) k else None)" for k
    by (simp add: keep_keys_def dict_get_filter [OF wf(1)] split: option.split)
  have "idem_ok ?s"
    unfolding idem_ok_def
  proof (intro allI)
    fix a b w ik j
    show "dict_get (mq_idempotency ?s) (a, b, w, ik) = Some j \<longleftrightarrow>
      (\<exists>r. dict_get (mq_reservations ?s) j = Some r \<and> res_key r = (a, b, w) \<and> r_idempotency_key r = Some ik)"
      using mem_inv_idem [OF inv, of a b w ik j] by (auto simp: geti getr split: option.splits if_splits)
  qed
  moreover have "counter_used (mq_counters ?s) k = charged (mem_abs ?s) k" for k
    using mem_inv_counter_used [OF inv, of k]
    by (simp add: keep_keys_abs charged_filter_key counter_used_def getc)
  moreover have "r_id x = j \<and> dict_get (mq_counters ?s) (res_key x) \<noteq> None"
    if "(j, x) \<in> set (mq_reservations ?s)" for j x
    using that mem_invD(7) [OF inv] by (auto simp: getc) (auto simp: keep_keys_def)
  ultimately show ?thesis
    using mem_invD [OF inv] led_wf_filter
    by (intro mem_invI) (auto simp: keep_keys_abs, auto simp: keep_keys_def)
qed

lemma mem_reset_usage_keep:
  "mem_inv s \<Longrightarrow> mem_reset_usage q s = (Inr (usage_from_query q),
     keep_keys (\<lambda>k. fst k \<noteq> q_subject_id q \<or> fst (snd k) \<noteq> q_resource q) s)"
  by (simp add: mem_reset_usage_def ensure_open_def keep_keys_def res_key_def case_prod_beta' mem_invD(1))

lemma mem_reset_resource_keep:
  "mem_inv s \<Longrightarrow> mem_reset_resource res s = (Inr (), keep_keys (\<lambda>k. fst (snd k) \<noteq> res) s)"
  by (simp add: mem_reset_resource_def ensure_open_def keep_keys_def res_key_def case_prod_beta' mem_invD(1))

lemma mem_reset_usage_refines:
  "\<lbrakk>mem_inv s; mem_reset_usage q s = (r, s')\<rbrakk> \<Longrightarrow>
     mem_inv s' \<and> mem_abs s' = led_reset_usage (q_subject_id q) (q_resource q) (mem_abs s)
     \<and> r = Inr (usage_from_query q)"
  by (auto simp: mem_reset_usage_keep keep_keys_inv keep_keys_abs led_reset_usage_def)

lemma mem_reset_resource_refines:
  "\<lbrakk>mem_inv s; mem_reset_resource res s = (r, s')\<rbrakk> \<Longrightarrow>
     mem_inv s' \<and> mem_abs s' = led_reset_resource res (mem_abs s) \<and> r = Inr ()"
  by (auto simp: mem_reset_resource_keep keep_keys_inv keep_keys_abs led_reset_resource_def)

definition mem_api :: "mem_quota quota_api" where
  "mem_api = \<lparr>api_reserve = mem_reserve, api_finalize = mem_finalize, api_refund = mem_refund,
     api_get_usage = mem_get_usage, api_reset_usage = mem_reset_usage,
     api_reset_resource = mem_reset_resource\<rparr>"

lemma mem_api_sel:
  "api_reserve mem_api = mem_reserve" "api_finalize mem_api = mem_finalize" "api_refund mem_api = mem_refund"
  "api_get_usage mem_api = mem_get_usage" "api_reset_usage mem_api = mem_reset_usage"
  "api_reset_resource mem_api = mem_reset_resource"
  by (simp_all add: mem_api_def)

interpretation mem_store: quota_store mem_api mem_inv mem_abs
  by (unfold_locales; (unfold mem_api_sel)?;
      rule mem_invD(6) mem_reserve_refines mem_finalize_refines mem_refund_refines
        mem_get_usage_refines mem_reset_usage_refines mem_reset_resource_refines; assumption)

lemma MemoryQuotaStore_inv: "mem_inv MemoryQuotaStore"
  by (rule mem_invI)
    (auto simp: MemoryQuotaStore_def idem_ok_def mem_abs_def led_wf_def idem_unique_def counter_used_def)

end
