(* ===== verification/Quota_Postgres.thy ===== *)
theory Quota_Postgres
  imports Quota SQL
begin

text \<open>
  The Postgres quota store (\<open>src/app/modules/platform/quota/adapters/postgres.py\<close>, tables of
  \<open>quota/records.py\<close>).

  Every operation is one transaction over the two tables. The unique constraints are the conflict
  predicates of the insert statements; the surrogate key of \<open>quota_counters\<close>, which nothing reads,
  the time stamps of \<open>TimestampMixin\<close> and the column widths are left out. The store is shown to
  implement the same ledger as the memory store.
\<close>

section \<open>Tables\<close>

record counter_row =
  pc_subject_id :: string
  pc_resource :: string
  pc_window_key :: string
  pc_used :: int
  pc_limit :: int
  pc_reset_at :: datetime

record reservation_row =
  pr_id :: string
  pr_subject_id :: string
  pr_resource :: string
  pr_window_key :: string
  pr_cost :: int
  pr_status :: reservation_status
  pr_idempotency_key :: "string option"
  pr_reset_at :: datetime

record pg_quota =
  pq_counters :: "counter_row table"
  pq_reservations :: "reservation_row table"

definition pc_key :: "counter_row \<Rightarrow> quota_key" where
  "pc_key r = (pc_subject_id r, pc_resource r, pc_window_key r)"

definition pr_key :: "reservation_row \<Rightarrow> quota_key" where
  "pr_key r = (pr_subject_id r, pr_resource r, pr_window_key r)"

text \<open>Primary key, and \<open>uq_quota_reservations_idempotency\<close> where a null key equals nothing.\<close>

definition reservation_clash :: "reservation_row \<Rightarrow> reservation_row \<Rightarrow> bool" where
  "reservation_clash a b \<longleftrightarrow> pr_id a = pr_id b \<or>
     (pr_key a = pr_key b \<and> pr_idempotency_key a \<noteq> None \<and> pr_idempotency_key a = pr_idempotency_key b)"

section \<open>Operations\<close>

definition usage_from_row :: "counter_row \<Rightarrow> quota_usage" where
  "usage_from_row r =
     \<lparr>u_subject_id = pc_subject_id r, u_resource = pc_resource r, u_window_key = pc_window_key r,
      u_used = pc_used r, u_limit = pc_limit r, u_remaining = max (pc_limit r - pc_used r) 0,
      u_reset_at = pc_reset_at r\<rparr>"

definition ensure_counter :: "reserve_quota \<Rightarrow> pg_quota \<Rightarrow> pg_quota" where
  "ensure_counter c s = s\<lparr>pq_counters :=
     sql_upsert (\<lambda>a b. pc_key a = pc_key b)
       (\<lambda>r. r\<lparr>pc_limit := c_limit c, pc_reset_at := c_reset_at c\<rparr>)
       \<lparr>pc_subject_id = c_subject_id c, pc_resource = c_resource c, pc_window_key = c_window_key c,
        pc_used = 0, pc_limit = c_limit c, pc_reset_at = c_reset_at c\<rparr>
       (pq_counters s)\<rparr>"

definition try_increment_counter :: "reserve_quota \<Rightarrow> pg_quota \<Rightarrow> (exn + quota_usage option) \<times> pg_quota" where
  "try_increment_counter c s =
     (let (rows, t) = sql_update (\<lambda>r. pc_key r = cmd_key c \<and> pc_used r + c_cost c \<le> c_limit c)
            (\<lambda>r. r\<lparr>pc_used := pc_used r + c_cost c, pc_limit := c_limit c, pc_reset_at := c_reset_at c\<rparr>)
            (pq_counters s) in
      (case sql_one_or_none rows of Inl e \<Rightarrow> Inl e | Inr row \<Rightarrow> Inr (map_option usage_from_row row),
       s\<lparr>pq_counters := t\<rparr>))"

definition find_idempotent_reservation :: "reserve_quota \<Rightarrow> pg_quota \<Rightarrow> reservation_row option" where
  "find_idempotent_reservation c s = (case c_idempotency_key c of
      None \<Rightarrow> None
    | Some ik \<Rightarrow> sql_scalar (filter (\<lambda>r. pr_key r = cmd_key c \<and> pr_idempotency_key r = Some ik)
                              (pq_reservations s)))"

definition claim_reserved ::
  "string \<Rightarrow> reservation_status \<Rightarrow> pg_quota \<Rightarrow> reservation_row option \<times> pg_quota" where
  "claim_reserved i st s =
     (let (rows, t) = sql_update (\<lambda>r. pr_id r = i \<and> pr_status r = RESERVED) (\<lambda>r. r\<lparr>pr_status := st\<rparr>)
            (pq_reservations s) in
      (sql_scalar rows, s\<lparr>pq_reservations := t\<rparr>))"

definition pg_require_reservation :: "string \<Rightarrow> pg_quota \<Rightarrow> exn + reservation_row" where
  "pg_require_reservation i s = (case find (\<lambda>r. pr_id r = i) (pq_reservations s) of
      None \<Rightarrow> Inl (KeyError i) | Some r \<Rightarrow> Inr r)"

definition pg_usage_for_reservation :: "reservation_row \<Rightarrow> pg_quota \<Rightarrow> exn + quota_usage" where
  "pg_usage_for_reservation r s =
     (case sql_one (filter (\<lambda>ct. pc_key ct = pr_key r) (pq_counters s)) of
        Inl e \<Rightarrow> Inl e | Inr row \<Rightarrow> Inr (usage_from_row row))"

definition to_reservation :: "reservation_row \<Rightarrow> pg_quota \<Rightarrow> exn + quota_reservation" where
  "to_reservation r s = (case pg_usage_for_reservation r s of
      Inl e \<Rightarrow> Inl e
    | Inr u \<Rightarrow> Inr \<lparr>r_id = pr_id r, r_subject_id = pr_subject_id r, r_resource = pr_resource r,
                    r_window_key = pr_window_key r, r_cost = pr_cost r, r_status = pr_status r,
                    r_usage = u, r_idempotency_key = pr_idempotency_key r\<rparr>)"

definition reservation_values :: "reserve_quota \<Rightarrow> reservation_row" where
  "reservation_values c =
     \<lparr>pr_id = c_reservation_id c, pr_subject_id = c_subject_id c, pr_resource = c_resource c,
      pr_window_key = c_window_key c, pr_cost = c_cost c, pr_status = RESERVED,
      pr_idempotency_key = c_idempotency_key c, pr_reset_at = c_reset_at c\<rparr>"

definition pg_reserve_tx :: "reserve_quota \<Rightarrow> pg_quota \<Rightarrow> (exn + quota_reservation option) \<times> pg_quota" where
  "pg_reserve_tx c s = (case find_idempotent_reservation c s of
      Some r \<Rightarrow> (map_sum id Some (to_reservation r s), s)
    | None \<Rightarrow>
       (let s1 = ensure_counter c s;
            (inserted, t) = sql_insert_nothing reservation_clash (reservation_values c) (pq_reservations s1);
            s2 = s1\<lparr>pq_reservations := t\<rparr> in
        case inserted of
          None \<Rightarrow> (case find_idempotent_reservation c s2 of
              None \<Rightarrow> (Inl (RuntimeError ''quota reservation conflict without a winner''), s2)
            | Some r \<Rightarrow> (map_sum id Some (to_reservation r s2), s2))
        | Some _ \<Rightarrow> (case try_increment_counter c s2 of
              (Inl e, s3) \<Rightarrow> (Inl e, s3)
            | (Inr None, s3) \<Rightarrow>
                (Inr None, s3\<lparr>pq_reservations := sql_delete (\<lambda>r. pr_id r = c_reservation_id c) (pq_reservations s3)\<rparr>)
            | (Inr (Some u), s3) \<Rightarrow>
                (Inr (Some \<lparr>r_id = c_reservation_id c, r_subject_id = c_subject_id c,
                            r_resource = c_resource c, r_window_key = c_window_key c, r_cost = c_cost c,
                            r_status = RESERVED, r_usage = u, r_idempotency_key = c_idempotency_key c\<rparr>), s3))))"

definition pg_reserve :: "reserve_quota \<Rightarrow> pg_quota \<Rightarrow> (exn + quota_reservation option) \<times> pg_quota" where
  "pg_reserve c = transaction (pg_reserve_tx c)"

definition pg_finalize_tx :: "string \<Rightarrow> pg_quota \<Rightarrow> (exn + quota_usage) \<times> pg_quota" where
  "pg_finalize_tx i s = (case claim_reserved i FINALIZED s of
      (Some r, s1) \<Rightarrow> (pg_usage_for_reservation r s1, s1)
    | (None, s1) \<Rightarrow> (case pg_require_reservation i s1 of
        Inl e \<Rightarrow> (Inl e, s1)
      | Inr r \<Rightarrow> if pr_status r = REFUNDED
                 then (Inl (ValueError ''refunded reservation cannot be finalized''), s1)
                 else (pg_usage_for_reservation r s1, s1)))"

definition pg_finalize :: "string \<Rightarrow> pg_quota \<Rightarrow> (exn + quota_usage) \<times> pg_quota" where
  "pg_finalize i = transaction (pg_finalize_tx i)"

definition pg_refund_tx :: "string \<Rightarrow> pg_quota \<Rightarrow> (exn + quota_usage) \<times> pg_quota" where
  "pg_refund_tx i s = (case claim_reserved i REFUNDED s of
      (None, s1) \<Rightarrow> (case pg_require_reservation i s1 of
        Inl e \<Rightarrow> (Inl e, s1)
      | Inr r \<Rightarrow> if pr_status r = FINALIZED
                 then (Inl (ValueError ''finalized reservation cannot be refunded''), s1)
                 else (pg_usage_for_reservation r s1, s1))
    | (Some r, s1) \<Rightarrow>
        (let (rows, t) = sql_update (\<lambda>ct. pc_key ct = pr_key r)
               (\<lambda>ct. ct\<lparr>pc_used := (if pc_used ct \<ge> pr_cost r then pc_used ct - pr_cost r else 0)\<rparr>)
               (pq_counters s1) in
         (map_sum id usage_from_row (sql_one rows), s1\<lparr>pq_counters := t\<rparr>)))"

definition pg_refund :: "string \<Rightarrow> pg_quota \<Rightarrow> (exn + quota_usage) \<times> pg_quota" where
  "pg_refund i = transaction (pg_refund_tx i)"

definition pg_get_usage :: "usage_query \<Rightarrow> pg_quota \<Rightarrow> (exn + quota_usage) \<times> pg_quota" where
  "pg_get_usage q s =
     (case sql_one_or_none (filter (\<lambda>ct. pc_key ct = (q_subject_id q, q_resource q, q_window_key q))
                              (pq_counters s)) of
        Inl e \<Rightarrow> Inl e
      | Inr None \<Rightarrow> Inr (usage_from_query q)
      | Inr (Some row) \<Rightarrow> Inr (usage_from_row row), s)"

definition pg_reset_usage :: "usage_query \<Rightarrow> pg_quota \<Rightarrow> (exn + quota_usage) \<times> pg_quota" where
  "pg_reset_usage q s = (Inr (usage_from_query q),
     s\<lparr>pq_reservations := sql_delete (\<lambda>r. pr_subject_id r = q_subject_id q \<and> pr_resource r = q_resource q)
                            (pq_reservations s),
       pq_counters := sql_delete (\<lambda>r. pc_subject_id r = q_subject_id q \<and> pc_resource r = q_resource q)
                        (pq_counters s)\<rparr>)"

definition pg_reset_resource :: "string \<Rightarrow> pg_quota \<Rightarrow> (exn + unit) \<times> pg_quota" where
  "pg_reset_resource res s = (Inr (),
     s\<lparr>pq_reservations := sql_delete (\<lambda>r. pr_resource r = res) (pq_reservations s),
       pq_counters := sql_delete (\<lambda>r. pc_resource r = res) (pq_counters s)\<rparr>)"

definition PostgresQuotaStore :: pg_quota where
  "PostgresQuotaStore = \<lparr>pq_counters = [], pq_reservations = []\<rparr>"

definition pg_api :: "pg_quota quota_api" where
  "pg_api = \<lparr>api_reserve = pg_reserve, api_finalize = pg_finalize, api_refund = pg_refund,
     api_get_usage = pg_get_usage, api_reset_usage = pg_reset_usage,
     api_reset_resource = pg_reset_resource\<rparr>"

section \<open>Abstraction and invariant\<close>

definition row_entry :: "reservation_row \<Rightarrow> entry" where
  "row_entry r = \<lparr>e_id = pr_id r, e_key = pr_key r, e_cost = pr_cost r, e_status = pr_status r,
                  e_idem = pr_idempotency_key r\<rparr>"

definition pg_abs :: "pg_quota \<Rightarrow> ledger" where
  "pg_abs s = map row_entry (pq_reservations s)"

definition counters_ok :: "counter_row table \<Rightarrow> ledger \<Rightarrow> bool" where
  "counters_ok cs L \<longleftrightarrow> distinct (map pc_key cs) \<and> (\<forall>ct \<in> set cs. pc_used ct = charged L (pc_key ct))
     \<and> e_key ` set L \<subseteq> pc_key ` set cs"

definition pg_inv :: "pg_quota \<Rightarrow> bool" where
  "pg_inv s \<longleftrightarrow> counters_ok (pq_counters s) (pg_abs s) \<and> led_wf (pg_abs s)"

section \<open>The Postgres store implements the ledger\<close>

lemma counters_ok_row:
  assumes ok: "counters_ok cs L" and k: "k \<in> pc_key ` set cs"
  obtains ct where "filter (\<lambda>c. pc_key c = k) cs = [ct]" "pc_key ct = k" "pc_used ct = charged L k"
proof -
  from k obtain ct where ct: "ct \<in> set cs" "pc_key ct = k" by auto
  with filter_key_unique [of pc_key cs ct] ok that show ?thesis by (auto simp: counters_ok_def)
qed

lemma pc_keys_update:
  assumes key: "\<And>ct. pc_key (f ct) = pc_key ct"
  shows "map pc_key (map (\<lambda>r. if P r then f r else r) cs) = map pc_key cs"
    and "pc_key ` set (map (\<lambda>r. if P r then f r else r) cs) = pc_key ` set cs"
proof -
  show "map pc_key (map (\<lambda>r. if P r then f r else r) cs) = map pc_key cs"
    by (induction cs) (auto simp: key)
  then show "pc_key ` set (map (\<lambda>r. if P r then f r else r) cs) = pc_key ` set cs" by (metis list.set_map)
qed

lemma counters_ok_update:
  assumes ok: "counters_ok cs L" and key: "\<And>ct. pc_key (f ct) = pc_key ct"
    and used: "\<And>ct. ct \<in> set cs \<Longrightarrow> pc_key ct = k \<Longrightarrow> pc_used (f ct) = charged L' k"
    and other: "\<And>k'. k' \<noteq> k \<Longrightarrow> charged L' k' = charged L k'"
    and keys: "e_key ` set L' \<subseteq> pc_key ` set cs"
  shows "counters_ok (map (\<lambda>r. if pc_key r = k then f r else r) cs) L'"
proof -
  let ?cs = "map (\<lambda>r. if pc_key r = k then f r else r) cs"
  have "pc_used ct = charged L' (pc_key ct)" if "ct \<in> set ?cs" for ct
  proof -
    from that obtain c where c: "c \<in> set cs" "ct = (if pc_key c = k then f c else c)" by auto
    with ok used [of c] other [of "pc_key c"] show ?thesis
      by (cases "pc_key c = k") (simp_all add: counters_ok_def key)
  qed
  then show ?thesis
    using ok [unfolded counters_ok_def] keys
    unfolding counters_ok_def pc_keys_update [where f = f, OF key] by blast
qed

lemma ensure_counter_inv:
  assumes inv: "pg_inv s"
  shows "pg_inv (ensure_counter c s)" and "pg_abs (ensure_counter c s) = pg_abs s"
    and "cmd_key c \<in> pc_key ` set (pq_counters (ensure_counter c s))"
    and "pq_reservations (ensure_counter c s) = pq_reservations s"
proof -
  let ?row = "\<lparr>pc_subject_id = c_subject_id c, pc_resource = c_resource c, pc_window_key = c_window_key c,
        pc_used = 0, pc_limit = c_limit c, pc_reset_at = c_reset_at c\<rparr>"
  let ?f = "\<lambda>r. r\<lparr>pc_limit := c_limit c, pc_reset_at := c_reset_at c\<rparr>"
  have row: "pc_key ?row = cmd_key c" by (simp add: pc_key_def cmd_key_def)
  show abs: "pg_abs (ensure_counter c s) = pg_abs s"
    and "pq_reservations (ensure_counter c s) = pq_reservations s"
    by (simp_all add: ensure_counter_def pg_abs_def)
  note ok = inv [unfolded pg_inv_def]
  show "pg_inv (ensure_counter c s)" and "cmd_key c \<in> pc_key ` set (pq_counters (ensure_counter c s))"
  proof (atomize (full), cases "cmd_key c \<in> pc_key ` set (pq_counters s)")
    case True
    then have cs: "pq_counters (ensure_counter c s) =
        map (\<lambda>r. if pc_key r = cmd_key c then ?f r else r) (pq_counters s)"
      unfolding ensure_counter_def sql_upsert_def row by (auto simp: image_iff)
    have "counters_ok (map (\<lambda>r. if pc_key r = cmd_key c then ?f r else r) (pq_counters s)) (pg_abs s)"
      using ok by (intro counters_ok_update) (auto simp: pc_key_def counters_ok_def)
    moreover have "cmd_key c \<in> pc_key ` set (pq_counters (ensure_counter c s))"
      unfolding cs by (subst pc_keys_update(2)) (use True in \<open>auto simp: pc_key_def\<close>)
    ultimately show "pg_inv (ensure_counter c s) \<and>
        cmd_key c \<in> pc_key ` set (pq_counters (ensure_counter c s))"
      using ok by (simp add: pg_inv_def abs cs)
  next
    case False
    then have cs: "pq_counters (ensure_counter c s) = pq_counters s @ [?row]"
      unfolding ensure_counter_def sql_upsert_def row by (auto simp: image_iff)
    have "charged (pg_abs s) (cmd_key c) = 0"
      using ok False by (intro charged_no_entries) (force simp: counters_ok_def)
    with ok False show "pg_inv (ensure_counter c s) \<and>
        cmd_key c \<in> pc_key ` set (pq_counters (ensure_counter c s))"
      by (auto simp: pg_inv_def abs cs counters_ok_def row)
  qed
qed

lemma pg_find_idem:
  "led_find_idem c (pg_abs s) = map_option row_entry (find_idempotent_reservation c s)"
  by (simp add: led_find_idem_def find_idempotent_reservation_def pg_abs_def find_map sql_scalar_find
      o_def row_entry_def split: option.split)

lemma pg_lookup: "led_lookup i (pg_abs s) = map_option row_entry (find (\<lambda>r. pr_id r = i) (pq_reservations s))"
  by (simp add: led_lookup_def pg_abs_def find_map o_def row_entry_def)

lemma pg_usage_ok:
  assumes "pg_inv s" "r \<in> set (pq_reservations s)"
  shows "\<exists>u. pg_usage_for_reservation r s = Inr u"
proof -
  from assms have "pr_key r \<in> pc_key ` set (pq_counters s)"
    by (force simp: pg_inv_def counters_ok_def pg_abs_def row_entry_def)
  with assms show ?thesis
    using counters_ok_row [of "pq_counters s" "pg_abs s" "pr_key r"]
    by (metis pg_inv_def pg_usage_for_reservation_def sql_one.simps(2) sum.simps(6))
qed

lemma to_reservation_ok:
  assumes "pg_inv s" "r \<in> set (pq_reservations s)"
  shows "\<exists>x. to_reservation r s = Inr x \<and> entry_of x = row_entry r"
  using pg_usage_ok [OF assms] by (auto simp: to_reservation_def entry_of_def row_entry_def pr_key_def)

lemma find_idempotent_mem: "find_idempotent_reservation c s = Some r \<Longrightarrow> r \<in> set (pq_reservations s)"
  by (auto simp: find_idempotent_reservation_def sql_scalar_find find_Some_iff split: option.splits)

lemma row_entry_values [simp]: "row_entry (reservation_values c) = new_entry c"
  by (simp add: row_entry_def reservation_values_def new_entry_def pr_key_def cmd_key_def)

lemma insert_reservation:
  assumes fresh: "fresh_cmd c (pg_abs s)" and none: "find_idempotent_reservation c s = None"
  shows "sql_insert_nothing reservation_clash (reservation_values c) (pq_reservations s) =
     (Some (reservation_values c), pq_reservations s @ [reservation_values c])"
proof -
  have "\<not> reservation_clash (reservation_values c) r" if r: "r \<in> set (pq_reservations s)" for r
  proof -
    have "pr_id r \<noteq> c_reservation_id c"
      using fresh r by (force simp: fresh_cmd_def pg_abs_def row_entry_def)
    moreover have "pr_key r \<noteq> cmd_key c \<or> pr_idempotency_key r \<noteq> Some ik"
      if "c_idempotency_key c = Some ik" for ik
      using none that r by (auto simp: find_idempotent_reservation_def sql_scalar_find find_None_iff)
    ultimately show ?thesis
      by (cases "c_idempotency_key c")
        (auto simp: reservation_clash_def reservation_values_def pr_key_def cmd_key_def)
  qed
  then show ?thesis by (auto simp: sql_insert_nothing_def)
qed

lemma try_increment_eq:
  assumes ok: "counters_ok (pq_counters s) L" and k: "cmd_key c \<in> pc_key ` set (pq_counters s)"
  shows "if charged L (cmd_key c) + c_cost c \<le> c_limit c
     then \<exists>u. try_increment_counter c s = (Inr (Some u), s\<lparr>pq_counters :=
            map (\<lambda>r. if pc_key r = cmd_key c then r\<lparr>pc_used := pc_used r + c_cost c, pc_limit := c_limit c,
              pc_reset_at := c_reset_at c\<rparr> else r) (pq_counters s)\<rparr>)
     else try_increment_counter c s = (Inr None, s)"
proof -
  let ?P = "\<lambda>r. pc_key r = cmd_key c \<and> pc_used r + c_cost c \<le> c_limit c"
  obtain ct where ct: "filter (\<lambda>r. pc_key r = cmd_key c) (pq_counters s) = [ct]"
    using counters_ok_row [OF ok k] by metis
  have used: "pc_used r = charged L (cmd_key c)" if "r \<in> set (pq_counters s)" "pc_key r = cmd_key c" for r
    using ok that by (simp add: counters_ok_def)
  show ?thesis
  proof (cases "charged L (cmd_key c) + c_cost c \<le> c_limit c")
    case True
    with used have P: "?P r \<longleftrightarrow> pc_key r = cmd_key c" if "r \<in> set (pq_counters s)" for r
      using that by auto
    have "filter ?P (pq_counters s) = filter (\<lambda>r. pc_key r = cmd_key c) (pq_counters s)"
      using P by (intro filter_cong) auto
    with ct have one: "filter ?P (pq_counters s) = [ct]" by simp
    have upd: "map (\<lambda>r. if ?P r then f r else r) (pq_counters s) =
        map (\<lambda>r. if pc_key r = cmd_key c then f r else r) (pq_counters s)" for f
      using P by (intro map_cong) auto
    show ?thesis using True unfolding try_increment_counter_def sql_update_def one upd by simp
  next
    case False
    then have no: "\<not> ?P r" if "r \<in> set (pq_counters s)" for r using used that by auto
    then have "filter ?P (pq_counters s) = []" by (auto simp: filter_empty_conv)
    moreover have "map (\<lambda>r. if ?P r then f r else r) (pq_counters s) = pq_counters s" for f
      using no by (intro map_idI) auto
    ultimately show ?thesis using False by (simp add: try_increment_counter_def sql_update_def)
  qed
qed

lemma pg_reserve_refines:
  assumes inv: "pg_inv s" and fresh: "fresh_cmd c (pg_abs s)" and op: "pg_reserve c s = (r, s')"
  shows "pg_inv s' \<and> pg_abs s' = snd (led_reserve c (pg_abs s)) \<and>
     (\<exists>x. r = Inr x \<and> map_option entry_of x = fst (led_reserve c (pg_abs s)))"
proof (cases "find_idempotent_reservation c s")
  case (Some row)
  obtain x where "to_reservation row s = Inr x" "entry_of x = row_entry row"
    using to_reservation_ok [OF inv find_idempotent_mem [OF Some]] by blast
  with op inv Some show ?thesis
    by (auto simp: pg_reserve_def transaction_def pg_reserve_tx_def led_reserve_def pg_find_idem)
next
  case None
  let ?L = "pg_abs s" and ?s1 = "ensure_counter c s"
  let ?s2 = "?s1\<lparr>pq_reservations := pq_reservations s @ [reservation_values c]\<rparr>"
  note s1 = ensure_counter_inv [OF inv, of c]
  have none: "led_find_idem c ?L = None" using None by (simp add: pg_find_idem)
  have ok2: "counters_ok (pq_counters ?s2) ?L" using s1(1,2) by (simp add: pg_inv_def)
  have ins: "sql_insert_nothing reservation_clash (reservation_values c) (pq_reservations ?s1) =
     (Some (reservation_values c), pq_reservations s @ [reservation_values c])"
    using insert_reservation [OF fresh None] s1(4) by simp
  have inc: "cmd_key c \<in> pc_key ` set (pq_counters ?s2)" using s1(3) by simp
  show ?thesis
  proof (cases "charged ?L (cmd_key c) + c_cost c \<le> c_limit c")
    case True
    let ?f = "\<lambda>r. r\<lparr>pc_used := pc_used r + c_cost c, pc_limit := c_limit c, pc_reset_at := c_reset_at c\<rparr>"
    let ?s3 = "?s2\<lparr>pq_counters := map (\<lambda>r. if pc_key r = cmd_key c then ?f r else r) (pq_counters ?s2)\<rparr>"
    obtain u where u: "try_increment_counter c ?s2 = (Inr (Some u), ?s3)"
      using try_increment_eq [OF ok2 inc] True by auto
    have abs3: "pg_abs ?s3 = ?L @ [new_entry c]" by (simp add: pg_abs_def)
    have key: "e_key (new_entry c) = cmd_key c" "e_cost (new_entry c) = c_cost c" "e_status (new_entry c) = RESERVED"
      by (simp_all add: new_entry_def)
    have "counters_ok (map (\<lambda>r. if pc_key r = cmd_key c then ?f r else r) (pq_counters ?s1)) (?L @ [new_entry c])"
    proof (rule counters_ok_update)
      show "counters_ok (pq_counters (ensure_counter c s)) ?L" using ok2 by simp
      show "charged (?L @ [new_entry c]) k' = charged ?L k'" if "k' \<noteq> cmd_key c" for k'
        using that by (simp add: charged_Cons key)
      show "e_key ` set (?L @ [new_entry c]) \<subseteq> pc_key ` set (pq_counters (ensure_counter c s))"
        using ok2 inc by (auto simp: counters_ok_def key)
    qed (use ok2 in \<open>auto simp: pc_key_def counters_ok_def charged_Cons key\<close>)
    moreover have "led_wf (?L @ [new_entry c])"
      using led_wf_snoc [OF _ fresh none] inv by (simp add: pg_inv_def)
    ultimately have "pg_inv ?s3" unfolding pg_inv_def abs3 by simp
    moreover have "pg_reserve_tx c s = (Inr (Some (the (case r of Inr x \<Rightarrow> x))), ?s3) \<and> s' = ?s3
        \<and> (\<exists>x. r = Inr (Some x) \<and> entry_of x = new_entry c)"
      using op None ins u
      by (auto simp: pg_reserve_def transaction_def pg_reserve_tx_def Let_def entry_of_def new_entry_def cmd_key_def)
    ultimately show ?thesis using True none abs3 by (auto simp: led_reserve_def)
  next
    case False
    have u: "try_increment_counter c ?s2 = (Inr None, ?s2)"
      using try_increment_eq [OF ok2 inc] False by simp
    have "\<forall>x \<in> set (pq_reservations s). pr_id x \<noteq> c_reservation_id c"
      using fresh by (force simp: fresh_cmd_def pg_abs_def row_entry_def)
    then have "sql_delete (\<lambda>r. pr_id r = c_reservation_id c) (pq_reservations ?s2) = pq_reservations ?s1"
      by (auto simp: sql_delete_def reservation_values_def s1(4) filter_id_conv)
    with op None ins u have "s' = ?s1\<lparr>pq_reservations := pq_reservations ?s1\<rparr>" "r = Inr None"
      by (auto simp: pg_reserve_def transaction_def pg_reserve_tx_def Let_def)
    with s1(1,2) False none show ?thesis by (auto simp: led_reserve_def)
  qed
qed

definition set_row_status :: "string \<Rightarrow> reservation_status \<Rightarrow> pg_quota \<Rightarrow> pg_quota" where
  "set_row_status i st s =
     s\<lparr>pq_reservations := map (\<lambda>r. if pr_id r = i then r\<lparr>pr_status := st\<rparr> else r) (pq_reservations s)\<rparr>"

lemma set_row_status_abs: "pg_abs (set_row_status i st s) = led_set_status i st (pg_abs s)"
  by (simp add: set_row_status_def pg_abs_def led_set_status_def row_entry_def pr_key_def)

lemma set_row_status_mem:
  "\<lbrakk>row \<in> set (pq_reservations s); pr_id row = i\<rbrakk> \<Longrightarrow>
     row\<lparr>pr_status := st\<rparr> \<in> set (pq_reservations (set_row_status i st s))"
  using imageI [of row "set (pq_reservations s)" "\<lambda>r. if pr_id r = i then r\<lparr>pr_status := st\<rparr> else r"]
  by (simp add: set_row_status_def)

lemma pg_ids_distinct: "pg_inv s \<Longrightarrow> distinct (map pr_id (pq_reservations s))"
  by (simp add: pg_inv_def led_wf_def pg_abs_def row_entry_def o_def)

lemma claim_reserved_eq:
  assumes inv: "pg_inv s"
  shows "claim_reserved i st s = (case find (\<lambda>r. pr_id r = i) (pq_reservations s) of
      None \<Rightarrow> (None, s)
    | Some r \<Rightarrow> if pr_status r = RESERVED then (Some (r\<lparr>pr_status := st\<rparr>), set_row_status i st s) else (None, s))"
proof (cases "find (\<lambda>r. pr_id r = i) (pq_reservations s)")
  case None
  then have no: "\<forall>r \<in> set (pq_reservations s). pr_id r \<noteq> i" by (auto simp: find_None_iff)
  then have "map (\<lambda>r. if pr_id r = i \<and> pr_status r = RESERVED then r\<lparr>pr_status := st\<rparr> else r)
      (pq_reservations s) = pq_reservations s"
    by (intro map_idI) auto
  moreover have "filter (\<lambda>r. pr_id r = i \<and> pr_status r = RESERVED) (pq_reservations s) = []"
    using no by (auto simp: filter_empty_conv)
  ultimately show ?thesis by (simp add: claim_reserved_def sql_update_def None)
next
  case (Some r)
  then have r: "r \<in> set (pq_reservations s)" "pr_id r = i" by (auto simp: find_Some_iff)
  have one: "filter (\<lambda>x. pr_id x = i) (pq_reservations s) = [r]"
    using filter_key_unique [OF pg_ids_distinct [OF inv] r(1)] r(2) by simp
  then have uniq: "x = r" if "x \<in> set (pq_reservations s)" "pr_id x = i" for x
  proof -
    have "x \<in> set (filter (\<lambda>x. pr_id x = i) (pq_reservations s))" using that by simp
    then show ?thesis unfolding one by simp
  qed
  have "filter (\<lambda>x. pr_id x = i \<and> pr_status x = RESERVED) (pq_reservations s) =
      filter (\<lambda>x. pr_status x = RESERVED) [r]"
    unfolding one [symmetric] filter_filter ..
  moreover have "map (\<lambda>x. if pr_id x = i \<and> pr_status x = RESERVED then x\<lparr>pr_status := st\<rparr> else x)
      (pq_reservations s) = (if pr_status r = RESERVED
         then map (\<lambda>x. if pr_id x = i then x\<lparr>pr_status := st\<rparr> else x) (pq_reservations s)
         else pq_reservations s)"
    using uniq by (auto intro!: map_cong map_idI)
  ultimately show ?thesis
    by (simp add: claim_reserved_def sql_update_def Some set_row_status_def)
qed

lemma counters_ok_same_charge:
  "\<lbrakk>counters_ok cs L; \<And>k. charged L' k = charged L k; e_key ` set L' = e_key ` set L\<rbrakk> \<Longrightarrow> counters_ok cs L'"
  unfolding counters_ok_def by simp

lemma led_set_status_keys: "e_key ` set (led_set_status i st L) = e_key ` set L"
proof -
  have "map e_key (led_set_status i st L) = map e_key L" by (induction L) (auto simp: led_set_status_def)
  then show ?thesis by (metis list.set_map)
qed

text \<open>What \<open>session.get\<close> finds is the ledger's entry.\<close>

lemma pg_found:
  assumes inv: "pg_inv s" and row: "find (\<lambda>r. pr_id r = i) (pq_reservations s) = Some row"
  shows "row \<in> set (pq_reservations s)" and "pr_id row = i"
    and "led_lookup i (pg_abs s) = Some (row_entry row)"
    and "distinct (map e_id (pg_abs s))"
    and "e_status (row_entry row) = pr_status row" "e_key (row_entry row) = pr_key row"
        "e_cost (row_entry row) = pr_cost row"
  using row inv by (auto simp: find_Some_iff pg_lookup pg_inv_def led_wf_def row_entry_def)

lemma pg_finalize_refines:
  assumes inv: "pg_inv s" and op: "pg_finalize i s = (r, s')"
  shows "pg_inv s' \<and> pg_abs s' = snd (led_finalize i (pg_abs s)) \<and>
     fst (led_finalize i (pg_abs s)) = (case r of Inl e \<Rightarrow> Some e | Inr _ \<Rightarrow> None)"
proof (cases "find (\<lambda>r. pr_id r = i) (pq_reservations s)")
  case None
  with op inv show ?thesis
    by (auto simp: pg_finalize_def transaction_def pg_finalize_tx_def claim_reserved_eq
        pg_require_reservation_def led_finalize_def pg_lookup)
next
  case (Some row)
  note f = pg_found [OF inv Some]
  show ?thesis
  proof (cases "pr_status row")
    case RESERVED
    let ?s = "set_row_status i FINALIZED s" and ?row = "row\<lparr>pr_status := FINALIZED\<rparr>"
    have "counters_ok (pq_counters s) (led_set_status i FINALIZED (pg_abs s))"
    proof (rule counters_ok_same_charge [OF _ _ led_set_status_keys])
      show "counters_ok (pq_counters s) (pg_abs s)" using inv by (simp add: pg_inv_def)
      show "charged (led_set_status i FINALIZED (pg_abs s)) k = charged (pg_abs s) k" for k
        using charged_set_status [OF f(4,3), of FINALIZED k] RESERVED f(5) by simp
    qed
    then have inv': "pg_inv ?s"
      using inv led_wf_set_status unfolding pg_inv_def set_row_status_abs by (simp add: set_row_status_def)
    have "?row \<in> set (pq_reservations ?s)"
      by (rule set_row_status_mem [OF f(1,2)])
    from pg_usage_ok [OF inv' this] obtain u where "pg_usage_for_reservation ?row ?s = Inr u" by blast
    then have "pg_finalize_tx i s = (Inr u, ?s)"
      by (simp add: pg_finalize_tx_def claim_reserved_eq [OF inv] Some RESERVED)
    with op have "r = Inr u" "s' = ?s" by (simp_all add: pg_finalize_def transaction_def)
    with inv' RESERVED f(3,5) show ?thesis by (simp add: led_finalize_def set_row_status_abs)
  next
    case FINALIZED
    obtain u where "pg_usage_for_reservation row s = Inr u" using pg_usage_ok [OF inv f(1)] by blast
    then have "pg_finalize_tx i s = (Inr u, s)"
      by (simp add: pg_finalize_tx_def claim_reserved_eq [OF inv] Some FINALIZED pg_require_reservation_def)
    with op have "r = Inr u" "s' = s" by (simp_all add: pg_finalize_def transaction_def)
    with inv FINALIZED f(3,5) led_set_status_same [OF f(4,3)] show ?thesis by (simp add: led_finalize_def)
  next
    case REFUNDED
    with op inv Some f(3,5) show ?thesis
      by (auto simp: pg_finalize_def transaction_def pg_finalize_tx_def claim_reserved_eq
          pg_require_reservation_def led_finalize_def)
  qed
qed

lemma pg_refund_counters:
  assumes inv: "pg_inv s" and row: "find (\<lambda>r. pr_id r = i) (pq_reservations s) = Some row"
    and st: "pr_status row = RESERVED"
    and f: "f = (\<lambda>ct. ct\<lparr>pc_used := (if pc_used ct \<ge> pr_cost row then pc_used ct - pr_cost row else 0)\<rparr>)"
  shows "counters_ok (map (\<lambda>ct. if pc_key ct = pr_key row then f ct else ct) (pq_counters s))
           (led_set_status i REFUNDED (pg_abs s))"
proof (rule counters_ok_update)
  note fd = pg_found [OF inv row]
  note ch = charged_set_status [OF fd(4,3), of REFUNDED]
  show ok: "counters_ok (pq_counters s) (pg_abs s)" using inv by (simp add: pg_inv_def)
  show "e_key ` set (led_set_status i REFUNDED (pg_abs s)) \<subseteq> pc_key ` set (pq_counters s)"
    using ok unfolding led_set_status_keys counters_ok_def by simp
  show "pc_key (f ct) = pc_key ct" for ct by (simp add: f pc_key_def)
  show "charged (led_set_status i REFUNDED (pg_abs s)) k = charged (pg_abs s) k" if "k \<noteq> pr_key row" for k
    using ch [of k] that fd(6) by simp
  show "pc_used (f ct) = charged (led_set_status i REFUNDED (pg_abs s)) (pr_key row)"
    if "ct \<in> set (pq_counters s)" "pc_key ct = pr_key row" for ct
  proof -
    have "led_wf (pg_abs s)" using inv by (simp add: pg_inv_def)
    then have "pr_cost row \<le> charged (pg_abs s) (pr_key row)"
      using charged_lookup_le [OF _ fd(3)] fd(5-7) st by simp
    moreover have "pc_used ct = charged (pg_abs s) (pr_key row)"
      using ok that by (simp add: counters_ok_def)
    ultimately show ?thesis using ch [of "pr_key row"] fd(5-7) st by (simp add: f)
  qed
qed

lemma pg_refund_refines:
  assumes inv: "pg_inv s" and op: "pg_refund i s = (r, s')"
  shows "pg_inv s' \<and> pg_abs s' = snd (led_refund i (pg_abs s)) \<and>
     fst (led_refund i (pg_abs s)) = (case r of Inl e \<Rightarrow> Some e | Inr _ \<Rightarrow> None)"
proof (cases "find (\<lambda>r. pr_id r = i) (pq_reservations s)")
  case None
  with op inv show ?thesis
    by (auto simp: pg_refund_def transaction_def pg_refund_tx_def claim_reserved_eq
        pg_require_reservation_def led_refund_def pg_lookup)
next
  case (Some row)
  note fd = pg_found [OF inv Some]
  show ?thesis
  proof (cases "pr_status row")
    case RESERVED
    let ?f = "\<lambda>ct. ct\<lparr>pc_used := (if pc_used ct \<ge> pr_cost row then pc_used ct - pr_cost row else 0)\<rparr>"
    let ?cs = "map (\<lambda>ct. if pc_key ct = pr_key row then ?f ct else ct) (pq_counters s)"
    let ?s1 = "set_row_status i REFUNDED s" and ?row = "row\<lparr>pr_status := REFUNDED\<rparr>"
    let ?s2 = "?s1\<lparr>pq_counters := ?cs\<rparr>"
    have key: "pr_key ?row = pr_key row" "pr_cost ?row = pr_cost row" by (simp_all add: pr_key_def)
    have abs2: "pg_abs ?s2 = led_set_status i REFUNDED (pg_abs s)"
      using set_row_status_abs [of i REFUNDED s] by (simp add: pg_abs_def)
    have "pg_inv ?s2"
      using pg_refund_counters [OF inv Some RESERVED refl] led_wf_set_status inv
      unfolding pg_inv_def abs2 by simp
    moreover have "pr_key row \<in> pc_key ` set (pq_counters s)"
      using inv fd(1) by (force simp: pg_inv_def counters_ok_def pg_abs_def row_entry_def)
    then obtain ct where ct: "filter (\<lambda>c. pc_key c = pr_key row) (pq_counters s) = [ct]"
      using counters_ok_row inv unfolding pg_inv_def by metis
    have "pg_refund_tx i s = (Inr (usage_from_row (?f ct)), ?s2)"
      by (simp add: pg_refund_tx_def claim_reserved_eq [OF inv] Some RESERVED sql_update_def key ct)
         (simp add: set_row_status_def ct)
    with op have "r = Inr (usage_from_row (?f ct))" "s' = ?s2" by (simp_all add: pg_refund_def transaction_def)
    ultimately show ?thesis using RESERVED fd(3,5) abs2 by (simp add: led_refund_def)
  next
    case REFUNDED
    obtain u where "pg_usage_for_reservation row s = Inr u" using pg_usage_ok [OF inv fd(1)] by blast
    then have "pg_refund_tx i s = (Inr u, s)"
      by (simp add: pg_refund_tx_def claim_reserved_eq [OF inv] Some REFUNDED pg_require_reservation_def)
    with op have "r = Inr u" "s' = s" by (simp_all add: pg_refund_def transaction_def)
    with inv REFUNDED fd(3,5) led_set_status_same [OF fd(4,3)] show ?thesis by (simp add: led_refund_def)
  next
    case FINALIZED
    with op inv Some fd(3,5) show ?thesis
      by (auto simp: pg_refund_def transaction_def pg_refund_tx_def claim_reserved_eq
          pg_require_reservation_def led_refund_def)
  qed
qed

lemma pg_get_usage_refines:
  assumes inv: "pg_inv s" and op: "pg_get_usage q s = (r, s')"
  shows "pg_inv s' \<and> pg_abs s' = pg_abs s \<and>
     (\<exists>u. r = Inr u \<and> u_used u = charged (pg_abs s) (q_subject_id q, q_resource q, q_window_key q))"
proof -
  let ?k = "(q_subject_id q, q_resource q, q_window_key q)"
  have ok: "counters_ok (pq_counters s) (pg_abs s)" using inv by (simp add: pg_inv_def)
  show ?thesis
  proof (cases "?k \<in> pc_key ` set (pq_counters s)")
    case True
    obtain ct where "filter (\<lambda>c. pc_key c = ?k) (pq_counters s) = [ct]" "pc_used ct = charged (pg_abs s) ?k"
      using counters_ok_row [OF ok True] by blast
    with op inv show ?thesis by (auto simp: pg_get_usage_def usage_from_row_def)
  next
    case False
    then have "charged (pg_abs s) ?k = 0"
      using ok by (intro charged_no_entries) (force simp: counters_ok_def)
    with op inv filter_key_none [OF False] show ?thesis
      by (auto simp: pg_get_usage_def usage_from_query_def)
  qed
qed

definition pg_keep_keys :: "(quota_key \<Rightarrow> bool) \<Rightarrow> pg_quota \<Rightarrow> pg_quota" where
  "pg_keep_keys P s =
     s\<lparr>pq_reservations := filter (\<lambda>r. P (pr_key r)) (pq_reservations s),
       pq_counters := filter (\<lambda>r. P (pc_key r)) (pq_counters s)\<rparr>"

lemma pg_keep_keys_abs: "pg_abs (pg_keep_keys P s) = filter (\<lambda>e. P (e_key e)) (pg_abs s)"
  by (simp add: pg_keep_keys_def pg_abs_def filter_map o_def row_entry_def)

lemma pg_keep_keys_inv: "pg_inv s \<Longrightarrow> pg_inv (pg_keep_keys P s)"
  unfolding pg_inv_def pg_keep_keys_abs counters_ok_def
  by (auto simp: pg_keep_keys_def charged_filter_key distinct_map_filter led_wf_filter)

lemma pg_reset_usage_refines:
  "\<lbrakk>pg_inv s; pg_reset_usage q s = (r, s')\<rbrakk> \<Longrightarrow>
     pg_inv s' \<and> pg_abs s' = led_reset_usage (q_subject_id q) (q_resource q) (pg_abs s)
     \<and> r = Inr (usage_from_query q)"
  using pg_keep_keys_inv [of s "\<lambda>k. fst k \<noteq> q_subject_id q \<or> fst (snd k) \<noteq> q_resource q"]
    pg_keep_keys_abs [of "\<lambda>k. fst k \<noteq> q_subject_id q \<or> fst (snd k) \<noteq> q_resource q" s]
  by (auto simp: pg_reset_usage_def sql_delete_def led_reset_usage_def pg_keep_keys_def pr_key_def pc_key_def)

lemma pg_reset_resource_refines:
  "\<lbrakk>pg_inv s; pg_reset_resource res s = (r, s')\<rbrakk> \<Longrightarrow>
     pg_inv s' \<and> pg_abs s' = led_reset_resource res (pg_abs s) \<and> r = Inr ()"
  using pg_keep_keys_inv [of s "\<lambda>k. fst (snd k) \<noteq> res"] pg_keep_keys_abs [of "\<lambda>k. fst (snd k) \<noteq> res" s]
  by (auto simp: pg_reset_resource_def sql_delete_def led_reset_resource_def pg_keep_keys_def pr_key_def pc_key_def)

lemma pg_inv_wf: "pg_inv s \<Longrightarrow> led_wf (pg_abs s)"
  by (simp add: pg_inv_def)

lemma pg_api_sel:
  "api_reserve pg_api = pg_reserve" "api_finalize pg_api = pg_finalize" "api_refund pg_api = pg_refund"
  "api_get_usage pg_api = pg_get_usage" "api_reset_usage pg_api = pg_reset_usage"
  "api_reset_resource pg_api = pg_reset_resource"
  by (simp_all add: pg_api_def)

interpretation pg_store: quota_store pg_api pg_inv pg_abs
  by (unfold_locales; (unfold pg_api_sel)?;
      rule pg_inv_wf pg_reserve_refines pg_finalize_refines pg_refund_refines
        pg_get_usage_refines pg_reset_usage_refines pg_reset_resource_refines; assumption)

lemma PostgresQuotaStore_inv: "pg_inv PostgresQuotaStore"
  by (simp add: PostgresQuotaStore_def pg_inv_def pg_abs_def counters_ok_def led_wf_def idem_unique_def)

end
