(* ===== verification/Quota_Service.thy ===== *)
theory Quota_Service
  imports Quota_Memory Quota_Postgres Py_Datetime
begin

text \<open>
  The quota service (\<open>src/app/modules/platform/quota/service.py\<close>) over any store, and the
  guarantees of the whole quota component for the memory and the Postgres store.

  The clock and the reservation id that \<open>uuid4\<close> draws are arguments of the operations. The client
  lemmas are proved once, in \<open>context quota_store\<close>, and read off both interpretations.
\<close>

section \<open>Operations\<close>

type_synonym policy_store = "(string, quota_policy) dict"

definition get_policy :: "policy_store \<Rightarrow> string \<Rightarrow> quota_policy option" where
  "get_policy ps resource = dict_get ps resource"

definition resolve_policy :: "policy_store \<Rightarrow> string \<Rightarrow> quota_policy option \<Rightarrow> exn + quota_policy" where
  "resolve_policy ps resource policy = (case policy of
      Some p \<Rightarrow> if qp_resource p \<noteq> resource
                then Inl (ValueError ''policy resource must match requested resource'') else Inr p
    | None \<Rightarrow> (case get_policy ps resource of
        None \<Rightarrow> Inl (KeyError (''No quota policy configured for resource '' @ repr_str resource))
      | Some p \<Rightarrow> Inr p))"

definition quota_exceeded :: "string \<Rightarrow> quota_policy \<Rightarrow> int \<Rightarrow> datetime \<Rightarrow> datetime \<Rightarrow> exn" where
  "quota_exceeded subject p cost reset_at now =
     AppError (RateLimitError (Some (''Quota exceeded for resource '' @ qp_resource p)) None
       (Some (retry_after_secs reset_at now))
       (Some (JObj [(''subject_id'', JStr subject), (''resource'', JStr (qp_resource p)),
                    (''limit'', JInt (qp_limit p)), (''cost'', JInt cost),
                    (''reset_at'', JStr (isoformat reset_at))])))"

definition svc_reserve ::
  "'s quota_api \<Rightarrow> policy_store \<Rightarrow> py_datetime \<Rightarrow> string \<Rightarrow> string \<Rightarrow> string \<Rightarrow> int option \<Rightarrow>
   quota_policy option \<Rightarrow> string option \<Rightarrow> 's \<Rightarrow> (exn + quota_reservation) \<times> 's" where
  "svc_reserve api ps clock uuid subject resource cost policy ik s =
    (case resolve_policy ps resource policy of
       Inl e \<Rightarrow> (Inl e, s)
     | Inr p \<Rightarrow>
       (let rcost = (case cost of None \<Rightarrow> qp_default_cost p | Some c \<Rightarrow> c) in
        if rcost \<le> 0 then (Inl (ValueError ''cost must be positive''), s)
        else (let now = ensure_utc clock in
          case resolve_fixed_window now (qp_window_seconds p) of
            Inl e \<Rightarrow> (Inl e, s)
          | Inr w \<Rightarrow>
            (case ReserveQuota_create uuid subject (qp_resource p) (win_key w) (qp_limit p) rcost
                    (win_reset_at w) ik of
               Inl e \<Rightarrow> (Inl e, s)
             | Inr command \<Rightarrow>
               (case api_reserve api command s of
                  (Inl e, s') \<Rightarrow> (Inl e, s')
                | (Inr None, s') \<Rightarrow> (Inl (quota_exceeded subject p rcost (win_reset_at w) now), s')
                | (Inr (Some r), s') \<Rightarrow> (Inr r, s'))))))"

datatype reservation_ref = ByReservation quota_reservation | ById string

fun reservation_id :: "reservation_ref \<Rightarrow> string" where
  "reservation_id (ByReservation r) = r_id r"
| "reservation_id (ById i) = i"

definition svc_finalize :: "'s quota_api \<Rightarrow> reservation_ref \<Rightarrow> 's \<Rightarrow> (exn + quota_usage) \<times> 's" where
  "svc_finalize api r s = api_finalize api (reservation_id r) s"

definition svc_refund :: "'s quota_api \<Rightarrow> reservation_ref \<Rightarrow> 's \<Rightarrow> (exn + quota_usage) \<times> 's" where
  "svc_refund api r s = api_refund api (reservation_id r) s"

definition svc_usage_query :: "py_datetime \<Rightarrow> string \<Rightarrow> quota_policy \<Rightarrow> exn + usage_query" where
  "svc_usage_query clock subject p =
     (case resolve_fixed_window (ensure_utc clock) (qp_window_seconds p) of
        Inl e \<Rightarrow> Inl e
      | Inr w \<Rightarrow> Inr \<lparr>q_subject_id = subject, q_resource = qp_resource p, q_window_key = win_key w,
                      q_limit = qp_limit p, q_reset_at = win_reset_at w\<rparr>)"

definition svc_with_query ::
  "(usage_query \<Rightarrow> 's \<Rightarrow> (exn + quota_usage) \<times> 's) \<Rightarrow> policy_store \<Rightarrow> py_datetime \<Rightarrow> string \<Rightarrow> string \<Rightarrow>
   quota_policy option \<Rightarrow> 's \<Rightarrow> (exn + quota_usage) \<times> 's" where
  "svc_with_query f ps clock subject resource policy s =
     (case resolve_policy ps resource policy of
        Inl e \<Rightarrow> (Inl e, s)
      | Inr p \<Rightarrow> (case svc_usage_query clock subject p of Inl e \<Rightarrow> (Inl e, s) | Inr q \<Rightarrow> f q s))"

definition svc_get_usage ::
  "'s quota_api \<Rightarrow> policy_store \<Rightarrow> py_datetime \<Rightarrow> string \<Rightarrow> string \<Rightarrow> quota_policy option \<Rightarrow> 's \<Rightarrow>
   (exn + quota_usage) \<times> 's" where
  "svc_get_usage api = svc_with_query (api_get_usage api)"

definition svc_reset_usage ::
  "'s quota_api \<Rightarrow> policy_store \<Rightarrow> py_datetime \<Rightarrow> string \<Rightarrow> string \<Rightarrow> quota_policy option \<Rightarrow> 's \<Rightarrow>
   (exn + quota_usage) \<times> 's" where
  "svc_reset_usage api = svc_with_query (api_reset_usage api)"

definition svc_reset_resource :: "'s quota_api \<Rightarrow> string \<Rightarrow> 's \<Rightarrow> (exn + unit) \<times> 's" where
  "svc_reset_resource api res s = api_reset_resource api res s"

section \<open>Client lemmas, for any store\<close>

context quota_store
begin

text \<open>Reserving: the ledger moves by one entry of the resolved cost, or the call is refused.\<close>

lemma svc_reserve_granted:
  assumes inv: "inv s" and uuid: "uuid \<notin> e_id ` set (abs s)"
    and op: "svc_reserve api ps clock uuid subject resource cost policy ik s = (Inr r, s')"
  shows "inv s' \<and> entry_of r \<in> set (abs s') \<and>
     (abs s' = abs s \<or> abs s' = abs s @ [entry_of r] \<and> r_status r = RESERVED \<and> 0 < r_cost r)"
proof -
  from op obtain p :: quota_policy and rcost and w :: quota_window and c where
    c: "ReserveQuota_create uuid subject (qp_resource p) (win_key w) (qp_limit p) rcost (win_reset_at w) ik = Inr c"
    and api: "api_reserve api c s = (Inr (Some r), s')" and rcost: "\<not> rcost \<le> 0"
    by (auto simp: svc_reserve_def Let_def split: sum.splits option.splits prod.splits if_splits)
  from c uuid have fresh: "fresh_cmd c (abs s)" and cost: "c_cost c = rcost"
    by (auto simp: ReserveQuota_create_def ReserveQuota_check_def fresh_cmd_def split: if_splits)
  from reserve_law [OF inv fresh api]
  have *: "inv s'" "abs s' = snd (led_reserve c (abs s))" "Some (entry_of r) = fst (led_reserve c (abs s))"
    by auto
  show ?thesis
  proof (cases "led_find_idem c (abs s)")
    case None
    with * have "entry_of r = new_entry c" "abs s' = abs s @ [new_entry c]"
      by (auto simp: led_reserve_def split: if_splits)
    then have "abs s' = abs s @ [entry_of r]" "r_status r = RESERVED" "r_cost r = rcost"
      using cost by (auto simp: entry_of_def new_entry_def)
    with *(1) rcost show ?thesis by simp
  next
    case (Some e)
    then have "e \<in> set (abs s)" by (auto simp: led_find_idem_def find_Some_iff split: option.splits)
    with * Some show ?thesis by (auto simp: led_reserve_def)
  qed
qed

lemma refund_once:
  assumes inv: "inv s" and look: "led_lookup i (abs s) = Some e" and st: "e_status e = RESERVED"
    and op: "api_refund api i s = (r, s1)" "api_refund api i s1 = (r', s2)"
  shows "(\<exists>u. r = Inr u) \<and> (\<exists>u. r' = Inr u) \<and> abs s2 = abs s1
     \<and> charged (abs s2) (e_key e) = charged (abs s) (e_key e) - e_cost e
     \<and> fst (api_finalize api i s2) = Inl (ValueError ''refunded reservation cannot be finalized'')"
proof -
  have dist: "distinct (map e_id (abs s))" using inv_wf [OF inv] by (simp add: led_wf_def)
  have 1: "inv s1" "abs s1 = led_set_status i REFUNDED (abs s)" "\<exists>u. r = Inr u"
    using refund_law [OF inv op(1)] look st by (auto simp: led_refund_def split: sum.splits)
  have id: "e \<in> set (abs s)" "e_id e = i" using led_lookup_Some [OF look] by auto
  have "e\<lparr>e_status := REFUNDED\<rparr> \<in> set (abs s1)"
    using id imageI [of e "set (abs s)" "\<lambda>e. if e_id e = i then e\<lparr>e_status := REFUNDED\<rparr> else e"]
    by (simp add: 1(2) led_set_status_def)
  then have look1: "led_lookup i (abs s1) = Some (e\<lparr>e_status := REFUNDED\<rparr>)"
    using led_lookup_unique [of "abs s1" "e\<lparr>e_status := REFUNDED\<rparr>"] inv_wf [OF 1(1)] id
    by (simp add: led_wf_def)
  have dist1: "distinct (map e_id (abs s1))" using inv_wf [OF 1(1)] by (simp add: led_wf_def)
  have 2: "inv s2" "abs s2 = abs s1" "\<exists>u. r' = Inr u"
    using refund_law [OF 1(1) op(2)] look1 led_set_status_same [OF dist1 look1]
    by (auto simp: led_refund_def split: sum.splits)
  have "charged (abs s2) (e_key e) = charged (abs s) (e_key e) - e_cost e"
    using charged_set_status [OF dist look, of REFUNDED "e_key e"] st 1(2) 2(2) by simp
  moreover obtain f s3 where f: "api_finalize api i s2 = (f, s3)" by (cases "api_finalize api i s2")
  from finalize_law [OF 2(1) f] look1 2(2)
  have "f = Inl (ValueError ''refunded reservation cannot be finalized'')"
    by (auto simp: led_finalize_def split: sum.splits)
  ultimately show ?thesis using 1(3) 2(2,3) f by simp
qed

lemma idempotent_retry:
  assumes inv: "inv s" and fresh: "fresh_cmd c (abs s)" "fresh_cmd c' (abs s1)"
    and same: "cmd_key c' = cmd_key c" "c_idempotency_key c' = c_idempotency_key c"
      "c_idempotency_key c = Some ik"
    and op: "api_reserve api c s = (Inr (Some r), s1)" "api_reserve api c' s1 = (r', s2)"
  shows "abs s2 = abs s1 \<and> (\<exists>x. r' = Inr (Some x) \<and> entry_of x = entry_of r)"
proof -
  have 1: "inv s1" "abs s1 = snd (led_reserve c (abs s))" "fst (led_reserve c (abs s)) = Some (entry_of r)"
    using reserve_law [OF inv fresh(1) op(1)] by auto
  have "entry_of r \<in> set (abs s1) \<and> e_key (entry_of r) = cmd_key c \<and> e_idem (entry_of r) = Some ik"
  proof (cases "led_find_idem c (abs s)")
    case None
    with 1 have "abs s1 = abs s @ [new_entry c] \<and> entry_of r = new_entry c"
      by (auto simp: led_reserve_def split: if_splits)
    then show ?thesis using same(3) by (simp add: new_entry_def)
  next
    case (Some e)
    with same(3) have "e \<in> set (abs s)" "e_key e = cmd_key c" "e_idem e = Some ik"
      by (auto simp: led_find_idem_def find_Some_iff)
    with 1 Some show ?thesis by (simp add: led_reserve_def)
  qed
  then have "led_find_idem c' (abs s1) = Some (entry_of r)"
    using led_find_idem_unique [OF inv_wf [OF 1(1)], of "entry_of r" c' ik] same by simp
  with reserve_law [OF 1(1) fresh(2) op(2)] show ?thesis by (auto simp: led_reserve_def)
qed

text \<open>Once the request is well formed, the charge of the window alone decides between a grant and a refusal.\<close>

lemma svc_reserve_outcome:
  fixes cost :: "int option" and p :: quota_policy
  defines "k \<equiv> (case cost of None \<Rightarrow> qp_default_cost p | Some c \<Rightarrow> c)"
  assumes inv: "inv s" and uuid: "uuid \<notin> e_id ` set (abs s)" and now: "0 \<le> ensure_utc clock"
    and p: "resolve_policy ps resource policy = Inr p"
    and w: "resolve_fixed_window (ensure_utc clock) (qp_window_seconds p) = Inr w"
    and c: "ReserveQuota_create uuid subject (qp_resource p) (win_key w) (qp_limit p) k (win_reset_at w) ik = Inr c"
  shows "if led_find_idem c (abs s) = None \<and> qp_limit p < charged (abs s) (subject, qp_resource p, win_key w) + k
     then \<exists>e n s'. svc_reserve api ps clock uuid subject resource cost policy ik s = (Inl (AppError e), s')
        \<and> ae_status e = 429 \<and> ae_headers e = Some [(''Retry-After'', int_str n)]
        \<and> 1 \<le> n \<and> n \<le> qp_window_seconds p \<and> win_reset_at w \<le> ensure_utc clock + n * us_per_s
        \<and> inv s' \<and> abs s' = abs s
     else \<exists>r s'. svc_reserve api ps clock uuid subject resource cost policy ik s = (Inr r, s') \<and> inv s'
        \<and> entry_of r = (case led_find_idem c (abs s) of Some x \<Rightarrow> x | None \<Rightarrow> new_entry c)
        \<and> abs s' = abs s @ (case led_find_idem c (abs s) of Some x \<Rightarrow> [] | None \<Rightarrow> [new_entry c])"
proof -
  have cc: "fresh_cmd c (abs s)" "cmd_key c = (subject, qp_resource p, win_key w)" "c_limit c = qp_limit p"
    "c_cost c = k" "0 < k"
    using c uuid
    by (auto simp: ReserveQuota_create_def ReserveQuota_check_def fresh_cmd_def cmd_key_def split: if_splits)
  obtain ra s' where ra: "api_reserve api c s = (ra, s')" by (cases "api_reserve api c s")
  from reserve_law [OF inv cc(1) ra] obtain x where x: "ra = Inr x" "inv s'" "abs s' = snd (led_reserve c (abs s))"
    "map_option entry_of x = fst (led_reserve c (abs s))" by auto
  let ?e = "quota_exceeded subject p k (win_reset_at w) (ensure_utc clock)"
  have svc: "svc_reserve api ps clock uuid subject resource cost policy ik s =
      (case x of None \<Rightarrow> (Inl ?e, s') | Some r \<Rightarrow> (Inr r, s'))"
    using cc(5) by (simp add: svc_reserve_def p w c ra x(1) Let_def flip: k_def split: option.split)
  have after: "1 \<le> retry_after_secs (win_reset_at w) (ensure_utc clock)"
      "retry_after_secs (win_reset_at w) (ensure_utc clock) \<le> qp_window_seconds p"
      "win_reset_at w \<le> ensure_utc clock + retry_after_secs (win_reset_at w) (ensure_utc clock) * us_per_s"
    using resolve_fixed_window_bounds [OF now w] retry_after_secs_bounds by auto
  show ?thesis
  proof (cases "led_find_idem c (abs s) = None \<and> qp_limit p < charged (abs s) (subject, qp_resource p, win_key w) + k")
    case True
    with x cc have "x = None" "abs s' = abs s" by (auto simp: led_reserve_def)
    with True svc after x(2) show ?thesis
      by (auto simp: quota_exceeded_def RateLimitError_def mk_app_error_def)
  next
    case False
    with x cc show ?thesis unfolding if_not_P [OF False] svc
      by (auto simp: led_reserve_def split: option.splits)
  qed
qed

end

section \<open>Guarantees of the component\<close>

lemma led_step_charge:
  assumes "led_step x L = (a, L')" "distinct (map e_id L)" "led_wf L"
    and "\<And>c. x = OpReserve c \<Longrightarrow> cmd_key c = k \<Longrightarrow> c_limit c \<le> cap" and "charged L k \<le> cap" "0 \<le> cap"
  shows "charged L' k \<le> cap"
proof (cases x)
  case (OpReserve c)
  with assms show ?thesis
    by (cases "cmd_key c = k")
      (auto simp: led_reserve_def charged_Cons new_entry_def split: option.splits if_splits)
next
  case (OpFinalize i)
  show ?thesis
  proof (cases "led_lookup i L")
    case (Some e)
    with OpFinalize assms charged_set_status [OF assms(2) Some, of FINALIZED k] show ?thesis
      by (auto simp: led_finalize_def split: if_splits)
  qed (use OpFinalize assms in \<open>auto simp: led_finalize_def\<close>)
next
  case (OpRefund i)
  show ?thesis
  proof (cases "led_lookup i L")
    case (Some e)
    have "0 < e_cost e" using assms(3) led_lookup_Some [OF Some] by (simp add: led_wf_def)
    with OpRefund assms Some charged_set_status [OF assms(2) Some, of REFUNDED k] show ?thesis
      by (auto simp: led_refund_def split: if_splits)
  qed (use OpRefund assms in \<open>auto simp: led_refund_def\<close>)
next
  case (OpResetUsage q)
  with assms charged_filter_key [of "\<lambda>k. fst k \<noteq> q_subject_id q \<or> fst (snd k) \<noteq> q_resource q" L k]
  show ?thesis by (auto simp: led_reset_usage_def split: if_splits)
next
  case (OpResetResource res)
  with assms charged_filter_key [of "\<lambda>k. fst (snd k) \<noteq> res" L k]
  show ?thesis by (auto simp: led_reset_resource_def split: if_splits)
qed (use assms in auto)

context quota_store
begin

lemma run_bound:
  "\<lbrakk>inv s; ops_ok xs; set (op_ids xs) \<inter> e_id ` set (abs s) = {};
    \<And>c. OpReserve c \<in> set xs \<Longrightarrow> cmd_key c = k \<Longrightarrow> c_limit c \<le> cap; charged (abs s) k \<le> cap; 0 \<le> cap\<rbrakk>
     \<Longrightarrow> charged (abs (snd (run_ops (quota_step api) xs s))) k \<le> cap"
proof (induction xs arbitrary: s)
  case (Cons x xs)
  obtain a s1 where st: "quota_step api x s = (a, s1)" by (cases "quota_step api x s")
  have "op_fresh x s"
    using Cons.prems(2,3) by (cases x) (auto simp: op_fresh_def fresh_cmd_def ops_ok_def)
  from step_refines [OF Cons.prems(1) this st]
  have s1: "inv s1" "led_step x (abs s) = (a, abs s1)" by auto
  have wf: "led_wf (abs s)" "distinct (map e_id (abs s))"
    using inv_wf [OF Cons.prems(1)] by (auto simp: led_wf_def)
  have "charged (abs s1) k \<le> cap"
    using Cons.prems by (intro led_step_charge [OF s1(2) wf(2,1)]) auto
  moreover have "set (op_ids xs) \<inter> e_id ` set (abs s1) = {}"
    using led_step_ids [OF s1(2)] ops_ok_Cons [OF Cons.prems(2)] Cons.prems(3)
      op_ids_append [of "[x]" xs] by auto
  ultimately show ?case
    using Cons.IH [OF s1(1)] ops_ok_Cons [OF Cons.prems(2)] Cons.prems(4,6) st
    by (simp add: case_prod_beta' Let_def)
qed simp

lemma run_usage_bound:
  assumes inv: "inv s" "abs s = []" and ok: "ops_ok xs"
    and lim: "\<And>c. OpReserve c \<in> set xs \<Longrightarrow> cmd_key c = (q_subject_id q, q_resource q, q_window_key q) \<Longrightarrow> c_limit c \<le> cap"
    and cap: "0 \<le> cap"
  shows "\<exists>u. fst (api_get_usage api q (snd (run_ops (quota_step api) xs s))) = Inr u \<and> 0 \<le> u_used u \<and> u_used u \<le> cap"
proof -
  obtain as s1 where run: "run_ops (quota_step api) xs s = (as, s1)" by (cases "run_ops (quota_step api) xs s")
  have "inv s1" using run_refines [OF inv(1) ok _ run] inv(2) by simp
  moreover have "charged (abs s1) (q_subject_id q, q_resource q, q_window_key q) \<le> cap"
    using run_bound [OF inv(1) ok _ lim _ cap] inv(2) cap run by simp
  moreover obtain r s2 where "api_get_usage api q s1 = (r, s2)" by (cases "api_get_usage api q s1")
  ultimately show ?thesis using get_usage_law charged_nonneg [OF inv_wf] run by fastforce
qed

end

text \<open>What the first settlement of a reservation reports: the charge of its window afterwards.\<close>

lemma mem_settle_used:
  assumes inv: "mem_inv s" and look: "led_lookup i (mem_abs s) = Some e" and st: "e_status e = RESERVED"
  shows "mem_refund i s = (ru, s') \<Longrightarrow> \<exists>u. ru = Inr u \<and> u_used u = charged (mem_abs s') (e_key e)"
    and "mem_finalize i s = (ru, s') \<Longrightarrow> \<exists>u. ru = Inr u \<and> u_used u = charged (mem_abs s') (e_key e)"
proof -
  obtain x where x: "dict_get (mq_reservations s) i = Some x" "e = entry_of x"
    using look inv by (auto simp: mem_abs_lookup)
  then have f: "r_status x = RESERVED" "e_key e = res_key x" using st by (auto simp: entry_of_def res_key_def)
  obtain ct where ct: "dict_get (mq_counters s) (res_key x) = Some ct"
    using mem_inv_reservation(2) [OF inv x(1)] by blast
  have op: "ensure_open s = Inr ()" using mem_invD(1) [OF inv] by (simp add: ensure_open_def)
  have used: "ct_used c = charged (mem_abs t) (res_key x)"
    if "mem_inv t" "dict_get (mq_counters t) (res_key x) = Some c" for t c
    using mem_inv_counter_used [OF that(1), of "res_key x"] that(2) by (simp add: counter_used_def)
  show "\<exists>u. ru = Inr u \<and> u_used u = charged (mem_abs s') (e_key e)" if r: "mem_refund i s = (ru, s')"
  proof -
    let ?ct = "ct\<lparr>ct_used := max (ct_used ct - r_cost x) 0\<rparr>"
    have "ru = Inr (usage_from_counter ?ct)" "dict_get (mq_counters s') (res_key x) = Some ?ct"
      using r op x(1) f(1) ct
      by (auto simp: mem_refund_def require_reservation_def counter_for_reservation_def Let_def store_reservation_def)
    with used [of s' ?ct] mem_refund_refines [OF inv r] f(2) show ?thesis by (simp add: usage_from_counter_def)
  qed
  show "\<exists>u. ru = Inr u \<and> u_used u = charged (mem_abs s') (e_key e)" if r: "mem_finalize i s = (ru, s')"
  proof -
    have "ru = Inr (usage_from_counter ct)" "dict_get (mq_counters s') (res_key x) = Some ct"
      using r op x(1) f(1) ct
      by (auto simp: mem_finalize_def require_reservation_def usage_for_reservation_def
          counter_for_reservation_def store_reservation_def)
    with used [of s' ct] mem_finalize_refines [OF inv r] f(2) show ?thesis by (simp add: usage_from_counter_def)
  qed
qed

lemma sql_one_Inr: "sql_one rows = Inr r \<Longrightarrow> rows = [r]"
  by (cases rows rule: sql_one.cases) auto

lemma filter_singletonD: "filter P xs = [x] \<Longrightarrow> x \<in> set xs \<and> P x"
proof -
  assume "filter P xs = [x]"
  then have "x \<in> set (filter P xs)" by simp
  then show ?thesis by simp
qed

lemma pg_usage_charged:
  assumes inv: "pg_inv s" and u: "pg_usage_for_reservation row s = Inr u"
  shows "u_used u = charged (pg_abs s) (pr_key row)"
proof -
  obtain ct where "sql_one (filter (\<lambda>c. pc_key c = pr_key row) (pq_counters s)) = Inr ct" "u = usage_from_row ct"
    using u by (auto simp: pg_usage_for_reservation_def split: sum.splits)
  moreover from filter_singletonD [OF sql_one_Inr [OF this(1)]]
  have "ct \<in> set (pq_counters s)" "pc_key ct = pr_key row" by auto
  ultimately show ?thesis using inv by (simp add: pg_inv_def counters_ok_def usage_from_row_def)
qed

lemma pg_settle_used:
  assumes inv: "pg_inv s" and look: "led_lookup i (pg_abs s) = Some e" and st: "e_status e = RESERVED"
  shows "pg_refund i s = (ru, s') \<Longrightarrow> \<exists>u. ru = Inr u \<and> u_used u = charged (pg_abs s') (e_key e)"
    and "pg_finalize i s = (ru, s') \<Longrightarrow> \<exists>u. ru = Inr u \<and> u_used u = charged (pg_abs s') (e_key e)"
proof -
  obtain row where row: "find (\<lambda>r. pr_id r = i) (pq_reservations s) = Some row" "e = row_entry row"
    using look by (auto simp: pg_lookup)
  then have f: "pr_status row = RESERVED" "e_key e = pr_key row" using st by (auto simp: row_entry_def)
  show "\<exists>u. ru = Inr u \<and> u_used u = charged (pg_abs s') (e_key e)" if r: "pg_refund i s = (ru, s')"
  proof -
    note ref = pg_refund_refines [OF inv r]
    have ok: "fst (led_refund i (pg_abs s)) = None" using look st by (simp add: led_refund_def)
    then obtain u where u: "ru = Inr u" using ref by (cases ru) auto
    let ?row = "row\<lparr>pr_status := REFUNDED\<rparr>" and ?s1 = "set_row_status i REFUNDED s"
    let ?f = "\<lambda>ct. ct\<lparr>pc_used := (if pc_used ct \<ge> pr_cost ?row then pc_used ct - pr_cost ?row else 0)\<rparr>"
    let ?K = "\<lambda>ct. pc_key ct = pr_key ?row"
    have "map_sum id usage_from_row (sql_one (map ?f (filter ?K (pq_counters ?s1)))) = Inr u"
      and s': "pq_counters s' = map (\<lambda>ct. if ?K ct then ?f ct else ct) (pq_counters ?s1)"
      using r u by (auto simp: pg_refund_def transaction_def pg_refund_tx_def claim_reserved_eq [OF inv] row(1) f(1)
          sql_update_def split: sum.splits)
    then obtain c where c: "map ?f (filter ?K (pq_counters ?s1)) = [c]" "u = usage_from_row c"
      using sql_one_Inr [of "map ?f (filter ?K (pq_counters ?s1))"]
      by (cases "sql_one (map ?f (filter ?K (pq_counters ?s1)))") auto
    then obtain ct where "filter ?K (pq_counters ?s1) = [ct]" "c = ?f ct" by auto
    moreover from this(1) have ct: "ct \<in> set (pq_counters ?s1)" "?K ct"
      using filter_singletonD [of ?K] by blast+
    ultimately have "c \<in> set (pq_counters s')" using image_eqI [of c "\<lambda>ct. if ?K ct then ?f ct else ct" ct] s' by simp
    moreover have "pc_key c = pr_key row" using ct(2) \<open>c = ?f ct\<close> by (simp add: pc_key_def pr_key_def)
    ultimately show ?thesis using ref u f(2) c(2) by (auto simp: pg_inv_def counters_ok_def usage_from_row_def)
  qed
  show "\<exists>u. ru = Inr u \<and> u_used u = charged (pg_abs s') (e_key e)" if r: "pg_finalize i s = (ru, s')"
  proof -
    note ref = pg_finalize_refines [OF inv r]
    have ok: "fst (led_finalize i (pg_abs s)) = None" using look st by (simp add: led_finalize_def)
    then obtain u where u: "ru = Inr u" using ref by (cases ru) auto
    with r have "pg_usage_for_reservation (row\<lparr>pr_status := FINALIZED\<rparr>) s' = Inr u"
      by (auto simp: pg_finalize_def transaction_def pg_finalize_tx_def claim_reserved_eq [OF inv] row(1) f(1)
          split: sum.splits prod.splits)
    from pg_usage_charged [OF _ this] ref f(2) u show ?thesis by (simp add: pr_key_def)
  qed
qed

text \<open>A run that the witnesses below use: two charges of one window, a retry, a refund.\<close>

definition demo_cmd :: "string \<Rightarrow> int \<Rightarrow> string option \<Rightarrow> reserve_quota" where
  "demo_cmd i cost ik = \<lparr>c_subject_id = ''u'', c_resource = ''chat'', c_window_key = ''7'', c_limit = 5,
     c_cost = cost, c_reset_at = 480000000, c_reservation_id = i, c_idempotency_key = ik\<rparr>"

definition demo_query :: usage_query where
  "demo_query = \<lparr>q_subject_id = ''u'', q_resource = ''chat'', q_window_key = ''7'', q_limit = 5,
     q_reset_at = 480000000\<rparr>"

definition demo_ops :: "quota_op list" where
  "demo_ops = [OpReserve (demo_cmd ''r1'' 3 (Some ''k'')), OpReserve (demo_cmd ''r2'' 3 (Some ''k'')),
     OpReserve (demo_cmd ''r3'' 3 None), OpUsage demo_query, OpRefund ''r1'', OpFinalize ''r1'',
     OpReserve (demo_cmd ''r4'' 5 None), OpUsage demo_query, OpResetResource ''chat'', OpUsage demo_query]"

lemma demo_ops_ok: "ops_ok demo_ops"
  by (auto simp: ops_ok_def demo_ops_def demo_cmd_def ReserveQuota_check_def)

text \<open>The states that the stores reach by checked commands with new reservation ids.\<close>

definition mem_after :: "quota_op list \<Rightarrow> mem_quota" where
  "mem_after xs = snd (run_ops (quota_step mem_api) xs MemoryQuotaStore)"

definition pg_after :: "quota_op list \<Rightarrow> pg_quota" where
  "pg_after xs = snd (run_ops (quota_step pg_api) xs PostgresQuotaStore)"

lemma after_inv:
  assumes "ops_ok xs"
  shows "mem_inv (mem_after xs)" and "pg_inv (pg_after xs)"
    and "pg_abs (pg_after xs) = mem_abs (mem_after xs)"
proof -
  have "mem_abs MemoryQuotaStore = []" "pg_abs PostgresQuotaStore = []"
    by (simp_all add: mem_abs_def MemoryQuotaStore_def pg_abs_def PostgresQuotaStore_def)
  with mem_store.run_refines [OF MemoryQuotaStore_inv assms, of "fst (run_ops (quota_step mem_api) xs MemoryQuotaStore)" "mem_after xs"]
    pg_store.run_refines [OF PostgresQuotaStore_inv assms, of "fst (run_ops (quota_step pg_api) xs PostgresQuotaStore)" "pg_after xs"]
  show "mem_inv (mem_after xs)" "pg_inv (pg_after xs)" "pg_abs (pg_after xs) = mem_abs (mem_after xs)"
    by (auto simp: mem_after_def pg_after_def)
qed

definition demo_prefix :: "quota_op list" where
  "demo_prefix = [OpReserve (demo_cmd ''r1'' 3 (Some ''k''))]"

text \<open>
  C6. The memory store and the Postgres store are interchangeable: whatever sequence of reserve,
  finalize, refund, usage and reset calls is made of two new stores (commands checked, reservation
  ids from \<open>uuid4\<close> distinct), both decide every call as the ledger specification does. Compared are,
  for a reserve, the refusal or the reservation (id, window, cost, status, idempotency key); for a
  settlement and a reset, success or the very error; for a usage query, the amount used. Moreover the
  first finalize or refund of a reservation reports the same amount used in both stores. Not
  compared, because the stores differ there (\<open>usage_snapshots_differ\<close>), are the usage in the
  answer to a repeated settlement and the limit, remainder and reset time of usages.
\<close>

theorem quota_stores_agree:
  assumes "ops_ok xs"
  shows "fst (run_ops (quota_step mem_api) xs MemoryQuotaStore) = fst (run_ops led_step xs [])
     \<and> fst (run_ops (quota_step pg_api) xs PostgresQuotaStore) = fst (run_ops led_step xs [])
     \<and> (\<forall>i e. led_lookup i (snd (run_ops led_step xs [])) = Some e \<and> e_status e = RESERVED \<longrightarrow>
          (\<exists>u v. fst (mem_refund i (mem_after xs)) = Inr u \<and> fst (pg_refund i (pg_after xs)) = Inr v
             \<and> u_used u = charged (snd (run_ops led_step xs [])) (e_key e) - e_cost e \<and> u_used v = u_used u)
        \<and> (\<exists>u v. fst (mem_finalize i (mem_after xs)) = Inr u \<and> fst (pg_finalize i (pg_after xs)) = Inr v
             \<and> u_used u = charged (snd (run_ops led_step xs [])) (e_key e) \<and> u_used v = u_used u))"
proof -
  let ?L = "snd (run_ops led_step xs [])"
  have "mem_abs MemoryQuotaStore = []" "pg_abs PostgresQuotaStore = []"
    by (simp_all add: mem_abs_def MemoryQuotaStore_def pg_abs_def PostgresQuotaStore_def)
  then have led: "run_ops led_step xs [] = (fst (run_ops (quota_step mem_api) xs MemoryQuotaStore), mem_abs (mem_after xs))"
    and led': "run_ops led_step xs [] = (fst (run_ops (quota_step pg_api) xs PostgresQuotaStore), pg_abs (pg_after xs))"
    using mem_store.run_refines [OF MemoryQuotaStore_inv assms, of "fst (run_ops (quota_step mem_api) xs MemoryQuotaStore)" "mem_after xs"]
      pg_store.run_refines [OF PostgresQuotaStore_inv assms, of "fst (run_ops (quota_step pg_api) xs PostgresQuotaStore)" "pg_after xs"]
    by (simp_all add: mem_after_def pg_after_def)
  have L: "mem_abs (mem_after xs) = ?L" "pg_abs (pg_after xs) = ?L" using led led' by (metis snd_conv)+
  note inv = after_inv(1,2) [OF assms]
  have "(\<exists>u v. fst (mem_refund i (mem_after xs)) = Inr u \<and> fst (pg_refund i (pg_after xs)) = Inr v
             \<and> u_used u = charged ?L (e_key e) - e_cost e \<and> u_used v = u_used u)
        \<and> (\<exists>u v. fst (mem_finalize i (mem_after xs)) = Inr u \<and> fst (pg_finalize i (pg_after xs)) = Inr v
             \<and> u_used u = charged ?L (e_key e) \<and> u_used v = u_used u)"
    if e: "led_lookup i ?L = Some e \<and> e_status e = RESERVED" for i e
  proof -
    note lk = e [THEN conjunct1] e [THEN conjunct2]
    have dist: "distinct (map e_id ?L)" using mem_invD(6) [OF inv(1)] by (simp add: led_wf_def L)
    have ch: "charged (snd (led_refund i ?L)) (e_key e) = charged ?L (e_key e) - e_cost e"
      "charged (snd (led_finalize i ?L)) (e_key e) = charged ?L (e_key e)"
      using charged_set_status [OF dist lk(1), of _ "e_key e"] lk by (simp_all add: led_refund_def led_finalize_def)
    note m = mem_settle_used [OF inv(1) lk [folded L(1)], OF surjective_pairing]
      and q = pg_settle_used [OF inv(2) lk [folded L(2)], OF surjective_pairing]
    note mr = mem_refund_refines [OF inv(1) surjective_pairing, of i] mem_finalize_refines [OF inv(1) surjective_pairing, of i]
      and qr = pg_refund_refines [OF inv(2) surjective_pairing, of i] pg_finalize_refines [OF inv(2) surjective_pairing, of i]
    have "\<exists>u. fst (mem_refund i (mem_after xs)) = Inr u \<and> u_used u = charged ?L (e_key e) - e_cost e"
      "\<exists>u. fst (mem_finalize i (mem_after xs)) = Inr u \<and> u_used u = charged ?L (e_key e)"
      "\<exists>u. fst (pg_refund i (pg_after xs)) = Inr u \<and> u_used u = charged ?L (e_key e) - e_cost e"
      "\<exists>u. fst (pg_finalize i (pg_after xs)) = Inr u \<and> u_used u = charged ?L (e_key e)"
      using m q mr qr ch L by simp_all
    then show ?thesis by auto
  qed
  moreover note arg_cong [OF led, of fst, unfolded fst_conv, symmetric] arg_cong [OF led', of fst, unfolded fst_conv, symmetric]
  ultimately show ?thesis by blast
qed

theorem quota_stores_agree_witness:
  "ops_ok demo_ops \<and>
   fst (run_ops (quota_step mem_api) demo_ops MemoryQuotaStore) =
     [ObsEntry (Some (new_entry (demo_cmd ''r1'' 3 (Some ''k'')))),
      ObsEntry (Some (new_entry (demo_cmd ''r1'' 3 (Some ''k'')))), ObsEntry None, ObsUsed 3, ObsDone,
      ObsError (ValueError ''refunded reservation cannot be finalized''),
      ObsEntry (Some (new_entry (demo_cmd ''r4'' 5 None))), ObsUsed 5, ObsDone, ObsUsed 0]
   \<and> (\<exists>u v. fst (mem_refund ''r1'' (mem_after demo_prefix)) = Inr u \<and> fst (pg_refund ''r1'' (pg_after demo_prefix)) = Inr v
        \<and> u_used u = 0 \<and> u_used v = 0)"
proof -
  have led: "fst (run_ops led_step demo_ops []) =
     [ObsEntry (Some (new_entry (demo_cmd ''r1'' 3 (Some ''k'')))),
      ObsEntry (Some (new_entry (demo_cmd ''r1'' 3 (Some ''k'')))), ObsEntry None, ObsUsed 3, ObsDone,
      ObsError (ValueError ''refunded reservation cannot be finalized''),
      ObsEntry (Some (new_entry (demo_cmd ''r4'' 5 None))), ObsUsed 5, ObsDone, ObsUsed 0]"
    by code_simp
  let ?e = "new_entry (demo_cmd ''r1'' 3 (Some ''k''))"
  have ok: "ops_ok demo_prefix"
    by (auto simp: ops_ok_def demo_prefix_def demo_cmd_def ReserveQuota_check_def)
  have one: "snd (run_ops led_step demo_prefix []) = [?e]" by code_simp
  have "led_lookup ''r1'' (snd (run_ops led_step demo_prefix [])) = Some ?e \<and> e_status ?e = RESERVED"
    unfolding one by code_simp
  moreover have "charged (snd (run_ops led_step demo_prefix [])) (e_key ?e) - e_cost ?e = 0"
    unfolding one by code_simp
  ultimately have "\<exists>u v. fst (mem_refund ''r1'' (mem_after demo_prefix)) = Inr u \<and> fst (pg_refund ''r1'' (pg_after demo_prefix)) = Inr v
        \<and> u_used u = 0 \<and> u_used v = 0"
    using quota_stores_agree [OF ok] by metis
  with quota_stores_agree [OF demo_ops_ok] demo_ops_ok led show ?thesis by simp
qed

text \<open>
  Where the stores differ: a second refund is answered from the snapshot of the first one in memory,
  from the current counter in Postgres; and a usage query with a new limit is answered with that limit
  in memory, with the stored one in Postgres.
\<close>

definition settled_ops :: "quota_op list" where
  "settled_ops = [OpReserve (demo_cmd ''r1'' 3 None), OpReserve (demo_cmd ''r2'' 2 None), OpRefund ''r1'', OpRefund ''r2'']"

lemma usage_snapshots_differ:
  "map_sum id u_used (fst (mem_refund ''r1'' (mem_after settled_ops))) = Inr 2"
  "map_sum id u_used (fst (pg_refund ''r1'' (pg_after settled_ops))) = Inr 0"
  "map_sum id u_limit (fst (mem_get_usage (demo_query\<lparr>q_limit := 9\<rparr>) (mem_after settled_ops))) = Inr 9"
  "map_sum id u_limit (fst (pg_get_usage (demo_query\<lparr>q_limit := 9\<rparr>) (pg_after settled_ops))) = Inr 5"
  by code_simp+

text \<open>
  C7. A quota is never exceeded: after any sequence of calls in which every reserve command for a
  subject, resource and window carries a limit of at most \<open>cap\<close>, both stores report a usage of that
  window between 0 and \<open>cap\<close>.
\<close>

theorem quota_never_exceeded:
  assumes "ops_ok xs" "0 \<le> cap"
    and "\<And>c. OpReserve c \<in> set xs \<Longrightarrow> cmd_key c = (q_subject_id q, q_resource q, q_window_key q) \<Longrightarrow> c_limit c \<le> cap"
  shows "(\<exists>u. fst (mem_get_usage q (snd (run_ops (quota_step mem_api) xs MemoryQuotaStore))) = Inr u
            \<and> 0 \<le> u_used u \<and> u_used u \<le> cap)
       \<and> (\<exists>u. fst (pg_get_usage q (snd (run_ops (quota_step pg_api) xs PostgresQuotaStore))) = Inr u
            \<and> 0 \<le> u_used u \<and> u_used u \<le> cap)"
proof (intro conjI)
  have empty: "mem_abs MemoryQuotaStore = []" "pg_abs PostgresQuotaStore = []"
    by (simp_all add: mem_abs_def MemoryQuotaStore_def pg_abs_def PostgresQuotaStore_def)
  show "\<exists>u. fst (mem_get_usage q (snd (run_ops (quota_step mem_api) xs MemoryQuotaStore))) = Inr u
           \<and> 0 \<le> u_used u \<and> u_used u \<le> cap"
    using mem_store.run_usage_bound [OF MemoryQuotaStore_inv empty(1) assms(1,3,2)] by (simp add: mem_api_def)
  show "\<exists>u. fst (pg_get_usage q (snd (run_ops (quota_step pg_api) xs PostgresQuotaStore))) = Inr u
           \<and> 0 \<le> u_used u \<and> u_used u \<le> cap"
    using pg_store.run_usage_bound [OF PostgresQuotaStore_inv empty(2) assms(1,3,2)] by (simp add: pg_api_def)
qed

theorem quota_never_exceeded_witness:
  "ops_ok demo_ops \<and> (\<exists>u. fst (mem_get_usage demo_query (snd (run_ops (quota_step mem_api) demo_ops MemoryQuotaStore))) = Inr u
     \<and> 0 \<le> u_used u \<and> u_used u \<le> 5)"
proof -
  have "c_limit c \<le> 5" if "OpReserve c \<in> set demo_ops" for c
    using that by (auto simp: demo_ops_def demo_cmd_def)
  then show ?thesis using quota_never_exceeded [OF demo_ops_ok, of 5 demo_query] demo_ops_ok by simp
qed

text \<open>
  A refund returns the cost exactly once: refunding a reserved reservation takes its cost off the
  window's charge, refunding it again succeeds and changes nothing, and it can no longer be
  finalized. (Postgres store, in every state that it reaches.)
\<close>

theorem refund_exactly_once:
  assumes "ops_ok xs" and "led_lookup i (pg_abs (pg_after xs)) = Some e" and "e_status e = RESERVED"
    and "pg_refund i (pg_after xs) = (r, s1)" and "pg_refund i s1 = (r', s2)"
  shows "(\<exists>u. r = Inr u) \<and> (\<exists>u. r' = Inr u) \<and> pg_abs s2 = pg_abs s1
     \<and> charged (pg_abs s2) (e_key e) = charged (pg_abs (pg_after xs)) (e_key e) - e_cost e
     \<and> fst (pg_finalize i s2) = Inl (ValueError ''refunded reservation cannot be finalized'')"
  by (rule pg_store.refund_once [OF after_inv(2) [OF assms(1)], unfolded pg_api_sel, OF assms(2-5)])

theorem refund_exactly_once_witness:
  "charged (pg_abs (snd (pg_refund ''r1'' (snd (pg_refund ''r1'' (pg_after demo_prefix)))))) (''u'', ''chat'', ''7'') = 0"
proof -
  have ok: "ops_ok demo_prefix"
    by (auto simp: ops_ok_def demo_prefix_def demo_cmd_def ReserveQuota_check_def)
  have abs: "pg_abs (pg_after demo_prefix) = [new_entry (demo_cmd ''r1'' 3 (Some ''k''))]" by code_simp
  then have look: "led_lookup ''r1'' (pg_abs (pg_after demo_prefix)) = Some (new_entry (demo_cmd ''r1'' 3 (Some ''k'')))"
    by (simp add: led_lookup_def new_entry_def demo_cmd_def)
  show ?thesis
    using refund_exactly_once [OF ok look _ surjective_pairing surjective_pairing]
    by (simp only: abs) (auto simp: new_entry_def demo_cmd_def cmd_key_def charged_Cons)
qed

text \<open>
  A retry charges once: after a reserve call with an idempotency key succeeded, another one for
  the same subject, resource, window and key, whatever cost and limit it carries, returns that
  reservation and leaves the ledger, so every charge, as it was. (Memory store.)
\<close>

theorem idempotent_retry_charges_once:
  assumes "ops_ok xs" and "fresh_cmd c (mem_abs (mem_after xs))" and "fresh_cmd c' (mem_abs s1)"
    and "cmd_key c' = cmd_key c" "c_idempotency_key c' = c_idempotency_key c" "c_idempotency_key c = Some ik"
    and "mem_reserve c (mem_after xs) = (Inr (Some r), s1)" and "mem_reserve c' s1 = (r', s2)"
  shows "mem_abs s2 = mem_abs s1 \<and> (\<exists>x. r' = Inr (Some x) \<and> entry_of x = entry_of r)"
  by (rule mem_store.idempotent_retry [OF after_inv(1) [OF assms(1)], unfolded mem_api_sel, OF assms(2-8)])

theorem idempotent_retry_charges_once_witness:
  "mem_abs (snd (mem_reserve (demo_cmd ''r2'' 4 (Some ''k'')) (snd (mem_reserve (demo_cmd ''r1'' 3 (Some ''k'')) (mem_after [])))))
   = [new_entry (demo_cmd ''r1'' 3 (Some ''k''))]"
proof -
  let ?c = "demo_cmd ''r1'' 3 (Some ''k'')" and ?c' = "demo_cmd ''r2'' 4 (Some ''k'')"
  obtain r s1 where r: "mem_reserve ?c (mem_after []) = (Inr (Some r), s1)"
    and abs: "mem_abs s1 = [new_entry ?c]"
  proof -
    have "(case fst (mem_reserve ?c (mem_after [])) of Inr (Some r) \<Rightarrow> True | _ \<Rightarrow> False)
        \<and> mem_abs (snd (mem_reserve ?c (mem_after []))) = [new_entry ?c]" by code_simp
    then show ?thesis
      using that [of _ "snd (mem_reserve ?c (mem_after []))"]
      by (cases "mem_reserve ?c (mem_after [])") (auto split: sum.splits option.splits)
  qed
  have "fresh_cmd ?c (mem_abs (mem_after []))"
    by (simp add: fresh_cmd_def ReserveQuota_check_def demo_cmd_def mem_after_def mem_abs_def MemoryQuotaStore_def)
  moreover have "fresh_cmd ?c' (mem_abs s1)"
    by (simp add: abs fresh_cmd_def ReserveQuota_check_def demo_cmd_def new_entry_def)
  moreover have "ops_ok []" by (simp add: ops_ok_def)
  ultimately have "mem_abs (snd (mem_reserve ?c' s1)) = mem_abs s1"
    using idempotent_retry_charges_once [OF _ _ _ _ _ _ r surjective_pairing, of ?c' "''k''"]
    by (simp add: demo_cmd_def cmd_key_def)
  with r abs show ?thesis by simp
qed

text \<open>
  C8. When a quota refuses, in both stores, after any history and at any time from 1970 on: take a
  request whose policy, window and checks are in order (\<open>c\<close> is the command the service builds). It is
  refused exactly when its idempotency key replays no earlier reservation and the charge of the
  current window plus the cost exceeds the policy's limit; the refusal is a 429 with a \<open>Retry-After\<close>
  of at least one second and at most the policy's window, after which the window has reset, and
  nothing is charged. Otherwise the request is granted: a replayed key returns the earlier
  reservation and charges nothing, any other request adds exactly its own reservation.
\<close>

theorem reserve_refused_iff_over_limit:
  fixes cost :: "int option" and p :: quota_policy
  defines "k \<equiv> (case cost of None \<Rightarrow> qp_default_cost p | Some c \<Rightarrow> c)"
  assumes "ops_ok xs" and "uuid \<notin> e_id ` set (mem_abs (mem_after xs))" and "0 \<le> ensure_utc clock"
    and "resolve_policy ps resource policy = Inr p"
    and "resolve_fixed_window (ensure_utc clock) (qp_window_seconds p) = Inr w"
    and "ReserveQuota_create uuid subject (qp_resource p) (win_key w) (qp_limit p) k (win_reset_at w) ik = Inr c"
  shows "if led_find_idem c (mem_abs (mem_after xs)) = None
       \<and> qp_limit p < charged (mem_abs (mem_after xs)) (subject, qp_resource p, win_key w) + k
     then (\<exists>e n s'. svc_reserve mem_api ps clock uuid subject resource cost policy ik (mem_after xs) = (Inl (AppError e), s')
        \<and> ae_status e = 429 \<and> ae_headers e = Some [(''Retry-After'', int_str n)]
        \<and> 1 \<le> n \<and> n \<le> qp_window_seconds p \<and> win_reset_at w \<le> ensure_utc clock + n * us_per_s
        \<and> mem_inv s' \<and> mem_abs s' = mem_abs (mem_after xs))
       \<and> (\<exists>e n s'. svc_reserve pg_api ps clock uuid subject resource cost policy ik (pg_after xs) = (Inl (AppError e), s')
        \<and> ae_status e = 429 \<and> ae_headers e = Some [(''Retry-After'', int_str n)]
        \<and> 1 \<le> n \<and> n \<le> qp_window_seconds p \<and> win_reset_at w \<le> ensure_utc clock + n * us_per_s
        \<and> pg_inv s' \<and> pg_abs s' = mem_abs (mem_after xs))
     else (\<exists>r s'. svc_reserve mem_api ps clock uuid subject resource cost policy ik (mem_after xs) = (Inr r, s') \<and> mem_inv s'
        \<and> entry_of r = (case led_find_idem c (mem_abs (mem_after xs)) of Some x \<Rightarrow> x | None \<Rightarrow> new_entry c)
        \<and> mem_abs s' = mem_abs (mem_after xs)
            @ (case led_find_idem c (mem_abs (mem_after xs)) of Some x \<Rightarrow> [] | None \<Rightarrow> [new_entry c]))
       \<and> (\<exists>r s'. svc_reserve pg_api ps clock uuid subject resource cost policy ik (pg_after xs) = (Inr r, s') \<and> pg_inv s'
        \<and> entry_of r = (case led_find_idem c (mem_abs (mem_after xs)) of Some x \<Rightarrow> x | None \<Rightarrow> new_entry c)
        \<and> pg_abs s' = mem_abs (mem_after xs)
            @ (case led_find_idem c (mem_abs (mem_after xs)) of Some x \<Rightarrow> [] | None \<Rightarrow> [new_entry c]))"
proof -
  note st = after_inv [OF assms(2)]
  note req = assms(4-6) assms(7) [unfolded k_def]
  have pg: "uuid \<notin> e_id ` set (pg_abs (pg_after xs))" using assms(3) st(3) by simp
  note M = mem_store.svc_reserve_outcome [OF st(1) assms(3) req]
  note P = pg_store.svc_reserve_outcome [OF st(2) pg req, unfolded st(3)]
  show ?thesis
    by (cases "led_find_idem c (mem_abs (mem_after xs)) = None
       \<and> qp_limit p < charged (mem_abs (mem_after xs)) (subject, qp_resource p, win_key w) + k")
      (use M P in \<open>simp_all only: if_True if_False simp_thms k_def\<close>)
qed

definition demo_policy :: quota_policy where
  "demo_policy = \<lparr>qp_resource = ''chat'', qp_limit = 5, qp_window_seconds = 60, qp_default_cost = 1\<rparr>"

theorem reserve_refused_iff_over_limit_witness:
  "\<exists>e s'. svc_reserve pg_api [(''chat'', demo_policy)] (Naive 450500000) ''r9'' ''u'' ''chat'' (Some 3) None None
      (pg_after demo_prefix) = (Inl (AppError e), s')
    \<and> ae_status e = 429 \<and> pg_abs s' = mem_abs (mem_after demo_prefix)"
proof -
  let ?w = "\<lparr>win_key = ''7'', win_reset_at = 480000000\<rparr> :: quota_window"
  let ?c = "\<lparr>c_subject_id = ''u'', c_resource = ''chat'', c_window_key = ''7'', c_limit = 5, c_cost = 3,
     c_reset_at = 480000000, c_reservation_id = ''r9'', c_idempotency_key = None\<rparr> :: reserve_quota"
  have ok: "ops_ok demo_prefix"
    by (auto simp: ops_ok_def demo_prefix_def demo_cmd_def ReserveQuota_check_def)
  have abs: "mem_abs (mem_after demo_prefix) = [new_entry (demo_cmd ''r1'' 3 (Some ''k''))]" by code_simp
  have w: "resolve_fixed_window (ensure_utc (Naive 450500000)) (qp_window_seconds demo_policy) = Inr ?w" by code_simp
  have p: "resolve_policy [(''chat'', demo_policy)] ''chat'' None = Inr demo_policy"
    by (simp add: resolve_policy_def get_policy_def)
  have c: "ReserveQuota_create ''r9'' ''u'' (qp_resource demo_policy) (win_key ?w) (qp_limit demo_policy)
      (case Some 3 of None \<Rightarrow> qp_default_cost demo_policy | Some c \<Rightarrow> c) (win_reset_at ?w) None = Inr ?c"
    by (simp add: ReserveQuota_create_def ReserveQuota_check_def demo_policy_def)
  have over: "led_find_idem ?c (mem_abs (mem_after demo_prefix)) = None
     \<and> qp_limit demo_policy < charged (mem_abs (mem_after demo_prefix)) (''u'', qp_resource demo_policy, win_key ?w)
         + (case Some 3 of None \<Rightarrow> qp_default_cost demo_policy | Some c \<Rightarrow> c)"
    by (simp add: abs led_find_idem_def charged_def new_entry_def demo_cmd_def cmd_key_def demo_policy_def)
  have "''r9'' \<notin> e_id ` set (mem_abs (mem_after demo_prefix))" "0 \<le> ensure_utc (Naive 450500000)"
    by (simp_all add: abs new_entry_def demo_cmd_def)
  from reserve_refused_iff_over_limit [OF ok this p w c, unfolded if_P [OF over]] show ?thesis by blast
qed

end
