(* ===== verification/Quota_Mongo.thy ===== *)
theory Quota_Mongo
  imports Quota_Memory Interleaving
begin

text \<open>
  The Mongo quota store (\<open>src/app/modules/platform/quota/adapters/mongo.py\<close>).

  There is no transaction: a call is a coroutine of single commands, and the calls of all processes interleave between them.
  The commands of a collection are an argument (a filter is a predicate, an update a function); the locale
  \<open>mongo_collection\<close> states what their documentation promises, over the multiset of documents. The clock reading of
  \<open>_migrate_active_counters\<close> is an argument of each call.
\<close>

section \<open>Collections\<close>

text \<open>
  \<open>co_insert_one\<close> and \<open>co_update_many\<close> answer whether the unique indexes allowed it (\<open>DuplicateKeyError\<close> otherwise);
  \<open>co_find_one_and_update\<close> answers the document before and after; \<open>co_upsert_one\<close> is \<open>update_one\<close> with \<open>upsert=True\<close>, with
  the document it inserts when none matches.
\<close>

record ('s, 'd) collection =
  co_find :: "('d \<Rightarrow> bool) \<Rightarrow> 's \<Rightarrow> 'd list"
  co_find_one :: "('d \<Rightarrow> bool) \<Rightarrow> 's \<Rightarrow> 'd option"
  co_insert_one :: "'d \<Rightarrow> 's \<Rightarrow> bool \<times> 's"
  co_update_one :: "('d \<Rightarrow> bool) \<Rightarrow> ('d \<Rightarrow> 'd) \<Rightarrow> 's \<Rightarrow> 's"
  co_upsert_one :: "('d \<Rightarrow> bool) \<Rightarrow> ('d \<Rightarrow> 'd) \<Rightarrow> 'd \<Rightarrow> 's \<Rightarrow> 's"
  co_update_many :: "('d \<Rightarrow> bool) \<Rightarrow> ('d \<Rightarrow> 'd) \<Rightarrow> 's \<Rightarrow> bool \<times> 's"
  co_find_one_and_update :: "('d \<Rightarrow> bool) \<Rightarrow> ('d \<Rightarrow> 'd) \<Rightarrow> 's \<Rightarrow> ('d \<times> 'd) option \<times> 's"
  co_find_one_and_delete :: "('d \<Rightarrow> bool) \<Rightarrow> 's \<Rightarrow> 'd option \<times> 's"
  co_delete_one :: "('d \<Rightarrow> bool) \<Rightarrow> 's \<Rightarrow> 's"
  co_delete_many :: "('d \<Rightarrow> bool) \<Rightarrow> 's \<Rightarrow> 's"

definition DuplicateKeyError :: exn where
  "DuplicateKeyError = Foreign (plain_view ''DuplicateKeyError'' [''WriteError'', ''OperationFailure'', ''PyMongoError'', ''Exception''])"

section \<open>Documents\<close>

record res_doc =
  d_id :: string
  d_subject_id :: string
  d_resource :: string
  d_window_key :: string
  d_cost :: int
  d_status :: reservation_status
  d_idempotency_key :: "string option"
  d_reset_at :: datetime

definition ct_key :: "counter \<Rightarrow> quota_key" where
  "ct_key ct = (ct_subject_id ct, ct_resource ct, ct_window_key ct)"

definition d_key :: "res_doc \<Rightarrow> quota_key" where
  "d_key d = (d_subject_id d, d_resource d, d_window_key d)"

text \<open>The unique indexes that \<open>ensure_indexes\<close> creates: which documents exclude each other.\<close>

definition counter_dup :: "counter \<Rightarrow> counter \<Rightarrow> bool" where
  "counter_dup x y \<longleftrightarrow> ct_key x = ct_key y"

definition reservation_dup :: "res_doc \<Rightarrow> res_doc \<Rightarrow> bool" where
  "reservation_dup x y \<longleftrightarrow> d_id x = d_id y \<or>
     (d_idempotency_key x \<noteq> None \<and> d_key x = d_key y \<and> d_idempotency_key x = d_idempotency_key y)"

type_synonym ('c, 'r) mongo_quota = "('c, counter) collection \<times> ('r, res_doc) collection"

definition on_counters :: "('c \<Rightarrow> 'a \<times> 'c) \<Rightarrow> 'c \<times> 'r \<Rightarrow> 'a \<times> 'c \<times> 'r" where
  "on_counters cmd s = (case cmd (fst s) of (x, c) \<Rightarrow> (x, c, snd s))"

definition on_reservations :: "('r \<Rightarrow> 'a \<times> 'r) \<Rightarrow> 'c \<times> 'r \<Rightarrow> 'a \<times> 'c \<times> 'r" where
  "on_reservations cmd s = (case cmd (snd s) of (x, r) \<Rightarrow> (x, fst s, r))"

text \<open>A command without an answer.\<close>

definition silent :: "('s \<Rightarrow> 's) \<Rightarrow> 's \<Rightarrow> unit \<times> 's" where
  "silent cmd s = ((), cmd s)"

text \<open>A command that only reads.\<close>

definition reading :: "('s \<Rightarrow> 'a) \<Rightarrow> 's \<Rightarrow> 'a \<times> 's" where
  "reading cmd s = (cmd s, s)"

definition mg_usage_from_counter :: "counter \<Rightarrow> quota_usage" where
  "mg_usage_from_counter ct = (let limit = ct_limit ct; used = ct_used ct in
     \<lparr>u_subject_id = ct_subject_id ct, u_resource = ct_resource ct, u_window_key = ct_window_key ct,
      u_used = used, u_limit = limit, u_remaining = max (limit - used) 0, u_reset_at = ct_reset_at ct\<rparr>)"

definition mg_usage_from_query :: "usage_query \<Rightarrow> quota_usage" where
  "mg_usage_from_query q =
     \<lparr>u_subject_id = q_subject_id q, u_resource = q_resource q, u_window_key = q_window_key q,
      u_used = 0, u_limit = q_limit q, u_remaining = q_limit q, u_reset_at = q_reset_at q\<rparr>"

definition reservation_from_doc :: "res_doc \<Rightarrow> quota_usage \<Rightarrow> quota_reservation" where
  "reservation_from_doc d u =
     \<lparr>r_id = d_id d, r_subject_id = d_subject_id d, r_resource = d_resource d, r_window_key = d_window_key d,
      r_cost = d_cost d, r_status = d_status d, r_usage = u, r_idempotency_key = d_idempotency_key d\<rparr>"

text \<open>What \<open>_migrate_active_counters\<close> reads of a command or a query.\<close>

definition query_of :: "reserve_quota \<Rightarrow> usage_query" where
  "query_of c = \<lparr>q_subject_id = c_subject_id c, q_resource = c_resource c, q_window_key = c_window_key c,
     q_limit = c_limit c, q_reset_at = c_reset_at c\<rparr>"

definition q_key :: "usage_query \<Rightarrow> quota_key" where
  "q_key q = (q_subject_id q, q_resource q, q_window_key q)"

definition set_limit :: "int \<Rightarrow> datetime \<Rightarrow> counter \<Rightarrow> counter" where
  "set_limit limit reset_at ct = ct\<lparr>ct_limit := limit, ct_reset_at := reset_at\<rparr>"

definition counter_doc :: "quota_key \<Rightarrow> int \<Rightarrow> int \<Rightarrow> datetime \<Rightarrow> counter" where
  "counter_doc k used limit reset_at =
     \<lparr>ct_subject_id = fst k, ct_resource = fst (snd k), ct_window_key = snd (snd k), ct_used = used, ct_limit = limit, ct_reset_at = reset_at\<rparr>"

section \<open>Operations\<close>

definition mg_usage_for_reservation :: "('c, 'r) mongo_quota \<Rightarrow> res_doc \<Rightarrow> ('c \<times> 'r, exn + quota_usage) prog" where
  "mg_usage_for_reservation m d =
     await (on_counters (reading (co_find_one (fst m) (\<lambda>ct. ct_key ct = d_key d)))) (\<lambda>counter.
       case counter of None \<Rightarrow> Done (Inl (KeyError (d_id d))) | Some ct \<Rightarrow> Done (Inr (mg_usage_from_counter ct)))"

definition to_reservation :: "('c, 'r) mongo_quota \<Rightarrow> res_doc \<Rightarrow> ('c \<times> 'r, exn + quota_reservation) prog" where
  "to_reservation m d = call (mg_usage_for_reservation m d) (\<lambda>u. Done (Inr (reservation_from_doc d u)))"

definition mg_require_reservation :: "('c, 'r) mongo_quota \<Rightarrow> string \<Rightarrow> ('c \<times> 'r, exn + res_doc) prog" where
  "mg_require_reservation m i =
     await (on_reservations (reading (co_find_one (snd m) (\<lambda>d. d_id d = i)))) (\<lambda>d.
       case d of None \<Rightarrow> Done (Inl (KeyError i)) | Some d \<Rightarrow> Done (Inr d))"

definition claim_reserved :: "('c, 'r) mongo_quota \<Rightarrow> string \<Rightarrow> reservation_status \<Rightarrow> (res_doc option \<Rightarrow> ('c \<times> 'r, 'b) prog) \<Rightarrow> ('c \<times> 'r, 'b) prog" where
  "claim_reserved m i new_status f =
     await (on_reservations (co_find_one_and_update (snd m) (\<lambda>d. d_id d = i \<and> d_status d = RESERVED) (\<lambda>d. d\<lparr>d_status := new_status\<rparr>)))
       (\<lambda>r. f (map_option fst r))"

definition find_idempotent_reservation :: "('c, 'r) mongo_quota \<Rightarrow> reserve_quota \<Rightarrow> (res_doc option \<Rightarrow> ('c \<times> 'r, 'b) prog) \<Rightarrow> ('c \<times> 'r, 'b) prog" where
  "find_idempotent_reservation m c f = (case c_idempotency_key c of
      None \<Rightarrow> f None
    | Some ik \<Rightarrow> await (on_reservations (reading (co_find_one (snd m)
        (\<lambda>d. d_key d = cmd_key c \<and> d_idempotency_key d = Some ik)))) f)"

fun migrate_stale :: "('c, 'r) mongo_quota \<Rightarrow> usage_query \<Rightarrow> counter list \<Rightarrow> ('c \<times> 'r, exn + unit) prog" where
  "migrate_stale m q [] = Done (Inr ())"
| "migrate_stale m q (counter # stale) =
     (let stale_key = (q_subject_id q, q_resource q, ct_window_key counter) in
      await (on_counters (co_find_one_and_delete (fst m) (\<lambda>ct. ct_key ct = stale_key))) (\<lambda>claimed. case claimed of
          None \<Rightarrow> migrate_stale m q stale
        | Some cl \<Rightarrow>
            await (on_counters (silent (co_upsert_one (fst m) (\<lambda>ct. ct_key ct = q_key q)
                (\<lambda>ct. set_limit (q_limit q) (q_reset_at q) (ct\<lparr>ct_used := ct_used ct + ct_used cl\<rparr>))
                (counter_doc (q_key q) (ct_used cl) (q_limit q) (q_reset_at q))))) (\<lambda>_.
            await (on_reservations (co_update_many (snd m) (\<lambda>d. d_key d = stale_key)
                (\<lambda>d. d\<lparr>d_window_key := q_window_key q, d_reset_at := q_reset_at q\<rparr>))) (\<lambda>ok.
            if ok then migrate_stale m q stale else Done (Inl DuplicateKeyError)))))"

definition migrate_active_counters :: "('c, 'r) mongo_quota \<Rightarrow> datetime \<Rightarrow> usage_query \<Rightarrow> ('c \<times> 'r, exn + unit) prog" where
  "migrate_active_counters m now q =
     await (on_counters (reading (co_find (fst m) (\<lambda>ct. ct_subject_id ct = q_subject_id q \<and> ct_resource ct = q_resource q)))) (\<lambda>cursor.
       let has_target = (\<exists>ct \<in> set cursor. ct_window_key ct = q_window_key q);
           stale = filter (\<lambda>ct. ct_window_key ct \<noteq> q_window_key q \<and> ct_reset_at ct > now) cursor in
       if stale = [] then
         (if has_target then
            await (on_counters (silent (co_update_one (fst m) (\<lambda>ct. ct_key ct = q_key q) (set_limit (q_limit q) (q_reset_at q)))))
              (\<lambda>_. Done (Inr ()))
          else Done (Inr ()))
       else migrate_stale m q stale)"

definition reservation_doc :: "reserve_quota \<Rightarrow> res_doc" where
  "reservation_doc c = \<lparr>d_id = c_reservation_id c, d_subject_id = c_subject_id c, d_resource = c_resource c, d_window_key = c_window_key c,
     d_cost = c_cost c, d_status = RESERVED, d_idempotency_key = c_idempotency_key c, d_reset_at = c_reset_at c\<rparr>"

text \<open>From the claim of the counter on: charge, or release the reservation that was claimed.\<close>

definition mg_charge :: "('c, 'r) mongo_quota \<Rightarrow> reserve_quota \<Rightarrow> ('c \<times> 'r, exn + quota_reservation option) prog" where
  "mg_charge m c =
     await (on_counters (co_find_one_and_update (fst m) (\<lambda>ct. ct_key ct = cmd_key c \<and> ct_used ct + c_cost c \<le> c_limit c)
         (\<lambda>ct. set_limit (c_limit c) (c_reset_at c) (ct\<lparr>ct_used := ct_used ct + c_cost c\<rparr>)))) (\<lambda>counter. case counter of
       None \<Rightarrow> await (on_reservations (silent (co_delete_one (snd m) (\<lambda>d. d_id d = c_reservation_id c)))) (\<lambda>_. Done (Inr None))
     | Some (_, ct) \<Rightarrow> Done (Inr (Some (reservation_from_doc (reservation_doc c) (mg_usage_from_counter ct)))))"

definition mg_reserve :: "('c, 'r) mongo_quota \<Rightarrow> datetime \<Rightarrow> reserve_quota \<Rightarrow> ('c \<times> 'r, exn + quota_reservation option) prog" where
  "mg_reserve m now c =
     call (migrate_active_counters m now (query_of c)) (\<lambda>_.
     find_idempotent_reservation m c (\<lambda>existing. case existing of
       Some d \<Rightarrow> call (to_reservation m d) (\<lambda>r. Done (Inr (Some r)))
     | None \<Rightarrow>
         await (on_counters (silent (co_upsert_one (fst m) (\<lambda>ct. ct_key ct = cmd_key c) (set_limit (c_limit c) (c_reset_at c))
             (counter_doc (cmd_key c) 0 (c_limit c) (c_reset_at c))))) (\<lambda>_.
         await (on_reservations (co_insert_one (snd m) (reservation_doc c))) (\<lambda>inserted.
         if inserted then mg_charge m c
         else find_idempotent_reservation m c (\<lambda>existing. case existing of
             None \<Rightarrow> Done (Inl DuplicateKeyError)
           | Some d \<Rightarrow> call (to_reservation m d) (\<lambda>r. Done (Inr (Some r))))))))"

definition mg_finalize :: "('c, 'r) mongo_quota \<Rightarrow> string \<Rightarrow> ('c \<times> 'r, exn + quota_usage) prog" where
  "mg_finalize m i = claim_reserved m i FINALIZED (\<lambda>claimed. case claimed of
      Some d \<Rightarrow> mg_usage_for_reservation m d
    | None \<Rightarrow> call (mg_require_reservation m i) (\<lambda>d.
        if d_status d = REFUNDED then Done (Inl (ValueError ''refunded reservation cannot be finalized''))
        else mg_usage_for_reservation m d))"

definition mg_refund :: "('c, 'r) mongo_quota \<Rightarrow> string \<Rightarrow> ('c \<times> 'r, exn + quota_usage) prog" where
  "mg_refund m i = claim_reserved m i REFUNDED (\<lambda>claimed. case claimed of
      None \<Rightarrow> call (mg_require_reservation m i) (\<lambda>d.
        if d_status d = FINALIZED then Done (Inl (ValueError ''finalized reservation cannot be refunded''))
        else mg_usage_for_reservation m d)
    | Some d \<Rightarrow> await (on_counters (co_find_one_and_update (fst m) (\<lambda>ct. ct_key ct = d_key d)
          (\<lambda>ct. ct\<lparr>ct_used := ct_used ct + - d_cost d\<rparr>))) (\<lambda>counter. case counter of
        None \<Rightarrow> Done (Inl (KeyError i))
      | Some (_, ct) \<Rightarrow> Done (Inr (mg_usage_from_counter ct))))"

definition mg_get_usage :: "('c, 'r) mongo_quota \<Rightarrow> datetime \<Rightarrow> usage_query \<Rightarrow> ('c \<times> 'r, exn + quota_usage) prog" where
  "mg_get_usage m now q =
     call (migrate_active_counters m now q) (\<lambda>_.
     await (on_counters (co_find_one_and_update (fst m) (\<lambda>ct. ct_key ct = q_key q) (set_limit (q_limit q) (q_reset_at q)))) (\<lambda>counter.
     case counter of
       None \<Rightarrow> Done (Inr \<lparr>u_subject_id = q_subject_id q, u_resource = q_resource q, u_window_key = q_window_key q,
          u_used = 0, u_limit = q_limit q, u_remaining = q_limit q, u_reset_at = q_reset_at q\<rparr>)
     | Some (_, ct) \<Rightarrow> Done (Inr (mg_usage_from_counter ct))))"

definition mg_reset_usage :: "('c, 'r) mongo_quota \<Rightarrow> usage_query \<Rightarrow> ('c \<times> 'r, exn + quota_usage) prog" where
  "mg_reset_usage m q =
     await (on_reservations (silent (co_delete_many (snd m) (\<lambda>d. d_subject_id d = q_subject_id q \<and> d_resource d = q_resource q)))) (\<lambda>_.
     await (on_counters (silent (co_delete_many (fst m) (\<lambda>ct. ct_subject_id ct = q_subject_id q \<and> ct_resource ct = q_resource q)))) (\<lambda>_.
     Done (Inr (mg_usage_from_query q))))"

definition mg_reset_resource :: "('c, 'r) mongo_quota \<Rightarrow> string \<Rightarrow> ('c \<times> 'r, exn + unit) prog" where
  "mg_reset_resource m resource =
     await (on_reservations (silent (co_delete_many (snd m) (\<lambda>d. d_resource d = resource)))) (\<lambda>_.
     await (on_counters (silent (co_delete_many (fst m) (\<lambda>ct. ct_resource ct = resource)))) (\<lambda>_. Done (Inr ())))"

section \<open>What a collection promises\<close>

text \<open>An update that leaves the indexed fields of a document alone.\<close>

definition keeps_index :: "('d \<Rightarrow> 'd \<Rightarrow> bool) \<Rightarrow> ('d \<Rightarrow> 'd) \<Rightarrow> bool" where
  "keeps_index dup f \<longleftrightarrow> (\<forall>d x. dup (f d) x = dup d x \<and> dup x (f d) = dup x d)"

text \<open>\<open>docs\<close>: the documents of a collection. \<open>dup\<close>: its unique indexes.\<close>

locale mongo_collection =
  fixes co :: "('s, 'd) collection" and docs :: "'s \<Rightarrow> 'd multiset" and dup :: "'d \<Rightarrow> 'd \<Rightarrow> bool"
  assumes find_law: "mset (co_find co P s) = filter_mset P (docs s)"
    and find_one_law: "(case co_find_one co P s of None \<Rightarrow> \<forall>d \<in># docs s. \<not> P d | Some d \<Rightarrow> d \<in># docs s \<and> P d)"
    and insert_one_law: "co_insert_one co d s = (ok, s') \<Longrightarrow>
        ok = (\<forall>x \<in># docs s. \<not> dup d x) \<and> docs s' = (if ok then add_mset d (docs s) else docs s)"
    and update_one_law: "keeps_index dup f \<Longrightarrow> co_update_one co P f s = s' \<Longrightarrow>
        (\<forall>d \<in># docs s. \<not> P d) \<and> docs s' = docs s \<or> (\<exists>d M. P d \<and> docs s = add_mset d M \<and> docs s' = add_mset (f d) M)"
    and upsert_one_law: "keeps_index dup f \<Longrightarrow> co_upsert_one co P f x s = s' \<Longrightarrow>
        (\<forall>d \<in># docs s. \<not> P d) \<and> docs s' = add_mset x (docs s) \<or> (\<exists>d M. P d \<and> docs s = add_mset d M \<and> docs s' = add_mset (f d) M)"
    and find_one_and_update_law: "keeps_index dup f \<Longrightarrow> co_find_one_and_update co P f s = (r, s') \<Longrightarrow>
        (case r of None \<Rightarrow> (\<forall>d \<in># docs s. \<not> P d) \<and> docs s' = docs s
         | Some (d, d') \<Rightarrow> P d \<and> d' = f d \<and> (\<exists>M. docs s = add_mset d M \<and> docs s' = add_mset d' M))"
    and delete_one_law: "co_delete_one co P s = s' \<Longrightarrow>
        (\<forall>d \<in># docs s. \<not> P d) \<and> docs s' = docs s \<or> (\<exists>d. P d \<and> docs s = add_mset d (docs s'))"

section \<open>The account under interleaving\<close>

text \<open>
  Tokens of a call: \<open>Home k\<close>, a counter of window \<open>k\<close> exists; \<open>Charging c\<close>, the reservation of command \<open>c\<close> is stored but not
  charged yet; \<open>Owing d\<close>, reservation \<open>d\<close> is refunded but not taken off its counter yet.
\<close>

datatype token = is_Home: Home quota_key | Charging reserve_quota | Owing res_doc

definition owed :: "res_doc multiset \<Rightarrow> quota_key \<Rightarrow> int" where
  "owed R k = (\<Sum>d\<in>#R. if d_key d = k \<and> d_status d \<noteq> REFUNDED then d_cost d else 0)"

fun debt :: "quota_key \<Rightarrow> token \<Rightarrow> int" where
  "debt k (Home _) = 0"
| "debt k (Charging c) = (if cmd_key c = k then - c_cost c else 0)"
| "debt k (Owing d) = (if d_key d = k then d_cost d else 0)"

fun charging_id :: "token \<Rightarrow> string option" where
  "charging_id (Charging c) = Some (c_reservation_id c)"
| "charging_id _ = None"

definition homed :: "counter multiset \<Rightarrow> quota_key \<Rightarrow> bool" where
  "homed C k \<longleftrightarrow> (\<exists>ct \<in># C. ct_key ct = k)"

fun token_ok :: "string set \<Rightarrow> counter multiset \<Rightarrow> res_doc multiset \<Rightarrow> token \<Rightarrow> bool" where
  "token_ok N C R (Home k) \<longleftrightarrow> homed C k"
| "token_ok N C R (Charging c) \<longleftrightarrow> c_reservation_id c \<in> N \<and>
     (\<exists>d \<in># R. d_id d = c_reservation_id c \<and> d_key d = cmd_key c \<and> d_cost d = c_cost c \<and> d_status d \<noteq> REFUNDED)"
| "token_ok N C R (Owing d) \<longleftrightarrow> homed C (d_key d) \<and> 0 < d_cost d"

text \<open>
  The invariant of the two collections, for the ids \<open>N\<close> of the calls of \<open>reserve\<close> that are running, the window \<open>W\<close> of each
  subject and resource, a time \<open>T0\<close> before all clock readings and a bound \<open>M\<close> on all limits in use.
\<close>

record scope =
  sc_new :: "string set"
  sc_window :: "string \<Rightarrow> string \<Rightarrow> string"
  sc_since :: datetime
  sc_bound :: "quota_key \<Rightarrow> int"

definition unique_by :: "('a \<Rightarrow> 'b option) \<Rightarrow> 'a multiset \<Rightarrow> bool" where
  "unique_by f A \<longleftrightarrow> (\<forall>x. count (image_mset f A) (Some x) \<le> 1)"

definition idem_of :: "res_doc \<Rightarrow> (quota_key \<times> string) option" where
  "idem_of d = map_option (\<lambda>ik. (d_key d, ik)) (d_idempotency_key d)"

definition counters_ok :: "scope \<Rightarrow> counter multiset \<Rightarrow> bool" where
  "counters_ok sc C \<longleftrightarrow> unique_by (\<lambda>ct. Some (ct_key ct)) C \<and>
     (\<forall>ct \<in># C. (ct_window_key ct = sc_window sc (ct_subject_id ct) (ct_resource ct) \<or> ct_reset_at ct \<le> sc_since sc)
       \<and> ct_used ct \<le> sc_bound sc (ct_key ct))"

definition reservations_ok :: "counter multiset \<Rightarrow> res_doc multiset \<Rightarrow> bool" where
  "reservations_ok C R \<longleftrightarrow> unique_by (\<lambda>d. Some (d_id d)) R \<and> unique_by idem_of R \<and>
     (\<forall>d \<in># R. homed C (d_key d) \<and> 0 < d_cost d)"

definition tokens_ok :: "scope \<Rightarrow> counter multiset \<Rightarrow> res_doc multiset \<Rightarrow> token multiset \<Rightarrow> bool" where
  "tokens_ok sc C R G \<longleftrightarrow> (\<forall>t \<in># G. token_ok (sc_new sc) C R t) \<and>
     unique_by charging_id G"

definition settled_by :: "counter multiset \<Rightarrow> res_doc multiset \<Rightarrow> token multiset \<Rightarrow> bool" where
  "settled_by C R G \<longleftrightarrow> (\<forall>ct \<in># C. ct_used ct = owed R (ct_key ct) + (\<Sum>t\<in>#G. debt (ct_key ct) t))"

definition account :: "scope \<Rightarrow> counter multiset \<Rightarrow> res_doc multiset \<Rightarrow> token multiset \<Rightarrow> bool" where
  "account sc C R G \<longleftrightarrow> counters_ok sc C \<and> reservations_ok C R \<and> tokens_ok sc C R G \<and> settled_by C R G"

lemma owed_add [simp]: "owed (add_mset d R) k = (if d_key d = k \<and> d_status d \<noteq> REFUNDED then d_cost d else 0) + owed R k"
  by (simp add: owed_def)

lemma owed_none: "(\<And>d. d \<in># R \<Longrightarrow> d_key d \<noteq> k) \<Longrightarrow> owed R k = 0"
  by (induction R) (auto simp: owed_def)

lemma debt_none: "(\<And>t. t \<in># G \<Longrightarrow> debt k t = 0) \<Longrightarrow> (\<Sum>t\<in>#G. debt k t) = 0"
  by (induction G) auto

lemma homed_add [simp]: "homed (add_mset ct C) k \<longleftrightarrow> ct_key ct = k \<or> homed C k"
  by (auto simp: homed_def)

lemma unique_by_add [simp]:
  "unique_by f (add_mset a A) \<longleftrightarrow> unique_by f A \<and> (\<forall>x. f a = Some x \<longrightarrow> (\<forall>d \<in># A. f d \<noteq> Some x))"
proof -
  have zero: "count (image_mset f A) (Some x) = 0 \<longleftrightarrow> (\<forall>d \<in># A. f d \<noteq> Some x)" for x by (force simp: count_eq_zero_iff)
  have "count (image_mset f (add_mset a A)) (Some x) \<le> 1 \<longleftrightarrow>
      count (image_mset f A) (Some x) \<le> 1 \<and> (f a = Some x \<longrightarrow> (\<forall>d \<in># A. f d \<noteq> Some x))" for x
    unfolding zero [symmetric] by (cases "f a = Some x") auto
  then show ?thesis unfolding unique_by_def by blast
qed

lemmas account_defs = account_def counters_ok_def reservations_ok_def tokens_ok_def settled_by_def

lemma homed_same: "ct_key ct' = ct_key ct \<Longrightarrow> homed (add_mset ct' C) = homed (add_mset ct C)"
  by (simp add: fun_eq_iff)

lemma token_ok_homed: "homed C' = homed C \<Longrightarrow> token_ok N C' R t = token_ok N C R t"
  by (cases t) simp_all

lemma homed_mono: "homed C k \<Longrightarrow> homed (add_mset ct C) k"
  by simp

text \<open>A counter changes: by what the debts of its window change.\<close>

lemma account_counter:
  assumes "account sc (add_mset ct C) R G" "ct_key ct' = ct_key ct"
    and "ct_window_key ct' = sc_window sc (ct_subject_id ct') (ct_resource ct') \<or> ct_reset_at ct' \<le> sc_since sc" "ct_used ct' \<le> sc_bound sc (ct_key ct)"
    and "tokens_ok sc (add_mset ct C) R G'" "\<And>k. (\<Sum>t\<in>#G'. debt k t) = (\<Sum>t\<in>#G. debt k t) + (if k = ct_key ct then ct_used ct' - ct_used ct else 0)"
  shows "account sc (add_mset ct' C) R G'"
  using assms unfolding account_defs homed_same [OF assms(2)] token_ok_homed [OF homed_same [OF assms(2)]] by auto

lemma account_home: "account sc C R G \<Longrightarrow> homed C k \<Longrightarrow> account sc C R (add_mset (Home k) G)"
  by (simp add: account_def tokens_ok_def settled_by_def)

lemma account_forget: "account sc C R (add_mset (Home k) G) \<Longrightarrow> account sc C R G"
  by (simp add: account_def tokens_ok_def settled_by_def)

lemma account_new_counter:
  assumes "account sc C R G" "\<not> homed C k" "snd (snd k) = sc_window sc (fst k) (fst (snd k))" "0 \<le> sc_bound sc k"
  shows "account sc (add_mset (counter_doc k 0 l r) C) R G"
proof -
  let ?ct = "counter_doc k 0 l r"
  have key: "ct_key ?ct = k" "ct_used ?ct = 0" by (simp_all add: ct_key_def counter_doc_def)
  have win: "ct_window_key ?ct = sc_window sc (ct_subject_id ?ct) (ct_resource ?ct)" using assms(3) by (simp add: counter_doc_def)
  have R: "d_key d \<noteq> k" if "d \<in># R" for d using assms(1,2) that by (auto simp: account_defs)
  have "debt k t = 0" if "t \<in># G" for t
  proof -
    have "token_ok (sc_new sc) C R t" using assms(1) that by (simp add: account_defs)
    then show ?thesis using assms(2) R by (cases t) auto
  qed
  then have "(\<Sum>t\<in>#G. debt k t) = 0" "owed R k = 0" using debt_none owed_none R by blast+
  moreover have "token_ok (sc_new sc) (add_mset (counter_doc k 0 l r) C) R t" if "t \<in># G" for t
  proof -
    have "token_ok (sc_new sc) C R t" using assms(1) that by (simp add: account_defs)
    then show ?thesis by (cases t) auto
  qed
  moreover have "\<forall>ct \<in># C. ct_key ct \<noteq> k" using assms(2) by (auto simp: homed_def)
  ultimately show ?thesis using assms(1,4) key win by (auto simp: account_def counters_ok_def reservations_ok_def tokens_ok_def settled_by_def)
qed

lemma token_ok_add: "token_ok N C R t \<Longrightarrow> token_ok N C (add_mset d R) t"
  by (cases t) auto

lemma account_insert:
  assumes "account sc C R G" "homed C (cmd_key c)" "\<forall>x \<in># R. \<not> reservation_dup (reservation_doc c) x" "0 < c_cost c" "c_reservation_id c \<in> sc_new sc"
  shows "account sc C (add_mset (reservation_doc c) R) (add_mset (Charging c) G)"
proof -
  have d: "d_id (reservation_doc c) = c_reservation_id c" "d_key (reservation_doc c) = cmd_key c" "d_cost (reservation_doc c) = c_cost c"
    "d_status (reservation_doc c) = RESERVED"
    by (simp_all add: reservation_doc_def d_key_def cmd_key_def)
  have new: "d_id x \<noteq> c_reservation_id c" "idem_of (reservation_doc c) = Some y \<Longrightarrow> idem_of x \<noteq> Some y" if "x \<in># R" for x y
    using assms(3) that by (auto simp: reservation_dup_def d idem_of_def)
  have "charging_id t \<noteq> Some (c_reservation_id c)" if "t \<in># G" for t
  proof -
    have "token_ok (sc_new sc) C R t" using assms(1) that by (simp add: account_defs)
    then show ?thesis using new by (cases t) auto
  qed
  with assms new d show ?thesis by (auto simp: account_defs token_ok_add)
qed

lemma account_charge:
  assumes "account sc (add_mset ct C) R (add_mset (Charging c) G)" "ct_key ct = cmd_key c"
    "ct_used ct + c_cost c \<le> c_limit c" "c_limit c \<le> sc_bound sc (cmd_key c)" "c_window_key c = sc_window sc (c_subject_id c) (c_resource c)"
  shows "account sc (add_mset (set_limit (c_limit c) (c_reset_at c) (ct\<lparr>ct_used := ct_used ct + c_cost c\<rparr>)) C) R G"
  using assms by (intro account_counter [OF assms(1)]) (auto simp: set_limit_def ct_key_def cmd_key_def account_defs)

lemma account_touch:
  assumes "account sc (add_mset ct C) R G" "ct_window_key ct = sc_window sc (ct_subject_id ct) (ct_resource ct)"
  shows "account sc (add_mset (set_limit l r ct) C) R G"
proof (rule account_counter [OF assms(1)])
  show "tokens_ok sc (add_mset ct C) R G" "ct_used (set_limit l r ct) \<le> sc_bound sc (ct_key ct)"
    using assms(1) by (auto simp: account_def counters_ok_def set_limit_def)
qed (use assms(2) in \<open>simp_all add: set_limit_def ct_key_def\<close>)

lemma account_release:
  assumes "account sc C (add_mset d R) (add_mset (Charging c) G)" "d_id d = c_reservation_id c"
  shows "account sc C R G"
proof -
  have uniq: "\<forall>x \<in># R. d_id x \<noteq> d_id d" and none: "\<forall>t \<in># G. charging_id t \<noteq> Some (c_reservation_id c)"
    using assms(1) by (auto simp: account_def reservations_ok_def tokens_ok_def)
  have "d_key d = cmd_key c" "d_cost d = c_cost c" "d_status d \<noteq> REFUNDED"
    using assms uniq by (auto simp: account_def tokens_ok_def)
  then have "owed (add_mset d R) k + (\<Sum>t\<in>#add_mset (Charging c) G. debt k t) = owed R k + (\<Sum>t\<in>#G. debt k t)" for k by auto
  moreover have "token_ok (sc_new sc) C R t" if "t \<in># G" for t
  proof -
    have "token_ok (sc_new sc) C (add_mset d R) t" using assms(1) that by (simp add: account_def tokens_ok_def)
    with none that assms(2) show ?thesis by (cases t) auto
  qed
  ultimately show ?thesis using assms(1) by (simp add: account_def reservations_ok_def tokens_ok_def settled_by_def del: owed_add)
qed

text \<open>A reservation changes its status.\<close>

lemma account_status:
  assumes "account sc C (add_mset d R) G" "d_status d = RESERVED" "st = REFUNDED \<Longrightarrow> d_id d \<notin> sc_new sc"
  shows "account sc C (add_mset (d\<lparr>d_status := st\<rparr>) R) (if st = REFUNDED then add_mset (Owing d) G else G)"
proof -
  let ?G = "if st = REFUNDED then add_mset (Owing d) G else G"
  have key: "d_key (d\<lparr>d_status := st\<rparr>) = d_key d" "idem_of (d\<lparr>d_status := st\<rparr>) = idem_of d" by (simp_all add: d_key_def idem_of_def)
  have "owed (add_mset (d\<lparr>d_status := st\<rparr>) R) k + (\<Sum>t\<in>#?G. debt k t) = owed (add_mset d R) k + (\<Sum>t\<in>#G. debt k t)" for k
    using assms(2) by (simp add: key)
  moreover have "token_ok (sc_new sc) C (add_mset (d\<lparr>d_status := st\<rparr>) R) t" if "t \<in># G" for t
  proof -
    have "token_ok (sc_new sc) C (add_mset d R) t" using assms(1) that by (simp add: account_def tokens_ok_def)
    with assms(3) show ?thesis by (cases t) (auto simp: key)
  qed
  ultimately show ?thesis using assms(1) by (auto simp: account_def reservations_ok_def tokens_ok_def settled_by_def key simp del: owed_add)
qed

lemma account_decrement:
  assumes "account sc (add_mset ct C) R (add_mset (Owing d) G)" "ct_key ct = d_key d"
  shows "account sc (add_mset (ct\<lparr>ct_used := ct_used ct + - d_cost d\<rparr>) C) R G"
  using assms by (intro account_counter [OF assms(1)]) (auto simp: ct_key_def account_defs)

section \<open>Calls keep the account\<close>

definition mongo_inv :: "('c \<Rightarrow> counter multiset) \<Rightarrow> ('r \<Rightarrow> res_doc multiset) \<Rightarrow> scope \<Rightarrow> 'c \<times> 'r \<Rightarrow> token multiset \<Rightarrow> bool" where
  "mongo_inv cdocs rdocs sc s G \<longleftrightarrow> account sc (cdocs (fst s)) (rdocs (snd s)) G"

definition idle :: "token multiset \<Rightarrow> bool" where
  "idle g \<longleftrightarrow> (\<forall>t \<in># g. is_Home t)"

definition in_window :: "scope \<Rightarrow> datetime \<Rightarrow> usage_query \<Rightarrow> bool" where
  "in_window sc now q \<longleftrightarrow> q_window_key q = sc_window sc (q_subject_id q) (q_resource q) \<and> sc_since sc \<le> now"

definition reserve_ok :: "scope \<Rightarrow> datetime \<Rightarrow> reserve_quota \<Rightarrow> bool" where
  "reserve_ok sc now c \<longleftrightarrow> in_window sc now (query_of c) \<and> ReserveQuota_check c = Inr c \<and>
     c_limit c \<le> sc_bound sc (cmd_key c) \<and> c_reservation_id c \<in> sc_new sc"

lemma idle_simps [simp]: "idle {#}" "idle (add_mset (Home k) g) \<longleftrightarrow> idle g"
  by (simp_all add: idle_def)

lemma account_idle: "account sc C R (g + h) \<Longrightarrow> idle g \<Longrightarrow> account sc C R h"
proof (induction g)
  case (add t g)
  then obtain k where "t = Home k" by (cases t) (auto simp: idle_def)
  with add show ?case using account_forget [of sc C R k "g + h"] by simp
qed simp

lemma account_token: "account sc C R G \<Longrightarrow> t \<in># G \<Longrightarrow> token_ok (sc_new sc) C R t"
  by (simp add: account_def tokens_ok_def)

lemma account_reservation: "account sc C R G \<Longrightarrow> d \<in># R \<Longrightarrow> homed C (d_key d) \<and> 0 < d_cost d"
  by (simp add: account_def reservations_ok_def)

lemma keeps_index_counter: "(\<And>ct. ct_key (f ct) = ct_key ct) \<Longrightarrow> keeps_index counter_dup f"
  by (simp add: keeps_index_def counter_dup_def)

lemma keeps_index_status: "keeps_index reservation_dup (\<lambda>d. d\<lparr>d_status := st\<rparr>)"
  by (simp add: keeps_index_def reservation_dup_def d_key_def)

lemma set_limit_key [simp]: "ct_key (set_limit l r ct) = ct_key ct" "ct_key (ct\<lparr>ct_used := n\<rparr>) = ct_key ct"
  by (simp_all add: set_limit_def ct_key_def)

lemma ReserveQuota_check_pos: "ReserveQuota_check c = Inr c \<Longrightarrow> 0 < c_cost c \<and> 0 < c_limit c"
  by (auto simp: ReserveQuota_check_def split: if_splits)

locale mongo_quota_collections =
  C: mongo_collection cc cdocs counter_dup + R: mongo_collection rc rdocs reservation_dup
  for cc :: "('c, counter) collection" and cdocs and rc :: "('r, res_doc) collection" and rdocs +
  fixes sc :: scope
begin

text \<open>Reading commands: what they tell holds as long as somebody holds the token for it.\<close>

lemma safe_read_counter:
  assumes "\<And>ct. ct_key ct = k \<Longrightarrow> safe (mongo_inv cdocs rdocs sc) Q (add_mset (Home k) g) (f (Some ct))"
    and "Home k \<notin># g \<Longrightarrow> safe (mongo_inv cdocs rdocs sc) Q g (f None)"
  shows "safe (mongo_inv cdocs rdocs sc) Q g (await (on_counters (reading (co_find_one cc (\<lambda>ct. ct_key ct = k)))) f)"
proof (rule safe_await)
  fix s h x s' assume I: "mongo_inv cdocs rdocs sc s (g + h)" and "on_counters (reading (co_find_one cc (\<lambda>ct. ct_key ct = k))) s = (x, s')"
  then have x: "x = co_find_one cc (\<lambda>ct. ct_key ct = k) (fst s)" "s' = s" by (auto simp: on_counters_def reading_def)
  show "\<exists>g'. mongo_inv cdocs rdocs sc s' (g' + h) \<and> safe (mongo_inv cdocs rdocs sc) Q g' (f x)"
  proof (cases x)
    case None
    then have "\<not> homed (cdocs (fst s)) k" using C.find_one_law [where P = "\<lambda>ct. ct_key ct = k" and s = "fst s"] x by (auto simp: homed_def)
    then have "Home k \<notin># g" using I account_token [of sc _ _ "g + h" "Home k"] by (auto simp: mongo_inv_def)
    with None assms(2) I x show ?thesis by auto
  next
    case (Some ct)
    then have "ct \<in># cdocs (fst s)" "ct_key ct = k" using C.find_one_law [where P = "\<lambda>ct. ct_key ct = k" and s = "fst s"] x by auto
    then have "homed (cdocs (fst s)) k" by (auto simp: homed_def)
    then have "mongo_inv cdocs rdocs sc s (add_mset (Home k) g + h)" using I account_home by (simp add: mongo_inv_def)
    with Some assms(1) x \<open>ct_key ct = k\<close> show ?thesis by blast
  qed
qed

lemma safe_read_reservation:
  assumes "\<And>d. P d \<Longrightarrow> safe (mongo_inv cdocs rdocs sc) Q (add_mset (Home (d_key d)) g) (f (Some d))" "safe (mongo_inv cdocs rdocs sc) Q g (f None)"
  shows "safe (mongo_inv cdocs rdocs sc) Q g (await (on_reservations (reading (co_find_one rc P))) f)"
proof (rule safe_await)
  fix s h x s' assume I: "mongo_inv cdocs rdocs sc s (g + h)" and "on_reservations (reading (co_find_one rc P)) s = (x, s')"
  then have x: "x = co_find_one rc P (snd s)" "s' = s" by (auto simp: on_reservations_def reading_def)
  show "\<exists>g'. mongo_inv cdocs rdocs sc s' (g' + h) \<and> safe (mongo_inv cdocs rdocs sc) Q g' (f x)"
  proof (cases x)
    case None
    with assms(2) I x show ?thesis by auto
  next
    case (Some d)
    then have d: "d \<in># rdocs (snd s)" "P d" using R.find_one_law [where P = P and s = "snd s"] x by auto
    then have "mongo_inv cdocs rdocs sc s (add_mset (Home (d_key d)) g + h)"
      using I account_home account_reservation by (simp add: mongo_inv_def)
    with Some assms(1) x d show ?thesis by blast
  qed
qed

lemma usage_safe:
  assumes "Home (d_key d) \<in># g" "\<And>u. Q (Inr u) (add_mset (Home (d_key d)) g)"
  shows "safe (mongo_inv cdocs rdocs sc) Q g (mg_usage_for_reservation (cc, rc) d)"
  unfolding mg_usage_for_reservation_def fst_conv using assms by (intro safe_read_counter) (auto intro: safe_Done)

text \<open>Within one window there is nothing to migrate.\<close>

lemma no_stale:
  assumes "account sc (cdocs c) R G" "in_window sc now q"
  shows "filter (\<lambda>ct. ct_window_key ct \<noteq> q_window_key q \<and> ct_reset_at ct > now)
    (co_find cc (\<lambda>ct. ct_subject_id ct = q_subject_id q \<and> ct_resource ct = q_resource q) c) = []"
proof -
  have "ct_window_key ct = q_window_key q \<or> ct_reset_at ct \<le> now"
    if "ct \<in> set (co_find cc (\<lambda>ct. ct_subject_id ct = q_subject_id q \<and> ct_resource ct = q_resource q) c)" for ct
  proof -
    have "ct \<in># mset (co_find cc (\<lambda>ct. ct_subject_id ct = q_subject_id q \<and> ct_resource ct = q_resource q) c)" using that by simp
    then have "ct \<in># cdocs c" "ct_subject_id ct = q_subject_id q" "ct_resource ct = q_resource q" by (auto simp: C.find_law)
    with assms show ?thesis by (fastforce simp: account_def counters_ok_def in_window_def)
  qed
  then show ?thesis by (fastforce simp: filter_empty_conv)
qed

lemma touch_inv:
  assumes "mongo_inv cdocs rdocs sc s G" "in_window sc now q"
    and "(\<forall>d \<in># cdocs (fst s). ct_key d \<noteq> q_key q) \<and> cdocs c' = cdocs (fst s) \<or>
      (\<exists>d M. ct_key d = q_key q \<and> cdocs (fst s) = add_mset d M \<and> cdocs c' = add_mset (set_limit l r d) M)"
  shows "mongo_inv cdocs rdocs sc (c', snd s) G"
  using assms account_touch [of sc _ _ "rdocs (snd s)" G l r] by (auto simp: mongo_inv_def in_window_def ct_key_def q_key_def)

lemma migrate_safe:
  assumes "in_window sc now q"
  shows "safe (mongo_inv cdocs rdocs sc) (\<lambda>r g'. r = Inr () \<and> g' = g) g (migrate_active_counters (cc, rc) now q)"
  unfolding migrate_active_counters_def fst_conv
proof (rule safe_await)
  let ?I = "mongo_inv cdocs rdocs sc" and ?P = "\<lambda>ct. ct_subject_id ct = q_subject_id q \<and> ct_resource ct = q_resource q"
  fix s h x s' assume I: "?I s (g + h)" and "on_counters (reading (co_find cc ?P)) s = (x, s')"
  then have x: "x = co_find cc ?P (fst s)" "s' = s" by (auto simp: on_counters_def reading_def)
  have none: "filter (\<lambda>ct. ct_window_key ct \<noteq> q_window_key q \<and> ct_reset_at ct > now) x = []"
    using no_stale [OF _ assms] I x by (simp add: mongo_inv_def)
  have "safe ?I (\<lambda>r g'. r = Inr () \<and> g' = g) g
     (await (on_counters (silent (co_update_one cc (\<lambda>ct. ct_key ct = q_key q) (set_limit (q_limit q) (q_reset_at q))))) (\<lambda>_. Done (Inr ())))"
  proof (rule safe_await)
    fix s h x s' assume I: "?I s (g + h)"
      and "on_counters (silent (co_update_one cc (\<lambda>ct. ct_key ct = q_key q) (set_limit (q_limit q) (q_reset_at q)))) s = (x, s')"
    then have "s' = (co_update_one cc (\<lambda>ct. ct_key ct = q_key q) (set_limit (q_limit q) (q_reset_at q)) (fst s), snd s)"
      by (auto simp: on_counters_def silent_def)
    with touch_inv [OF I assms C.update_one_law [OF keeps_index_counter [OF set_limit_key(1)] refl]] have "?I s' (g + h)" by simp
    then show "\<exists>g'. ?I s' (g' + h) \<and> safe ?I (\<lambda>r g'. r = Inr () \<and> g' = g) g' (Done (Inr ()))" by (auto intro: safe_Done)
  qed
  then show "\<exists>g'. ?I s' (g' + h) \<and> safe ?I (\<lambda>r g'. r = Inr () \<and> g' = g) g'
     (let has_target = \<exists>ct\<in>set x. ct_window_key ct = q_window_key q;
          stale = filter (\<lambda>ct. ct_window_key ct \<noteq> q_window_key q \<and> ct_reset_at ct > now) x in
      if stale = [] then (if has_target then
         await (on_counters (silent (co_update_one cc (\<lambda>ct. ct_key ct = q_key q) (set_limit (q_limit q) (q_reset_at q))))) (\<lambda>_. Done (Inr ()))
         else Done (Inr ())) else migrate_stale (cc, rc) q stale)"
    using I x none by (intro exI [of _ g]) (auto intro: safe_Done)
qed

lemma find_idempotent_safe:
  assumes "\<And>d. safe (mongo_inv cdocs rdocs sc) Q (add_mset (Home (d_key d)) g) (f (Some d))" "safe (mongo_inv cdocs rdocs sc) Q g (f None)"
  shows "safe (mongo_inv cdocs rdocs sc) Q g (find_idempotent_reservation (cc, rc) c f)"
  unfolding find_idempotent_reservation_def snd_conv using assms
  by (cases "c_idempotency_key c") (auto intro: safe_read_reservation)

lemma to_reservation_safe:
  assumes "Home (d_key d) \<in># g" "\<And>x. Q (Inr (Some x)) (add_mset (Home (d_key d)) g)"
  shows "safe (mongo_inv cdocs rdocs sc) Q g (call (to_reservation (cc, rc) d) (\<lambda>r. Done (Inr (Some r))))"
  unfolding to_reservation_def
  by (rule safe_call [where R = "\<lambda>r g'. (\<exists>x. r = Inr x) \<and> g' = add_mset (Home (d_key d)) g"];
      (rule safe_call [OF usage_safe [OF assms(1), where Q = "\<lambda>r g'. (\<exists>x. r = Inr x) \<and> g' = add_mset (Home (d_key d)) g"]])?)
     (auto intro: safe_Done assms(2))

text \<open>Charging, or releasing the reservation when the limit would be passed.\<close>

lemma charge_safe:
  assumes "reserve_ok sc now c" "\<And>x. Q (Inr x) {#}"
  shows "safe (mongo_inv cdocs rdocs sc) Q {#Charging c#} (mg_charge (cc, rc) c)"
  unfolding mg_charge_def fst_conv snd_conv
proof (rule safe_await)
  let ?I = "mongo_inv cdocs rdocs sc"
  let ?f = "\<lambda>ct. set_limit (c_limit c) (c_reset_at c) (ct\<lparr>ct_used := ct_used ct + c_cost c\<rparr>)"
    and ?P = "\<lambda>ct. ct_key ct = cmd_key c \<and> ct_used ct + c_cost c \<le> c_limit c"
  let ?k = "\<lambda>counter. case counter of
       None \<Rightarrow> await (on_reservations (silent (co_delete_one rc (\<lambda>d. d_id d = c_reservation_id c)))) (\<lambda>_. Done (Inr None))
     | Some (_, ct) \<Rightarrow> Done (Inr (Some (reservation_from_doc (reservation_doc c) (mg_usage_from_counter ct))))"
  have release: "safe ?I Q {#Charging c#} (?k None)" unfolding option.case
  proof (rule safe_await)
    fix s h and x :: unit and s' assume I: "?I s ({#Charging c#} + h)" and cmd: "on_reservations (silent (co_delete_one rc (\<lambda>d. d_id d = c_reservation_id c))) s = (x, s')"
    then have s': "s' = (fst s, co_delete_one rc (\<lambda>d. d_id d = c_reservation_id c) (snd s))" by (auto simp: on_reservations_def silent_def)
    have "\<exists>d \<in># rdocs (snd s). d_id d = c_reservation_id c" using account_token [of sc _ _ _ "Charging c"] I by (fastforce simp: mongo_inv_def)
    with R.delete_one_law [OF refl, where P = "\<lambda>d. d_id d = c_reservation_id c" and s = "snd s"]
    obtain d where "d_id d = c_reservation_id c" "rdocs (snd s) = add_mset d (rdocs (snd s'))" unfolding s' by auto
    with account_release [of sc "cdocs (fst s)" d "rdocs (snd s')" c h] I have "?I s' ({#} + h)" by (simp add: mongo_inv_def s')
    then show "\<exists>g'. ?I s' (g' + h) \<and> safe ?I Q g' (Done (Inr None))" by (blast intro: safe_Done assms(2))
  qed
  fix s h x s' assume I: "?I s ({#Charging c#} + h)" and "on_counters (co_find_one_and_update cc ?P ?f) s = (x, s')"
  then obtain c' where cmd: "co_find_one_and_update cc ?P ?f (fst s) = (x, c')" and s': "s' = (c', snd s)"
    by (auto simp: on_counters_def split: prod.splits)
  note law = C.find_one_and_update_law [OF keeps_index_counter cmd]
  show "\<exists>g'. ?I s' (g' + h) \<and> safe ?I Q g' (?k x)"
  proof (cases x)
    case None
    with law I have "?I s' ({#Charging c#} + h)" by (simp add: mongo_inv_def s')
    with release None show ?thesis by blast
  next
    case (Some dd)
    obtain d d' where dd: "dd = (d, d')" by (cases dd)
    with law Some obtain M where M: "?P d" "cdocs (fst s) = add_mset d M" "cdocs c' = add_mset (?f d) M" by auto
    have "account sc (add_mset (?f d) M) (rdocs (snd s)) h"
      by (rule account_charge) (use I M assms(1) in \<open>auto simp: mongo_inv_def reserve_ok_def in_window_def query_of_def\<close>)
    then have "?I s' ({#} + h)" using M by (simp add: mongo_inv_def s')
    then show ?thesis using Some dd by (auto intro!: exI [of _ "{#}"] safe_Done assms(2))
  qed
qed

text \<open>Storing the reservation, once the counter of its window is there.\<close>

lemma insert_safe:
  assumes "reserve_ok sc now c"
    and "safe (mongo_inv cdocs rdocs sc) Q {#Charging c#} (f True)" "safe (mongo_inv cdocs rdocs sc) Q {#Home (cmd_key c)#} (f False)"
  shows "safe (mongo_inv cdocs rdocs sc) Q {#Home (cmd_key c)#} (await (on_reservations (co_insert_one rc (reservation_doc c))) f)"
proof (rule safe_await)
  let ?I = "mongo_inv cdocs rdocs sc"
  fix s h ok s' assume I: "?I s ({#Home (cmd_key c)#} + h)" and "on_reservations (co_insert_one rc (reservation_doc c)) s = (ok, s')"
  then obtain r' where cmd: "co_insert_one rc (reservation_doc c) (snd s) = (ok, r')" and s': "s' = (fst s, r')"
    by (auto simp: on_reservations_def split: prod.splits)
  have home: "homed (cdocs (fst s)) (cmd_key c)" using account_token [of sc _ _ _ "Home (cmd_key c)"] I by (fastforce simp: mongo_inv_def)
  note law = R.insert_one_law [OF cmd]
  show "\<exists>g'. ?I s' (g' + h) \<and> safe ?I Q g' (f ok)"
  proof (cases ok)
    case True
    have "account sc (cdocs (fst s)) (rdocs (snd s)) h" using I account_forget by (simp add: mongo_inv_def)
    then have "account sc (cdocs (fst s)) (add_mset (reservation_doc c) (rdocs (snd s))) (add_mset (Charging c) h)"
      using account_insert home law True assms(1) ReserveQuota_check_pos by (simp add: reserve_ok_def)
    then have "?I s' ({#Charging c#} + h)" using law True by (simp add: mongo_inv_def s')
    then show ?thesis using assms(2) True by (intro exI [of _ "{#Charging c#}"]) simp
  next
    case False
    then have "?I s' ({#Home (cmd_key c)#} + h)" using I conjunct2 [OF law] by (simp add: mongo_inv_def s')
    then show ?thesis using assms(3) False by (intro exI [of _ "{#Home (cmd_key c)#}"]) simp
  qed
qed

lemma ensure_counter_safe:
  assumes "reserve_ok sc now c" "safe (mongo_inv cdocs rdocs sc) Q {#Home (cmd_key c)#} (f ())"
  shows "safe (mongo_inv cdocs rdocs sc) Q {#} (await (on_counters (silent (co_upsert_one cc (\<lambda>ct. ct_key ct = cmd_key c)
     (set_limit (c_limit c) (c_reset_at c)) (counter_doc (cmd_key c) 0 (c_limit c) (c_reset_at c))))) f)"
proof (rule safe_await)
  let ?I = "mongo_inv cdocs rdocs sc" and ?x = "counter_doc (cmd_key c) 0 (c_limit c) (c_reset_at c)" and ?f = "set_limit (c_limit c) (c_reset_at c)"
  fix s h and u :: unit and s' assume I: "?I s ({#} + h)" and "on_counters (silent (co_upsert_one cc (\<lambda>ct. ct_key ct = cmd_key c) ?f ?x)) s = (u, s')"
  then obtain c' where cmd: "co_upsert_one cc (\<lambda>ct. ct_key ct = cmd_key c) ?f ?x (fst s) = c'" and s': "s' = (c', snd s)"
    by (auto simp: on_counters_def silent_def)
  have key: "ct_key ?x = cmd_key c" by (simp add: counter_doc_def ct_key_def cmd_key_def)
  have win: "snd (snd (cmd_key c)) = sc_window sc (fst (cmd_key c)) (fst (snd (cmd_key c)))" "0 \<le> sc_bound sc (cmd_key c)"
    using assms(1) ReserveQuota_check_pos [of c] by (auto simp: reserve_ok_def in_window_def query_of_def cmd_key_def)
  from C.upsert_one_law [OF keeps_index_counter [OF set_limit_key(1)] cmd]
  have "account sc (cdocs c') (rdocs (snd s)) h \<and> homed (cdocs c') (cmd_key c)"
  proof (elim disjE conjE exE)
    assume "\<forall>d\<in>#cdocs (fst s). ct_key d \<noteq> cmd_key c" "cdocs c' = add_mset ?x (cdocs (fst s))"
    then show ?thesis using account_new_counter [of sc "cdocs (fst s)" "rdocs (snd s)" h "cmd_key c"] I win key by (auto simp: mongo_inv_def homed_def)
  next
    fix d M assume M: "ct_key d = cmd_key c" "cdocs (fst s) = add_mset d M" "cdocs c' = add_mset (?f d) M"
    then have "ct_window_key d = sc_window sc (ct_subject_id d) (ct_resource d)" using win(1) by (auto simp: ct_key_def cmd_key_def)
    then show ?thesis using account_touch [of sc d M "rdocs (snd s)" h] I M by (simp add: mongo_inv_def)
  qed
  then have "?I s' ({#Home (cmd_key c)#} + h)" using account_home by (simp add: mongo_inv_def s')
  then show "\<exists>g'. ?I s' (g' + h) \<and> safe ?I Q g' (f u)" using assms(2) by (intro exI [of _ "{#Home (cmd_key c)#}"]) simp
qed

lemma reserve_safe:
  assumes "reserve_ok sc now c"
  shows "safe (mongo_inv cdocs rdocs sc) (\<lambda>r g. idle g \<and> (\<forall>e. r = Inl e \<longrightarrow> e = DuplicateKeyError)) {#} (mg_reserve (cc, rc) now c)"
proof -
  let ?Q = "\<lambda>r g. idle g \<and> (\<forall>e. r = Inl e \<longrightarrow> e = DuplicateKeyError)"
  have found: "safe (mongo_inv cdocs rdocs sc) ?Q (add_mset (Home (d_key d)) g) (call (to_reservation (cc, rc) d) (\<lambda>r. Done (Inr (Some r))))"
    if "idle g" for d g by (rule to_reservation_safe) (use that in auto)
  have "in_window sc now (query_of c)" using assms by (simp add: reserve_ok_def)
  then show ?thesis unfolding mg_reserve_def fst_conv snd_conv
    by (intro safe_call [OF migrate_safe] find_idempotent_safe)
       (auto intro!: found ensure_counter_safe [OF assms] insert_safe [OF assms] charge_safe [OF assms] find_idempotent_safe safe_Done)
qed

text \<open>Taking a reservation out of the state \<open>RESERVED\<close>.\<close>

lemma claim_safe:
  assumes "st = REFUNDED \<Longrightarrow> i \<notin> sc_new sc" "safe (mongo_inv cdocs rdocs sc) Q {#} (f None)"
    and "\<And>d. d_id d = i \<Longrightarrow> safe (mongo_inv cdocs rdocs sc) Q {#if st = REFUNDED then Owing d else Home (d_key d)#} (f (Some d))"
  shows "safe (mongo_inv cdocs rdocs sc) Q {#} (claim_reserved (cc, rc) i st f)"
  unfolding claim_reserved_def snd_conv
proof (rule safe_await)
  let ?I = "mongo_inv cdocs rdocs sc" and ?P = "\<lambda>d. d_id d = i \<and> d_status d = RESERVED"
  fix s h x s' assume I: "?I s ({#} + h)" and "on_reservations (co_find_one_and_update rc ?P (\<lambda>d. d\<lparr>d_status := st\<rparr>)) s = (x, s')"
  then obtain r' where cmd: "co_find_one_and_update rc ?P (\<lambda>d. d\<lparr>d_status := st\<rparr>) (snd s) = (x, r')" and s': "s' = (fst s, r')"
    by (auto simp: on_reservations_def split: prod.splits)
  note law = R.find_one_and_update_law [OF keeps_index_status cmd]
  show "\<exists>g'. ?I s' (g' + h) \<and> safe ?I Q g' (f (map_option fst x))"
  proof (cases x)
    case None
    with law I have "?I s' ({#} + h)" by (simp add: mongo_inv_def s')
    then show ?thesis using None assms(2) by (intro exI [of _ "{#}"]) simp
  next
    case (Some dd)
    obtain d d' where dd: "dd = (d, d')" by (cases dd)
    with law Some obtain M where M: "?P d" "rdocs (snd s) = add_mset d M" "rdocs r' = add_mset (d\<lparr>d_status := st\<rparr>) M" by auto
    have acc: "account sc (cdocs (fst s)) (add_mset d M) h" using I M by (simp add: mongo_inv_def)
    have "account sc (cdocs (fst s)) (rdocs r') (if st = REFUNDED then add_mset (Owing d) h else h)"
      using account_status [OF acc, of st] M assms(1) by auto
    then have "?I s' ({#if st = REFUNDED then Owing d else Home (d_key d)#} + h)"
      using account_reservation [OF acc, of d] account_home [of sc "cdocs (fst s)" "rdocs r'" h "d_key d"]
      by (cases "st = REFUNDED") (simp_all add: mongo_inv_def s')
    then show ?thesis using assms(3) M Some dd by (intro exI [of _ "{#if st = REFUNDED then Owing d else Home (d_key d)#}"]) simp
  qed
qed

lemma require_safe:
  assumes "Q (Inl (KeyError i)) g" "\<And>d. Q (Inr d) (add_mset (Home (d_key d)) g)"
  shows "safe (mongo_inv cdocs rdocs sc) Q g (mg_require_reservation (cc, rc) i)"
  unfolding mg_require_reservation_def snd_conv by (rule safe_read_reservation) (auto intro: safe_Done assms)

lemma settled_usage_safe:
  assumes "\<And>e g. e = KeyError i \<or> e = e0 \<Longrightarrow> idle g \<Longrightarrow> Q (Inl e) g" "\<And>u g. idle g \<Longrightarrow> Q (Inr u) g"
  shows "safe (mongo_inv cdocs rdocs sc) Q {#} (call (mg_require_reservation (cc, rc) i) (\<lambda>d.
     if d_status d = st then Done (Inl e0) else mg_usage_for_reservation (cc, rc) d))"
  by (rule safe_call [OF require_safe [where Q = "\<lambda>r g. (case r of Inl e \<Rightarrow> e = KeyError i \<and> idle g | Inr d \<Rightarrow> Home (d_key d) \<in># g \<and> idle g)"]])
     (auto intro!: safe_Done assms usage_safe)

lemma finalize_safe: "safe (mongo_inv cdocs rdocs sc) (\<lambda>r g. idle g) {#} (mg_finalize (cc, rc) i)"
  unfolding mg_finalize_def by (rule claim_safe) (auto intro!: settled_usage_safe usage_safe)

lemma refund_safe:
  assumes "i \<notin> sc_new sc"
  shows "safe (mongo_inv cdocs rdocs sc) (\<lambda>r g. idle g) {#} (mg_refund (cc, rc) i)"
proof -
  let ?I = "mongo_inv cdocs rdocs sc" and ?f = "\<lambda>d ct. ct\<lparr>ct_used := ct_used ct + - d_cost d\<rparr>"
  let ?k = "\<lambda>counter. case counter of None \<Rightarrow> Done (Inl (KeyError i)) | Some (_, ct) \<Rightarrow> Done (Inr (mg_usage_from_counter ct))"
  have "safe ?I (\<lambda>r g. idle g) {#Owing d#} (await (on_counters (co_find_one_and_update cc (\<lambda>ct. ct_key ct = d_key d) (?f d))) ?k)" for d
  proof (rule safe_await)
    fix s h x s' assume I: "?I s ({#Owing d#} + h)" and "on_counters (co_find_one_and_update cc (\<lambda>ct. ct_key ct = d_key d) (?f d)) s = (x, s')"
    then obtain c' where cmd: "co_find_one_and_update cc (\<lambda>ct. ct_key ct = d_key d) (?f d) (fst s) = (x, c')" and s': "s' = (c', snd s)"
      by (auto simp: on_counters_def split: prod.splits)
    have "homed (cdocs (fst s)) (d_key d)" using account_token [of sc _ _ _ "Owing d"] I by (fastforce simp: mongo_inv_def)
    then obtain d1 d2 M where M: "x = Some (d1, d2)" "ct_key d1 = d_key d" "cdocs (fst s) = add_mset d1 M" "cdocs c' = add_mset (?f d d1) M"
      using C.find_one_and_update_law [OF keeps_index_counter cmd] by (cases x) (auto simp: homed_def)
    then have "?I s' ({#} + h)" using account_decrement [of sc d1 M "rdocs (snd s)" d h] I by (simp add: mongo_inv_def s')
    then show "\<exists>g'. ?I s' (g' + h) \<and> safe ?I (\<lambda>r g. idle g) g' (?k x)" by (auto simp: M(1) intro!: exI [of _ "{#}"] safe_Done)
  qed
  then show ?thesis unfolding mg_refund_def fst_conv using assms
    by (intro claim_safe) (auto intro!: settled_usage_safe)
qed

lemma get_usage_safe:
  assumes "in_window sc now q"
  shows "safe (mongo_inv cdocs rdocs sc) (\<lambda>r g. idle g) {#} (mg_get_usage (cc, rc) now q)"
  unfolding mg_get_usage_def fst_conv
proof (rule safe_call [OF migrate_safe [OF assms]])
  let ?I = "mongo_inv cdocs rdocs sc"
  fix x :: unit and g' :: "token multiset" assume "Inr x = Inr () \<and> g' = {#}"
  then have g': "g' = {#}" by simp
  show "safe ?I (\<lambda>r g. idle g) g' (await (on_counters (co_find_one_and_update cc (\<lambda>ct. ct_key ct = q_key q) (set_limit (q_limit q) (q_reset_at q))))
     (\<lambda>counter. case counter of None \<Rightarrow> Done (Inr \<lparr>u_subject_id = q_subject_id q, u_resource = q_resource q, u_window_key = q_window_key q,
        u_used = 0, u_limit = q_limit q, u_remaining = q_limit q, u_reset_at = q_reset_at q\<rparr>) | Some (_, ct) \<Rightarrow> Done (Inr (mg_usage_from_counter ct))))"
    unfolding g'
  proof (rule safe_await, goal_cases)
    case (1 s h x s')
    then obtain c' where cmd: "co_find_one_and_update cc (\<lambda>ct. ct_key ct = q_key q) (set_limit (q_limit q) (q_reset_at q)) (fst s) = (x, c')"
      and s': "s' = (c', snd s)" by (auto simp: on_counters_def split: prod.splits)
    have "?I s' ({#} + h)" unfolding s'
      by (rule touch_inv [OF 1(1) assms, where l = "q_limit q" and r = "q_reset_at q"])
         (use C.find_one_and_update_law [OF keeps_index_counter cmd] in \<open>auto split: option.splits simp del: split_paired_All split_paired_Ex\<close>)
    then show ?case by (auto intro!: exI [of _ "{#}"] safe_Done split: option.splits)
  qed
qed simp

end

section \<open>Many calls at once\<close>

datatype mongo_call = CReserve datetime reserve_quota | CFinalize string | CRefund string | CUsage datetime usage_query

fun start :: "('c, 'r) mongo_quota \<Rightarrow> mongo_call \<Rightarrow> ('c \<times> 'r, quota_obs) prog" where
  "start m (CReserve now c) = bind (mg_reserve m now c) (\<lambda>r. Done (obs (ObsEntry \<circ> map_option entry_of) r))"
| "start m (CFinalize i) = bind (mg_finalize m i) (\<lambda>r. Done (obs (\<lambda>_. ObsDone) r))"
| "start m (CRefund i) = bind (mg_refund m i) (\<lambda>r. Done (obs (\<lambda>_. ObsDone) r))"
| "start m (CUsage now q) = bind (mg_get_usage m now q) (\<lambda>r. Done (obs (ObsUsed \<circ> u_used) r))"

fun call_ok :: "scope \<Rightarrow> mongo_call \<Rightarrow> bool" where
  "call_ok sc (CReserve now c) \<longleftrightarrow> reserve_ok sc now c"
| "call_ok sc (CFinalize i) \<longleftrightarrow> True"
| "call_ok sc (CRefund i) \<longleftrightarrow> i \<notin> sc_new sc"
| "call_ok sc (CUsage now q) \<longleftrightarrow> in_window sc now q"

context mongo_quota_collections
begin

lemma start_safe: "call_ok sc x \<Longrightarrow> safe (mongo_inv cdocs rdocs sc) (\<lambda>r g. idle g) {#} (start (cc, rc) x)"
  by (cases x) (auto intro!: safe_Done intro: safe_bind [OF reserve_safe] safe_bind [OF finalize_safe] safe_bind [OF refund_safe] safe_bind [OF get_usage_safe])

text \<open>Whatever the schedule, the account holds with the tokens of the calls under way, and without tokens once all have ended.\<close>

lemma schedule_account:
  assumes "mongo_inv cdocs rdocs sc s {#}" "\<forall>x \<in> set calls. call_ok sc x"
  shows "\<exists>G. mongo_inv cdocs rdocs sc (fst (schedule is (s, map (start (cc, rc)) calls))) G \<and>
    ((\<forall>p \<in> set (snd (schedule is (s, map (start (cc, rc)) calls))). result p \<noteq> None) \<longrightarrow> idle G)"
proof -
  let ?c = "schedule is (s, map (start (cc, rc)) calls)"
  have zero: "sum_list (replicate n {#}) = {#}" for n :: nat by (induction n) auto
  have "held (mongo_inv cdocs rdocs sc) (\<lambda>r g. idle g) (s, map (start (cc, rc)) calls) (replicate (length calls) {#})"
    using assms start_safe by (auto simp: held_def zero)
  then obtain gs where gs: "held (mongo_inv cdocs rdocs sc) (\<lambda>r g. idle g) ?c gs" using schedule_keeps by blast
  have "idle (sum_list gs)" if ended: "\<forall>p \<in> set (snd ?c). result p \<noteq> None"
  proof -
    have "idle g" if g: "g \<in> set gs" for g
    proof -
      obtain i where i: "i < length gs" "gs ! i = g" using g by (auto simp: in_set_conv_nth)
      then have "result (snd ?c ! i) \<noteq> None" using ended gs by (auto simp: held_def simp del: not_None_eq)
      then obtain r where "snd ?c ! i = Done r" by (cases "snd ?c ! i") auto
      moreover have "safe (mongo_inv cdocs rdocs sc) (\<lambda>r g. idle g) g (snd ?c ! i)" using gs i by (auto simp: held_def)
      ultimately show ?thesis by (auto elim: safe_DoneE)
    qed
    then show ?thesis by (induction gs) (auto simp: idle_def)
  qed
  with gs show ?thesis by (auto simp: held_def)
qed

end

section \<open>Collections as lists\<close>

fun update_first :: "('d \<Rightarrow> bool) \<Rightarrow> ('d \<Rightarrow> 'd) \<Rightarrow> 'd list \<Rightarrow> ('d \<times> 'd) option \<times> 'd list" where
  "update_first P f [] = (None, [])"
| "update_first P f (x # xs) = (if P x then (Some (x, f x), f x # xs) else (let (r, ys) = update_first P f xs in (r, x # ys)))"

fun delete_first :: "('d \<Rightarrow> bool) \<Rightarrow> 'd list \<Rightarrow> 'd option \<times> 'd list" where
  "delete_first P [] = (None, [])"
| "delete_first P (x # xs) = (if P x then (Some x, xs) else (let (r, ys) = delete_first P xs in (r, x # ys)))"

fun update_all :: "('d \<Rightarrow> 'd \<Rightarrow> bool) \<Rightarrow> ('d \<Rightarrow> bool) \<Rightarrow> ('d \<Rightarrow> 'd) \<Rightarrow> 'd list \<Rightarrow> 'd list \<Rightarrow> bool \<times> 'd list" where
  "update_all dup P f before [] = (True, before)"
| "update_all dup P f before (x # xs) =
     (if \<not> P x then update_all dup P f (before @ [x]) xs
      else if \<exists>y \<in> set (before @ xs). dup (f x) y then (False, before @ x # xs)
      else update_all dup P f (before @ [f x]) xs)"

definition list_collection :: "('d \<Rightarrow> 'd \<Rightarrow> bool) \<Rightarrow> ('d list, 'd) collection" where
  "list_collection dup = \<lparr>
     co_find = filter, co_find_one = find,
     co_insert_one = (\<lambda>d xs. if \<exists>x \<in> set xs. dup d x then (False, xs) else (True, xs @ [d])),
     co_update_one = (\<lambda>P f xs. snd (update_first P f xs)),
     co_upsert_one = (\<lambda>P f x xs. case update_first P f xs of (None, ys) \<Rightarrow> ys @ [x] | (Some _, ys) \<Rightarrow> ys),
     co_update_many = (\<lambda>P f. update_all dup P f []),
     co_find_one_and_update = update_first, co_find_one_and_delete = delete_first,
     co_delete_one = (\<lambda>P xs. snd (delete_first P xs)), co_delete_many = (\<lambda>P. filter (\<lambda>x. \<not> P x))\<rparr>"

lemma update_first_law:
  "update_first P f xs = (r, ys) \<Longrightarrow>
   (case r of None \<Rightarrow> (\<forall>d \<in> set xs. \<not> P d) \<and> ys = xs
    | Some (d, d') \<Rightarrow> P d \<and> d' = f d \<and> (\<exists>M. mset xs = add_mset d M \<and> mset ys = add_mset d' M))"
proof (induction xs arbitrary: r ys)
  case (Cons x xs)
  obtain r' ys' where u: "update_first P f xs = (r', ys')" by (cases "update_first P f xs")
  show ?case
  proof (cases "P x")
    case False
    with Cons.prems u have "r = r'" "ys = x # ys'" by auto
    with Cons.IH [OF u] False show ?thesis by (auto split: option.splits)
  qed (use Cons.prems in auto)
qed simp

lemma delete_first_law:
  "delete_first P xs = (r, ys) \<Longrightarrow>
   (case r of None \<Rightarrow> (\<forall>d \<in> set xs. \<not> P d) \<and> ys = xs | Some d \<Rightarrow> P d \<and> mset xs = add_mset d (mset ys))"
proof (induction xs arbitrary: r ys)
  case (Cons x xs)
  then show ?case by (auto split: if_splits prod.splits option.splits)
qed simp

interpretation list_docs: mongo_collection "list_collection dup" mset dup for dup :: "'d \<Rightarrow> 'd \<Rightarrow> bool"
proof
  fix P :: "'d \<Rightarrow> bool" and f :: "'d \<Rightarrow> 'd" and s s' :: "'d list" and d x :: 'd and ok r
  show "mset (co_find (list_collection dup) P s) = filter_mset P (mset s)" by (simp add: list_collection_def)
  show "case co_find_one (list_collection dup) P s of None \<Rightarrow> \<forall>d\<in>#mset s. \<not> P d | Some d \<Rightarrow> d \<in># mset s \<and> P d"
    by (auto simp: list_collection_def find_None_iff find_Some_iff split: option.splits)
  show "ok = (\<forall>x\<in>#mset s. \<not> dup d x) \<and> mset s' = (if ok then add_mset d (mset s) else mset s)"
    if "co_insert_one (list_collection dup) d s = (ok, s')" using that by (auto simp: list_collection_def split: if_splits)
  show "(\<forall>d\<in>#mset s. \<not> P d) \<and> mset s' = mset s \<or> (\<exists>d M. P d \<and> mset s = add_mset d M \<and> mset s' = add_mset (f d) M)"
    if "co_update_one (list_collection dup) P f s = s'"
    using that update_first_law [of P f s] by (cases "update_first P f s") (fastforce simp: list_collection_def split: option.splits)
  show "(\<forall>d\<in>#mset s. \<not> P d) \<and> mset s' = add_mset x (mset s) \<or> (\<exists>d M. P d \<and> mset s = add_mset d M \<and> mset s' = add_mset (f d) M)"
    if "co_upsert_one (list_collection dup) P f x s = s'"
    using that update_first_law [of P f s] by (cases "update_first P f s") (fastforce simp: list_collection_def split: option.splits)
  show "case r of None \<Rightarrow> (\<forall>d\<in>#mset s. \<not> P d) \<and> mset s' = mset s
     | Some (d, d') \<Rightarrow> P d \<and> d' = f d \<and> (\<exists>M. mset s = add_mset d M \<and> mset s' = add_mset d' M)"
    if "co_find_one_and_update (list_collection dup) P f s = (r, s')"
    using that update_first_law [of P f s r s'] by (auto simp: list_collection_def split: option.splits)
  show "(\<forall>d\<in>#mset s. \<not> P d) \<and> mset s' = mset s \<or> (\<exists>d. P d \<and> mset s = add_mset d (mset s'))"
    if "co_delete_one (list_collection dup) P s = s'"
    using that delete_first_law [of P s] by (cases "delete_first P s") (fastforce simp: list_collection_def split: option.splits)
qed

interpretation list_quota: mongo_quota_collections "list_collection counter_dup" mset "list_collection reservation_dup" mset sc for sc
  by unfold_locales

section \<open>Properties\<close>

text \<open>
  C9. The account holds under interleaving. Whatever the schedule of any number of calls of \<open>reserve\<close>, \<open>finalize\<close>, \<open>refund\<close>
  and \<open>get_usage\<close> that agree on the window of each subject and resource and refund none of the reservations being made
  (\<open>call_ok\<close>), no counter ever passes the largest limit in use and no idempotency key has two reservations; and when all calls
  have ended every counter holds exactly the costs of the reservations of its window that are not refunded. The condition on
  refunds is needed: a refund of a reservation whose \<open>reserve\<close> has not ended can lose a charge (\<open>early_refund_undercounts\<close>).
\<close>

theorem mongo_account_under_interleaving:
  assumes "mongo_collection cc cdocs counter_dup" "mongo_collection rc rdocs reservation_dup"
    and "account sc (cdocs c) (rdocs r) {#}" "\<forall>x \<in> set calls. call_ok sc x"
    and "schedule is ((c, r), map (start (cc, rc)) calls) = ((c', r'), ps)"
  shows "(\<forall>ct \<in># cdocs c'. ct_used ct \<le> sc_bound sc (ct_key ct)) \<and> unique_by idem_of (rdocs r') \<and>
    ((\<forall>p \<in> set ps. result p \<noteq> None) \<longrightarrow> account sc (cdocs c') (rdocs r') {#} \<and>
       (\<forall>ct \<in># cdocs c'. ct_used ct = owed (rdocs r') (ct_key ct)))"
proof -
  have loc: "mongo_quota_collections cc cdocs rc rdocs" using assms(1,2) by (rule mongo_quota_collections.intro)
  obtain G where G: "account sc (cdocs c') (rdocs r') G" "(\<forall>p \<in> set ps. result p \<noteq> None) \<longrightarrow> idle G"
    using mongo_quota_collections.schedule_account [OF loc _ assms(4), of "(c, r)" "is"] assms(3,5) by (auto simp: mongo_inv_def)
  have "account sc (cdocs c') (rdocs r') {#}" if "\<forall>p \<in> set ps. result p \<noteq> None"
    using account_idle [of sc _ _ G "{#}"] G that by simp
  moreover have "\<forall>ct \<in># cdocs c'. ct_used ct = owed (rdocs r') (ct_key ct)" if "account sc (cdocs c') (rdocs r') {#}"
    using that by (simp add: account_def settled_by_def)
  ultimately show ?thesis using G(1) by (auto simp: account_def counters_ok_def reservations_ok_def)
qed

definition race_command :: "string \<Rightarrow> reserve_quota" where
  "race_command i = \<lparr>c_subject_id = ''s'', c_resource = ''r'', c_window_key = ''7'', c_limit = 1, c_cost = 1, c_reset_at = 100,
     c_reservation_id = i, c_idempotency_key = Some ''k''\<rparr>"

definition race_scope :: scope where
  "race_scope = \<lparr>sc_new = {''a'', ''b''}, sc_window = (\<lambda>_ _. ''7''), sc_since = 0, sc_bound = (\<lambda>_. 1)\<rparr>"

definition race_lists :: "(counter list, res_doc list) mongo_quota" where
  "race_lists = (list_collection counter_dup, list_collection reservation_dup)"

definition race :: "(counter list \<times> res_doc list) \<times> (counter list \<times> res_doc list, quota_obs) prog list" where
  "race = schedule [0, 1, 0, 1, 0, 1, 0, 1, 0, 1, 0, 1, 0, 1]
     (([], []), map (start race_lists) [CReserve 1 (race_command ''a''), CReserve 1 (race_command ''b'')])"

lemma race_ends: "map ct_used (fst (fst race)) = [1]" "map d_id (snd (fst race)) = [''a'']"
  "list_all (\<lambda>p. result p \<noteq> None) (snd race)"
  by code_simp+

theorem mongo_account_under_interleaving_witness:
  "\<exists>c' r' ps. schedule [0, 1, 0, 1, 0, 1, 0, 1, 0, 1, 0, 1, 0, 1]
     (([], []), map (start race_lists) [CReserve 1 (race_command ''a''), CReserve 1 (race_command ''b'')]) = ((c', r'), ps) \<and>
     unique_by idem_of (mset r') \<and> (\<Sum>d\<in>#mset r'. d_cost d) = 1"
proof -
  obtain c' r' ps where run: "race = ((c', r'), ps)" by (metis prod.exhaust)
  have acc: "account race_scope (mset []) (mset []) {#}" by (simp add: account_defs unique_by_def)
  have ok: "\<forall>x \<in> set [CReserve 1 (race_command ''a''), CReserve 1 (race_command ''b'')]. call_ok race_scope x"
    by (simp add: reserve_ok_def in_window_def race_command_def race_scope_def query_of_def ReserveQuota_check_def)
  from mongo_account_under_interleaving [OF list_docs.mongo_collection_axioms list_docs.mongo_collection_axioms acc ok
      run [unfolded race_def race_lists_def]]
  have "unique_by idem_of (mset r')" by (elim conjE)
  moreover have "sum_list (map d_cost (snd (fst race))) = 1" by code_simp
  then have "(\<Sum>d\<in>#mset r'. d_cost d) = 1" by (simp add: run sum_mset_sum_list flip: mset_map)
  ultimately show ?thesis using run unfolding race_def by blast
qed

text \<open>
  Windows do mix when two of them are active at once. A command of the window that has just ended, carried out after the new
  window has begun, takes the counter of the new window for stale and moves its usage back: the new window then admits its whole
  limit again.
\<close>

definition late_command :: "string \<Rightarrow> string \<Rightarrow> datetime \<Rightarrow> reserve_quota" where
  "late_command i w reset_at = \<lparr>c_subject_id = ''s'', c_resource = ''r'', c_window_key = w, c_limit = 5, c_cost = 5, c_reset_at = reset_at,
     c_reservation_id = i, c_idempotency_key = None\<rparr>"

definition late_run :: "quota_obs list \<times> counter list \<times> res_doc list" where
  "late_run = run_ops (\<lambda>x. exec (start race_lists x))
     [CReserve 100 (late_command ''a'' ''8'' 200), CReserve 101 (late_command ''b'' ''7'' 100), CReserve 102 (late_command ''c'' ''8'' 200)] ([], [])"

theorem late_command_frees_new_window:
  "map (\<lambda>x. case x of ObsEntry (Some e) \<Rightarrow> Some (e_id e, e_key e) | _ \<Rightarrow> None) (fst late_run)
   = [Some (''a'', (''s'', ''r'', ''8'')), None, Some (''c'', (''s'', ''r'', ''8''))]"
  by code_simp

text \<open>
  A refund that comes before the charge. A retry with the same idempotency key is told the reservation that a first call has
  stored but not charged; when the first call then finds the limit reached while the retry's caller refunds, the refund is taken
  off the counter although nothing was charged.
\<close>

definition full_store :: "counter list \<times> res_doc list" where
  "full_store = ([counter_doc (''s'', ''r'', ''7'') 1 1 100], [(reservation_doc (race_command ''z''))\<lparr>d_idempotency_key := None\<rparr>])"

definition refund_race :: "(counter list \<times> res_doc list) \<times> (counter list \<times> res_doc list, quota_obs) prog list" where
  "refund_race = schedule [0, 0, 0, 0, 0, 1, 1, 1, 1, 0, 2, 2, 0]
     (full_store, map (start race_lists) [CReserve 1 (race_command ''a''), CReserve 1 (race_command ''b''), CRefund ''a''])"

theorem early_refund_undercounts:
  "map ct_used (fst (fst refund_race)) = [0] \<and> map (\<lambda>d. (d_id d, d_status d, d_cost d)) (snd (fst refund_race)) = [(''z'', RESERVED, 1)]"
  by code_simp

end
