(* ===== verification/Keyed_Table.thy ===== *)
theory Keyed_Table
  imports SQL
begin

text \<open>
  A table with a primary key read as a partial map: what guarded updates, inserts and bounded deletes
  over the rows do to that map. \<open>key\<close> is the key column and \<open>val\<close> what the map shows of a row.
\<close>

definition tab :: "('r \<Rightarrow> 'k) \<Rightarrow> ('r \<Rightarrow> 'v) \<Rightarrow> 'r table \<Rightarrow> 'k \<Rightarrow> 'v option" where
  "tab key val s = map_of (map (\<lambda>r. (key r, val r)) s)"

lemma tab_Nil [simp]: "tab key val [] = Map.empty"
  by (simp add: tab_def)

lemma tab_Cons: "tab key val (r # s) = (tab key val s)(key r \<mapsto> val r)"
  by (simp add: tab_def)

lemma tab_none: "tab key val s i = None \<longleftrightarrow> (\<forall>r \<in> set s. key r \<noteq> i)"
  by (induction s) (auto simp: tab_Cons)

lemma tab_some: "tab key val s i = Some v \<Longrightarrow> \<exists>r \<in> set s. key r = i \<and> v = val r"
  by (induction s) (auto simp: tab_Cons split: if_splits)

lemma tab_row: "\<lbrakk>distinct (map key s); r \<in> set s\<rbrakk> \<Longrightarrow> tab key val s (key r) = Some (val r)"
  by (induction s) (auto simp: tab_Cons rev_image_eqI)

lemma tab_finite: "finite (dom (tab key val s))"
  by (simp add: tab_def finite_dom_map_of)

lemma tab_insert:
  assumes "\<forall>r \<in> set s. key r \<noteq> key row"
  shows "tab key val (s @ [row]) = (tab key val s)(key row \<mapsto> val row)"
  using assms by (induction s) (auto simp: tab_Cons fun_eq_iff)

lemma tab_update:
  assumes "\<And>r. r \<in> set s \<Longrightarrow> key (f r) = key r" "\<And>r. r \<in> set s \<Longrightarrow> val (f r) = g (val r)"
    and "\<And>r. r \<in> set s \<Longrightarrow> P r \<longleftrightarrow> key r \<in> S"
  shows "tab key val (map (\<lambda>r. if P r then f r else r) s) =
     (\<lambda>i. if i \<in> S then map_option g (tab key val s i) else tab key val s i)"
  using assms by (induction s) (auto simp: tab_Cons fun_eq_iff)

lemma tab_update_keys:
  assumes "\<And>r. r \<in> set s \<Longrightarrow> key (f r) = key r"
  shows "map key (map (\<lambda>r. if P r then f r else r) s) = map key s"
  using assms by (induction s) auto

lemma tab_delete: "tab key val (filter (\<lambda>r. key r \<notin> S) s) = tab key val s |` (- S)"
  by (induction s) (auto simp: tab_Cons fun_eq_iff restrict_map_def)

lemma tab_where:
  assumes "distinct (map key s)" and Q: "\<And>r. Q (val r) \<longleftrightarrow> R r"
  shows "{i. \<exists>v. tab key val s i = Some v \<and> Q v} = key ` set (filter R s)"
  using tab_some [of key val s] tab_row [OF assms(1), of _ val] Q by (fastforce simp: image_iff)

text \<open>An update of the row with one key.\<close>

lemma sql_update_key:
  assumes d: "distinct (map key s)" and "\<And>r. key (f r) = key r" and "\<And>r. val (f r) = g (val r)"
  shows "case tab key val s i of
      None \<Rightarrow> fst (sql_update (\<lambda>r. key r = i) f s) = []
    | Some v \<Rightarrow> fst (sql_update (\<lambda>r. key r = i) f s) \<noteq> []
        \<and> tab key val (snd (sql_update (\<lambda>r. key r = i) f s)) = (tab key val s)(i \<mapsto> g v)
        \<and> distinct (map key (snd (sql_update (\<lambda>r. key r = i) f s)))"
proof (cases "tab key val s i")
  case None
  then have "filter (\<lambda>r. key r = i) s = []" by (simp add: tab_none filter_empty_conv)
  with None show ?thesis by (simp add: sql_update_def)
next
  case (Some v)
  have "tab key val (map (\<lambda>r. if key r = i then f r else r) s) =
      (\<lambda>j. if j \<in> {i} then map_option g (tab key val s j) else tab key val s j)"
    by (rule tab_update) (simp_all add: assms)
  moreover have "map key (map (\<lambda>r. if key r = i then f r else r) s) = map key s"
    by (rule tab_update_keys) (simp add: assms)
  moreover have "filter (\<lambda>r. key r = i) s \<noteq> []" using tab_some [OF Some] by (auto simp: filter_empty_conv)
  ultimately show ?thesis using Some d by (auto simp: sql_update_def fun_eq_iff simp del: map_map)
qed

text \<open>A bounded delete: the number of rows removed is that of the keys picked.\<close>

lemma bounded_delete:
  assumes pick: "limit_ok pick" and d: "distinct (map key s)"
    and S_def: "S = key ` set (pick n (filter R s))"
  shows "S \<subseteq> key ` set (filter R s)" and "card S = min n (card (key ` set (filter R s)))"
    and "length s - length (filter (\<lambda>r. key r \<notin> S) s) = card S"
    and "distinct (map key (filter (\<lambda>r. key r \<notin> S) s))"
proof -
  let ?E = "filter R s" and ?P = "pick n (filter R s)"
  have dE: "distinct (map key ?E)" using d by (rule distinct_map_filter)
  then have "distinct ?E" by (simp add: distinct_map)
  with pick have P: "set ?P \<subseteq> set ?E" "length ?P = min n (length ?E)" "distinct ?P"
    unfolding limit_ok_def by blast+
  show sub: "S \<subseteq> key ` set ?E" using P(1) by (auto simp: S_def)
  have inj: "inj_on key (set ?E)" using dE by (simp only: distinct_map)
  have "card S = length ?P"
    unfolding S_def using card_image [OF inj_on_subset [OF inj P(1)]] distinct_card [OF P(3)] by simp
  moreover have "card (key ` set ?E) = length ?E" using distinct_card [OF dE] by simp
  ultimately show "card S = min n (card (key ` set ?E))" using P(2) by simp
  have "set (map key (filter (\<lambda>r. key r \<in> S) s)) = S" using sub by force
  moreover have "distinct (map key (filter (\<lambda>r. key r \<in> S) s))" using d by (rule distinct_map_filter)
  ultimately have "length (filter (\<lambda>r. key r \<in> S) s) = card S" by (metis distinct_card length_map)
  then show "length s - length (filter (\<lambda>r. key r \<notin> S) s) = card S"
    using sum_length_filter_compl [of "\<lambda>r. key r \<in> S" s] by simp
  show "distinct (map key (filter (\<lambda>r. key r \<notin> S) s))" using d by (rule distinct_map_filter)
qed

end
