(* ===== verification/Resilience.thy ===== *)
theory Resilience
  imports Errors
begin

text \<open>
  Retry, timeout and circuit-breaker primitives (\<open>src/app/core/resilience.py\<close>).

  The classification of errors (\<open>error_status_code\<close>, \<open>retry_after_seconds\<close>,
  \<open>is_transient_error\<close>) reads the duck-typed view of an exception. \<open>retry_policy\<close> and its
  \<open>decision\<close> are pure; the value drawn from \<open>rng\<close> is an argument. The circuit breaker is a record
  with one function per method and the clock reading as an argument; \<open>breaker_reach\<close> is the
  reachability relation over the public methods under a clock that never goes back.
\<close>

section \<open>Classifying errors\<close>

definition TRANSIENT_STATUS_CODES :: "int list" where
  "TRANSIENT_STATUS_CODES = [408, 429]"

definition TRANSIENT_ERROR_NAMES :: "string list" where
  "TRANSIENT_ERROR_NAMES =
     [''APITimeoutError'', ''APIConnectionError'', ''TimeoutException'', ''TransportError'']"

text \<open>\<open>isinstance(x, int)\<close>, which holds of booleans too.\<close>

fun attr_int :: "py_attr \<Rightarrow> int option" where
  "attr_int (AInt i) = Some i"
| "attr_int (ABool b) = Some (if b then 1 else 0)"
| "attr_int _ = None"

definition error_status_code :: "exn \<Rightarrow> int option" where
  "error_status_code e =
     (case attr_int (view_status (exn_view e)) of
        Some s \<Rightarrow> Some s
      | None \<Rightarrow> attr_int (view_response_status (exn_view e)))"

text \<open>\<open>float(hint)\<close>; \<open>None\<close> where it raises \<open>TypeError\<close> or \<open>ValueError\<close>.\<close>

fun py_float :: "py_attr \<Rightarrow> pyfloat option" where
  "py_float ANone = None"
| "py_float (ABool b) = Some (Fin (if b then 1 else 0))"
| "py_float (AInt i) = Some (Fin (of_int i))"
| "py_float (AFloat x) = Some x"
| "py_float (AStr s) = py_float_str s"
| "py_float AOther = None"

fun pyfloat_nonneg :: "pyfloat \<Rightarrow> bool" where
  "pyfloat_nonneg (Fin x) = (0 \<le> x)"
| "pyfloat_nonneg PInf = True"
| "pyfloat_nonneg NInf = False"
| "pyfloat_nonneg NaN = False"

definition retry_after_seconds :: "exn \<Rightarrow> pyfloat option" where
  "retry_after_seconds e =
     (let hint = (if view_retry_after (exn_view e) = ANone
                  then (case view_response_retry_after (exn_view e) of None \<Rightarrow> ANone | Some a \<Rightarrow> a)
                  else view_retry_after (exn_view e)) in
      case py_float hint of
        None \<Rightarrow> None
      | Some s \<Rightarrow> if pyfloat_nonneg s then Some s else None)"

definition is_transient_error :: "exn \<Rightarrow> bool" where
  "is_transient_error e =
     (case error_status_code e of
        Some status \<Rightarrow> status \<in> set TRANSIENT_STATUS_CODES \<or> status \<ge> 500
      | None \<Rightarrow>
          view_timeout_or_connection (exn_view e)
          \<or> list_ex (\<lambda>cls. cls \<in> set TRANSIENT_ERROR_NAMES) (view_mro (exn_view e)))"

section \<open>Retry policy\<close>

record retry_decision =
  should_retry :: bool
  next_delay_seconds :: "seconds option"

record retry_policy =
  max_attempts :: int
  retry_status_codes :: "int list"
  retry_exceptions :: bool
  retry_on :: "exn \<Rightarrow> bool"
  base_delay_seconds :: seconds
  max_delay_seconds :: seconds

definition default_retry_policy :: retry_policy where
  "default_retry_policy =
     \<lparr>max_attempts = 3, retry_status_codes = [408, 429, 500, 502, 503, 504],
      retry_exceptions = True, retry_on = is_transient_error,
      base_delay_seconds = 1/2, max_delay_seconds = 30\<rparr>"

definition RetryPolicy :: "retry_policy \<Rightarrow> exn + retry_policy" where
  "RetryPolicy p =
     (if max_attempts p \<le> 0 then Inl (ValueError ''max_attempts must be positive'')
      else if base_delay_seconds p < 0
        then Inl (ValueError ''base_delay_seconds must not be negative'')
      else if max_delay_seconds p < base_delay_seconds p
        then Inl (ValueError ''max_delay_seconds must be >= base_delay_seconds'')
      else Inr p)"

text \<open>\<open>max(delay, min(hint, cap))\<close>; every comparison with NaN is false.\<close>

fun raise_to_hint :: "seconds \<Rightarrow> seconds \<Rightarrow> pyfloat \<Rightarrow> seconds" where
  "raise_to_hint delay cap (Fin x) = max delay (min x cap)"
| "raise_to_hint delay cap PInf = max delay cap"
| "raise_to_hint delay cap NInf = delay"
| "raise_to_hint delay cap NaN = delay"

definition policy_delay :: "retry_policy \<Rightarrow> rat \<Rightarrow> int \<Rightarrow> pyfloat option \<Rightarrow> seconds" where
  "policy_delay p rng attempt retry_after =
     (let ceil = min (max_delay_seconds p) (base_delay_seconds p * 2 powi (attempt - 1));
          delay = rng * ceil in
      case retry_after of
        None \<Rightarrow> delay
      | Some h \<Rightarrow> raise_to_hint delay (max_delay_seconds p) h)"

definition no_retry :: retry_decision where
  "no_retry = \<lparr>should_retry = False, next_delay_seconds = None\<rparr>"

definition decision ::
  "retry_policy \<Rightarrow> rat \<Rightarrow> int \<Rightarrow> int option \<Rightarrow> exn option \<Rightarrow> pyfloat option \<Rightarrow> retry_decision" where
  "decision p rng attempt status_code error retry_after =
     (if attempt \<ge> max_attempts p then no_retry
      else case error of
        Some e \<Rightarrow>
          if \<not> (retry_exceptions p \<and> retry_on p e) then no_retry
          else \<lparr>should_retry = True, next_delay_seconds = Some (policy_delay p rng attempt
                 (case retry_after of None \<Rightarrow> retry_after_seconds e | Some h \<Rightarrow> Some h))\<rparr>
      | None \<Rightarrow>
          if (case status_code of None \<Rightarrow> True | Some s \<Rightarrow> s \<notin> set (retry_status_codes p)) then no_retry
          else \<lparr>should_retry = True, next_delay_seconds = Some (policy_delay p rng attempt retry_after)\<rparr>)"

definition TimeoutPolicy :: "seconds \<Rightarrow> exn + seconds" where
  "TimeoutPolicy timeout_seconds =
     (if timeout_seconds \<le> 0 then Inl (ValueError ''timeout_seconds must be positive'')
      else Inr timeout_seconds)"

section \<open>Circuit breaker\<close>

datatype breaker_state = CLOSED | OPEN | HALF_OPEN

record breaker_policy =
  failure_threshold :: int
  cooldown_seconds :: seconds

record breaker =
  b_failure_threshold :: int
  b_cooldown_seconds :: seconds
  failure_count :: int
  b_state :: breaker_state
  open_until :: seconds
  probe_lease_until :: "seconds option"

definition CircuitBreakerPolicy :: "int \<Rightarrow> seconds \<Rightarrow> exn + breaker_policy" where
  "CircuitBreakerPolicy threshold cooldown =
     (if threshold \<le> 0 then Inl (ValueError ''failure_threshold must be positive'')
      else if cooldown \<le> 0 then Inl (ValueError ''cooldown_seconds must be positive'')
      else Inr \<lparr>failure_threshold = threshold, cooldown_seconds = cooldown\<rparr>)"

definition CircuitBreaker :: "int \<Rightarrow> seconds \<Rightarrow> exn + breaker" where
  "CircuitBreaker threshold cooldown =
     (case CircuitBreakerPolicy threshold cooldown of
        Inl e \<Rightarrow> Inl e
      | Inr _ \<Rightarrow> Inr \<lparr>b_failure_threshold = threshold, b_cooldown_seconds = cooldown,
                   failure_count = 0, b_state = CLOSED, open_until = 0,
                   probe_lease_until = None\<rparr>)"

definition breaker_build :: "breaker_policy \<Rightarrow> exn + breaker" where
  "breaker_build p = CircuitBreaker (failure_threshold p) (cooldown_seconds p)"

text \<open>The admission of a half-open breaker, which an open breaker whose cooldown passed falls into.\<close>

definition grant_probe :: "seconds \<Rightarrow> breaker \<Rightarrow> bool \<times> breaker" where
  "grant_probe now b =
     (case probe_lease_until b of
        Some l \<Rightarrow> if now < l then (False, b)
                  else (True, b\<lparr>probe_lease_until := Some (now + b_cooldown_seconds b)\<rparr>)
      | None \<Rightarrow> (True, b\<lparr>probe_lease_until := Some (now + b_cooldown_seconds b)\<rparr>))"

definition try_acquire :: "seconds \<Rightarrow> breaker \<Rightarrow> bool \<times> breaker" where
  "try_acquire now b =
     (case b_state b of
        CLOSED \<Rightarrow> (True, b)
      | OPEN \<Rightarrow> if now < open_until b then (False, b)
                else grant_probe now (b\<lparr>b_state := HALF_OPEN, probe_lease_until := None\<rparr>)
      | HALF_OPEN \<Rightarrow> grant_probe now b)"

definition release_probe :: "breaker \<Rightarrow> breaker" where
  "release_probe b = b\<lparr>probe_lease_until := None\<rparr>"

definition record_success :: "breaker \<Rightarrow> breaker" where
  "record_success b = b\<lparr>failure_count := 0, b_state := CLOSED, probe_lease_until := None\<rparr>"

definition open_breaker :: "seconds \<Rightarrow> breaker \<Rightarrow> breaker" where
  "open_breaker now b =
     b\<lparr>b_state := OPEN, open_until := now + b_cooldown_seconds b, probe_lease_until := None\<rparr>"

definition record_failure :: "seconds \<Rightarrow> exn \<Rightarrow> breaker \<Rightarrow> breaker" where
  "record_failure now e b =
     (if \<not> is_transient_error e then b\<lparr>probe_lease_until := None\<rparr>
      else case b_state b of
        HALF_OPEN \<Rightarrow> open_breaker now b
      | OPEN \<Rightarrow> b
      | CLOSED \<Rightarrow>
          (let b' = b\<lparr>failure_count := failure_count b + 1\<rparr> in
           if failure_count b' \<ge> b_failure_threshold b' then open_breaker now b' else b'))"

definition breaker_reset :: "breaker \<Rightarrow> breaker" where
  "breaker_reset b = record_success b"

datatype breaker_call = TryAcquire | ReleaseProbe | RecordSuccess | RecordFailure exn | Reset

fun breaker_step :: "seconds \<Rightarrow> breaker_call \<Rightarrow> breaker \<Rightarrow> breaker" where
  "breaker_step now TryAcquire b = snd (try_acquire now b)"
| "breaker_step now ReleaseProbe b = release_probe b"
| "breaker_step now RecordSuccess b = record_success b"
| "breaker_step now (RecordFailure e) b = record_failure now e b"
| "breaker_step now Reset b = breaker_reset b"

text \<open>\<open>breaker_reach n cd t b\<close>: some sequence of calls, the last at time \<open>t\<close>, leads to \<open>b\<close>.\<close>

inductive breaker_reach :: "int \<Rightarrow> seconds \<Rightarrow> seconds \<Rightarrow> breaker \<Rightarrow> bool" for n cd where
  fresh: "CircuitBreaker n cd = Inr b \<Longrightarrow> breaker_reach n cd t b"
| call: "\<lbrakk>breaker_reach n cd t b; t \<le> now\<rbrakk> \<Longrightarrow> breaker_reach n cd now (breaker_step now c b)"

fun run_acquires :: "breaker \<Rightarrow> seconds list \<Rightarrow> bool list \<times> breaker" where
  "run_acquires b [] = ([], b)"
| "run_acquires b (t # ts) =
     (let (admitted, b') = try_acquire t b; (rest, b'') = run_acquires b' ts in
      (admitted # rest, b''))"

fun run_failures :: "breaker \<Rightarrow> (seconds \<times> exn) list \<Rightarrow> breaker" where
  "run_failures b [] = b"
| "run_failures b ((now, e) # fs) = run_failures (record_failure now e b) fs"

definition transient_failures :: "(seconds \<times> exn) list \<Rightarrow> int" where
  "transient_failures fs = int (length (filter (\<lambda>(_, e). is_transient_error e) fs))"

definition breaker_inv :: "int \<Rightarrow> seconds \<Rightarrow> seconds \<Rightarrow> breaker \<Rightarrow> bool" where
  "breaker_inv n cd t b \<longleftrightarrow>
     0 < n \<and> 0 < cd \<and> b_failure_threshold b = n \<and> b_cooldown_seconds b = cd \<and> 0 \<le> failure_count b \<and>
     (case b_state b of
        CLOSED \<Rightarrow> failure_count b < n \<and> probe_lease_until b = None
      | OPEN \<Rightarrow> failure_count b = n \<and> open_until b \<le> t + cd \<and> probe_lease_until b = None
      | HALF_OPEN \<Rightarrow> failure_count b = n \<and>
          (\<forall>l. probe_lease_until b = Some l \<longrightarrow> l \<le> t + cd))"

lemmas breaker_op_defs [ops_simps] =
  try_acquire_def grant_probe_def release_probe_def record_success_def record_failure_def
  open_breaker_def breaker_reset_def CircuitBreaker_def CircuitBreakerPolicy_def breaker_build_def

section \<open>Error classification lemmas\<close>

lemma transient_status:
  "error_status_code e = Some s \<Longrightarrow> is_transient_error e \<longleftrightarrow> s = 408 \<or> s = 429 \<or> 500 \<le> s"
  by (auto simp: is_transient_error_def TRANSIENT_STATUS_CODES_def)

lemma app_error_transient:
  "is_transient_error (AppError a) \<longleftrightarrow> ae_status a = 408 \<or> ae_status a = 429 \<or> 500 \<le> ae_status a"
  by (rule transient_status) (simp add: error_status_code_def)

lemma transient_TimeoutError [simp]: "is_transient_error TimeoutError"
  by (simp add: is_transient_error_def error_status_code_def plain_view_def)

lemma retry_after_nonneg: "retry_after_seconds e = Some h \<Longrightarrow> pyfloat_nonneg h"
  by (auto simp: retry_after_seconds_def Let_def split: option.splits if_splits)

section \<open>Retry policy lemmas\<close>

lemma RetryPolicy_valid:
  "RetryPolicy p = Inr q \<Longrightarrow> q = p \<and> 0 < max_attempts p \<and> 0 \<le> base_delay_seconds p
     \<and> base_delay_seconds p \<le> max_delay_seconds p"
  by (auto simp: RetryPolicy_def split: if_splits)

lemma raise_to_hint_bounds:
  "\<lbrakk>0 \<le> delay; delay \<le> cap\<rbrakk> \<Longrightarrow>
     delay \<le> raise_to_hint delay cap h \<and> raise_to_hint delay cap h \<le> cap"
  by (cases h) auto

lemma policy_delay_bounds:
  assumes "RetryPolicy p = Inr p" and "0 \<le> rng" and "rng < 1"
  shows "0 \<le> policy_delay p rng attempt h \<and> policy_delay p rng attempt h \<le> max_delay_seconds p"
proof -
  define c where "c = min (max_delay_seconds p) (base_delay_seconds p * 2 powi (attempt - 1))"
  from RetryPolicy_valid [OF assms(1)]
  have c: "0 \<le> c" "c \<le> max_delay_seconds p" by (auto simp: c_def)
  with assms have d: "0 \<le> rng * c" "rng * c \<le> max_delay_seconds p"
    by simp (metis c mult_left_le_one_le order_less_imp_le order_trans assms(2,3))
  show ?thesis
    using d raise_to_hint_bounds [OF d]
    by (auto simp: policy_delay_def c_def [symmetric] Let_def split: option.splits
             intro: order_trans [OF d(1)])
qed

lemma decision_retries_iff:
  "should_retry (decision p rng attempt status error h) \<longleftrightarrow>
     attempt < max_attempts p \<and>
     (case error of
        Some e \<Rightarrow> retry_exceptions p \<and> retry_on p e
      | None \<Rightarrow> (\<exists>s \<in> set (retry_status_codes p). status = Some s))"
  by (auto simp: decision_def no_retry_def split: option.splits)

lemma decision_delay:
  "should_retry (decision p rng attempt status error h) \<Longrightarrow>
     \<exists>h'. next_delay_seconds (decision p rng attempt status error h)
            = Some (policy_delay p rng attempt h')"
  by (auto simp: decision_def no_retry_def split: option.splits if_splits)

section \<open>Circuit breaker lemmas\<close>

lemma breaker_inv_fresh: "CircuitBreaker n cd = Inr b \<Longrightarrow> breaker_inv n cd t b"
  by (auto simp: breaker_inv_def breaker_op_defs split: if_splits)

lemma grant_probe_inv:
  "\<lbrakk>breaker_inv n cd t b; b_state b = HALF_OPEN; t \<le> now\<rbrakk> \<Longrightarrow>
     breaker_inv n cd now (snd (grant_probe now b))"
  by (auto simp: breaker_inv_def grant_probe_def split: option.splits)

lemma try_acquire_inv:
  assumes "breaker_inv n cd t b" and "t \<le> now"
  shows "breaker_inv n cd now (snd (try_acquire now b))"
proof (cases "b_state b")
  case CLOSED
  with assms show ?thesis by (simp add: try_acquire_def breaker_inv_def)
next
  case HALF_OPEN
  with assms show ?thesis by (simp add: try_acquire_def grant_probe_inv)
next
  case OPEN
  let ?b = "b\<lparr>b_state := HALF_OPEN, probe_lease_until := None\<rparr>"
  have "breaker_inv n cd t ?b" using assms OPEN by (simp add: breaker_inv_def)
  then have probe: "breaker_inv n cd now (snd (grant_probe now ?b))"
    by (rule grant_probe_inv) (use assms in simp_all)
  have "breaker_inv n cd now b" using assms OPEN by (auto simp: breaker_inv_def)
  with probe OPEN show ?thesis by (simp add: try_acquire_def)
qed

lemma record_failure_inv:
  "\<lbrakk>breaker_inv n cd t b; t \<le> now\<rbrakk> \<Longrightarrow> breaker_inv n cd now (record_failure now e b)"
  by (auto simp: breaker_inv_def record_failure_def open_breaker_def Let_def split: breaker_state.splits)

lemma breaker_step_inv:
  "\<lbrakk>breaker_inv n cd t b; t \<le> now\<rbrakk> \<Longrightarrow> breaker_inv n cd now (breaker_step now c b)"
proof (cases c)
  case TryAcquire
  assume "breaker_inv n cd t b" "t \<le> now"
  with TryAcquire show ?thesis by (simp add: try_acquire_inv)
next
  case (RecordFailure e)
  assume "breaker_inv n cd t b" "t \<le> now"
  with RecordFailure show ?thesis by (simp add: record_failure_inv)
qed (auto simp: breaker_inv_def release_probe_def record_success_def breaker_reset_def
          split: breaker_state.splits)

lemma breaker_reach_inv: "breaker_reach n cd t b \<Longrightarrow> breaker_inv n cd t b"
  by (induction rule: breaker_reach.induct) (auto intro: breaker_inv_fresh breaker_step_inv)

lemma try_acquire_admits_after:
  "\<lbrakk>breaker_inv n cd t b; t + cd \<le> now\<rbrakk> \<Longrightarrow> fst (try_acquire now b)"
  by (auto simp: breaker_inv_def try_acquire_def grant_probe_def split: breaker_state.splits option.splits)

text \<open>A leased probe slot rejects until the lease ends.\<close>

lemma leased_rejects:
  "\<lbrakk>b_state b = HALF_OPEN; probe_lease_until b = Some l; t < l\<rbrakk> \<Longrightarrow> try_acquire t b = (False, b)"
  by (simp add: try_acquire_def grant_probe_def)

lemma leased_run_rejects:
  "\<lbrakk>b_state b = HALF_OPEN; probe_lease_until b = Some l; \<forall>t \<in> set ts. t < l\<rbrakk> \<Longrightarrow>
     run_acquires b ts = (map (\<lambda>_. False) ts, b)"
  by (induction ts) (auto simp: leased_rejects)

lemma admitted_leases:
  "\<lbrakk>try_acquire t b = (True, b'); b_state b \<noteq> CLOSED\<rbrakk> \<Longrightarrow>
     b_state b' = HALF_OPEN \<and> probe_lease_until b' = Some (t + b_cooldown_seconds b)"
  by (auto simp: try_acquire_def grant_probe_def split: breaker_state.splits option.splits if_splits)

lemma rejected_unchanged: "try_acquire t b = (False, b') \<Longrightarrow> b' = b \<and> b_state b \<noteq> CLOSED"
  by (auto simp: try_acquire_def grant_probe_def split: breaker_state.splits option.splits if_splits)

lemma run_acquires_at_most_one:
  assumes "b_state b \<noteq> CLOSED" and "\<forall>t \<in> set ts. \<forall>u \<in> set ts. u < t + b_cooldown_seconds b"
  shows "length (filter id (fst (run_acquires b ts))) \<le> 1"
  using assms
proof (induction ts arbitrary: b)
  case (Cons t ts)
  obtain adm b' where step: "try_acquire t b = (adm, b')" by (cases "try_acquire t b")
  show ?case
  proof (cases adm)
    case True
    with step have "try_acquire t b = (True, b')" by simp
    with Cons.prems(1) have "b_state b' = HALF_OPEN"
      "probe_lease_until b' = Some (t + b_cooldown_seconds b)"
      using admitted_leases by blast+
    with Cons.prems(2) have "run_acquires b' ts = (map (\<lambda>_. False) ts, b')"
      by (intro leased_run_rejects) auto
    with step show ?thesis by simp
  next
    case False
    with step have "try_acquire t b = (False, b')" by simp
    then have "b' = b" using rejected_unchanged by blast
    have "length (filter id (fst (run_acquires b ts))) \<le> 1"
      using Cons.prems by (intro Cons.IH) auto
    with False step \<open>b' = b\<close> show ?thesis by (simp add: case_prod_beta id_def)
  qed
qed simp

lemma run_failures_OPEN: "b_state b = OPEN \<Longrightarrow> b_state (run_failures b fs) = OPEN"
  by (induction fs arbitrary: b) (auto simp: record_failure_def)

lemma run_failures_counts:
  assumes "b_state b = CLOSED" and "failure_count b < b_failure_threshold b"
  shows "if failure_count b + transient_failures fs < b_failure_threshold b
         then b_state (run_failures b fs) = CLOSED
           \<and> failure_count (run_failures b fs) = failure_count b + transient_failures fs
         else b_state (run_failures b fs) = OPEN"
  using assms unfolding transient_failures_def
proof (induction fs arbitrary: b)
  case (Cons f fs)
  obtain now e where f: "f = (now, e)" by (cases f)
  show ?case
  proof (cases "is_transient_error e")
    case False
    then have "b_state (record_failure now e b) = CLOSED"
      "failure_count (record_failure now e b) = failure_count b"
      "b_failure_threshold (record_failure now e b) = b_failure_threshold b"
      using Cons.prems by (simp_all add: record_failure_def)
    with Cons.IH [of "record_failure now e b"] Cons.prems False show ?thesis by (simp add: f)
  next
    case True
    show ?thesis
    proof (cases "failure_count b + 1 < b_failure_threshold b")
      case True
      with \<open>is_transient_error e\<close> Cons.prems
      have "record_failure now e b = b\<lparr>failure_count := failure_count b + 1\<rparr>"
        by (simp add: record_failure_def)
      with Cons.IH [of "b\<lparr>failure_count := failure_count b + 1\<rparr>"] Cons.prems True
        \<open>is_transient_error e\<close>
      show ?thesis by (simp add: f add.assoc)
    next
      case False
      with \<open>is_transient_error e\<close> Cons.prems
      have "b_state (record_failure now e b) = OPEN"
        by (simp add: record_failure_def open_breaker_def Let_def)
      with False \<open>is_transient_error e\<close> show ?thesis
        by (simp add: f run_failures_OPEN)
    qed
  qed
qed simp

section \<open>Properties\<close>

text \<open>
  C1. A valid retry policy retries exactly when attempts remain and the error (or the status code,
  when there is no error) is one it retries; and the delay of every retry it decides lies between
  0 and \<open>max_delay_seconds\<close>, whatever hint the server sent and whatever \<open>rng()\<close> returned.
\<close>

theorem retry_decision_sound:
  assumes "RetryPolicy p = Inr p" and "0 \<le> rng" and "rng < 1"
  shows "(should_retry (decision p rng attempt status error h) \<longleftrightarrow>
            attempt < max_attempts p \<and>
            (case error of
               Some e \<Rightarrow> retry_exceptions p \<and> retry_on p e
             | None \<Rightarrow> (\<exists>s \<in> set (retry_status_codes p). status = Some s))) \<and>
         (case next_delay_seconds (decision p rng attempt status error h) of
            None \<Rightarrow> \<not> should_retry (decision p rng attempt status error h)
          | Some d \<Rightarrow> should_retry (decision p rng attempt status error h)
                      \<and> 0 \<le> d \<and> d \<le> max_delay_seconds p)"
proof (rule conjI [OF decision_retries_iff])
  show "case next_delay_seconds (decision p rng attempt status error h) of
          None \<Rightarrow> \<not> should_retry (decision p rng attempt status error h)
        | Some d \<Rightarrow> should_retry (decision p rng attempt status error h)
                    \<and> 0 \<le> d \<and> d \<le> max_delay_seconds p"
  proof (cases "should_retry (decision p rng attempt status error h)")
    case True
    with decision_delay [OF True] policy_delay_bounds [OF assms] show ?thesis by auto
  next
    case False
    then show ?thesis by (auto simp: decision_def no_retry_def split: option.splits if_splits)
  qed
qed

theorem retry_decision_sound_witness:
  "should_retry (decision default_retry_policy (1/2) 1 None (Some TimeoutError) None)
   \<and> \<not> should_retry (decision default_retry_policy (1/2) 3 None (Some TimeoutError) None)
   \<and> \<not> should_retry (decision default_retry_policy (1/2) 1 None (Some (ValueError ''x'')) None)"
proof -
  have valid: "RetryPolicy default_retry_policy = Inr default_retry_policy"
    by (simp add: RetryPolicy_def default_retry_policy_def)
  have rng: "(0::rat) \<le> 1/2" "(1/2::rat) < 1" by simp_all
  note sound = retry_decision_sound [OF valid rng, THEN conjunct1]
  show ?thesis
    unfolding sound
    by (simp add: default_retry_policy_def is_transient_error_def error_status_code_def plain_view_def
                  exception_bases_def TRANSIENT_ERROR_NAMES_def)
qed

text \<open>
  C2. An open or half-open breaker admits at most one probe among any calls of \<open>try_acquire\<close> that
  all fall within one cooldown of each other and with no outcome reported in between.
\<close>

theorem breaker_single_probe:
  assumes "b_state b \<noteq> CLOSED"
    and "\<forall>t \<in> set ts. \<forall>u \<in> set ts. u < t + b_cooldown_seconds b"
  shows "length (filter id (fst (run_acquires b ts))) \<le> 1"
  using assms by (rule run_acquires_at_most_one)

theorem breaker_single_probe_witness:
  "length (filter id (fst (run_acquires
     \<lparr>b_failure_threshold = 1, b_cooldown_seconds = 30, failure_count = 1, b_state = OPEN,
      open_until = 5, probe_lease_until = None\<rparr> [4, 6, 20, 33]))) \<le> 1
   \<and> fst (run_acquires
     \<lparr>b_failure_threshold = 1, b_cooldown_seconds = 30, failure_count = 1, b_state = OPEN,
      open_until = 5, probe_lease_until = None\<rparr> [4, 6, 20, 33]) = [False, True, False, False]"
proof
  show "length (filter id (fst (run_acquires
     \<lparr>b_failure_threshold = 1, b_cooldown_seconds = 30, failure_count = 1, b_state = OPEN,
      open_until = 5, probe_lease_until = None\<rparr> [4, 6, 20, 33]))) \<le> 1"
    by (rule breaker_single_probe) simp_all
qed (simp add: try_acquire_def grant_probe_def)

text \<open>
  C3. The breaker cannot wedge: from every reachable state, one cooldown after the last call the
  next \<open>try_acquire\<close> is admitted, whether or not the outcome of an earlier probe was reported.
\<close>

theorem breaker_never_wedged:
  assumes "breaker_reach n cd t b" and "t + cd \<le> now"
  shows "fst (try_acquire now b)"
  using breaker_reach_inv [OF assms(1)] assms(2) by (rule try_acquire_admits_after)

theorem breaker_never_wedged_witness:
  "\<exists>b. breaker_reach 1 30 10 b \<and> b_state b = OPEN \<and> \<not> fst (try_acquire 39 b) \<and> fst (try_acquire 40 b)"
proof -
  let ?init = "\<lparr>b_failure_threshold = 1, b_cooldown_seconds = 30, failure_count = 0, b_state = CLOSED,
      open_until = 0, probe_lease_until = None\<rparr>"
  let ?b = "breaker_step 10 (RecordFailure TimeoutError) ?init"
  have "breaker_reach 1 30 0 ?init" 
    by (rule breaker_reach.fresh) (simp add: CircuitBreaker_def CircuitBreakerPolicy_def)
  then have reach: "breaker_reach 1 30 10 ?b" by (rule breaker_reach.call) simp
  moreover have "b_state ?b = OPEN \<and> open_until ?b = 40"
    by (simp add: record_failure_def open_breaker_def)
  moreover have "\<not> fst (try_acquire 39 ?b)"
    by (simp add: try_acquire_def record_failure_def open_breaker_def)
  moreover have "fst (try_acquire 40 ?b)" by (rule breaker_never_wedged [OF reach]) simp
  ultimately show ?thesis by blast
qed

text \<open>
  A closed breaker trips at exactly its threshold of transient failures since the last success:
  below it the breaker stays closed with every one of them counted, at or above it it is open.
  Deterministic failures (a 4xx other than 408 and 429, a parse error) never count.
\<close>

theorem breaker_trips_at_threshold:
  assumes "b_state b = CLOSED" and "failure_count b < b_failure_threshold b"
  shows "if failure_count b + transient_failures fs < b_failure_threshold b
         then b_state (run_failures b fs) = CLOSED
           \<and> failure_count (run_failures b fs) = failure_count b + transient_failures fs
         else b_state (run_failures b fs) = OPEN"
  using assms by (rule run_failures_counts)

theorem breaker_trips_at_threshold_witness:
  "b_state (run_failures
     \<lparr>b_failure_threshold = 2, b_cooldown_seconds = 30, failure_count = 0, b_state = CLOSED,
      open_until = 0, probe_lease_until = None\<rparr>
     [(1, TimeoutError), (2, AppError (ConflictError None None None)), (3, TimeoutError)]) = OPEN"
proof -
  let ?b = "\<lparr>b_failure_threshold = 2, b_cooldown_seconds = 30, failure_count = 0, b_state = CLOSED,
      open_until = 0, probe_lease_until = None\<rparr>"
  let ?fs = "[(1::rat, TimeoutError), (2, AppError (ConflictError None None None)), (3, TimeoutError)]"
  have "transient_failures ?fs = 2"
    by (simp add: transient_failures_def is_transient_error_def error_status_code_def plain_view_def
                  TRANSIENT_STATUS_CODES_def app_error_defs)
  with breaker_trips_at_threshold [of ?b ?fs] show ?thesis by simp
qed

end
