(* ===== verification/Outbox.thy ===== *)
theory Outbox
  imports Keyed_Table Resilience
begin

text \<open>
  The transactional outbox (\<open>src/app/modules/messaging/outbox/\<close>: \<open>models.py\<close>, \<open>store.py\<close>,
  \<open>adapters.py\<close>, \<open>publisher.py\<close>).

  The locale \<open>outbox_store\<close> is the contract of \<open>OutboxStore\<close>: a partial map from ids to events. The
  publisher is proved correct over it, and the Postgres store fulfils it. A sink acts on a state of
  its own; \<open>str_exc\<close> stands for \<open>str(exc)\<close> and \<open>rng k\<close> for the \<open>k\<close>-th number drawn for a delay.
\<close>

section \<open>Records\<close>

datatype outbox_status = OUTBOX_PENDING | OUTBOX_PUBLISHED | OUTBOX_FAILED

record outbox_record =
  ob_id :: string
  ob_event_type :: string
  ob_payload :: body
  ob_metadata :: body
  ob_status :: outbox_status
  ob_attempts :: int
  ob_available_at :: "datetime option"
  ob_locked_until :: "datetime option"
  ob_published_at :: "datetime option"
  ob_error :: "string option"

record outbox_row =
  or_id :: string
  or_event_type :: string
  or_payload :: body
  or_metadata :: body
  or_status :: outbox_status
  or_attempts :: int
  or_available_at :: datetime
  or_locked_until :: "datetime option"
  or_published_at :: "datetime option"
  or_error :: "string option"
  or_created_at :: datetime

type_synonym pg_outbox = "outbox_row table"

record 's outbox_api =
  ob_enqueue :: "string \<Rightarrow> datetime \<Rightarrow> string \<Rightarrow> body \<Rightarrow> body option \<Rightarrow> datetime option \<Rightarrow> 's \<Rightarrow> (exn + outbox_record) \<times> 's"
  ob_list_pending :: "int \<Rightarrow> datetime \<Rightarrow> 's \<Rightarrow> exn + outbox_record list"
  ob_claim_pending :: "int \<Rightarrow> datetime \<Rightarrow> seconds \<Rightarrow> string option \<Rightarrow> 's \<Rightarrow> (exn + outbox_record list) \<times> 's"
  ob_mark_published :: "string \<Rightarrow> datetime \<Rightarrow> 's \<Rightarrow> (exn + unit) \<times> 's"
  ob_mark_failed :: "string \<Rightarrow> string \<Rightarrow> datetime option \<Rightarrow> 's \<Rightarrow> (exn + unit) \<times> 's"
  ob_delete_published :: "datetime \<Rightarrow> int \<Rightarrow> 's \<Rightarrow> (exn + nat) \<times> 's"

section \<open>The Postgres store\<close>

definition outbox_to_record :: "outbox_row \<Rightarrow> outbox_record" where
  "outbox_to_record r =
     \<lparr>ob_id = or_id r, ob_event_type = or_event_type r, ob_payload = or_payload r, ob_metadata = or_metadata r,
      ob_status = or_status r, ob_attempts = or_attempts r, ob_available_at = Some (or_available_at r),
      ob_locked_until = or_locked_until r, ob_published_at = or_published_at r, ob_error = or_error r\<rparr>"

text \<open>\<open>uuid\<close>, the attempts and the creation time are column defaults.\<close>

definition new_outbox_row ::
  "string \<Rightarrow> datetime \<Rightarrow> string \<Rightarrow> body \<Rightarrow> body option \<Rightarrow> datetime option \<Rightarrow> outbox_row" where
  "new_outbox_row uuid now event_type payload metadata available_at =
     \<lparr>or_id = uuid, or_event_type = event_type, or_payload = payload, or_metadata = dflt [] metadata,
      or_status = OUTBOX_PENDING, or_attempts = 0, or_available_at = dflt now available_at,
      or_locked_until = None, or_published_at = None, or_error = None, or_created_at = now\<rparr>"

definition insert_outbox_row :: "outbox_row \<Rightarrow> pg_outbox \<Rightarrow> (exn + unit) \<times> pg_outbox" where
  "insert_outbox_row row s =
     (if \<exists>r \<in> set s. or_id r = or_id row then (Inl IntegrityError, s) else (Inr (), s @ [row]))"

definition pgo_enqueue ::
  "string \<Rightarrow> datetime \<Rightarrow> string \<Rightarrow> body \<Rightarrow> body option \<Rightarrow> datetime option \<Rightarrow> pg_outbox \<Rightarrow>
   (exn + outbox_record) \<times> pg_outbox" where
  "pgo_enqueue uuid now event_type payload metadata available_at s =
     (let row = new_outbox_row uuid now event_type payload metadata available_at in
      case insert_outbox_row row s of
        (Inl e, s') \<Rightarrow> (Inl e, s')
      | (Inr _, s') \<Rightarrow> (Inr (outbox_to_record row), s'))"

definition row_due :: "datetime \<Rightarrow> string option \<Rightarrow> outbox_row \<Rightarrow> bool" where
  "row_due now event_type_prefix r \<longleftrightarrow> or_status r = OUTBOX_PENDING \<and> or_available_at r \<le> now
     \<and> (case or_locked_until r of None \<Rightarrow> True | Some l \<Rightarrow> l \<le> now)
     \<and> (case event_type_prefix of None \<Rightarrow> True | Some p \<Rightarrow> sql_startswith p (or_event_type r))"

text \<open>\<open>ORDER BY available_at, created_at\<close> as two stable sorts.\<close>

definition pending_stmt :: "int \<Rightarrow> datetime \<Rightarrow> string option \<Rightarrow> pg_outbox \<Rightarrow> outbox_row list" where
  "pending_stmt limit now event_type_prefix s =
     take (nat limit) (sort_key or_available_at (sort_key or_created_at (filter (row_due now event_type_prefix) s)))"

definition pgo_list_pending :: "int \<Rightarrow> datetime \<Rightarrow> pg_outbox \<Rightarrow> exn + outbox_record list" where
  "pgo_list_pending limit now s =
     (if limit \<le> 0 then Inl (ValueError ''limit must be positive'')
      else Inr (map outbox_to_record (pending_stmt limit now None s)))"

definition pgo_claim_pending ::
  "int \<Rightarrow> datetime \<Rightarrow> seconds \<Rightarrow> string option \<Rightarrow> pg_outbox \<Rightarrow> (exn + outbox_record list) \<times> pg_outbox" where
  "pgo_claim_pending limit now lock_seconds event_type_prefix s =
     (if limit \<le> 0 then (Inl (ValueError ''limit must be positive''), s)
      else if lock_seconds \<le> 0 then (Inl (ValueError ''lock_seconds must be positive''), s)
      else (let locked_until = now + timedelta_float lock_seconds;
                rows = pending_stmt limit now event_type_prefix s;
                lock = (\<lambda>r. r\<lparr>or_locked_until := Some locked_until\<rparr>);
                (_, s') = sql_update (\<lambda>r. or_id r \<in> or_id ` set rows) lock s in
            (Inr (map (outbox_to_record \<circ> lock) rows), s')))"

definition outbox_update :: "string \<Rightarrow> (outbox_row \<Rightarrow> outbox_row) \<Rightarrow> pg_outbox \<Rightarrow> (exn + unit) \<times> pg_outbox" where
  "outbox_update event_id f s =
     (let (rows, s') = sql_update (\<lambda>r. or_id r = event_id) f s in
      if rows = [] then (Inl (KeyError event_id), s) else (Inr (), s'))"

definition pgo_mark_published :: "string \<Rightarrow> datetime \<Rightarrow> pg_outbox \<Rightarrow> (exn + unit) \<times> pg_outbox" where
  "pgo_mark_published event_id published_at s =
     outbox_update event_id (\<lambda>r. r\<lparr>or_status := OUTBOX_PUBLISHED, or_published_at := Some published_at,
       or_locked_until := None, or_error := None\<rparr>) s"

definition pgo_mark_failed :: "string \<Rightarrow> string \<Rightarrow> datetime option \<Rightarrow> pg_outbox \<Rightarrow> (exn + unit) \<times> pg_outbox" where
  "pgo_mark_failed event_id error available_at s =
     outbox_update event_id
       (\<lambda>r. let r1 = r\<lparr>or_status := OUTBOX_FAILED, or_error := Some error, or_attempts := or_attempts r + 1,
                      or_locked_until := None\<rparr> in
            case available_at of None \<Rightarrow> r1
            | Some a \<Rightarrow> r1\<lparr>or_available_at := a, or_status := OUTBOX_PENDING\<rparr>) s"

definition row_old :: "datetime \<Rightarrow> outbox_row \<Rightarrow> bool" where
  "row_old before r \<longleftrightarrow> or_status r = OUTBOX_PUBLISHED
     \<and> (case or_published_at r of None \<Rightarrow> False | Some p \<Rightarrow> p < before)"

definition pgo_delete_published ::
  "outbox_row limiter_fn \<Rightarrow> datetime \<Rightarrow> int \<Rightarrow> pg_outbox \<Rightarrow> (exn + nat) \<times> pg_outbox" where
  "pgo_delete_published pick before limit s =
     (if limit \<le> 0 then (Inl (ValueError ''limit must be positive''), s)
      else (let ids = map or_id (pick (nat limit) (filter (row_old before) s));
                s' = sql_delete (\<lambda>r. or_id r \<in> set ids) s in
            (Inr (length s - length s'), s')))"

definition pg_outbox_api :: "outbox_row limiter_fn \<Rightarrow> pg_outbox outbox_api" where
  "pg_outbox_api pick = \<lparr>ob_enqueue = pgo_enqueue, ob_list_pending = pgo_list_pending,
     ob_claim_pending = pgo_claim_pending, ob_mark_published = pgo_mark_published,
     ob_mark_failed = pgo_mark_failed, ob_delete_published = pgo_delete_published pick\<rparr>"

section \<open>The publisher\<close>

definition retry_any_error :: "exn \<Rightarrow> bool" where
  "retry_any_error error = True"

definition DEFAULT_OUTBOX_RETRY_POLICY :: retry_policy where
  "DEFAULT_OUTBOX_RETRY_POLICY = default_retry_policy\<lparr>retry_on := retry_any_error\<rparr>"

type_synonym 'k outbox_sink = "outbox_record \<Rightarrow> datetime \<Rightarrow> 'k \<Rightarrow> (exn + unit) \<times> 'k"

record publish_report =
  rep_total :: nat
  rep_published :: nat
  rep_retried :: nat
  rep_failed :: nat

definition outbox_queue_payload :: "outbox_record \<Rightarrow> body" where
  "outbox_queue_payload r =
     [(''id'', JStr (ob_id r)), (''type'', JStr (ob_event_type r)), (''payload'', JObj (ob_payload r)),
      (''metadata'', JObj (ob_metadata r))]"

record publisher =
  pub_policy :: retry_policy
  pub_prefix :: "string option"

definition OutboxPublisher :: "retry_policy option \<Rightarrow> string option \<Rightarrow> publisher" where
  "OutboxPublisher retry_policy event_type_prefix =
     \<lparr>pub_policy = dflt DEFAULT_OUTBOX_RETRY_POLICY retry_policy, pub_prefix = event_type_prefix\<rparr>"

text \<open>The loop over the claimed records; an exception of the store leaves it.\<close>

fun publish_loop ::
  "'s outbox_api \<Rightarrow> 'k outbox_sink \<Rightarrow> publisher \<Rightarrow> (exn \<Rightarrow> string) \<Rightarrow> (nat \<Rightarrow> rat) \<Rightarrow> datetime \<Rightarrow> nat \<Rightarrow>
   outbox_record list \<Rightarrow> nat \<times> nat \<times> nat \<Rightarrow> 's \<times> 'k \<Rightarrow> (exn + nat \<times> nat \<times> nat) \<times> 's \<times> 'k" where
  "publish_loop api sink p str_exc rng now n [] counts st = (Inr counts, st)"
| "publish_loop api sink p str_exc rng now n (rec # recs) counts st =
     (case (counts, st) of ((published, retried, failed), s, k) \<Rightarrow>
      (case sink rec now k of
        (Inl e, k') \<Rightarrow>
          (let d = decision (pub_policy p) (rng n) (ob_attempts rec + 1) None (Some e) None in
           if should_retry d
           then (case ob_mark_failed api (ob_id rec) (str_exc e)
                        (Some (now + timedelta_float (dflt 0 (next_delay_seconds d)))) s of
                   (Inl e', s') \<Rightarrow> (Inl e', s', k')
                 | (Inr _, s') \<Rightarrow>
                     publish_loop api sink p str_exc rng now (Suc n) recs (published, retried + 1, failed) (s', k'))
           else (case ob_mark_failed api (ob_id rec) (str_exc e) None s of
                   (Inl e', s') \<Rightarrow> (Inl e', s', k')
                 | (Inr _, s') \<Rightarrow>
                     publish_loop api sink p str_exc rng now (Suc n) recs (published, retried, failed + 1) (s', k')))
      | (Inr _, k') \<Rightarrow>
          (case ob_mark_published api (ob_id rec) now s of
             (Inl e', s') \<Rightarrow> (Inl e', s', k')
           | (Inr _, s') \<Rightarrow>
               publish_loop api sink p str_exc rng now (Suc n) recs (published + 1, retried, failed) (s', k'))))"

definition publish_pending ::
  "'s outbox_api \<Rightarrow> 'k outbox_sink \<Rightarrow> publisher \<Rightarrow> (exn \<Rightarrow> string) \<Rightarrow> (nat \<Rightarrow> rat) \<Rightarrow> int \<Rightarrow> datetime \<Rightarrow> seconds \<Rightarrow>
   's \<times> 'k \<Rightarrow> (exn + publish_report) \<times> 's \<times> 'k" where
  "publish_pending api sink p str_exc rng limit now lock_seconds st = (case st of (s, k) \<Rightarrow>
     (if lock_seconds \<le> 0 then (Inl (ValueError ''lock_seconds must be positive''), s, k)
      else (case ob_claim_pending api limit now lock_seconds (pub_prefix p) s of
          (Inl e, s') \<Rightarrow> (Inl e, s', k)
        | (Inr recs, s') \<Rightarrow>
            (case publish_loop api sink p str_exc rng now 0 recs (0, 0, 0) (s', k) of
               (Inl e, st') \<Rightarrow> (Inl e, st')
             | (Inr (published, retried, failed), st') \<Rightarrow>
                 (Inr \<lparr>rep_total = length recs, rep_published = published, rep_retried = retried,
                       rep_failed = failed\<rparr>, st')))))"

section \<open>The contract\<close>

type_synonym event_map = "string \<Rightarrow> outbox_record option"

definition event_due :: "datetime \<Rightarrow> string option \<Rightarrow> outbox_record \<Rightarrow> bool" where
  "event_due now prefix r \<longleftrightarrow> ob_status r = OUTBOX_PENDING
     \<and> (case ob_available_at r of None \<Rightarrow> False | Some a \<Rightarrow> a \<le> now)
     \<and> (case ob_locked_until r of None \<Rightarrow> True | Some l \<Rightarrow> l \<le> now)
     \<and> (case prefix of None \<Rightarrow> True | Some p \<Rightarrow> sql_startswith p (ob_event_type r))"

definition due :: "event_map \<Rightarrow> datetime \<Rightarrow> string option \<Rightarrow> string set" where
  "due m now prefix = {i. \<exists>r. m i = Some r \<and> event_due now prefix r}"

definition event_old :: "datetime \<Rightarrow> outbox_record \<Rightarrow> bool" where
  "event_old before r \<longleftrightarrow> ob_status r = OUTBOX_PUBLISHED
     \<and> (case ob_published_at r of None \<Rightarrow> False | Some p \<Rightarrow> p < before)"

definition old_events :: "event_map \<Rightarrow> datetime \<Rightarrow> string set" where
  "old_events m before = {i. \<exists>r. m i = Some r \<and> event_old before r}"

definition new_event :: "string \<Rightarrow> datetime \<Rightarrow> string \<Rightarrow> body \<Rightarrow> body option \<Rightarrow> datetime option \<Rightarrow> outbox_record" where
  "new_event uuid now event_type payload metadata available_at =
     \<lparr>ob_id = uuid, ob_event_type = event_type, ob_payload = payload, ob_metadata = dflt [] metadata,
      ob_status = OUTBOX_PENDING, ob_attempts = 0, ob_available_at = Some (dflt now available_at),
      ob_locked_until = None, ob_published_at = None, ob_error = None\<rparr>"

definition published :: "datetime \<Rightarrow> outbox_record \<Rightarrow> outbox_record" where
  "published now r = r\<lparr>ob_status := OUTBOX_PUBLISHED, ob_published_at := Some now, ob_locked_until := None, ob_error := None\<rparr>"

definition failed :: "string \<Rightarrow> datetime option \<Rightarrow> outbox_record \<Rightarrow> outbox_record" where
  "failed err available_at r =
     r\<lparr>ob_status := (if available_at = None then OUTBOX_FAILED else OUTBOX_PENDING), ob_error := Some err,
       ob_attempts := ob_attempts r + 1, ob_locked_until := None,
       ob_available_at := (if available_at = None then ob_available_at r else available_at)\<rparr>"

definition lock_events :: "string set \<Rightarrow> datetime \<Rightarrow> event_map \<Rightarrow> event_map" where
  "lock_events S l m = (\<lambda>i. if i \<in> S then map_option (\<lambda>r. r\<lparr>ob_locked_until := Some l\<rparr>) (m i) else m i)"

locale outbox_store =
  fixes api :: "'s outbox_api" and inv :: "'s \<Rightarrow> bool" and abs :: "'s \<Rightarrow> event_map"
  assumes enqueue_law: "\<lbrakk>inv s; ob_enqueue api uuid now et pl md av s = (re, s')\<rbrakk> \<Longrightarrow> inv s' \<and>
        (if abs s uuid = None
         then re = Inr (new_event uuid now et pl md av) \<and> abs s' = (abs s)(uuid \<mapsto> new_event uuid now et pl md av)
         else (\<exists>e. re = Inl e) \<and> abs s' = abs s)"
    and claim_law: "\<lbrakk>inv s; ob_claim_pending api limit now lock prefix s = (rc, s')\<rbrakk> \<Longrightarrow> inv s' \<and>
        (if limit \<le> 0 then rc = Inl (ValueError ''limit must be positive'') \<and> abs s' = abs s
         else if lock \<le> 0 then rc = Inl (ValueError ''lock_seconds must be positive'') \<and> abs s' = abs s
         else \<exists>recs. rc = Inr recs \<and> distinct (map ob_id recs) \<and> ob_id ` set recs \<subseteq> due (abs s) now prefix
             \<and> length recs = min (nat limit) (card (due (abs s) now prefix))
             \<and> abs s' = lock_events (ob_id ` set recs) (now + timedelta_float lock) (abs s)
             \<and> (\<forall>r \<in> set recs. abs s' (ob_id r) = Some r))"
    and mark_published_law: "\<lbrakk>inv s; ob_mark_published api i now s = (ru, s')\<rbrakk> \<Longrightarrow> inv s' \<and>
        (case abs s i of None \<Rightarrow> ru = Inl (KeyError i) \<and> abs s' = abs s
         | Some r \<Rightarrow> ru = Inr () \<and> abs s' = (abs s)(i \<mapsto> published now r))"
    and mark_failed_law: "\<lbrakk>inv s; ob_mark_failed api i err av s = (ru, s')\<rbrakk> \<Longrightarrow> inv s' \<and>
        (case abs s i of None \<Rightarrow> ru = Inl (KeyError i) \<and> abs s' = abs s
         | Some r \<Rightarrow> ru = Inr () \<and> abs s' = (abs s)(i \<mapsto> failed err av r))"
    and delete_law: "\<lbrakk>inv s; ob_delete_published api before limit s = (rn, s')\<rbrakk> \<Longrightarrow> inv s' \<and>
        (if limit \<le> 0 then rn = Inl (ValueError ''limit must be positive'') \<and> abs s' = abs s
         else \<exists>S. rn = Inr (card S) \<and> S \<subseteq> old_events (abs s) before
             \<and> card S = min (nat limit) (card (old_events (abs s) before)) \<and> abs s' = (abs s) |` (- S))"
    and event_id: "\<lbrakk>inv s; abs s i = Some r\<rbrakk> \<Longrightarrow> ob_id r = i"
    and finite_events: "inv s \<Longrightarrow> finite (dom (abs s))"

section \<open>What the publisher has to do\<close>

fun run_sink :: "'k outbox_sink \<Rightarrow> datetime \<Rightarrow> outbox_record list \<Rightarrow> 'k \<Rightarrow> (exn + unit) list \<times> 'k" where
  "run_sink sink now [] k = ([], k)"
| "run_sink sink now (r # rs) k =
     (let (x, k1) = sink r now k; (xs, k2) = run_sink sink now rs k1 in (x # xs, k2))"

definition event_after ::
  "publisher \<Rightarrow> (exn \<Rightarrow> string) \<Rightarrow> rat \<Rightarrow> datetime \<Rightarrow> outbox_record \<Rightarrow> exn + unit \<Rightarrow> outbox_record" where
  "event_after p str_exc draw now r outcome = (case outcome of
      Inr _ \<Rightarrow> published now r
    | Inl e \<Rightarrow>
        (let d = decision (pub_policy p) draw (ob_attempts r + 1) None (Some e) None in
         if should_retry d then failed (str_exc e) (Some (now + timedelta_float (dflt 0 (next_delay_seconds d)))) r
         else failed (str_exc e) None r))"

fun events_after ::
  "publisher \<Rightarrow> (exn \<Rightarrow> string) \<Rightarrow> (nat \<Rightarrow> rat) \<Rightarrow> datetime \<Rightarrow> nat \<Rightarrow> outbox_record list \<Rightarrow> (exn + unit) list \<Rightarrow>
   outbox_record list" where
  "events_after p str_exc rng now n (r # rs) (x # xs) =
     event_after p str_exc (rng n) now r x # events_after p str_exc rng now (Suc n) rs xs"
| "events_after p str_exc rng now n _ _ = []"

definition with_status :: "outbox_status \<Rightarrow> outbox_record list \<Rightarrow> nat" where
  "with_status st rs = length (filter (\<lambda>r. ob_status r = st) rs)"

definition overwrite :: "outbox_record list \<Rightarrow> event_map \<Rightarrow> event_map" where
  "overwrite rs m = m ++ map_of (map (\<lambda>r. (ob_id r, r)) rs)"

lemma event_after_id [simp]: "ob_id (event_after p str_exc draw now r x) = ob_id r"
  by (simp add: event_after_def published_def failed_def Let_def split: sum.split)

lemma run_sink_length: "length (fst (run_sink sink now rs k)) = length rs"
  by (induction rs arbitrary: k) (simp_all add: Let_def split_def)

lemma events_after_ids:
  "length rs = length xs \<Longrightarrow> map ob_id (events_after p str_exc rng now n rs xs) = map ob_id rs"
  by (induction rs xs arbitrary: n rule: list_induct2) simp_all

lemma with_status_sum:
  "with_status OUTBOX_PUBLISHED rs + with_status OUTBOX_PENDING rs + with_status OUTBOX_FAILED rs = length rs"
proof (induction rs)
  case (Cons r rs)
  then show ?case by (cases "ob_status r") (simp_all add: with_status_def)
qed (simp add: with_status_def)

lemma overwrite_Cons: "ob_id r \<notin> ob_id ` set rs \<Longrightarrow> overwrite (r # rs) m = overwrite rs (m(ob_id r \<mapsto> r))"
proof -
  assume fresh: "ob_id r \<notin> ob_id ` set rs"
  have "map_of (map (\<lambda>r. (ob_id r, r)) rs) (ob_id r) = None"
    unfolding map_of_eq_None_iff using fresh by (simp add: image_comp o_def)
  then show ?thesis unfolding overwrite_def by (auto simp: map_add_def fun_eq_iff split: option.split)
qed

context outbox_store
begin

lemma publish_loop_law:
  "\<lbrakk>inv s; distinct (map ob_id recs); \<forall>r \<in> set recs. abs s (ob_id r) = Some r;
    run_sink sink now recs k = (xs, k'); evs = events_after p str_exc rng now n recs xs\<rbrakk> \<Longrightarrow>
   \<exists>s'. publish_loop api sink p str_exc rng now n recs (a, b, c) (s, k) =
      (Inr (a + with_status OUTBOX_PUBLISHED evs, b + with_status OUTBOX_PENDING evs, c + with_status OUTBOX_FAILED evs), s', k')
     \<and> inv s' \<and> abs s' = overwrite evs (abs s)"
proof (induction recs arbitrary: s k xs evs n a b c)
  case Nil
  then show ?case by (auto simp: with_status_def overwrite_def)
next
  case (Cons r recs)
  obtain x k1 where x: "sink r now k = (x, k1)" by (cases "sink r now k")
  obtain ys where ys: "run_sink sink now recs k1 = (ys, k')" "xs = x # ys"
    using Cons.prems(4) by (auto simp: x split: prod.splits)
  let ?e = "event_after p str_exc (rng n) now r x" and ?evs = "events_after p str_exc rng now (Suc n) recs ys"
  have len: "length recs = length ys" using run_sink_length [of sink now recs k1] ys(1) by simp
  have evs: "evs = ?e # ?evs" using Cons.prems(5) ys(2) by simp
  have r: "abs s (ob_id r) = Some r" using Cons.prems(3) by simp
  have fresh: "ob_id r \<notin> ob_id ` set recs" using Cons.prems(2) by auto
  have "map ob_id ?evs = map ob_id recs" using len by (rule events_after_ids)
  then have "ob_id ?e \<notin> ob_id ` set ?evs" using fresh by (metis event_after_id list.set_map)
  then have ow: "overwrite evs (abs s) = overwrite ?evs ((abs s)(ob_id r \<mapsto> ?e))"
    using overwrite_Cons [of ?e ?evs] by (simp add: evs)
  obtain a1 b1 c1 s1 where step: "publish_loop api sink p str_exc rng now n (r # recs) (a, b, c) (s, k) =
        publish_loop api sink p str_exc rng now (Suc n) recs (a1, b1, c1) (s1, k1)"
      and s1: "inv s1" "abs s1 = (abs s)(ob_id r \<mapsto> ?e)"
      and cnt: "a1 + with_status OUTBOX_PUBLISHED ?evs = a + with_status OUTBOX_PUBLISHED evs"
        "b1 + with_status OUTBOX_PENDING ?evs = b + with_status OUTBOX_PENDING evs"
        "c1 + with_status OUTBOX_FAILED ?evs = c + with_status OUTBOX_FAILED evs"
  proof (cases x)
    case (Inr u)
    obtain ru s1 where op: "ob_mark_published api (ob_id r) now s = (ru, s1)"
      by (cases "ob_mark_published api (ob_id r) now s")
    with mark_published_law [OF Cons.prems(1) op] r Inr x that [of "a + 1" b c s1] show ?thesis
      by (simp add: evs with_status_def event_after_def published_def)
  next
    case (Inl e)
    let ?d = "decision (pub_policy p) (rng n) (ob_attempts r + 1) None (Some e) None"
    let ?av = "if should_retry ?d then Some (now + timedelta_float (dflt 0 (next_delay_seconds ?d))) else None"
    obtain ru s1 where op: "ob_mark_failed api (ob_id r) (str_exc e) ?av s = (ru, s1)"
      by (cases "ob_mark_failed api (ob_id r) (str_exc e) ?av s")
    with mark_failed_law [OF Cons.prems(1) op] r Inl x
      that [of a "if should_retry ?d then b + 1 else b" "if should_retry ?d then c else c + 1" s1] show ?thesis
      by (cases "should_retry ?d") (simp_all add: evs with_status_def event_after_def failed_def Let_def)
  qed
  have "distinct (map ob_id recs)" using Cons.prems(2) by simp
  moreover have "\<forall>r' \<in> set recs. abs s1 (ob_id r') = Some r'"
  proof
    fix r' assume r': "r' \<in> set recs"
    then have "ob_id r' \<noteq> ob_id r" using fresh by (metis imageI)
    moreover have "abs s (ob_id r') = Some r'" using Cons.prems(3) r' by (meson list.set_intros(2))
    ultimately show "abs s1 (ob_id r') = Some r'" unfolding s1(2) by simp
  qed
  ultimately obtain s' where "publish_loop api sink p str_exc rng now (Suc n) recs (a1, b1, c1) (s1, k1) =
      (Inr (a1 + with_status OUTBOX_PUBLISHED ?evs, b1 + with_status OUTBOX_PENDING ?evs, c1 + with_status OUTBOX_FAILED ?evs), s', k')
     \<and> inv s' \<and> abs s' = overwrite ?evs (abs s1)"
    using Cons.IH [OF s1(1) _ _ ys(1) refl] by blast
  with step cnt ow s1(2) show ?case by auto
qed

end

section \<open>Runs of a store\<close>

datatype outbox_op =
    OEnqueue string datetime string body "body option" "datetime option"
  | OClaim int datetime seconds "string option"
  | OPublished string datetime
  | OFailed string string "datetime option"
  | ODelete datetime int

fun outbox_step :: "'s outbox_api \<Rightarrow> outbox_op \<Rightarrow> 's \<Rightarrow> 's" where
  "outbox_step api (OEnqueue uuid now et pl md av) s = snd (ob_enqueue api uuid now et pl md av s)"
| "outbox_step api (OClaim limit now lock prefix) s = snd (ob_claim_pending api limit now lock prefix s)"
| "outbox_step api (OPublished i now) s = snd (ob_mark_published api i now s)"
| "outbox_step api (OFailed i err av) s = snd (ob_mark_failed api i err av s)"
| "outbox_step api (ODelete before limit) s = snd (ob_delete_published api before limit s)"

definition outbox_run :: "'s outbox_api \<Rightarrow> outbox_op list \<Rightarrow> 's \<Rightarrow> 's" where
  "outbox_run api xs s = fold (outbox_step api) xs s"

text \<open>The operation happens before the lock ends and does not settle event \<open>i\<close>.\<close>

fun under_lock :: "string \<Rightarrow> datetime \<Rightarrow> outbox_op \<Rightarrow> bool" where
  "under_lock i lu (OClaim _ now _ _) = (now < lu)"
| "under_lock i lu (OPublished j _) = (j \<noteq> i)"
| "under_lock i lu (OFailed j _ _) = (j \<noteq> i)"
| "under_lock i lu _ = True"

context outbox_store
begin

lemma locked_step:
  assumes inv: "inv s" and r: "abs s i = Some r" "ob_status r = OUTBOX_PENDING" "ob_locked_until r = Some lu"
    and u: "under_lock i lu x"
  shows "inv (outbox_step api x s) \<and> abs (outbox_step api x s) i = Some r"
proof (cases x)
  case (OEnqueue uuid now et pl md av)
  obtain a s' where op: "ob_enqueue api uuid now et pl md av s = (a, s')" by (cases "ob_enqueue api uuid now et pl md av s")
  from enqueue_law [OF inv op] r show ?thesis by (auto simp: OEnqueue op split: if_splits)
next
  case (OClaim limit now lock prefix)
  obtain a s' where op: "ob_claim_pending api limit now lock prefix s = (a, s')" by (cases "ob_claim_pending api limit now lock prefix s")
  have "i \<notin> due (abs s) now prefix" using r u OClaim by (simp add: due_def event_due_def)
  with claim_law [OF inv op] r show ?thesis
    by (auto simp: OClaim op lock_events_def dest: subsetD [OF _ imageI] split: if_splits)
next
  case (OPublished j now)
  obtain a s' where op: "ob_mark_published api j now s = (a, s')" by (cases "ob_mark_published api j now s")
  from mark_published_law [OF inv op] r u show ?thesis by (auto simp: OPublished op split: option.splits)
next
  case (OFailed j err av)
  obtain a s' where op: "ob_mark_failed api j err av s = (a, s')" by (cases "ob_mark_failed api j err av s")
  from mark_failed_law [OF inv op] r u show ?thesis by (auto simp: OFailed op split: option.splits)
next
  case (ODelete before limit)
  obtain a s' where op: "ob_delete_published api before limit s = (a, s')" by (cases "ob_delete_published api before limit s")
  have "i \<notin> old_events (abs s) before" using r by (simp add: old_events_def event_old_def)
  with delete_law [OF inv op] r show ?thesis by (auto simp: ODelete op restrict_map_def split: if_splits)
qed

lemma locked_run:
  "\<lbrakk>inv s; abs s i = Some r; ob_status r = OUTBOX_PENDING; ob_locked_until r = Some lu; \<forall>x \<in> set xs. under_lock i lu x\<rbrakk>
   \<Longrightarrow> inv (outbox_run api xs s) \<and> abs (outbox_run api xs s) i = Some r"
proof (induction xs arbitrary: s)
  case (Cons x xs)
  from locked_step [OF Cons.prems(1-4), of x] Cons.prems(5)
  have "inv (outbox_step api x s) \<and> abs (outbox_step api x s) i = Some r" by simp
  with Cons.IH [of "outbox_step api x s"] Cons.prems(3-5) show ?case by (simp add: outbox_run_def)
qed (simp add: outbox_run_def)

lemma step_inv: "inv s \<Longrightarrow> inv (outbox_step api x s)"
  using enqueue_law claim_law mark_published_law mark_failed_law delete_law
  by (cases x) (metis outbox_step.simps surjective_pairing)+

lemma run_inv: "inv s \<Longrightarrow> inv (outbox_run api xs s)"
  by (induction xs arbitrary: s) (simp_all add: outbox_run_def step_inv)

lemma claims_disjoint:
  assumes inv: "inv s" and c1: "ob_claim_pending api limit now lock prefix s = (Inr recs, s1)"
    and i: "i \<in> ob_id ` set recs" and ops: "\<forall>x \<in> set xs. under_lock i (now + timedelta_float lock) x"
    and now: "now' < now + timedelta_float lock"
    and c2: "ob_claim_pending api limit' now' lock' prefix' (outbox_run api xs s1) = (Inr recs', s2)"
  shows "i \<notin> ob_id ` set recs'"
proof -
  from claim_law [OF inv c1] have s1: "inv s1" "i \<in> due (abs s) now prefix"
      "abs s1 = lock_events (ob_id ` set recs) (now + timedelta_float lock) (abs s)"
    using i by (auto split: if_splits)
  then obtain r where r: "abs s1 i = Some (r\<lparr>ob_locked_until := Some (now + timedelta_float lock)\<rparr>)"
      "ob_status r = OUTBOX_PENDING"
    using i by (auto simp: due_def event_due_def lock_events_def)
  have run: "inv (outbox_run api xs s1) \<and> abs (outbox_run api xs s1) i =
      Some (r\<lparr>ob_locked_until := Some (now + timedelta_float lock)\<rparr>)"
    by (rule locked_run [OF s1(1) r(1) _ _ ops]) (simp_all add: r(2))
  with now have "i \<notin> due (abs (outbox_run api xs s1)) now' prefix'"
    by (simp add: due_def event_due_def)
  with claim_law [OF conjunct1 [OF run] c2] show ?thesis by (auto split: if_splits)
qed

lemma publish_pending_law:
  assumes inv: "inv s" and pos: "0 < limit" "0 < lock"
  shows "\<exists>recs xs s' k'. fst (ob_claim_pending api limit now lock (pub_prefix p) s) = Inr recs
     \<and> distinct (map ob_id recs) \<and> ob_id ` set recs \<subseteq> due (abs s) now (pub_prefix p)
     \<and> length recs = min (nat limit) (card (due (abs s) now (pub_prefix p)))
     \<and> run_sink sink now recs k = (xs, k')
     \<and> (let evs = events_after p str_exc rng now 0 recs xs in
        publish_pending api sink p str_exc rng limit now lock (s, k) =
          (Inr \<lparr>rep_total = length recs, rep_published = with_status OUTBOX_PUBLISHED evs,
                rep_retried = with_status OUTBOX_PENDING evs, rep_failed = with_status OUTBOX_FAILED evs\<rparr>, s', k')
        \<and> length recs = with_status OUTBOX_PUBLISHED evs + with_status OUTBOX_PENDING evs + with_status OUTBOX_FAILED evs
        \<and> inv s' \<and> abs s' = overwrite evs (abs s))"
proof -
  obtain rc s1 where c: "ob_claim_pending api limit now lock (pub_prefix p) s = (rc, s1)"
    by (cases "ob_claim_pending api limit now lock (pub_prefix p) s")
  from claim_law [OF inv c] pos obtain recs where recs: "rc = Inr recs" "distinct (map ob_id recs)"
      "ob_id ` set recs \<subseteq> due (abs s) now (pub_prefix p)" "length recs = min (nat limit) (card (due (abs s) now (pub_prefix p)))"
      "abs s1 = lock_events (ob_id ` set recs) (now + timedelta_float lock) (abs s)"
      "\<forall>r \<in> set recs. abs s1 (ob_id r) = Some r" and s1: "inv s1" by (auto split: if_splits)
  obtain xs k' where xs: "run_sink sink now recs k = (xs, k')" by (cases "run_sink sink now recs k")
  let ?evs = "events_after p str_exc rng now 0 recs xs"
  obtain s' where loop: "publish_loop api sink p str_exc rng now 0 recs (0, 0, 0) (s1, k) =
      (Inr (with_status OUTBOX_PUBLISHED ?evs, with_status OUTBOX_PENDING ?evs, with_status OUTBOX_FAILED ?evs), s', k')"
    and s': "inv s'" "abs s' = overwrite ?evs (abs s1)"
    using publish_loop_law [OF s1 recs(2,6) xs refl, of p str_exc rng 0 0 0 0] by auto
  have len: "length recs = length xs" using run_sink_length [of sink now recs k] xs by simp
  have ids: "map ob_id ?evs = map ob_id recs" using len by (rule events_after_ids)
  then have "ob_id ` set ?evs = ob_id ` set recs" by (metis list.set_map)
  then have "overwrite ?evs (abs s1) = overwrite ?evs (abs s)"
    unfolding overwrite_def recs(5) lock_events_def
    by (auto simp: fun_eq_iff map_add_def map_of_eq_None_iff image_comp o_def split: option.split)
  moreover have "length ?evs = length recs" using ids by (metis length_map)
  ultimately show ?thesis
    using c recs(1-4) xs loop s' pos with_status_sum [of ?evs] by (simp add: publish_pending_def Let_def)
qed

end

section \<open>The Postgres store fulfils the contract\<close>

definition pg_outbox_inv :: "pg_outbox \<Rightarrow> bool" where
  "pg_outbox_inv s \<longleftrightarrow> distinct (map or_id s)"

definition pg_outbox_abs :: "pg_outbox \<Rightarrow> event_map" where
  "pg_outbox_abs s = tab or_id outbox_to_record s"

lemma pg_outbox_inv_empty: "pg_outbox_inv []"
  by (simp add: pg_outbox_inv_def)

lemma outbox_row_sel [simp]:
  "ob_id (outbox_to_record r) = or_id r" "event_due now prefix (outbox_to_record r) = row_due now prefix r"
  "event_old before (outbox_to_record r) = row_old before r"
  by (simp_all add: outbox_to_record_def event_due_def row_due_def event_old_def row_old_def split: option.split)

lemma pgo_enqueue_law:
  assumes inv: "pg_outbox_inv s" and op: "pgo_enqueue uuid now et pl md av s = (re, s')"
  shows "pg_outbox_inv s' \<and>
     (if pg_outbox_abs s uuid = None
      then re = Inr (new_event uuid now et pl md av) \<and> pg_outbox_abs s' = (pg_outbox_abs s)(uuid \<mapsto> new_event uuid now et pl md av)
      else (\<exists>e. re = Inl e) \<and> pg_outbox_abs s' = pg_outbox_abs s)"
proof -
  let ?row = "new_outbox_row uuid now et pl md av"
  have rec: "outbox_to_record ?row = new_event uuid now et pl md av" "or_id ?row = uuid"
    by (simp_all add: outbox_to_record_def new_outbox_row_def new_event_def)
  show ?thesis
  proof (cases "pg_outbox_abs s uuid")
    case None
    then have no: "\<forall>r \<in> set s. or_id r \<noteq> or_id ?row" by (simp add: pg_outbox_abs_def tab_none rec)
    then have "re = Inr (new_event uuid now et pl md av)" "s' = s @ [?row]"
      using op by (auto simp: pgo_enqueue_def insert_outbox_row_def rec)
    with None tab_insert [OF no, of outbox_to_record] inv no show ?thesis
      by (auto simp: pg_outbox_abs_def pg_outbox_inv_def rec)
  next
    case (Some r)
    then have "\<exists>x \<in> set s. or_id x = or_id ?row" using tab_some by (fastforce simp: pg_outbox_abs_def rec)
    with Some op inv show ?thesis by (auto simp: pgo_enqueue_def insert_outbox_row_def)
  qed
qed

lemma pending_stmt_set:
  assumes inv: "pg_outbox_inv s" and D_def: "D = due (pg_outbox_abs s) now prefix"
  shows "set (pending_stmt limit now prefix s) \<subseteq> set s" "distinct (map or_id (pending_stmt limit now prefix s))"
    and "or_id ` set (pending_stmt limit now prefix s) \<subseteq> D"
    and "length (pending_stmt limit now prefix s) = min (nat limit) (card D)"
proof -
  let ?E = "filter (row_due now prefix) s"
  let ?L = "sort_key or_available_at (sort_key or_created_at ?E)"
  have D: "D = or_id ` set ?E"
    unfolding D_def due_def pg_outbox_abs_def
    by (rule tab_where) (use inv in \<open>simp_all add: pg_outbox_inv_def\<close>)
  have dE: "distinct (map or_id ?E)" using inv by (simp add: pg_outbox_inv_def distinct_map_filter)
  then have dL: "distinct (map or_id ?L)" by (simp add: distinct_map)
  show "set (pending_stmt limit now prefix s) \<subseteq> set s"
    by (auto simp: pending_stmt_def dest!: in_set_takeD)
  show "distinct (map or_id (pending_stmt limit now prefix s))"
    unfolding pending_stmt_def using dL by (metis distinct_take take_map)
  show "or_id ` set (pending_stmt limit now prefix s) \<subseteq> D"
    unfolding D pending_stmt_def by (auto dest!: in_set_takeD)
  have "card D = length ?E" unfolding D using distinct_card [OF dE] by simp
  then show "length (pending_stmt limit now prefix s) = min (nat limit) (card D)"
    by (simp add: pending_stmt_def)
qed

lemma pgo_claim_law:
  assumes inv: "pg_outbox_inv s" and op: "pgo_claim_pending limit now lock prefix s = (rc, s')"
  shows "pg_outbox_inv s' \<and>
     (if limit \<le> 0 then rc = Inl (ValueError ''limit must be positive'') \<and> pg_outbox_abs s' = pg_outbox_abs s
      else if lock \<le> 0 then rc = Inl (ValueError ''lock_seconds must be positive'') \<and> pg_outbox_abs s' = pg_outbox_abs s
      else \<exists>recs. rc = Inr recs \<and> distinct (map ob_id recs) \<and> ob_id ` set recs \<subseteq> due (pg_outbox_abs s) now prefix
          \<and> length recs = min (nat limit) (card (due (pg_outbox_abs s) now prefix))
          \<and> pg_outbox_abs s' = lock_events (ob_id ` set recs) (now + timedelta_float lock) (pg_outbox_abs s)
          \<and> (\<forall>r \<in> set recs. pg_outbox_abs s' (ob_id r) = Some r))"
proof (cases "limit \<le> 0 \<or> lock \<le> 0")
  case True
  with inv op show ?thesis by (auto simp: pgo_claim_pending_def)
next
  case False
  let ?rows = "pending_stmt limit now prefix s" and ?l = "now + timedelta_float lock"
  let ?f = "\<lambda>r. r\<lparr>or_locked_until := Some ?l\<rparr>"
  let ?recs = "map (outbox_to_record \<circ> ?f) ?rows"
  let ?s = "map (\<lambda>r. if or_id r \<in> or_id ` set ?rows then ?f r else r) s"
  note rows = pending_stmt_set [OF inv refl, of limit now prefix]
  have res: "rc = Inr ?recs" "s' = ?s" using op False by (auto simp: pgo_claim_pending_def sql_update_def Let_def)
  have ids: "map ob_id ?recs = map or_id ?rows" by simp
  then have idset: "ob_id ` set ?recs = or_id ` set ?rows" by (metis list.set_map)
  have keys: "map or_id ?s = map or_id s" by (rule tab_update_keys) simp
  have inv': "pg_outbox_inv s'" using inv keys unfolding res(2) pg_outbox_inv_def by (simp only:)
  have abs': "pg_outbox_abs s' = lock_events (ob_id ` set ?recs) ?l (pg_outbox_abs s)"
    unfolding res(2) idset lock_events_def pg_outbox_abs_def
    by (rule tab_update) (simp_all add: outbox_to_record_def)
  have "pg_outbox_abs s' (ob_id r) = Some r" if "r \<in> set ?recs" for r
  proof -
    from that obtain x where x: "x \<in> set ?rows" "r = outbox_to_record (?f x)" by auto
    have "pg_outbox_abs s (or_id x) = Some (outbox_to_record x)"
      unfolding pg_outbox_abs_def using tab_row [of or_id s x outbox_to_record] inv rows(1) x(1)
      by (auto simp: pg_outbox_inv_def)
    moreover have "or_id x \<in> ob_id ` set ?recs" unfolding idset using x(1) by (rule imageI)
    ultimately show ?thesis unfolding abs' lock_events_def x(2) by (simp add: outbox_to_record_def)
  qed
  moreover have "length ?recs = min (nat limit) (card (due (pg_outbox_abs s) now prefix))" using rows(4) by simp
  ultimately show ?thesis using False inv' abs' rows(2,3) ids idset res(1) by (metis not_le)
qed

lemma outbox_update_law:
  assumes inv: "pg_outbox_inv s" and op: "outbox_update i f s = (ru, s')"
    and f: "\<And>r. or_id (f r) = or_id r" "\<And>r. outbox_to_record (f r) = g (outbox_to_record r)"
  shows "pg_outbox_inv s' \<and>
     (case pg_outbox_abs s i of None \<Rightarrow> ru = Inl (KeyError i) \<and> pg_outbox_abs s' = pg_outbox_abs s
      | Some r \<Rightarrow> ru = Inr () \<and> pg_outbox_abs s' = (pg_outbox_abs s)(i \<mapsto> g r))"
proof -
  have "distinct (map or_id s)" using inv by (simp add: pg_outbox_inv_def)
  from sql_update_key [where val = outbox_to_record and f = f and g = g, OF this f, of i] op inv show ?thesis
    by (cases "sql_update (\<lambda>r. or_id r = i) f s")
      (auto simp: outbox_update_def pg_outbox_abs_def pg_outbox_inv_def split: option.splits if_splits)
qed

lemma pgo_mark_published_law:
  "\<lbrakk>pg_outbox_inv s; pgo_mark_published i now s = (ru, s')\<rbrakk> \<Longrightarrow> pg_outbox_inv s' \<and>
     (case pg_outbox_abs s i of None \<Rightarrow> ru = Inl (KeyError i) \<and> pg_outbox_abs s' = pg_outbox_abs s
      | Some r \<Rightarrow> ru = Inr () \<and> pg_outbox_abs s' = (pg_outbox_abs s)(i \<mapsto> published now r))"
  unfolding pgo_mark_published_def
  by (rule outbox_update_law, assumption, assumption) (simp_all add: outbox_to_record_def published_def)

lemma pgo_mark_failed_law:
  "\<lbrakk>pg_outbox_inv s; pgo_mark_failed i err av s = (ru, s')\<rbrakk> \<Longrightarrow> pg_outbox_inv s' \<and>
     (case pg_outbox_abs s i of None \<Rightarrow> ru = Inl (KeyError i) \<and> pg_outbox_abs s' = pg_outbox_abs s
      | Some r \<Rightarrow> ru = Inr () \<and> pg_outbox_abs s' = (pg_outbox_abs s)(i \<mapsto> failed err av r))"
  unfolding pgo_mark_failed_def
  by (rule outbox_update_law, assumption, assumption)
    (simp_all add: outbox_to_record_def failed_def Let_def split: option.split)

lemma pgo_delete_law:
  assumes pick: "limit_ok pick" and inv: "pg_outbox_inv s" and op: "pgo_delete_published pick before limit s = (rn, s')"
  shows "pg_outbox_inv s' \<and>
     (if limit \<le> 0 then rn = Inl (ValueError ''limit must be positive'') \<and> pg_outbox_abs s' = pg_outbox_abs s
      else \<exists>S. rn = Inr (card S) \<and> S \<subseteq> old_events (pg_outbox_abs s) before
          \<and> card S = min (nat limit) (card (old_events (pg_outbox_abs s) before)) \<and> pg_outbox_abs s' = (pg_outbox_abs s) |` (- S))"
proof (cases "limit \<le> 0")
  case True
  with inv op show ?thesis by (simp add: pgo_delete_published_def)
next
  case False
  let ?S = "or_id ` set (pick (nat limit) (filter (row_old before) s))"
  have d: "distinct (map or_id s)" using inv by (simp add: pg_outbox_inv_def)
  have old: "old_events (pg_outbox_abs s) before = or_id ` set (filter (row_old before) s)"
    unfolding old_events_def pg_outbox_abs_def by (rule tab_where [OF d]) simp
  note del = bounded_delete [OF pick d refl, of "nat limit" "row_old before"]
  have res: "rn = Inr (card ?S)" "s' = filter (\<lambda>r. or_id r \<notin> ?S) s"
    using op False del(3) by (auto simp: pgo_delete_published_def sql_delete_def Let_def)
  have "pg_outbox_abs s' = (pg_outbox_abs s) |` (- ?S)"
    unfolding res(2) pg_outbox_abs_def by (rule tab_delete)
  moreover have "pg_outbox_inv s'" unfolding res(2) pg_outbox_inv_def by (rule del(4))
  ultimately show ?thesis using False res(1) del(1,2) unfolding old by metis
qed

lemma pg_outbox_api_sel:
  "ob_enqueue (pg_outbox_api pick) = pgo_enqueue" "ob_claim_pending (pg_outbox_api pick) = pgo_claim_pending"
  "ob_mark_published (pg_outbox_api pick) = pgo_mark_published" "ob_mark_failed (pg_outbox_api pick) = pgo_mark_failed"
  "ob_delete_published (pg_outbox_api pick) = pgo_delete_published pick"
  by (simp_all add: pg_outbox_api_def)

lemma pg_outbox_store: "limit_ok pick \<Longrightarrow> outbox_store (pg_outbox_api pick) pg_outbox_inv pg_outbox_abs"
proof (unfold_locales, unfold pg_outbox_api_sel, goal_cases)
  case (5 s before limit rn s')
  then show ?case by (rule pgo_delete_law)
next
  case (6 s i r)
  then show ?case using tab_some by (fastforce simp: pg_outbox_abs_def)
next
  case (7 s)
  show ?case unfolding pg_outbox_abs_def by (rule tab_finite)
qed (rule pgo_enqueue_law pgo_claim_law pgo_mark_published_law pgo_mark_failed_law; assumption)+

interpretation pg_outbox: outbox_store "pg_outbox_api take" pg_outbox_inv pg_outbox_abs
  by (rule pg_outbox_store [OF limit_ok_take])

section \<open>Properties\<close>

abbreviation outbox_history :: "outbox_op list \<Rightarrow> pg_outbox" where
  "outbox_history ys \<equiv> outbox_run (pg_outbox_api take) ys []"

lemma outbox_history_inv: "pg_outbox_inv (outbox_history ys)"
  by (rule pg_outbox.run_inv [OF pg_outbox_inv_empty])

text \<open>
  C22. No event is handed to two relays at once: after any history of the store, when a relay claims
  a batch, no claim by any relay before the lock ends returns an event of that batch, whatever
  operations come between, as long as they do not settle that event.
\<close>

theorem outbox_claims_disjoint:
  assumes "pgo_claim_pending limit now lock prefix (outbox_history ys) = (Inr recs, s1)"
    and "i \<in> ob_id ` set recs" and "\<forall>x \<in> set xs. under_lock i (now + timedelta_float lock) x"
    and "now' < now + timedelta_float lock"
    and "pgo_claim_pending limit' now' lock' prefix' (outbox_run (pg_outbox_api take) xs s1) = (Inr recs', s2)"
  shows "i \<notin> ob_id ` set recs'"
  using pg_outbox.claims_disjoint [unfolded pg_outbox_api_sel, OF outbox_history_inv] assms by blast

definition two_events :: "outbox_op list" where
  "two_events = [OEnqueue ''e1'' 0 ''task.completion'' [] None None, OEnqueue ''e2'' 1 ''audit'' [] None None]"

theorem outbox_claims_disjoint_witness:
  "let s1 = snd (pgo_claim_pending 1 5 60 None (outbox_history two_events)) in
   \<exists>recs'. fst (pgo_claim_pending 9 6 60 None (outbox_run (pg_outbox_api take) [OPublished ''e2'' 6] s1)) = Inr recs'
     \<and> ''e1'' \<notin> ob_id ` set recs'"
proof -
  let ?c = "pgo_claim_pending 1 5 60 None (outbox_history two_events)"
  let ?d = "pgo_claim_pending 9 6 60 None (outbox_run (pg_outbox_api take) [OPublished ''e2'' 6] (snd ?c))"
  define recs where "recs = projr (fst ?c)"
  define recs' where "recs' = projr (fst ?d)"
  have "map ob_id (projr (fst ?c)) = [''e1'']" "\<not> isl (fst ?c)" "\<not> isl (fst ?d)" by code_simp+
  then have c: "fst ?c = Inr recs" "map ob_id recs = [''e1'']" and d: "fst ?d = Inr recs'"
    by (simp_all add: recs_def recs'_def)
  have pair: "x = (r, snd x)" if "fst x = r" for x :: "(exn + outbox_record list) \<times> pg_outbox" and r
    using that by (metis surjective_pairing)
  have mem: "''e1'' \<in> ob_id ` set recs" unfolding list.set_map [symmetric] c(2) by simp
  have now: "(6::int) < 5 + timedelta_float 60" by code_simp
  have "\<forall>x \<in> set [OPublished ''e2'' 6]. under_lock ''e1'' (5 + timedelta_float 60) x" by simp
  from outbox_claims_disjoint [OF pair [OF c(1)] mem this now pair [OF d]]
  have "''e1'' \<notin> ob_id ` set recs'" .
  with d show ?thesis by (simp add: Let_def)
qed

text \<open>
  A relay round settles exactly what it claims: after any history, \<open>publish_pending\<close> claims as
  many due events of its family as the limit allows, hands each to the sink once and in order, and
  leaves each as the sink's answer says (published, to be retried later, or failed), every other
  event as it was. The report's counts are those of the outcomes and add up to its total.
\<close>

theorem publish_pending_settles:
  assumes "0 < limit" "0 < lock"
  shows "\<exists>recs xs s' k'. fst (pgo_claim_pending limit now lock (pub_prefix p) (outbox_history ys)) = Inr recs
     \<and> distinct (map ob_id recs) \<and> ob_id ` set recs \<subseteq> due (pg_outbox_abs (outbox_history ys)) now (pub_prefix p)
     \<and> length recs = min (nat limit) (card (due (pg_outbox_abs (outbox_history ys)) now (pub_prefix p)))
     \<and> run_sink sink now recs k = (xs, k')
     \<and> (let evs = events_after p str_exc rng now 0 recs xs in
        publish_pending (pg_outbox_api take) sink p str_exc rng limit now lock (outbox_history ys, k) =
          (Inr \<lparr>rep_total = length recs, rep_published = with_status OUTBOX_PUBLISHED evs,
                rep_retried = with_status OUTBOX_PENDING evs, rep_failed = with_status OUTBOX_FAILED evs\<rparr>, s', k')
        \<and> length recs = with_status OUTBOX_PUBLISHED evs + with_status OUTBOX_PENDING evs + with_status OUTBOX_FAILED evs
        \<and> pg_outbox_abs s' = overwrite evs (pg_outbox_abs (outbox_history ys)))"
  using pg_outbox.publish_pending_law [unfolded pg_outbox_api_sel, OF outbox_history_inv assms, where sink = sink and k = k and p = p]
  unfolding Let_def by blast

theorem publish_pending_settles_witness:
  "\<exists>recs xs s' k'. fst (pgo_claim_pending 5 9 60 None (outbox_history two_events)) = Inr recs
     \<and> run_sink (\<lambda>r now k. (if ob_id r = ''e1'' then Inl TimeoutError else Inr (), k + 1)) 9 recs (0::nat) = (xs, k')
     \<and> (let evs = events_after (OutboxPublisher None None) (\<lambda>_. ''down'') (\<lambda>_. 1) 9 0 recs xs in
        fst (publish_pending (pg_outbox_api take) (\<lambda>r now k. (if ob_id r = ''e1'' then Inl TimeoutError else Inr (), k + 1))
          (OutboxPublisher None None) (\<lambda>_. ''down'') (\<lambda>_. 1) 5 9 60 (outbox_history two_events, 0::nat)) =
        Inr \<lparr>rep_total = length recs, rep_published = with_status OUTBOX_PUBLISHED evs,
                rep_retried = with_status OUTBOX_PENDING evs, rep_failed = with_status OUTBOX_FAILED evs\<rparr>)"
proof -
  let ?sink = "\<lambda>r now k. (if ob_id r = ''e1'' then Inl TimeoutError else Inr (), k + 1)"
  let ?p = "OutboxPublisher None None"
  have p: "pub_prefix ?p = None" by (simp add: OutboxPublisher_def)
  obtain recs xs s' k' where c: "fst (pgo_claim_pending 5 9 60 None (outbox_history two_events)) = Inr recs"
    and r: "run_sink ?sink 9 recs (0::nat) = (xs, k')"
    and eq: "let evs = events_after ?p (\<lambda>_. ''down'') (\<lambda>_. 1) 9 0 recs xs in
      publish_pending (pg_outbox_api take) ?sink ?p (\<lambda>_. ''down'') (\<lambda>_. 1) 5 9 60 (outbox_history two_events, 0::nat) =
        (Inr \<lparr>rep_total = length recs, rep_published = with_status OUTBOX_PUBLISHED evs,
                rep_retried = with_status OUTBOX_PENDING evs, rep_failed = with_status OUTBOX_FAILED evs\<rparr>, s', k')"
    using publish_pending_settles [of 5 60 9 ?p two_events ?sink "0::nat" "\<lambda>_. ''down''" "\<lambda>_. 1"]
    unfolding p Let_def by auto
  show ?thesis by (intro exI conjI, rule c, rule r) (use eq in \<open>simp only: Let_def fst_conv\<close>)
qed

text \<open>
  The default relay gives up on an event only when its attempts are spent: what an event becomes
  after the sink's answer is published exactly on success; on any error it stays pending, with one
  more attempt and not before now, while fewer than three attempts have been made, and fails for good
  at the third.
\<close>

theorem outbox_gives_up_only_exhausted:
  assumes draw: "0 \<le> draw" "draw < 1"
  shows "let r' = event_after (OutboxPublisher None prefix) str_exc draw now r outcome in
     (case outcome of
        Inr _ \<Rightarrow> ob_status r' = OUTBOX_PUBLISHED \<and> ob_published_at r' = Some now \<and> ob_attempts r' = ob_attempts r
      | Inl e \<Rightarrow> ob_attempts r' = ob_attempts r + 1 \<and> ob_error r' = Some (str_exc e)
          \<and> (if ob_attempts r' < 3
             then ob_status r' = OUTBOX_PENDING
                \<and> (\<exists>a. ob_available_at r' = Some a \<and> now \<le> a \<and> a \<le> now + timedelta 30)
             else ob_status r' = OUTBOX_FAILED))
     \<and> ob_locked_until r' = None \<and> ob_payload r' = ob_payload r"
proof (cases outcome)
  case (Inr u)
  then show ?thesis by (simp add: event_after_def published_def)
next
  case (Inl e)
  let ?p = DEFAULT_OUTBOX_RETRY_POLICY
  let ?d = "decision ?p draw (ob_attempts r + 1) None (Some e) None"
  have p: "RetryPolicy ?p = Inr ?p" "max_attempts ?p = 3" "max_delay_seconds ?p = 30" "retry_exceptions ?p" "retry_on ?p e"
    by (simp_all add: RetryPolicy_def DEFAULT_OUTBOX_RETRY_POLICY_def default_retry_policy_def retry_any_error_def)
  have retry: "should_retry ?d \<longleftrightarrow> ob_attempts r + 1 < 3" by (simp add: decision_retries_iff p)
  have delay: "0 \<le> d \<and> d \<le> of_int 30" if d: "next_delay_seconds ?d = Some d" for d
  proof -
    have "should_retry ?d" using d by (auto simp: decision_def no_retry_def split: if_splits)
    then obtain h where "d = policy_delay ?p draw (ob_attempts r + 1) h" using decision_delay [of ?p draw "ob_attempts r + 1" None "Some e" None] d by auto
    with policy_delay_bounds [OF p(1) draw] show ?thesis by (simp add: p(3))
  qed
  let ?x = "dflt 0 (next_delay_seconds ?d)"
  have "0 \<le> ?x \<and> ?x \<le> of_int 30" using delay by (cases "next_delay_seconds ?d") (simp_all add: dflt_def)
  then have "0 \<le> timedelta_float ?x" "timedelta_float ?x \<le> timedelta 30"
    by (blast intro: timedelta_float_nonneg timedelta_float_le)+
  then show ?thesis
    unfolding Let_def using Inl retry
    by (simp add: event_after_def failed_def OutboxPublisher_def Let_def dflt_def)
qed

theorem outbox_gives_up_only_exhausted_witness:
  "ob_status (event_after (OutboxPublisher None None) (\<lambda>_. ''down'') (1/2) 9 (new_event ''e1'' 0 ''t'' [] None None) (Inl TimeoutError)) = OUTBOX_PENDING"
  using outbox_gives_up_only_exhausted [of "1/2" None "\<lambda>_. ''down''" 9 "new_event ''e1'' 0 ''t'' [] None None" "Inl TimeoutError"]
  by (simp add: Let_def new_event_def)

end
