(* ===== verification/Webhooks.thy ===== *)
theory Webhooks
  imports Outbox Py_Datetime
begin

text \<open>
  Signed webhook delivery (\<open>src/app/modules/messaging/webhooks/\<close>: \<open>signing.py\<close>, \<open>envelope.py\<close>,
  \<open>dispatcher.py\<close>) and the outbox sink over it (\<open>WebhookOutboxSink\<close> of \<open>outbox/publisher.py\<close>).

  Text is taken as its UTF-8 bytes. The keyed digest (HMAC-SHA-256, in hex), JSON serialisation and
  the HTTP client are arguments: the client maps a request to a status or an exception, a timeout of
  \<open>wait_for\<close> included, and acts on a state of its own.
\<close>

section \<open>Signing\<close>

record signer =
  sg_secret :: string
  sg_tolerance_seconds :: int

definition WebhookSigner :: "string \<Rightarrow> int \<Rightarrow> exn + signer" where
  "WebhookSigner secret tolerance_seconds =
     (if secret = '''' then Inl (ValueError ''secret is required'')
      else if tolerance_seconds \<le> 0 then Inl (ValueError ''tolerance_seconds must be positive'')
      else Inr \<lparr>sg_secret = secret, sg_tolerance_seconds = tolerance_seconds\<rparr>)"

definition signed_payload :: "string \<Rightarrow> int \<Rightarrow> string" where
  "signed_payload payload timestamp = int_str timestamp @ ''.'' @ payload"

definition sign :: "(string \<Rightarrow> string \<Rightarrow> string) \<Rightarrow> signer \<Rightarrow> string \<Rightarrow> int \<Rightarrow> string" where
  "sign hmac_hex sg payload timestamp =
     ''v1='' @ hmac_hex (sg_secret sg) (signed_payload payload timestamp)"

definition verify :: "(string \<Rightarrow> string \<Rightarrow> string) \<Rightarrow> signer \<Rightarrow> string \<Rightarrow> string \<Rightarrow> int \<Rightarrow> int \<Rightarrow> bool" where
  "verify hmac_hex sg payload signature timestamp now =
     (if \<bar>now - timestamp\<bar> > sg_tolerance_seconds sg then False
      else sign hmac_hex sg payload timestamp = signature)"

section \<open>Delivery\<close>

record webhook_envelope =
  we_id :: string
  we_type :: string
  we_occurred_at :: datetime
  we_payload :: body
  we_metadata :: body

definition to_payload :: "webhook_envelope \<Rightarrow> body" where
  "to_payload e = [(''id'', JStr (we_id e)), (''type'', JStr (we_type e)),
     (''occurred_at'', JStr (isoformat (we_occurred_at e))), (''payload'', JObj (we_payload e)),
     (''metadata'', JObj (we_metadata e))]"

definition DEFAULT_WEBHOOK_RETRY_POLICY :: retry_policy where
  "DEFAULT_WEBHOOK_RETRY_POLICY = default_retry_policy\<lparr>max_attempts := 3,
     retry_status_codes := [408, 429, 500, 502, 503, 504], retry_exceptions := True,
     base_delay_seconds := 1, max_delay_seconds := 30\<rparr>"

record delivery_result =
  dr_status_code :: "int option"
  dr_error :: "string option"

definition succeeded :: "delivery_result \<Rightarrow> bool" where
  "succeeded r = (case dr_status_code r of None \<Rightarrow> False | Some c \<Rightarrow> 200 \<le> c \<and> c < 300)"

record http_request =
  hr_url :: string
  hr_content :: string
  hr_headers :: "(string, string) dict"

type_synonym 'c http_client = "http_request \<Rightarrow> 'c \<Rightarrow> (exn + int) \<times> 'c"

definition webhook_request ::
  "(string \<Rightarrow> string \<Rightarrow> string) \<Rightarrow> (json \<Rightarrow> string) \<Rightarrow> signer \<Rightarrow> int \<Rightarrow> string \<Rightarrow> webhook_envelope \<Rightarrow> http_request" where
  "webhook_request hmac_hex dumps sg timestamp url e =
     (let content = dumps (JObj (to_payload e)) in
      \<lparr>hr_url = url, hr_content = content,
       hr_headers = [(''content-type'', ''application/json''), (''x-webhook-timestamp'', int_str timestamp),
                     (''x-webhook-signature'', sign hmac_hex sg content timestamp)]\<rparr>)"

definition webhook_dispatch ::
  "(string \<Rightarrow> string \<Rightarrow> string) \<Rightarrow> (json \<Rightarrow> string) \<Rightarrow> (exn \<Rightarrow> string) \<Rightarrow> 'c http_client \<Rightarrow> signer \<Rightarrow> int \<Rightarrow> string \<Rightarrow>
   webhook_envelope \<Rightarrow> 'c \<Rightarrow> delivery_result \<times> 'c" where
  "webhook_dispatch hmac_hex dumps str_exc post sg timestamp url e c =
     (case post (webhook_request hmac_hex dumps sg timestamp url e) c of
        (Inl TimeoutError, c') \<Rightarrow> (\<lparr>dr_status_code = None, dr_error = Some ''Webhook dispatch timed out''\<rparr>, c')
      | (Inl x, c') \<Rightarrow> (\<lparr>dr_status_code = None, dr_error = Some (str_exc x)\<rparr>, c')
      | (Inr code, c') \<Rightarrow> (\<lparr>dr_status_code = Some code, dr_error = None\<rparr>, c'))"

text \<open>\<open>f"HTTP {result.status_code}"\<close>; an empty error text falls through to it.\<close>

definition failure_reason :: "delivery_result \<Rightarrow> string" where
  "failure_reason r = py_or (dr_error r)
     (''HTTP '' @ (case dr_status_code r of None \<Rightarrow> ''None'' | Some c \<Rightarrow> int_str c))"

definition webhook_sink ::
  "(string \<Rightarrow> string \<Rightarrow> string) \<Rightarrow> (json \<Rightarrow> string) \<Rightarrow> (exn \<Rightarrow> string) \<Rightarrow> 'c http_client \<Rightarrow> signer \<Rightarrow> int \<Rightarrow> string \<Rightarrow>
   'c outbox_sink" where
  "webhook_sink hmac_hex dumps str_exc post sg timestamp url r now c =
     (let (res, c') = webhook_dispatch hmac_hex dumps str_exc post sg timestamp url
            \<lparr>we_id = ob_id r, we_type = ob_event_type r, we_occurred_at = now, we_payload = ob_payload r,
             we_metadata = ob_metadata r\<rparr> c in
      if succeeded res then (Inr (), c') else (Inl (RuntimeError (failure_reason res)), c'))"

section \<open>Properties\<close>

lemma signed_payload_inject:
  "signed_payload p t = signed_payload p' t' \<longleftrightarrow> p = p' \<and> t = t'"
proof
  assume "signed_payload p t = signed_payload p' t'"
  then have eq: "int_str t @ CHR ''.'' # p = int_str t' @ CHR ''.'' # p'" by (simp add: signed_payload_def)
  have "takeWhile ((\<noteq>) CHR ''.'') (int_str u @ CHR ''.'' # q) = int_str u" for u q
    using int_str_no_dot [of u] by (subst takeWhile_append2) auto
  with eq have "int_str t = int_str t'" by metis
  with eq show "p = p' \<and> t = t'" by simp
qed simp

text \<open>
  A signature binds the payload and its time stamp: what \<open>sign\<close> produced for one payload and time
  verifies for another exactly when both are the same and the receiver's clock is within the
  tolerance. The only assumption is that the digest does not collide on the two signed texts.
\<close>

theorem signature_binds_payload_and_time:
  assumes "WebhookSigner secret tolerance = Inr sg"
    and "hmac_hex secret (signed_payload p t) = hmac_hex secret (signed_payload p' t') \<Longrightarrow>
       signed_payload p t = signed_payload p' t'"
  shows "verify hmac_hex sg p' (sign hmac_hex sg p t) t' now \<longleftrightarrow> p' = p \<and> t' = t \<and> \<bar>now - t\<bar> \<le> tolerance"
proof -
  have sg: "sg_secret sg = secret" "sg_tolerance_seconds sg = tolerance"
    using assms(1) by (auto simp: WebhookSigner_def split: if_splits)
  from assms(2) have "hmac_hex secret (signed_payload p t) = hmac_hex secret (signed_payload p' t') \<longleftrightarrow> p' = p \<and> t' = t"
    unfolding signed_payload_inject by blast
  then show ?thesis unfolding verify_def sign_def sg by (metis same_append_eq not_le)
qed

theorem signature_binds_payload_and_time_witness:
  "\<exists>sg. WebhookSigner ''key'' 300 = Inr sg
     \<and> verify (\<lambda>k m. k @ m) sg ''body'' (sign (\<lambda>k m. k @ m) sg ''body'' 1000) 1000 1200
     \<and> \<not> verify (\<lambda>k m. k @ m) sg ''other'' (sign (\<lambda>k m. k @ m) sg ''body'' 1000) 1000 1200
     \<and> \<not> verify (\<lambda>k m. k @ m) sg ''body'' (sign (\<lambda>k m. k @ m) sg ''body'' 1000) 1000 1301"
proof -
  let ?sg = "\<lparr>sg_secret = ''key'', sg_tolerance_seconds = 300\<rparr>"
  have sg: "WebhookSigner ''key'' 300 = Inr ?sg" by (simp add: WebhookSigner_def)
  have b: "verify (\<lambda>k m. k @ m) ?sg p' (sign (\<lambda>k m. k @ m) ?sg p t) t' now \<longleftrightarrow> p' = p \<and> t' = t \<and> \<bar>now - t\<bar> \<le> 300"
    for p' p t' t now
    by (rule signature_binds_payload_and_time [OF sg]) simp
  show ?thesis by (rule exI [of _ ?sg]) (simp only: sg b, simp)
qed

text \<open>
  The webhook sink reports an event as published exactly when the endpoint answered with a 2xx
  status, and fails with a reason otherwise, a time-out and any other error of the client included.
  The one request it sends carries a time stamp and a signature that the receiver's \<open>verify\<close> accepts
  within its tolerance.
\<close>

theorem webhook_sink_outcome:
  assumes "WebhookSigner secret tolerance = Inr sg"
  shows "let e = \<lparr>we_id = ob_id r, we_type = ob_event_type r, we_occurred_at = now, we_payload = ob_payload r,
             we_metadata = ob_metadata r\<rparr>;
           req = webhook_request hmac_hex dumps sg timestamp url e; (answer, c') = post req c;
           (outcome, c'') = webhook_sink hmac_hex dumps str_exc post sg timestamp url r now c in
     c'' = c' \<and> (outcome = Inr () \<longleftrightarrow> (\<exists>code. answer = Inr code \<and> 200 \<le> code \<and> code < 300))
     \<and> (\<forall>x. outcome = Inl x \<longrightarrow> (\<exists>reason. reason \<noteq> '''' \<and> x = RuntimeError reason))
     \<and> (\<exists>ts sig. map_of (hr_headers req) ''x-webhook-timestamp'' = Some (int_str ts)
          \<and> map_of (hr_headers req) ''x-webhook-signature'' = Some sig
          \<and> (\<forall>clock. verify hmac_hex sg (hr_content req) sig ts clock \<longleftrightarrow> \<bar>clock - ts\<bar> \<le> tolerance))"
proof -
  let ?e = "\<lparr>we_id = ob_id r, we_type = ob_event_type r, we_occurred_at = now, we_payload = ob_payload r,
             we_metadata = ob_metadata r\<rparr>"
  let ?req = "webhook_request hmac_hex dumps sg timestamp url ?e"
  obtain a c' where p: "post ?req c = (a, c')" by (cases "post ?req c")
  have tol: "sg_tolerance_seconds sg = tolerance"
    using assms by (auto simp: WebhookSigner_def split: if_splits)
  have hdr: "map_of (hr_headers ?req) ''x-webhook-timestamp'' = Some (int_str timestamp)"
    "map_of (hr_headers ?req) ''x-webhook-signature'' = Some (sign hmac_hex sg (hr_content ?req) timestamp)"
    by (simp_all add: webhook_request_def Let_def)
  have v: "verify hmac_hex sg (hr_content ?req) (sign hmac_hex sg (hr_content ?req) timestamp) timestamp clock
      \<longleftrightarrow> \<bar>clock - timestamp\<bar> \<le> tolerance" for clock
    by (auto simp: verify_def tol)
  let ?res = "fst (webhook_dispatch hmac_hex dumps str_exc post sg timestamp url ?e c)"
  have res: "webhook_dispatch hmac_hex dumps str_exc post sg timestamp url ?e c = (?res, c')"
    "succeeded ?res \<longleftrightarrow> (\<exists>code. a = Inr code \<and> 200 \<le> code \<and> code < 300)"
    using p by (auto simp: webhook_dispatch_def succeeded_def split: sum.splits exn.splits)
  have reason: "failure_reason ?res \<noteq> ''''" by (simp add: failure_reason_def py_or_def split: option.split)
  have sink: "webhook_sink hmac_hex dumps str_exc post sg timestamp url r now c =
      (if succeeded ?res then Inr () else Inl (RuntimeError (failure_reason ?res)), c')"
    unfolding webhook_sink_def by (subst res(1)) (simp add: Let_def)
  show ?thesis unfolding Let_def p sink prod.case using res(2) reason hdr v by auto
qed

theorem webhook_sink_outcome_witness:
  "fst (webhook_sink (\<lambda>k m. k @ m) (\<lambda>_. ''{}'') (\<lambda>_. ''e'') (\<lambda>req c. (Inr 204, c)) \<lparr>sg_secret = ''key'', sg_tolerance_seconds = 300\<rparr>
     1000 ''https://hook'' (new_event ''e1'' 0 ''t'' [] None None) 9 ()) = Inr ()"
proof -
  have sg: "WebhookSigner ''key'' 300 = Inr \<lparr>sg_secret = ''key'', sg_tolerance_seconds = 300\<rparr>"
    by (simp add: WebhookSigner_def)
  show ?thesis
    using webhook_sink_outcome [OF sg, of "new_event ''e1'' 0 ''t'' [] None None" 9 "\<lambda>k m. k @ m" "\<lambda>_. ''{}''"
        1000 "''https://hook''" "\<lambda>req c. (Inr 204, c)" "()" "\<lambda>_. ''e''"]
    by (auto simp: Let_def split: prod.splits)
qed

end
