(* ===== verification/Idempotency.thy ===== *)
theory Idempotency
  imports SQL
begin

text \<open>
  Idempotency keys (\<open>src/app/modules/platform/idempotency/\<close>: \<open>service.py\<close>, \<open>adapters.py\<close>, \<open>http.py\<close>,
  \<open>models.py\<close>, \<open>store.py\<close>).

  The table holds one row per (principal, key). \<open>check_or_store\<close> claims a key, replays its stored
  response or refuses; \<open>store_response\<close> completes a claim, fenced on the claim token. The token and
  the row id that \<open>uuid4\<close> draws, and the clock, are arguments. SHA-256 is a parameter.
\<close>

section \<open>Table\<close>

datatype idem_status = InProgress | Completed

record idem_row =
  ik_id :: string
  ik_key :: string
  ik_principal_id :: string
  ik_request_hash :: string
  ik_status :: idem_status
  ik_claim_token :: "string option"
  ik_response_status_code :: "int option"
  ik_response_body :: "body option"
  ik_expires_at :: datetime
  ik_updated_at :: datetime

type_synonym idem_table = "idem_row table"

definition ik_owner :: "idem_row \<Rightarrow> string \<times> string" where
  "ik_owner r = (ik_principal_id r, ik_key r)"

datatype idem_outcome = CachedResponse int body | Claim string

section \<open>Service\<close>

text \<open>The bytes fed to the hash: each part followed by a NUL byte, then the body.\<close>

definition request_preimage :: "string \<Rightarrow> string \<Rightarrow> string \<Rightarrow> string \<Rightarrow> string" where
  "request_preimage mthd path body principal_id =
     concat (map (\<lambda>value. value @ [CHR 0x00]) [str_upper mthd, path, principal_id]) @ body"

definition build_request_hash :: "(string \<Rightarrow> string) \<Rightarrow> string \<Rightarrow> string \<Rightarrow> string \<Rightarrow> string \<Rightarrow> string" where
  "build_request_hash sha256_hex mthd path body principal_id =
     sha256_hex (request_preimage mthd path body principal_id)"

definition compute_idempotency_expires_at :: "int \<Rightarrow> datetime \<Rightarrow> datetime" where
  "compute_idempotency_expires_at ttl_seconds now = now + timedelta ttl_seconds"

definition try_insert ::
  "string \<Rightarrow> string \<Rightarrow> string \<Rightarrow> string \<Rightarrow> string \<Rightarrow> datetime \<Rightarrow> datetime \<Rightarrow> idem_table \<Rightarrow> bool \<times> idem_table" where
  "try_insert row_id key principal_id hash token expires_at now t =
     (let (ins, t') = sql_insert_nothing (\<lambda>a b. ik_owner a = ik_owner b)
            \<lparr>ik_id = row_id, ik_key = key, ik_principal_id = principal_id, ik_request_hash = hash,
             ik_status = InProgress, ik_claim_token = Some token, ik_response_status_code = None,
             ik_response_body = None, ik_expires_at = expires_at, ik_updated_at = now\<rparr> t in
      (ins \<noteq> None, t'))"

definition find_record :: "string \<Rightarrow> string \<Rightarrow> idem_table \<Rightarrow> idem_row option" where
  "find_record key principal_id t =
     sql_scalar (filter (\<lambda>r. ik_key r = key \<and> ik_principal_id r = principal_id) t)"

definition is_stuck_in_progress :: "idem_row \<Rightarrow> datetime \<Rightarrow> int \<Rightarrow> bool" where
  "is_stuck_in_progress r now timeout_seconds \<longleftrightarrow>
     ik_status r = InProgress \<and> now - ik_updated_at r \<ge> timeout_seconds * us_per_s"

definition reset_expired_record :: "string \<Rightarrow> string \<Rightarrow> datetime \<Rightarrow> datetime \<Rightarrow> idem_row \<Rightarrow> idem_row" where
  "reset_expired_record hash token expires_at now r =
     r\<lparr>ik_request_hash := hash, ik_claim_token := Some token, ik_status := InProgress,
       ik_response_status_code := None, ik_response_body := None, ik_expires_at := expires_at,
       ik_updated_at := now\<rparr>"

definition idem_error :: "string \<Rightarrow> string \<Rightarrow> int \<Rightarrow> exn" where
  "idem_error code msg status = AppError (mk_app_error ''AppError'' code msg status None None)"

abbreviation vanished_error :: exn where
  "vanished_error \<equiv> idem_error ''idempotency_internal_error'' ''Idempotency record vanished after insert conflict'' 500"

abbreviation conflict_error :: exn where
  "conflict_error \<equiv> idem_error ''idempotency_key_conflict'' ''Idempotency-Key was already used for a different request'' 409"

abbreviation in_progress_error :: exn where
  "in_progress_error \<equiv> idem_error ''idempotency_key_in_progress'' ''Idempotency-Key is already in progress'' 409"

definition or_200 :: "int option \<Rightarrow> int" where
  "or_200 x = (case x of None \<Rightarrow> 200 | Some c \<Rightarrow> if c = 0 then 200 else c)"

definition check_or_store_idempotency_key ::
  "int \<Rightarrow> string \<Rightarrow> string \<Rightarrow> string \<Rightarrow> string \<Rightarrow> string \<Rightarrow> datetime \<Rightarrow> datetime \<Rightarrow> idem_table \<Rightarrow>
   (exn + idem_outcome) \<times> idem_table" where
  "check_or_store_idempotency_key timeout row_id key principal_id hash token expires_at now t =
     (let (inserted, t1) = try_insert row_id key principal_id hash token expires_at now t in
      if inserted then (Inr (Claim token), t1)
      else (case find_record key principal_id t1 of
          None \<Rightarrow> (Inl vanished_error, t1)
        | Some r \<Rightarrow>
            if ik_expires_at r \<le> now \<or> is_stuck_in_progress r now timeout
            then (Inr (Claim token),
                  snd (sql_update (\<lambda>x. ik_owner x = ik_owner r)
                         (reset_expired_record hash token expires_at now) t1))
            else if ik_request_hash r \<noteq> hash then (Inl conflict_error, t1)
            else (case (ik_status r, ik_response_body r) of
                (Completed, Some body) \<Rightarrow> (Inr (CachedResponse (or_200 (ik_response_status_code r)) body), t1)
              | _ \<Rightarrow> (Inl in_progress_error, t1))))"

definition store_idempotency_response ::
  "string \<Rightarrow> string \<Rightarrow> string \<Rightarrow> int \<Rightarrow> body \<Rightarrow> datetime \<Rightarrow> idem_table \<Rightarrow> (exn + bool) \<times> idem_table" where
  "store_idempotency_response key principal_id token status_code response_body now t =
     (let (rows, t') = sql_update
            (\<lambda>r. ik_key r = key \<and> ik_principal_id r = principal_id \<and> ik_claim_token r = Some token
                 \<and> ik_status r = InProgress)
            (\<lambda>r. r\<lparr>ik_status := Completed, ik_response_status_code := Some status_code,
                   ik_response_body := Some response_body, ik_updated_at := now\<rparr>) t in
      (case sql_one_or_none rows of Inl e \<Rightarrow> Inl e | Inr x \<Rightarrow> Inr (x \<noteq> None), t'))"

definition delete_expired_idempotency_keys ::
  "idem_row limiter_fn \<Rightarrow> datetime \<Rightarrow> int \<Rightarrow> idem_table \<Rightarrow> (exn + nat) \<times> idem_table" where
  "delete_expired_idempotency_keys pick before limit t =
     (if limit \<le> 0 then (Inl (ValueError ''limit must be positive''), t)
      else (let expired = map ik_id (pick (nat limit) (filter (\<lambda>r. ik_expires_at r < before) t));
                t' = sql_delete (\<lambda>r. ik_id r \<in> set expired) t in
            (Inr (length t - length t'), t')))"

section \<open>Store\<close>

text \<open>\<open>PostgresIdempotencyStore\<close>: each call is one transaction.\<close>

definition check_or_store ::
  "int \<Rightarrow> string \<Rightarrow> string \<Rightarrow> string \<Rightarrow> string \<Rightarrow> string \<Rightarrow> datetime \<Rightarrow> datetime \<Rightarrow> idem_table \<Rightarrow>
   (exn + idem_outcome) \<times> idem_table" where
  "check_or_store timeout row_id key principal_id hash token expires_at now =
     transaction (check_or_store_idempotency_key timeout row_id key principal_id hash token expires_at now)"

definition store_response ::
  "string \<Rightarrow> string \<Rightarrow> string \<Rightarrow> int \<Rightarrow> body \<Rightarrow> datetime \<Rightarrow> idem_table \<Rightarrow> (exn + bool) \<times> idem_table" where
  "store_response key principal_id token status_code response_body now =
     transaction (store_idempotency_response key principal_id token status_code response_body now)"

definition delete_expired ::
  "idem_row limiter_fn \<Rightarrow> datetime \<Rightarrow> int \<Rightarrow> idem_table \<Rightarrow> (exn + nat) \<times> idem_table" where
  "delete_expired pick before limit = transaction (delete_expired_idempotency_keys pick before limit)"

section \<open>HTTP helpers\<close>

record idem_settings =
  IDEMPOTENCY_ENABLED :: bool
  IDEMPOTENCY_KEY_MAX_LENGTH :: int
  IDEMPOTENCY_IN_PROGRESS_TIMEOUT_SECONDS :: int

text \<open>What the helpers read of a request: the header, method, path, and whether a store is wired.\<close>

record idem_request =
  req_idempotency_header :: "string option"
  req_method :: string
  req_path :: string
  req_store_wired :: bool

definition get_idempotency_key :: "idem_settings \<Rightarrow> idem_request \<Rightarrow> exn + string option" where
  "get_idempotency_key st req = (case req_idempotency_header req of
      None \<Rightarrow> Inr None
    | Some raw \<Rightarrow>
        (let key = strip raw in
         if key = [] then Inl (idem_error ''invalid_idempotency_key'' ''Idempotency-Key must not be blank'' 400)
         else if int (length key) > IDEMPOTENCY_KEY_MAX_LENGTH st
         then Inl (idem_error ''invalid_idempotency_key''
                (''Idempotency-Key is too long (max '' @ int_str (IDEMPOTENCY_KEY_MAX_LENGTH st) @ '' characters)'') 400)
         else Inr (Some key)))"

definition require_enabled_store :: "idem_settings \<Rightarrow> idem_request \<Rightarrow> exn + unit" where
  "require_enabled_store st req =
     (if \<not> IDEMPOTENCY_ENABLED st then Inl (idem_error ''idempotency_disabled'' ''Idempotency is disabled'' 503)
      else if \<not> req_store_wired req
      then Inl (AppError (ServiceUnavailableError (Some ''Idempotency store is unavailable'')
                  (Some ''idempotency_unavailable'') None))
      else Inr ())"

datatype idem_start =
    NoKey
  | Replay int body
  | IdempotentCall (call_key: string) (call_principal_id: string) (call_claim_token: string)

definition replay_or_start_idempotent_request ::
  "(string \<Rightarrow> string) \<Rightarrow> idem_settings \<Rightarrow> idem_request \<Rightarrow> string \<Rightarrow> string \<Rightarrow> datetime \<Rightarrow> string \<Rightarrow> string \<Rightarrow> datetime \<Rightarrow>
   idem_table \<Rightarrow> (exn + idem_start) \<times> idem_table" where
  "replay_or_start_idempotent_request sha256_hex st req principal_id body expires_at row_id token now t =
     (case get_idempotency_key st req of
        Inl e \<Rightarrow> (Inl e, t)
      | Inr None \<Rightarrow> (Inr NoKey, t)
      | Inr (Some key) \<Rightarrow>
          (case require_enabled_store st req of
             Inl e \<Rightarrow> (Inl e, t)
           | Inr _ \<Rightarrow>
              (case check_or_store (IDEMPOTENCY_IN_PROGRESS_TIMEOUT_SECONDS st) row_id key principal_id
                      (build_request_hash sha256_hex (req_method req) (req_path req) body principal_id)
                      token expires_at now t of
                 (Inl e, t') \<Rightarrow> (Inl e, t')
               | (Inr (CachedResponse code b), t') \<Rightarrow> (Inr (Replay code b), t')
               | (Inr (Claim tok), t') \<Rightarrow> (Inr (IdempotentCall key principal_id tok), t'))))"

definition store_idempotent_response ::
  "idem_start \<Rightarrow> int \<Rightarrow> body \<Rightarrow> datetime \<Rightarrow> idem_table \<Rightarrow> (exn + bool) \<times> idem_table" where
  "store_idempotent_response call status_code response_body now t =
     store_response (call_key call) (call_principal_id call) (call_claim_token call) status_code
       response_body now t"

section \<open>Runs\<close>

datatype idem_op =
    OpCheck (chk_row_id: string) (chk_key: string) (chk_principal: string) (chk_hash: string)
      (chk_token: string) (chk_expires: datetime) (chk_now: datetime)
  | OpComplete (cmp_key: string) (cmp_principal: string) (cmp_token: string) (cmp_status: int)
      (cmp_body: body) (cmp_now: datetime)
  | OpPurge (prg_before: datetime) (prg_limit: int)

datatype idem_out = OutCheck "exn + idem_outcome" | OutComplete "exn + bool" | OutPurge "exn + nat"

fun idem_step :: "int \<Rightarrow> idem_row limiter_fn \<Rightarrow> idem_op \<Rightarrow> idem_table \<Rightarrow> idem_out \<times> idem_table" where
  "idem_step timeout pick (OpCheck row_id key pr hash token expires_at now) t =
     map_prod OutCheck id (check_or_store timeout row_id key pr hash token expires_at now t)"
| "idem_step timeout pick (OpComplete key pr token code b now) t =
     map_prod OutComplete id (store_response key pr token code b now t)"
| "idem_step timeout pick (OpPurge before limit) t =
     map_prod OutPurge id (delete_expired pick before limit t)"

fun idem_run :: "int \<Rightarrow> idem_row limiter_fn \<Rightarrow> idem_op list \<Rightarrow> idem_table \<Rightarrow> idem_out list \<times> idem_table" where
  "idem_run timeout pick [] t = ([], t)"
| "idem_run timeout pick (x # xs) t =
     (let (a, t1) = idem_step timeout pick x t; (as, t2) = idem_run timeout pick xs t1 in (a # as, t2))"

text \<open>
  Who holds a key after a history: the caller whose claim was granted last, until its response was
  stored.
\<close>

fun holds_after :: "(string \<times> string) \<Rightarrow> idem_op \<Rightarrow> idem_out \<Rightarrow> string option \<Rightarrow> string option" where
  "holds_after own (OpCheck _ key pr _ _ _ _) (OutCheck (Inr (Claim tok))) h = (if own = (pr, key) then Some tok else h)"
| "holds_after own (OpComplete key pr _ _ _ _) (OutComplete (Inr True)) h = (if own = (pr, key) then None else h)"
| "holds_after own _ _ h = h"

fun holder :: "(string \<times> string) \<Rightarrow> idem_op list \<Rightarrow> idem_out list \<Rightarrow> string option \<Rightarrow> string option" where
  "holder own (x # xs) (a # as) h = holder own xs as (holds_after own x a h)"
| "holder own _ _ h = h"

section \<open>What the operations do\<close>

definition claimed_row :: "string \<Rightarrow> string \<Rightarrow> string \<Rightarrow> string \<Rightarrow> string \<Rightarrow> datetime \<Rightarrow> datetime \<Rightarrow> idem_row" where
  "claimed_row row_id key pr hash token expires_at now =
     \<lparr>ik_id = row_id, ik_key = key, ik_principal_id = pr, ik_request_hash = hash,
      ik_status = InProgress, ik_claim_token = Some token, ik_response_status_code = None,
      ik_response_body = None, ik_expires_at = expires_at, ik_updated_at = now\<rparr>"

lemma find_record_find: "find_record key pr t = find (\<lambda>r. ik_owner r = (pr, key)) t"
  unfolding find_record_def sql_scalar_find by (rule arg_cong [of _ _ "\<lambda>P. find P t"]) (auto simp: ik_owner_def)

lemma find_record_Some: "find_record key pr t = Some r \<Longrightarrow> r \<in> set t \<and> ik_owner r = (pr, key)"
  by (auto simp: find_record_find find_Some_iff)

lemma find_record_None: "find_record key pr t = None \<longleftrightarrow> (pr, key) \<notin> ik_owner ` set t"
  by (force simp: find_record_find find_None_iff)

lemma find_record_unique:
  "\<lbrakk>distinct (map ik_owner t); r \<in> set t; ik_owner r = (pr, key)\<rbrakk> \<Longrightarrow> find_record key pr t = Some r"
  unfolding find_record_find by (induction t) (auto, force)

text \<open>The answer to a check that finds a live record.\<close>

definition live_answer :: "string \<Rightarrow> idem_row \<Rightarrow> exn + idem_outcome" where
  "live_answer hash r =
     (if ik_request_hash r \<noteq> hash then Inl conflict_error
      else case (ik_status r, ik_response_body r) of
        (Completed, Some b) \<Rightarrow> Inr (CachedResponse (or_200 (ik_response_status_code r)) b)
      | _ \<Rightarrow> Inl in_progress_error)"

lemma check_or_store_eq:
  "check_or_store timeout row_id key pr hash token expires_at now t =
     (case find_record key pr t of
        None \<Rightarrow> (Inr (Claim token), t @ [claimed_row row_id key pr hash token expires_at now])
      | Some r \<Rightarrow>
          if ik_expires_at r \<le> now \<or> is_stuck_in_progress r now timeout
          then (Inr (Claim token), map (\<lambda>x. if ik_owner x = (pr, key)
                  then reset_expired_record hash token expires_at now x else x) t)
          else (live_answer hash r, t))"
proof (cases "find_record key pr t")
  case None
  then have "\<forall>r \<in> set t. (pr, key) \<noteq> ik_owner r" by (auto simp: find_record_None)
  then have "try_insert row_id key pr hash token expires_at now t =
      (True, t @ [claimed_row row_id key pr hash token expires_at now])"
    by (auto simp: try_insert_def sql_insert_nothing_def claimed_row_def ik_owner_def)
  then show ?thesis
    by (simp add: None check_or_store_def transaction_def check_or_store_idempotency_key_def)
next
  case (Some r)
  note r = find_record_Some [OF Some]
  then have "try_insert row_id key pr hash token expires_at now t = (False, t)"
    by (auto simp: try_insert_def sql_insert_nothing_def ik_owner_def)
  then show ?thesis using r
    by (auto simp: Some check_or_store_def transaction_def check_or_store_idempotency_key_def
        live_answer_def sql_update_def split: idem_status.splits option.splits)
qed

definition completed_row :: "int \<Rightarrow> body \<Rightarrow> datetime \<Rightarrow> idem_row \<Rightarrow> idem_row" where
  "completed_row code b now r =
     r\<lparr>ik_status := Completed, ik_response_status_code := Some code, ik_response_body := Some b,
       ik_updated_at := now\<rparr>"

definition is_claim :: "string \<Rightarrow> idem_row \<Rightarrow> bool" where
  "is_claim token r \<longleftrightarrow> ik_claim_token r = Some token \<and> ik_status r = InProgress"

lemma store_response_eq:
  assumes dist: "distinct (map ik_owner t)"
  shows "store_response key pr token code b now t =
     (case find_record key pr t of
        None \<Rightarrow> (Inr False, t)
      | Some r \<Rightarrow> if is_claim token r
          then (Inr True, map (\<lambda>x. if ik_owner x = (pr, key) then completed_row code b now x else x) t)
          else (Inr False, t))"
proof -
  let ?P = "\<lambda>r. ik_key r = key \<and> ik_principal_id r = pr \<and> ik_claim_token r = Some token \<and> ik_status r = InProgress"
  have P: "?P r \<longleftrightarrow> ik_owner r = (pr, key) \<and> is_claim token r" for r
    by (auto simp: ik_owner_def is_claim_def)
  have upd: "(\<lambda>r. r\<lparr>ik_status := Completed, ik_response_status_code := Some code,
        ik_response_body := Some b, ik_updated_at := now\<rparr>) = completed_row code b now"
    by (rule ext) (simp add: completed_row_def)
  have eq: "store_response key pr token code b now t =
     (case sql_one_or_none (map (completed_row code b now) (filter ?P t)) of
        Inl e \<Rightarrow> (Inl e, t)
      | Inr x \<Rightarrow> (Inr (x \<noteq> None), map (\<lambda>r. if ?P r then completed_row code b now r else r) t))"
    by (auto simp: store_response_def transaction_def store_idempotency_response_def sql_update_def upd
        split: sum.splits)
  show ?thesis
  proof (cases "\<exists>r. find_record key pr t = Some r \<and> is_claim token r")
    case True
    then obtain r where r: "find_record key pr t = Some r" "is_claim token r" by blast
    note m = find_record_Some [OF r(1)]
    have "filter (\<lambda>x. ik_owner x = (pr, key)) t = [r]" using filter_key_unique [OF dist] m by metis
    then have one: "filter ?P t = [r]"
      using r(2) filter_filter [of "is_claim token" "\<lambda>x. ik_owner x = (pr, key)" t] by (simp add: P)
    have "?P x \<longleftrightarrow> ik_owner x = (pr, key)" if "x \<in> set t" for x
      using find_record_unique [OF dist that] r by (auto simp: P)
    then have "map (\<lambda>x. if ?P x then completed_row code b now x else x) t =
        map (\<lambda>x. if ik_owner x = (pr, key) then completed_row code b now x else x) t"
      by (intro map_cong) auto
    then show ?thesis unfolding eq one using r by simp
  next
    case False
    then have no: "\<not> ?P x" if "x \<in> set t" for x using find_record_unique [OF dist that] by (auto simp: P)
    then have "filter ?P t = []" by (auto simp: filter_empty_conv)
    moreover have "map (\<lambda>x. if ?P x then completed_row code b now x else x) t = t"
      using no by (intro map_idI) auto
    ultimately show ?thesis unfolding eq using False by (auto split: option.splits)
  qed
qed

text \<open>Updates of the row of one owner, and removals.\<close>

lemma owners_update:
  assumes "\<And>r. ik_owner (f r) = ik_owner r"
  shows "map ik_owner (map (\<lambda>x. if P x then f x else x) t) = map ik_owner t"
  using assms by (induction t) auto

lemma find_record_update:
  assumes "\<And>r. ik_owner (f r) = ik_owner r"
  shows "find_record key pr (map (\<lambda>x. if ik_owner x = own then f x else x) t) =
     (if own = (pr, key) then map_option f (find_record key pr t) else find_record key pr t)"
proof (cases "own = (pr, key)")
  case True
  then show ?thesis unfolding find_record_find using assms by (induction t) auto
next
  case False
  then show ?thesis unfolding find_record_find using assms by (induction t) auto
qed

lemma owner_simps [simp]:
  "ik_owner (reset_expired_record hash token e now r) = ik_owner r"
  "ik_owner (completed_row code b now r) = ik_owner r"
  "ik_owner (claimed_row i key pr hash token e now) = (pr, key)"
  by (simp_all add: ik_owner_def reset_expired_record_def completed_row_def claimed_row_def)

lemma find_record_snoc:
  "find_record key pr (t @ [r]) = (case find_record key pr t of
      Some x \<Rightarrow> Some x | None \<Rightarrow> if ik_owner r = (pr, key) then Some r else None)"
  unfolding find_record_find by (induction t) auto

lemma delete_expired_eq:
  "delete_expired pick before limit t =
     (if limit \<le> 0 then (Inl (ValueError ''limit must be positive''), t)
      else let t' = filter (\<lambda>r. ik_id r \<notin> ik_id ` set (pick (nat limit) (filter (\<lambda>r. ik_expires_at r < before) t))) t
           in (Inr (length t - length t'), t'))"
  by (simp add: delete_expired_def transaction_def delete_expired_idempotency_keys_def sql_delete_def Let_def)

section \<open>Fencing\<close>

text \<open>A key has one row; the row is in progress for the holder, and completed when there is none.\<close>

definition fence_inv :: "idem_table \<Rightarrow> ((string \<times> string) \<Rightarrow> string option) \<Rightarrow> bool" where
  "fence_inv t h \<longleftrightarrow> distinct (map ik_owner t) \<and>
     (\<forall>r \<in> set t. h (ik_owner r) = (case ik_status r of InProgress \<Rightarrow> ik_claim_token r | Completed \<Rightarrow> None)
        \<and> (ik_status r = InProgress \<longrightarrow> ik_claim_token r \<noteq> None))"

lemma fence_inv_update:
  assumes inv: "fence_inv t h" and own: "\<And>r. ik_owner (f r) = ik_owner r"
    and new: "\<And>r. r \<in> set t \<Longrightarrow> ik_owner r = own \<Longrightarrow>
       h' = (case ik_status (f r) of InProgress \<Rightarrow> ik_claim_token (f r) | Completed \<Rightarrow> None)
        \<and> (ik_status (f r) = InProgress \<longrightarrow> ik_claim_token (f r) \<noteq> None)"
  shows "fence_inv (map (\<lambda>x. if ik_owner x = own then f x else x) t) (h(own := h'))"
proof -
  let ?t = "map (\<lambda>x. if ik_owner x = own then f x else x) t"
  have "(h(own := h')) (ik_owner r) = (case ik_status r of InProgress \<Rightarrow> ik_claim_token r | Completed \<Rightarrow> None)
        \<and> (ik_status r = InProgress \<longrightarrow> ik_claim_token r \<noteq> None)" if r: "r \<in> set ?t" for r
  proof -
    from r obtain x where x: "x \<in> set t" "r = (if ik_owner x = own then f x else x)" by auto
    show ?thesis
    proof (cases "ik_owner x = own")
      case True
      then have "r = f x" using x(2) by simp
      then show ?thesis using new [OF x(1) True] own [of x] True by (simp only: fun_upd_same) blast
    next
      case False
      with inv x show ?thesis by (auto simp: fence_inv_def)
    qed
  qed
  moreover have "distinct (map ik_owner ?t)"
    unfolding owners_update [where f = f, OF own] using inv by (simp add: fence_inv_def)
  ultimately show ?thesis unfolding fence_inv_def by blast
qed

lemma fence_inv_filter: "fence_inv t h \<Longrightarrow> fence_inv (filter P t) h"
  by (auto simp: fence_inv_def distinct_map_filter)

lemma fence_step:
  assumes inv: "fence_inv t h" and st: "idem_step timeout pick x t = (a, t')"
  shows "fence_inv t' (\<lambda>own. holds_after own x a (h own))"
proof (cases x)
  case (OpCheck i key pr hash tok e now)
  show ?thesis
  proof (cases "find_record key pr t")
    case None
    then have new: "(pr, key) \<notin> ik_owner ` set t" by (simp add: find_record_None)
    have t': "t' = t @ [claimed_row i key pr hash tok e now]" and a: "a = OutCheck (Inr (Claim tok))"
      using st None OpCheck by (auto simp: check_or_store_eq)
    have "(\<lambda>own. holds_after own x a (h own)) = h((pr, key) := Some tok)"
      by (rule ext) (simp add: OpCheck a)
    with inv new show ?thesis
      by (auto simp: fence_inv_def t' claimed_row_def ik_owner_def image_iff)
  next
    case (Some r)
    show ?thesis
    proof (cases "ik_expires_at r \<le> now \<or> is_stuck_in_progress r now timeout")
      case True
      have t': "t' = map (\<lambda>x. if ik_owner x = (pr, key) then reset_expired_record hash tok e now x else x) t"
        and a: "a = OutCheck (Inr (Claim tok))"
        using st Some True OpCheck by (auto simp: check_or_store_eq)
      have h: "(\<lambda>own. holds_after own x a (h own)) = h((pr, key) := Some tok)"
        by (rule ext) (simp add: OpCheck a)
      show ?thesis unfolding t' h
        by (rule fence_inv_update [OF inv]) (simp, simp add: reset_expired_record_def)
    next
      case False
      then have "t' = t" "a = OutCheck (live_answer hash r)"
        using st Some OpCheck by (auto simp: check_or_store_eq)
      moreover have "live_answer hash r \<noteq> Inr (Claim c)" for c
        by (auto simp: live_answer_def split: idem_status.splits option.splits)
      then have "holds_after own x (OutCheck (live_answer hash r)) h' = h'" for own h'
        unfolding OpCheck by (cases "(own, x, OutCheck (live_answer hash r), h')" rule: holds_after.cases)
          (auto simp: OpCheck)
      ultimately show ?thesis using inv by simp
    qed
  qed
next
  case (OpComplete key pr tok code b now)
  have dist: "distinct (map ik_owner t)" using inv by (simp add: fence_inv_def)
  show ?thesis
  proof (cases "\<exists>r. find_record key pr t = Some r \<and> is_claim tok r")
    case True
    then have t': "t' = map (\<lambda>x. if ik_owner x = (pr, key) then completed_row code b now x else x) t"
      and a: "a = OutComplete (Inr True)"
      using st OpComplete by (auto simp: store_response_eq [OF dist])
    have h: "(\<lambda>own. holds_after own x a (h own)) = h((pr, key) := None)"
      by (rule ext) (simp add: OpComplete a)
    show ?thesis unfolding t' h
      by (rule fence_inv_update [OF inv]) (simp, simp add: completed_row_def)
  next
    case False
    then have "t' = t" "a = OutComplete (Inr False)"
      using st OpComplete by (auto simp: store_response_eq [OF dist] split: option.splits if_splits)
    then show ?thesis using inv by (simp add: OpComplete)
  qed
next
  case (OpPurge before limit)
  with st inv fence_inv_filter show ?thesis
    by (auto simp: delete_expired_eq Let_def split: if_splits)
qed

lemma fence_run:
  "\<lbrakk>fence_inv t h; idem_run timeout pick xs t = (as, t')\<rbrakk> \<Longrightarrow> fence_inv t' (\<lambda>own. holder own xs as (h own))"
proof (induction xs arbitrary: t h as)
  case (Cons x xs)
  obtain a t1 where st: "idem_step timeout pick x t = (a, t1)" by (cases "idem_step timeout pick x t")
  with Cons.prems(2) obtain bs where bs: "idem_run timeout pick xs t1 = (bs, t')" "as = a # bs"
    by (auto split: prod.splits)
  from Cons.IH [OF fence_step [OF Cons.prems(1) st] bs(1)] bs(2) show ?case by simp
qed simp

section \<open>A live record stays as it is\<close>

definition row_ids :: "idem_op list \<Rightarrow> string list" where
  "row_ids xs = map chk_row_id (filter is_OpCheck xs)"

text \<open>The operation leaves the record \<open>r\<close> of the key alone.\<close>

fun spares :: "int \<Rightarrow> idem_row \<Rightarrow> idem_op \<Rightarrow> bool" where
  "spares timeout r (OpCheck _ key pr _ _ _ now) =
     (ik_owner r = (pr, key) \<longrightarrow> now < ik_expires_at r \<and> \<not> is_stuck_in_progress r now timeout)"
| "spares timeout r (OpComplete key pr tok _ _ _) = (ik_owner r = (pr, key) \<longrightarrow> \<not> is_claim tok r)"
| "spares timeout r (OpPurge before _) = (before \<le> ik_expires_at r)"

lemma find_record_filter:
  "\<lbrakk>distinct (map ik_owner t); find_record key pr t = Some r; P r\<rbrakk> \<Longrightarrow> find_record key pr (filter P t) = Some r"
  using find_record_Some [of key pr t r] find_record_unique [of "filter P t" r pr key]
  by (auto simp: distinct_map_filter)

definition tbl_ok :: "idem_table \<Rightarrow> bool" where
  "tbl_ok t \<longleftrightarrow> distinct (map ik_owner t) \<and> distinct (map ik_id t)"

lemma ids_update:
  assumes "\<And>r. ik_id (f r) = ik_id r"
  shows "map ik_id (map (\<lambda>x. if P x then f x else x) t) = map ik_id t"
  using assms by (induction t) auto

lemma id_simps [simp]:
  "ik_id (reset_expired_record hash token e now r) = ik_id r"
  "ik_id (completed_row code b now r) = ik_id r"
  "ik_id (claimed_row i key pr hash token e now) = i"
  by (simp_all add: reset_expired_record_def completed_row_def claimed_row_def)

lemma tbl_ok_update:
  "\<lbrakk>tbl_ok t; \<And>r. ik_owner (f r) = ik_owner r; \<And>r. ik_id (f r) = ik_id r\<rbrakk>
     \<Longrightarrow> tbl_ok (map (\<lambda>x. if P x then f x else x) t)
       \<and> ik_id ` set (map (\<lambda>x. if P x then f x else x) t) = ik_id ` set t"
  unfolding tbl_ok_def using owners_update [of f P t] ids_update [of f P t] by (metis list.set_map)

lemma step_ok:
  assumes ok: "tbl_ok t" and fresh: "set (row_ids [x]) \<inter> ik_id ` set t = {}"
    and st: "idem_step timeout pick x t = (a, t')"
  shows "tbl_ok t' \<and> ik_id ` set t' \<subseteq> ik_id ` set t \<union> set (row_ids [x])"
proof (cases x)
  case (OpCheck i key pr hash tok e now)
  have upd: "tbl_ok (map (\<lambda>x. if ik_owner x = (pr, key) then reset_expired_record hash tok e now x else x) t)
      \<and> ik_id ` set (map (\<lambda>x. if ik_owner x = (pr, key) then reset_expired_record hash tok e now x else x) t) = ik_id ` set t"
    by (rule tbl_ok_update [OF ok]) simp_all
  have new: "tbl_ok (t @ [claimed_row i key pr hash tok e now])" if "find_record key pr t = None"
    using ok fresh that by (auto simp: tbl_ok_def OpCheck row_ids_def find_record_None)
  from st consider (new) "find_record key pr t = None" "t' = t @ [claimed_row i key pr hash tok e now]"
    | (upd) "t' = map (\<lambda>x. if ik_owner x = (pr, key) then reset_expired_record hash tok e now x else x) t"
    | (same) "t' = t"
    by (auto simp: OpCheck check_or_store_eq split: option.splits if_splits)
  then show ?thesis
  proof cases
    case new
    with \<open>find_record key pr t = None \<Longrightarrow> _\<close> show ?thesis by (simp add: OpCheck row_ids_def)
  next
    case upd
    with \<open>tbl_ok (map _ t) \<and> _\<close> show ?thesis by blast
  qed (use ok in simp)
next
  case (OpComplete key pr tok code b now)
  have dist: "distinct (map ik_owner t)" using ok by (simp add: tbl_ok_def)
  have upd: "tbl_ok (map (\<lambda>x. if ik_owner x = (pr, key) then completed_row code b now x else x) t)
      \<and> ik_id ` set (map (\<lambda>x. if ik_owner x = (pr, key) then completed_row code b now x else x) t) = ik_id ` set t"
    by (rule tbl_ok_update [OF ok]) simp_all
  from st consider "t' = map (\<lambda>x. if ik_owner x = (pr, key) then completed_row code b now x else x) t" | "t' = t"
    by (auto simp: OpComplete store_response_eq [OF dist] split: option.splits if_splits)
  then show ?thesis using upd ok by cases (blast, simp)
next
  case (OpPurge before limit)
  with st ok show ?thesis
    by (auto simp: delete_expired_eq Let_def tbl_ok_def distinct_map_filter split: if_splits)
qed

lemma tbl_ok_inj: "\<lbrakk>tbl_ok t; y \<in> set t; r \<in> set t; ik_id y = ik_id r\<rbrakk> \<Longrightarrow> y = r"
  unfolding tbl_ok_def distinct_map by (meson inj_onD)

lemma step_stable:
  assumes ok: "tbl_ok t" and r: "find_record key pr t = Some r" and pick: "limit_ok pick"
    and sp: "spares timeout r x" and st: "idem_step timeout pick x t = (a, t')"
  shows "find_record key pr t' = Some r"
proof (cases x)
  case (OpCheck i k p hash tok e now)
  have own: "ik_owner r = (pr, key)" using find_record_Some [OF r] by simp
  show ?thesis
  proof (cases "(p, k) = (pr, key)")
    case True
    with sp own r st show ?thesis by (auto simp: OpCheck check_or_store_eq)
  next
    case False
    from st consider (new) "t' = t @ [claimed_row i k p hash tok e now]"
      | (upd) "t' = map (\<lambda>x. if ik_owner x = (p, k) then reset_expired_record hash tok e now x else x) t"
      | (same) "t' = t"
      by (auto simp: OpCheck check_or_store_eq split: option.splits if_splits)
    then show ?thesis
    proof cases
      case upd
      show ?thesis unfolding upd
        by (subst find_record_update) (use False r in \<open>auto simp: owner_simps\<close>)
    qed (use r in \<open>simp_all add: find_record_snoc\<close>)
  qed
next
  case (OpComplete k p tok code b now)
  have dist: "distinct (map ik_owner t)" using ok by (simp add: tbl_ok_def)
  have own: "ik_owner r = (pr, key)" using find_record_Some [OF r] by simp
  show ?thesis
  proof (cases "(p, k) = (pr, key)")
    case True
    with sp own r st show ?thesis by (auto simp: OpComplete store_response_eq [OF dist])
  next
    case False
    from st consider (upd) "t' = map (\<lambda>x. if ik_owner x = (p, k) then completed_row code b now x else x) t"
      | (same) "t' = t"
      by (auto simp: OpComplete store_response_eq [OF dist] split: option.splits if_splits)
    then show ?thesis
    proof cases
      case upd
      show ?thesis unfolding upd
        by (subst find_record_update) (use False r in \<open>auto simp: owner_simps\<close>)
    qed (use r in simp)
  qed
next
  case (OpPurge before limit)
  let ?ex = "filter (\<lambda>r. ik_expires_at r < before) t"
  have rt: "r \<in> set t" using find_record_Some [OF r] by simp
  have "ik_id r \<notin> ik_id ` set (pick n ?ex)" for n
  proof
    assume "ik_id r \<in> ik_id ` set (pick n ?ex)"
    then obtain y where y': "y \<in> set (pick n ?ex)" and yr: "ik_id y = ik_id r" by (metis imageE)
    have "set (pick n ?ex) \<subseteq> set ?ex" using pick unfolding limit_ok_def by blast
    with y' have y: "y \<in> set ?ex" by (rule rev_subsetD)
    then have "y = r" using tbl_ok_inj [OF ok _ rt yr] by simp
    with y sp show False by (simp add: OpPurge)
  qed
  then show ?thesis
    using st r find_record_filter [OF _ r] ok
    by (auto simp: OpPurge delete_expired_eq Let_def tbl_ok_def split: if_splits)
qed

lemma row_ids_append: "row_ids (xs @ ys) = row_ids xs @ row_ids ys"
  by (simp add: row_ids_def)

lemma run_ok:
  "\<lbrakk>tbl_ok t; distinct (row_ids xs); set (row_ids xs) \<inter> ik_id ` set t = {}; idem_run timeout pick xs t = (as, t')\<rbrakk>
     \<Longrightarrow> tbl_ok t' \<and> ik_id ` set t' \<subseteq> ik_id ` set t \<union> set (row_ids xs)"
proof (induction xs arbitrary: t as)
  case (Cons x xs)
  obtain a t1 where st: "idem_step timeout pick x t = (a, t1)" by (cases "idem_step timeout pick x t")
  with Cons.prems(4) obtain bs where bs: "idem_run timeout pick xs t1 = (bs, t')"
    by (auto split: prod.splits)
  have ids: "row_ids (x # xs) = row_ids [x] @ row_ids xs" by (simp add: row_ids_def)
  have 1: "tbl_ok t1 \<and> ik_id ` set t1 \<subseteq> ik_id ` set t \<union> set (row_ids [x])"
    using Cons.prems(3) by (intro step_ok [OF Cons.prems(1) _ st]) (auto simp: ids)
  have "set (row_ids xs) \<inter> ik_id ` set t1 = {}" using 1 Cons.prems(2,3) unfolding ids distinct_append set_append by blast
  then have "tbl_ok t' \<and> ik_id ` set t' \<subseteq> ik_id ` set t1 \<union> set (row_ids xs)"
    using Cons.IH [OF _ _ _ bs] 1 Cons.prems(2) by (simp add: ids)
  with 1 show ?case unfolding ids set_append by blast
qed simp

lemma run_stable:
  "\<lbrakk>tbl_ok t; find_record key pr t = Some r; limit_ok pick; \<forall>x \<in> set xs. spares timeout r x;
    distinct (row_ids xs); set (row_ids xs) \<inter> ik_id ` set t = {}; idem_run timeout pick xs t = (as, t')\<rbrakk>
     \<Longrightarrow> find_record key pr t' = Some r"
proof (induction xs arbitrary: t as)
  case (Cons x xs)
  obtain a t1 where st: "idem_step timeout pick x t = (a, t1)" by (cases "idem_step timeout pick x t")
  with Cons.prems(7) obtain bs where bs: "idem_run timeout pick xs t1 = (bs, t')"
    by (auto split: prod.splits)
  have ids: "row_ids (x # xs) = row_ids [x] @ row_ids xs" by (simp add: row_ids_def)
  have 1: "tbl_ok t1 \<and> ik_id ` set t1 \<subseteq> ik_id ` set t \<union> set (row_ids [x])"
    using Cons.prems(6) by (intro step_ok [OF Cons.prems(1) _ st]) (auto simp: ids)
  have "find_record key pr t1 = Some r"
    using Cons.prems(4) by (intro step_stable [OF Cons.prems(1-3) _ st]) simp
  moreover have "set (row_ids xs) \<inter> ik_id ` set t1 = {}" using 1 Cons.prems(5,6) unfolding ids distinct_append set_append by blast
  ultimately show ?case
    using Cons.IH [OF _ _ Cons.prems(3) _ _ _ bs] 1 Cons.prems(4,5) by (simp add: ids)
qed simp

section \<open>Guarantees\<close>

text \<open>
  C10. Completion is fenced: in every history of claims, completions and purges, whatever their
  times, storing a response for a token succeeds exactly when the key's record still exists and the
  token is that of the key's last granted claim, not yet completed. So a request whose key was
  reclaimed, or which stored its response already, cannot overwrite what another one stored.
\<close>

theorem completion_fenced:
  assumes "idem_run timeout pick xs [] = (as, t)"
  shows "fst (store_response key pr tok code b now t) =
     Inr (holder (pr, key) xs as None = Some tok \<and> find_record key pr t \<noteq> None)"
proof -
  have inv: "fence_inv t (\<lambda>own. holder own xs as None)"
    using fence_run [OF _ assms, of "\<lambda>_. None"] by (simp add: fence_inv_def)
  then have dist: "distinct (map ik_owner t)" by (simp add: fence_inv_def)
  show ?thesis
  proof (cases "find_record key pr t")
    case (Some r)
    with inv find_record_Some [OF Some] have "holder (pr, key) xs as None =
        (case ik_status r of InProgress \<Rightarrow> ik_claim_token r | Completed \<Rightarrow> None)"
      by (auto simp: fence_inv_def)
    then show ?thesis
      by (auto simp: store_response_eq [OF dist] Some is_claim_def split: idem_status.splits)
  qed (simp add: store_response_eq [OF dist])
qed

text \<open>A claim that expires, a second one that takes the key over, and the first one's late answer.\<close>

definition demo_history :: "idem_op list" where
  "demo_history = [OpCheck ''i1'' ''k'' ''p'' ''h'' ''t1'' 90000000 0,
     OpCheck ''i2'' ''k'' ''p'' ''h'' ''t2'' 95000000 60000000,
     OpComplete ''k'' ''p'' ''t1'' 200 [] 61000000]"

theorem completion_fenced_witness:
  "fst (store_response ''k'' ''p'' ''t1'' 200 [] 62000000 (snd (idem_run 30 take demo_history []))) = Inr False
   \<and> fst (store_response ''k'' ''p'' ''t2'' 200 [] 62000000 (snd (idem_run 30 take demo_history []))) = Inr True"
proof -
  have "holder (''p'', ''k'') demo_history (fst (idem_run 30 take demo_history [])) None = Some ''t2''"
    "find_record ''k'' ''p'' (snd (idem_run 30 take demo_history [])) \<noteq> None"
    by code_simp+
  then show ?thesis
    using completion_fenced [of 30 take demo_history "fst (idem_run 30 take demo_history [])"
        "snd (idem_run 30 take demo_history [])" "''k''" "''p''" _ 200 "[]" 62000000] by simp
qed

lemma run_from_empty:
  assumes "idem_run timeout pick xs [] = (as, t)" and "distinct (row_ids xs)"
  shows "tbl_ok t" and "ik_id ` set t \<subseteq> set (row_ids xs)"
  using run_ok [OF _ assms(2) _ assms(1)] by (auto simp: tbl_ok_def)

lemma check_live:
  "\<lbrakk>find_record key pr t = Some r; now < ik_expires_at r; \<not> is_stuck_in_progress r now timeout\<rbrakk>
     \<Longrightarrow> check_or_store timeout i key pr hash tok e now t = (live_answer hash r, t)"
  by (simp add: check_or_store_eq)

text \<open>Operations at times before \<open>e\<close>.\<close>

fun before_time :: "datetime \<Rightarrow> idem_op \<Rightarrow> bool" where
  "before_time e (OpCheck _ _ _ _ _ _ now) = (now < e)"
| "before_time e (OpComplete _ _ _ _ _ now) = (now < e)"
| "before_time e (OpPurge before _) = (before \<le> e)"

text \<open>
  C11. A stored response is replayed: once a claim is completed, every later check of the key before
  the record expires returns exactly the stored status and body when it carries the same request
  hash, and 409 \<open>idempotency_key_conflict\<close> otherwise, whatever checks, completions and purges of this
  and other keys happened in between.
\<close>

theorem completed_response_replayed:
  assumes "limit_ok pick" and "distinct (row_ids (xs @ ys))"
    and "idem_run timeout pick xs [] = (as, t)"
    and "store_response key pr tok code b now\<^sub>0 t = (Inr True, t\<^sub>1)"
    and "find_record key pr t\<^sub>1 = Some r"
    and "\<forall>y \<in> set ys. before_time (ik_expires_at r) y" and "idem_run timeout pick ys t\<^sub>1 = (bs, t\<^sub>2)"
    and "now < ik_expires_at r"
  shows "fst (check_or_store timeout i key pr hash tok' e now t\<^sub>2) =
     (if hash = ik_request_hash r then Inr (CachedResponse (or_200 (Some code)) b) else Inl conflict_error)"
proof -
  have dist: "distinct (row_ids xs)" "distinct (row_ids ys)" "set (row_ids xs) \<inter> set (row_ids ys) = {}"
    using assms(2) by (auto simp: row_ids_append)
  note t = run_from_empty [OF assms(3) dist(1)]
  have own: "distinct (map ik_owner t)" using t(1) by (simp add: tbl_ok_def)
  from assms(4) obtain r\<^sub>0 where r0: "find_record key pr t = Some r\<^sub>0"
    and t1: "t\<^sub>1 = map (\<lambda>x. if ik_owner x = (pr, key) then completed_row code b now\<^sub>0 x else x) t"
    by (auto simp: store_response_eq [OF own] split: option.splits if_splits)
  have r: "r = completed_row code b now\<^sub>0 r\<^sub>0"
    using assms(5) unfolding t1 by (subst (asm) find_record_update) (simp_all add: r0)
  have ok1: "tbl_ok t\<^sub>1" "ik_id ` set t\<^sub>1 = ik_id ` set t"
    unfolding t1 using tbl_ok_update [OF t(1), of "completed_row code b now\<^sub>0"] by simp_all
  have "spares timeout r y" if "y \<in> set ys" for y
    using assms(6) that by (cases y) (auto simp: r completed_row_def is_claim_def is_stuck_in_progress_def)
  then have "find_record key pr t\<^sub>2 = Some r"
    using run_stable [OF ok1(1) assms(5,1) _ dist(2) _ assms(7)] ok1(2) t(2) dist(3) by blast
  moreover have "\<not> is_stuck_in_progress r now timeout"
    by (simp add: r completed_row_def is_stuck_in_progress_def)
  ultimately have "check_or_store timeout i key pr hash tok' e now t\<^sub>2 = (live_answer hash r, t\<^sub>2)"
    using assms(8) by (simp add: check_live)
  then show ?thesis by (auto simp: live_answer_def r completed_row_def)
qed

theorem completed_response_replayed_witness:
  "fst (check_or_store 30 ''i3'' ''k'' ''p'' ''h'' ''t3'' 99000000 80000000
     (snd (idem_run 30 take [OpCheck ''i2'' ''k'' ''p'' ''h2'' ''t2'' 95000000 60000000, OpPurge 90000000 5]
       (snd (store_response ''k'' ''p'' ''t1'' 201 [(''a'', JInt 1)] 1000000
         (snd (idem_run 30 take [OpCheck ''i1'' ''k'' ''p'' ''h'' ''t1'' 90000000 0] [])))))))
   = Inr (CachedResponse 201 [(''a'', JInt 1)])"
proof -
  let ?xs = "[OpCheck ''i1'' ''k'' ''p'' ''h'' ''t1'' 90000000 0]"
  let ?ys = "[OpCheck ''i2'' ''k'' ''p'' ''h2'' ''t2'' 95000000 60000000, OpPurge 90000000 5]"
  let ?t = "snd (idem_run 30 take ?xs [])"
  let ?s = "store_response ''k'' ''p'' ''t1'' 201 [(''a'', JInt 1)] 1000000 ?t"
  let ?r = "completed_row 201 [(''a'', JInt 1)] 1000000 (claimed_row ''i1'' ''k'' ''p'' ''h'' ''t1'' 90000000 0)"
  have s: "?s = (Inr True, snd ?s)" and r: "find_record ''k'' ''p'' (snd ?s) = Some ?r" by code_simp+
  have sel: "ik_expires_at ?r = 90000000" "ik_request_hash ?r = ''h''"
    by (simp_all add: completed_row_def claimed_row_def)
  have "distinct (row_ids (?xs @ ?ys))" "\<forall>y \<in> set ?ys. before_time (ik_expires_at ?r) y"
    by (simp_all add: row_ids_def sel)
  from completed_response_replayed [OF limit_ok_take this(1) surjective_pairing s r this(2) surjective_pairing,
      of 80000000 "''i3''" "''h''" "''t3''" 99000000]
  show ?thesis by (simp add: sel or_200_def)
qed

text \<open>
  A live claim excludes others: after a claim is granted, every check of the same key at a time
  before the record expires and before the in-progress timeout has passed since the claim is refused
  with 409, as long as the claim itself is not completed, whatever else happened in between.
\<close>

theorem live_claim_excludes:
  assumes "limit_ok pick" and "distinct (row_ids (xs @ [OpCheck i\<^sub>0 key pr hash\<^sub>0 tok\<^sub>0 e\<^sub>0 now\<^sub>0] @ ys))"
    and "idem_run timeout pick xs [] = (as, t)"
    and "check_or_store timeout i\<^sub>0 key pr hash\<^sub>0 tok\<^sub>0 e\<^sub>0 now\<^sub>0 t = (Inr (Claim tok\<^sub>0), t\<^sub>1)"
    and "\<forall>y \<in> set ys. before_time (min e\<^sub>0 (now\<^sub>0 + timedelta timeout)) y
           \<and> (\<forall>code b n. y \<noteq> OpComplete key pr tok\<^sub>0 code b n)"
    and "idem_run timeout pick ys t\<^sub>1 = (bs, t\<^sub>2)" and "now < min e\<^sub>0 (now\<^sub>0 + timedelta timeout)"
  shows "fst (check_or_store timeout i key pr hash tok e now t\<^sub>2) =
     Inl (if hash = hash\<^sub>0 then in_progress_error else conflict_error)"
proof -
  let ?x = "OpCheck i\<^sub>0 key pr hash\<^sub>0 tok\<^sub>0 e\<^sub>0 now\<^sub>0"
  have ids: "row_ids [?x] = [i\<^sub>0]" by (simp add: row_ids_def)
  have dist: "distinct (row_ids xs)" "distinct (row_ids ys)"
    "set (row_ids xs) \<inter> (set (row_ids [?x]) \<union> set (row_ids ys)) = {}" "i\<^sub>0 \<notin> set (row_ids ys)"
    using assms(2) unfolding row_ids_append ids distinct_append set_append by auto
  note t = run_from_empty [OF assms(3) dist(1)]
  have st: "idem_step timeout pick ?x t = (OutCheck (Inr (Claim tok\<^sub>0)), t\<^sub>1)" using assms(4) by simp
  have ok1: "tbl_ok t\<^sub>1" "ik_id ` set t\<^sub>1 \<subseteq> ik_id ` set t \<union> set (row_ids [?x])"
    using step_ok [OF t(1) _ st] t(2) dist(3) by blast+
  obtain r where r: "find_record key pr t\<^sub>1 = Some r" "ik_status r = InProgress" "ik_claim_token r = Some tok\<^sub>0"
    "ik_request_hash r = hash\<^sub>0" "ik_expires_at r = e\<^sub>0" "ik_updated_at r = now\<^sub>0"
  proof (cases "find_record key pr t")
    case None
    with assms(4) have "t\<^sub>1 = t @ [claimed_row i\<^sub>0 key pr hash\<^sub>0 tok\<^sub>0 e\<^sub>0 now\<^sub>0]" by (simp add: check_or_store_eq)
    with that None show ?thesis by (simp add: find_record_snoc claimed_row_def ik_owner_def)
  next
    case (Some q)
    have "live_answer hash\<^sub>0 q \<noteq> Inr (Claim c)" for c
      by (auto simp: live_answer_def split: idem_status.splits option.splits)
    with assms(4) Some have "t\<^sub>1 = map (\<lambda>x. if ik_owner x = (pr, key)
        then reset_expired_record hash\<^sub>0 tok\<^sub>0 e\<^sub>0 now\<^sub>0 x else x) t"
      by (auto simp: check_or_store_eq split: if_splits)
    then have "find_record key pr t\<^sub>1 = Some (reset_expired_record hash\<^sub>0 tok\<^sub>0 e\<^sub>0 now\<^sub>0 q)"
      by (simp only:) (subst find_record_update, simp_all add: Some)
    with that show ?thesis by (simp add: reset_expired_record_def)
  qed
  have own: "ik_owner r = (pr, key)" using find_record_Some [OF r(1)] by simp
  have "spares timeout r y" if "y \<in> set ys" for y
    using assms(5) that own r(2-6)
    by (cases y) (auto simp: is_claim_def is_stuck_in_progress_def timedelta_def)
  then have "find_record key pr t\<^sub>2 = Some r"
    using run_stable [OF ok1(1) r(1) assms(1) _ dist(2) _ assms(6)] ok1(2) t(2) dist(3,4) ids by auto
  moreover have "now < ik_expires_at r" "\<not> is_stuck_in_progress r now timeout"
    using assms(7) r by (auto simp: is_stuck_in_progress_def timedelta_def)
  ultimately have "check_or_store timeout i key pr hash tok e now t\<^sub>2 = (live_answer hash r, t\<^sub>2)"
    by (rule check_live)
  then show ?thesis by (auto simp: live_answer_def r)
qed

theorem live_claim_excludes_witness:
  "fst (check_or_store 30 ''i3'' ''k'' ''p'' ''h'' ''t3'' 99000000 29000000
     (snd (idem_run 30 take [OpComplete ''k'' ''p'' ''t9'' 200 [] 2000000, OpPurge 10000000 5]
       (snd (check_or_store 30 ''i1'' ''k'' ''p'' ''h'' ''t1'' 90000000 0 (snd (idem_run 30 take [] [])))))))
   = Inl in_progress_error"
proof -
  let ?ys = "[OpComplete ''k'' ''p'' ''t9'' 200 [] 2000000, OpPurge 10000000 5]"
  let ?c = "check_or_store 30 ''i1'' ''k'' ''p'' ''h'' ''t1'' 90000000 0 (snd (idem_run 30 take [] []))"
  have c: "?c = (Inr (Claim ''t1''), snd ?c)" by code_simp
  have "distinct (row_ids ([] @ [OpCheck ''i1'' ''k'' ''p'' ''h'' ''t1'' 90000000 0] @ ?ys))"
    "\<forall>y \<in> set ?ys. before_time (min 90000000 (0 + timedelta 30)) y
       \<and> (\<forall>code b n. y \<noteq> OpComplete ''k'' ''p'' ''t1'' code b n)"
    by (simp_all add: row_ids_def timedelta_def us_per_s_def)
  from live_claim_excludes [OF limit_ok_take this(1) surjective_pairing c this(2) surjective_pairing,
      of 29000000 "''i3''" "''h''" "''t3''" 99000000]
  show ?thesis by (simp add: timedelta_def us_per_s_def)
qed

text \<open>
  The purge keeps to its bounds: with a positive limit it deletes at most \<open>limit\<close> records, reports
  the number it deleted, and removes only records that expired before the given time.
\<close>

theorem purge_bounds:
  assumes "limit_ok pick" and "distinct (row_ids xs)" and "idem_run timeout pick xs [] = (as, t)" and "0 < limit"
  shows "\<exists>n t'. delete_expired pick before limit t = (Inr n, t') \<and> int n \<le> limit
     \<and> length t = length t' + n \<and> set t' \<subseteq> set t \<and> (\<forall>r \<in> set t. r \<notin> set t' \<longrightarrow> ik_expires_at r < before)"
proof -
  let ?ex = "filter (\<lambda>r. ik_expires_at r < before) t"
  let ?p = "pick (nat limit) ?ex"
  let ?D = "\<lambda>r. ik_id r \<in> ik_id ` set ?p"
  have ok: "tbl_ok t" by (rule run_from_empty [OF assms(3,2)])
  have p: "set ?p \<subseteq> set ?ex" "length ?p \<le> nat limit"
    using assms(1) unfolding limit_ok_def by (blast, simp)
  have D: "?D r \<longleftrightarrow> r \<in> set ?p" if "r \<in> set t" for r
  proof
    assume "?D r"
    then obtain y where y: "y \<in> set ?p" "ik_id y = ik_id r" by (metis imageE)
    moreover have "y \<in> set t" using y(1) p(1) by auto
    ultimately show "r \<in> set ?p" using tbl_ok_inj [OF ok _ that] by blast
  qed simp
  have "distinct (map ik_id t)" using ok by (simp add: tbl_ok_def)
  then have dt: "distinct t" by (rule distinct_map [THEN iffD1, THEN conjunct1])
  have "length t = length (filter (\<lambda>r. \<not> ?D r) t) + length (filter ?D t)"
    by (metis add.commute sum_length_filter_compl)
  moreover have "length (filter ?D t) \<le> nat limit"
  proof -
    have "set (filter ?D t) \<subseteq> set ?p" using D by auto
    then have "card (set (filter ?D t)) \<le> length ?p"
      by (meson card_length card_mono finite_set order_trans)
    then show ?thesis using distinct_card [of "filter ?D t"] dt p(2) by (simp only: distinct_filter)
  qed
  moreover have "\<forall>r \<in> set t. ?D r \<longrightarrow> ik_expires_at r < before" using D p(1) by auto
  moreover have "delete_expired pick before limit t =
      (Inr (length t - length (filter (\<lambda>r. \<not> ?D r) t)), filter (\<lambda>r. \<not> ?D r) t)"
    using assms(4) by (simp add: delete_expired_eq Let_def)
  moreover have "set (filter (\<lambda>r. \<not> ?D r) t) \<subseteq> set t" by (rule filter_is_subset)
  moreover have "r \<in> set (filter (\<lambda>r. \<not> ?D r) t) \<or> ?D r" if "r \<in> set t" for r using that by simp
  ultimately show ?thesis
    using assms(4) by (intro exI [of _ "length t - length (filter (\<lambda>r. \<not> ?D r) t)"]
        exI [of _ "filter (\<lambda>r. \<not> ?D r) t"] conjI) (assumption | linarith | blast)+
qed

theorem purge_bounds_witness:
  "\<exists>n t'. delete_expired take 100000000 1 (snd (idem_run 30 take
      [OpCheck ''i1'' ''k'' ''p'' ''h'' ''t1'' 90000000 0, OpCheck ''i2'' ''k2'' ''p'' ''h'' ''t2'' 95000000 1] []))
     = (Inr n, t') \<and> int n \<le> 1"
proof -
  let ?xs = "[OpCheck ''i1'' ''k'' ''p'' ''h'' ''t1'' 90000000 0, OpCheck ''i2'' ''k2'' ''p'' ''h'' ''t2'' 95000000 1]"
  have "distinct (row_ids ?xs)" by (simp add: row_ids_def)
  from purge_bounds [OF limit_ok_take this surjective_pairing zero_less_one, of 100000000 30] show ?thesis
    by (elim exE conjE) (intro exI conjI, assumption+)
qed

section \<open>Request hash\<close>

lemma sep_inject:
  "\<lbrakk>c \<notin> set a; c \<notin> set a'; a @ c # r = a' @ c # r'\<rbrakk> \<Longrightarrow> a = a' \<and> r = r'"
  by (induction a arbitrary: a') (auto simp: Cons_eq_append_conv append_eq_Cons_conv)

lemma str_upper_nul: "CHR 0x00 \<notin> set m \<Longrightarrow> CHR 0x00 \<notin> set (str_upper m)"
proof -
  have "upper_char c \<noteq> CHR 0x00" if "c \<noteq> CHR 0x00" for c
  proof
    assume "upper_char c = CHR 0x00"
    then have z: "(of_char (upper_char c) :: nat) = 0" by simp
    show False
    proof (cases "97 \<le> (of_char c :: nat) \<and> (of_char c :: nat) \<le> 122")
      case True
      then have "upper_char c = char_of ((of_char c :: nat) - 32)" by (simp add: upper_char_def)
      moreover have "((of_char c :: nat) - 32) mod 256 = of_char c - 32"
        using True by (intro mod_less) linarith
      ultimately have "(of_char (upper_char c) :: nat) = of_char c - 32" by simp
      with z True show False by linarith
    next
      case False
      then have "(of_char c :: nat) = of_char CHR 0x00" using z by (auto simp: upper_char_def)
      then have "c = CHR 0x00" by (simp only: of_char_eq_iff)
      with that show False by simp
    qed
  qed
  moreover assume "CHR 0x00 \<notin> set m"
  ultimately show ?thesis unfolding str_upper_def by (metis imageE list.set_map)
qed

text \<open>
  The request hash binds the request: if the method, the path and the principal contain no NUL
  byte and the digest of the two requests is the same only for the same bytes, then two requests have
  the same hash exactly when their methods agree up to case and their path, principal and body are
  equal.
\<close>

theorem request_hash_binds:
  assumes "CHR 0x00 \<notin> set m" "CHR 0x00 \<notin> set m'" "CHR 0x00 \<notin> set path" "CHR 0x00 \<notin> set path'"
    and "CHR 0x00 \<notin> set pr" "CHR 0x00 \<notin> set pr'"
    and "\<And>x y. sha256_hex x = sha256_hex y \<Longrightarrow> x = y"
  shows "build_request_hash sha256_hex m path b pr = build_request_hash sha256_hex m' path' b' pr' \<longleftrightarrow>
     str_upper m = str_upper m' \<and> path = path' \<and> pr = pr' \<and> b = b'"
proof
  assume "build_request_hash sha256_hex m path b pr = build_request_hash sha256_hex m' path' b' pr'"
  then have eq: "str_upper m @ CHR 0x00 # path @ CHR 0x00 # pr @ CHR 0x00 # b =
      str_upper m' @ CHR 0x00 # path' @ CHR 0x00 # pr' @ CHR 0x00 # b'"
    using assms(7) by (simp add: build_request_hash_def request_preimage_def)
  note 1 = sep_inject [OF str_upper_nul [OF assms(1)] str_upper_nul [OF assms(2)] eq]
  note 2 = sep_inject [OF assms(3,4) conjunct2 [OF 1]]
  note 3 = sep_inject [OF assms(5,6) conjunct2 [OF 2]]
  from 1 2 3 show "str_upper m = str_upper m' \<and> path = path' \<and> pr = pr' \<and> b = b'" by simp
qed (simp add: build_request_hash_def request_preimage_def)

theorem request_hash_binds_witness:
  "build_request_hash id ''post'' ''/v1/x'' ''{}'' ''u1'' \<noteq> build_request_hash id ''POST'' ''/v1/x'' ''{}'' ''u2''"
  using request_hash_binds [of "''post''" "''POST''" "''/v1/x''" "''/v1/x''" "''u1''" "''u2''" id "''{}''" "''{}''"]
  by simp

end
