(* ===== verification/Task_Outbox.thy ===== *)
theory Task_Outbox
  imports Task_Service Outbox Idempotency
begin

text \<open>
  Task dispatch through the transactional outbox (\<open>src/app/modules/messaging/tasks/outbox.py\<close>) and
  the worker's housekeeping loops (\<open>tasks/relay.py\<close>).

  The dispatcher's state is the pair of the two tables; \<open>transaction\<close> rolls both back. \<open>uuid k\<close> is
  the \<open>k\<close>-th id drawn. A loop that runs until \<open>stop\<close> is set is a \<open>partial_function\<close>: \<open>stop k\<close> is what
  its \<open>k\<close>-th look at the event sees, and \<open>None\<close> means that it runs for ever.
\<close>

section \<open>The dispatcher\<close>

definition TASK_EVENT_PREFIX :: string where
  "TASK_EVENT_PREFIX = ''task.''"

text \<open>What \<open>_task_event\<close> adds to the session.\<close>

definition task_event ::
  "string \<Rightarrow> datetime \<Rightarrow> string \<Rightarrow> string \<Rightarrow> string option \<Rightarrow> pg_outbox \<Rightarrow> (exn + unit) \<times> pg_outbox" where
  "task_event uuid now task_id typ request_id s = (case TaskMessage task_id typ request_id of
      Inl e \<Rightarrow> (Inl e, s)
    | Inr m \<Rightarrow> insert_outbox_row (new_outbox_row uuid now (TASK_EVENT_PREFIX @ typ) (to_body m) None None) s)"

fun task_events ::
  "(nat \<Rightarrow> string) \<Rightarrow> datetime \<Rightarrow> nat \<Rightarrow> task_ref list \<Rightarrow> pg_outbox \<Rightarrow> (exn + unit) \<times> pg_outbox" where
  "task_events uuid now k [] s = (Inr (), s)"
| "task_events uuid now k (r # rs) s =
     (case task_event (uuid k) now (ref_id r) (ref_type r) (ref_request_id r) s of
        (Inl e, s') \<Rightarrow> (Inl e, s')
      | (Inr _, s') \<Rightarrow> task_events uuid now (Suc k) rs s')"

definition outbox_submit ::
  "string \<Rightarrow> datetime \<Rightarrow> task \<Rightarrow> pg_tasks \<times> pg_outbox \<Rightarrow> (exn + unit) \<times> pg_tasks \<times> pg_outbox" where
  "outbox_submit uuid now t = transaction (\<lambda>(ts, os).
     (case pgt_create now t ts of
        (Inl e, ts') \<Rightarrow> (Inl e, ts', os)
      | (Inr _, ts') \<Rightarrow>
          (let (r, os') = task_event uuid now (t_id t) (t_type t) (t_request_id t) os in (r, ts', os'))))"

definition outbox_reclaim ::
  "(nat \<Rightarrow> string) \<Rightarrow> datetime \<Rightarrow> int \<Rightarrow> int \<Rightarrow> pg_tasks \<times> pg_outbox \<Rightarrow> (exn + nat) \<times> pg_tasks \<times> pg_outbox" where
  "outbox_reclaim uuid now limit maximum = transaction (\<lambda>(ts, os).
     (case reclaim_stale_in now limit maximum ts of
        (Inl e, ts') \<Rightarrow> (Inl e, ts', os)
      | (Inr refs, ts') \<Rightarrow> (case task_events uuid now 0 refs os of
            (Inl e, os') \<Rightarrow> (Inl e, ts', os')
          | (Inr _, os') \<Rightarrow> (Inr (length refs), ts', os'))))"

text \<open>The relay's sink; its state is the queue and the number of messages it has sent.\<close>

definition task_sink :: "'q queue_api \<Rightarrow> (nat \<Rightarrow> string) \<Rightarrow> ('q \<times> nat) outbox_sink" where
  "task_sink q_api uuid r now st = (case st of (q, k) \<Rightarrow>
     (case from_body (ob_payload r) of
        Inl e \<Rightarrow> (Inl e, q, k)
      | Inr m \<Rightarrow> (case q_send q_api (uuid k) (to_body m) q of
            (Inl e, q') \<Rightarrow> (Inl e, q', Suc k)
          | (Inr _, q') \<Rightarrow> (Inr (), q', Suc k))))"

section \<open>The loops\<close>

text \<open>An exception of a step is logged; the next look at \<open>stop\<close> comes after the wait.\<close>

partial_function (option) every :: "(nat \<Rightarrow> bool) \<Rightarrow> (nat \<Rightarrow> 's \<Rightarrow> (exn + unit) \<times> 's) \<Rightarrow> nat \<Rightarrow> 's \<Rightarrow> 's option" where
  "every stop step k s = (if stop k then Some s else every stop step (Suc k) (snd (step k s)))"

partial_function (option) drain ::
  "(nat \<Rightarrow> bool) \<Rightarrow> ('s \<Rightarrow> (exn + nat) \<times> 's) \<Rightarrow> int \<Rightarrow> nat \<Rightarrow> nat \<Rightarrow> 's \<Rightarrow> ((exn + nat) \<times> 's) option" where
  "drain stop delete_batch batch_size k acc s =
     (if stop k then Some (Inr acc, s)
      else (case delete_batch s of
          (Inl e, s') \<Rightarrow> Some (Inl e, s')
        | (Inr deleted, s') \<Rightarrow>
            if int deleted < batch_size then Some (Inr (acc + deleted), s')
            else drain stop delete_batch batch_size (Suc k) (acc + deleted) s'))"

declare every.simps [code] drain.simps [code]

definition relay_step ::
  "'s outbox_api \<Rightarrow> 'k outbox_sink \<Rightarrow> publisher \<Rightarrow> (exn \<Rightarrow> string) \<Rightarrow> (nat \<Rightarrow> rat) \<Rightarrow> int \<Rightarrow> datetime \<Rightarrow>
   's \<times> 'k \<Rightarrow> (exn + unit) \<times> 's \<times> 'k" where
  "relay_step api sink p str_exc rng batch_size now st =
     (case publish_pending api sink p str_exc rng batch_size now 60 st of
        (Inl e, st') \<Rightarrow> (Inl e, st') | (Inr _, st') \<Rightarrow> (Inr (), st'))"

definition reclaim_step ::
  "(datetime \<Rightarrow> int \<Rightarrow> int \<Rightarrow> 'w \<Rightarrow> (exn + nat) \<times> 'w) \<Rightarrow> int \<Rightarrow> int \<Rightarrow> datetime \<Rightarrow> 'w \<Rightarrow> (exn + unit) \<times> 'w" where
  "reclaim_step reclaim batch_size maximum now w =
     (case reclaim now batch_size maximum w of
        (Inl e, w') \<Rightarrow> (Inl e, w') | (Inr _, w') \<Rightarrow> (Inr (), w'))"

text \<open>
  The three stores of the cleanup loop; the optional ones may be absent. \<open>stops\<close> gives what the three
  drains see of the event.
\<close>

record ('t, 'o, 'i) cleanup_state =
  cl_tasks :: 't
  cl_outbox :: "'o option"
  cl_keys :: "'i option"

definition drain_opt ::
  "(nat \<Rightarrow> bool) \<Rightarrow> ('s \<Rightarrow> (exn + nat) \<times> 's) \<Rightarrow> int \<Rightarrow> 's option \<Rightarrow> ((exn + nat) \<times> 's option) option" where
  "drain_opt stop delete_batch batch_size s = (case s of
      None \<Rightarrow> Some (Inr 0, None)
    | Some x \<Rightarrow> map_option (map_prod id Some) (drain stop delete_batch batch_size 0 0 x))"

definition cleanup_step ::
  "(nat \<Rightarrow> nat \<Rightarrow> bool) \<Rightarrow> 't task_api \<Rightarrow> 'o outbox_api \<Rightarrow> (datetime \<Rightarrow> int \<Rightarrow> 'i \<Rightarrow> (exn + nat) \<times> 'i) \<Rightarrow> int \<Rightarrow>
   seconds \<Rightarrow> datetime \<Rightarrow> ('t, 'o, 'i) cleanup_state \<Rightarrow>
   ((exn + nat \<times> nat \<times> nat) \<times> ('t, 'o, 'i) cleanup_state) option" where
  "cleanup_step stops t_api o_api delete_keys batch_size outbox_retention_seconds now s =
     (case drain (stops 0) (tk_delete_expired t_api now batch_size) batch_size 0 0 (cl_tasks s) of
        None \<Rightarrow> None
      | Some (Inl e, t') \<Rightarrow> Some (Inl e, s\<lparr>cl_tasks := t'\<rparr>)
      | Some (Inr tasks, t') \<Rightarrow>
         (let s1 = s\<lparr>cl_tasks := t'\<rparr>; cutoff = now - timedelta_float outbox_retention_seconds in
          case drain_opt (stops 1) (ob_delete_published o_api cutoff batch_size) batch_size (cl_outbox s1) of
            None \<Rightarrow> None
          | Some (Inl e, o') \<Rightarrow> Some (Inl e, s1\<lparr>cl_outbox := o'\<rparr>)
          | Some (Inr events, o') \<Rightarrow>
             (let s2 = s1\<lparr>cl_outbox := o'\<rparr> in
              case drain_opt (stops 2) (delete_keys now batch_size) batch_size (cl_keys s2) of
                None \<Rightarrow> None
              | Some (Inl e, i') \<Rightarrow> Some (Inl e, s2\<lparr>cl_keys := i'\<rparr>)
              | Some (Inr keys, i') \<Rightarrow> Some (Inr (tasks, events, keys), s2\<lparr>cl_keys := i'\<rparr>))))"

section \<open>Draining\<close>

text \<open>
  What a bounded delete promises: it removes some of the entries that are due, as many as the limit
  allows, and reports their number. \<open>todo\<close> is the number of due entries.
\<close>

locale batch_delete =
  fixes delete_batch :: "'s \<Rightarrow> (exn + nat) \<times> 's" and inv :: "'s \<Rightarrow> bool" and todo :: "'s \<Rightarrow> nat" and batch_size :: int
  assumes batch_law: "\<lbrakk>0 < batch_size; inv s\<rbrakk> \<Longrightarrow> \<exists>s'. delete_batch s = (Inr (min (nat batch_size) (todo s)), s') \<and> inv s'
          \<and> todo s' = todo s - min (nat batch_size) (todo s)"
begin

lemma drain_complete:
  assumes "inv s" and "\<And>j. \<not> stop j" and batch_pos: "0 < batch_size"
  shows "\<exists>s'. drain stop delete_batch batch_size k acc s = Some (Inr (acc + todo s), s') \<and> inv s' \<and> todo s' = 0"
  using assms(1)
proof (induction "todo s" arbitrary: s k acc rule: less_induct)
  case less
  from batch_law [OF batch_pos less.prems] obtain s' where s': "delete_batch s = (Inr (min (nat batch_size) (todo s)), s')"
    "inv s'" "todo s' = todo s - min (nat batch_size) (todo s)" by blast
  show ?case
  proof (cases "todo s < nat batch_size")
    case True
    then have "int (min (nat batch_size) (todo s)) < batch_size" "todo s' = 0" using s'(3) by linarith+
    with True s' assms(2) show ?thesis by (subst drain.simps) (simp add: min_def)
  next
    case False
    have m: "min (nat batch_size) (todo s) = nat batch_size" using False by simp
    have "todo s' < todo s" using s'(3) m False batch_pos by linarith
    from less.hyps [OF this s'(2), of "Suc k" "acc + nat batch_size"] obtain s'' where
      "drain stop delete_batch batch_size (Suc k) (acc + nat batch_size) s' = Some (Inr (acc + nat batch_size + todo s'), s'')"
      "inv s''" "todo s'' = 0" by blast
    moreover have "nat batch_size + todo s' = todo s" using s'(3) m False by linarith
    ultimately show ?thesis using s'(1) m assms(2) batch_pos by (subst drain.simps) (simp add: add.assoc)
  qed
qed

lemma drain_stops:
  assumes "inv s" and "stop n" and "k \<le> n" and batch_pos: "0 < batch_size"
  shows "\<exists>d s'. drain stop delete_batch batch_size k acc s = Some (Inr (acc + d), s') \<and> inv s' \<and> todo s' + d = todo s"
  using assms(1,3)
proof (induction "n - k" arbitrary: s k acc)
  case 0
  then have "stop k" using assms(2) by simp
  with 0 show ?case by (intro exI [of _ 0] exI [of _ s]) (subst drain.simps, simp)
next
  case (Suc j)
  from batch_law [OF batch_pos Suc.prems(1)] obtain s' where s': "delete_batch s = (Inr (min (nat batch_size) (todo s)), s')"
    "inv s'" "todo s' = todo s - min (nat batch_size) (todo s)" by blast
  let ?d = "min (nat batch_size) (todo s)"
  have d: "todo s' + ?d = todo s" using s'(3) by linarith
  consider "stop k" | "\<not> stop k" "int ?d < batch_size" | "\<not> stop k" "\<not> int ?d < batch_size" by blast
  then show ?case
  proof cases
    case 1
    with Suc.prems(1) show ?thesis by (intro exI [of _ 0] exI [of _ s]) (subst drain.simps, simp)
  next
    case 2
    have t: "int (todo s) < batch_size" using 2(2) by linarith
    with 2 s' d show ?thesis by (intro exI [of _ ?d] exI [of _ s']) (subst drain.simps, simp)
  next
    case 3
    have "j = n - Suc k" "Suc k \<le> n" using Suc.hyps(2) by simp_all
    from Suc.hyps(1) [OF this(1) s'(2) this(2), of "acc + ?d"] obtain d' s'' where
      "drain stop delete_batch batch_size (Suc k) (acc + ?d) s' = Some (Inr (acc + ?d + d'), s'')"
      "inv s''" "todo s'' + d' = todo s'" by blast
    with 3 s'(1) d show ?thesis by (intro exI [of _ "?d + d'"] exI [of _ s'']) (subst drain.simps, simp add: add.assoc)
  qed
qed

end

text \<open>The stores' bounded deletes are such batches.\<close>

lemma shrink_card: "\<lbrakk>finite A; S \<subseteq> A\<rbrakk> \<Longrightarrow> card (A - S) = card A - card S"
  using card_Diff_subset finite_subset by blast

lemma task_batch:
  assumes st: "task_store api ok av"
  shows "batch_delete (tk_delete_expired api before batch_size) ok (\<lambda>s. card (expired (av s) before)) batch_size"
proof
  fix s assume pos: "0 < batch_size" and inv: "ok s"
  obtain r s' where op: "tk_delete_expired api before batch_size s = (r, s')" by (cases "tk_delete_expired api before batch_size s")
  from task_store.delete_expired_law [OF st inv op] pos obtain S where S: "ok s'" "r = Inr (card S)"
      "S \<subseteq> expired (av s) before" "card S = min (nat batch_size) (card (expired (av s) before))"
      "av s' = (av s) |` (- S)" by auto
  have "finite (expired (av s) before)"
    using task_store.finite_tasks [OF st inv] by (rule finite_subset [rotated]) (auto simp: expired_def)
  moreover have "expired (av s') before = expired (av s) before - S"
    unfolding S(5) by (auto simp: expired_def restrict_map_def split: if_splits)
  ultimately have "card (expired (av s') before) = card (expired (av s) before) - card S"
    using S(3) by (simp add: shrink_card)
  with op S show "\<exists>s'. tk_delete_expired api before batch_size s =
      (Inr (min (nat batch_size) (card (expired (av s) before))), s') \<and> ok s'
      \<and> card (expired (av s') before) = card (expired (av s) before) - min (nat batch_size) (card (expired (av s) before))"
    by auto
qed

lemma event_batch:
  assumes st: "outbox_store api ok av"
  shows "batch_delete (ob_delete_published api before batch_size) ok (\<lambda>s. card (old_events (av s) before)) batch_size"
proof
  fix s assume pos: "0 < batch_size" and inv: "ok s"
  obtain r s' where op: "ob_delete_published api before batch_size s = (r, s')" by (cases "ob_delete_published api before batch_size s")
  from outbox_store.delete_law [OF st inv op] pos obtain S where S: "ok s'" "r = Inr (card S)"
      "S \<subseteq> old_events (av s) before" "card S = min (nat batch_size) (card (old_events (av s) before))"
      "av s' = (av s) |` (- S)" by auto
  have "finite (old_events (av s) before)"
    using outbox_store.finite_events [OF st inv] by (rule finite_subset [rotated]) (auto simp: old_events_def)
  moreover have "old_events (av s') before = old_events (av s) before - S"
    unfolding S(5) by (auto simp: old_events_def restrict_map_def split: if_splits)
  ultimately have "card (old_events (av s') before) = card (old_events (av s) before) - card S"
    using S(3) by (simp add: shrink_card)
  with op S show "\<exists>s'. ob_delete_published api before batch_size s =
      (Inr (min (nat batch_size) (card (old_events (av s) before))), s') \<and> ok s'
      \<and> card (old_events (av s') before) = card (old_events (av s) before) - min (nat batch_size) (card (old_events (av s) before))"
    by auto
qed

interpretation task_purge: batch_delete "pgt_delete_expired take before n" pg_tasks_inv
  "\<lambda>s. card (expired (pg_tasks_abs s) before)" n for before n
  using task_batch [OF pg_task_store [OF limit_ok_take], of before n] by (simp add: pg_tasks_api_sel)

interpretation event_purge: batch_delete "pgo_delete_published take before n" pg_outbox_inv
  "\<lambda>s. card (old_events (pg_outbox_abs s) before)" n for before n
  using event_batch [OF pg_outbox_store [OF limit_ok_take], of before n] by (simp add: pg_outbox_api_sel)

section \<open>The dispatcher is atomic\<close>

lemma outbox_submit_cases:
  assumes "pg_tasks_inv ts" "pg_outbox_inv os" and op: "outbox_submit uuid now t (ts, os) = (r, ts', os')"
  shows "case r of
      Inl e \<Rightarrow> ts' = ts \<and> os' = os
    | Inr _ \<Rightarrow> pg_tasks_inv ts' \<and> pg_outbox_inv os' \<and> pg_tasks_abs ts (t_id t) = None \<and> pg_outbox_abs os uuid = None
        \<and> pg_tasks_abs ts' = (pg_tasks_abs ts)(t_id t \<mapsto> core t)
        \<and> (\<exists>m. m = \<lparr>msg_task_id = t_id t, msg_type = t_type t, msg_request_id = t_request_id t\<rparr> \<and> message_valid m
            \<and> pg_outbox_abs os' = (pg_outbox_abs os)(uuid \<mapsto>
                new_event uuid now (TASK_EVENT_PREFIX @ t_type t) (to_body m) None None))"
proof -
  obtain rc ts1 where c: "pgt_create now t ts = (rc, ts1)" by (cases "pgt_create now t ts")
  let ?m = "\<lparr>msg_task_id = t_id t, msg_type = t_type t, msg_request_id = t_request_id t\<rparr>"
  let ?row = "new_outbox_row uuid now (TASK_EVENT_PREFIX @ t_type t) (to_body ?m) None None"
  note law = pgt_create_law [OF assms(1) c]
  show ?thesis
  proof (cases r)
    case (Inl e)
    then show ?thesis using op by (auto simp: outbox_submit_def transaction_def split: prod.splits sum.splits)
  next
    case (Inr u)
    with op c have ok: "rc = Inr ()" "message_valid ?m" "insert_outbox_row ?row os = (Inr (), os')" "ts' = ts1"
      by (auto simp: outbox_submit_def transaction_def task_event_def TaskMessage_def Let_def
          split: prod.splits sum.splits if_splits)
    have enq: "pgo_enqueue uuid now (TASK_EVENT_PREFIX @ t_type t) (to_body ?m) None None os =
        (Inr (outbox_to_record ?row), os')" using ok(3) by (simp add: pgo_enqueue_def)
    from pgo_enqueue_law [OF assms(2) enq] law ok Inr show ?thesis by (auto split: if_splits)
  qed
qed

text \<open>
  C23. Submitting through the outbox is atomic: after any histories of the two tables, a submit that
  fails leaves both as they were. One that succeeds adds exactly the queued task and one pending
  event of the task family, due at once, whose payload the worker reads as that task's id, type and
  request id.
\<close>

theorem outbox_submit_atomic:
  assumes "outbox_submit uuid now t (pg_history xs, outbox_history ys) = (r, ts', os')"
  shows "case r of
      Inl e \<Rightarrow> ts' = pg_history xs \<and> os' = outbox_history ys
    | Inr _ \<Rightarrow> pg_tasks_abs ts' = (pg_tasks_abs (pg_history xs))(t_id t \<mapsto> core t)
        \<and> (\<exists>e. pg_outbox_abs os' = (pg_outbox_abs (outbox_history ys))(uuid \<mapsto> e) \<and> pg_outbox_abs (outbox_history ys) uuid = None
            \<and> event_due now (Some TASK_EVENT_PREFIX) e
            \<and> from_body (ob_payload e) = Inr \<lparr>msg_task_id = t_id t, msg_type = t_type t, msg_request_id = t_request_id t\<rparr>)"
proof -
  have rt: "from_body (to_body m) = Inr m" if "message_valid m" for m
    using that by (cases m; cases "msg_request_id m")
      (auto simp: message_valid_def from_body_def to_body_def message_errors_def str_field_errors_def str_field_def dflt_def)
  have pre: "sql_startswith TASK_EVENT_PREFIX (TASK_EVENT_PREFIX @ ty)" for ty
    by (subst sql_startswith_plain) (auto simp: TASK_EVENT_PREFIX_def)
  from outbox_submit_cases [OF history_inv(2) outbox_history_inv assms] rt pre show ?thesis
    by (auto simp: new_event_def event_due_def dflt_def split: sum.splits)
qed

theorem outbox_submit_atomic_witness:
  "let (r, ts', os') = outbox_submit ''e1'' 0 sample_task (pg_history [], outbox_history []) in
   r = Inr () \<and> pg_tasks_abs ts' ''t1'' = Some (core sample_task)"
proof -
  let ?x = "outbox_submit ''e1'' 0 sample_task (pg_history [], outbox_history [])"
  have x: "fst ?x = Inr ()" by code_simp
  then have "?x = (Inr (), fst (snd ?x), snd (snd ?x))" by (metis surjective_pairing)
  from outbox_submit_atomic [OF this]
  have "pg_tasks_abs (fst (snd ?x)) = (pg_tasks_abs (pg_history []))(t_id sample_task \<mapsto> core sample_task)" by simp
  moreover have "t_id sample_task = ''t1''" by (simp add: sample_task_def)
  ultimately show ?thesis unfolding split_def Let_def using x by simp
qed

text \<open>
  C24. The cleanup loop's drain ends and leaves nothing behind: after any history of the Postgres task
  store, draining in batches of any positive size returns, unless stopped with the number of all
  expired tasks and none of them left; if the stop event is ever set, it returns as well, and what it
  reports plus what is left is what was expired.
\<close>

theorem drain_purges_expired:
  assumes "0 < batch_size"
  shows "(if \<exists>n. stop n
     then \<exists>d s'. drain stop (pgt_delete_expired take before batch_size) batch_size 0 0 (pg_history ys) = Some (Inr d, s')
       \<and> card (expired (pg_tasks_abs s') before) + d = card (expired (pg_tasks_abs (pg_history ys)) before)
     else \<exists>s'. drain stop (pgt_delete_expired take before batch_size) batch_size 0 0 (pg_history ys) =
         Some (Inr (card (expired (pg_tasks_abs (pg_history ys)) before)), s')
       \<and> card (expired (pg_tasks_abs s') before) = 0)"
proof (cases "\<exists>n. stop n")
  case True
  then obtain n where "stop n" ..
  from task_purge.drain_stops [of "pg_history ys" stop n 0 batch_size before 0, OF history_inv(2) this _ assms] True
  show ?thesis by auto
next
  case False
  then have no: "\<not> stop j" for j by simp
  from task_purge.drain_complete [of "pg_history ys" stop batch_size before 0 0, OF history_inv(2) no assms] False
  show ?thesis by auto
qed

theorem drain_purges_expired_witness:
  "\<exists>s'. drain (\<lambda>_. False) (pgt_delete_expired take (timedelta 200) 1) 1 0 0 (pg_history [TCreate 0 sample_task]) =
       Some (Inr (card (expired (pg_tasks_abs (pg_history [TCreate 0 sample_task])) (timedelta 200))), s')
     \<and> card (expired (pg_tasks_abs s') (timedelta 200)) = 0"
  using drain_purges_expired [of 1 "\<lambda>_. False" "timedelta 200" "[TCreate 0 sample_task]"] by simp

section \<open>From submission to the queue\<close>

lemma task_sink_step:
  assumes "task_sink mem_queue_api uuid r now (q, k) = (x, q', k')" "\<not> mq_closed q"
  shows "\<not> mq_closed q' \<and> set (mq_queue q) \<subseteq> set (mq_queue q')
     \<and> (\<forall>m. from_body (ob_payload r) = Inr m \<longrightarrow> x = Inr () \<and> (\<exists>msg \<in> set (mq_queue q'). qm_body msg = to_body m))"
  using assms by (auto simp: task_sink_def mem_queue_api_def mem_send_def split: sum.splits)

lemma run_task_sink:
  "\<lbrakk>run_sink (task_sink mem_queue_api uuid) now recs (q, k) = (xs, q', k'); \<not> mq_closed q\<rbrakk> \<Longrightarrow>
   \<not> mq_closed q' \<and> set (mq_queue q) \<subseteq> set (mq_queue q')
   \<and> (\<forall>j < length recs. \<forall>m. from_body (ob_payload (recs ! j)) = Inr m \<longrightarrow>
        xs ! j = Inr () \<and> (\<exists>msg \<in> set (mq_queue q'). qm_body msg = to_body m))"
proof (induction recs arbitrary: q k xs)
  case (Cons r recs)
  obtain x q1 k1 where s: "task_sink mem_queue_api uuid r now (q, k) = (x, q1, k1)"
    by (cases "task_sink mem_queue_api uuid r now (q, k)") auto
  with Cons.prems obtain ys where ys: "run_sink (task_sink mem_queue_api uuid) now recs (q1, k1) = (ys, q', k')" "xs = x # ys"
    by (auto split: prod.splits)
  note step = task_sink_step [OF s Cons.prems(2)]
  note IH = Cons.IH [OF ys(1) conjunct1 [OF step]]
  have first: "x = Inr () \<and> (\<exists>msg \<in> set (mq_queue q'). qm_body msg = to_body m)"
    if "from_body (ob_payload r) = Inr m" for m
    using step IH that by blast
  show ?case
  proof (intro conjI allI impI)
    fix j m assume "j < length (r # recs)" "from_body (ob_payload ((r # recs) ! j)) = Inr m"
    then show "xs ! j = Inr ()" "\<exists>msg \<in> set (mq_queue q'). qm_body msg = to_body m"
      using first IH ys(2) by (auto simp: nth_Cons split: nat.splits)
  qed (use step IH in auto)
qed simp

lemma events_after_nth:
  "\<lbrakk>length rs = length xs; j < length rs\<rbrakk> \<Longrightarrow>
   events_after p se rng now n rs xs ! j = event_after p se (rng (n + j)) now (rs ! j) (xs ! j)"
proof (induction rs xs arbitrary: n j rule: list_induct2)
  case (Cons r rs x xs)
  then show ?case by (cases j) simp_all
qed simp

lemma overwrite_nth:
  assumes "distinct (map ob_id evs)" "j < length evs"
  shows "overwrite evs m (ob_id (evs ! j)) = Some (evs ! j)"
proof -
  have "map_of (map (\<lambda>r. (ob_id r, r)) evs) (ob_id (evs ! j)) = Some (evs ! j)"
    using assms by (intro map_of_is_SomeI) (auto simp: o_def)
  then show ?thesis by (simp add: overwrite_def)
qed

text \<open>
  C25. A submitted task reaches the queue: after any histories of the two tables, once a submit through
  the outbox has succeeded, one round of the relay that starts no earlier than the submit, whose limit covers all due task events
  and whose queue is the in-memory one, still open, puts a message on the queue that the worker reads as that task, and
  marks its event published. (With a longer backlog the event waits for a later round.)
\<close>

theorem submitted_task_reaches_queue:
  assumes sub: "outbox_submit uuid now t (pg_history xs, outbox_history ys) = (Inr (), ts', os')"
    and "now \<le> now'" and open_queue: "\<not> mq_closed q"
    and limit: "0 < limit" "int (card (due (pg_outbox_abs os') now' (Some TASK_EVENT_PREFIX))) \<le> limit"
  shows "\<exists>rep s' q' k'. publish_pending (pg_outbox_api take) (task_sink mem_queue_api ids)
        (OutboxPublisher None (Some TASK_EVENT_PREFIX)) str_exc rng limit now' 60 (os', q, 0) = (Inr rep, s', q', k')
     \<and> (\<exists>msg \<in> set (mq_queue q'). from_body (qm_body msg) =
          Inr \<lparr>msg_task_id = t_id t, msg_type = t_type t, msg_request_id = t_request_id t\<rparr>)
     \<and> map_option ob_status (pg_outbox_abs s' uuid) = Some OUTBOX_PUBLISHED"
proof -
  let ?m = "\<lparr>msg_task_id = t_id t, msg_type = t_type t, msg_request_id = t_request_id t\<rparr>"
  let ?p = "OutboxPublisher None (Some TASK_EVENT_PREFIX)" and ?D = "due (pg_outbox_abs os') now' (Some TASK_EVENT_PREFIX)"
  have pfx: "pub_prefix ?p = Some TASK_EVENT_PREFIX" by (simp add: OutboxPublisher_def)
  from outbox_submit_cases [OF history_inv(2) outbox_history_inv sub]
  have inv: "pg_outbox_inv os'" and valid: "message_valid ?m" and e: "pg_outbox_abs os' uuid =
      Some (new_event uuid now (TASK_EVENT_PREFIX @ t_type t) (to_body ?m) None None)" by auto
  have rt: "from_body (to_body ?m) = Inr ?m"
    using valid by (cases "t_request_id t") (auto simp: message_valid_def from_body_def to_body_def
        message_errors_def str_field_errors_def str_field_def dflt_def)
  have pre: "sql_startswith TASK_EVENT_PREFIX (TASK_EVENT_PREFIX @ ty)" for ty
    by (subst sql_startswith_plain) (auto simp: TASK_EVENT_PREFIX_def)
  have due: "uuid \<in> ?D" using e pre \<open>now \<le> now'\<close> by (simp add: due_def event_due_def new_event_def dflt_def)
  from pg_outbox.publish_pending_law [OF inv limit(1), where lock = 60 and p = ?p and now = now'
      and sink = "task_sink mem_queue_api ids" and k = "(q, 0)" and str_exc = str_exc and rng = rng]
  obtain recs xs s' q' k' rep where c: "fst (pgo_claim_pending limit now' 60 (Some TASK_EVENT_PREFIX) os') = Inr recs"
    and recs: "distinct (map ob_id recs)" "ob_id ` set recs \<subseteq> ?D" "length recs = min (nat limit) (card ?D)"
    and sink: "run_sink (task_sink mem_queue_api ids) now' recs (q, 0) = (xs, q', k')"
    and pub: "publish_pending (pg_outbox_api take) (task_sink mem_queue_api ids) ?p str_exc rng limit now' 60 (os', q, 0) = (Inr rep, s', q', k')"
    and s': "pg_outbox_abs s' = overwrite (events_after ?p str_exc rng now' 0 recs xs) (pg_outbox_abs os')"
    unfolding pfx pg_outbox_api_sel Let_def by auto
  have fin: "finite ?D" using pg_outbox.finite_events [OF inv] by (rule finite_subset [rotated]) (auto simp: due_def)
  have "length recs = card ?D" using recs(3) limit by linarith
  then have "card (ob_id ` set recs) = card ?D" using distinct_card [OF recs(1)] by simp
  then have "ob_id ` set recs = ?D" using card_subset_eq [OF fin recs(2)] by simp
  then obtain j where j: "j < length recs" "ob_id (recs ! j) = uuid" using due by (metis imageE in_set_conv_nth)
  obtain s1 where "pgo_claim_pending limit now' 60 (Some TASK_EVENT_PREFIX) os' = (Inr recs, s1)" using c by (metis surjective_pairing)
  from pgo_claim_law [OF inv this] limit(1)
  have r: "pg_outbox_abs s1 uuid = Some (recs ! j)" and s1: "pg_outbox_abs s1 = lock_events (ob_id ` set recs) (now' + timedelta_float 60) (pg_outbox_abs os')"
    using j by (auto dest: nth_mem)
  have "map_option ob_payload (pg_outbox_abs s1 uuid) = map_option ob_payload (pg_outbox_abs os' uuid)"
    unfolding s1 lock_events_def by (simp add: option.map_comp o_def)
  then have "ob_payload (recs ! j) = to_body ?m" unfolding r e by (simp add: new_event_def)
  with rt run_task_sink [OF sink open_queue] j(1) have out: "xs ! j = Inr ()"
    and msg: "\<exists>msg \<in> set (mq_queue q'). qm_body msg = to_body ?m" by auto
  have len: "length recs = length xs" using run_sink_length [of "task_sink mem_queue_api ids" now' recs "(q, 0)"] sink by simp
  let ?evs = "events_after ?p str_exc rng now' 0 recs xs"
  have ids: "map ob_id ?evs = map ob_id recs" using len by (rule events_after_ids)
  then have evs: "length ?evs = length recs" "distinct (map ob_id ?evs)" "ob_id (?evs ! j) = uuid"
    using recs(1) j by (metis length_map, simp, metis length_map nth_map)
  have "ob_status (?evs ! j) = OUTBOX_PUBLISHED"
    using events_after_nth [OF len j(1), of ?p str_exc rng now' 0] out by (simp add: event_after_def published_def)
  moreover have "pg_outbox_abs s' uuid = Some (?evs ! j)"
    unfolding s' using overwrite_nth [OF evs(2), of j] evs(1,3) j(1) by simp
  moreover have "\<exists>msg \<in> set (mq_queue q'). from_body (qm_body msg) = Inr ?m" using msg rt by metis
  ultimately show ?thesis using pub by (intro exI [of _ rep] exI [of _ s'] exI [of _ q'] exI [of _ k']) auto
qed

theorem submitted_task_reaches_queue_witness:
  "let os' = snd (snd (outbox_submit ''e1'' 0 sample_task (pg_history [], outbox_history []))) in
   \<exists>rep s' q' k'. publish_pending (pg_outbox_api take) (task_sink mem_queue_api (\<lambda>_. ''m''))
        (OutboxPublisher None (Some TASK_EVENT_PREFIX)) (\<lambda>_. '''') (\<lambda>_. 0) 9 1 60 (os', InMemoryQueueGateway, 0) = (Inr rep, s', q', k')
     \<and> (\<exists>msg \<in> set (mq_queue q'). from_body (qm_body msg) =
          Inr \<lparr>msg_task_id = ''t1'', msg_type = ''completion'', msg_request_id = None\<rparr>)"
proof -
  let ?x = "outbox_submit ''e1'' 0 sample_task (pg_history [], outbox_history [])"
  have "fst ?x = Inr ()" by code_simp
  then have x: "?x = (Inr (), fst (snd ?x), snd (snd ?x))" by (metis surjective_pairing)
  have "length (snd (snd ?x)) = 1" by code_simp
  moreover have "card (due (pg_outbox_abs os) 1 (Some TASK_EVENT_PREFIX)) \<le> length os" for os
  proof -
    have "due (pg_outbox_abs os) 1 (Some TASK_EVENT_PREFIX) \<subseteq> or_id ` set os"
      using tab_some by (fastforce simp: due_def pg_outbox_abs_def)
    then have "card (due (pg_outbox_abs os) 1 (Some TASK_EVENT_PREFIX)) \<le> card (or_id ` set os)"
      by (intro card_mono) auto
    also have "\<dots> \<le> length os" by (metis card_length card_image_le dual_order.trans finite_set)
    finally show ?thesis .
  qed
  ultimately have few: "int (card (due (pg_outbox_abs (snd (snd ?x))) 1 (Some TASK_EVENT_PREFIX))) \<le> 9"
    by (smt (verit) of_nat_1 of_nat_le_iff)
  have q: "\<not> mq_closed InMemoryQueueGateway" by (simp add: InMemoryQueueGateway_def)
  have t: "t_id sample_task = ''t1''" "t_type sample_task = ''completion''" "t_request_id sample_task = None"
    by (simp_all add: sample_task_def)
  from submitted_task_reaches_queue [OF x _ q _ few, of "\<lambda>_. ''m''" "\<lambda>_. ''''" "\<lambda>_. 0"]
  show ?thesis unfolding t Let_def by simp blast
qed

end
