(* ===== verification/LLM.thy ===== *)
theory LLM
  imports Resilience
begin

text \<open>
  The model router and the failover walk (\<open>src/app/modules/ai/llm/router.py\<close> and \<open>runtime.py\<close>).

  The router's state is the breakers and models built so far. Clock readings are functions of the
  position in the chain: \<open>loop_time k\<close> is the event loop's clock when the \<open>k\<close>-th target is reached,
  \<open>gate_time k\<close> and \<open>report_time k\<close> the breaker's clock when it is asked and told. A call of a target is
  an argument: it gives an answer or an exception and whether the budget's timer expired, and acts on
  a state of its own. The walk also returns the calls it made, which is history only.
\<close>

section \<open>Router\<close>

datatype model_role = DefaultRole | Judge

record llm_settings =
  CHAT_MODEL :: string
  CHAT_FALLBACK_MODELS :: string
  JUDGE_CHAT_MODEL :: string
  ENVIRONMENT_is_local :: bool
  LLM_BREAKER_FAILURE_THRESHOLD :: int
  LLM_BREAKER_COOLDOWN_SECONDS :: seconds
  LLM_CHAIN_DEADLINE_SECONDS :: seconds

record router =
  rt_settings :: llm_settings
  rt_policy :: breaker_policy
  rt_breakers :: "((model_role \<times> string), breaker) dict"
  rt_models :: "string list"
  rt_judge_fallback_warned :: bool

definition ModelRouter :: "llm_settings \<Rightarrow> breaker_policy option \<Rightarrow> exn + router" where
  "ModelRouter settings policy =
     (case (case policy of Some p \<Rightarrow> Inr p
            | None \<Rightarrow> CircuitBreakerPolicy (LLM_BREAKER_FAILURE_THRESHOLD settings) (LLM_BREAKER_COOLDOWN_SECONDS settings)) of
        Inl e \<Rightarrow> Inl e
      | Inr p \<Rightarrow> Inr \<lparr>rt_settings = settings, rt_policy = p, rt_breakers = [], rt_models = [],
                     rt_judge_fallback_warned = False\<rparr>)"

text \<open>\<open>build\<close> gives the exception that building a target's model raises, if any; the empty target is the
  fake model.\<close>

definition model_for :: "(string \<Rightarrow> exn option) \<Rightarrow> string \<Rightarrow> router \<Rightarrow> (exn + unit) \<times> router" where
  "model_for build target r =
     (if target \<in> set (rt_models r) then (Inr (), r)
      else (case (if target = '''' then None else build target) of
          Some e \<Rightarrow> (Inl e, r)
        | None \<Rightarrow> (Inr (), r\<lparr>rt_models := rt_models r @ [target]\<rparr>)))"

definition judge_warning :: string where
  "judge_warning = ''JUDGE_CHAT_MODEL is empty, so the LLM judge would grade with the production CHAT_MODEL; set JUDGE_CHAT_MODEL to a separate model''"

definition on_judge_uses_production_model :: "router \<Rightarrow> (exn + unit) \<times> router" where
  "on_judge_uses_production_model r =
     (if \<not> ENVIRONMENT_is_local (rt_settings r) then (Inl (ValueError judge_warning), r)
      else (Inr (), r\<lparr>rt_judge_fallback_warned := True\<rparr>))"

definition primary_target :: "model_role \<Rightarrow> router \<Rightarrow> (exn + string) \<times> router" where
  "primary_target role r =
     (let s = rt_settings r in
      if role = Judge \<and> JUDGE_CHAT_MODEL s \<noteq> '''' then (Inr (JUDGE_CHAT_MODEL s), r)
      else if role = Judge \<and> CHAT_MODEL s \<noteq> ''''
        then (case on_judge_uses_production_model r of (Inl e, r') \<Rightarrow> (Inl e, r') | (Inr _, r') \<Rightarrow> (Inr (CHAT_MODEL s), r'))
      else (Inr (CHAT_MODEL s), r))"

text \<open>\<open>dict.fromkeys\<close> keeps the first of equal entries, in order.\<close>

fun dedupe :: "string list \<Rightarrow> string list" where
  "dedupe [] = []"
| "dedupe (x # xs) = x # dedupe (filter (\<lambda>y. y \<noteq> x) xs)"

definition chain :: "model_role \<Rightarrow> router \<Rightarrow> (exn + string list) \<times> router" where
  "chain role r = (case primary_target role r of
      (Inl e, r') \<Rightarrow> (Inl e, r')
    | (Inr p, r') \<Rightarrow> (Inr (dedupe (p # (if role = DefaultRole then split_csv (CHAT_FALLBACK_MODELS (rt_settings r)) else []))), r'))"

definition router_breaker :: "model_role \<Rightarrow> string \<Rightarrow> router \<Rightarrow> exn + breaker" where
  "router_breaker role target r = (case dict_get (rt_breakers r) (role, target) of
      Some b \<Rightarrow> Inr b | None \<Rightarrow> breaker_build (rt_policy r))"

text \<open>A method call on the target's breaker, which is built on first use.\<close>

definition with_breaker :: "model_role \<Rightarrow> string \<Rightarrow> (breaker \<Rightarrow> 'a \<times> breaker) \<Rightarrow> router \<Rightarrow> (exn + 'a) \<times> router" where
  "with_breaker role target f r = (case router_breaker role target r of
      Inl e \<Rightarrow> (Inl e, r)
    | Inr b \<Rightarrow> (let (x, b') = f b in (Inr x, r\<lparr>rt_breakers := dict_set (rt_breakers r) (role, target) b'\<rparr>)))"

definition router_try_acquire :: "seconds \<Rightarrow> string \<Rightarrow> model_role \<Rightarrow> router \<Rightarrow> (exn + bool) \<times> router" where
  "router_try_acquire now target role r = (case chain role r of
      (Inl e, r') \<Rightarrow> (Inl e, r')
    | (Inr ts, r') \<Rightarrow> if length ts = 1 then (Inr True, r') else with_breaker role target (try_acquire now) r')"

definition llm_unavailable :: exn where
  "llm_unavailable = AppError (ServiceUnavailableError (Some ''Every configured LLM target is unavailable'')
     (Some ''llm_unavailable'') None)"

fun select_loop :: "seconds \<Rightarrow> model_role \<Rightarrow> string list \<Rightarrow> router \<Rightarrow> (exn + string) \<times> router" where
  "select_loop now role [] r = (Inl llm_unavailable, r)"
| "select_loop now role (t # ts) r = (case router_try_acquire now t role r of
      (Inl e, r') \<Rightarrow> (Inl e, r')
    | (Inr True, r') \<Rightarrow> (Inr t, r')
    | (Inr False, r') \<Rightarrow> select_loop now role ts r')"

definition select_target :: "seconds \<Rightarrow> model_role \<Rightarrow> router \<Rightarrow> (exn + string) \<times> router" where
  "select_target now role r = (case chain role r of
      (Inl e, r') \<Rightarrow> (Inl e, r') | (Inr ts, r') \<Rightarrow> select_loop now role ts r')"

definition router_release :: "string \<Rightarrow> model_role \<Rightarrow> router \<Rightarrow> (exn + unit) \<times> router" where
  "router_release target role = with_breaker role target (\<lambda>b. ((), release_probe b))"

definition router_record_success :: "string \<Rightarrow> model_role \<Rightarrow> router \<Rightarrow> (exn + unit) \<times> router" where
  "router_record_success target role = with_breaker role target (\<lambda>b. ((), record_success b))"

definition router_record_error :: "seconds \<Rightarrow> string \<Rightarrow> exn \<Rightarrow> model_role \<Rightarrow> router \<Rightarrow> (exn + unit) \<times> router" where
  "router_record_error now target error role = with_breaker role target (\<lambda>b. ((), record_failure now error b))"

definition router_chat_model :: "(string \<Rightarrow> exn option) \<Rightarrow> seconds \<Rightarrow> model_role \<Rightarrow> router \<Rightarrow> (exn + unit) \<times> router" where
  "router_chat_model build now role r = (case select_target now role r of
      (Inl e, r') \<Rightarrow> (Inl e, r') | (Inr t, r') \<Rightarrow> model_for build t r')"

section \<open>The walk\<close>

text \<open>\<open>fmt\<close> is the text of \<open>f"{deadline_seconds:g}"\<close>.\<close>

definition LLMDeadlineExceeded :: "(seconds \<Rightarrow> string) \<Rightarrow> seconds \<Rightarrow> exn" where
  "LLMDeadlineExceeded fmt deadline_seconds = AppError (mk_app_error ''LLMDeadlineExceeded'' ''llm_deadline_exceeded''
     (''LLM call exceeded its '' @ fmt deadline_seconds @ ''s overall deadline'') 504 None None)"

record llm_clock =
  start_time :: seconds
  loop_time :: "nat \<Rightarrow> seconds"
  gate_time :: "nat \<Rightarrow> seconds"
  report_time :: "nat \<Rightarrow> seconds"

type_synonym ('m, 'w) llm_call = "string \<Rightarrow> seconds \<Rightarrow> 'w \<Rightarrow> ((exn + 'm) \<times> bool) \<times> 'w"

text \<open>One attempt: the model is built if need be, then invoked under what is left of the budget.\<close>

definition llm_call_target ::
  "(string \<Rightarrow> exn option) \<Rightarrow> ('m, 'w) llm_call \<Rightarrow> string \<Rightarrow> seconds \<Rightarrow> router \<times> 'w \<Rightarrow> ((exn + 'm) \<times> bool) \<times> router \<times> 'w" where
  "llm_call_target build call target remaining st = (case st of (r, w) \<Rightarrow>
     (case model_for build target r of
        (Inl e, r') \<Rightarrow> ((Inl e, False), r', w)
      | (Inr _, r') \<Rightarrow> (let (x, w') = call target remaining w in (x, r', w'))))"

type_synonym 'm llm_log = "(string \<times> ((exn + 'm) \<times> bool)) list"

fun walk ::
  "(seconds \<Rightarrow> string) \<Rightarrow> llm_clock \<Rightarrow> (string \<Rightarrow> exn option) \<Rightarrow> ('m, 'w) llm_call \<Rightarrow> seconds \<Rightarrow> model_role \<Rightarrow> seconds \<Rightarrow>
   nat \<Rightarrow> string list \<Rightarrow> exn option \<Rightarrow> router \<times> 'w \<Rightarrow> (exn + 'm) \<times> 'm llm_log \<times> router \<times> 'w" where
  "walk fmt ck build call budget role deadline k [] last_error st =
     (Inl (case last_error of Some e \<Rightarrow> e | None \<Rightarrow> llm_unavailable), [], st)"
| "walk fmt ck build call budget role deadline k (t # ts) last_error st =
     (let remaining = deadline - loop_time ck k in
      if remaining \<le> 0 then (Inl (LLMDeadlineExceeded fmt budget), [], st)
      else (case router_try_acquire (gate_time ck k) t role (fst st) of
          (Inl e, r1) \<Rightarrow> (Inl e, [], r1, snd st)
        | (Inr False, r1) \<Rightarrow> walk fmt ck build call budget role deadline (Suc k) ts last_error (r1, snd st)
        | (Inr True, r1) \<Rightarrow>
           (case llm_call_target build call t remaining (r1, snd st) of
              ((Inl e, True), r2, w) \<Rightarrow>
                (case router_release t role r2 of
                   (Inl e', r3) \<Rightarrow> (Inl e', [(t, Inl e, True)], r3, w)
                 | (Inr _, r3) \<Rightarrow> (Inl (LLMDeadlineExceeded fmt budget), [(t, Inl e, True)], r3, w))
            | ((Inl e, False), r2, w) \<Rightarrow>
                (case router_record_error (report_time ck k) t e role r2 of
                   (Inl e', r3) \<Rightarrow> (Inl e', [(t, Inl e, False)], r3, w)
                 | (Inr _, r3) \<Rightarrow>
                    if \<not> is_transient_error e then (Inl e, [(t, Inl e, False)], r3, w)
                    else (let (x, log, st') = walk fmt ck build call budget role deadline (Suc k) ts (Some e) (r3, w) in
                          (x, (t, Inl e, False) # log, st')))
            | ((Inr m, b), r2, w) \<Rightarrow>
                (case router_record_success t role r2 of
                   (Inl e', r3) \<Rightarrow> (Inl e', [(t, Inr m, b)], r3, w)
                 | (Inr _, r3) \<Rightarrow> (Inr m, [(t, Inr m, b)], r3, w)))))"

definition ainvoke ::
  "(seconds \<Rightarrow> string) \<Rightarrow> llm_clock \<Rightarrow> (string \<Rightarrow> exn option) \<Rightarrow> ('m, 'w) llm_call \<Rightarrow> model_role \<Rightarrow> router \<times> 'w \<Rightarrow>
   (exn + 'm) \<times> 'm llm_log \<times> router \<times> 'w" where
  "ainvoke fmt ck build call role st =
     (let budget = LLM_CHAIN_DEADLINE_SECONDS (rt_settings (fst st)); deadline = start_time ck + budget in
      case chain role (fst st) of
        (Inl e, r1) \<Rightarrow> (Inl e, [], r1, snd st)
      | (Inr ts, r1) \<Rightarrow> walk fmt ck build call budget role deadline 0 ts None (r1, snd st))"

section \<open>Lemmas\<close>

definition router_ok :: "router \<Rightarrow> bool" where
  "router_ok r \<longleftrightarrow> 0 < failure_threshold (rt_policy r) \<and> 0 < cooldown_seconds (rt_policy r)"

lemma ModelRouter_ok: "\<lbrakk>ModelRouter s None = Inr r\<rbrakk> \<Longrightarrow> router_ok r \<and> rt_settings r = s"
  by (auto simp: ModelRouter_def CircuitBreakerPolicy_def router_ok_def split: if_splits)

lemma dedupe_set [simp]: "set (dedupe xs) = set xs"
  by (induction xs rule: dedupe.induct) auto

lemma dedupe_distinct: "distinct (dedupe xs)"
  by (induction xs rule: dedupe.induct) auto

lemma dedupe_nonempty: "dedupe (x # xs) \<noteq> []"
  by simp

text \<open>What the router's methods leave alone: the settings, the policy and every other target's breaker.\<close>

definition same_but :: "(model_role \<times> string) set \<Rightarrow> router \<Rightarrow> router \<Rightarrow> bool" where
  "same_but K r r' \<longleftrightarrow> rt_settings r' = rt_settings r \<and> rt_policy r' = rt_policy r
     \<and> (\<forall>k. k \<notin> K \<longrightarrow> dict_get (rt_breakers r') k = dict_get (rt_breakers r) k)"

lemma same_but_refl [simp]: "same_but K r r"
  by (simp add: same_but_def)

lemma same_but_trans: "\<lbrakk>same_but K r r1; same_but L r1 r2\<rbrakk> \<Longrightarrow> same_but (K \<union> L) r r2"
  by (simp add: same_but_def)

lemma same_but_ok: "same_but K r r' \<Longrightarrow> router_ok r' = router_ok r"
  by (simp add: same_but_def router_ok_def)

lemma chain_same: "chain role r = (x, r') \<Longrightarrow> same_but {} r r'"
  by (auto simp: chain_def primary_target_def on_judge_uses_production_model_def same_but_def Let_def
      split: if_splits sum.splits prod.splits)

lemma chain_distinct: "chain role r = (Inr ts, r') \<Longrightarrow> distinct ts \<and> ts \<noteq> []"
proof -
  assume "chain role r = (Inr ts, r')"
  then obtain p where "ts = dedupe (p # (if role = DefaultRole then split_csv (CHAT_FALLBACK_MODELS (rt_settings r)) else []))"
    by (auto simp: chain_def split: prod.splits sum.splits)
  then show ?thesis by (metis dedupe_distinct dedupe_nonempty)
qed

lemma chain_again: "chain role r = (Inr ts, r') \<Longrightarrow> same_but K r r'' \<Longrightarrow> \<exists>r3. chain role r'' = (Inr ts, r3) \<and> same_but {} r'' r3"
  by (auto simp: chain_def primary_target_def on_judge_uses_production_model_def same_but_def Let_def
      split: if_splits sum.splits prod.splits)

text \<open>The breaker the router has for a target, a new one when it has none yet.\<close>

definition breaker_of :: "model_role \<Rightarrow> string \<Rightarrow> router \<Rightarrow> breaker" where
  "breaker_of role t r = (case dict_get (rt_breakers r) (role, t) of
      Some b \<Rightarrow> b
    | None \<Rightarrow> \<lparr>b_failure_threshold = failure_threshold (rt_policy r), b_cooldown_seconds = cooldown_seconds (rt_policy r),
               failure_count = 0, b_state = CLOSED, open_until = 0, probe_lease_until = None\<rparr>)"

lemma router_breaker_of: "router_ok r \<Longrightarrow> router_breaker role t r = Inr (breaker_of role t r)"
  by (auto simp: router_breaker_def breaker_build_def CircuitBreaker_def CircuitBreakerPolicy_def router_ok_def breaker_of_def
      split: option.splits)

lemma same_but_breaker: "\<lbrakk>same_but K r r'; (role, t) \<notin> K\<rbrakk> \<Longrightarrow> breaker_of role t r' = breaker_of role t r"
  unfolding same_but_def breaker_of_def by (elim conjE allE [of _ "(role, t)"]) (simp split: option.split)

lemma with_breaker_ok:
  assumes "router_ok r"
  obtains r' where "with_breaker role t f r = (Inr (fst (f (breaker_of role t r))), r')" and "same_but {(role, t)} r r'"
    and "router_ok r'" and "breaker_of role t r' = snd (f (breaker_of role t r))"
proof
  let ?b = "breaker_of role t r"
  let ?r = "r\<lparr>rt_breakers := dict_set (rt_breakers r) (role, t) (snd (f ?b))\<rparr>"
  show "with_breaker role t f r = (Inr (fst (f ?b)), ?r)"
    by (simp add: with_breaker_def router_breaker_of [OF assms] split: prod.split)
  show "same_but {(role, t)} r ?r" by (simp add: same_but_def)
  show "router_ok ?r" using assms by (simp add: router_ok_def)
  show "breaker_of role t ?r = snd (f ?b)" by (simp add: breaker_of_def)
qed

text \<open>The gate: a single target is always admitted, and its breaker is not asked.\<close>

lemma gate_ok:
  assumes ok: "router_ok r" and ch: "chain role r0 = (Inr cs, r1)" "same_but K r0 r"
  obtains r' where "router_try_acquire now t role r =
      (Inr (length cs = 1 \<or> fst (try_acquire now (breaker_of role t r))), r')" and "same_but {(role, t)} r r'" and "router_ok r'"
    and "breaker_of role t r' = (if length cs = 1 then breaker_of role t r else snd (try_acquire now (breaker_of role t r)))"
proof -
  from chain_again [OF ch] obtain r3 where r3: "chain role r = (Inr cs, r3)" "same_but {} r r3" by blast
  have ok3: "router_ok r3" using same_but_ok [OF r3(2)] ok by simp
  have b3: "breaker_of role t r3 = breaker_of role t r" by (rule same_but_breaker [OF r3(2)]) simp
  obtain r4 where r4: "with_breaker role t (try_acquire now) r3 = (Inr (fst (try_acquire now (breaker_of role t r3))), r4)"
    "same_but {(role, t)} r3 r4" "router_ok r4" "breaker_of role t r4 = snd (try_acquire now (breaker_of role t r3))"
    using with_breaker_ok [OF ok3, of role t "try_acquire now"] by blast
  show thesis
  proof (cases "length cs = 1")
    case True
    with that [of r3] r3 ok3 b3 same_but_trans [OF r3(2) same_but_refl, of "{(role, t)}"] show thesis
      by (simp add: router_try_acquire_def)
  next
    case False
    with that [of r4] r3 r4 b3 same_but_trans [OF r3(2) r4(2)] show thesis by (simp add: router_try_acquire_def)
  qed
qed

lemma call_same:
  "llm_call_target build call t rem (r, w) = (x, r', w') \<Longrightarrow> same_but {} r r'"
  by (auto simp: llm_call_target_def model_for_def same_but_def split: if_splits option.splits prod.splits)

section \<open>What a walk may do\<close>

text \<open>What happens at one target. A call that the timer of the budget cut short is \<open>Cut\<close>.\<close>

datatype 'm event = Skipped | Answered 'm | Failed exn | Cut exn

fun event_of :: "(exn + 'm) \<times> bool \<Rightarrow> 'm event" where
  "event_of (Inr m, _) = Answered m"
| "event_of (Inl e, True) = Cut e"
| "event_of (Inl e, False) = Failed e"

text \<open>The walk goes on to the next target after a skip and after a transient failure only.\<close>

fun goes_on :: "'m event \<Rightarrow> bool" where
  "goes_on Skipped = True"
| "goes_on (Answered m) = False"
| "goes_on (Failed e) = is_transient_error e"
| "goes_on (Cut e) = False"

text \<open>What the target's breaker is told about it.\<close>

fun told :: "seconds \<Rightarrow> 'm event \<Rightarrow> breaker \<Rightarrow> breaker" where
  "told now Skipped b = b"
| "told now (Answered m) b = record_success b"
| "told now (Failed e) b = record_failure now e b"
| "told now (Cut e) b = release_probe b"

fun carried :: "exn option \<Rightarrow> 'm event list \<Rightarrow> exn option" where
  "carried le [] = le"
| "carried le (Failed e # evs) = carried (Some e) evs"
| "carried le (_ # evs) = carried le evs"

definition calls_of :: "string list \<Rightarrow> 'm event list \<Rightarrow> (string \<times> 'm event) list" where
  "calls_of ts evs = filter (\<lambda>(t, ev). ev \<noteq> Skipped) (zip ts evs)"

text \<open>
  The events \<open>evs\<close> at the first targets of \<open>ts\<close>, the \<open>k\<close>-th of the chain and those after it, account for a walk: each target reached in
  time was skipped exactly when its breaker refused (\<open>solo\<close>: the chain has one target, which is not gated), its breaker has heard its
  event and no other; all but the last event let the walk go on; the walk stopped before the end of the chain only at an event that ends
  it or because the budget was used up; and the result is that of the last event.
\<close>

definition accounts ::
  "(seconds \<Rightarrow> string) \<Rightarrow> llm_clock \<Rightarrow> seconds \<Rightarrow> model_role \<Rightarrow> seconds \<Rightarrow> bool \<Rightarrow> nat \<Rightarrow> string list \<Rightarrow> exn option \<Rightarrow> router \<Rightarrow>
   'm event list \<Rightarrow> exn + 'm \<Rightarrow> router \<Rightarrow> bool" where
  "accounts fmt ck budget role deadline solo k ts le r evs x r' \<longleftrightarrow>
     length evs \<le> length ts
   \<and> (\<forall>j < length evs. loop_time ck (k + j) < deadline
        \<and> (evs ! j = Skipped \<longleftrightarrow> \<not> solo \<and> \<not> fst (try_acquire (gate_time ck (k + j)) (breaker_of role (ts ! j) r)))
        \<and> breaker_of role (ts ! j) r' = told (report_time ck (k + j)) (evs ! j)
            (if solo then breaker_of role (ts ! j) r else snd (try_acquire (gate_time ck (k + j)) (breaker_of role (ts ! j) r))))
   \<and> (\<forall>j < length ts. length evs \<le> j \<longrightarrow> breaker_of role (ts ! j) r' = breaker_of role (ts ! j) r)
   \<and> (\<forall>j. Suc j < length evs \<longrightarrow> goes_on (evs ! j))
   \<and> (if evs \<noteq> [] \<and> \<not> goes_on (last evs)
      then (case last evs of Answered m \<Rightarrow> x = Inr m | Failed e \<Rightarrow> x = Inl e | _ \<Rightarrow> x = Inl (LLMDeadlineExceeded fmt budget))
      else if length evs < length ts
        then deadline \<le> loop_time ck (k + length evs) \<and> x = Inl (LLMDeadlineExceeded fmt budget)
      else x = Inl (case carried le evs of Some e \<Rightarrow> e | None \<Rightarrow> llm_unavailable))"

lemma accounts_stop:
  assumes "loop_time ck k < deadline" "ev \<noteq> Skipped" "\<not> goes_on ev"
    and "solo \<or> fst (try_acquire (gate_time ck k) (breaker_of role t r))"
    and "breaker_of role t r' = told (report_time ck k) ev
        (if solo then breaker_of role t r else snd (try_acquire (gate_time ck k) (breaker_of role t r)))"
    and "same_but {(role, t)} r r'" "distinct (t # ts)"
    and "case ev of Answered m \<Rightarrow> x = Inr m | Failed e \<Rightarrow> x = Inl e | _ \<Rightarrow> x = Inl (LLMDeadlineExceeded fmt budget)"
  shows "accounts fmt ck budget role deadline solo k (t # ts) le r [ev] x r'"
proof -
  have "breaker_of role ((t # ts) ! j) r' = breaker_of role ((t # ts) ! j) r" if "j < length (t # ts)" "1 \<le> j" for j
  proof (rule same_but_breaker [OF assms(6)])
    show "(role, (t # ts) ! j) \<notin> {(role, t)}" using that assms(7) by (cases j) auto
  qed
  with assms show ?thesis by (auto simp: accounts_def)
qed

lemma accounts_Cons:
  assumes "loop_time ck k < deadline" "goes_on ev"
    and "ev = Skipped \<longleftrightarrow> \<not> solo \<and> \<not> fst (try_acquire (gate_time ck k) (breaker_of role t r))"
    and "breaker_of role t ra = told (report_time ck k) ev
        (if solo then breaker_of role t r else snd (try_acquire (gate_time ck k) (breaker_of role t r)))"
    and ra: "same_but {(role, t)} r ra" and d: "distinct (t # ts)" and r': "same_but ({role} \<times> set ts) ra r'"
    and acc: "accounts fmt ck budget role deadline solo (Suc k) ts (carried le [ev]) ra evs x r'"
  shows "accounts fmt ck budget role deadline solo k (t # ts) le r (ev # evs) x r'"
proof -
  have t: "breaker_of role t r' = breaker_of role t ra"
    by (rule same_but_breaker [OF r']) (use d in auto)
  have later: "breaker_of role (ts ! j) ra = breaker_of role (ts ! j) r" if "j < length ts" for j
    by (rule same_but_breaker [OF ra]) (use d nth_mem [OF that] in auto)
  have carry: "carried le (ev # evs) = carried (carried le [ev]) evs" by (cases ev) auto
  have len: "length evs \<le> length ts" using acc by (simp add: accounts_def)
  have 1: "\<forall>j < length (ev # evs). loop_time ck (k + j) < deadline
        \<and> ((ev # evs) ! j = Skipped \<longleftrightarrow> \<not> solo \<and> \<not> fst (try_acquire (gate_time ck (k + j)) (breaker_of role ((t # ts) ! j) r)))
        \<and> breaker_of role ((t # ts) ! j) r' = told (report_time ck (k + j)) ((ev # evs) ! j)
            (if solo then breaker_of role ((t # ts) ! j) r else snd (try_acquire (gate_time ck (k + j)) (breaker_of role ((t # ts) ! j) r)))"
  proof (intro allI impI)
    fix j assume j: "j < length (ev # evs)"
    show "loop_time ck (k + j) < deadline
        \<and> ((ev # evs) ! j = Skipped \<longleftrightarrow> \<not> solo \<and> \<not> fst (try_acquire (gate_time ck (k + j)) (breaker_of role ((t # ts) ! j) r)))
        \<and> breaker_of role ((t # ts) ! j) r' = told (report_time ck (k + j)) ((ev # evs) ! j)
            (if solo then breaker_of role ((t # ts) ! j) r else snd (try_acquire (gate_time ck (k + j)) (breaker_of role ((t # ts) ! j) r)))"
      using assms(1-4) t acc len j later by (cases j) (auto simp: accounts_def)
  qed
  have 2: "\<forall>j < length (t # ts). length (ev # evs) \<le> j \<longrightarrow> breaker_of role ((t # ts) ! j) r' = breaker_of role ((t # ts) ! j) r"
  proof (intro allI impI)
    fix j assume "j < length (t # ts)" "length (ev # evs) \<le> j"
    then show "breaker_of role ((t # ts) ! j) r' = breaker_of role ((t # ts) ! j) r"
      using acc later by (cases j) (auto simp: accounts_def)
  qed
  have 3: "\<forall>j. Suc j < length (ev # evs) \<longrightarrow> goes_on ((ev # evs) ! j)"
  proof (intro allI impI)
    fix j assume "Suc j < length (ev # evs)"
    then show "goes_on ((ev # evs) ! j)" using acc assms(2) by (cases j) (auto simp: accounts_def)
  qed
  have last: "evs \<noteq> [] \<Longrightarrow> last (ev # evs) = last evs" by simp
  have 4: "(if ev # evs \<noteq> [] \<and> \<not> goes_on (last (ev # evs))
      then (case last (ev # evs) of Answered m \<Rightarrow> x = Inr m | Failed e \<Rightarrow> x = Inl e | _ \<Rightarrow> x = Inl (LLMDeadlineExceeded fmt budget))
      else if length (ev # evs) < length (t # ts)
        then deadline \<le> loop_time ck (k + length (ev # evs)) \<and> x = Inl (LLMDeadlineExceeded fmt budget)
      else x = Inl (case carried le (ev # evs) of Some e \<Rightarrow> e | None \<Rightarrow> llm_unavailable))"
  proof (cases "evs = []")
    case True
    with acc assms(2) show ?thesis unfolding carry by (auto simp: accounts_def)
  next
    case False
    with acc show ?thesis unfolding carry last [OF False] by (auto simp: accounts_def split: if_splits)
  qed
  show ?thesis unfolding accounts_def using len 1 2 3 4 by simp
qed

lemma calls_of_Cons: "calls_of (t # ts) (ev # evs) = (if ev = Skipped then [] else [(t, ev)]) @ calls_of ts evs"
  by (simp add: calls_of_def)

lemma event_not_skipped [simp]: "event_of y \<noteq> Skipped" "Skipped \<noteq> event_of y"
  by (cases y rule: event_of.cases; simp)+

lemma walk_law:
  "\<lbrakk>chain role r0 = (Inr cs, r1); same_but K r0 r; router_ok r; distinct ts;
    walk fmt ck build call budget role deadline k ts le (r, w) = (x, lg, r', w')\<rbrakk> \<Longrightarrow>
   same_but ({role} \<times> set ts) r r' \<and> (\<exists>evs. accounts fmt ck budget role deadline (length cs = 1) k ts le r evs x r'
     \<and> calls_of ts evs = map (map_prod id event_of) lg)"
proof (induction ts arbitrary: k le r w x lg K r' w')
  case Nil
  then have "accounts fmt ck budget role deadline (length cs = 1) k [] le r [] x r' \<and> calls_of [] [] = map (map_prod id event_of) lg"
    by (auto simp: accounts_def calls_of_def)
  with Nil show ?case by auto
next
  case (Cons t ts)
  let ?solo = "length cs = 1" and ?rem = "deadline - loop_time ck k" and ?R = "{role} \<times> set (t # ts)"
  let ?acc = "\<lambda>evs. accounts fmt ck budget role deadline ?solo k (t # ts) le r evs x r'"
  show ?case
  proof (cases "?rem \<le> 0")
    case True
    with Cons.prems(5) have "?acc [] \<and> calls_of (t # ts) [] = map (map_prod id event_of) lg" "r' = r"
      by (auto simp: accounts_def calls_of_def)
    then show ?thesis using same_but_refl by blast
  next
    case time: False
    let ?b = "breaker_of role t r"
    let ?ad = "?solo \<or> fst (try_acquire (gate_time ck k) ?b)"
    obtain ra where a: "router_try_acquire (gate_time ck k) t role r = (Inr ?ad, ra)" "same_but {(role, t)} r ra" "router_ok ra"
      "breaker_of role t ra = (if ?solo then ?b else snd (try_acquire (gate_time ck k) ?b))"
      using gate_ok [OF Cons.prems(3,1,2)] by blast
    have on: "same_but ?R r r' \<and> (\<exists>evs. ?acc evs \<and> calls_of (t # ts) evs = map (map_prod id event_of) lg)"
      if rb: "same_but {(role, t)} r rb" "router_ok rb"
        "breaker_of role t rb = told (report_time ck k) ev (if ?solo then ?b else snd (try_acquire (gate_time ck k) ?b))"
      and ev: "goes_on ev" "ev = Skipped \<longleftrightarrow> \<not> ?ad"
      and w: "walk fmt ck build call budget role deadline (Suc k) ts (carried le [ev]) (rb, wb) = (x, lg', r', w')"
      and lg: "map (map_prod id event_of) lg = (if ev = Skipped then [] else [(t, ev)]) @ map (map_prod id event_of) lg'"
      for rb ev wb lg'
    proof -
      have "same_but (K \<union> {(role, t)}) r0 rb" by (rule same_but_trans [OF Cons.prems(2) rb(1)])
      moreover have "distinct ts" using Cons.prems(4) by simp
      ultimately obtain evs where
        evs: "same_but ({role} \<times> set ts) rb r'" "accounts fmt ck budget role deadline ?solo (Suc k) ts (carried le [ev]) rb evs x r'"
          "calls_of ts evs = map (map_prod id event_of) lg'" using Cons.IH [OF Cons.prems(1) _ rb(2) _ w] by blast
      have "{(role, t)} \<union> {role} \<times> set ts = ?R" by auto
      then have "same_but ?R r r'" using same_but_trans [OF rb(1) evs(1)] by simp
      moreover have "?acc (ev # evs)"
        by (rule accounts_Cons [OF _ ev(1) _ rb(3,1) Cons.prems(4) evs(1,2)]) (use time ev(2) in auto)
      ultimately show ?thesis using evs(3) lg by (intro conjI exI [of _ "ev # evs"]) (simp_all add: calls_of_Cons)
    qed
    have stop: "same_but ?R r r' \<and> (\<exists>evs. ?acc evs \<and> calls_of (t # ts) evs = map (map_prod id event_of) lg)"
      if r: "same_but {(role, t)} r r'"
        "breaker_of role t r' = told (report_time ck k) ev (if ?solo then ?b else snd (try_acquire (gate_time ck k) ?b))"
      and ev: "\<not> goes_on ev" "ev \<noteq> Skipped" "?ad" "map (map_prod id event_of) lg = [(t, ev)]"
      and x: "case ev of Answered m \<Rightarrow> x = Inr m | Failed e \<Rightarrow> x = Inl e | _ \<Rightarrow> x = Inl (LLMDeadlineExceeded fmt budget)" for ev
    proof -
      have "?acc [ev]"
        by (rule accounts_stop [OF _ ev(2,1,3) r(2,1) Cons.prems(4) x]) (use time in simp)
      moreover have "same_but ?R r r'" using r(1) by (auto simp: same_but_def)
      ultimately show ?thesis using ev by (intro conjI exI [of _ "[ev]"]) (simp_all add: calls_of_def)
    qed
    note W = Cons.prems(5) [unfolded walk.simps Let_def if_not_P [OF time] fst_conv snd_conv a(1)]
    show ?thesis
    proof (cases ?ad)
      case False
      with W a show ?thesis by (intro on [of ra Skipped w lg]) auto
    next
      case ad: True
      obtain res b r2 w2 where c: "llm_call_target build call t ?rem (ra, w) = ((res, b), r2, w2)"
        by (cases "llm_call_target build call t ?rem (ra, w)") auto
      have s2: "same_but {(role, t)} r r2" using same_but_trans [OF a(2) call_same [OF c]] by simp
      have b2: "breaker_of role t r2 = (if ?solo then ?b else snd (try_acquire (gate_time ck k) ?b))"
        using same_but_breaker [OF call_same [OF c]] a(4) by simp
      have ok2: "router_ok r2" using same_but_ok [OF s2] Cons.prems(3) by simp
      have s3: "same_but {(role, t)} r r3" if "same_but {(role, t)} r2 r3" for r3
        using same_but_trans [OF s2 that] by simp
      show ?thesis
      proof (cases res)
        case (Inr m)
        obtain r3 where "router_record_success t role r2 = (Inr (), r3)" "same_but {(role, t)} r2 r3"
            "breaker_of role t r3 = record_success (breaker_of role t r2)"
          using with_breaker_ok [OF ok2, of role t "\<lambda>b. ((), record_success b)"] by (auto simp: router_record_success_def)
        with W ad c Inr s3 b2 show ?thesis by (intro stop [of "Answered m"]) auto
      next
        case (Inl e)
        show ?thesis
        proof (cases b)
          case True
          obtain r3 where "router_release t role r2 = (Inr (), r3)" "same_but {(role, t)} r2 r3"
              "breaker_of role t r3 = release_probe (breaker_of role t r2)"
            using with_breaker_ok [OF ok2, of role t "\<lambda>b. ((), release_probe b)"] by (auto simp: router_release_def)
          with W ad c Inl True s3 b2 show ?thesis by (intro stop [of "Cut e"]) auto
        next
          case uncut: False
          obtain r3 where r3: "router_record_error (report_time ck k) t e role r2 = (Inr (), r3)" "same_but {(role, t)} r2 r3"
              "router_ok r3" "breaker_of role t r3 = record_failure (report_time ck k) e (breaker_of role t r2)"
            using with_breaker_ok [OF ok2, of role t "\<lambda>b. ((), record_failure (report_time ck k) e b)"]
            by (auto simp: router_record_error_def)
          show ?thesis
          proof (cases "is_transient_error e")
            case False
            with W ad c Inl uncut r3 s3 b2 show ?thesis by (intro stop [of "Failed e"]) auto
          next
            case True
            obtain x' lg' st' where w: "walk fmt ck build call budget role deadline (Suc k) ts (Some e) (r3, w2) = (x', lg', st')"
              by (cases "walk fmt ck build call budget role deadline (Suc k) ts (Some e) (r3, w2)") auto
            with W ad c Inl uncut r3 True have "x = x'" "lg = (t, Inl e, False) # lg'" "st' = (r', w')" by auto
            with w r3 s3 b2 True ad show ?thesis by (intro on [of r3 "Failed e" w2 lg']) auto
          qed
        qed
      qed
    qed
  qed
qed

text \<open>
  C26. Failover. One invocation goes through the role's chain of distinct targets in order, and there is one event per target reached
  (\<open>accounts\<close>): a target is reached only before the deadline; with more than one target, it is skipped exactly when its breaker refuses; each
  other target is called once (\<open>calls_of\<close>), and its breaker is told that outcome and nothing else: a success, a failure, or a released
  probe when the deadline cut the call short. The walk goes on exactly after a skip or a transient failure; an answer is returned, any
  other error is raised, at once; a call cut by the deadline and a target reached after it end the walk with the deadline error; at the
  end of the chain the last error is raised, and without any the service is unavailable. Breakers of targets not reached are not touched.
\<close>

theorem llm_failover:
  assumes ok: "router_ok r" and ch: "chain role r = (Inr ts, r1)"
    and inv: "ainvoke fmt ck build call role (r, w) = (x, lg, r', w')"
  shows "distinct ts \<and> (\<exists>evs. calls_of ts evs = map (map_prod id event_of) lg
     \<and> accounts fmt ck (LLM_CHAIN_DEADLINE_SECONDS (rt_settings r)) role (start_time ck + LLM_CHAIN_DEADLINE_SECONDS (rt_settings r))
         (length ts = 1) 0 ts None r evs x r')"
proof -
  let ?b = "LLM_CHAIN_DEADLINE_SECONDS (rt_settings r)"
  note s1 = chain_same [OF ch]
  have d: "distinct ts" using chain_distinct [OF ch] by simp
  have ok1: "router_ok r1" using same_but_ok [OF s1] ok by simp
  have w: "walk fmt ck build call ?b role (start_time ck + ?b) 0 ts None (r1, w) = (x, lg, r', w')"
    using inv ch by (simp add: ainvoke_def Let_def)
  have "breaker_of role t r1 = breaker_of role t r" for t by (rule same_but_breaker [OF s1]) simp
  then have "accounts fmt ck b role dl solo k ts le r1 evs x r' = accounts fmt ck b role dl solo k ts le r evs x r'" for b dl solo k le evs
    by (simp add: accounts_def)
  with walk_law [OF ch s1 ok1 d w] d show ?thesis by auto
qed

definition sample_router :: router where
  "sample_router = \<lparr>rt_settings = \<lparr>CHAT_MODEL = ''a'', CHAT_FALLBACK_MODELS = ''b, a'', JUDGE_CHAT_MODEL = '''',
       ENVIRONMENT_is_local = True, LLM_BREAKER_FAILURE_THRESHOLD = 1, LLM_BREAKER_COOLDOWN_SECONDS = 30,
       LLM_CHAIN_DEADLINE_SECONDS = 60\<rparr>,
     rt_policy = \<lparr>failure_threshold = 1, cooldown_seconds = 30\<rparr>, rt_breakers = [], rt_models = [],
     rt_judge_fallback_warned = False\<rparr>"

definition sample_call :: "(string, unit) llm_call" where
  "sample_call t remaining w = ((if t = ''a'' then Inl TimeoutError else Inr ''hi'', False), w)"

theorem llm_failover_witness:
  "let (x, lg, r', w') = ainvoke (\<lambda>_. '''') \<lparr>start_time = 0, loop_time = of_nat, gate_time = of_nat, report_time = of_nat\<rparr>
       (\<lambda>_. None) sample_call DefaultRole (sample_router, ()) in
   x = Inr ''hi'' \<and> (\<exists>evs. calls_of [''a'', ''b''] evs = [(''a'', Failed TimeoutError), (''b'', Answered ''hi'')]
     \<and> accounts (\<lambda>_. '''') \<lparr>start_time = 0, loop_time = of_nat, gate_time = of_nat, report_time = of_nat\<rparr> 60 DefaultRole 60 False 0
         [''a'', ''b''] None sample_router evs x r')"
proof -
  let ?ck = "\<lparr>start_time = 0, loop_time = of_nat, gate_time = of_nat, report_time = of_nat\<rparr>"
  let ?run = "ainvoke (\<lambda>_. '''') ?ck (\<lambda>_. None) sample_call DefaultRole (sample_router, ())"
  have ok: "router_ok sample_router" by (simp add: router_ok_def sample_router_def)
  have ch: "chain DefaultRole sample_router = (Inr [''a'', ''b''], sample_router)" by code_simp
  have b: "LLM_CHAIN_DEADLINE_SECONDS (rt_settings sample_router) = 60" by (simp add: sample_router_def)
  have v: "fst ?run = Inr ''hi''"
    "map (map_prod id event_of) (fst (snd ?run)) = [(''a'', Failed TimeoutError), (''b'', Answered ''hi'')]" by code_simp+
  have "?run = (fst ?run, fst (snd ?run), fst (snd (snd ?run)), snd (snd (snd ?run)))" by (metis surjective_pairing)
  from llm_failover [OF ok ch this, unfolded b v] v show ?thesis by (auto simp: split_def Let_def)
qed

end
