(* ===== verification/Identity.thy ===== *)
theory Identity
  imports Rate_Limit "HOL-Library.List_Lexorder" "HOL-Library.Char_ord"
begin

text \<open>
  API keys and authentication (\<open>src/app/core/config/platform.py\<close>,
  \<open>src/app/modules/platform/identity/auth.py\<close>) and the settings rules beside them.

  SHA-256 and FastAPI's split of the \<open>Authorization\<close> header are arguments. A limiter is the function
  that answers a check; the in-memory limiter is one.
\<close>

section \<open>Configured keys\<close>

record api_key =
  ak_subject :: string
  ak_scopes :: "string list"
  ak_digest :: string

fun hex_val :: "char \<Rightarrow> nat option" where
  "hex_val c = (let n = of_char c in
     if 48 \<le> n \<and> n \<le> 57 then Some (n - 48)
     else if 97 \<le> n \<and> n \<le> 102 then Some (n - 87)
     else if 65 \<le> n \<and> n \<le> 70 then Some (n - 55) else None)"

text \<open>\<open>bytes.fromhex\<close>: white space between the bytes is skipped; \<open>None\<close> where it raises.\<close>

fun fromhex :: "string \<Rightarrow> string option" where
  "fromhex [] = Some []"
| "fromhex [c] = (if is_space c then Some [] else None)"
| "fromhex (c # d # s) =
     (if is_space c then fromhex (d # s)
      else case (hex_val c, hex_val d, fromhex s) of
        (Some a, Some b, Some r) \<Rightarrow> Some (char_of (16 * a + b) # r)
      | _ \<Rightarrow> None)"

definition api_keys_error :: exn where
  "api_keys_error = ValueError ''AUTH_API_KEYS entries must look like 'subject:scope|scope:sha256hex' (64 hex chars; scopes may be empty)''"

definition parse_api_key :: "string \<Rightarrow> exn + api_key" where
  "parse_api_key entry =
     (let fields = split_on CHR '':'' entry; subject = hd fields; scopes_part = join '':'' (butlast (tl fields));
          digest = (case fromhex (last fields) of None \<Rightarrow> [] | Some d \<Rightarrow> d) in
      if length fields < 3 \<or> strip subject = '''' \<or> length digest \<noteq> 32 then Inl api_keys_error
      else Inr \<lparr>ak_subject = strip subject,
                ak_scopes = filter (\<lambda>s. s \<noteq> '''') (map strip (split_on CHR ''|'' scopes_part)), ak_digest = digest\<rparr>)"

fun parse_entries :: "string list \<Rightarrow> exn + api_key list" where
  "parse_entries [] = Inr []"
| "parse_entries (e # es) =
     (if e = '''' then parse_entries es
      else case parse_api_key e of
        Inl x \<Rightarrow> Inl x
      | Inr k \<Rightarrow> (case parse_entries es of Inl x \<Rightarrow> Inl x | Inr ks \<Rightarrow> Inr (k # ks)))"

definition parse_api_keys :: "string \<Rightarrow> exn + api_key list" where
  "parse_api_keys raw = parse_entries (map strip (split_on CHR '','' raw))"

section \<open>Settings rules\<close>

record platform_settings =
  DATABASE_ENABLED :: bool
  REDIS_ENABLED :: bool
  MONGO_ENABLED :: bool
  AUTH_API_KEYS :: string
  RATE_LIMIT_ENABLED :: bool
  RATE_LIMIT_BACKEND :: string
  RATE_LIMIT_EXCLUDE_PATHS :: string
  CACHE_ENABLED :: bool
  CACHE_BACKEND :: string
  OBJECTS_ENABLED :: bool
  OBJECT_BACKEND :: string
  OBJECT_S3_BUCKET :: string
  PLATFORM_IDEMPOTENCY_ENABLED :: bool
  IDEMPOTENCY_BACKEND :: string
  QUOTA_ENABLED :: bool
  QUOTA_BACKEND :: string

fun first_violation :: "(bool \<times> bool \<times> string) list \<Rightarrow> string option" where
  "first_violation [] = None"
| "first_violation ((applies, satisfied, msg) # rules) =
     (if applies \<and> \<not> satisfied then Some msg else first_violation rules)"

definition backend_rules :: "'a platform_settings_scheme \<Rightarrow> (bool \<times> bool \<times> string) list" where
  "backend_rules s =
     [(RATE_LIMIT_ENABLED s \<and> RATE_LIMIT_BACKEND s = ''redis'', REDIS_ENABLED s, ''RATE_LIMIT_BACKEND=redis requires REDIS_ENABLED''),
      (CACHE_ENABLED s \<and> CACHE_BACKEND s = ''redis'', REDIS_ENABLED s, ''CACHE_BACKEND=redis requires REDIS_ENABLED''),
      (PLATFORM_IDEMPOTENCY_ENABLED s \<and> IDEMPOTENCY_BACKEND s = ''postgres'', DATABASE_ENABLED s, ''IDEMPOTENCY_BACKEND=postgres requires DATABASE_ENABLED''),
      (QUOTA_ENABLED s \<and> QUOTA_BACKEND s = ''postgres'', DATABASE_ENABLED s, ''QUOTA_BACKEND=postgres requires DATABASE_ENABLED''),
      (QUOTA_ENABLED s \<and> QUOTA_BACKEND s = ''mongo'', MONGO_ENABLED s, ''QUOTA_BACKEND=mongo requires MONGO_ENABLED''),
      (OBJECTS_ENABLED s \<and> OBJECT_BACKEND s = ''s3'', OBJECT_S3_BUCKET s \<noteq> '''', ''OBJECT_BACKEND=s3 requires OBJECT_S3_BUCKET'')]"

definition validate_backend_requirements :: "'a platform_settings_scheme \<Rightarrow> exn + 'a platform_settings_scheme" where
  "validate_backend_requirements s = (case first_violation (backend_rules s) of Some m \<Rightarrow> Inl (ValueError m) | None \<Rightarrow> Inr s)"

definition validate_api_keys :: "'a platform_settings_scheme \<Rightarrow> exn + 'a platform_settings_scheme" where
  "validate_api_keys s = (case parse_api_keys (AUTH_API_KEYS s) of Inl e \<Rightarrow> Inl e | Inr _ \<Rightarrow> Inr s)"

definition rate_limit_exclude_patterns :: "'a platform_settings_scheme \<Rightarrow> string list" where
  "rate_limit_exclude_patterns s = split_csv (RATE_LIMIT_EXCLUDE_PATHS s)"

section \<open>Authentication\<close>

datatype principal_type = UserPrincipal | ServicePrincipal | AnonymousPrincipal

record principal_rec =
  pr_id :: string
  pr_type :: principal_type
  pr_scopes :: "string list"

fun last_match :: "string \<Rightarrow> api_key list \<Rightarrow> api_key option \<Rightarrow> api_key option" where
  "last_match presented [] matched = matched"
| "last_match presented (k # ks) matched = last_match presented ks (if presented = ak_digest k then Some k else matched)"

definition authenticate_bearer_token ::
  "(string \<Rightarrow> string) \<Rightarrow> (string option \<Rightarrow> string \<times> string) \<Rightarrow> api_key list \<Rightarrow> string option \<Rightarrow> exn + principal_rec" where
  "authenticate_bearer_token sha256 scheme_param keys authorization =
     (if keys = []
      then Inl (AppError (ForbiddenError (Some ''API key authentication is not configured'') (Some ''auth_not_configured'') None))
      else (let (scheme, token) = scheme_param authorization in
        if authorization = None \<or> authorization = Some '''' \<or> str_lower scheme \<noteq> ''bearer''
        then Inl (AppError (UnauthorizedError (Some ''Missing bearer token'') None None))
        else (case last_match (sha256 token) keys None of
            None \<Rightarrow> Inl (AppError (UnauthorizedError (Some ''Invalid bearer token'') None None))
          | Some k \<Rightarrow> Inr \<lparr>pr_id = ak_subject k, pr_type = ServicePrincipal, pr_scopes = ak_scopes k\<rparr>)))"

type_synonym 'l checker = "string \<Rightarrow> 'l \<Rightarrow> rate_limit_result \<times> 'l"

definition enforce_rate_limit :: "'l checker option \<Rightarrow> principal_rec \<Rightarrow> 'l \<Rightarrow> (exn + unit) \<times> 'l" where
  "enforce_rate_limit limiter p l = (case limiter of
      None \<Rightarrow> (Inr (), l)
    | Some check_fn \<Rightarrow>
        (let (r, l') = check_fn (pr_id p) l in
         if allowed r then (Inr (), l') else (Inl (AppError (RateLimitError None None (rl_retry_after_seconds r) None)), l')))"

definition require_principal ::
  "(string \<Rightarrow> string) \<Rightarrow> (string option \<Rightarrow> string \<times> string) \<Rightarrow> 'a platform_settings_scheme \<Rightarrow> 'l checker option \<Rightarrow> string option \<Rightarrow> 'l \<Rightarrow>
   (exn + principal_rec) \<times> 'l" where
  "require_principal sha256 scheme_param settings limiter authorization l =
     (case parse_api_keys (AUTH_API_KEYS settings) of
        Inl e \<Rightarrow> (Inl e, l)
      | Inr keys \<Rightarrow>
         (case authenticate_bearer_token sha256 scheme_param keys authorization of
            Inl e \<Rightarrow> (Inl e, l)
          | Inr p \<Rightarrow> (case enforce_rate_limit limiter p l of (Inl e, l') \<Rightarrow> (Inl e, l') | (Inr _, l') \<Rightarrow> (Inr p, l'))))"

text \<open>\<open>sorted\<close> of a set of strings, and \<open>repr\<close> of a list of strings.\<close>

definition sorted_strs :: "string list \<Rightarrow> string list" where
  "sorted_strs xs = sort (remdups xs)"

definition repr_strs :: "string list \<Rightarrow> string" where
  "repr_strs xs = ''['' @ join '', '' (map repr_str xs) @ '']''"

definition missing_scopes :: "string list \<Rightarrow> principal_rec \<Rightarrow> string list" where
  "missing_scopes required p = sorted_strs (filter (\<lambda>s. s \<notin> set (pr_scopes p)) required)"

definition require_scopes :: "string list \<Rightarrow> principal_rec \<Rightarrow> exn + principal_rec" where
  "require_scopes required p =
     (let missing = missing_scopes required p in
      if missing \<noteq> []
      then Inl (AppError (ForbiddenError (Some (''Missing required scopes: '' @ repr_strs missing)) (Some ''insufficient_scope'')
             (Some (JObj [(''required'', JList (map JStr (sorted_strs required))), (''missing'', JList (map JStr missing))]))))
      else Inr p)"

section \<open>Lemmas\<close>

definition key_ok :: "api_key \<Rightarrow> bool" where
  "key_ok k \<longleftrightarrow> ak_subject k \<noteq> '''' \<and> length (ak_digest k) = 32 \<and> '''' \<notin> set (ak_scopes k)"

lemma parse_api_key_ok: "parse_api_key e = Inr k \<Longrightarrow> key_ok k"
  by (auto simp: parse_api_key_def key_ok_def Let_def split: if_splits)

lemma parse_entries_ok: "parse_entries es = Inr ks \<Longrightarrow> \<forall>k\<in>set ks. key_ok k"
proof (induction es arbitrary: ks)
  case (Cons e es)
  then show ?case by (auto split: if_splits sum.splits dest: parse_api_key_ok)
qed simp

lemma last_match_snoc: "last_match d (ks @ [k]) m = (if d = ak_digest k then Some k else last_match d ks m)"
  by (induction ks arbitrary: m) simp_all

lemma last_match_cases:
  "last_match d ks None = Some k \<longleftrightarrow>
   (\<exists>pre post. ks = pre @ k # post \<and> ak_digest k = d \<and> (\<forall>k'\<in>set post. ak_digest k' \<noteq> d))" (is "_ \<longleftrightarrow> ?last ks")
proof (induction ks rule: rev_induct)
  case (snoc a ks)
  show ?case
  proof (cases "d = ak_digest a")
    case True
    have "?last (ks @ [a]) \<longleftrightarrow> k = a"
    proof
      assume "?last (ks @ [a])"
      then obtain pre post where p: "ks @ [a] = pre @ k # post" "\<forall>k'\<in>set post. ak_digest k' \<noteq> d" by blast
      with True have "post = []" by (cases post rule: rev_cases) auto
      with p show "k = a" by simp
    next
      assume "k = a"
      with True show "?last (ks @ [a])" by (intro exI [of _ ks] exI [of _ "[]"]) simp
    qed
    with True show ?thesis by (auto simp: last_match_snoc)
  next
    case False
    have "?last (ks @ [a]) \<longleftrightarrow> ?last ks"
    proof
      assume "?last (ks @ [a])"
      then obtain pre post where p: "ks @ [a] = pre @ k # post" "ak_digest k = d" "\<forall>k'\<in>set post. ak_digest k' \<noteq> d"
        by blast
      with False have "post \<noteq> []" by auto
      then obtain post' where "post = post' @ [a]" using p(1) by (cases post rule: rev_cases) auto
      with p show "?last ks" by auto
    next
      assume "?last ks"
      then obtain pre post where "ks = pre @ k # post" "ak_digest k = d" "\<forall>k'\<in>set post. ak_digest k' \<noteq> d" by blast
      with False show "?last (ks @ [a])" by (intro exI [of _ pre] exI [of _ "post @ [a]"]) auto
    qed
    with False snoc.IH show ?thesis by (simp add: last_match_snoc)
  qed
qed simp

lemma last_match_none: "last_match d ks None = None \<longleftrightarrow> d \<notin> ak_digest ` set ks"
  by (induction ks rule: rev_induct) (auto simp: last_match_snoc)

lemma missing_scopes_none: "missing_scopes required p = [] \<longleftrightarrow> set required \<subseteq> set (pr_scopes p)"
proof -
  have "missing_scopes required p = [] \<longleftrightarrow> set (missing_scopes required p) = {}" by simp
  also have "set (missing_scopes required p) = set required - set (pr_scopes p)"
    by (auto simp: missing_scopes_def sorted_strs_def)
  finally show ?thesis by auto
qed

lemma authenticate_iff:
  "authenticate_bearer_token sha256 scheme_param keys header = Inr p \<longleftrightarrow>
      header \<notin> {None, Some ''''} \<and> str_lower (fst (scheme_param header)) = ''bearer'' \<and>
      (\<exists>pre k post. keys = pre @ k # post \<and> ak_digest k = sha256 (snd (scheme_param header)) \<and>
         (\<forall>k'\<in>set post. ak_digest k' \<noteq> ak_digest k) \<and>
         p = \<lparr>pr_id = ak_subject k, pr_type = ServicePrincipal, pr_scopes = ak_scopes k\<rparr>)"
proof -
  let ?d = "sha256 (snd (scheme_param header))"
  have matched: "last_match ?d keys None = Some k \<longleftrightarrow>
      (\<exists>pre post. keys = pre @ k # post \<and> ak_digest k = ?d \<and> (\<forall>k'\<in>set post. ak_digest k' \<noteq> ak_digest k))" for k
    unfolding last_match_cases by metis
  have "authenticate_bearer_token sha256 scheme_param keys header = Inr p \<longleftrightarrow>
      header \<notin> {None, Some ''''} \<and> str_lower (fst (scheme_param header)) = ''bearer'' \<and>
      (\<exists>k. last_match ?d keys None = Some k \<and>
         p = \<lparr>pr_id = ak_subject k, pr_type = ServicePrincipal, pr_scopes = ak_scopes k\<rparr>)"
    by (cases "last_match ?d keys None"; cases keys) (auto simp: authenticate_bearer_token_def split_beta)
  then show ?thesis unfolding matched by blast
qed

section \<open>Authorised requests\<close>

definition exn_status :: "exn \<Rightarrow> int option" where
  "exn_status e = (case e of AppError a \<Rightarrow> Some (ae_status a) | _ \<Rightarrow> None)"

text \<open>
  C30. With keys parsed from \<open>AUTH_API_KEYS\<close>, the bearer of a token is let in exactly when the digest of
  the token is the digest of a configured key, and then as the last such key's subject with its scopes. Every
  configured key has a subject, a 32-byte digest and no empty scope. Everyone else gets 403 when no
  key is configured and 401 otherwise, and \<open>require_scopes\<close> then lets exactly the principals through that hold every
  required scope.
\<close>

theorem bearer_authentication:
  assumes keys: "parse_api_keys raw = Inr keys"
  shows "(authenticate_bearer_token sha256 scheme_param keys header = Inr p \<longleftrightarrow>
      header \<notin> {None, Some ''''} \<and> str_lower (fst (scheme_param header)) = ''bearer'' \<and>
      (\<exists>pre k post. keys = pre @ k # post \<and> ak_digest k = sha256 (snd (scheme_param header)) \<and>
         (\<forall>k'\<in>set post. ak_digest k' \<noteq> ak_digest k) \<and>
         p = \<lparr>pr_id = ak_subject k, pr_type = ServicePrincipal, pr_scopes = ak_scopes k\<rparr>)) \<and>
    (authenticate_bearer_token sha256 scheme_param keys header = Inl e \<longrightarrow>
      exn_status e = Some (if keys = [] then 403 else 401)) \<and>
    (\<forall>k\<in>set keys. ak_subject k \<noteq> '''' \<and> length (ak_digest k) = 32 \<and> '''' \<notin> set (ak_scopes k)) \<and>
    ((\<exists>q. require_scopes required p = Inr q) \<longleftrightarrow> set required \<subseteq> set (pr_scopes p))"
proof (intro conjI)
  show "authenticate_bearer_token sha256 scheme_param keys header = Inr p \<longleftrightarrow>
      header \<notin> {None, Some ''''} \<and> str_lower (fst (scheme_param header)) = ''bearer'' \<and>
      (\<exists>pre k post. keys = pre @ k # post \<and> ak_digest k = sha256 (snd (scheme_param header)) \<and>
         (\<forall>k'\<in>set post. ak_digest k' \<noteq> ak_digest k) \<and>
         p = \<lparr>pr_id = ak_subject k, pr_type = ServicePrincipal, pr_scopes = ak_scopes k\<rparr>)"
    by (rule authenticate_iff)
  show "authenticate_bearer_token sha256 scheme_param keys header = Inl e \<longrightarrow>
      exn_status e = Some (if keys = [] then 403 else 401)"
    by (auto simp: authenticate_bearer_token_def exn_status_def ForbiddenError_def UnauthorizedError_def
        mk_app_error_def split: if_splits option.splits prod.splits)
  show "\<forall>k\<in>set keys. ak_subject k \<noteq> '''' \<and> length (ak_digest k) = 32 \<and> '''' \<notin> set (ak_scopes k)"
    using parse_entries_ok [OF keys [unfolded parse_api_keys_def]] by (auto simp: key_ok_def)
  show "(\<exists>q. require_scopes required p = Inr q) \<longleftrightarrow> set required \<subseteq> set (pr_scopes p)"
    by (auto simp: require_scopes_def Let_def missing_scopes_none)
qed

theorem bearer_authentication_witness:
  "authenticate_bearer_token (\<lambda>t. t) (\<lambda>h. (''Bearer'', replicate 32 (CHR 0x11)))
     [\<lparr>ak_subject = ''svc'', ak_scopes = [''read''], ak_digest = replicate 32 (CHR 0x11)\<rparr>] (Some ''Bearer x'') =
   Inr \<lparr>pr_id = ''svc'', pr_type = ServicePrincipal, pr_scopes = [''read'']\<rparr>"
proof -
  have "parse_api_keys (''svc:read:'' @ replicate 64 (CHR ''1'')) =
      Inr [\<lparr>ak_subject = ''svc'', ak_scopes = [''read''], ak_digest = replicate 32 (CHR 0x11)\<rparr>]"
    by code_simp
  note conjunct1 [OF bearer_authentication [OF this]]
  moreover have "str_lower ''Bearer'' = ''bearer''" by code_simp
  ultimately show ?thesis by (auto simp: Cons_eq_append_conv)
qed

end
