(* ===== verification/ASGI.thy ===== *)
theory ASGI
  imports Identity
begin

text \<open>
  ASGI applications as interaction trees. An application is a function of the scope; what it does is
  a tree whose nodes are its awaits, each with a continuation for every outcome, so a
  middleware is a function on trees: it wraps \<open>receive\<close>, \<open>send\<close> and the end of the call exactly where the Python
  closures do. The request state dictionary is shared by reference in Python: the end of a call
  carries the state the call leaves behind. A request makes finitely many awaits on every path.

  Text is taken as its UTF-8 bytes, so decoding is the identity on valid UTF-8 and raises
  elsewhere.
\<close>

section \<open>Messages and scopes\<close>

type_synonym headers = "(string \<times> string) list"

datatype in_msg = HttpRequest "string option" bool | HttpDisconnect

datatype out_msg = ResponseStart int headers | ResponseBody string bool

datatype asgi_exn = RequestBodyTooLarge | CancelledError | UnicodeDecodeError | Err exn

text \<open>\<open>scope["state"]\<close>: the request id and the id of the authenticated principal.\<close>

record req_state =
  st_request_id :: "string option"
  st_principal :: "string option"

text \<open>\<open>sc_ctx\<close> is the value of the \<open>request_id\<close> context variable the callee sees.\<close>

record scope =
  sc_type :: string
  sc_method :: "string option"
  sc_path :: "string option"
  sc_headers :: headers
  sc_client :: "string option"
  sc_state :: req_state
  sc_ctx :: string

record access_record =
  log_method :: string
  log_path :: string
  log_status :: int
  log_duration_ms :: rat
  log_request_id :: string
  log_principal :: string

datatype effect = Acquire | Release | LogAccess access_record

section \<open>Runs\<close>

datatype run =
    Done req_state
  | Fail asgi_exn req_state
  | Recv "asgi_exn + in_msg \<Rightarrow> run"
  | Snd out_msg "asgi_exn option \<Rightarrow> run"
  | Wait "asgi_exn option \<Rightarrow> run"
  | Check string "rate_limit_result \<Rightarrow> run"
  | Eff effect run

type_synonym app = "scope \<Rightarrow> run"

text \<open>Sending a list of messages, then ending.\<close>

fun send_all :: "out_msg list \<Rightarrow> req_state \<Rightarrow> run" where
  "send_all [] st = Done st"
| "send_all (m # ms) st = Snd m (\<lambda>r. case r of Some e \<Rightarrow> Fail e st | None \<Rightarrow> send_all ms st)"

definition is_start :: "out_msg \<Rightarrow> bool" where
  "is_start m = (case m of ResponseStart _ _ \<Rightarrow> True | ResponseBody _ _ \<Rightarrow> False)"

section \<open>UTF-8\<close>

definition cont_byte :: "nat \<Rightarrow> bool" where
  "cont_byte n \<longleftrightarrow> 128 \<le> n \<and> n < 192"

fun utf8_ok :: "nat list \<Rightarrow> bool" where
  "utf8_ok [] = True"
| "utf8_ok (a # s) =
     (if a < 128 then utf8_ok s
      else if 194 \<le> a \<and> a < 224 then (case s of b # s' \<Rightarrow> cont_byte b \<and> utf8_ok s' | _ \<Rightarrow> False)
      else if 224 \<le> a \<and> a < 240 then
        (case s of b # c # s' \<Rightarrow> cont_byte b \<and> cont_byte c \<and> (a = 224 \<longrightarrow> 160 \<le> b) \<and> (a = 237 \<longrightarrow> b < 160) \<and> utf8_ok s'
         | _ \<Rightarrow> False)
      else if 240 \<le> a \<and> a < 245 then
        (case s of b # c # d # s' \<Rightarrow> cont_byte b \<and> cont_byte c \<and> cont_byte d \<and> (a = 240 \<longrightarrow> 144 \<le> b) \<and> (a = 244 \<longrightarrow> b < 144) \<and>
           utf8_ok s'
         | _ \<Rightarrow> False)
      else False)"

definition utf8_decode :: "string \<Rightarrow> asgi_exn + string" where
  "utf8_decode s = (if utf8_ok (map of_char s) then Inr s else Inl UnicodeDecodeError)"

section \<open>Playing a run\<close>

text \<open>
  The outside world answers every await: the \<open>i\<close>-th receive with \<open>e_recv i\<close>, the \<open>j\<close>-th other await with the
  \<open>j\<close>-th answer of its kind. \<open>play\<close> is what the world sees.
\<close>

record env =
  e_recv :: "nat \<Rightarrow> asgi_exn + in_msg"
  e_send :: "nat \<Rightarrow> asgi_exn option"
  e_wait :: "nat \<Rightarrow> asgi_exn option"
  e_check :: "nat \<Rightarrow> string \<Rightarrow> rate_limit_result"

datatype obs = Sent out_msg | Checked string | Did effect | Finished req_state | Failed asgi_exn req_state

primrec play :: "env \<Rightarrow> run \<Rightarrow> nat \<Rightarrow> nat \<Rightarrow> obs list" where
  "play E (Done st) i j = [Finished st]"
| "play E (Fail e st) i j = [Failed e st]"
| "play E (Recv k) i j = play E (k (e_recv E i)) (Suc i) j"
| "play E (Snd m k) i j = Sent m # play E (k (e_send E j)) i (Suc j)"
| "play E (Wait k) i j = play E (k (e_wait E j)) i (Suc j)"
| "play E (Check ip k) i j = Checked ip # play E (k (e_check E j ip)) i (Suc j)"
| "play E (Eff x r) i j = Did x # play E r i j"

definition sent :: "obs list \<Rightarrow> out_msg list" where
  "sent t = concat (map (\<lambda>x. case x of Sent m \<Rightarrow> [m] | _ \<Rightarrow> []) t)"

lemma sent_simps [simp]:
  "sent [] = []" "sent (Sent m # t) = m # sent t" "sent (Checked ip # t) = sent t" "sent (Did x # t) = sent t"
  "sent (Finished st # t) = sent t" "sent (Failed e st # t) = sent t"
  by (simp_all add: sent_def)

lemma sent_append [simp]: "sent (t @ u) = sent t @ sent u"
  by (simp add: sent_def)

lemma play_send_all:
  "\<forall>n. e_send E n = None \<Longrightarrow> play E (send_all ms st) i j = map Sent ms @ [Finished st]"
  by (induction ms arbitrary: j) simp_all

lemma play_nonempty [simp]: "play E r i j \<noteq> []"
  by (induction r arbitrary: i j) simp_all

end
