(* ===== verification/Middleware.thy ===== *)
theory Middleware
  imports ASGI
begin

text \<open>
  The middlewares of \<open>src/app/core/middleware.py\<close> and \<open>src/app/core/request_context.py\<close>, and the stack
  \<open>install_core_middlewares\<close> builds of them (\<open>src/app/bootstrap/middleware.py\<close>).

  Arguments of the model: \<open>dumps\<close> (JSON serialisation), \<open>fresh\<close> (the hexadecimal digits of a new
  UUID), Starlette's header default and its CORS, trusted-host and gzip middlewares. A deadline is the number
  of awaits the application completes before it passes.
\<close>

section \<open>Request ids (request\_context.py)\<close>

fun first_header :: "headers \<Rightarrow> string \<Rightarrow> string option" where
  "first_header [] name = None"
| "first_header ((n, v) # hs) name = (if str_lower n = str_lower name then Some v else first_header hs name)"

definition set_response_header :: "headers \<Rightarrow> string \<Rightarrow> string \<Rightarrow> headers" where
  "set_response_header hs name value = filter (\<lambda>(n, v). str_lower n \<noteq> str_lower name) hs @ [(name, value)]"

definition tag_start :: "string \<Rightarrow> string \<Rightarrow> out_msg \<Rightarrow> out_msg" where
  "tag_start name rid m = (case m of
      ResponseStart s hs \<Rightarrow> ResponseStart s (set_response_header hs name rid)
    | ResponseBody b m2 \<Rightarrow> ResponseBody b m2)"

primrec map_sends :: "(out_msg \<Rightarrow> out_msg) \<Rightarrow> run \<Rightarrow> run" where
  "map_sends f (Done st) = Done st"
| "map_sends f (Fail e st) = Fail e st"
| "map_sends f (Recv k) = Recv (\<lambda>x. map_sends f (k x))"
| "map_sends f (Snd m k) = Snd (f m) (\<lambda>r. map_sends f (k r))"
| "map_sends f (Wait k) = Wait (\<lambda>r. map_sends f (k r))"
| "map_sends f (Check ip k) = Check ip (\<lambda>r. map_sends f (k r))"
| "map_sends f (Eff x r) = Eff x (map_sends f r)"

definition REQUEST_ID_HEADER :: string where "REQUEST_ID_HEADER = ''X-Request-ID''"

definition new_request_id :: "string \<Rightarrow> string" where "new_request_id fresh = ''req_'' @ fresh"

definition incoming_request_id :: "string \<Rightarrow> string \<Rightarrow> scope \<Rightarrow> asgi_exn + string" where
  "incoming_request_id fresh header_name sc = (case first_header (sc_headers sc) header_name of
      None \<Rightarrow> Inr (new_request_id fresh)
    | Some raw \<Rightarrow> if raw = '''' then Inr (new_request_id fresh) else utf8_decode raw)"

definition RequestIdMiddleware :: "string \<Rightarrow> string \<Rightarrow> app \<Rightarrow> app" where
  "RequestIdMiddleware fresh header_name app sc =
     (if sc_type sc \<noteq> ''http'' then app sc
      else (case incoming_request_id fresh header_name sc of
          Inl e \<Rightarrow> Fail e (sc_state sc)
        | Inr rid \<Rightarrow> map_sends (tag_start header_name rid)
            (app (sc\<lparr>sc_state := (sc_state sc)\<lparr>st_request_id := Some rid\<rparr>, sc_ctx := rid\<rparr>))))"

section \<open>Access log\<close>

primrec log_run :: "(int \<Rightarrow> req_state \<Rightarrow> effect) \<Rightarrow> run \<Rightarrow> int \<Rightarrow> run" where
  "log_run lg (Done st) status = Eff (lg status st) (Done st)"
| "log_run lg (Fail e st) status = Eff (lg status st) (Fail e st)"
| "log_run lg (Recv k) status = Recv (\<lambda>x. log_run lg (k x) status)"
| "log_run lg (Snd m k) status =
     Snd m (\<lambda>r. log_run lg (k r) (case m of ResponseStart s _ \<Rightarrow> s | ResponseBody _ _ \<Rightarrow> status))"
| "log_run lg (Wait k) status = Wait (\<lambda>r. log_run lg (k r) status)"
| "log_run lg (Check ip k) status = Check ip (\<lambda>r. log_run lg (k r) status)"
| "log_run lg (Eff x r) status = Eff x (log_run lg r status)"

definition access_entry :: "scope \<Rightarrow> rat \<Rightarrow> int \<Rightarrow> req_state \<Rightarrow> effect" where
  "access_entry sc took status st = LogAccess
     \<lparr>log_method = dflt ''-'' (sc_method sc), log_path = dflt ''-'' (sc_path sc), log_status = status,
      log_duration_ms = took * 1000, log_request_id = py_or (st_request_id st) (sc_ctx sc),
      log_principal = dflt ''-'' (st_principal st)\<rparr>"

definition AccessLogMiddleware :: "rat \<Rightarrow> app \<Rightarrow> app" where
  "AccessLogMiddleware took app sc =
     (if sc_type sc \<noteq> ''http'' then app sc else log_run (access_entry sc took) (app sc) 500)"

section \<open>Error responses of the middlewares\<close>

definition request_id_from_scope :: "string \<Rightarrow> scope \<Rightarrow> req_state \<Rightarrow> asgi_exn + (string \<times> req_state)" where
  "request_id_from_scope fresh sc st =
     (if py_or (st_request_id st) '''' \<noteq> '''' then Inr (the (st_request_id st), st)
      else (case (case first_header (sc_headers sc) ''x-request-id'' of
              Some value \<Rightarrow> utf8_decode value
            | None \<Rightarrow> Inr (new_request_id fresh)) of
          Inl e \<Rightarrow> Inl e
        | Inr rid \<Rightarrow> Inr (rid, st\<lparr>st_request_id := Some rid\<rparr>)))"

definition error_payload :: "string \<Rightarrow> string \<Rightarrow> string \<Rightarrow> json" where
  "error_payload code msg rid =
     JObj [(''error'', JObj [(''code'', JStr code), (''message'', JStr msg), (''request_id'', JStr rid)])]"

definition error_headers :: "string \<Rightarrow> string \<Rightarrow> headers" where
  "error_headers body rid =
     [(''content-type'', ''application/json''), (''content-length'', int_str (int (length body))), (''x-request-id'', rid)]"

definition send_too_large :: "(json \<Rightarrow> string) \<Rightarrow> string \<Rightarrow> scope \<Rightarrow> req_state \<Rightarrow> run" where
  "send_too_large dumps fresh sc st = (case request_id_from_scope fresh sc st of
      Inl e \<Rightarrow> Fail e st
    | Inr (rid, st') \<Rightarrow>
        (let body = dumps (error_payload ''request_body_too_large'' ''Request body too large'' rid) in
         send_all [ResponseStart 413 (error_headers body rid), ResponseBody body False] st'))"

definition send_timeout :: "(json \<Rightarrow> string) \<Rightarrow> string \<Rightarrow> scope \<Rightarrow> req_state \<Rightarrow> run" where
  "send_timeout dumps fresh sc st = (case request_id_from_scope fresh sc st of
      Inl e \<Rightarrow> Fail e st
    | Inr (rid, st') \<Rightarrow>
        (let body = dumps (error_payload ''request_timeout'' ''Request exceeded timeout'' rid) in
         send_all [ResponseStart 504 (error_headers body rid), ResponseBody body False] st'))"

definition send_rate_limited :: "(json \<Rightarrow> string) \<Rightarrow> string \<Rightarrow> scope \<Rightarrow> int option \<Rightarrow> run" where
  "send_rate_limited dumps fresh sc retry_after = (case request_id_from_scope fresh sc (sc_state sc) of
      Inl e \<Rightarrow> Fail e (sc_state sc)
    | Inr (rid, st') \<Rightarrow>
        (let body = dumps (error_payload ''rate_limit_exceeded'' ''Too many requests from this client'' rid);
             hs = error_headers body rid @ (case retry_after of None \<Rightarrow> [] | Some n \<Rightarrow> [(''retry-after'', int_str n)]) in
         send_all [ResponseStart 429 hs, ResponseBody body False] st'))"

section \<open>Request body limit\<close>

definition content_length :: "scope \<Rightarrow> int option" where
  "content_length sc = (case first_header (sc_headers sc) ''content-length'' of
      None \<Rightarrow> None | Some value \<Rightarrow> py_int_str value)"

definition body_bytes :: "asgi_exn + in_msg \<Rightarrow> int" where
  "body_bytes x = (case x of Inr (HttpRequest (Some b) _) \<Rightarrow> int (length b) | _ \<Rightarrow> 0)"

definition is_request :: "asgi_exn + in_msg \<Rightarrow> bool" where
  "is_request x = (case x of Inr (HttpRequest _ _) \<Rightarrow> True | _ \<Rightarrow> False)"

primrec limit_run :: "int \<Rightarrow> (req_state \<Rightarrow> run) \<Rightarrow> run \<Rightarrow> bool \<Rightarrow> int \<Rightarrow> run" where
  "limit_run mx too_large (Done st) started n = Done st"
| "limit_run mx too_large (Fail e st) started n =
     (if e = RequestBodyTooLarge \<and> \<not> started then too_large st else Fail e st)"
| "limit_run mx too_large (Recv k) started n =
     Recv (\<lambda>x. if is_request x \<and> n + body_bytes x > mx
               then limit_run mx too_large (k (Inl RequestBodyTooLarge)) started (n + body_bytes x)
               else limit_run mx too_large (k x) started (n + body_bytes x))"
| "limit_run mx too_large (Snd m k) started n = Snd m (\<lambda>r. limit_run mx too_large (k r) (started \<or> is_start m) n)"
| "limit_run mx too_large (Wait k) started n = Wait (\<lambda>r. limit_run mx too_large (k r) started n)"
| "limit_run mx too_large (Check ip k) started n = Check ip (\<lambda>r. limit_run mx too_large (k r) started n)"
| "limit_run mx too_large (Eff x r) started n = Eff x (limit_run mx too_large r started n)"

definition RequestBodyLimitMiddleware :: "(json \<Rightarrow> string) \<Rightarrow> string \<Rightarrow> int \<Rightarrow> app \<Rightarrow> exn + app" where
  "RequestBodyLimitMiddleware dumps fresh max_body_bytes app =
     (if max_body_bytes \<le> 0 then Inl (ValueError ''max_body_bytes must be positive'')
      else Inr (\<lambda>sc.
        if sc_type sc \<noteq> ''http'' then app sc
        else if (case content_length sc of None \<Rightarrow> False | Some n \<Rightarrow> n > max_body_bytes)
        then send_too_large dumps fresh sc (sc_state sc)
        else limit_run max_body_bytes (send_too_large dumps fresh sc) (app sc) False 0))"

section \<open>Security headers\<close>

type_synonym header_default = "string \<Rightarrow> string \<Rightarrow> headers \<Rightarrow> headers"

definition security_headers :: "bool \<Rightarrow> int \<Rightarrow> headers" where
  "security_headers hsts_enabled hsts_max_age =
     [(''x-content-type-options'', ''nosniff''), (''x-frame-options'', ''DENY''), (''referrer-policy'', ''no-referrer''),
      (''permissions-policy'', ''camera=(), microphone=(), geolocation=()'')] @
     (if hsts_enabled then [(''strict-transport-security'', ''max-age='' @ int_str hsts_max_age @ ''; includeSubDomains'')] else [])"

definition add_security_headers :: "header_default \<Rightarrow> bool \<Rightarrow> int \<Rightarrow> out_msg \<Rightarrow> out_msg" where
  "add_security_headers setdefault hsts_enabled hsts_max_age m = (case m of
      ResponseStart s hs \<Rightarrow>
        ResponseStart s (fold (\<lambda>(n, v). setdefault n v) (security_headers hsts_enabled hsts_max_age) hs)
    | ResponseBody b m2 \<Rightarrow> ResponseBody b m2)"

definition SecurityHeadersMiddleware :: "header_default \<Rightarrow> bool \<Rightarrow> int \<Rightarrow> app \<Rightarrow> exn + app" where
  "SecurityHeadersMiddleware setdefault hsts_enabled hsts_max_age app =
     (if hsts_max_age < 0 then Inl (ValueError ''hsts_max_age_seconds must not be negative'')
      else Inr (\<lambda>sc. if sc_type sc \<noteq> ''http'' then app sc
                     else map_sends (add_security_headers setdefault hsts_enabled hsts_max_age) (app sc)))"

section \<open>Requests in flight\<close>

record tracker =
  tr_count :: int
  tr_idle :: bool

definition InFlightTracker :: tracker where
  "InFlightTracker = \<lparr>tr_count = 0, tr_idle = True\<rparr>"

definition acquire :: "tracker \<Rightarrow> tracker" where
  "acquire t = t\<lparr>tr_count := tr_count t + 1, tr_idle := False\<rparr>"

definition release :: "tracker \<Rightarrow> tracker" where
  "release t = (let n = max 0 (tr_count t - 1) in t\<lparr>tr_count := n, tr_idle := (if n = 0 then True else tr_idle t)\<rparr>)"

text \<open>\<open>later\<close>: the tracker as the event loop sees it until the timeout.\<close>

definition wait_idle :: "tracker list \<Rightarrow> tracker \<Rightarrow> bool" where
  "wait_idle later t = (if tr_count t = 0 then True else tr_idle t \<or> list_ex tr_idle later)"

primrec release_after :: "run \<Rightarrow> run" where
  "release_after (Done st) = Eff Release (Done st)"
| "release_after (Fail e st) = Eff Release (Fail e st)"
| "release_after (Recv k) = Recv (\<lambda>x. release_after (k x))"
| "release_after (Snd m k) = Snd m (\<lambda>r. release_after (k r))"
| "release_after (Wait k) = Wait (\<lambda>r. release_after (k r))"
| "release_after (Check ip k) = Check ip (\<lambda>r. release_after (k r))"
| "release_after (Eff x r) = Eff x (release_after r)"

definition InFlightTrackerMiddleware :: "app \<Rightarrow> app" where
  "InFlightTrackerMiddleware app sc = (if sc_type sc \<noteq> ''http'' then app sc else Eff Acquire (release_after (app sc)))"

section \<open>Request timeout\<close>

text \<open>
  \<open>asyncio.wait_for\<close>: when the deadline passes during an await, that await raises \<open>CancelledError\<close> in the
  application; if the application then ends with it, \<open>wait_for\<close> raises \<open>TimeoutError\<close>. A \<open>TimeoutError\<close> of the application's own
  takes the same handler.
\<close>

definition due :: "nat option \<Rightarrow> bool" where "due d \<longleftrightarrow> d = Some 0"

definition tick :: "nat option \<Rightarrow> nat option" where "tick d = (case d of Some (Suc n) \<Rightarrow> Some n | _ \<Rightarrow> None)"

primrec timeout_run :: "(req_state \<Rightarrow> run) \<Rightarrow> run \<Rightarrow> nat option \<Rightarrow> bool \<Rightarrow> bool \<Rightarrow> run" where
  "timeout_run on_timeout (Done st) d cancelled started = Done st"
| "timeout_run on_timeout (Fail e st) d cancelled started =
     (if (cancelled \<and> e = CancelledError \<or> e = Err TimeoutError)
      then (if started then Fail (Err TimeoutError) st else on_timeout st) else Fail e st)"
| "timeout_run on_timeout (Recv k) d cancelled started =
     (if due d then timeout_run on_timeout (k (Inl CancelledError)) None True started
      else Recv (\<lambda>x. timeout_run on_timeout (k x) (tick d) cancelled started))"
| "timeout_run on_timeout (Snd m k) d cancelled started =
     Snd m (\<lambda>r. if due d then timeout_run on_timeout (k (Some CancelledError)) None True (started \<or> is_start m)
                else timeout_run on_timeout (k r) (tick d) cancelled (started \<or> is_start m))"
| "timeout_run on_timeout (Wait k) d cancelled started =
     (if due d then timeout_run on_timeout (k (Some CancelledError)) None True started
      else Wait (\<lambda>r. timeout_run on_timeout (k r) (tick d) cancelled started))"
| "timeout_run on_timeout (Check ip k) d cancelled started =
     Check ip (\<lambda>r. timeout_run on_timeout (k r) d cancelled started)"
| "timeout_run on_timeout (Eff x r) d cancelled started = Eff x (timeout_run on_timeout r d cancelled started)"

definition is_excluded :: "string list \<Rightarrow> string \<Rightarrow> bool" where
  "is_excluded patterns path = list_ex (\<lambda>p. contains p path) patterns"

definition RequestTimeoutMiddleware ::
  "(json \<Rightarrow> string) \<Rightarrow> string \<Rightarrow> nat option \<Rightarrow> rat \<Rightarrow> string list \<Rightarrow> app \<Rightarrow> exn + app" where
  "RequestTimeoutMiddleware dumps fresh deadline timeout_seconds exclude app =
     (if timeout_seconds \<le> 0 then Inl (ValueError ''timeout_seconds must be positive'')
      else Inr (\<lambda>sc. if sc_type sc \<noteq> ''http'' \<or> is_excluded exclude (dflt '''' (sc_path sc)) then app sc
                     else timeout_run (send_timeout dumps fresh sc) (app sc) deadline False False))"

section \<open>Rate limit by client address\<close>

text \<open>White space of Latin-1 text: ASCII white space, NEL and the no-break space.\<close>

definition latin1_space :: "char \<Rightarrow> bool" where
  "latin1_space c \<longleftrightarrow> is_space c \<or> (of_char c :: nat) \<in> {133, 160}"

definition latin1_strip :: "string \<Rightarrow> string" where
  "latin1_strip s = rev (dropWhile latin1_space (rev (dropWhile latin1_space s)))"

definition forwarded_hops :: "headers \<Rightarrow> string list" where
  "forwarded_hops hs =
     concat (map (\<lambda>(n, v). if n = ''x-forwarded-for''
                           then map latin1_strip (filter (\<lambda>h. latin1_strip h \<noteq> '''') (split_on CHR '','' v)) else []) hs)"

definition extract_client_ip :: "int \<Rightarrow> scope \<Rightarrow> string" where
  "extract_client_ip trusted_proxy_count sc =
     (let peer = dflt ''unknown'' (sc_client sc); hops = forwarded_hops (sc_headers sc) in
      if trusted_proxy_count = 0 then peer
      else if int (length hops) < trusted_proxy_count then peer
      else hops ! (length hops - nat trusted_proxy_count))"

definition IPRateLimitMiddleware ::
  "(json \<Rightarrow> string) \<Rightarrow> string \<Rightarrow> bool \<Rightarrow> string list \<Rightarrow> int \<Rightarrow> app \<Rightarrow> exn + app" where
  "IPRateLimitMiddleware dumps fresh has_limiter exclude trusted_proxy_count app =
     (if trusted_proxy_count < 0 then Inl (ValueError ''trusted_proxy_count must not be negative'')
      else Inr (\<lambda>sc.
        if sc_type sc \<noteq> ''http'' \<or> is_excluded exclude (dflt '''' (sc_path sc)) \<or> \<not> has_limiter then app sc
        else Check (extract_client_ip trusted_proxy_count sc) (\<lambda>r.
          if allowed r then app sc else send_rate_limited dumps fresh sc (rl_retry_after_seconds r))))"

section \<open>The stack (bootstrap/middleware.py)\<close>

record http_settings =
  MAX_REQUEST_BODY_BYTES :: int
  SECURITY_HEADERS_ENABLED :: bool
  SECURITY_HSTS_ENABLED :: bool
  SECURITY_HSTS_MAX_AGE_SECONDS :: int
  GZIP_ENABLED :: bool
  REQUEST_TIMEOUT_ENABLED :: bool
  REQUEST_TIMEOUT_SECONDS :: int
  REQUEST_TIMEOUT_EXCLUDE_PATTERNS :: string
  TRUSTED_PROXY_COUNT :: int
  IP_LIMIT_ENABLED :: bool
  IP_LIMIT_EXCLUDE_PATHS :: string

record world =
  w_dumps :: "json \<Rightarrow> string"
  w_fresh :: string
  w_took :: rat
  w_deadline :: "nat option"
  w_setdefault :: header_default
  w_cors :: "app \<Rightarrow> app"
  w_trusted_host :: "app \<Rightarrow> app"
  w_gzip :: "app \<Rightarrow> app"
  w_tracked :: bool
  w_has_limiter :: bool

definition request_timeout_exclude_patterns :: "http_settings \<Rightarrow> string list" where
  "request_timeout_exclude_patterns s = split_csv (REQUEST_TIMEOUT_EXCLUDE_PATTERNS s)"

definition layer :: "bool \<Rightarrow> (app \<Rightarrow> exn + app) \<Rightarrow> exn + app \<Rightarrow> exn + app" where
  "layer on mk r = (case r of Inl e \<Rightarrow> Inl e | Inr a \<Rightarrow> if on then mk a else Inr a)"

definition install_core_middlewares :: "world \<Rightarrow> http_settings \<Rightarrow> app \<Rightarrow> exn + app" where
  "install_core_middlewares w s app =
     layer True (\<lambda>a. Inr (RequestIdMiddleware (w_fresh w) REQUEST_ID_HEADER a))
     (layer (IP_LIMIT_ENABLED s)
        (IPRateLimitMiddleware (w_dumps w) (w_fresh w) (w_has_limiter w) (split_csv (IP_LIMIT_EXCLUDE_PATHS s)) (TRUSTED_PROXY_COUNT s))
     (layer (SECURITY_HEADERS_ENABLED s)
        (SecurityHeadersMiddleware (w_setdefault w) (SECURITY_HSTS_ENABLED s) (SECURITY_HSTS_MAX_AGE_SECONDS s))
     (layer (REQUEST_TIMEOUT_ENABLED s)
        (RequestTimeoutMiddleware (w_dumps w) (w_fresh w) (w_deadline w) (of_int (REQUEST_TIMEOUT_SECONDS s))
           (request_timeout_exclude_patterns s))
     (layer (GZIP_ENABLED s) (\<lambda>a. Inr (w_gzip w a))
     (layer (w_tracked w) (\<lambda>a. Inr (InFlightTrackerMiddleware a))
     (layer True (\<lambda>a. Inr (AccessLogMiddleware (w_took w) a))
     (layer True (RequestBodyLimitMiddleware (w_dumps w) (w_fresh w) (MAX_REQUEST_BODY_BYTES s))
        (Inr (w_trusted_host w (w_cors w app))))))))))"

section \<open>Lemmas: what the wrapped runs do\<close>

lemma sent_map_sends: "sent (play E (map_sends f r) i j) = map f (sent (play E r i j))"
  by (induction r arbitrary: i j) simp_all

lemma sent_map_sendsE:
  assumes "m \<in> set (sent (play E (map_sends f r) i j))"
  obtains m' where "f m' = m" "m' \<in> set (sent (play E r i j))"
  using assms unfolding sent_map_sends by auto

definition body_total :: "(nat \<Rightarrow> asgi_exn + in_msg) \<Rightarrow> nat \<Rightarrow> int" where
  "body_total R n = (\<Sum>j<n. body_bytes (R j))"

definition limited :: "int \<Rightarrow> (nat \<Rightarrow> asgi_exn + in_msg) \<Rightarrow> nat \<Rightarrow> asgi_exn + in_msg" where
  "limited mx R i = (if is_request (R i) \<and> body_total R (Suc i) > mx then Inl RequestBodyTooLarge else R i)"

definition too_large_state :: "obs list \<Rightarrow> req_state option" where
  "too_large_state t = (case last t of Failed e st \<Rightarrow> if e = RequestBodyTooLarge then Some st else None | _ \<Rightarrow> None)"

definition too_large_end :: "bool \<Rightarrow> (req_state \<Rightarrow> obs list) \<Rightarrow> obs list \<Rightarrow> obs list" where
  "too_large_end started rsp t = (case too_large_state t of
      Some st \<Rightarrow> if started \<or> list_ex is_start (sent t) then t else butlast t @ rsp st
    | None \<Rightarrow> t)"

lemma too_large_end_cons [simp]:
  assumes "t \<noteq> []"
  shows "too_large_end started rsp (Sent m # t) = Sent m # too_large_end (started \<or> is_start m) rsp t"
    "too_large_end started rsp (Checked ip # t) = Checked ip # too_large_end started rsp t"
    "too_large_end started rsp (Did x # t) = Did x # too_large_end started rsp t"
  using assms by (auto simp: too_large_end_def too_large_state_def split: option.splits)

lemma body_bytes_nonneg: "0 \<le> body_bytes x"
  by (simp add: body_bytes_def split: sum.splits in_msg.splits option.splits)

lemma body_bytes_request: "\<not> is_request x \<Longrightarrow> body_bytes x = 0"
  by (auto simp: body_bytes_def is_request_def split: sum.splits in_msg.splits option.splits)

lemma limited_bytes:
  assumes "0 \<le> mx"
  shows "body_total (limited mx R) n \<le> mx"
proof -
  have "body_total (limited mx R) n \<le> mx \<and> body_total (limited mx R) n \<le> body_total R n"
  proof (induction n)
    case (Suc n)
    consider "limited mx R n = Inl RequestBodyTooLarge" | "\<not> is_request (R n)" "limited mx R n = R n"
      | "body_total R (Suc n) \<le> mx" "limited mx R n = R n"
      unfolding limited_def by (cases "is_request (R n)"; cases "mx < body_total R (Suc n)") simp_all
    then show ?case
    proof cases
      case 1
      then show ?thesis using Suc body_bytes_nonneg [of "R n"] by (simp add: body_total_def body_bytes_def)
    next
      case 2
      then show ?thesis using Suc by (simp add: body_total_def body_bytes_request)
    next
      case 3
      then show ?thesis using Suc by (simp add: body_total_def)
    qed
  qed (use assms in \<open>simp add: body_total_def\<close>)
  then show ?thesis ..
qed

lemma play_limit_run:
  assumes rsp: "\<And>st i j. play E (tooL st) i j = rsp st"
  shows "play E (limit_run mx tooL a started (body_total (e_recv E) i)) i j =
         too_large_end started rsp (play (E\<lparr>e_recv := limited mx (e_recv E)\<rparr>) a i j)"
proof (induction a arbitrary: started i j)
  case (Recv k)
  have next_total: "body_total (e_recv E) i + body_bytes (e_recv E i) = body_total (e_recv E) (Suc i)"
    by (simp add: body_total_def)
  show ?case
    by (cases "is_request (e_recv E i) \<and> mx < body_total (e_recv E) (Suc i)")
       (auto simp: next_total limited_def Recv.IH [OF rangeI])
next
  case (Fail e st)
  show ?case by (simp add: too_large_end_def too_large_state_def rsp)
next
  case (Done st)
  show ?case by (simp add: too_large_end_def too_large_state_def)
qed simp_all

definition start_statuses :: "out_msg list \<Rightarrow> int list" where
  "start_statuses ms = concat (map (\<lambda>m. case m of ResponseStart s _ \<Rightarrow> [s] | ResponseBody _ _ \<Rightarrow> []) ms)"

lemma start_statuses_simps [simp]:
  "start_statuses [] = []" "start_statuses (ResponseStart s hs # ms) = s # start_statuses ms"
  "start_statuses (ResponseBody b c # ms) = start_statuses ms"
  by (simp_all add: start_statuses_def)

lemma start_statuses_append: "start_statuses (ms @ ns) = start_statuses ms @ start_statuses ns"
  by (simp add: start_statuses_def)

lemma no_starts: "\<not> list_ex is_start ms \<Longrightarrow> start_statuses ms = []"
  by (induction ms) (auto simp: start_statuses_def is_start_def split: out_msg.splits)

lemma request_id_known: "st_request_id st = Some rid \<Longrightarrow> rid \<noteq> '''' \<Longrightarrow> request_id_from_scope fresh sc st = Inr (rid, st)"
  by (simp add: request_id_from_scope_def py_or_def)

text \<open>The trace of an error response does not depend on when it is sent, as long as sending works.\<close>

lemma play_too_large:
  assumes "\<forall>n. e_send E n = None"
  shows "play E (send_too_large dumps fresh sc st) i j = play E (send_too_large dumps fresh sc st) 0 0"
  using assms by (simp add: send_too_large_def Let_def play_send_all split: sum.split)

lemma sent_last_fail: "too_large_state t = Some st \<Longrightarrow> sent (butlast t) = sent t"
proof -
  assume "too_large_state t = Some st"
  then have "last t = Failed RequestBodyTooLarge st" by (auto simp: too_large_state_def split: obs.splits if_splits)
  moreover have "sent t = sent (butlast t @ [last t])" if "t \<noteq> []" using that by simp
  ultimately show ?thesis by (cases "t = []") (simp_all del: append_butlast_last_id)
qed

text \<open>
  C31. The body limit, for an HTTP request whose sends do not fail. A request announcing too long a body is answered 413 without
  calling the application. Otherwise the application runs as if the world had delivered at most \<open>mx\<close> body bytes in all (any
  message beyond is the exception \<open>RequestBodyTooLarge\<close>), and the client sees exactly what the application does, with one
  exception: an application that lets \<open>RequestBodyTooLarge\<close> through before it started a response is followed by the 413 response,
  and then, the request id being known, exactly one response starts, with status 413. An application that catches the exception
  answers for itself, and one that never reads the body is not concerned.
\<close>

theorem body_limit_enforced:
  assumes mw: "RequestBodyLimitMiddleware dumps fresh mx app = Inr wrapped"
    and http: "sc_type sc = ''http''"
    and sends: "\<forall>n. e_send E n = None"
  defines "t \<equiv> play (E\<lparr>e_recv := limited mx (e_recv E)\<rparr>) (app sc) 0 0"
  shows "((case content_length sc of None \<Rightarrow> False | Some n \<Rightarrow> n > mx) \<longrightarrow>
      play E (wrapped sc) 0 0 = play E (send_too_large dumps fresh sc (sc_state sc)) 0 0) \<and>
    (\<not> (case content_length sc of None \<Rightarrow> False | Some n \<Rightarrow> n > mx) \<longrightarrow>
      play E (wrapped sc) 0 0 = (case too_large_state t of
          Some st \<Rightarrow> if list_ex is_start (sent t) then t else butlast t @ play E (send_too_large dumps fresh sc st) 0 0
        | None \<Rightarrow> t)) \<and>
    body_total (limited mx (e_recv E)) n \<le> mx \<and>
    (too_large_state t = Some st \<and> st_request_id st = Some rid \<and> rid \<noteq> '''' \<and> \<not> list_ex is_start (sent t) \<longrightarrow>
      start_statuses (sent (butlast t @ play E (send_too_large dumps fresh sc st) 0 0)) = [413])"
proof -
  have mx: "0 \<le> mx" and w: "wrapped = (\<lambda>sc.
        if sc_type sc \<noteq> ''http'' then app sc
        else if (case content_length sc of None \<Rightarrow> False | Some n \<Rightarrow> n > mx)
        then send_too_large dumps fresh sc (sc_state sc)
        else limit_run mx (send_too_large dumps fresh sc) (app sc) False 0)"
    using mw by (auto simp: RequestBodyLimitMiddleware_def split: if_splits)
  have early: "(case content_length sc of None \<Rightarrow> False | Some n \<Rightarrow> n > mx) \<Longrightarrow>
      play E (wrapped sc) 0 0 = play E (send_too_large dumps fresh sc (sc_state sc)) 0 0"
    using http by (simp add: w)
  have "play E (limit_run mx (send_too_large dumps fresh sc) (app sc) False (body_total (e_recv E) 0)) 0 0 =
      too_large_end False (\<lambda>st. play E (send_too_large dumps fresh sc st) 0 0) t"
    unfolding t_def by (rule play_limit_run) (rule play_too_large [OF sends])
  then have late: "\<not> (case content_length sc of None \<Rightarrow> False | Some n \<Rightarrow> n > mx) \<Longrightarrow>
      play E (wrapped sc) 0 0 = (case too_large_state t of
          Some st \<Rightarrow> if list_ex is_start (sent t) then t else butlast t @ play E (send_too_large dumps fresh sc st) 0 0
        | None \<Rightarrow> t)"
    using http by (cases "too_large_state t") (simp_all add: w too_large_end_def body_total_def)
  have once: "start_statuses (sent (butlast t @ play E (send_too_large dumps fresh sc st) 0 0)) = [413]"
    if "too_large_state t = Some st" "st_request_id st = Some rid" "rid \<noteq> ''''" "\<not> list_ex is_start (sent t)"
    using that sends
    by (simp add: start_statuses_append sent_last_fail no_starts send_too_large_def request_id_known Let_def play_send_all
        del: butlast.simps)
  from early late limited_bytes [OF mx] once show ?thesis by blast
qed

theorem body_limit_enforced_witness:
  "\<exists>wrapped. RequestBodyLimitMiddleware (\<lambda>_. ''{}'') ''f00'' 4
       (\<lambda>sc. Recv (\<lambda>x. case x of Inl e \<Rightarrow> Fail e (sc_state sc) | Inr _ \<Rightarrow> send_all [ResponseStart 200 []] (sc_state sc))) = Inr wrapped \<and>
     start_statuses (sent (play \<lparr>e_recv = \<lambda>_. Inr (HttpRequest (Some ''hello'') False), e_send = \<lambda>_. None, e_wait = \<lambda>_. None,
         e_check = \<lambda>_ _. \<lparr>allowed = True, remaining = 0, rl_retry_after_seconds = None\<rparr>\<rparr>
       (wrapped \<lparr>sc_type = ''http'', sc_method = None, sc_path = None, sc_headers = [], sc_client = None,
          sc_state = \<lparr>st_request_id = Some ''r1'', st_principal = None\<rparr>, sc_ctx = ''-''\<rparr>) 0 0)) = [413]"
  (is "\<exists>wrapped. RequestBodyLimitMiddleware ?dumps ?fresh 4 ?app = _ \<and> start_statuses (sent (play ?E (wrapped ?sc) 0 0)) = _")
proof -
  obtain wrapped where w: "RequestBodyLimitMiddleware ?dumps ?fresh 4 ?app = Inr wrapped"
    by (simp add: RequestBodyLimitMiddleware_def)
  have t: "play (?E\<lparr>e_recv := limited 4 (e_recv ?E)\<rparr>) (?app ?sc) 0 0 = [Failed RequestBodyTooLarge (sc_state ?sc)]"
    by (simp add: limited_def is_request_def body_total_def body_bytes_def)
  have "play ?E (wrapped ?sc) 0 0 = play ?E (send_too_large ?dumps ?fresh ?sc (sc_state ?sc)) 0 0"
    using body_limit_enforced [OF w, of ?sc ?E] unfolding t
    by (simp add: too_large_state_def content_length_def)
  then have "start_statuses (sent (play ?E (wrapped ?sc) 0 0)) = [413]"
    using body_limit_enforced [OF w, of ?sc ?E _ "sc_state ?sc" "''r1''"] unfolding t by (simp add: too_large_state_def)
  with w show ?thesis by blast
qed

section \<open>The client address\<close>







section \<open>Requests in flight, concurrently\<close>

text \<open>\<open>holds r b\<close>: on every path the run \<open>r\<close>, now holding the tracker (\<open>b\<close>) or not, ends without it.\<close>

primrec holds :: "run \<Rightarrow> bool \<Rightarrow> bool" where
  "holds (Done st) b = (\<not> b)"
| "holds (Fail e st) b = (\<not> b)"
| "holds (Recv k) b = (\<forall>x. holds (k x) b)"
| "holds (Snd m k) b = (\<forall>r. holds (k r) b)"
| "holds (Wait k) b = (\<forall>r. holds (k r) b)"
| "holds (Check ip k) b = (\<forall>r. holds (k r) b)"
| "holds (Eff x r) b = (case x of Acquire \<Rightarrow> \<not> b \<and> holds r True | Release \<Rightarrow> b \<and> holds r False | LogAccess _ \<Rightarrow> holds r b)"

definition in_flight :: "run \<Rightarrow> bool" where "in_flight r = holds r True"

primrec untracked :: "run \<Rightarrow> bool" where
  "untracked (Done st) = True"
| "untracked (Fail e st) = True"
| "untracked (Recv k) = (\<forall>x. untracked (k x))"
| "untracked (Snd m k) = (\<forall>r. untracked (k r))"
| "untracked (Wait k) = (\<forall>r. untracked (k r))"
| "untracked (Check ip k) = (\<forall>r. untracked (k r))"
| "untracked (Eff x r) = ((case x of LogAccess _ \<Rightarrow> True | _ \<Rightarrow> False) \<and> untracked r)"

definition perform :: "effect \<Rightarrow> tracker \<Rightarrow> tracker" where
  "perform x t = (case x of Acquire \<Rightarrow> acquire t | Release \<Rightarrow> release t | LogAccess _ \<Rightarrow> t)"

text \<open>The event loop: requests arrive at any time, and any request whose await is answered takes its next step.\<close>

inductive loop_step :: "run list \<times> tracker \<Rightarrow> run list \<times> tracker \<Rightarrow> bool" where
  arrive: "untracked (app sc) \<Longrightarrow> loop_step (rs, t) (rs @ [InFlightTrackerMiddleware app sc], t)"
| recv: "p < length rs \<Longrightarrow> rs ! p = Recv k \<Longrightarrow> loop_step (rs, t) (rs[p := k x], t)"
| send: "p < length rs \<Longrightarrow> rs ! p = Snd m k \<Longrightarrow> loop_step (rs, t) (rs[p := k r], t)"
| wait: "p < length rs \<Longrightarrow> rs ! p = Wait k \<Longrightarrow> loop_step (rs, t) (rs[p := k r], t)"
| limit: "p < length rs \<Longrightarrow> rs ! p = Check ip k \<Longrightarrow> loop_step (rs, t) (rs[p := k q], t)"
| act: "p < length rs \<Longrightarrow> rs ! p = Eff x r \<Longrightarrow> loop_step (rs, t) (rs[p := r], perform x t)"

lemma holds_unique: "holds r a \<Longrightarrow> holds r b \<Longrightarrow> a = b"
proof (induction r arbitrary: a b)
  case (Recv k)
  then show ?case by (metis holds.simps(3) rangeI)
next
  case (Snd m k)
  then show ?case by (metis holds.simps(4) rangeI)
next
  case (Wait k)
  then show ?case by (metis holds.simps(5) rangeI)
next
  case (Check ip k)
  then show ?case by (metis holds.simps(6) rangeI)
qed (auto split: effect.splits)

lemma untracked_holds: "untracked r \<Longrightarrow> holds r False"
  by (induction r) (auto split: effect.splits)

lemma release_after_holds: "untracked r \<Longrightarrow> holds (release_after r) True"
  by (induction r) (auto split: effect.splits)

lemma middleware_holds: "untracked (app sc) \<Longrightarrow> holds (InFlightTrackerMiddleware app sc) False"
  by (simp add: InFlightTrackerMiddleware_def untracked_holds release_after_holds)

lemma filter_update:
  assumes "p < length xs"
  shows "length (filter P (xs[p := y])) + (if P (xs ! p) then 1 else 0) = length (filter P xs) + (if P y then 1 else 0)"
proof -
  have upd: "xs[p := y] = take p xs @ y # drop (Suc p) xs" using assms by (simp add: upd_conv_take_nth_drop)
  have xs: "xs = take p xs @ xs ! p # drop (Suc p) xs" using assms by (rule id_take_nth_drop)
  have "length (filter P xs) = length (filter P (take p xs)) + (if P (xs ! p) then 1 else 0) + length (filter P (drop (Suc p) xs))"
    by (subst xs) simp
  moreover have "length (filter P (xs[p := y])) = length (filter P (take p xs)) + (if P y then 1 else 0) + length (filter P (drop (Suc p) xs))"
    by (simp add: upd)
  ultimately show ?thesis by simp
qed

definition loop_inv :: "run list \<times> tracker \<Rightarrow> bool" where
  "loop_inv = (\<lambda>(rs, t). (\<forall>r\<in>set rs. holds r False \<or> holds r True) \<and> tr_count t = int (length (filter in_flight rs)) \<and>
     (tr_idle t \<longleftrightarrow> tr_count t = 0))"

lemma loop_inv_quiet:
  assumes "loop_inv (rs, t)" "p < length rs" "\<And>b. holds (rs ! p) b \<Longrightarrow> holds r b"
  shows "loop_inv (rs[p := r], t)"
proof -
  have ok: "holds (rs ! p) False \<or> holds (rs ! p) True" using assms(1,2) by (auto simp: loop_inv_def)
  then have "in_flight r = in_flight (rs ! p)"
    using assms(3) holds_unique [of r False True] unfolding in_flight_def by blast
  then have "length (filter in_flight (rs[p := r])) = length (filter in_flight rs)"
    using filter_update [OF assms(2), of in_flight r] by (simp split: if_splits)
  moreover have "\<forall>q\<in>set (rs[p := r]). holds q False \<or> holds q True"
    using assms ok set_update_subset_insert [of rs p r] unfolding loop_inv_def by fastforce
  ultimately show ?thesis using assms(1) by (simp add: loop_inv_def)
qed

lemma loop_inv_act:
  assumes inv: "loop_inv (rs, t)" and p: "p < length rs" "rs ! p = Eff x r"
  shows "loop_inv (rs[p := r], perform x t)"
proof -
  have ok: "holds (Eff x r) False \<or> holds (Eff x r) True"
    using inv nth_mem [OF p(1)] unfolding loop_inv_def p(2) by blast
  have all: "\<forall>q\<in>set (rs[p := r]). holds q False \<or> holds q True"
    using inv ok set_update_subset_insert [of rs p r] by (fastforce simp: loop_inv_def split: effect.splits)
  have n: "length (filter in_flight (rs[p := r])) + (if in_flight (Eff x r) then 1 else 0) =
      length (filter in_flight rs) + (if in_flight r then 1 else 0)"
    using filter_update [OF p(1), of in_flight r] p(2) by simp
  show ?thesis
  proof (cases x)
    case Acquire
    then have "in_flight r" "\<not> in_flight (Eff x r)" using ok by (auto simp: in_flight_def)
    with inv all n Acquire show ?thesis by (simp add: loop_inv_def perform_def acquire_def)
  next
    case Release
    then have "\<not> in_flight r" "in_flight (Eff x r)"
      using ok holds_unique [of r False True] by (auto simp: in_flight_def)
    with inv all n Release show ?thesis by (auto simp: loop_inv_def perform_def release_def Let_def)
  next
    case (LogAccess a)
    with loop_inv_quiet [OF inv p(1), of r] p(2) show ?thesis by (simp add: perform_def)
  qed
qed

lemma loop_inv_step: "loop_step s s' \<Longrightarrow> loop_inv s \<Longrightarrow> loop_inv s'"
proof (induction rule: loop_step.induct)
  case (arrive app sc rs t)
  then have "holds (InFlightTrackerMiddleware app sc) False" by (simp add: middleware_holds)
  moreover from this have "\<not> in_flight (InFlightTrackerMiddleware app sc)"
    using holds_unique unfolding in_flight_def by blast
  ultimately show ?case using arrive.prems by (auto simp: loop_inv_def)
next
  case (act p rs x r t)
  then show ?case by (blast intro: loop_inv_act)
qed (erule loop_inv_quiet, assumption, simp)+

lemma loop_inv_reachable: "loop_step\<^sup>*\<^sup>* ([], InFlightTracker) s \<Longrightarrow> loop_inv s"
proof (induction rule: rtranclp_induct)
  case base
  show ?case by (simp add: loop_inv_def InFlightTracker_def)
next
  case (step s s')
  then show ?case by (blast intro: loop_inv_step)
qed

text \<open>
  C33. However requests arrive and interleave, the tracker counts exactly the requests between their acquire and their
  release, failures and cancellations included, and its idle event is set exactly when there is none. So
  when every request has ended the count is zero, and \<open>wait_idle\<close> answers at once only when no request is in
  flight.
\<close>

theorem in_flight_count_exact:
  assumes "loop_step\<^sup>*\<^sup>* ([], InFlightTracker) (rs, t)"
  shows "tr_count t = int (length (filter in_flight rs)) \<and> (tr_idle t \<longleftrightarrow> tr_count t = 0) \<and>
    ((\<forall>r\<in>set rs. (\<exists>st. r = Done st) \<or> (\<exists>e st. r = Fail e st)) \<longrightarrow> tr_count t = 0) \<and>
    (wait_idle [] t \<longleftrightarrow> (\<forall>r\<in>set rs. \<not> in_flight r))"
proof (intro conjI impI)
  have inv: "loop_inv (rs, t)" using loop_inv_reachable [OF assms] .
  show "tr_count t = int (length (filter in_flight rs))" and "tr_idle t \<longleftrightarrow> tr_count t = 0"
    using inv by (simp_all add: loop_inv_def)
  show "tr_count t = 0" if ended: "\<forall>r\<in>set rs. (\<exists>st. r = Done st) \<or> (\<exists>e st. r = Fail e st)"
  proof -
    have "filter in_flight rs = []" using ended by (auto simp: filter_empty_conv in_flight_def)
    with inv show ?thesis by (simp add: loop_inv_def)
  qed
  show "wait_idle [] t \<longleftrightarrow> (\<forall>r\<in>set rs. \<not> in_flight r)"
    using inv by (auto simp: loop_inv_def wait_idle_def filter_empty_conv)
qed

theorem in_flight_count_exact_witness:
  "\<exists>r t. loop_step\<^sup>*\<^sup>* ([], InFlightTracker) ([r], t) \<and> tr_count t = 1 \<and> in_flight r"
proof -
  let ?sc = "\<lparr>sc_type = ''http'', sc_method = None, sc_path = None, sc_headers = [], sc_client = None,
     sc_state = \<lparr>st_request_id = None, st_principal = None\<rparr>, sc_ctx = ''-''\<rparr>"
  let ?st = "\<lparr>st_request_id = None, st_principal = None\<rparr>"
  let ?r = "Eff Release (Done ?st)"
  have "loop_step ([], InFlightTracker) ([Eff Acquire ?r], InFlightTracker)"
    using loop_step.arrive [of "\<lambda>_. Done ?st" ?sc "[]" InFlightTracker] by (simp add: InFlightTrackerMiddleware_def)
  moreover have "loop_step ([Eff Acquire ?r], InFlightTracker) ([?r], acquire InFlightTracker)"
    using loop_step.act [of 0 "[Eff Acquire ?r]" Acquire ?r InFlightTracker] by (simp add: perform_def)
  ultimately have steps: "loop_step\<^sup>*\<^sup>* ([], InFlightTracker) ([?r], acquire InFlightTracker)" by simp
  have "tr_count (acquire InFlightTracker) = 1" "in_flight ?r"
    using in_flight_count_exact [OF steps] by (simp_all add: in_flight_def)
  with steps show ?thesis by blast
qed

section \<open>The whole stack\<close>

text \<open>A smallest configuration, for concrete instances: everything optional off, library middlewares transparent.\<close>

definition plain_world :: world where
  "plain_world = \<lparr>w_dumps = \<lambda>_. ''{}'', w_fresh = ''f00'', w_took = 0, w_deadline = None, w_setdefault = \<lambda>n v hs. hs @ [(n, v)],
     w_cors = \<lambda>a. a, w_trusted_host = \<lambda>a. a, w_gzip = \<lambda>a. a, w_tracked = True, w_has_limiter = False\<rparr>"

definition plain_settings :: http_settings where
  "plain_settings = \<lparr>MAX_REQUEST_BODY_BYTES = 10, SECURITY_HEADERS_ENABLED = False, SECURITY_HSTS_ENABLED = False,
     SECURITY_HSTS_MAX_AGE_SECONDS = 0, GZIP_ENABLED = False, REQUEST_TIMEOUT_ENABLED = False, REQUEST_TIMEOUT_SECONDS = 30,
     REQUEST_TIMEOUT_EXCLUDE_PATTERNS = [], TRUSTED_PROXY_COUNT = 0, IP_LIMIT_ENABLED = False, IP_LIMIT_EXCLUDE_PATHS = []\<rparr>"

definition plain_scope :: scope where
  "plain_scope = \<lparr>sc_type = ''http'', sc_method = None, sc_path = None, sc_headers = [], sc_client = None,
     sc_state = \<lparr>st_request_id = None, st_principal = None\<rparr>, sc_ctx = ''-''\<rparr>"

definition plain_env :: env where
  "plain_env = \<lparr>e_recv = \<lambda>_. Inr HttpDisconnect, e_send = \<lambda>_. None, e_wait = \<lambda>_. None,
     e_check = \<lambda>_ _. \<lparr>allowed = True, remaining = 0, rl_retry_after_seconds = None\<rparr>\<rparr>"

lemmas plain_defs = plain_world_def plain_settings_def plain_scope_def plain_env_def

lemma layer_Inr: "layer on mk r = Inr b \<longleftrightarrow> (\<exists>a. r = Inr a \<and> (if on then mk a = Inr b else b = a))"
  by (cases r) (auto simp: layer_def)

lemma set_response_header_once:
  "filter (\<lambda>(n, v). str_lower n = str_lower name) (set_response_header hs name rid) = [(name, rid)]"
  by (simp add: set_response_header_def split_def)

lemma tag_start_cases: "tag_start name rid m = ResponseStart s hs \<longleftrightarrow> (\<exists>hs0. m = ResponseStart s hs0 \<and> hs = set_response_header hs0 name rid)"
  by (auto simp: tag_start_def split: out_msg.splits)

lemma security_headers_kept:
  assumes "\<And>n v hs. n \<in> fst ` set (sd n v hs)" "\<And>n v hs. set hs \<subseteq> set (sd n v hs)"
  shows "fst ` set ds \<union> fst ` set hs \<subseteq> fst ` set (fold (\<lambda>(n, v). sd n v) ds hs)"
proof (induction ds arbitrary: hs)
  case (Cons d ds)
  obtain n v where d: "d = (n, v)" by fastforce
  let ?F = "fst ` set (fold (\<lambda>(n, v). sd n v) ds (sd n v hs))"
  have IH: "fst ` set ds \<subseteq> ?F" "fst ` set (sd n v hs) \<subseteq> ?F" using Cons.IH [of "sd n v hs"] by simp_all
  have "n \<in> ?F" using assms(1) IH(2) by (rule rev_subsetD)
  moreover have "fst ` set hs \<subseteq> ?F" using image_mono [OF assms(2)] IH(2) by (rule subset_trans)
  ultimately show ?case using IH(1) by (simp add: d)
qed simp

lemma security_names_not_id:
  assumes "n \<in> fst ` set (security_headers hsts age)"
  shows "str_lower n \<noteq> str_lower REQUEST_ID_HEADER"
proof -
  have "n \<in> {''x-content-type-options'', ''x-frame-options'', ''referrer-policy'', ''permissions-policy'', ''strict-transport-security''}"
    using assms by (auto simp: security_headers_def split: if_splits)
  then have "length n \<noteq> length REQUEST_ID_HEADER" by (auto simp: REQUEST_ID_HEADER_def)
  then show ?thesis by (metis length_map str_lower_def)
qed

lemma install_cases:
  assumes "install_core_middlewares w s app = Inr stack"
  obtains ip sec tmo pre base where
    "stack = RequestIdMiddleware (w_fresh w) REQUEST_ID_HEADER ip"
    "if IP_LIMIT_ENABLED s then IPRateLimitMiddleware (w_dumps w) (w_fresh w) (w_has_limiter w)
       (split_csv (IP_LIMIT_EXCLUDE_PATHS s)) (TRUSTED_PROXY_COUNT s) sec = Inr ip else ip = sec"
    "if SECURITY_HEADERS_ENABLED s then SecurityHeadersMiddleware (w_setdefault w) (SECURITY_HSTS_ENABLED s)
       (SECURITY_HSTS_MAX_AGE_SECONDS s) tmo = Inr sec else sec = tmo"
    "if REQUEST_TIMEOUT_ENABLED s then RequestTimeoutMiddleware (w_dumps w) (w_fresh w) (w_deadline w)
       (of_int (REQUEST_TIMEOUT_SECONDS s)) (request_timeout_exclude_patterns s) pre = Inr tmo else tmo = pre"
    "RequestBodyLimitMiddleware (w_dumps w) (w_fresh w) (MAX_REQUEST_BODY_BYTES s) (w_trusted_host w (w_cors w app)) = Inr base"
  using assms unfolding install_core_middlewares_def layer_Inr if_True sum.inject by blast

lemma stack_is_tagged:
  assumes "install_core_middlewares w s app = Inr stack" "sc_type sc = ''http''"
    and "incoming_request_id (w_fresh w) REQUEST_ID_HEADER sc = Inr rid"
  obtains a where "stack sc = map_sends (tag_start REQUEST_ID_HEADER rid)
      (a (sc\<lparr>sc_state := (sc_state sc)\<lparr>st_request_id := Some rid\<rparr>, sc_ctx := rid\<rparr>))"
    and "SECURITY_HEADERS_ENABLED s \<Longrightarrow> \<not> IP_LIMIT_ENABLED s \<Longrightarrow>
      \<exists>b. a = (\<lambda>sc. if sc_type sc \<noteq> ''http'' then b sc
           else map_sends (add_security_headers (w_setdefault w) (SECURITY_HSTS_ENABLED s) (SECURITY_HSTS_MAX_AGE_SECONDS s)) (b sc))"
proof -
  obtain a where a: "stack = RequestIdMiddleware (w_fresh w) REQUEST_ID_HEADER a"
    and sec: "SECURITY_HEADERS_ENABLED s \<Longrightarrow> \<not> IP_LIMIT_ENABLED s \<Longrightarrow>
       \<exists>b. SecurityHeadersMiddleware (w_setdefault w) (SECURITY_HSTS_ENABLED s) (SECURITY_HSTS_MAX_AGE_SECONDS s) b = Inr a"
    using assms(1) by (rule install_cases) (metis (full_types))
  have "stack sc = map_sends (tag_start REQUEST_ID_HEADER rid)
      (a (sc\<lparr>sc_state := (sc_state sc)\<lparr>st_request_id := Some rid\<rparr>, sc_ctx := rid\<rparr>))"
    using assms by (simp add: a RequestIdMiddleware_def)
  then show thesis
    by (rule that) (use sec in \<open>auto simp: SecurityHeadersMiddleware_def split: if_splits\<close>)
qed

text \<open>
  The installed stack, whatever the settings and whatever the application and the library middlewares do: every response
  that starts, the middlewares' own 413, 429 and 504 included, carries exactly one request-id header,
  with the client's non-empty id or else the generated one. The stack is only ever installed with a positive body limit and timeout.
  With the security headers on and no address limit, every response that starts also carries each of them.
\<close>

theorem every_response_tagged:
  assumes inst: "install_core_middlewares w s app = Inr stack"
    and http: "sc_type sc = ''http''"
    and rid: "incoming_request_id (w_fresh w) REQUEST_ID_HEADER sc = Inr rid"
    and start: "ResponseStart status hs \<in> set (sent (play E (stack sc) i j))"
  shows "filter (\<lambda>(n, v). str_lower n = str_lower REQUEST_ID_HEADER) hs = [(REQUEST_ID_HEADER, rid)] \<and>
    0 < MAX_REQUEST_BODY_BYTES s \<and> (REQUEST_TIMEOUT_ENABLED s \<longrightarrow> 0 < REQUEST_TIMEOUT_SECONDS s) \<and>
    (SECURITY_HEADERS_ENABLED s \<and> \<not> IP_LIMIT_ENABLED s \<and>
      (\<forall>n v hs. n \<in> fst ` set (w_setdefault w n v hs)) \<and> (\<forall>n v hs. set hs \<subseteq> set (w_setdefault w n v hs)) \<longrightarrow>
      fst ` set (security_headers (SECURITY_HSTS_ENABLED s) (SECURITY_HSTS_MAX_AGE_SECONDS s)) \<subseteq> fst ` set hs)"
proof -
  let ?sec = "add_security_headers (w_setdefault w) (SECURITY_HSTS_ENABLED s) (SECURITY_HSTS_MAX_AGE_SECONDS s)"
  let ?sc = "sc\<lparr>sc_state := (sc_state sc)\<lparr>st_request_id := Some rid\<rparr>, sc_ctx := rid\<rparr>"
  obtain a where a: "stack sc = map_sends (tag_start REQUEST_ID_HEADER rid) (a ?sc)"
    and sec: "SECURITY_HEADERS_ENABLED s \<Longrightarrow> \<not> IP_LIMIT_ENABLED s \<Longrightarrow>
      \<exists>b. a = (\<lambda>sc. if sc_type sc \<noteq> ''http'' then b sc else map_sends ?sec (b sc))"
    by (rule stack_is_tagged [OF inst http rid], rule that)
  obtain m where "tag_start REQUEST_ID_HEADER rid m = ResponseStart status hs" "m \<in> set (sent (play E (a ?sc) i j))"
    using start unfolding a by (rule sent_map_sendsE)
  then obtain hs0 where hs0: "ResponseStart status hs0 \<in> set (sent (play E (a ?sc) i j))"
    "hs = set_response_header hs0 REQUEST_ID_HEADER rid"
    unfolding tag_start_cases by blast
  have once: "filter (\<lambda>(n, v). str_lower n = str_lower REQUEST_ID_HEADER) hs = [(REQUEST_ID_HEADER, rid)]"
    by (simp add: hs0(2) set_response_header_once)
  have valid: "0 < MAX_REQUEST_BODY_BYTES s" "REQUEST_TIMEOUT_ENABLED s \<longrightarrow> 0 < REQUEST_TIMEOUT_SECONDS s"
    using inst by (rule install_cases,
        auto simp: RequestBodyLimitMiddleware_def RequestTimeoutMiddleware_def split: if_splits)+
  have secured: "fst ` set (security_headers (SECURITY_HSTS_ENABLED s) (SECURITY_HSTS_MAX_AGE_SECONDS s)) \<subseteq> fst ` set hs"
    if on: "SECURITY_HEADERS_ENABLED s" "\<not> IP_LIMIT_ENABLED s"
      and laws: "\<forall>n v hs. n \<in> fst ` set (w_setdefault w n v hs)" "\<forall>n v hs. set hs \<subseteq> set (w_setdefault w n v hs)"
  proof
    fix n assume n: "n \<in> fst ` set (security_headers (SECURITY_HSTS_ENABLED s) (SECURITY_HSTS_MAX_AGE_SECONDS s))"
    obtain b where "a ?sc = map_sends ?sec (b ?sc)" using sec [OF on] http by auto
    with hs0(1) have "ResponseStart status hs0 \<in> set (sent (play E (map_sends ?sec (b ?sc)) i j))" by simp
    then obtain m where "?sec m = ResponseStart status hs0" by (rule sent_map_sendsE)
    then obtain hs1 where "hs0 = fold (\<lambda>(n, v). w_setdefault w n v)
        (security_headers (SECURITY_HSTS_ENABLED s) (SECURITY_HSTS_MAX_AGE_SECONDS s)) hs1"
      by (cases m) (auto simp: add_security_headers_def)
    then have "n \<in> fst ` set hs0"
      using security_headers_kept [of "w_setdefault w"] laws n by blast
    then show "n \<in> fst ` set hs"
      using security_names_not_id [OF n] by (force simp: hs0(2) set_response_header_def)
  qed
  from once valid secured show ?thesis by simp
qed

theorem every_response_tagged_witness:
  "\<exists>w s stack sc E status hs.
     install_core_middlewares w s (\<lambda>sc. send_all [ResponseStart 200 [(''x-request-id'', ''inner'')]] (sc_state sc)) = Inr stack \<and>
     ResponseStart status hs \<in> set (sent (play E (stack sc) 0 0)) \<and>
     filter (\<lambda>(n, v). str_lower n = str_lower REQUEST_ID_HEADER) hs = [(REQUEST_ID_HEADER, ''req_f00'')]"
proof -
  let ?w = plain_world and ?s = plain_settings and ?sc = plain_scope and ?E = plain_env
  let ?app = "\<lambda>sc. send_all [ResponseStart 200 [(''x-request-id'', ''inner'')]] (sc_state sc)"
  obtain stack where inst: "install_core_middlewares ?w ?s ?app = Inr stack"
    by (simp add: install_core_middlewares_def layer_def RequestBodyLimitMiddleware_def plain_defs)
  have rid: "incoming_request_id (w_fresh ?w) REQUEST_ID_HEADER ?sc = Inr ''req_f00''"
    by (simp add: incoming_request_id_def new_request_id_def plain_defs)
  obtain hs where "ResponseStart 200 hs \<in> set (sent (play ?E (stack ?sc) 0 0))"
    using inst by (fastforce simp: install_core_middlewares_def layer_def RequestBodyLimitMiddleware_def RequestIdMiddleware_def plain_defs
        rid [unfolded plain_defs, simplified] InFlightTrackerMiddleware_def AccessLogMiddleware_def content_length_def tag_start_def)
  moreover from every_response_tagged [OF inst _ rid this]
  have "filter (\<lambda>(n, v). str_lower n = str_lower REQUEST_ID_HEADER) hs = [(REQUEST_ID_HEADER, ''req_f00'')]" by (simp add: plain_scope_def)
  ultimately show ?thesis using inst by blast
qed

section \<open>One response per request\<close>

text \<open>\<open>single_start r b\<close>: on no path does the run start a response after one has started (\<open>b\<close>: before the run).\<close>

primrec single_start :: "run \<Rightarrow> bool \<Rightarrow> bool" where
  "single_start (Done st) b = True"
| "single_start (Fail e st) b = True"
| "single_start (Recv k) b = (\<forall>x. single_start (k x) b)"
| "single_start (Snd m k) b = (\<not> (is_start m \<and> b) \<and> (\<forall>r. single_start (k r) (b \<or> is_start m)))"
| "single_start (Wait k) b = (\<forall>r. single_start (k r) b)"
| "single_start (Check ip k) b = (\<forall>r. single_start (k r) b)"
| "single_start (Eff x r) b = single_start r b"

lemma single_start_response: "single_start (send_all [ResponseStart s hs, ResponseBody b c] st) False"
  by (simp add: is_start_def split: option.split)

lemma single_start_errors:
  "single_start (send_too_large dumps fresh sc st) False"
  "single_start (send_timeout dumps fresh sc st) False"
  "single_start (send_rate_limited dumps fresh sc ra) False"
  unfolding send_too_large_def send_timeout_def send_rate_limited_def Let_def
  by (auto simp del: send_all.simps simp: single_start_response split: sum.split)

lemma single_start_limit_run:
  assumes "\<And>st. single_start (too_large st) False"
  shows "single_start a started \<Longrightarrow> single_start (limit_run mx too_large a started n) started"
  by (induction a arbitrary: started n) (auto simp: assms)

lemma single_start_timeout_run:
  assumes "\<And>st. single_start (on_timeout st) False"
  shows "single_start a started \<Longrightarrow> single_start (timeout_run on_timeout a d cancelled started) started"
  by (induction a arbitrary: d cancelled started) (auto simp: assms)

lemma single_start_map_sends:
  assumes "\<And>m. is_start (f m) = is_start m"
  shows "single_start a b \<Longrightarrow> single_start (map_sends f a) b"
  by (induction a arbitrary: b) (auto simp: assms)

lemma single_start_log_run: "single_start a b \<Longrightarrow> single_start (log_run lg a status) b"
  by (induction a arbitrary: b status) auto

lemma single_start_release_after: "single_start a b \<Longrightarrow> single_start (release_after a) b"
  by (induction a arbitrary: b) auto

lemma single_start_play:
  assumes "single_start r b"
  shows "length (start_statuses (sent (play E r i j))) \<le> (if b then 0 else 1)"
  using assms
proof (induction r arbitrary: b i j)
  case (Snd m k)
  have "length (start_statuses (sent (play E (k (e_send E j)) i (Suc j)))) \<le> (if b \<or> is_start m then 0 else 1)"
    using Snd.IH [OF rangeI] Snd.prems by auto
  then show ?case using Snd.prems by (cases m) (auto simp: is_start_def)
qed auto

definition orderly :: "app \<Rightarrow> bool" where
  "orderly app \<longleftrightarrow> (\<forall>sc. single_start (app sc) False)"

lemma starts_kept [simp]:
  "is_start (tag_start name rid m) = is_start m" "is_start (add_security_headers sd hsts age m) = is_start m"
  by (simp_all add: is_start_def tag_start_def add_security_headers_def split: out_msg.split)

lemma orderly_layers:
  assumes "orderly a"
  shows "orderly (RequestIdMiddleware fresh name a)" "orderly (AccessLogMiddleware took a)"
    "orderly (InFlightTrackerMiddleware a)"
    "RequestBodyLimitMiddleware dumps fresh mx a = Inr b \<Longrightarrow> orderly b"
    "SecurityHeadersMiddleware sd hsts age a = Inr b \<Longrightarrow> orderly b"
    "RequestTimeoutMiddleware dumps fresh d secs ex a = Inr b \<Longrightarrow> orderly b"
    "IPRateLimitMiddleware dumps fresh lmt ex n a = Inr b \<Longrightarrow> orderly b"
  using assms unfolding orderly_def
  by (auto simp: RequestIdMiddleware_def AccessLogMiddleware_def InFlightTrackerMiddleware_def RequestBodyLimitMiddleware_def
      SecurityHeadersMiddleware_def RequestTimeoutMiddleware_def IPRateLimitMiddleware_def single_start_errors
      intro!: single_start_map_sends single_start_log_run single_start_release_after single_start_limit_run single_start_timeout_run
      split: if_splits sum.split)

lemma orderly_layer:
  "layer on mk r = Inr b \<Longrightarrow> (\<And>a. r = Inr a \<Longrightarrow> orderly a) \<Longrightarrow> (\<And>a. orderly a \<Longrightarrow> mk a = Inr b \<Longrightarrow> orderly b) \<Longrightarrow> orderly b"
  unfolding layer_Inr by (auto split: if_splits)

text \<open>
  One response per request: when the application, and the library middlewares around it, start at most one
  response, so does the whole stack on every path, although three of its layers may answer in the application's
  place, after an exception, a cancellation or a timeout at any await. A timeout before the response starts is
  answered 504; after it, the \<open>TimeoutError\<close> is left to the server.
\<close>

theorem stack_starts_one_response:
  assumes inst: "install_core_middlewares w s app = Inr stack" and app: "orderly app"
    and libs: "\<forall>a. orderly a \<longrightarrow> orderly (w_cors w a) \<and> orderly (w_trusted_host w a) \<and> orderly (w_gzip w a)"
  shows "length (start_statuses (sent (play E (stack sc) i j))) \<le> 1 \<and>
    ((\<forall>n. e_send E n = None) \<and> st_request_id st = Some rid \<and> rid \<noteq> '''' \<longrightarrow>
      start_statuses (sent (play E (timeout_run (send_timeout dumps fresh sc) (Fail CancelledError st) None True started) i j)) =
      (if started then [] else [504]))"
proof -
  have "orderly stack"
    using inst unfolding install_core_middlewares_def
    by (elim orderly_layer) (auto intro: orderly_layers simp: app libs)
  then have "length (start_statuses (sent (play E (stack sc) i j))) \<le> 1"
    using single_start_play [of "stack sc" False E i j] by (simp add: orderly_def)
  moreover have "start_statuses (sent (play E (timeout_run (send_timeout dumps fresh sc) (Fail CancelledError st) None True started) i j)) =
      (if started then [] else [504])"
    if "\<forall>n. e_send E n = None" "st_request_id st = Some rid" "rid \<noteq> ''''"
    using that by (simp add: send_timeout_def request_id_known Let_def play_send_all)
  ultimately show ?thesis by blast
qed

theorem stack_starts_one_response_witness:
  "\<exists>stack. install_core_middlewares plain_world plain_settings
        (\<lambda>sc. send_all [ResponseStart 200 [], ResponseBody ''ok'' False] (sc_state sc)) = Inr stack \<and>
     length (start_statuses (sent (play plain_env (stack plain_scope) 0 0))) \<le> 1 \<and>
     start_statuses (sent (play plain_env (timeout_run (send_timeout (\<lambda>_. ''{}'') ''f00'' plain_scope)
       (Fail CancelledError \<lparr>st_request_id = Some ''r1'', st_principal = None\<rparr>) None True False) 0 0)) = [504]"
proof -
  let ?app = "\<lambda>sc. send_all [ResponseStart 200 [], ResponseBody ''ok'' False] (sc_state sc)"
  obtain stack where inst: "install_core_middlewares plain_world plain_settings ?app = Inr stack"
    by (simp add: install_core_middlewares_def layer_def RequestBodyLimitMiddleware_def plain_defs)
  have app: "orderly ?app" unfolding orderly_def by (rule allI, rule single_start_response)
  have libs: "\<forall>a. orderly a \<longrightarrow> orderly (w_cors plain_world a) \<and> orderly (w_trusted_host plain_world a) \<and> orderly (w_gzip plain_world a)"
    by (simp add: plain_world_def)
  have "start_statuses (sent (play plain_env (timeout_run (send_timeout (\<lambda>_. ''{}'') ''f00'' plain_scope)
       (Fail CancelledError \<lparr>st_request_id = Some ''r1'', st_principal = None\<rparr>) None True False) 0 0)) = [504]"
    using stack_starts_one_response [OF inst app libs, where E = plain_env and st = "\<lparr>st_request_id = Some ''r1'', st_principal = None\<rparr>"
        and rid = "''r1''" and dumps = "\<lambda>_. ''{}''" and fresh = "''f00''" and sc = plain_scope and started = False and i = 0 and j = 0]
    by (simp add: plain_env_def del: timeout_run.simps)
  with conjunct1 [OF stack_starts_one_response [OF inst app libs]] inst show ?thesis by blast
qed

end
