(* ===== verification/Py_Regex.thy ===== *)
theory Py_Regex
  imports Py_Strings "HOL-Library.Sublist"
begin

text \<open>
  The part of Python's \<open>re\<close> that the redaction patterns use, on ASCII text: character classes, sequence, alternation,
  greedy repetition, word boundaries and one-character look-around, with the backtracking order of the engine, and
  \<open>sub\<close>. A position is the reversed text before it and the text after it; \<open>re_match\<close> lists the ends of the
  matches at a position, the one the engine takes first.
\<close>

section \<open>Patterns\<close>

datatype regex =
    Cls "char \<Rightarrow> bool"
  | Seq regex regex
  | Alt regex regex
  | Rep nat "nat option" regex
  | Boundary
  | NotBehind "char \<Rightarrow> bool"
  | NotAhead "char \<Rightarrow> bool"

definition word_char :: "char \<Rightarrow> bool" where
  "word_char c \<longleftrightarrow> (let n = of_char c :: nat in 48 \<le> n \<and> n \<le> 57 \<or> 65 \<le> n \<and> n \<le> 90 \<or> 97 \<le> n \<and> n \<le> 122 \<or> n = 95)"

type_synonym pos = "string \<times> string"

fun iter_match :: "(pos \<Rightarrow> pos list) \<Rightarrow> nat \<Rightarrow> nat \<Rightarrow> pos \<Rightarrow> pos list" where
  "iter_match f lo 0 p = (if lo = 0 then [p] else [])"
| "iter_match f lo (Suc n) p = concat (map (iter_match f (lo - 1) n) (f p)) @ (if lo = 0 then [p] else [])"

definition next_is :: "(char \<Rightarrow> bool) \<Rightarrow> string \<Rightarrow> bool" where
  "next_is P s = (case s of [] \<Rightarrow> False | c # _ \<Rightarrow> P c)"

primrec re_match :: "regex \<Rightarrow> pos \<Rightarrow> pos list" where
  "re_match (Cls P) = (\<lambda>(b, a). case a of [] \<Rightarrow> [] | c # a' \<Rightarrow> if P c then [(c # b, a')] else [])"
| "re_match (Seq r s) = (\<lambda>p. concat (map (re_match s) (re_match r p)))"
| "re_match (Alt r s) = (\<lambda>p. re_match r p @ re_match s p)"
| "re_match (Rep lo hi r) = (\<lambda>p. iter_match (re_match r) lo (case hi of None \<Rightarrow> lo + length (snd p) | Some h \<Rightarrow> h) p)"
| "re_match Boundary = (\<lambda>(b, a). if next_is word_char b \<noteq> next_is word_char a then [(b, a)] else [])"
| "re_match (NotBehind P) = (\<lambda>(b, a). if next_is P b then [] else [(b, a)])"
| "re_match (NotAhead P) = (\<lambda>(b, a). if next_is P a then [] else [(b, a)])"

text \<open>\<open>pattern.sub(f, text)\<close> for patterns that match no empty text: the leftmost match at each position not yet consumed.\<close>

function re_sub :: "regex \<Rightarrow> (string \<Rightarrow> string) \<Rightarrow> string \<Rightarrow> string \<Rightarrow> string" where
  "re_sub r f b [] = []"
| "re_sub r f b (c # s) = (case re_match r (b, c # s) of
      [] \<Rightarrow> c # re_sub r f (c # b) s
    | (b', a) # _ \<Rightarrow>
        if length a \<le> length s then f (take (Suc (length s) - length a) (c # s)) @ re_sub r f b' a
        else c # re_sub r f (c # b) s)"
  by pat_completeness auto
termination by (relation "measure (\<lambda>(r, f, b, s). length s)") auto

section \<open>Languages\<close>

text \<open>Patterns without look-around, and the words they match.\<close>

primrec plain :: "regex \<Rightarrow> bool" where
  "plain (Cls P) = True"
| "plain (Seq r s) = (plain r \<and> plain s)"
| "plain (Alt r s) = (plain r \<and> plain s)"
| "plain (Rep lo hi r) = plain r"
| "plain Boundary = False"
| "plain (NotBehind P) = False"
| "plain (NotAhead P) = False"

fun powers :: "string set \<Rightarrow> nat \<Rightarrow> string set" where
  "powers L 0 = {[]}"
| "powers L (Suc n) = {u @ v | u v. u \<in> L \<and> v \<in> powers L n}"

primrec lang :: "regex \<Rightarrow> string set" where
  "lang (Cls P) = {[c] | c. P c}"
| "lang (Seq r s) = {u @ v | u v. u \<in> lang r \<and> v \<in> lang s}"
| "lang (Alt r s) = lang r \<union> lang s"
| "lang (Rep lo hi r) = (\<Union>n \<in> {n. lo \<le> n \<and> (case hi of None \<Rightarrow> True | Some h \<Rightarrow> n \<le> h)}. powers (lang r) n)"
| "lang Boundary = {}"
| "lang (NotBehind P) = {}"
| "lang (NotAhead P) = {}"

text \<open>Every repetition body consumes something, so that the length of the text bounds the repetitions.\<close>

primrec eats :: "regex \<Rightarrow> bool" where
  "eats (Cls P) = True"
| "eats (Seq r s) = (eats r \<and> eats s)"
| "eats (Alt r s) = (eats r \<and> eats s)"
| "eats (Rep lo hi r) = (eats r \<and> [] \<notin> lang r)"
| "eats Boundary = True"
| "eats (NotBehind P) = True"
| "eats (NotAhead P) = True"

text \<open>A plain pattern finds every word of its language at the front of the text, whatever follows.\<close>

lemma iter_match_complete:
  assumes step: "\<And>b a w rest. w \<in> L \<Longrightarrow> a = w @ rest \<Longrightarrow> (rev w @ b, rest) \<in> set (f (b, a))"
  shows "w \<in> powers L n \<Longrightarrow> lo \<le> n \<Longrightarrow> n \<le> hi \<Longrightarrow> (rev w @ b, rest) \<in> set (iter_match f lo hi (b, w @ rest))"
proof (induction n arbitrary: w lo hi b)
  case 0
  then show ?case by (cases hi) simp_all
next
  case (Suc n)
  then obtain h where hi: "hi = Suc h" "n \<le> h" by (cases hi) auto
  from Suc.prems(1) obtain u v where w: "w = u @ v" "u \<in> L" "v \<in> powers L n" by auto
  have "(rev u @ b, v @ rest) \<in> set (f (b, w @ rest))" using step [OF w(2)] w(1) by simp
  moreover have "(rev v @ rev u @ b, rest) \<in> set (iter_match f (lo - 1) h (rev u @ b, v @ rest))"
    using Suc.IH [OF w(3)] Suc.prems(2) hi(2) by simp
  ultimately show ?case using w(1) hi(1) by (auto intro: bexI)
qed

lemma powers_length: "[] \<notin> L \<Longrightarrow> w \<in> powers L n \<Longrightarrow> n \<le> length w"
proof (induction n arbitrary: w)
  case (Suc n)
  then obtain u v where "w = u @ v" "u \<in> L" "v \<in> powers L n" by auto
  moreover have "u \<noteq> []" using \<open>u \<in> L\<close> Suc.prems(1) by auto
  ultimately show ?case using Suc.IH [OF Suc.prems(1), of v] by (cases u) auto
qed simp

lemma re_match_complete:
  "plain r \<Longrightarrow> eats r \<Longrightarrow> w \<in> lang r \<Longrightarrow> (rev w @ b, rest) \<in> set (re_match r (b, w @ rest))"
proof (induction r arbitrary: w b rest)
  case (Seq r s)
  then obtain u v where w: "w = u @ v" "u \<in> lang r" "v \<in> lang s" by auto
  have "(rev u @ b, v @ rest) \<in> set (re_match r (b, w @ rest))" using Seq.IH(1) Seq.prems w by simp
  moreover have "(rev v @ rev u @ b, rest) \<in> set (re_match s (rev u @ b, v @ rest))" using Seq.IH(2) Seq.prems w by simp
  ultimately show ?case using w(1) by (auto intro: bexI)
next
  case (Rep lo hi r)
  then obtain n where n: "lo \<le> n" "case hi of None \<Rightarrow> True | Some h \<Rightarrow> n \<le> h" "w \<in> powers (lang r) n" by auto
  have "n \<le> length w" using powers_length [OF _ n(3)] Rep.prems(2) by simp
  then have "n \<le> (case hi of None \<Rightarrow> lo + length (w @ rest) | Some h \<Rightarrow> h)" using n(2) by (cases hi) simp_all
  then show ?case
    using iter_match_complete [OF _ n(3,1), of "re_match r"] Rep.IH Rep.prems by (cases hi) simp_all
qed auto

text \<open>Every match is a piece of the text.\<close>

lemma iter_match_sound:
  assumes "\<And>b a b' a'. (b', a') \<in> set (f (b, a)) \<Longrightarrow> \<exists>w. a = w @ a' \<and> b' = rev w @ b"
  shows "(b', a') \<in> set (iter_match f lo n (b, a)) \<Longrightarrow> \<exists>w. a = w @ a' \<and> b' = rev w @ b"
proof (induction n arbitrary: lo b a)
  case (Suc n)
  from Suc.prems consider "(b', a') = (b, a)"
    | b1 a1 where "(b1, a1) \<in> set (f (b, a))" "(b', a') \<in> set (iter_match f (lo - 1) n (b1, a1))"
    by (auto split: if_splits)
  then show ?case
  proof cases
    case 2
    from assms [OF 2(1)] Suc.IH [OF 2(2)] obtain u v where "a = u @ a1" "b1 = rev u @ b" "a1 = v @ a'" "b' = rev v @ b1" by blast
    then show ?thesis by (intro exI [of _ "u @ v"]) simp
  qed simp
qed (simp split: if_splits)

lemma re_match_sound: "(b', a') \<in> set (re_match r (b, a)) \<Longrightarrow> \<exists>w. a = w @ a' \<and> b' = rev w @ b"
proof (induction r arbitrary: b a b' a')
  case (Seq r s)
  then obtain b1 a1 where m: "(b1, a1) \<in> set (re_match r (b, a))" "(b', a') \<in> set (re_match s (b1, a1))" by auto
  from Seq.IH(1) [OF m(1)] Seq.IH(2) [OF m(2)] obtain u v where "a = u @ a1" "b1 = rev u @ b" "a1 = v @ a'" "b' = rev v @ b1" by blast
  then show ?case by (intro exI [of _ "u @ v"]) simp
next
  case (Rep lo hi r)
  show ?case by (rule iter_match_sound [OF Rep.IH]) (use Rep.prems in auto)
next
  case (Alt r s)
  then show ?case by auto
qed (auto split: list.splits if_splits)

section \<open>Substitution keeps a language away\<close>

definition factor_free :: "string set \<Rightarrow> string \<Rightarrow> bool" where
  "factor_free L s \<longleftrightarrow> (\<forall>pre w post. s = pre @ w @ post \<longrightarrow> w \<notin> L)"

text \<open>\<open>bracketed C t\<close>: a replacement that no run of characters of \<open>C\<close> can enter or leave.\<close>

definition bracketed :: "(char \<Rightarrow> bool) \<Rightarrow> string \<Rightarrow> bool" where
  "bracketed C t \<longleftrightarrow> t \<noteq> [] \<and> \<not> C (hd t) \<and> \<not> C (last t)"

lemma re_sub_cases:
  obtains (keep) "re_sub r f b (c # s) = c # re_sub r f (c # b) s"
      "re_match r (b, c # s) = [] \<or> (\<exists>b' ms. re_match r (b, c # s) = (b', c # s) # ms)"
  | (found) w a b' where "c # s = w @ a" "w \<noteq> []" "re_sub r f b (c # s) = f w @ re_sub r f b' a" "length a \<le> length s"
proof (cases "re_match r (b, c # s)")
  case Nil
  then show ?thesis by (intro keep) simp_all
next
  case (Cons p ms)
  obtain b' a where p: "p = (b', a)" by fastforce
  then have "(b', a) \<in> set (re_match r (b, c # s))" using Cons by simp
  from re_match_sound [OF this] obtain w where w: "c # s = w @ a" by blast
  from arg_cong [OF w, of length] have len: "Suc (length s) = length w + length a" by simp
  show ?thesis
  proof (cases "length a \<le> length s")
    case True
    from len w have "take (Suc (length s) - length a) (c # s) = w" by simp
    with True Cons p have "re_sub r f b (c # s) = f w @ re_sub r f b' a" by simp
    moreover have "w \<noteq> []" using True len by auto
    ultimately show ?thesis using found w True by blast
  next
    case False
    with len have "length w = 0" by linarith
    with w have "a = c # s" by simp
    with Cons p show ?thesis by (intro keep) simp_all
  qed
qed

lemma append_eq_cases:
  assumes "x @ y = u @ v"
  obtains z where "x = u @ z" "v = z @ y" | z where "u = x @ z" "y = z @ v"
  using assms by (metis append_eq_append_conv2)

lemma re_sub_prefix:
  assumes tok: "\<And>w. w \<noteq> [] \<Longrightarrow> f w = w \<or> bracketed C (f w)"
  shows "re_sub r f b s = u @ v \<Longrightarrow> list_all C u \<Longrightarrow> \<exists>v'. s = u @ v'"
proof (induction s arbitrary: b u v rule: length_induct)
  case (1 s)
  show ?case
  proof (cases s)
    case (Cons c t)
    show ?thesis
    proof (cases rule: re_sub_cases [of r f b c t])
      case keep
      show ?thesis
      proof (cases u)
        case u: (Cons d u')
        then have "d = c" and t: "re_sub r f (c # b) t = u' @ v" using "1.prems"(1) keep Cons by simp_all
        moreover from "1.IH" [rule_format, OF _ t] obtain v' where "t = u' @ v'" using "1.prems"(2) u Cons by auto
        ultimately show ?thesis using u Cons by simp
      qed simp
    next
      case (found w a b')
      then have eq: "f w @ re_sub r f b' a = u @ v" using "1.prems"(1) Cons by simp
      show ?thesis
      proof (cases "f w = w")
        case True
        from eq True show ?thesis
        proof (cases rule: append_eq_cases)
          case (1 z)
          with found(1) Cons True have "s = u @ z @ a" by simp
          then show ?thesis by blast
        next
          case (2 z)
          from "1.IH" [rule_format, OF _ 2(2)] obtain v' where "a = z @ v'" using "1.prems"(2) 2(1) found Cons by auto
          with 2(1) found(1) Cons True show ?thesis by simp
        qed
      next
        case False
        with tok [OF found(2)] have "bracketed C (f w)" by simp
        with eq "1.prems"(2) have "u = []" by (cases u; cases "f w") (auto simp: bracketed_def)
        then show ?thesis by simp
      qed
    qed
  qed (use "1.prems" in simp)
qed

lemma factor_split:
  assumes "x @ y = pre @ w @ post"
  obtains (left) z where "x = pre @ w @ z" "post = z @ y"
  | (right) z where "y = z @ w @ post" "pre = x @ z"
  | (across) u v where "w = u @ v" "u \<noteq> []" "x = pre @ u" "y = v @ post"
proof -
  from assms show ?thesis
  proof (cases rule: append_eq_cases)
    case (1 z)
    from 1(2) [symmetric] show ?thesis
    proof (cases rule: append_eq_cases)
      case (1 z')
      with \<open>x = pre @ z\<close> show ?thesis by (intro left) simp_all
    next
      case (2 z')
      with \<open>x = pre @ z\<close> show ?thesis by (cases "z = []") (auto intro: right across)
    qed
  next
    case (2 z)
    then show ?thesis by (intro right) simp_all
  qed
qed

text \<open>A word of characters of \<open>C\<close> does not reach across the edge of a bracketed text.\<close>

lemma bracketed_factor:
  assumes "bracketed C t" "t @ y = pre @ w @ post" "list_all C w"
  obtains (inside) z where "t = pre @ w @ z" | (after) z where "y = z @ w @ post" "pre = t @ z"
  using assms(2)
proof (cases rule: factor_split)
  case (left z)
  then show thesis by (intro inside)
next
  case (right z)
  then show thesis by (intro after)
next
  case (across u v)
  have "last t = last u" using across by simp
  moreover have "C (last u)" using assms(3) across by (simp add: list_all_iff)
  ultimately have False using assms(1) by (simp add: bracketed_def)
  then show thesis ..
qed

definition neutral :: "(char \<Rightarrow> bool) \<Rightarrow> string set \<Rightarrow> string \<Rightarrow> bool" where
  "neutral C L t \<longleftrightarrow> bracketed C t \<and> factor_free L t"

lemma factor_freeD: "factor_free L s \<Longrightarrow> s = pre @ w @ post \<Longrightarrow> w \<in> L \<Longrightarrow> False"
  unfolding factor_free_def by blast

lemma factor_free_suffix: "factor_free L (x @ a) \<Longrightarrow> factor_free L a"
  unfolding factor_free_def by (metis append.assoc)

lemma factor_free_token:
  assumes t: "neutral C L t" and y: "factor_free L y" and words: "\<And>w. w \<in> L \<Longrightarrow> list_all C w"
  shows "factor_free L (t @ y)"
  unfolding factor_free_def
proof (intro allI impI notI)
  fix pre w post assume eq: "t @ y = pre @ w @ post" and w: "w \<in> L"
  from t have "bracketed C t" by (simp add: neutral_def)
  from this eq words [OF w] show False
  proof (cases rule: bracketed_factor)
    case (inside z)
    with t w show False by (auto simp: neutral_def intro: factor_freeD)
  next
    case (after z)
    with y w show False by (blast intro: factor_freeD)
  qed
qed

text \<open>Text copied in front of a substitution makes no new word, if the original text had none.\<close>

lemma factor_free_copy:
  assumes tok: "\<And>w. w \<noteq> [] \<Longrightarrow> f w = w \<or> neutral C L (f w)" and words: "\<And>w. w \<in> L \<Longrightarrow> list_all C w"
    and rest: "factor_free L (re_sub r f b a)"
    and x: "\<And>pre w v. x @ a = pre @ w @ v \<Longrightarrow> w \<in> L \<Longrightarrow> length pre < length x \<Longrightarrow> False"
  shows "factor_free L (x @ re_sub r f b a)"
  unfolding factor_free_def
proof (intro allI impI notI)
  have br: "\<And>w. w \<noteq> [] \<Longrightarrow> f w = w \<or> bracketed C (f w)" using tok by (auto simp: neutral_def)
  fix pre w post assume eq: "x @ re_sub r f b a = pre @ w @ post" and w: "w \<in> L"
  from eq show False
  proof (cases rule: factor_split)
    case (left z)
    show False
    proof (cases "w = []")
      case True
      then show False using rest w by (auto intro: factor_freeD [of L _ "[]" "[]"])
    next
      case False
      then show False using x [of pre w "z @ a"] w left by simp
    qed
  next
    case (right z)
    with rest w show False by (blast intro: factor_freeD)
  next
    case (across u v)
    from re_sub_prefix [OF br across(4)] words [OF w] across(1) obtain v' where "a = v @ v'" by auto
    then show False using x [of pre w v'] w across by simp
  qed
qed

text \<open>Replacing other matches by such texts, or by themselves, makes no new word.\<close>

lemma re_sub_factor:
  assumes tok: "\<And>w. w \<noteq> [] \<Longrightarrow> f w = w \<or> neutral C L (f w)" and words: "\<And>w. w \<in> L \<Longrightarrow> list_all C w"
  shows "factor_free L s \<Longrightarrow> factor_free L (re_sub r f b s)"
proof (induction s arbitrary: b rule: length_induct)
  case (1 s)
  have copy: "factor_free L (x @ re_sub r f b' a)" if "s = x @ a" "x \<noteq> []" for x a b'
  proof (rule factor_free_copy [OF tok words])
    show "factor_free L (re_sub r f b' a)" using "1.IH" "1.prems" that by (auto dest: factor_free_suffix)
  qed (use "1.prems" that in \<open>auto intro: factor_freeD\<close>)
  show ?case
  proof (cases s)
    case (Cons c t)
    show ?thesis
    proof (cases rule: re_sub_cases [of r f b c t])
      case keep
      then show ?thesis using copy [of "[c]" t "c # b"] Cons by simp
    next
      case (found w a b')
      have "factor_free L (re_sub r f b' a)" using "1.IH" "1.prems" found Cons by (auto dest: factor_free_suffix)
      with tok [OF found(2)] copy [of w a b'] factor_free_token [OF _ _ words] found Cons show ?thesis by fastforce
    qed
  qed (use "1.prems" in simp)
qed

text \<open>A plain pattern finds words of its language only, and replacing its matches leaves none.\<close>

lemma iter_match_words:
  assumes "\<And>b a b' a'. (b', a') \<in> set (f (b, a)) \<Longrightarrow> \<exists>w\<in>L. a = w @ a'"
  shows "(b', a') \<in> set (iter_match f lo n (b, a)) \<Longrightarrow> \<exists>m w. lo \<le> m \<and> m \<le> n \<and> w \<in> powers L m \<and> a = w @ a'"
proof (induction n arbitrary: lo b a)
  case (Suc n)
  from Suc.prems consider "lo = 0" "a' = a"
    | b1 a1 where "(b1, a1) \<in> set (f (b, a))" "(b', a') \<in> set (iter_match f (lo - 1) n (b1, a1))"
    by (auto split: if_splits)
  then show ?case
  proof cases
    case 1
    then show ?thesis by (intro exI [of _ 0]) simp
  next
    case 2
    from assms [OF 2(1)] Suc.IH [OF 2(2)] obtain u v m where
      m: "u \<in> L" "a = u @ a1" "lo - 1 \<le> m" "m \<le> n" "v \<in> powers L m" "a1 = v @ a'" by blast
    then have "u @ v \<in> powers L (Suc m)" by auto
    with m show ?thesis by (intro exI [of _ "Suc m"] exI [of _ "u @ v"]) auto
  qed
qed (simp split: if_splits)

lemma re_match_words: "plain r \<Longrightarrow> (b', a') \<in> set (re_match r (b, a)) \<Longrightarrow> \<exists>w\<in>lang r. a = w @ a'"
proof (induction r arbitrary: b a b' a')
  case (Cls P)
  then show ?case by (auto split: list.splits if_splits)
next
  case (Seq r s)
  then obtain b1 a1 where m: "(b1, a1) \<in> set (re_match r (b, a))" "(b', a') \<in> set (re_match s (b1, a1))" by auto
  with Seq.IH(1) [OF _ m(1)] Seq.IH(2) [OF _ m(2)] Seq.prems(1) obtain u v where
    "u \<in> lang r" "v \<in> lang s" "a = u @ a1" "a1 = v @ a'" by auto
  then show ?case by (intro bexI [of _ "u @ v"]) auto
next
  case (Alt r s)
  then show ?case by fastforce
next
  case (Rep lo hi r)
  have "\<exists>m w. lo \<le> m \<and> m \<le> (case hi of None \<Rightarrow> lo + length a | Some h \<Rightarrow> h) \<and> w \<in> powers (lang r) m \<and> a = w @ a'"
    using iter_match_words [of "re_match r" "lang r"] Rep by (cases hi) simp_all
  then show ?case by (cases hi) auto
qed auto

lemma re_sub_removes:
  assumes r: "plain r" "eats r" "[] \<notin> lang r" and words: "\<And>w. w \<in> lang r \<Longrightarrow> list_all C w"
    and tok: "\<And>w. neutral C (lang r) (f w)"
  shows "factor_free (lang r) (re_sub r f b s)"
proof (induction s arbitrary: b rule: length_induct)
  case (1 s)
  show ?case
  proof (cases s)
    case Nil
    then show ?thesis using r(3) by (simp add: factor_free_def)
  next
    case (Cons c t)
    show ?thesis
    proof (cases rule: re_sub_cases [of r f b c t])
      case (found w a b')
      then have "factor_free (lang r) (re_sub r f b' a)" using "1.IH" Cons by simp
      then show ?thesis using factor_free_token [OF tok _ words] found Cons by simp
    next
      case keep
      have none: "re_match r (b, c # t) = []"
        using keep(2) re_match_words [OF r(1)] r(3) by (metis append_self_conv2 list.set_intros(1))
      have "factor_free (lang r) ([c] @ re_sub r f (c # b) t)"
      proof (rule factor_free_copy [OF _ words])
        show "factor_free (lang r) (re_sub r f (c # b) t)" using "1.IH" Cons by simp
        fix pre w v assume "[c] @ t = pre @ w @ v" "w \<in> lang r" "length pre < length [c]"
        then show False using re_match_complete [OF r(1,2), of w b v] none by simp
      qed (use tok in blast)
      then show ?thesis using keep Cons by simp
    qed
  qed
qed

end
