(* ===== verification/Redaction.thy ===== *)
theory Redaction
  imports Py_Regex Errors
begin

text \<open>
  Redaction of traced content (\<open>src/app/core/redaction.py\<close>): the patterns, the Luhn check, and the policy on
  texts and on nested payloads.
\<close>

section \<open>Patterns\<close>

definition re_chr :: "char \<Rightarrow> regex" where "re_chr c = Cls (\<lambda>x. x = c)"

definition plus :: "regex \<Rightarrow> regex" where "plus r = Rep 1 None r"

definition opt :: "regex \<Rightarrow> regex" where "opt r = Rep 0 (Some 1) r"

fun re_str :: "string \<Rightarrow> regex" where
  "re_str [] = Rep 0 (Some 0) (Cls (\<lambda>_. False))"
| "re_str [c] = re_chr c"
| "re_str (c # d # s) = Seq (re_chr c) (re_str (d # s))"

definition is_letter :: "char \<Rightarrow> bool" where
  "is_letter c \<longleftrightarrow> (let n = of_char c :: nat in 65 \<le> n \<and> n \<le> 90 \<or> 97 \<le> n \<and> n \<le> 122)"

definition is_upper :: "char \<Rightarrow> bool" where
  "is_upper c \<longleftrightarrow> (let n = of_char c :: nat in 65 \<le> n \<and> n \<le> 90)"

definition EMAIL :: regex where
  "EMAIL = Seq (plus (Cls (\<lambda>c. word_char c \<or> c \<in> {CHR ''.'', CHR ''+'', CHR ''-''})))
     (Seq (re_chr (CHR ''@'')) (Seq (plus (Cls (\<lambda>c. word_char c \<or> c \<in> {CHR ''.'', CHR ''-''})))
       (Seq (re_chr (CHR ''.'')) (Rep 2 None (Cls is_letter)))))"

definition SECRET_PATTERNS :: "regex list" where
  "SECRET_PATTERNS =
     [Seq Boundary (Seq (re_str ''sk-'')
        (Seq (plus (Cls (\<lambda>c. is_letter c \<or> is_digit c \<or> c \<in> {CHR ''_'', CHR ''-''}))) Boundary)),
      Seq Boundary (Seq (re_str ''Bearer'') (Seq (plus (Cls is_space)) (Seq (plus (Cls (\<lambda>c. \<not> is_space c))) Boundary))),
      Seq Boundary (Seq (re_str ''AKIA'') (Seq (Rep 16 (Some 16) (Cls (\<lambda>c. is_digit c \<or> is_upper c))) Boundary))]"

definition CARD_CANDIDATE :: regex where
  "CARD_CANDIDATE = Seq (NotBehind is_digit) (Seq (Cls is_digit)
     (Seq (Rep 12 (Some 18) (Seq (opt (Cls (\<lambda>c. c \<in> {CHR '' '', CHR ''-''}))) (Cls is_digit))) (NotAhead is_digit)))"

definition phone_digit :: regex where
  "phone_digit = Seq (opt (Cls (\<lambda>c. c \<in> {CHR '' '', CHR ''.'', CHR ''-''}))) (Cls is_digit)"

definition PHONE :: regex where
  "PHONE = Alt
     (Seq (NotBehind (\<lambda>c. word_char c \<or> c = CHR ''+''))
        (Seq (Alt (re_str ''+84'') (re_str ''0'')) (Seq (Rep 9 (Some 9) phone_digit) (NotAhead is_digit))))
     (Seq (NotBehind (\<lambda>c. word_char c \<or> c = CHR ''+''))
        (Seq (re_chr (CHR ''+'')) (Seq (Rep 1 (Some 3) (Cls is_digit)) (Seq (Rep 7 (Some 12) phone_digit) (NotAhead is_digit)))))"

definition SECRET_KEY_MARKERS :: "string list" where
  "SECRET_KEY_MARKERS = [''api_key'', ''apikey'', ''authorization'', ''cookie'', ''token'', ''password'', ''secret'', ''pepper'']"

section \<open>Card numbers\<close>

fun luhn_sum :: "nat \<Rightarrow> string \<Rightarrow> nat" where
  "luhn_sum index [] = 0"
| "luhn_sum index (c # cs) =
     (let d = digit_val c; d' = (if index mod 2 = 1 then (if 2 * d > 9 then 2 * d - 9 else 2 * d) else d) in
      d' + luhn_sum (Suc index) cs)"

definition luhn_valid :: "string \<Rightarrow> bool" where
  "luhn_valid digits \<longleftrightarrow> luhn_sum 0 (rev digits) mod 10 = 0"

definition mask_card :: "string \<Rightarrow> string" where
  "mask_card m =
     (let digits = filter is_digit m in
      if 13 \<le> length digits \<and> length digits \<le> 19 \<and> luhn_valid digits then ''[card]'' else m)"

section \<open>The policy\<close>

datatype trace_mode = Off | Redacted | Full

definition from_trace_content :: "string \<Rightarrow> trace_mode" where
  "from_trace_content t = (if t = ''off'' then Off else if t = ''full'' then Full else Redacted)"

definition redact_text :: "trace_mode \<Rightarrow> string \<Rightarrow> string" where
  "redact_text mode v = (case mode of
      Full \<Rightarrow> v
    | Off \<Rightarrow> ''[redacted]''
    | Redacted \<Rightarrow>
        (let redacted = re_sub EMAIL (\<lambda>_. ''[email]'') [] v;
             redacted = fold (\<lambda>p t. re_sub p (\<lambda>_. ''[secret]'') [] t) SECRET_PATTERNS redacted;
             redacted = re_sub CARD_CANDIDATE mask_card [] redacted in
         re_sub PHONE (\<lambda>_. ''[phone]'') [] redacted))"

definition is_secret_key :: "string \<Rightarrow> bool" where
  "is_secret_key key \<longleftrightarrow>
     (let normalized = map (\<lambda>c. if c = CHR ''-'' then CHR ''_'' else c) (str_lower key) in
      list_ex (\<lambda>marker. contains marker normalized) SECRET_KEY_MARKERS)"

fun redact_value :: "trace_mode \<Rightarrow> json \<Rightarrow> json" where
  "redact_value mode (JStr s) = JStr (redact_text mode s)"
| "redact_value mode (JObj kvs) = (case mode of
      Full \<Rightarrow> JObj kvs
    | Off \<Rightarrow> JObj (map (\<lambda>(k, v). (k, JStr ''[redacted]'')) kvs)
    | Redacted \<Rightarrow> JObj (map (\<lambda>(k, v). (k, if is_secret_key k then JStr ''[secret]'' else redact_value mode v)) kvs))"
| "redact_value mode (JList vs) = JList (map (redact_value mode) vs)"
| "redact_value mode JNull = JNull"
| "redact_value mode (JBool b) = JBool b"
| "redact_value mode (JInt i) = JInt i"
| "redact_value mode (JFloat x) = JFloat x"

definition redact_mapping :: "trace_mode \<Rightarrow> (string \<times> json) list \<Rightarrow> (string \<times> json) list" where
  "redact_mapping mode payload = (case redact_value mode (JObj payload) of JObj kvs \<Rightarrow> kvs | _ \<Rightarrow> [])"

section \<open>Lemmas\<close>

definition email_char :: "char \<Rightarrow> bool" where
  "email_char c \<longleftrightarrow> word_char c \<or> c \<in> {CHR ''.'', CHR ''+'', CHR ''-'', CHR ''@''}"

primrec over :: "(char \<Rightarrow> bool) \<Rightarrow> regex \<Rightarrow> bool" where
  "over C (Cls P) = (\<forall>c. P c \<longrightarrow> C c)"
| "over C (Seq r s) = (over C r \<and> over C s)"
| "over C (Alt r s) = (over C r \<and> over C s)"
| "over C (Rep lo hi r) = over C r"
| "over C Boundary = True"
| "over C (NotBehind P) = True"
| "over C (NotAhead P) = True"

lemma powers_all: "(\<And>u. u \<in> L \<Longrightarrow> list_all P u) \<Longrightarrow> w \<in> powers L n \<Longrightarrow> list_all P w"
proof (induction n arbitrary: w)
  case (Suc n)
  then show ?case by fastforce
qed simp

lemma lang_over: "over C r \<Longrightarrow> w \<in> lang r \<Longrightarrow> list_all C w"
proof (induction r arbitrary: w)
  case (Rep lo hi r)
  then show ?case by (auto intro: powers_all)
qed auto

lemma email_words:
  assumes "w \<in> lang EMAIL"
  shows "list_all email_char w" and "CHR ''@'' \<in> set w"
proof -
  have "over email_char EMAIL"
    by (auto simp: EMAIL_def plus_def re_chr_def email_char_def is_letter_def word_char_def Let_def)
  then show "list_all email_char w" using assms by (rule lang_over)
  from assms show "CHR ''@'' \<in> set w" unfolding EMAIL_def lang.simps(2) [of "plus _"] lang.simps(2) [of "re_chr (CHR ''@'')"]
    by (auto simp: re_chr_def)
qed

lemma token_neutral:
  assumes "t = CHR ''['' # s @ [CHR '']'']" "CHR ''@'' \<notin> set s"
  shows "neutral email_char (lang EMAIL) t"
proof -
  have "\<not> email_char (CHR ''['')" "\<not> email_char (CHR '']'')" by (simp_all add: email_char_def word_char_def)
  moreover have "factor_free (lang EMAIL) t"
    unfolding factor_free_def
  proof (intro allI impI notI)
    fix pre w post assume "t = pre @ w @ post" "w \<in> lang EMAIL"
    then have "CHR ''@'' \<in> set t" using email_words(2) by auto
    with assms show False by simp
  qed
  ultimately show ?thesis using assms(1) by (simp add: neutral_def bracketed_def)
qed

lemma tokens_neutral:
  "neutral email_char (lang EMAIL) ''[email]''" "neutral email_char (lang EMAIL) ''[secret]''"
  "neutral email_char (lang EMAIL) ''[card]''" "neutral email_char (lang EMAIL) ''[phone]''"
  by (rule token_neutral [of _ "''email''"] token_neutral [of _ "''secret''"] token_neutral [of _ "''card''"]
      token_neutral [of _ "''phone''"]; simp)+

lemma email_pattern_ok: "plain EMAIL" "eats EMAIL" "[] \<notin> lang EMAIL"
  using email_words(2) [of "[]"] by (auto simp: EMAIL_def plus_def re_chr_def)

lemma secrets_keep_free:
  "factor_free (lang EMAIL) t \<Longrightarrow> factor_free (lang EMAIL) (fold (\<lambda>p t. re_sub p (\<lambda>_. ''[secret]'') [] t) ps t)"
proof (induction ps arbitrary: t)
  case (Cons p ps)
  have "factor_free (lang EMAIL) (re_sub p (\<lambda>_. ''[secret]'') [] t)"
    by (rule re_sub_factor [of _ email_char]) (use tokens_neutral email_words Cons.prems in simp_all)
  then show ?case using Cons.IH by simp
qed simp

lemma mask_card_cases: "mask_card m = m \<or> mask_card m = ''[card]''"
  by (simp add: mask_card_def Let_def)

lemma redact_text_email_free: "factor_free (lang EMAIL) (redact_text Redacted s)"
proof -
  let ?e = "re_sub EMAIL (\<lambda>_. ''[email]'') [] s"
  let ?s = "fold (\<lambda>p t. re_sub p (\<lambda>_. ''[secret]'') [] t) SECRET_PATTERNS ?e"
  let ?c = "re_sub CARD_CANDIDATE mask_card [] ?s"
  have "factor_free (lang EMAIL) ?e"
    by (rule re_sub_removes [of _ email_char]) (use email_pattern_ok email_words tokens_neutral in simp_all)
  then have "factor_free (lang EMAIL) ?s" by (rule secrets_keep_free)
  then have "factor_free (lang EMAIL) ?c"
    by (rule re_sub_factor [of mask_card email_char, rotated -1]) (use mask_card_cases tokens_neutral email_words in metis)+
  then have "factor_free (lang EMAIL) (re_sub PHONE (\<lambda>_. ''[phone]'') [] ?c)"
    by (rule re_sub_factor [of _ email_char, rotated -1]) (use tokens_neutral email_words in simp_all)
  then show ?thesis by (simp add: redact_text_def Let_def)
qed

section \<open>Nothing leaks\<close>

fun json_texts :: "json \<Rightarrow> string list" where
  "json_texts (JStr s) = [s]"
| "json_texts (JList vs) = concat (map json_texts vs)"
| "json_texts (JObj kvs) = concat (map (\<lambda>(k, v). json_texts v) kvs)"
| "json_texts _ = []"

fun secrets_masked :: "json \<Rightarrow> bool" where
  "secrets_masked (JList vs) = list_all secrets_masked vs"
| "secrets_masked (JObj kvs) = list_all (\<lambda>(k, v). if is_secret_key k then v = JStr ''[secret]'' else secrets_masked v) kvs"
| "secrets_masked _ = True"

text \<open>
  C36. No e-mail address in a value survives redaction: in the default mode, however texts, lists and mappings are nested in a payload
  and whatever they hold, no text that is left as a value contains a word of the e-mail pattern, although each later replacement works
  on the result of the earlier ones; and every value under a secret-looking key at any depth is replaced. With tracing of content
  off, every value of the payload, of whatever kind, is replaced by the placeholder. Keys are kept as they are in both modes, in order
  (an address used as a key stays), and in the default mode so are numbers, booleans and nulls under other keys.
\<close>

theorem redaction_leaks_nothing:
  "(\<forall>s \<in> set (json_texts (JObj (redact_mapping Redacted payload))). factor_free (lang EMAIL) s) \<and>
   secrets_masked (JObj (redact_mapping Redacted payload)) \<and>
   map fst (redact_mapping Redacted payload) = map fst payload \<and>
   redact_mapping Off payload = map (\<lambda>(k, v). (k, JStr ''[redacted]'')) payload"
proof -
  have texts: "\<forall>s \<in> set (json_texts (redact_value Redacted v)). factor_free (lang EMAIL) s" for v
  proof (induction "Redacted" v rule: redact_value.induct)
    case (2 kvs)
    then show ?case using tokens_neutral(2) by (fastforce simp: neutral_def split: if_splits)
  qed (auto simp: redact_text_email_free)
  have masked: "secrets_masked (redact_value Redacted v)" for v
    by (induction "Redacted" v rule: redact_value.induct) (auto simp: list_all_iff)
  have obj: "JObj (redact_mapping m payload) = redact_value m (JObj payload)" for m
    by (cases m) (simp_all add: redact_mapping_def)
  have "map fst (redact_mapping Redacted payload) = map fst payload"
    by (simp add: redact_mapping_def split_def comp_def)
  moreover have "redact_mapping Off payload = map (\<lambda>(k, v). (k, JStr ''[redacted]'')) payload"
    by (simp add: redact_mapping_def)
  ultimately show ?thesis unfolding obj using texts masked by blast
qed

theorem redaction_leaks_nothing_witness:
  "redact_mapping Redacted [(''note'', JStr ''to a@b.co''), (''X-Api-Key'', JStr ''k'')] =
     [(''note'', JStr ''to [email]''), (''X-Api-Key'', JStr ''[secret]'')] \<and>
   factor_free (lang EMAIL) ''to [email]''"
proof -
  have r: "redact_mapping Redacted [(''note'', JStr ''to a@b.co''), (''X-Api-Key'', JStr ''k'')] =
      [(''note'', JStr ''to [email]''), (''X-Api-Key'', JStr ''[secret]'')]"
    by code_simp
  with redaction_leaks_nothing [of "[(''note'', JStr ''to a@b.co''), (''X-Api-Key'', JStr ''k'')]"] show ?thesis by simp
qed

end
