(* ===== verification/App_Settings.thy ===== *)
theory App_Settings
  imports Identity
begin

text \<open>
  The application settings (\<open>src/app/core/config\<close>): the fields of the mixins that the bootstrap reads, their bounds,
  the validators across fields and the redacted summary.

  Fields without bounds that nothing here reads (names, hosts, log options) are left out. A settings value holds parsed fields; reading the environment and the coercion of texts to numbers are
  pydantic's. A \<open>Literal\<close> field is a string with the check that it is one of the alternatives. SHA-256 is an argument.
\<close>

section \<open>Fields\<close>

datatype environment = Dev | Local | Test | Prod | Production

definition environment_of :: "string \<Rightarrow> environment option" where
  "environment_of v = map_of [(''dev'', Dev), (''local'', Local), (''test'', Test), (''prod'', Prod), (''production'', Production)] (str_lower v)"

definition is_local :: "environment \<Rightarrow> bool" where
  "is_local e \<longleftrightarrow> e \<in> {Dev, Local, Test}"

definition is_production :: "environment \<Rightarrow> bool" where
  "is_production e \<longleftrightarrow> e \<in> {Prod, Production}"

record app_settings = platform_settings +
  ENVIRONMENT :: environment
  DOCS_ENABLED :: bool
  GRACEFUL_SHUTDOWN_ENABLED :: bool
  GRACEFUL_SHUTDOWN_TIMEOUT_SECONDS :: int
  SHUTDOWN_READINESS_DELAY_SECONDS :: seconds
  CORS_ALLOW_ORIGINS :: string
  TRUSTED_HOSTS :: string
  MAX_REQUEST_BODY_BYTES :: int
  SECURITY_HSTS_MAX_AGE_SECONDS :: int
  GZIP_MIN_SIZE :: int
  GZIP_COMPRESS_LEVEL :: int
  REQUEST_TIMEOUT_SECONDS :: int
  SSE_HEARTBEAT_SECONDS :: seconds
  STREAM_FIRST_TOKEN_TIMEOUT_SECONDS :: seconds
  STREAM_IDLE_TIMEOUT_SECONDS :: seconds
  HEALTH_CHECK_TIMEOUT_SECONDS :: seconds
  TRUSTED_PROXY_COUNT :: int
  POSTGRES_HOST :: string
  POSTGRES_PORT :: int
  POSTGRES_USER :: string
  POSTGRES_PASSWORD :: string
  POSTGRES_DB :: string
  DB_POOL_SIZE :: int
  DB_MAX_OVERFLOW :: int
  DB_POOL_TIMEOUT_SECONDS :: int
  DB_POOL_RECYCLE_SECONDS :: int
  REDIS_PORT :: int
  REDIS_DATABASE :: int
  REDIS_TIMEOUT_SECONDS :: int
  MONGODB_CONNECT_TIMEOUT_MS :: int
  MONGODB_SERVER_SELECTION_TIMEOUT_MS :: int
  QUEUE_ENABLED :: bool
  QUEUE_BACKEND :: string
  SQS_VISIBILITY_TIMEOUT_SECONDS :: int
  QUEUE_REDIS_MIN_IDLE_SECONDS :: seconds
  QUEUE_REDIS_MAX_DELIVERIES :: int
  QUEUE_REDIS_DEAD_LETTER_MAXLEN :: int
  TASKS_ENABLED :: bool
  TASK_STORE_BACKEND :: string
  TASK_TTL_SECONDS :: int
  TASKS_LEASE_SECONDS :: int
  TASKS_DISPATCH_BACKEND :: string
  TASKS_OUTBOX_RELAY_INTERVAL_SECONDS :: seconds
  TASKS_OUTBOX_RELAY_BATCH_SIZE :: int
  TASKS_RECLAIM_INTERVAL_SECONDS :: seconds
  TASKS_RECLAIM_BATCH_SIZE :: int
  TASKS_MAX_ATTEMPTS :: int
  TASKS_CLEANUP_INTERVAL_SECONDS :: seconds
  TASKS_CLEANUP_BATCH_SIZE :: int
  WORKER_MAX_CONCURRENT :: int
  WORKER_MAX_ATTEMPTS :: int
  WORKER_POLL_INTERVAL_SECONDS :: seconds
  WORKER_RECEIVE_BATCH_SIZE :: int
  WORKER_RECEIVE_WAIT_SECONDS :: seconds
  OUTBOX_ENABLED :: bool
  OUTBOX_BACKEND :: string
  OUTBOX_RETENTION_SECONDS :: int
  WEBHOOKS_ENABLED :: bool
  WEBHOOK_SIGNING_SECRET :: string
  WEBHOOK_TIMESTAMP_TOLERANCE_SECONDS :: int
  WEBHOOK_TIMEOUT_SECONDS :: seconds
  RATE_LIMIT_WINDOW_SECONDS :: int
  RATE_LIMIT_REDIS_PREFIX :: string
  RATE_LIMIT_IP_ENABLED :: bool
  RATE_LIMIT_IP_PER_MINUTE :: int
  RATE_LIMIT_PRINCIPAL_ENABLED :: bool
  RATE_LIMIT_PRINCIPAL_PER_MINUTE :: int
  CACHE_PREFIX :: string
  CACHE_DEFAULT_TTL_SECONDS :: seconds
  OBJECT_PREFIX :: string
  IDEMPOTENCY_TTL_SECONDS :: int
  IDEMPOTENCY_IN_PROGRESS_TIMEOUT_SECONDS :: int
  IDEMPOTENCY_KEY_MAX_LENGTH :: int
  LLM_MAX_TOKENS :: int
  LLM_TIMEOUT_SECONDS :: seconds
  LLM_MAX_RETRIES :: int
  LLM_CHAIN_DEADLINE_SECONDS :: seconds
  LLM_BREAKER_FAILURE_THRESHOLD :: int
  LLM_BREAKER_COOLDOWN_SECONDS :: seconds
  LANGFUSE_ENABLED :: bool
  LANGFUSE_PROMPT_CACHE_TTL_SECONDS :: int
  RAG_ENABLED :: bool
  RAG_BACKEND :: string
  RAG_CHUNK_SIZE :: int
  RAG_CHUNK_OVERLAP :: int
  RAG_MOCK_EMBED_DIM :: int
  RAG_EMBED_MODEL :: string
  RAG_DEFAULT_TOP_K :: int
  RAG_RETRIEVE_TIMEOUT_SECONDS :: seconds
  OTEL_ENABLED :: bool
  OTEL_SERVICE_NAME :: string
  OTEL_EXPORTER_OTLP_ENDPOINT :: string
  OTEL_TRACES_SAMPLE_RATIO :: rat

section \<open>Bounds of the fields\<close>

definition runtime_fields_ok :: "app_settings \<Rightarrow> bool" where
  "runtime_fields_ok s \<longleftrightarrow> GRACEFUL_SHUTDOWN_TIMEOUT_SECONDS s \<ge> 0 \<and> SHUTDOWN_READINESS_DELAY_SECONDS s \<ge> 0"

definition http_fields_ok :: "app_settings \<Rightarrow> bool" where
  "http_fields_ok s \<longleftrightarrow> MAX_REQUEST_BODY_BYTES s > 0 \<and> SECURITY_HSTS_MAX_AGE_SECONDS s \<ge> 0 \<and> GZIP_MIN_SIZE s \<ge> 0 \<and>
     1 \<le> GZIP_COMPRESS_LEVEL s \<and> GZIP_COMPRESS_LEVEL s \<le> 9 \<and> REQUEST_TIMEOUT_SECONDS s > 0 \<and> SSE_HEARTBEAT_SECONDS s > 0 \<and>
     STREAM_FIRST_TOKEN_TIMEOUT_SECONDS s > 0 \<and> STREAM_IDLE_TIMEOUT_SECONDS s > 0 \<and>
     HEALTH_CHECK_TIMEOUT_SECONDS s > 0 \<and> TRUSTED_PROXY_COUNT s \<ge> 0"

definition infra_fields_ok :: "app_settings \<Rightarrow> bool" where
  "infra_fields_ok s \<longleftrightarrow> POSTGRES_PORT s > 0 \<and> POSTGRES_PORT s < 65536 \<and> DB_POOL_SIZE s > 0 \<and> DB_MAX_OVERFLOW s \<ge> 0 \<and>
     DB_POOL_TIMEOUT_SECONDS s > 0 \<and> DB_POOL_RECYCLE_SECONDS s > 0 \<and> REDIS_PORT s > 0 \<and> REDIS_PORT s < 65536 \<and>
     REDIS_DATABASE s \<ge> 0 \<and> REDIS_TIMEOUT_SECONDS s > 0"

definition mongo_fields_ok :: "app_settings \<Rightarrow> bool" where
  "mongo_fields_ok s \<longleftrightarrow> MONGODB_CONNECT_TIMEOUT_MS s > 0 \<and> MONGODB_SERVER_SELECTION_TIMEOUT_MS s > 0"

definition queue_fields_ok :: "app_settings \<Rightarrow> bool" where
  "queue_fields_ok s \<longleftrightarrow> QUEUE_BACKEND s \<in> {''memory'', ''redis'', ''sqs'', ''rabbitmq''} \<and> SQS_VISIBILITY_TIMEOUT_SECONDS s \<ge> 0 \<and>
     QUEUE_REDIS_MIN_IDLE_SECONDS s > 0 \<and> QUEUE_REDIS_MAX_DELIVERIES s > 0 \<and> QUEUE_REDIS_DEAD_LETTER_MAXLEN s > 0"

definition task_fields_ok :: "app_settings \<Rightarrow> bool" where
  "task_fields_ok s \<longleftrightarrow> TASK_STORE_BACKEND s \<in> {''memory'', ''postgres'', ''redis''} \<and> TASK_TTL_SECONDS s > 0 \<and>
     TASKS_LEASE_SECONDS s > 0 \<and> TASKS_DISPATCH_BACKEND s \<in> {''queue'', ''outbox''} \<and>
     TASKS_OUTBOX_RELAY_INTERVAL_SECONDS s > 0 \<and> TASKS_OUTBOX_RELAY_BATCH_SIZE s > 0 \<and>
     TASKS_RECLAIM_INTERVAL_SECONDS s > 0 \<and> TASKS_RECLAIM_BATCH_SIZE s > 0 \<and>
     1 \<le> TASKS_MAX_ATTEMPTS s \<and> TASKS_MAX_ATTEMPTS s \<le> 100 \<and>
     TASKS_CLEANUP_INTERVAL_SECONDS s > 0 \<and> TASKS_CLEANUP_BATCH_SIZE s > 0"

definition worker_fields_ok :: "app_settings \<Rightarrow> bool" where
  "worker_fields_ok s \<longleftrightarrow> WORKER_MAX_CONCURRENT s > 0 \<and> WORKER_MAX_ATTEMPTS s > 0 \<and> WORKER_POLL_INTERVAL_SECONDS s \<ge> 0 \<and>
     WORKER_RECEIVE_BATCH_SIZE s > 0 \<and> WORKER_RECEIVE_WAIT_SECONDS s \<ge> 0"

definition delivery_fields_ok :: "app_settings \<Rightarrow> bool" where
  "delivery_fields_ok s \<longleftrightarrow> OUTBOX_BACKEND s = ''postgres'' \<and> OUTBOX_RETENTION_SECONDS s > 0 \<and>
     WEBHOOK_TIMESTAMP_TOLERANCE_SECONDS s > 0 \<and> WEBHOOK_TIMEOUT_SECONDS s > 0"

definition platform_fields_ok :: "app_settings \<Rightarrow> bool" where
  "platform_fields_ok s \<longleftrightarrow> RATE_LIMIT_BACKEND s \<in> {''memory'', ''redis''} \<and> RATE_LIMIT_WINDOW_SECONDS s > 0 \<and>
     RATE_LIMIT_IP_PER_MINUTE s > 0 \<and> RATE_LIMIT_PRINCIPAL_PER_MINUTE s > 0 \<and> CACHE_BACKEND s \<in> {''memory'', ''redis''} \<and>
     CACHE_DEFAULT_TTL_SECONDS s > 0 \<and> OBJECT_BACKEND s \<in> {''memory'', ''s3''} \<and> IDEMPOTENCY_BACKEND s = ''postgres'' \<and>
     IDEMPOTENCY_TTL_SECONDS s > 0 \<and> IDEMPOTENCY_IN_PROGRESS_TIMEOUT_SECONDS s > 0 \<and> IDEMPOTENCY_KEY_MAX_LENGTH s > 0 \<and>
     QUOTA_BACKEND s \<in> {''memory'', ''postgres'', ''mongo''}"

definition ai_fields_ok :: "app_settings \<Rightarrow> bool" where
  "ai_fields_ok s \<longleftrightarrow> LLM_MAX_TOKENS s > 0 \<and> LLM_MAX_TOKENS s \<le> 200000 \<and> LLM_MAX_RETRIES s \<ge> 0 \<and> LLM_MAX_RETRIES s \<le> 5 \<and>
     LLM_BREAKER_FAILURE_THRESHOLD s > 0 \<and> LLM_BREAKER_COOLDOWN_SECONDS s > 0 \<and> LANGFUSE_PROMPT_CACHE_TTL_SECONDS s \<ge> 0 \<and>
     RAG_CHUNK_SIZE s > 0 \<and> RAG_CHUNK_OVERLAP s \<ge> 0 \<and> RAG_MOCK_EMBED_DIM s > 0 \<and>
     LLM_TIMEOUT_SECONDS s > 0 \<and> LLM_TIMEOUT_SECONDS s \<le> 600 \<and> LLM_CHAIN_DEADLINE_SECONDS s > 0 \<and>
     LLM_CHAIN_DEADLINE_SECONDS s \<le> 1800 \<and> RAG_BACKEND s = ''memory'' \<and> RAG_DEFAULT_TOP_K s > 0 \<and> RAG_RETRIEVE_TIMEOUT_SECONDS s > 0"

definition telemetry_fields_ok :: "app_settings \<Rightarrow> bool" where
  "telemetry_fields_ok s \<longleftrightarrow> OTEL_SERVICE_NAME s \<noteq> '''' \<and> 0 \<le> OTEL_TRACES_SAMPLE_RATIO s \<and> OTEL_TRACES_SAMPLE_RATIO s \<le> 1"

definition fields_ok :: "app_settings \<Rightarrow> bool" where
  "fields_ok s \<longleftrightarrow> runtime_fields_ok s \<and> http_fields_ok s \<and> infra_fields_ok s \<and> mongo_fields_ok s \<and> queue_fields_ok s \<and> task_fields_ok s \<and>
     worker_fields_ok s \<and> delivery_fields_ok s \<and> platform_fields_ok s \<and> ai_fields_ok s \<and> telemetry_fields_ok s"

section \<open>Validators\<close>

definition require_setting :: "bool \<Rightarrow> string \<Rightarrow> exn + unit" where
  "require_setting condition msg = (if condition then Inr () else Inl (ValueError msg))"

fun check_all :: "(exn + unit) list \<Rightarrow> exn + unit" where
  "check_all [] = Inr ()"
| "check_all (c # cs) = (case c of Inl e \<Rightarrow> Inl e | Inr _ \<Rightarrow> check_all cs)"

definition when_setting :: "bool \<Rightarrow> exn + unit \<Rightarrow> exn + unit" where
  "when_setting b c = (if b then c else Inr ())"

definition require_endpoint_when_enabled :: "app_settings \<Rightarrow> exn + unit" where
  "require_endpoint_when_enabled s =
     when_setting (OTEL_ENABLED s \<and> OTEL_EXPORTER_OTLP_ENDPOINT s = '''')
       (Inl (ValueError ''OTEL_EXPORTER_OTLP_ENDPOINT is required when OTEL_ENABLED is true''))"

definition validate_messaging_requirements :: "app_settings \<Rightarrow> exn + unit" where
  "validate_messaging_requirements s = check_all
     [when_setting (QUEUE_ENABLED s \<and> QUEUE_BACKEND s = ''redis'')
        (require_setting (REDIS_ENABLED s) ''QUEUE_BACKEND=redis requires REDIS_ENABLED''),
      when_setting (TASKS_ENABLED s) (check_all
        [require_setting (QUEUE_ENABLED s) ''TASKS_ENABLED requires QUEUE_ENABLED'',
         when_setting (TASK_STORE_BACKEND s = ''postgres'')
           (require_setting (DATABASE_ENABLED s) ''TASK_STORE_BACKEND=postgres requires DATABASE_ENABLED''),
         when_setting (TASK_STORE_BACKEND s = ''redis'')
           (require_setting (REDIS_ENABLED s) ''TASK_STORE_BACKEND=redis requires REDIS_ENABLED''),
         when_setting (TASKS_DISPATCH_BACKEND s = ''outbox'') (check_all
           [require_setting (OUTBOX_ENABLED s) ''TASKS_DISPATCH_BACKEND=outbox requires OUTBOX_ENABLED'',
            require_setting (TASK_STORE_BACKEND s = ''postgres'')
              ''TASKS_DISPATCH_BACKEND=outbox requires TASK_STORE_BACKEND=postgres (task and outbox event must commit in one transaction)''])]),
      when_setting (OUTBOX_ENABLED s \<and> OUTBOX_BACKEND s = ''postgres'')
        (require_setting (DATABASE_ENABLED s) ''OUTBOX_BACKEND=postgres requires DATABASE_ENABLED''),
      when_setting (WEBHOOKS_ENABLED s)
        (require_setting (WEBHOOK_SIGNING_SECRET s \<noteq> '''') ''WEBHOOK_SIGNING_SECRET is required when WEBHOOKS_ENABLED is true'')]"

definition chain_deadline_covers_one_call :: "app_settings \<Rightarrow> exn + unit" where
  "chain_deadline_covers_one_call s =
     when_setting (LLM_CHAIN_DEADLINE_SECONDS s < LLM_TIMEOUT_SECONDS s)
       (Inl (ValueError ''LLM_CHAIN_DEADLINE_SECONDS must be >= LLM_TIMEOUT_SECONDS''))"

definition cors_allow_origins :: "app_settings \<Rightarrow> string list" where
  "cors_allow_origins s = split_csv (CORS_ALLOW_ORIGINS s)"

definition trusted_hosts :: "app_settings \<Rightarrow> string list" where
  "trusted_hosts s = split_csv (TRUSTED_HOSTS s)"

definition WEAK_AUTH_DIGESTS :: "(string \<Rightarrow> string) \<Rightarrow> string list" where
  "WEAK_AUTH_DIGESTS sha256 = map sha256 [''change-me-local-bearer-token'', ''test-token'', ''local-token'', ''dev-token'']"

definition validate_runtime_safety :: "(string \<Rightarrow> string) \<Rightarrow> app_settings \<Rightarrow> exn + unit" where
  "validate_runtime_safety sha256 s = (case parse_api_keys (AUTH_API_KEYS s) of
      Inl e \<Rightarrow> Inl e
    | Inr keys \<Rightarrow>
        if \<not> is_local (ENVIRONMENT s) \<and> keys = [] then Inl (ValueError ''AUTH_API_KEYS is required outside dev/local/test'')
        else if \<not> is_production (ENVIRONMENT s) then Inr ()
        else if DOCS_ENABLED s then Inl (ValueError ''DOCS_ENABLED must be false in production'')
        else if ''*'' \<in> set (cors_allow_origins s) then Inl (ValueError ''CORS_ALLOW_ORIGINS must not contain '*' in production'')
        else if ''*'' \<in> set (trusted_hosts s) then Inl (ValueError ''TRUSTED_HOSTS must not contain '*' in production'')
        else if list_ex (\<lambda>k. ak_digest k \<in> set (WEAK_AUTH_DIGESTS sha256)) keys
        then Inl (ValueError ''AUTH_API_KEYS contains a key for a known weak token'')
        else Inr ())"

text \<open>The validators run from the last base class to \<open>Settings\<close> itself; the order only decides which error is reported.\<close>

definition forget :: "exn + 'a \<Rightarrow> exn + unit" where
  "forget r = (case r of Inl e \<Rightarrow> Inl e | Inr _ \<Rightarrow> Inr ())"

definition Settings :: "(string \<Rightarrow> string) \<Rightarrow> app_settings \<Rightarrow> exn + app_settings" where
  "Settings sha256 s =
     (if \<not> fields_ok s then Inl (ValueError ''validation error'')
      else case check_all
        [require_endpoint_when_enabled s, forget (validate_backend_requirements s), forget (validate_api_keys s),
         validate_messaging_requirements s, chain_deadline_covers_one_call s, validate_runtime_safety sha256 s] of
        Inl e \<Rightarrow> Inl e | Inr _ \<Rightarrow> Inr s)"

definition POSTGRES_URL :: "app_settings \<Rightarrow> string" where
  "POSTGRES_URL s = ''postgresql+asyncpg://'' @ POSTGRES_USER s @ '':'' @ POSTGRES_PASSWORD s @ ''@'' @ POSTGRES_HOST s @ '':'' @
     int_str (POSTGRES_PORT s) @ ''/'' @ POSTGRES_DB s"

section \<open>The redacted summary\<close>

definition SECRET_MARKERS :: "string list" where
  "SECRET_MARKERS = [''PASSWORD'', ''SECRET'', ''TOKEN'', ''KEY'', ''PEPPER'']"

definition redacted_value :: "string \<Rightarrow> json \<Rightarrow> json" where
  "redacted_value key v =
     (if \<not> truthy v then v
      else (let key_upper = str_upper key in
        if list_ex (\<lambda>m. contains m key_upper) SECRET_MARKERS then JStr ''***''
        else if ends_with ''_URL'' key_upper \<and> (case v of JStr s \<Rightarrow> contains ''://'' s \<and> contains ''@'' s | _ \<Rightarrow> False) then JStr ''***''
        else v))"

text \<open>The argument is the dump of the settings with the computed fields.\<close>

definition redacted_summary :: "(string, json) dict \<Rightarrow> (string, json) dict" where
  "redacted_summary values = map (\<lambda>(k, v). (k, redacted_value k v)) values"

section \<open>What the validators establish\<close>

lemma check_all_ok: "check_all cs = Inr () \<longleftrightarrow> (\<forall>c \<in> set cs. c = Inr ())"
  by (induction cs) (auto split: sum.splits)

lemma when_setting_ok: "when_setting b c = Inr () \<longleftrightarrow> (b \<longrightarrow> c = Inr ())"
  by (simp add: when_setting_def)

lemma require_setting_ok: "require_setting b m = Inr () \<longleftrightarrow> b"
  by (simp add: require_setting_def)

lemma forget_ok: "forget r = Inr () \<longleftrightarrow> (\<exists>x. r = Inr x)"
  by (cases r) (simp_all add: forget_def)

lemmas setting_ok = check_all_ok when_setting_ok require_setting_ok forget_ok

definition messaging_ok :: "app_settings \<Rightarrow> bool" where
  "messaging_ok s \<longleftrightarrow>
     (QUEUE_ENABLED s \<and> QUEUE_BACKEND s = ''redis'' \<longrightarrow> REDIS_ENABLED s) \<and>
     (TASKS_ENABLED s \<longrightarrow> QUEUE_ENABLED s \<and> (TASK_STORE_BACKEND s = ''postgres'' \<longrightarrow> DATABASE_ENABLED s) \<and>
        (TASK_STORE_BACKEND s = ''redis'' \<longrightarrow> REDIS_ENABLED s) \<and>
        (TASKS_DISPATCH_BACKEND s = ''outbox'' \<longrightarrow> OUTBOX_ENABLED s \<and> TASK_STORE_BACKEND s = ''postgres'')) \<and>
     (OUTBOX_ENABLED s \<and> OUTBOX_BACKEND s = ''postgres'' \<longrightarrow> DATABASE_ENABLED s) \<and>
     (WEBHOOKS_ENABLED s \<longrightarrow> WEBHOOK_SIGNING_SECRET s \<noteq> '''')"

lemma validate_messaging_ok: "validate_messaging_requirements s = Inr () \<longleftrightarrow> messaging_ok s"
  unfolding validate_messaging_requirements_def setting_ok messaging_ok_def list.set ball_simps by (simp del: check_all.simps)

definition platform_ok :: "app_settings \<Rightarrow> bool" where
  "platform_ok s \<longleftrightarrow>
     (RATE_LIMIT_ENABLED s \<and> RATE_LIMIT_BACKEND s = ''redis'' \<longrightarrow> REDIS_ENABLED s) \<and>
     (CACHE_ENABLED s \<and> CACHE_BACKEND s = ''redis'' \<longrightarrow> REDIS_ENABLED s) \<and>
     (PLATFORM_IDEMPOTENCY_ENABLED s \<and> IDEMPOTENCY_BACKEND s = ''postgres'' \<longrightarrow> DATABASE_ENABLED s) \<and>
     (QUOTA_ENABLED s \<and> QUOTA_BACKEND s = ''postgres'' \<longrightarrow> DATABASE_ENABLED s) \<and>
     (QUOTA_ENABLED s \<and> QUOTA_BACKEND s = ''mongo'' \<longrightarrow> MONGO_ENABLED s) \<and>
     (OBJECTS_ENABLED s \<and> OBJECT_BACKEND s = ''s3'' \<longrightarrow> OBJECT_S3_BUCKET s \<noteq> '''')"

lemma first_violation_none: "first_violation rules = None \<longleftrightarrow> (\<forall>(a, b, m) \<in> set rules. a \<longrightarrow> b)"
  by (induction rules rule: first_violation.induct) auto

lemma validate_backend_ok: "(\<exists>x. validate_backend_requirements s = Inr x) \<longleftrightarrow> platform_ok s"
proof -
  have "(\<exists>x. validate_backend_requirements s = Inr x) \<longleftrightarrow> first_violation (backend_rules s) = None"
    by (simp add: validate_backend_requirements_def split: option.split)
  also have "\<dots> \<longleftrightarrow> platform_ok s" unfolding first_violation_none backend_rules_def platform_ok_def by simp
  finally show ?thesis .
qed

lemma Settings_ok:
  "Settings sha256 s = Inr s' \<longleftrightarrow> s' = s \<and> fields_ok s \<and> messaging_ok s \<and> platform_ok s \<and>
     (OTEL_ENABLED s \<longrightarrow> OTEL_EXPORTER_OTLP_ENDPOINT s \<noteq> '''') \<and> LLM_TIMEOUT_SECONDS s \<le> LLM_CHAIN_DEADLINE_SECONDS s \<and>
     validate_runtime_safety sha256 s = Inr ()"
proof -
  have keys: "\<exists>x. validate_api_keys s = Inr x" if "validate_runtime_safety sha256 s = Inr ()"
    using that by (auto simp: validate_runtime_safety_def validate_api_keys_def split: sum.splits)
  have "Settings sha256 s = Inr s' \<longleftrightarrow> s' = s \<and> fields_ok s \<and> check_all
        [require_endpoint_when_enabled s, forget (validate_backend_requirements s), forget (validate_api_keys s),
         validate_messaging_requirements s, chain_deadline_covers_one_call s, validate_runtime_safety sha256 s] = Inr ()"
    by (auto simp: Settings_def split: sum.splits)
  also have "\<dots> \<longleftrightarrow> s' = s \<and> fields_ok s \<and> messaging_ok s \<and> platform_ok s \<and>
     (OTEL_ENABLED s \<longrightarrow> OTEL_EXPORTER_OTLP_ENDPOINT s \<noteq> '''') \<and> LLM_TIMEOUT_SECONDS s \<le> LLM_CHAIN_DEADLINE_SECONDS s \<and>
     validate_runtime_safety sha256 s = Inr ()"
    unfolding setting_ok list.set ball_simps validate_backend_ok validate_messaging_ok
      require_endpoint_when_enabled_def chain_deadline_covers_one_call_def
    using keys by (simp add: not_less) blast
  finally show ?thesis .
qed

lemma runtime_safe:
  assumes "validate_runtime_safety sha256 s = Inr ()" "is_production (ENVIRONMENT s)"
  obtains keys where "parse_api_keys (AUTH_API_KEYS s) = Inr keys" "keys \<noteq> []" "\<not> DOCS_ENABLED s"
    "''*'' \<notin> set (cors_allow_origins s)" "''*'' \<notin> set (trusted_hosts s)"
    "\<forall>k \<in> set keys. ak_digest k \<notin> set (WEAK_AUTH_DIGESTS sha256)"
proof -
  have "\<not> is_local (ENVIRONMENT s)" using assms(2) by (auto simp: is_local_def is_production_def)
  with assms that show thesis by (auto simp: validate_runtime_safety_def list_ex_iff split: sum.splits if_splits)
qed

section \<open>An example\<close>

text \<open>Production settings with every feature but Langfuse enabled.\<close>

definition full_settings :: app_settings where
  "full_settings =
     \<lparr>DATABASE_ENABLED = True, REDIS_ENABLED = True, MONGO_ENABLED = True,
      AUTH_API_KEYS = ''svc::'' @ replicate 64 (CHR ''a''), RATE_LIMIT_ENABLED = True,
      RATE_LIMIT_BACKEND = ''redis'', RATE_LIMIT_EXCLUDE_PATHS = ''x'', CACHE_ENABLED = True,
      CACHE_BACKEND = ''redis'', OBJECTS_ENABLED = True, OBJECT_BACKEND = ''s3'', OBJECT_S3_BUCKET = ''x'',
      PLATFORM_IDEMPOTENCY_ENABLED = True, IDEMPOTENCY_BACKEND = ''postgres'', QUOTA_ENABLED = True,
      QUOTA_BACKEND = ''mongo'', ENVIRONMENT = Production, DOCS_ENABLED = False, GRACEFUL_SHUTDOWN_ENABLED = True,
      GRACEFUL_SHUTDOWN_TIMEOUT_SECONDS = 30, SHUTDOWN_READINESS_DELAY_SECONDS = 30,
      CORS_ALLOW_ORIGINS = ''https://app.example'', TRUSTED_HOSTS = ''app.example'', MAX_REQUEST_BODY_BYTES = 30,
      SECURITY_HSTS_MAX_AGE_SECONDS = 30, GZIP_MIN_SIZE = 30, GZIP_COMPRESS_LEVEL = 5, REQUEST_TIMEOUT_SECONDS = 30,
      SSE_HEARTBEAT_SECONDS = 30, STREAM_FIRST_TOKEN_TIMEOUT_SECONDS = 30, STREAM_IDLE_TIMEOUT_SECONDS = 30,
      HEALTH_CHECK_TIMEOUT_SECONDS = 30, TRUSTED_PROXY_COUNT = 0, POSTGRES_HOST = ''x'', POSTGRES_PORT = 5432,
      POSTGRES_USER = ''x'', POSTGRES_PASSWORD = ''x'', POSTGRES_DB = ''x'', DB_POOL_SIZE = 30,
      DB_MAX_OVERFLOW = 30, DB_POOL_TIMEOUT_SECONDS = 30, DB_POOL_RECYCLE_SECONDS = 30, REDIS_PORT = 6379,
      REDIS_DATABASE = 0, REDIS_TIMEOUT_SECONDS = 30, MONGODB_CONNECT_TIMEOUT_MS = 30,
      MONGODB_SERVER_SELECTION_TIMEOUT_MS = 30, QUEUE_ENABLED = True, QUEUE_BACKEND = ''redis'',
      SQS_VISIBILITY_TIMEOUT_SECONDS = 30, QUEUE_REDIS_MIN_IDLE_SECONDS = 30, QUEUE_REDIS_MAX_DELIVERIES = 30,
      QUEUE_REDIS_DEAD_LETTER_MAXLEN = 30, TASKS_ENABLED = True, TASK_STORE_BACKEND = ''postgres'',
      TASK_TTL_SECONDS = 30, TASKS_LEASE_SECONDS = 30, TASKS_DISPATCH_BACKEND = ''outbox'',
      TASKS_OUTBOX_RELAY_INTERVAL_SECONDS = 30, TASKS_OUTBOX_RELAY_BATCH_SIZE = 30,
      TASKS_RECLAIM_INTERVAL_SECONDS = 30, TASKS_RECLAIM_BATCH_SIZE = 30, TASKS_MAX_ATTEMPTS = 5,
      TASKS_CLEANUP_INTERVAL_SECONDS = 30, TASKS_CLEANUP_BATCH_SIZE = 30, WORKER_MAX_CONCURRENT = 30,
      WORKER_MAX_ATTEMPTS = 30, WORKER_POLL_INTERVAL_SECONDS = 30, WORKER_RECEIVE_BATCH_SIZE = 30,
      WORKER_RECEIVE_WAIT_SECONDS = 30, OUTBOX_ENABLED = True, OUTBOX_BACKEND = ''postgres'',
      OUTBOX_RETENTION_SECONDS = 30, WEBHOOKS_ENABLED = True, WEBHOOK_SIGNING_SECRET = ''x'',
      WEBHOOK_TIMESTAMP_TOLERANCE_SECONDS = 30, WEBHOOK_TIMEOUT_SECONDS = 30, RATE_LIMIT_WINDOW_SECONDS = 30,
      RATE_LIMIT_REDIS_PREFIX = ''x'', RATE_LIMIT_IP_ENABLED = True, RATE_LIMIT_IP_PER_MINUTE = 30,
      RATE_LIMIT_PRINCIPAL_ENABLED = True, RATE_LIMIT_PRINCIPAL_PER_MINUTE = 30, CACHE_PREFIX = ''x'',
      CACHE_DEFAULT_TTL_SECONDS = 30, OBJECT_PREFIX = ''x'', IDEMPOTENCY_TTL_SECONDS = 30,
      IDEMPOTENCY_IN_PROGRESS_TIMEOUT_SECONDS = 30, IDEMPOTENCY_KEY_MAX_LENGTH = 30, LLM_MAX_TOKENS = 30,
      LLM_TIMEOUT_SECONDS = 60, LLM_MAX_RETRIES = 1, LLM_CHAIN_DEADLINE_SECONDS = 90,
      LLM_BREAKER_FAILURE_THRESHOLD = 30, LLM_BREAKER_COOLDOWN_SECONDS = 30, LANGFUSE_ENABLED = False,
      LANGFUSE_PROMPT_CACHE_TTL_SECONDS = 30, RAG_ENABLED = True, RAG_BACKEND = ''memory'', RAG_CHUNK_SIZE = 30,
      RAG_CHUNK_OVERLAP = 30, RAG_MOCK_EMBED_DIM = 30, RAG_EMBED_MODEL = '''', RAG_DEFAULT_TOP_K = 30,
      RAG_RETRIEVE_TIMEOUT_SECONDS = 30, OTEL_ENABLED = True, OTEL_SERVICE_NAME = ''x'',
      OTEL_EXPORTER_OTLP_ENDPOINT = ''http://otel:4318'', OTEL_TRACES_SAMPLE_RATIO = 1\<rparr>"

lemma full_settings_env [simp]: "ENVIRONMENT full_settings = Production"
  by (simp add: full_settings_def)

lemma full_settings_accepted: "Settings (\<lambda>t. t) full_settings = Inr full_settings"
  by code_simp

text \<open>
  Accepted production settings are safe: there is a key, the documentation is off, no wildcard origin or host is
  allowed, and a request that presents one of the tokens shipped in examples and tests is rejected.
\<close>

theorem production_settings_safe:
  assumes "Settings sha256 s = Inr s'" and "is_production (ENVIRONMENT s)"
  shows "\<exists>keys. parse_api_keys (AUTH_API_KEYS s') = Inr keys \<and> keys \<noteq> [] \<and> \<not> DOCS_ENABLED s' \<and>
    ''*'' \<notin> set (cors_allow_origins s') \<and> ''*'' \<notin> set (trusted_hosts s') \<and>
    (\<forall>tok \<in> {''change-me-local-bearer-token'', ''test-token'', ''local-token'', ''dev-token''}. \<forall>h scheme.
       authenticate_bearer_token sha256 (\<lambda>_. (scheme, tok)) keys (Some h) \<in>
         {Inl (AppError (UnauthorizedError (Some ''Missing bearer token'') None None)),
          Inl (AppError (UnauthorizedError (Some ''Invalid bearer token'') None None))})"
proof -
  from assms(1) have s: "s' = s" "validate_runtime_safety sha256 s = Inr ()" by (simp_all add: Settings_ok)
  then obtain keys where k: "parse_api_keys (AUTH_API_KEYS s) = Inr keys" "keys \<noteq> []" "\<not> DOCS_ENABLED s"
    "''*'' \<notin> set (cors_allow_origins s)" "''*'' \<notin> set (trusted_hosts s)"
    "\<forall>k \<in> set keys. ak_digest k \<notin> set (WEAK_AUTH_DIGESTS sha256)"
    using runtime_safe assms(2) by blast
  have "last_match (sha256 tok) keys None = None"
    if "tok \<in> {''change-me-local-bearer-token'', ''test-token'', ''local-token'', ''dev-token''}" for tok
  proof -
    have "sha256 tok \<in> set (WEAK_AUTH_DIGESTS sha256)" using that by (auto simp: WEAK_AUTH_DIGESTS_def)
    with k(6) have "sha256 tok \<notin> ak_digest ` set keys" by auto
    then show ?thesis by (simp add: last_match_none)
  qed
  with k s(1) show ?thesis by (intro exI [of _ keys]) (auto simp: authenticate_bearer_token_def)
qed

theorem production_settings_safe_witness:
  "\<exists>keys. parse_api_keys (AUTH_API_KEYS full_settings) = Inr keys \<and> keys \<noteq> [] \<and> \<not> DOCS_ENABLED full_settings \<and>
     ''*'' \<notin> set (trusted_hosts full_settings)"
  using production_settings_safe [OF full_settings_accepted] by (auto simp: is_production_def)

text \<open>
  The summary of the settings shows no credential: under a key that names a password, secret, token, key or pepper, and
  for a URL with user information under a \<open>_URL\<close> key, only the mask is shown; the database URL is always masked; every
  other value is shown as it is.
\<close>

theorem summary_hides_credentials:
  "map fst (redacted_summary values) = map fst values \<and>
   (\<forall>(k, v) \<in> set (redacted_summary values).
      list_ex (\<lambda>m. contains m (str_upper k)) SECRET_MARKERS \<and> truthy v \<longrightarrow> v = JStr ''***'') \<and>
   (\<forall>(k, v) \<in> set (redacted_summary values).
      ends_with ''_URL'' (str_upper k) \<longrightarrow> (\<forall>t. v = JStr t \<longrightarrow> \<not> (contains ''://'' t \<and> contains ''@'' t))) \<and>
   redacted_value ''POSTGRES_URL'' (JStr (POSTGRES_URL s)) = JStr ''***'' \<and>
   (\<forall>(k, v) \<in> set values. redacted_value k v \<in> {v, JStr ''***''})"
proof -
  have mask: "\<not> contains ''://'' ''***''" by code_simp
  have keys: "map fst (redacted_summary values) = map fst values" by (simp add: redacted_summary_def comp_def split_def)
  have marked: "redacted_value k v = JStr ''***''"
    if "list_ex (\<lambda>m. contains m (str_upper k)) SECRET_MARKERS" "truthy (redacted_value k v)" for k v
    using that by (auto simp: redacted_value_def Let_def)
  have url: "\<not> (contains ''://'' t \<and> contains ''@'' t)" if "ends_with ''_URL'' (str_upper k)" "redacted_value k v = JStr t" for k v t
    using that mask by (cases v) (auto simp: redacted_value_def Let_def split: if_splits)
  have pg: "str_upper ''POSTGRES_URL'' = ''POSTGRES_URL''" "ends_with ''_URL'' ''POSTGRES_URL''" by code_simp+
  have "contains ''://'' (POSTGRES_URL s)" "contains ''@'' (POSTGRES_URL s)"
    unfolding contains_iff POSTGRES_URL_def
    by (rule exI [of _ "''postgresql+asyncpg''"], simp,
        rule exI [of _ "''postgresql+asyncpg://'' @ POSTGRES_USER s @ '':'' @ POSTGRES_PASSWORD s"], simp)
  moreover have "POSTGRES_URL s \<noteq> ''''" by (simp add: POSTGRES_URL_def)
  ultimately have "redacted_value ''POSTGRES_URL'' (JStr (POSTGRES_URL s)) = JStr ''***''"
    using pg by (simp add: redacted_value_def Let_def)
  with keys marked url show ?thesis by (auto simp: redacted_summary_def redacted_value_def Let_def)
qed

theorem summary_hides_credentials_witness:
  "redacted_summary [(''RABBITMQ_URL'', JStr ''amqp://u:p@h''), (''REDIS_PASSWORD'', JStr ''x''), (''QUEUE_NAME'', JStr ''q'')] =
     [(''RABBITMQ_URL'', JStr ''***''), (''REDIS_PASSWORD'', JStr ''***''), (''QUEUE_NAME'', JStr ''q'')] \<and>
   redacted_value ''POSTGRES_URL'' (JStr (POSTGRES_URL full_settings)) = JStr ''***''"
proof -
  have "redacted_summary [(''RABBITMQ_URL'', JStr ''amqp://u:p@h''), (''REDIS_PASSWORD'', JStr ''x''), (''QUEUE_NAME'', JStr ''q'')] =
     [(''RABBITMQ_URL'', JStr ''***''), (''REDIS_PASSWORD'', JStr ''***''), (''QUEUE_NAME'', JStr ''q'')]"
    by code_simp
  moreover have "redacted_value ''POSTGRES_URL'' (JStr (POSTGRES_URL full_settings)) = JStr ''***''"
    using summary_hides_credentials [of "[]" full_settings] by simp
  ultimately show ?thesis by simp
qed

text \<open>The rule looks at keys that end in \<open>_URL\<close>: a Mongo URI with a password is shown.\<close>

lemma mongodb_uri_shown:
  "redacted_summary [(''MONGODB_URI'', JStr ''mongodb://user:pw@host'')] = [(''MONGODB_URI'', JStr ''mongodb://user:pw@host'')]"
  by code_simp

end
