(* ===== verification/Health.thy ===== *)
theory Health
  imports Errors
begin

text \<open>
  Readiness and shutdown: \<open>src/app/core/health.py\<close>, the health routes
  (\<open>src/app/api/v1/health/router.py\<close>), the client of a model server
  (\<open>src/app/modules/platform/model_server/client.py\<close>) and the server that keeps
  answering while it drains (\<open>src/app/serve.py\<close>).

  A dependency check is given by how a run of it goes: the seconds it takes and the exception it ends with, if any. The
  server's signal handler is a step function on explicit loop and timer state and on the health service that \<open>app.state\<close> holds; the
  lifespan (\<open>src/app/bootstrap/application.py\<close>) puts another one there when it has started, and once more when it has ended.
  \<open>uvicorn\<close>'s own \<open>handle_exit\<close> is recorded as a call.
\<close>

section \<open>Checks\<close>

type_synonym check_run = "seconds \<times> exn option"

definition DEFAULT_CHECK_TIMEOUT_SECONDS :: seconds where "DEFAULT_CHECK_TIMEOUT_SECONDS = 2"

record 'c health_checks =
  hc_timeout_seconds :: seconds
  hc_checks :: "(string, 'c) dict"

definition register_check :: "string \<Rightarrow> 'c \<Rightarrow> 'c health_checks \<Rightarrow> exn + 'c health_checks" where
  "register_check name check h =
     (if name \<in> set (dict_keys (hc_checks h)) then Inl (ValueError (''health check '' @ repr_str name @ '' is already registered''))
      else Inr (h\<lparr>hc_checks := dict_set (hc_checks h) name check\<rparr>))"

record health_result =
  hr_status :: string
  hr_dependencies :: "(string, string) dict"

record 'c health_service =
  hs_check_external_dependencies :: bool
  hs_checks :: "(string \<times> 'c) list"
  hs_check_timeout_seconds :: seconds
  hs_draining :: bool

definition begin_draining :: "'c health_service \<Rightarrow> 'c health_service" where
  "begin_draining h = h\<lparr>hs_draining := True\<rparr>"

text \<open>One check under its time limit: the outcome and the seconds it took.\<close>

definition run_check :: "seconds \<Rightarrow> check_run \<Rightarrow> string \<times> seconds" where
  "run_check timeout r = (case r of (took, result) \<Rightarrow>
     if took \<ge> timeout then (''error'', timeout)
     else (case result of Some e \<Rightarrow> (''error'', took) | None \<Rightarrow> (''ok'', took)))"

text \<open>\<open>asyncio.gather\<close> runs the checks concurrently: the probe takes as long as the slowest.\<close>

fun slowest :: "seconds list \<Rightarrow> seconds" where
  "slowest [] = 0"
| "slowest (t # ts) = max t (slowest ts)"

definition readiness :: "('c \<Rightarrow> check_run) \<Rightarrow> 'c health_service \<Rightarrow> health_result \<times> seconds" where
  "readiness runs h =
     (if hs_draining h then (\<lparr>hr_status = ''draining'', hr_dependencies = [(''api'', ''draining'')]\<rparr>, 0)
      else if \<not> hs_check_external_dependencies h then (\<lparr>hr_status = ''ok'', hr_dependencies = [(''api'', ''ok'')]\<rparr>, 0)
      else (let outcomes = map (\<lambda>(name, c). run_check (hs_check_timeout_seconds h) (runs c)) (hs_checks h);
                deps = fold (\<lambda>(name, v) d. dict_set d name v) (zip (map fst (hs_checks h)) (map fst outcomes)) [(''api'', ''ok'')];
                status = (if list_all (\<lambda>(name, v). v = ''ok'') deps then ''ok'' else ''error'') in
            (\<lparr>hr_status = status, hr_dependencies = deps\<rparr>, slowest (map snd outcomes))))"

section \<open>Routes\<close>

definition liveness :: json where
  "liveness = JObj [(''status'', JStr ''ok'')]"

definition readiness_route :: "('c \<Rightarrow> check_run) \<Rightarrow> 'c health_service \<Rightarrow> int \<times> json" where
  "readiness_route runs h =
     (let result = fst (readiness runs h);
          payload = JObj [(''status'', JStr (hr_status result)), (''dependencies'', JObj (map (\<lambda>(k, v). (k, JStr v)) (hr_dependencies result)))] in
      if hr_status result \<noteq> ''ok'' then (503, payload) else (200, payload))"

section \<open>A model server as a dependency\<close>

text \<open>The HTTP client is an argument: it answers with a status and a JSON body, or raises.\<close>

type_synonym http_call = "string \<Rightarrow> json option \<Rightarrow> exn + int \<times> json"

definition ms_unreachable :: exn where
  "ms_unreachable = AppError (ServiceUnavailableError (Some ''Model server is unreachable'') (Some ''model_server_unavailable'') None)"

definition ms_predict :: "string \<Rightarrow> http_call \<Rightarrow> json \<Rightarrow> exn + json" where
  "ms_predict predict_path client payload = (case client predict_path (Some payload) of
      Inl e \<Rightarrow> Inl ms_unreachable
    | Inr (status, reply) \<Rightarrow>
        if status \<noteq> 200
        then Inl (AppError (ServiceUnavailableError (Some (''Model server returned '' @ int_str status)) (Some ''model_server_error'') None))
        else Inr reply)"

definition ms_ping :: "http_call \<Rightarrow> bool" where
  "ms_ping client = (case client ''/health'' None of Inl e \<Rightarrow> False | Inr (status, reply) \<Rightarrow> status = 200)"

definition ms_check :: "http_call \<Rightarrow> exn option" where
  "ms_check client =
     (if \<not> ms_ping client
      then Some (AppError (ServiceUnavailableError (Some ''Model server is not healthy'') (Some ''model_server_unavailable'') None))
      else None)"

section \<open>The server that drains\<close>

datatype loop_callback = ArmExitTimer int | CancelExitTimer

text \<open>\<open>sv_health\<close> is \<open>app.state.health_service\<close>, which \<open>begin_draining\<close> of \<open>main\<close> and the readiness route read; \<open>app_health\<close> is the one that
  \<open>create_app\<close> puts there.\<close>

definition app_health :: "'c health_service" where
  "app_health = \<lparr>hs_check_external_dependencies = False, hs_checks = [],
     hs_check_timeout_seconds = DEFAULT_CHECK_TIMEOUT_SECONDS, hs_draining = False\<rparr>"

record 'c server =
  sv_readiness_delay_seconds :: seconds
  sv_loop_running :: bool
  sv_draining :: bool
  sv_health :: "'c health_service"
  sv_ready_callbacks :: "loop_callback list"
  sv_exit_timer :: "(seconds \<times> int \<times> bool) option"
  sv_exit_calls :: "(seconds \<times> int) list"
  sv_force_exit :: bool

definition ReadinessDelayServer :: "seconds \<Rightarrow> 'c server" where
  "ReadinessDelayServer delay = \<lparr>sv_readiness_delay_seconds = delay, sv_loop_running = False, sv_draining = False, sv_health = app_health,
     sv_ready_callbacks = [], sv_exit_timer = None, sv_exit_calls = [], sv_force_exit = False\<rparr>"

definition serve :: "'c server \<Rightarrow> 'c server" where
  "serve s = s\<lparr>sv_loop_running := True\<rparr>"

definition super_handle_exit :: "seconds \<Rightarrow> int \<Rightarrow> 'c server \<Rightarrow> 'c server" where
  "super_handle_exit now sig s = s\<lparr>sv_exit_calls := sv_exit_calls s @ [(now, sig)]\<rparr>"

definition loop_call :: "loop_callback \<Rightarrow> 'c server \<Rightarrow> 'c server" where
  "loop_call cb s = (if sv_loop_running s then s\<lparr>sv_ready_callbacks := sv_ready_callbacks s @ [cb]\<rparr> else s)"

definition handle_exit :: "seconds \<Rightarrow> int \<Rightarrow> 'c server \<Rightarrow> 'c server" where
  "handle_exit now sig s =
     (if sv_draining s
      then super_handle_exit now sig ((loop_call CancelExitTimer s)\<lparr>sv_force_exit := True\<rparr>)
      else (let s' = s\<lparr>sv_draining := True, sv_health := begin_draining (sv_health s)\<rparr> in
        if \<not> sv_loop_running s' \<or> sv_readiness_delay_seconds s' \<le> 0 then super_handle_exit now sig s'
        else loop_call (ArmExitTimer sig) s'))"

definition arm_exit_timer :: "seconds \<Rightarrow> int \<Rightarrow> 'c server \<Rightarrow> 'c server" where
  "arm_exit_timer now sig s = s\<lparr>sv_exit_timer := Some (now + sv_readiness_delay_seconds s, sig, False)\<rparr>"

definition cancel_exit_timer :: "'c server \<Rightarrow> 'c server" where
  "cancel_exit_timer s = (case sv_exit_timer s of
      None \<Rightarrow> s | Some (deadline, sig, c) \<Rightarrow> s\<lparr>sv_exit_timer := Some (deadline, sig, True)\<rparr>)"

fun run_callback :: "seconds \<Rightarrow> loop_callback \<Rightarrow> 'c server \<Rightarrow> 'c server" where
  "run_callback now (ArmExitTimer sig) s = arm_exit_timer now sig s"
| "run_callback now CancelExitTimer s = cancel_exit_timer s"

text \<open>One iteration of the event loop: the queued callbacks in order, then the timer when it is due and not cancelled; it fires once.\<close>

definition loop_iteration :: "seconds \<Rightarrow> 'c server \<Rightarrow> 'c server" where
  "loop_iteration now s =
     (let s' = fold (run_callback now) (sv_ready_callbacks s) (s\<lparr>sv_ready_callbacks := []\<rparr>) in
      case sv_exit_timer s' of
        Some (deadline, sig, False) \<Rightarrow>
          if deadline \<le> now then super_handle_exit now sig (s'\<lparr>sv_exit_timer := None\<rparr>) else s'
      | _ \<Rightarrow> s')"

text \<open>
  \<open>Started h\<close>: the lifespan has started and put its own service \<open>h\<close> into \<open>app.state\<close>; \<open>Stopping\<close>: it begins to shut down; \<open>Stopped\<close>: it has
  ended.
\<close>

datatype 'c server_event = Signal int | Iteration | Started "'c health_service" | Stopping | Stopped

fun server_step :: "seconds \<times> 'c server_event \<Rightarrow> 'c server \<Rightarrow> 'c server" where
  "server_step (now, Signal sig) s = handle_exit now sig s"
| "server_step (now, Iteration) s = loop_iteration now s"
| "server_step (now, Started h) s = s\<lparr>sv_health := h\<rparr>"
| "server_step (now, Stopping) s = s\<lparr>sv_health := begin_draining (sv_health s)\<rparr>"
| "server_step (now, Stopped) s = s\<lparr>sv_health := app_health\<rparr>"

section \<open>Readiness is exact\<close>

lemma slowest_le: "(\<And>t. t \<in> set ts \<Longrightarrow> t \<le> b) \<Longrightarrow> 0 \<le> b \<Longrightarrow> slowest ts \<le> b"
  by (induction ts) auto

lemma update_fresh:
  "dict_wf (d @ kvs) \<Longrightarrow> fold (\<lambda>(name, v) d. dict_set d name v) kvs d = d @ kvs"
proof (induction kvs arbitrary: d)
  case (Cons kv kvs)
  obtain k v where kv: "kv = (k, v)" by fastforce
  have "map_of d k = None" using Cons.prems kv by (auto simp: map_of_eq_None_iff)
  then have "dict_set d k v = d @ [(k, v)]" by (simp add: dict_set_fresh)
  then show ?case using Cons.IH [of "d @ [(k, v)]"] Cons.prems kv by simp
qed simp

definition healthy_run :: "seconds \<Rightarrow> check_run \<Rightarrow> bool" where
  "healthy_run timeout r \<longleftrightarrow> fst r < timeout \<and> snd r = None"

lemma run_check_ok: "fst (run_check timeout r) = ''ok'' \<longleftrightarrow> healthy_run timeout r"
  by (cases r) (auto simp: run_check_def healthy_run_def split: option.splits)

lemma run_check_values: "fst (run_check timeout r) = (if healthy_run timeout r then ''ok'' else ''error'')"
  by (cases r) (auto simp: run_check_def healthy_run_def split: option.splits)

lemma run_check_time: "snd (run_check timeout r) \<le> timeout"
  by (cases r) (auto simp: run_check_def split: option.splits)

text \<open>Registration keeps the names apart.\<close>

lemma register_check_wf: "register_check name c h = Inr h' \<Longrightarrow> dict_wf (hc_checks h) \<Longrightarrow> dict_wf (hc_checks h')"
  by (auto simp: register_check_def split: if_splits)

text \<open>
  Readiness is exact: while draining the probe is answered by 503; otherwise it is answered by 200 exactly when every
  registered check ends without an error before the time limit, the report names each dependency once in the order of registration
  with its own outcome, and the probe never takes longer than the limit of a single check.
\<close>

theorem readiness_exact:
  assumes "distinct (''api'' # map fst (hs_checks h))" and "0 \<le> hs_check_timeout_seconds h"
  shows "(fst (readiness_route runs h) = 200 \<longleftrightarrow> \<not> hs_draining h \<and>
            (hs_check_external_dependencies h \<longrightarrow> (\<forall>(n, c) \<in> set (hs_checks h). healthy_run (hs_check_timeout_seconds h) (runs c)))) \<and>
         (fst (readiness_route runs h) \<noteq> 200 \<longrightarrow> fst (readiness_route runs h) = 503) \<and>
         (\<not> hs_draining h \<and> hs_check_external_dependencies h \<longrightarrow> hr_dependencies (fst (readiness runs h)) =
            (''api'', ''ok'') # map (\<lambda>(n, c). (n, if healthy_run (hs_check_timeout_seconds h) (runs c) then ''ok'' else ''error'')) (hs_checks h)) \<and>
         snd (readiness runs h) \<le> hs_check_timeout_seconds h"
proof -
  let ?t = "hs_check_timeout_seconds h"
  let ?out = "map (\<lambda>(name, c). run_check ?t (runs c)) (hs_checks h)"
  let ?deps = "(''api'', ''ok'') # map (\<lambda>(n, c). (n, if healthy_run ?t (runs c) then ''ok'' else ''error'')) (hs_checks h)"
  have zip: "zip (map fst (hs_checks h)) (map fst ?out) = tl ?deps"
    by (simp add: zip_map_map zip_same_conv_map split_def comp_def run_check_values)
  have "map fst (tl ?deps) = map fst (hs_checks h)" by (simp add: split_def comp_def)
  then have "dict_wf ([(''api'', ''ok'')] @ tl ?deps)" using assms(1) by (simp only: map_append) simp
  note fresh = update_fresh [OF this]
  have deps: "fold (\<lambda>(name, v) d. dict_set d name v) (zip (map fst (hs_checks h)) (map fst ?out)) [(''api'', ''ok'')] = ?deps"
    unfolding zip fresh by simp
  have ok: "list_all (\<lambda>(name, v). v = ''ok'') ?deps \<longleftrightarrow> (\<forall>(n, c) \<in> set (hs_checks h). healthy_run ?t (runs c))"
    by (auto simp: list_all_iff split: if_splits)
  have time: "slowest (map snd ?out) \<le> ?t" by (rule slowest_le) (auto simp: run_check_time assms(2))
  have r: "readiness runs h =
      (if hs_draining h then (\<lparr>hr_status = ''draining'', hr_dependencies = [(''api'', ''draining'')]\<rparr>, 0)
       else if \<not> hs_check_external_dependencies h then (\<lparr>hr_status = ''ok'', hr_dependencies = [(''api'', ''ok'')]\<rparr>, 0)
       else (\<lparr>hr_status = (if \<forall>(n, c) \<in> set (hs_checks h). healthy_run ?t (runs c) then ''ok'' else ''error''), hr_dependencies = ?deps\<rparr>,
             slowest (map snd ?out)))"
    unfolding readiness_def Let_def deps ok by simp
  show ?thesis unfolding readiness_route_def Let_def r using time assms(2) by auto
qed

theorem readiness_exact_witness:
  "fst (readiness_route (\<lambda>c. c) \<lparr>hs_check_external_dependencies = True, hs_checks = [(''postgres'', (1, None)), (''redis'', (5, None))],
     hs_check_timeout_seconds = 2, hs_draining = False\<rparr>) = 503"
proof -
  let ?h = "\<lparr>hs_check_external_dependencies = True, hs_checks = [(''postgres'', (1, None)), (''redis'', (5, None))],
     hs_check_timeout_seconds = 2, hs_draining = False\<rparr>"
  have "\<not> healthy_run 2 (5, None)" by (simp add: healthy_run_def)
  then show ?thesis using readiness_exact [of ?h "\<lambda>c. c"] by simp
qed

section \<open>The server answers before it exits\<close>

fun signal_times :: "(seconds \<times> 'c server_event) list \<Rightarrow> seconds list" where
  "signal_times [] = []"
| "signal_times ((t, Signal sig) # evs) = t # signal_times evs"
| "signal_times (_ # evs) = signal_times evs"

lemma signal_times_append [simp]: "signal_times (xs @ ys) = signal_times xs @ signal_times ys"
  by (induction xs rule: signal_times.induct) auto

lemma signal_times_le: "\<forall>t \<in> set (map fst evs). t \<le> b \<Longrightarrow> t \<in> set (signal_times evs) \<Longrightarrow> t \<le> b"
  by (induction evs rule: signal_times.induct) auto

text \<open>Callbacks of the loop only touch the timer.\<close>

lemma run_callbacks_timer: "\<exists>tm. fold (run_callback now) cbs s = s\<lparr>sv_exit_timer := tm\<rparr>"
proof (induction cbs arbitrary: s)
  case Nil
  show ?case by (rule exI [of _ "sv_exit_timer s"]) simp
next
  case (Cons cb cbs)
  obtain tm where one: "run_callback now cb s = s\<lparr>sv_exit_timer := tm\<rparr>"
  proof (cases cb)
    case CancelExitTimer
    then show ?thesis using that [of None] that by (cases "sv_exit_timer s") (auto simp: cancel_exit_timer_def)
  qed (use that in \<open>auto simp: arm_exit_timer_def\<close>)
  obtain tm' where "fold (run_callback now) cbs (s\<lparr>sv_exit_timer := tm\<rparr>) = s\<lparr>sv_exit_timer := tm\<rparr>\<lparr>sv_exit_timer := tm'\<rparr>"
    using Cons.IH by blast
  then show ?case using one by auto
qed

definition srv_inv :: "seconds \<Rightarrow> (seconds \<times> 'c server_event) list \<Rightarrow> 'c server \<Rightarrow> bool" where
  "srv_inv delay evs s \<longleftrightarrow> (let sigs = signal_times evs in
     sv_readiness_delay_seconds s = delay \<and> sv_loop_running s \<and> sv_draining s = (sigs \<noteq> []) \<and>
     (sigs = [] \<longrightarrow> sv_ready_callbacks s = [] \<and> sv_exit_timer s = None \<and> sv_exit_calls s = []) \<and>
     (length sigs = 1 \<longrightarrow> set (sv_ready_callbacks s) \<subseteq> range ArmExitTimer \<and>
        (\<forall>d sig c. sv_exit_timer s = Some (d, sig, c) \<longrightarrow> hd sigs + delay \<le> d)) \<and>
     (\<forall>(t, sig) \<in> set (sv_exit_calls s). hd sigs + delay \<le> t \<or> 2 \<le> length sigs \<and> sigs ! 1 \<le> t))"

lemma srv_inv_signal:
  assumes "srv_inv delay evs s" "0 < delay" "\<forall>t \<in> set (map fst evs). t \<le> now"
  shows "srv_inv delay (evs @ [(now, Signal sig)]) (handle_exit now sig s)"
proof -
  have le: "t \<le> now" if "t \<in> set (signal_times evs)" for t using signal_times_le [OF assms(3) that] .
  consider "signal_times evs = []" | t where "signal_times evs = [t]" | t u rest where "signal_times evs = t # u # rest"
    by (cases "signal_times evs" rule: remdups_adj.cases) auto
  then show ?thesis
    by cases (use assms(1,2) le in \<open>auto simp: srv_inv_def Let_def handle_exit_def loop_call_def super_handle_exit_def nth_append\<close>)
qed

lemma arm_only:
  "set cbs \<subseteq> range ArmExitTimer \<Longrightarrow> (\<forall>d sig c. sv_exit_timer s = Some (d, sig, c) \<longrightarrow> b \<le> d) \<Longrightarrow> b \<le> now + sv_readiness_delay_seconds s \<Longrightarrow>
   sv_exit_timer (fold (run_callback now) cbs s) = Some (d, sig, c) \<Longrightarrow> b \<le> d"
proof (induction cbs arbitrary: s)
  case (Cons cb cbs)
  then obtain sig' where "cb = ArmExitTimer sig'" by auto
  then show ?case using Cons.IH [of "arm_exit_timer now sig' s"] Cons.prems by (simp add: arm_exit_timer_def)
qed simp

lemma srv_inv_iteration:
  assumes inv: "srv_inv delay evs s" and "0 < delay" and le: "\<forall>t \<in> set (map fst evs). t \<le> now"
  shows "srv_inv delay (evs @ [(now, Iteration)]) (loop_iteration now s)"
proof -
  define s' where "s' = fold (run_callback now) (sv_ready_callbacks s) (s\<lparr>sv_ready_callbacks := []\<rparr>)"
  obtain tm where s': "s' = s\<lparr>sv_ready_callbacks := [], sv_exit_timer := tm\<rparr>"
    using run_callbacks_timer unfolding s'_def by blast
  have sig_le: "t \<le> now" if "t \<in> set (signal_times evs)" for t using signal_times_le [OF le that] .
  have due: "hd (signal_times evs) + delay \<le> d" if one: "length (signal_times evs) = 1" and tm: "tm = Some (d, sig, c)" for d sig c
  proof (rule arm_only [where s = "s\<lparr>sv_ready_callbacks := []\<rparr>" and cbs = "sv_ready_callbacks s" and now = now])
    show "sv_exit_timer (fold (run_callback now) (sv_ready_callbacks s) (s\<lparr>sv_ready_callbacks := []\<rparr>)) = Some (d, sig, c)"
      using tm s' unfolding s'_def by simp
    have "hd (signal_times evs) \<le> now" using one sig_le by (cases "signal_times evs") auto
    then show "hd (signal_times evs) + delay \<le> now + sv_readiness_delay_seconds (s\<lparr>sv_ready_callbacks := []\<rparr>)"
      using inv by (simp add: srv_inv_def Let_def)
  qed (use inv one in \<open>auto simp: srv_inv_def Let_def\<close>)
  have idle: "tm = None" if "signal_times evs = []"
    using that inv arg_cong [OF s', of sv_exit_timer] unfolding s'_def by (auto simp: srv_inv_def Let_def)
  have step: "loop_iteration now s = (case tm of
      Some (d, sig, False) \<Rightarrow> if d \<le> now then super_handle_exit now sig (s'\<lparr>sv_exit_timer := None\<rparr>) else s' | _ \<Rightarrow> s')"
    unfolding loop_iteration_def Let_def s'_def [symmetric] using s' by (auto split: option.split bool.split)
  have second: "signal_times evs ! 1 \<le> now" if "2 \<le> length (signal_times evs)" using sig_le that by simp
  have fired: "hd (signal_times evs) + delay \<le> now \<or> 2 \<le> length (signal_times evs) \<and> signal_times evs ! 1 \<le> now"
    if "tm = Some (d, sig, False)" "d \<le> now" for d sig
    using that idle due [of d sig False] second by (cases "signal_times evs" rule: remdups_adj.cases) auto
  show ?thesis
  proof (cases "\<exists>d sig. tm = Some (d, sig, False) \<and> d \<le> now")
    case True
    then obtain d sig where t: "tm = Some (d, sig, False)" "d \<le> now" by blast
    then have "loop_iteration now s = super_handle_exit now sig (s'\<lparr>sv_exit_timer := None\<rparr>)" using step by simp
    then show ?thesis
      using inv fired [OF t] idle t(1) unfolding srv_inv_def Let_def s' super_handle_exit_def by auto
  next
    case False
    then have "loop_iteration now s = s'" using step by (auto split: option.split bool.split)
    then show ?thesis using inv due idle unfolding srv_inv_def Let_def s' by auto
  qed
qed

lemma srv_inv_health: "srv_inv delay evs s \<Longrightarrow> signal_times evs' = signal_times evs \<Longrightarrow> srv_inv delay evs' (s\<lparr>sv_health := h\<rparr>)"
  by (simp add: srv_inv_def)

lemma srv_inv_run:
  assumes "0 < delay" "sorted (map fst evs)"
  shows "srv_inv delay evs (fold server_step evs (serve (ReadinessDelayServer delay)))"
  using assms(2)
proof (induction evs rule: rev_induct)
  case Nil
  show ?case by (simp add: srv_inv_def serve_def ReadinessDelayServer_def)
next
  case (snoc ev evs)
  obtain now x where ev: "ev = (now, x)" by (cases ev)
  from snoc have IH: "srv_inv delay evs (fold server_step evs (serve (ReadinessDelayServer delay)))" "\<forall>t \<in> set (map fst evs). t \<le> now"
    by (auto simp: sorted_append ev)
  show ?case
  proof (cases x)
    case (Signal sig)
    then show ?thesis using srv_inv_signal [OF IH(1) assms(1) IH(2)] by (simp add: ev)
  next
    case Iteration
    then show ?thesis using srv_inv_iteration [OF IH(1) assms(1) IH(2)] by (simp add: ev)
  qed (use srv_inv_health [OF IH(1)] in \<open>simp_all add: ev\<close>)
qed

text \<open>Once the service of \<open>app.state\<close> drains, it does until another one takes its place.\<close>

fun replaces_health :: "seconds \<times> 'c server_event \<Rightarrow> bool" where
  "replaces_health (_, Started _) = True"
| "replaces_health (_, Stopped) = True"
| "replaces_health _ = False"

lemma run_callbacks_health: "sv_health (fold (run_callback now) cbs s) = sv_health s"
proof -
  obtain tm where "fold (run_callback now) cbs s = s\<lparr>sv_exit_timer := tm\<rparr>" using run_callbacks_timer by blast
  then show ?thesis by simp
qed

lemma drains_on:
  "hs_draining (sv_health s) \<Longrightarrow> \<forall>ev \<in> set evs. \<not> replaces_health ev \<Longrightarrow> hs_draining (sv_health (fold server_step evs s))"
proof (induction evs arbitrary: s)
  case (Cons ev evs)
  have "hs_draining (sv_health (server_step ev s))"
    using Cons.prems
    by (cases ev; cases "snd ev") (auto simp: handle_exit_def super_handle_exit_def loop_call_def begin_draining_def loop_iteration_def Let_def run_callbacks_health
        split: option.splits bool.splits)
  then show ?case using Cons by simp
qed simp

lemma first_signal_drains: "\<not> sv_draining s \<Longrightarrow> hs_draining (sv_health (handle_exit now sig s))"
  by (simp add: handle_exit_def super_handle_exit_def loop_call_def begin_draining_def Let_def)

abbreviation iterations :: "seconds list \<Rightarrow> (seconds \<times> 'c server_event) list" where
  "iterations ts \<equiv> map (\<lambda>t. (t, Iteration)) ts"

text \<open>Before a signal the server only waits; the service in \<open>app.state\<close> may change.\<close>

lemma idle_run:
  "signal_times evs = [] \<Longrightarrow> \<exists>h. fold server_step evs (serve (ReadinessDelayServer delay)) = (serve (ReadinessDelayServer delay))\<lparr>sv_health := h\<rparr>"
proof (induction evs rule: rev_induct)
  case Nil
  show ?case by (rule exI [of _ "sv_health (serve (ReadinessDelayServer delay))"]) simp
next
  case (snoc ev evs)
  then obtain h where h: "fold server_step evs (serve (ReadinessDelayServer delay)) = (serve (ReadinessDelayServer delay))\<lparr>sv_health := h\<rparr>" by auto
  obtain now x where ev: "ev = (now, x)" by (cases ev)
  have "loop_iteration now ((serve (ReadinessDelayServer delay))\<lparr>sv_health := h\<rparr>) = (serve (ReadinessDelayServer delay))\<lparr>sv_health := h\<rparr>"
    by (simp add: loop_iteration_def serve_def ReadinessDelayServer_def)
  with h snoc.prems show ?case by (cases x) (auto simp: ev)
qed

lemma armed_iterations:
  "sv_ready_callbacks s = [] \<Longrightarrow> sv_exit_timer s = Some (d, sig, False) \<Longrightarrow> sv_exit_calls s = [] \<Longrightarrow>
   sv_exit_calls (fold server_step (iterations ts) s) = (case dropWhile (\<lambda>t. t < d) ts of [] \<Rightarrow> [] | b # _ \<Rightarrow> [(b, sig)])"
proof (induction ts arbitrary: s)
  case (Cons t ts)
  have fired: "sv_exit_calls (fold server_step (iterations us) s') = sv_exit_calls s'"
    if "sv_ready_callbacks s' = []" "sv_exit_timer s' = None" for us s'
    using that by (induction us arbitrary: s') (simp_all add: loop_iteration_def)
  have clear: "s\<lparr>sv_ready_callbacks := []\<rparr> = s" using Cons.prems(1) by simp
  show ?case
  proof (cases "t < d")
    case True
    then have "loop_iteration t s = s" using Cons.prems clear by (simp add: loop_iteration_def)
    then show ?thesis using Cons.IH [OF Cons.prems] True by simp
  next
    case False
    then have "loop_iteration t s = s\<lparr>sv_exit_timer := None, sv_exit_calls := [(t, sig)]\<rparr>"
      using Cons.prems clear by (simp add: loop_iteration_def super_handle_exit_def)
    then show ?thesis using False fired [of "s\<lparr>sv_exit_timer := None, sv_exit_calls := [(t, sig)]\<rparr>" ts] Cons.prems by simp
  qed
qed simp

text \<open>
  C40. The server drains before it exits. The server's own exit is called only once the readiness delay has passed since the first signal, or
  a second signal has come; after a single signal it is called exactly once, at the first turn of the loop after the delay. From the first
  signal on the readiness route answers 503, whatever else happens, until the lifespan puts another health service into
  \<open>app.state\<close>: it does so when it has started and when it has ended. So a signal that comes after the start of the lifespan is seen by
  probes until the end; one that comes during the start is not (\<open>signal_during_startup_forgotten\<close>).
\<close>

theorem server_drains_before_exit:
  assumes "0 < delay"
  shows "(sorted (map fst evs) \<longrightarrow>
            (let s = fold server_step evs (serve (ReadinessDelayServer delay)); sigs = signal_times evs in
             \<forall>(t, sig) \<in> set (sv_exit_calls s). sigs \<noteq> [] \<and> (hd sigs + delay \<le> t \<or> 2 \<le> length sigs \<and> sigs ! 1 \<le> t))) \<and>
         (signal_times pre = [] \<longrightarrow>
            (let s = fold server_step (pre @ (t, Signal sig) # iterations (a # later)) (serve (ReadinessDelayServer delay)) in
             sv_exit_calls s = (case dropWhile (\<lambda>b. b < a + delay) later of [] \<Rightarrow> [] | b # _ \<Rightarrow> [(b, sig)]))) \<and>
         (signal_times pre = [] \<and> (\<forall>ev \<in> set post. \<not> replaces_health ev) \<longrightarrow>
            (let s = fold server_step (pre @ (t, Signal sig) # post) (serve (ReadinessDelayServer delay)) in
             fst (readiness_route runs (sv_health s)) = 503))"
proof (intro conjI impI)
  assume "sorted (map fst evs)"
  then have inv: "srv_inv delay evs (fold server_step evs (serve (ReadinessDelayServer delay)))" by (rule srv_inv_run [OF assms])
  then show "let s = fold server_step evs (serve (ReadinessDelayServer delay)); sigs = signal_times evs in
             \<forall>(t, sig) \<in> set (sv_exit_calls s). sigs \<noteq> [] \<and> (hd sigs + delay \<le> t \<or> 2 \<le> length sigs \<and> sigs ! 1 \<le> t)"
    unfolding srv_inv_def Let_def by (cases "signal_times evs = []") auto
next
  assume "signal_times pre = []"
  from idle_run [OF this] obtain h where
    h: "fold server_step pre (serve (ReadinessDelayServer delay)) = (serve (ReadinessDelayServer delay))\<lparr>sv_health := h\<rparr>" by blast
  let ?s = "loop_iteration a (handle_exit t sig ((serve (ReadinessDelayServer delay))\<lparr>sv_health := h\<rparr>))"
  have s: "sv_ready_callbacks ?s = []" "sv_exit_timer ?s = Some (a + delay, sig, False)" "sv_exit_calls ?s = []"
    using assms by (simp_all add: handle_exit_def loop_call_def serve_def ReadinessDelayServer_def loop_iteration_def arm_exit_timer_def)
  show "let s = fold server_step (pre @ (t, Signal sig) # iterations (a # later)) (serve (ReadinessDelayServer delay)) in
          sv_exit_calls s = (case dropWhile (\<lambda>b. b < a + delay) later of [] \<Rightarrow> [] | b # _ \<Rightarrow> [(b, sig)])"
    using armed_iterations [OF s, of later] by (simp add: h)
next
  assume asm: "signal_times pre = [] \<and> (\<forall>ev \<in> set post. \<not> replaces_health ev)"
  then obtain h where
    h: "fold server_step pre (serve (ReadinessDelayServer delay)) = (serve (ReadinessDelayServer delay))\<lparr>sv_health := h\<rparr>"
    using idle_run by blast
  let ?s = "handle_exit t sig ((serve (ReadinessDelayServer delay))\<lparr>sv_health := h\<rparr>)"
  have "hs_draining (sv_health ?s)" by (rule first_signal_drains) (simp add: serve_def ReadinessDelayServer_def)
  then have "hs_draining (sv_health (fold server_step post ?s))" using drains_on asm by blast
  then show "let s = fold server_step (pre @ (t, Signal sig) # post) (serve (ReadinessDelayServer delay)) in
          fst (readiness_route runs (sv_health s)) = 503"
    by (simp add: h readiness_route_def readiness_def)
qed

theorem server_drains_before_exit_witness:
  "sv_exit_calls (fold server_step ([(0, Started app_health)] @ (1, Signal 15) # iterations [2, 4, 8, 9])
     (serve (ReadinessDelayServer 5 :: unit server))) = [(8, 15)]"
  using server_drains_before_exit [of 5 "[]" "[(0, Started (app_health :: unit health_service))]" 1 15 2 "[4, 8, 9]" "[]" "\<lambda>_. (0, None)",
    THEN conjunct2, THEN conjunct1, THEN mp, unfolded Let_def] by simp

text \<open>
  A signal before the lifespan has started arms the exit timer, but the service that the lifespan then puts into \<open>app.state\<close> is not
  draining: the readiness route answers 200 while the timer runs.
\<close>

theorem signal_during_startup_forgotten:
  "let s = fold server_step [(0, Signal 15), (1, Iteration), (2, Started app_health), (3, Iteration)] (serve (ReadinessDelayServer 5 :: unit server)) in
   fst (readiness_route (\<lambda>_. (0, None)) (sv_health s)) = 200 \<and> sv_draining s \<and> sv_exit_timer s = Some (6, 15, False)"
  by code_simp

end
