(* ===== verification/Lifecycle.thy ===== *)
theory Lifecycle
  imports App_Settings Health Storage Webhooks Task_Service "HOL-Library.Sublist"
begin

text \<open>
  Bootstrap: the resources of a process, opened in order and closed in reverse
  (\<open>src/app/bootstrap/resources.py\<close>, \<open>addons\<close>, \<open>services.py\<close>, \<open>application.py\<close>, \<open>state.py\<close> and the assembly of the worker in
  \<open>worker.py\<close>, with the factories they call).

  A step changes the state of the bootstrap and may raise. The state holds the resources, the callbacks on the exit
  stack and the log of what was built and closed. What the constructors of other packages do (clients, engines, network
  connections) is the argument \<open>ext\<close>: whether a call raises. How closing a component ends is the argument \<open>close\<close>.
\<close>

section \<open>State\<close>

datatype component =
    Engine | RedisClient | QueueGateway | Telemetry | IdempotencyStore | CacheGateway | ObjectGateway | MongoGateway
  | QuotaService | OutboxStore | HttpClient | TaskStore

datatype ext_call =
    CreateEngine | NewRedis | OpenSqs | OpenRabbit | RequireOtel | BuildTelemetry | InstallGlobals | NewMongoClient
  | EnsureIndexes | OpenS3 | RequireLlamaIndex | BuildIndex | NewHttpClient | CompletionHandlerFactory | CompletionGuardsFactory
  | FlushClient

datatype cache_handle = MemoryCache mem_cache | RedisCache string seconds
datatype object_handle = MemoryObjects mem_objects | S3Objects
datatype limiter_handle = MemoryLimiter limiter | RedisLimiter string int int
datatype task_dispatcher = QueueTaskDispatcher | PostgresTaskOutboxDispatcher

record task_services =
  ta_service :: task_service_cfg
  ta_store :: string
  ta_dispatcher :: task_dispatcher

record resources =
  rs_completion_service :: "(seconds \<times> seconds \<times> bool) option"
  rs_engine :: bool
  rs_sessionmaker :: bool
  rs_redis :: bool
  rs_queue_gateway :: "string option"
  rs_tasks :: "task_services option"
  rs_cache :: "cache_handle option"
  rs_idempotency_store :: bool
  rs_objects :: "object_handle option"
  rs_mongo :: bool
  rs_quota :: "string option"
  rs_outbox_store :: bool
  rs_principal_rate_limiter :: "limiter_handle option"
  rs_ip_rate_limiter :: "limiter_handle option"
  rs_rag_service :: bool
  rs_webhook_signer :: "signer option"
  rs_webhook_dispatcher :: "(signer \<times> seconds) option"
  rs_telemetry :: bool
  rs_addons :: "string list"
  rs_health_checks :: "component health_checks"

definition ApplicationResources :: "seconds \<Rightarrow> resources" where
  "ApplicationResources timeout =
     \<lparr>rs_completion_service = None, rs_engine = False, rs_sessionmaker = False, rs_redis = False, rs_queue_gateway = None,
      rs_tasks = None, rs_cache = None, rs_idempotency_store = False, rs_objects = None, rs_mongo = False, rs_quota = None,
      rs_outbox_store = False, rs_principal_rate_limiter = None, rs_ip_rate_limiter = None, rs_rag_service = False,
      rs_webhook_signer = None, rs_webhook_dispatcher = None, rs_telemetry = False, rs_addons = [],
      rs_health_checks = \<lparr>hc_timeout_seconds = timeout, hc_checks = []\<rparr>\<rparr>"

datatype life_event = Built component | Closed component | Serving | BeginDraining | WaitIdle int | FlushLangfuse

record life =
  lf_resources :: resources
  lf_stack :: "component list"
  lf_log :: "life_event list"

type_synonym step = "life \<Rightarrow> exn option \<times> life"

definition skip :: step where "skip s = (None, s)"

definition seq :: "step \<Rightarrow> step \<Rightarrow> step" where
  "seq a b s = (case a s of (Some e, s') \<Rightarrow> (Some e, s') | (None, s') \<Rightarrow> b s')"

fun steps :: "step list \<Rightarrow> step" where
  "steps [] = skip"
| "steps (a # as) = seq a (steps as)"

definition upd :: "(resources \<Rightarrow> resources) \<Rightarrow> step" where
  "upd f s = (None, s\<lparr>lf_resources := f (lf_resources s)\<rparr>)"

definition built :: "component \<Rightarrow> step" where
  "built c s = (None, s\<lparr>lf_log := lf_log s @ [Built c]\<rparr>)"

definition push_async_callback :: "component \<Rightarrow> step" where
  "push_async_callback c s = (None, s\<lparr>lf_stack := c # lf_stack s\<rparr>)"

definition call_ext :: "(ext_call \<Rightarrow> exn option) \<Rightarrow> ext_call \<Rightarrow> step" where
  "call_ext ext c s = (ext c, s)"

definition construct :: "exn + 'a \<Rightarrow> ('a \<Rightarrow> step) \<Rightarrow> step" where
  "construct r k s = (case r of Inl e \<Rightarrow> (Some e, s) | Inr x \<Rightarrow> k x s)"

definition opened :: "(resources \<Rightarrow> bool) \<Rightarrow> string \<Rightarrow> step" where
  "opened present name s = (if present (lf_resources s) then (None, s) else (Some (RuntimeError (name @ '' is not open'')), s))"

definition register :: "string \<Rightarrow> component \<Rightarrow> step" where
  "register name c s = (case register_check name c (rs_health_checks (lf_resources s)) of
      Inl e \<Rightarrow> (Some e, s) | Inr h \<Rightarrow> (None, s\<lparr>lf_resources := (lf_resources s)\<lparr>rs_health_checks := h\<rparr>\<rparr>))"

section \<open>Core resources\<close>

definition open_database :: "(ext_call \<Rightarrow> exn option) \<Rightarrow> app_settings \<Rightarrow> step" where
  "open_database ext settings =
     (if \<not> DATABASE_ENABLED settings then skip
      else steps [call_ext ext CreateEngine, built Engine, push_async_callback Engine,
        upd (\<lambda>r. r\<lparr>rs_engine := True\<rparr>), upd (\<lambda>r. r\<lparr>rs_sessionmaker := True\<rparr>), register ''postgres'' Engine])"

definition open_redis :: "(ext_call \<Rightarrow> exn option) \<Rightarrow> app_settings \<Rightarrow> step" where
  "open_redis ext settings =
     (if \<not> REDIS_ENABLED settings then skip
      else steps [call_ext ext NewRedis, built RedisClient, push_async_callback RedisClient, upd (\<lambda>r. r\<lparr>rs_redis := True\<rparr>),
        register ''redis'' RedisClient])"

definition open_queue_gateway :: "(ext_call \<Rightarrow> exn option) \<Rightarrow> string \<Rightarrow> step" where
  "open_queue_gateway ext backend =
     (if backend = ''sqs'' then call_ext ext OpenSqs else if backend = ''rabbitmq'' then call_ext ext OpenRabbit else skip)"

definition open_queue :: "(ext_call \<Rightarrow> exn option) \<Rightarrow> app_settings \<Rightarrow> step" where
  "open_queue ext settings =
     (if \<not> QUEUE_ENABLED settings then skip
      else steps [if QUEUE_BACKEND settings = ''redis'' then opened rs_redis ''redis'' else open_queue_gateway ext (QUEUE_BACKEND settings),
        built QueueGateway, push_async_callback QueueGateway, upd (\<lambda>r. r\<lparr>rs_queue_gateway := Some (QUEUE_BACKEND settings)\<rparr>)])"

definition open_tasks :: "app_settings \<Rightarrow> step" where
  "open_tasks settings =
     (if \<not> TASKS_ENABLED settings then skip
      else steps
       [opened (\<lambda>r. rs_queue_gateway r \<noteq> None) ''queue gateway'',
        if TASK_STORE_BACKEND settings = ''postgres'' then opened rs_sessionmaker ''sessionmaker''
        else if TASK_STORE_BACKEND settings = ''redis'' then opened rs_redis ''redis'' else skip,
        built TaskStore, push_async_callback TaskStore,
        if TASKS_DISPATCH_BACKEND settings = ''outbox'' then opened rs_sessionmaker ''sessionmaker'' else skip,
        construct (TaskService (TASK_TTL_SECONDS settings) (TASKS_LEASE_SECONDS settings)) (\<lambda>service.
          upd (\<lambda>r. r\<lparr>rs_tasks := Some \<lparr>ta_service = service, ta_store = TASK_STORE_BACKEND settings,
            ta_dispatcher = (if TASKS_DISPATCH_BACKEND settings = ''outbox'' then PostgresTaskOutboxDispatcher else QueueTaskDispatcher)\<rparr>\<rparr>))])"

section \<open>Addons\<close>

record addon =
  ad_name :: string
  ad_is_enabled :: "app_settings \<Rightarrow> bool"
  ad_open :: "(ext_call \<Rightarrow> exn option) \<Rightarrow> app_settings \<Rightarrow> step"

definition TelemetryAddon :: addon where
  "TelemetryAddon = \<lparr>ad_name = ''telemetry'', ad_is_enabled = OTEL_ENABLED,
     ad_open = \<lambda>ext settings. steps [call_ext ext RequireOtel, call_ext ext BuildTelemetry, built Telemetry, call_ext ext InstallGlobals,
       push_async_callback Telemetry, upd (\<lambda>r. r\<lparr>rs_telemetry := True\<rparr>)]\<rparr>"

definition RedisRateLimiter :: "int \<Rightarrow> int \<Rightarrow> string \<Rightarrow> exn + limiter_handle" where
  "RedisRateLimiter limit window_seconds key_prefix =
     (if limit \<le> 0 then Inl (ValueError ''limit must be positive'')
      else if window_seconds \<le> 0 then Inl (ValueError ''window_seconds must be positive'')
      else Inr (RedisLimiter key_prefix limit window_seconds))"

definition build_limiter :: "app_settings \<Rightarrow> int \<Rightarrow> string \<Rightarrow> (limiter_handle \<Rightarrow> step) \<Rightarrow> step" where
  "build_limiter settings limit scope k =
     (if RATE_LIMIT_BACKEND settings = ''memory''
      then construct (InMemoryRateLimiter limit (RATE_LIMIT_WINDOW_SECONDS settings) DEFAULT_EVICTION_THRESHOLD) (\<lambda>l. k (MemoryLimiter l))
      else seq (opened rs_redis ''redis'')
        (construct (RedisRateLimiter limit (RATE_LIMIT_WINDOW_SECONDS settings) (RATE_LIMIT_REDIS_PREFIX settings @ '':'' @ scope)) k))"

definition RateLimitAddon :: addon where
  "RateLimitAddon = \<lparr>ad_name = ''rate_limit'', ad_is_enabled = RATE_LIMIT_ENABLED,
     ad_open = \<lambda>ext settings. steps
       [if RATE_LIMIT_PRINCIPAL_ENABLED settings
        then build_limiter settings (RATE_LIMIT_PRINCIPAL_PER_MINUTE settings) ''principal''
          (\<lambda>l. upd (\<lambda>r. r\<lparr>rs_principal_rate_limiter := Some l\<rparr>)) else skip,
        if RATE_LIMIT_IP_ENABLED settings
        then build_limiter settings (RATE_LIMIT_IP_PER_MINUTE settings) ''ip'' (\<lambda>l. upd (\<lambda>r. r\<lparr>rs_ip_rate_limiter := Some l\<rparr>)) else skip]\<rparr>"

definition IdempotencyAddon :: addon where
  "IdempotencyAddon = \<lparr>ad_name = ''idempotency'', ad_is_enabled = PLATFORM_IDEMPOTENCY_ENABLED,
     ad_open = \<lambda>ext settings. steps [opened rs_sessionmaker ''sessionmaker'', built IdempotencyStore,
       push_async_callback IdempotencyStore, upd (\<lambda>r. r\<lparr>rs_idempotency_store := True\<rparr>)]\<rparr>"

definition RedisCacheGateway :: "string \<Rightarrow> seconds \<Rightarrow> exn + cache_handle" where
  "RedisCacheGateway key_prefix ttl =
     (if ttl \<le> 0 then Inl (ValueError ''default_ttl_seconds must be positive'') else Inr (RedisCache key_prefix ttl))"

definition keep_cache :: "cache_handle \<Rightarrow> step" where
  "keep_cache c = steps [built CacheGateway, push_async_callback CacheGateway, upd (\<lambda>r. r\<lparr>rs_cache := Some c\<rparr>)]"

definition CacheAddon :: addon where
  "CacheAddon = \<lparr>ad_name = ''cache'', ad_is_enabled = CACHE_ENABLED,
     ad_open = \<lambda>ext settings.
       if CACHE_BACKEND settings = ''memory''
       then construct (MemoryCacheGateway (CACHE_PREFIX settings) (CACHE_DEFAULT_TTL_SECONDS settings)) (\<lambda>c. keep_cache (MemoryCache c))
       else seq (opened rs_redis ''redis'')
         (construct (RedisCacheGateway (CACHE_PREFIX settings) (CACHE_DEFAULT_TTL_SECONDS settings)) keep_cache)\<rparr>"

definition open_object_gateway :: "(ext_call \<Rightarrow> exn option) \<Rightarrow> app_settings \<Rightarrow> step" where
  "open_object_gateway ext settings = (if OBJECT_BACKEND settings = ''s3'' then call_ext ext OpenS3 else skip)"

definition ObjectAddon :: addon where
  "ObjectAddon = \<lparr>ad_name = ''objects'', ad_is_enabled = OBJECTS_ENABLED,
     ad_open = \<lambda>ext settings. steps [open_object_gateway ext settings, built ObjectGateway, push_async_callback ObjectGateway,
       upd (\<lambda>r. r\<lparr>rs_objects := Some (if OBJECT_BACKEND settings = ''s3'' then S3Objects
         else MemoryObjects (MemoryObjectGateway (OBJECT_PREFIX settings)))\<rparr>)]\<rparr>"

definition MongoAddon :: addon where
  "MongoAddon = \<lparr>ad_name = ''mongo'', ad_is_enabled = MONGO_ENABLED,
     ad_open = \<lambda>ext settings. steps [call_ext ext NewMongoClient, built MongoGateway, push_async_callback MongoGateway,
       upd (\<lambda>r. r\<lparr>rs_mongo := True\<rparr>), register ''mongo'' MongoGateway]\<rparr>"

definition QuotaAddon :: addon where
  "QuotaAddon = \<lparr>ad_name = ''quota'', ad_is_enabled = QUOTA_ENABLED,
     ad_open = \<lambda>ext settings. steps
       [if QUOTA_BACKEND settings = ''postgres'' then opened rs_sessionmaker ''sessionmaker''
        else if QUOTA_BACKEND settings = ''mongo'' then seq (opened rs_mongo ''mongo'') (call_ext ext EnsureIndexes) else skip,
        built QuotaService, push_async_callback QuotaService, upd (\<lambda>r. r\<lparr>rs_quota := Some (QUOTA_BACKEND settings)\<rparr>)]\<rparr>"

definition OutboxAddon :: addon where
  "OutboxAddon = \<lparr>ad_name = ''outbox'', ad_is_enabled = OUTBOX_ENABLED,
     ad_open = \<lambda>ext settings. steps [opened rs_sessionmaker ''sessionmaker'', built OutboxStore, push_async_callback OutboxStore,
       upd (\<lambda>r. r\<lparr>rs_outbox_store := True\<rparr>)]\<rparr>"

definition WebhookAddon :: addon where
  "WebhookAddon = \<lparr>ad_name = ''webhooks'', ad_is_enabled = WEBHOOKS_ENABLED,
     ad_open = \<lambda>ext settings.
       construct (WebhookSigner (WEBHOOK_SIGNING_SECRET settings) (WEBHOOK_TIMESTAMP_TOLERANCE_SECONDS settings)) (\<lambda>sg. steps
        [call_ext ext NewHttpClient, built HttpClient, push_async_callback HttpClient,
         construct (TimeoutPolicy (WEBHOOK_TIMEOUT_SECONDS settings)) (\<lambda>t.
           upd (\<lambda>r. r\<lparr>rs_webhook_signer := Some sg, rs_webhook_dispatcher := Some (sg, t)\<rparr>))])\<rparr>"

definition rag_not_implemented :: "string \<Rightarrow> exn" where
  "rag_not_implemented model = RuntimeError (''RAG_EMBED_MODEL='' @ repr_str model @
     '' not implemented. Extend build_embed_model() to wire your embedding provider.'')"

definition build_embed_model :: "(ext_call \<Rightarrow> exn option) \<Rightarrow> app_settings \<Rightarrow> step" where
  "build_embed_model ext settings = seq (call_ext ext RequireLlamaIndex)
     (if RAG_EMBED_MODEL settings = '''' then skip else (\<lambda>s. (Some (rag_not_implemented (RAG_EMBED_MODEL settings)), s)))"

definition build_rag_service :: "(ext_call \<Rightarrow> exn option) \<Rightarrow> app_settings \<Rightarrow> step" where
  "build_rag_service ext settings = steps [call_ext ext RequireLlamaIndex, build_embed_model ext settings,
     construct (TimeoutPolicy (RAG_RETRIEVE_TIMEOUT_SECONDS settings)) (\<lambda>_. call_ext ext BuildIndex)]"

definition RagAddon :: addon where
  "RagAddon = \<lparr>ad_name = ''rag'', ad_is_enabled = RAG_ENABLED,
     ad_open = \<lambda>ext settings. steps [build_rag_service ext settings, upd (\<lambda>r. r\<lparr>rs_rag_service := True\<rparr>)]\<rparr>"

definition default_resource_addons :: "addon list" where
  "default_resource_addons = [TelemetryAddon, RateLimitAddon, IdempotencyAddon, CacheAddon, ObjectAddon, MongoAddon, QuotaAddon,
     OutboxAddon, WebhookAddon, RagAddon]"

section \<open>Opening and closing\<close>

definition open_addon :: "(ext_call \<Rightarrow> exn option) \<Rightarrow> app_settings \<Rightarrow> addon \<Rightarrow> step" where
  "open_addon ext settings a =
     (if ad_is_enabled a settings
      then seq (ad_open a ext settings) (upd (\<lambda>r. r\<lparr>rs_addons := rs_addons r @ [ad_name a]\<rparr>)) else skip)"

definition open_all :: "(ext_call \<Rightarrow> exn option) \<Rightarrow> app_settings \<Rightarrow> bool \<Rightarrow> addon list \<Rightarrow> step" where
  "open_all ext settings init_resources addons = steps
     ((if init_resources then [open_database ext settings, open_redis ext settings, open_queue ext settings] else []) @
      map (open_addon ext settings) addons @
      (if init_resources then [open_tasks settings] else []))"

text \<open>Leaving an \<open>AsyncExitStack\<close>: every callback runs, the last pushed first; one that raises replaces the pending exception.\<close>

fun unwind :: "(component \<Rightarrow> exn option) \<Rightarrow> component list \<Rightarrow> exn option \<Rightarrow> exn option \<times> life_event list" where
  "unwind close [] pending = (pending, [])"
| "unwind close (c # cs) pending =
     (let (r, log') = unwind close cs (case close c of Some e \<Rightarrow> Some e | None \<Rightarrow> pending) in (r, Closed c # log'))"

definition initial_life :: "app_settings \<Rightarrow> life" where
  "initial_life settings = \<lparr>lf_resources = ApplicationResources (HEALTH_CHECK_TIMEOUT_SECONDS settings), lf_stack = [], lf_log = []\<rparr>"

definition open_application_resources ::
  "(ext_call \<Rightarrow> exn option) \<Rightarrow> (component \<Rightarrow> exn option) \<Rightarrow> app_settings \<Rightarrow> bool \<Rightarrow> addon list \<Rightarrow> step \<Rightarrow> exn option \<times> life_event list" where
  "open_application_resources ext close settings init_resources addons body =
     (let (r, s) = seq (open_all ext settings init_resources addons) body (initial_life settings);
          (r', log') = unwind close (lf_stack s) r in (r', lf_log s @ log'))"

definition compose_business_services :: "(ext_call \<Rightarrow> exn option) \<Rightarrow> app_settings \<Rightarrow> step" where
  "compose_business_services ext settings = steps [call_ext ext CompletionHandlerFactory, call_ext ext CompletionGuardsFactory,
     upd (\<lambda>r. r\<lparr>rs_completion_service :=
       Some (STREAM_FIRST_TOKEN_TIMEOUT_SECONDS settings, STREAM_IDLE_TIMEOUT_SECONDS settings, rs_telemetry r)\<rparr>)]"

definition open_runtime ::
  "(ext_call \<Rightarrow> exn option) \<Rightarrow> (component \<Rightarrow> exn option) \<Rightarrow> app_settings \<Rightarrow> bool \<Rightarrow> addon list \<Rightarrow> step \<Rightarrow> exn option \<times> life_event list" where
  "open_runtime ext close settings init_resources addons body =
     open_application_resources ext close settings init_resources addons (seq (compose_business_services ext settings) body)"

definition build_health_service :: "resources \<Rightarrow> bool \<Rightarrow> component health_service" where
  "build_health_service r init_resources = \<lparr>hs_check_external_dependencies = init_resources, hs_checks = hc_checks (rs_health_checks r),
     hs_check_timeout_seconds = hc_timeout_seconds (rs_health_checks r), hs_draining = False\<rparr>"

section \<open>The lifespan of the API\<close>

definition emit :: "life_event \<Rightarrow> step" where
  "emit ev s = (None, s\<lparr>lf_log := lf_log s @ [ev]\<rparr>)"

definition drain_in_flight :: "app_settings \<Rightarrow> step" where
  "drain_in_flight settings =
     (if GRACEFUL_SHUTDOWN_TIMEOUT_SECONDS settings \<le> 0 \<or> \<not> GRACEFUL_SHUTDOWN_ENABLED settings then skip
      else emit (WaitIdle (GRACEFUL_SHUTDOWN_TIMEOUT_SECONDS settings)))"

text \<open>\<open>served\<close>: how serving ends, by return or by an exception; the \<open>finally\<close> block runs either way.\<close>

definition shutdown :: "(ext_call \<Rightarrow> exn option) \<Rightarrow> app_settings \<Rightarrow> bool \<Rightarrow> step" where
  "shutdown ext settings init_resources = steps [emit BeginDraining, drain_in_flight settings,
     if init_resources \<and> LANGFUSE_ENABLED settings then seq (emit FlushLangfuse) (call_ext ext FlushClient) else skip]"

definition lifespan_body :: "(ext_call \<Rightarrow> exn option) \<Rightarrow> app_settings \<Rightarrow> bool \<Rightarrow> exn option \<Rightarrow> step" where
  "lifespan_body ext settings init_resources served s =
     (let (_, s') = emit Serving s; (e, s'') = shutdown ext settings init_resources s' in
      (case e of Some x \<Rightarrow> Some x | None \<Rightarrow> served, s''))"

definition lifespan ::
  "(ext_call \<Rightarrow> exn option) \<Rightarrow> (component \<Rightarrow> exn option) \<Rightarrow> app_settings \<Rightarrow> bool \<Rightarrow> addon list \<Rightarrow> exn option \<Rightarrow> exn option \<times> life_event list" where
  "lifespan ext close settings init_resources addons served =
     open_runtime ext close settings init_resources addons (lifespan_body ext settings init_resources served)"

section \<open>The worker process\<close>

definition validate_worker_runtime_settings :: "app_settings \<Rightarrow> exn + unit" where
  "validate_worker_runtime_settings settings =
     (if \<not> QUEUE_ENABLED settings then Inl (RuntimeError ''Worker requires QUEUE_ENABLED'')
      else if \<not> TASKS_ENABLED settings then Inl (RuntimeError ''Worker requires TASKS_ENABLED'') else Inr ())"

definition build_polling_worker :: "app_settings \<Rightarrow> exn + worker_cfg" where
  "build_polling_worker settings = AsyncPollingWorker
     \<lparr>wc_max_concurrent = WORKER_MAX_CONCURRENT settings, wc_max_attempts = WORKER_MAX_ATTEMPTS settings,
      wc_poll_interval_seconds = WORKER_POLL_INTERVAL_SECONDS settings, wc_receive_batch_size = WORKER_RECEIVE_BATCH_SIZE settings,
      wc_receive_wait_seconds = WORKER_RECEIVE_WAIT_SECONDS settings\<rparr>"

datatype background_loop =
    Relay seconds int
  | Reclaim seconds int int
  | Cleanup bool bool seconds int int

definition build_background_loops :: "app_settings \<Rightarrow> resources \<Rightarrow> exn + background_loop list" where
  "build_background_loops settings r =
     (let reclaim = Reclaim (TASKS_RECLAIM_INTERVAL_SECONDS settings) (TASKS_RECLAIM_BATCH_SIZE settings) (TASKS_MAX_ATTEMPTS settings);
          cleanup = Cleanup (rs_outbox_store r) (rs_idempotency_store r) (TASKS_CLEANUP_INTERVAL_SECONDS settings)
            (TASKS_CLEANUP_BATCH_SIZE settings) (OUTBOX_RETENTION_SECONDS settings) in
      if TASKS_DISPATCH_BACKEND settings = ''outbox''
      then (if rs_outbox_store r
            then Inr [Relay (TASKS_OUTBOX_RELAY_INTERVAL_SECONDS settings) (TASKS_OUTBOX_RELAY_BATCH_SIZE settings), reclaim, cleanup]
            else Inl (RuntimeError ''outbox store is not open''))
      else Inr [reclaim, cleanup])"

text \<open>\<open>run\<close>: how running the built worker and its loops ends.\<close>

definition worker_context ::
  "(ext_call \<Rightarrow> exn option) \<Rightarrow> (component \<Rightarrow> exn option) \<Rightarrow> app_settings \<Rightarrow> addon list \<Rightarrow>
   (worker_cfg \<Rightarrow> background_loop list \<Rightarrow> resources \<Rightarrow> exn option) \<Rightarrow> exn option \<times> life_event list" where
  "worker_context ext close settings addons run = (case validate_worker_runtime_settings settings of
      Inl e \<Rightarrow> (Some e, [])
    | Inr _ \<Rightarrow> open_runtime ext close settings True addons (steps
       [opened (\<lambda>r. rs_tasks r \<noteq> None) ''tasks'',
        construct (build_polling_worker settings) (\<lambda>w s.
          construct (build_background_loops settings (lf_resources s)) (\<lambda>loops s.
            (run w loops (lf_resources s), s\<lparr>lf_log := lf_log s @ [Serving]\<rparr>)) s)]))"

section \<open>Access from a request (bootstrap/state.py)\<close>

definition require :: "'a option \<Rightarrow> string \<Rightarrow> string \<Rightarrow> exn + 'a" where
  "require v code msg = (case v of None \<Rightarrow> Inl (AppError (ServiceUnavailableError (Some msg) (Some code) None)) | Some x \<Rightarrow> Inr x)"

definition get_quota_service :: "resources \<Rightarrow> exn + string" where
  "get_quota_service r = require (rs_quota r) ''quota_not_configured'' ''Quota service is not configured''"

definition get_mongo_gateway :: "resources \<Rightarrow> exn + unit" where
  "get_mongo_gateway r = require (if rs_mongo r then Some () else None) ''mongo_not_configured'' ''MongoDB is not configured''"

definition get_task_services :: "resources \<Rightarrow> exn + task_services" where
  "get_task_services r =
     require (rs_tasks r) ''task_service_not_configured'' ''Async task service is disabled or lifespan has not opened it''"

section \<open>Every resource is closed\<close>

text \<open>Up to the point where a step ends, everything built is on the exit stack, and nothing else has happened.\<close>

definition tidy :: "life \<Rightarrow> bool" where
  "tidy s \<longleftrightarrow> lf_log s = map Built (rev (lf_stack s))"

text \<open>A step that keeps this and builds components in the given order, each at most once.\<close>

definition builds :: "component list \<Rightarrow> step \<Rightarrow> bool" where
  "builds cs a \<longleftrightarrow> (\<forall>s. tidy s \<longrightarrow> tidy (snd (a s)) \<and> (\<exists>bs. lf_stack (snd (a s)) = rev bs @ lf_stack s \<and> subseq bs cs))"

lemma buildsI:
  "(\<And>s. tidy s \<Longrightarrow> tidy (snd (a s)) \<and> (\<exists>bs. lf_stack (snd (a s)) = rev bs @ lf_stack s \<and> subseq bs cs)) \<Longrightarrow> builds cs a"
  by (simp add: builds_def)

lemma builds_quiet: "(\<And>s. lf_log (snd (a s)) = lf_log s \<and> lf_stack (snd (a s)) = lf_stack s) \<Longrightarrow> builds [] a"
  by (rule buildsI) (auto simp: tidy_def)

lemma builds_skip: "builds [] skip"
  by (rule builds_quiet) (simp add: skip_def)

lemma builds_upd: "builds [] (upd f)"
  by (rule builds_quiet) (simp add: upd_def)

lemma builds_call: "builds [] (call_ext ext c)"
  by (rule builds_quiet) (simp add: call_ext_def)

lemma builds_opened: "builds [] (opened p n)"
  by (rule builds_quiet) (simp add: opened_def)

lemma builds_register: "builds [] (register n c)"
  by (rule builds_quiet) (simp add: register_def split: sum.split)

lemma builds_raise: "builds [] (\<lambda>s. (Some e, s))"
  by (rule builds_quiet) simp

lemma builds_seq: "builds cs a \<Longrightarrow> builds ds b \<Longrightarrow> builds (cs @ ds) (seq a b)"
proof (rule buildsI)
  fix s assume a: "builds cs a" and b: "builds ds b" and s: "tidy s"
  obtain e s' where run: "a s = (e, s')" by fastforce
  with a s obtain bs where s': "tidy s'" "lf_stack s' = rev bs @ lf_stack s" "subseq bs cs" unfolding builds_def by fastforce
  show "tidy (snd (seq a b s)) \<and> (\<exists>bs. lf_stack (snd (seq a b s)) = rev bs @ lf_stack s \<and> subseq bs (cs @ ds))"
  proof (cases e)
    case (Some x)
    then show ?thesis using run s' by (auto simp: seq_def intro!: exI [of _ bs] list_emb_append2 subseq_rev_drop_many)
  next
    case None
    from b s'(1) obtain bs' where "tidy (snd (b s'))" "lf_stack (snd (b s')) = rev bs' @ lf_stack s'" "subseq bs' ds"
      unfolding builds_def by blast
    then show ?thesis using run None s' by (auto simp: seq_def intro!: exI [of _ "bs @ bs'"] list_emb_append_mono)
  qed
qed

lemma builds_if: "builds cs a \<Longrightarrow> builds cs b \<Longrightarrow> builds cs (if P then a else b)"
  by simp

lemma builds_weaken: "builds [] a \<Longrightarrow> builds cs a"
  unfolding builds_def by (metis list_emb_Nil list_emb_Nil2)

lemma builds_construct: "(\<And>x. builds cs (k x)) \<Longrightarrow> builds cs (construct r k)"
  by (rule buildsI) (auto simp: construct_def builds_def split: sum.split intro: exI [of _ "[]"])

text \<open>A component goes onto the stack right after it is built.\<close>

lemma builds_kept: "builds cs b \<Longrightarrow> builds (c # cs) (seq (built c) (seq (push_async_callback c) b))"
proof (rule buildsI)
  fix s assume b: "builds cs b" and s: "tidy s"
  let ?s = "s\<lparr>lf_log := lf_log s @ [Built c], lf_stack := c # lf_stack s\<rparr>"
  have "tidy ?s" using s by (simp add: tidy_def)
  with b obtain bs where "tidy (snd (b ?s))" "lf_stack (snd (b ?s)) = rev bs @ lf_stack ?s" "subseq bs cs" unfolding builds_def by blast
  then show "tidy (snd (seq (built c) (seq (push_async_callback c) b) s)) \<and>
      (\<exists>bs. lf_stack (snd (seq (built c) (seq (push_async_callback c) b) s)) = rev bs @ lf_stack s \<and> subseq bs (c # cs))"
    by (auto simp: seq_def built_def push_async_callback_def intro!: exI [of _ "c # bs"])
qed

lemmas builds_rules =
  builds_skip builds_upd builds_call builds_opened builds_register builds_raise

text \<open>The order in which the bootstrap opens components.\<close>

definition opening_order :: "component list" where
  "opening_order = [Engine, RedisClient, QueueGateway, Telemetry, IdempotencyStore, CacheGateway, ObjectGateway, MongoGateway,
     QuotaService, OutboxStore, HttpClient, TaskStore]"

lemma builds_steps_quiet: "list_all (builds []) as \<Longrightarrow> builds [] (steps as)"
  by (induction as) (auto simp: builds_skip dest: builds_seq)

lemma builds_after: "builds [] a \<Longrightarrow> builds cs b \<Longrightarrow> builds cs (seq a b)"
  using builds_seq [of "[]" a cs b] by simp

lemma open_database_builds: "builds [Engine] (open_database ext settings)"
  unfolding open_database_def steps.simps
  by (intro builds_if builds_weaken [OF builds_skip] builds_after builds_kept builds_rules)

lemma open_redis_builds: "builds [RedisClient] (open_redis ext settings)"
  unfolding open_redis_def steps.simps
  by (intro builds_if builds_weaken [OF builds_skip] builds_after builds_kept builds_rules)

lemma open_queue_builds: "builds [QueueGateway] (open_queue ext settings)"
  unfolding open_queue_def open_queue_gateway_def steps.simps
  by (intro builds_if builds_weaken [OF builds_skip] builds_after builds_kept builds_rules)

lemma open_tasks_builds: "builds [TaskStore] (open_tasks settings)"
  unfolding open_tasks_def steps.simps
  by (intro builds_if builds_weaken [OF builds_skip] builds_after builds_kept builds_construct builds_rules)

lemma builds_after_addon: "builds cs (ad_open a ext settings) \<Longrightarrow> builds cs (open_addon ext settings a)"
  unfolding open_addon_def using builds_seq [OF _ builds_upd] by (auto intro: builds_weaken builds_skip)

text \<open>
  The telemetry addon builds its providers and registers their shutdown only after \<open>install_globals\<close>: a step that \<open>opens\<close> components ends
  like one that \<open>builds\<close> them, or (\<open>leak\<close>) it fails with the providers built and not registered.
\<close>

definition opens :: "bool \<Rightarrow> component list \<Rightarrow> step \<Rightarrow> bool" where
  "opens leak cs a \<longleftrightarrow> (\<forall>s. tidy s \<longrightarrow> (\<exists>bs left. lf_stack (snd (a s)) = rev bs @ lf_stack s \<and>
     lf_log (snd (a s)) = lf_log s @ map Built (bs @ left) \<and> subseq (bs @ left) cs \<and>
     (left = [] \<or> left = [Telemetry] \<and> leak \<and> fst (a s) \<noteq> None)))"

lemma builds_opens: "builds cs a \<Longrightarrow> opens leak cs a"
proof (unfold opens_def, intro allI impI)
  fix s assume "builds cs a" and s: "tidy s"
  then obtain bs where bs: "tidy (snd (a s))" "lf_stack (snd (a s)) = rev bs @ lf_stack s" "subseq bs cs" unfolding builds_def by blast
  moreover from this(1,2) s have "lf_log (snd (a s)) = lf_log s @ map Built bs" by (simp add: tidy_def)
  ultimately show "\<exists>bs left. lf_stack (snd (a s)) = rev bs @ lf_stack s \<and> lf_log (snd (a s)) = lf_log s @ map Built (bs @ left) \<and>
      subseq (bs @ left) cs \<and> (left = [] \<or> left = [Telemetry] \<and> leak \<and> fst (a s) \<noteq> None)"
    by (intro exI [of _ bs] exI [of _ "[]"]) simp
qed

lemma opens_seq: "opens leak cs a \<Longrightarrow> opens leak ds b \<Longrightarrow> opens leak (cs @ ds) (seq a b)"
proof (unfold opens_def [of _ "cs @ ds"], intro allI impI)
  fix s assume a: "opens leak cs a" and b: "opens leak ds b" and s: "tidy s"
  obtain e s' where run: "a s = (e, s')" by fastforce
  with a s obtain bs left where s': "lf_stack s' = rev bs @ lf_stack s" "lf_log s' = lf_log s @ map Built (bs @ left)"
    "subseq (bs @ left) cs" "left = [] \<or> left = [Telemetry] \<and> leak \<and> e \<noteq> None" unfolding opens_def by (metis fst_conv snd_conv)
  let ?Q = "\<lambda>bs left. lf_stack (snd (seq a b s)) = rev bs @ lf_stack s \<and> lf_log (snd (seq a b s)) = lf_log s @ map Built (bs @ left) \<and>
      subseq (bs @ left) (cs @ ds) \<and> (left = [] \<or> left = [Telemetry] \<and> leak \<and> fst (seq a b s) \<noteq> None)"
  have "\<exists>bs left. ?Q bs left"
  proof (cases e)
    case (Some x)
    have "subseq (bs @ left) (cs @ ds)" using s'(3) by (rule list_emb_prefix)
    with Some run s' have "?Q bs left" by (simp add: seq_def)
    then show ?thesis by blast
  next
    case None
    then have none: "left = []" using s'(4) by auto
    have "tidy s'" using s s'(1,2) none by (simp add: tidy_def)
    with b obtain bs' left' where t: "lf_stack (snd (b s')) = rev bs' @ lf_stack s'" "lf_log (snd (b s')) = lf_log s' @ map Built (bs' @ left')"
      "subseq (bs' @ left') ds" "left' = [] \<or> left' = [Telemetry] \<and> leak \<and> fst (b s') \<noteq> None" unfolding opens_def by blast
    have "subseq (bs @ bs' @ left') (cs @ ds)" using s'(3) t(3) none by (simp add: list_emb_append_mono)
    with None run s' t none have "?Q (bs @ bs') left'" by (simp add: seq_def)
    then show ?thesis by blast
  qed
  then show "\<exists>bs left. ?Q bs left" .
qed

lemma telemetry_opens: "opens (ext InstallGlobals \<noteq> None) [Telemetry] (ad_open TelemetryAddon ext settings)"
proof (cases "ext InstallGlobals")
  case None
  then have "seq (call_ext ext InstallGlobals) b = b" for b by (auto simp: seq_def call_ext_def)
  then have "builds [Telemetry] (ad_open TelemetryAddon ext settings)" unfolding TelemetryAddon_def steps.simps addon.select_convs
    by (simp only:) (intro builds_after builds_kept builds_rules)
  then show ?thesis by (rule builds_opens)
next
  case (Some e)
  let ?a = "steps [built Telemetry, call_ext ext InstallGlobals, push_async_callback Telemetry, upd (\<lambda>r. r\<lparr>rs_telemetry := True\<rparr>)]"
  have "opens True [Telemetry] ?a"
    unfolding opens_def by (intro allI impI exI [of _ "[]"] exI [of _ "[Telemetry]"]) (simp add: seq_def built_def call_ext_def Some)
  moreover have "opens True [] (call_ext ext c)" for c by (rule builds_opens [OF builds_call])
  ultimately have "opens True ([] @ [] @ [Telemetry]) (seq (call_ext ext RequireOtel) (seq (call_ext ext BuildTelemetry) ?a))"
    by (intro opens_seq)
  then show ?thesis by (simp add: TelemetryAddon_def Some)
qed

lemma limiter_builds: "(\<And>l. builds [] (k l)) \<Longrightarrow> builds [] (build_limiter settings limit scope k)"
  unfolding build_limiter_def by (intro builds_if builds_construct builds_after builds_opened)

lemma rate_limit_builds: "builds [] (ad_open RateLimitAddon ext settings)"
  unfolding RateLimitAddon_def addon.select_convs steps.simps
  by (intro builds_after builds_if limiter_builds builds_rules)

lemma idempotency_builds: "builds [IdempotencyStore] (ad_open IdempotencyAddon ext settings)"
  unfolding IdempotencyAddon_def addon.select_convs steps.simps by (intro builds_after builds_kept builds_rules)

lemma cache_builds: "builds [CacheGateway] (ad_open CacheAddon ext settings)"
  unfolding CacheAddon_def keep_cache_def addon.select_convs steps.simps
  by (intro builds_if builds_construct builds_after builds_kept builds_rules)

lemma object_builds: "builds [ObjectGateway] (ad_open ObjectAddon ext settings)"
  unfolding ObjectAddon_def open_object_gateway_def addon.select_convs steps.simps
  by (intro builds_after builds_kept builds_if builds_rules)

lemma mongo_builds: "builds [MongoGateway] (ad_open MongoAddon ext settings)"
  unfolding MongoAddon_def addon.select_convs steps.simps by (intro builds_after builds_kept builds_rules)

lemma quota_builds: "builds [QuotaService] (ad_open QuotaAddon ext settings)"
  unfolding QuotaAddon_def addon.select_convs steps.simps by (intro builds_after builds_kept builds_if builds_rules)

lemma outbox_builds: "builds [OutboxStore] (ad_open OutboxAddon ext settings)"
  unfolding OutboxAddon_def addon.select_convs steps.simps by (intro builds_after builds_kept builds_rules)

lemma webhook_builds: "builds [HttpClient] (ad_open WebhookAddon ext settings)"
  unfolding WebhookAddon_def addon.select_convs steps.simps by (intro builds_construct builds_after builds_kept builds_rules)

lemma rag_builds: "builds [] (ad_open RagAddon ext settings)"
  unfolding RagAddon_def build_rag_service_def build_embed_model_def addon.select_convs steps.simps
  by (intro builds_after builds_construct builds_if builds_rules)

lemmas addon_builds = rate_limit_builds idempotency_builds cache_builds object_builds mongo_builds
  quota_builds outbox_builds webhook_builds rag_builds

lemma builds_one: "builds [c] a \<Longrightarrow> builds cs (steps as) \<Longrightarrow> builds (c # cs) (steps (a # as))"
  using builds_seq [of "[c]" a cs "steps as"] by simp

lemma builds_none: "builds [] a \<Longrightarrow> builds cs (steps as) \<Longrightarrow> builds cs (steps (a # as))"
  using builds_after by simp

lemma opens_one: "opens leak [c] a \<Longrightarrow> opens leak cs (steps as) \<Longrightarrow> opens leak (c # cs) (steps (a # as))"
  using opens_seq [of leak "[c]" a cs "steps as"] by simp

lemma opens_after_addon: "opens leak cs (ad_open a ext settings) \<Longrightarrow> opens leak cs (open_addon ext settings a)"
proof (cases "ad_is_enabled a settings")
  case True
  assume "opens leak cs (ad_open a ext settings)"
  from opens_seq [OF this builds_opens [OF builds_upd]] True show ?thesis by (simp add: open_addon_def)
next
  case False
  then show ?thesis using builds_opens [OF builds_weaken [OF builds_skip]] by (simp add: open_addon_def)
qed

lemma opens_subseq: "opens leak cs a \<Longrightarrow> subseq cs ds \<Longrightarrow> opens leak ds a"
  unfolding opens_def by (meson subseq_order.order_trans)

lemma open_all_opens: "opens (ext InstallGlobals \<noteq> None) opening_order (open_all ext settings init_resources default_resource_addons)"
proof -
  let ?leak = "ext InstallGlobals \<noteq> None"
  have addons: "opens ?leak ([Telemetry, IdempotencyStore, CacheGateway, ObjectGateway, MongoGateway, QuotaService, OutboxStore, HttpClient] @ cs)
      (steps (map (open_addon ext settings) default_resource_addons @ as))" if "builds cs (steps as)" for cs as
    unfolding default_resource_addons_def list.map append.simps
    by (rule opens_one [OF opens_after_addon [OF telemetry_opens] builds_opens])
      (intro builds_one builds_none builds_after_addon addon_builds that)
  show ?thesis
  proof (cases init_resources)
    case True
    have "builds [TaskStore] (steps [open_tasks settings])" by (intro builds_one open_tasks_builds) (simp add: builds_skip)
    from addons [OF this] show ?thesis unfolding open_all_def opening_order_def using True
      by (simp del: steps.simps) (intro opens_one builds_opens [OF open_database_builds] builds_opens [OF open_redis_builds]
          builds_opens [OF open_queue_builds])
  next
    case False
    have "builds [] (steps [])" by (simp add: builds_skip)
    from addons [OF this]
    have "opens ?leak [Telemetry, IdempotencyStore, CacheGateway, ObjectGateway, MongoGateway, QuotaService, OutboxStore, HttpClient]
        (open_all ext settings init_resources default_resource_addons)" using False by (simp add: open_all_def)
    then show ?thesis by (rule opens_subseq) (simp add: opening_order_def)
  qed
qed

lemma unwind_log: "snd (unwind close cs pending) = map Closed cs"
  by (induction cs arbitrary: pending) (simp_all add: split_beta)

lemma unwind_result: "fst (unwind close cs pending) = None \<longleftrightarrow> pending = None \<and> (\<forall>c \<in> set cs. close c = None)"
  by (induction cs arbitrary: pending) (auto simp: split_beta split: option.splits)

lemma compose_builds: "builds [] (compose_business_services ext settings)"
  unfolding compose_business_services_def steps.simps by (intro builds_after builds_rules)

definition serving_events :: "app_settings \<Rightarrow> bool \<Rightarrow> life_event list" where
  "serving_events settings init_resources = [Serving, BeginDraining] @
     (if GRACEFUL_SHUTDOWN_TIMEOUT_SECONDS settings \<le> 0 \<or> \<not> GRACEFUL_SHUTDOWN_ENABLED settings then []
      else [WaitIdle (GRACEFUL_SHUTDOWN_TIMEOUT_SECONDS settings)]) @
     (if init_resources \<and> LANGFUSE_ENABLED settings then [FlushLangfuse] else [])"

lemma lifespan_body_effect:
  "lifespan_body ext settings init_resources served s =
     (case if init_resources \<and> LANGFUSE_ENABLED settings then ext FlushClient else None of Some x \<Rightarrow> Some x | None \<Rightarrow> served,
      s\<lparr>lf_log := lf_log s @ serving_events settings init_resources\<rparr>)"
  by (auto simp: lifespan_body_def shutdown_def drain_in_flight_def serving_events_def seq_def emit_def skip_def call_ext_def
      split: option.split)

definition startup :: "(ext_call \<Rightarrow> exn option) \<Rightarrow> app_settings \<Rightarrow> bool \<Rightarrow> exn option \<times> life" where
  "startup ext settings init_resources =
     seq (open_all ext settings init_resources default_resource_addons) (compose_business_services ext settings) (initial_life settings)"

lemma seq_assoc: "seq a (seq b c) s = seq (seq a b) c s"
  by (simp add: seq_def split: option.split prod.split)

lemma startup_built:
  obtains bs left where "lf_log (snd (startup ext settings init_resources)) = map Built (bs @ left)"
    "lf_stack (snd (startup ext settings init_resources)) = rev bs" "subseq (bs @ left) opening_order"
    "left = [] \<or> left = [Telemetry] \<and> ext InstallGlobals \<noteq> None \<and> fst (startup ext settings init_resources) \<noteq> None"
proof -
  let ?s = "startup ext settings init_resources"
  have "opens (ext InstallGlobals \<noteq> None) (opening_order @ [])
      (seq (open_all ext settings init_resources default_resource_addons) (compose_business_services ext settings))"
    by (intro opens_seq open_all_opens builds_opens [OF compose_builds])
  moreover have "tidy (initial_life settings)" "lf_stack (initial_life settings) = []" "lf_log (initial_life settings) = []"
    by (simp_all add: tidy_def initial_life_def)
  ultimately obtain bs left where "lf_stack (snd ?s) = rev bs" "lf_log (snd ?s) = map Built (bs @ left)" "subseq (bs @ left) opening_order"
    "left = [] \<or> left = [Telemetry] \<and> ext InstallGlobals \<noteq> None \<and> fst ?s \<noteq> None"
    unfolding opens_def startup_def by (metis append_Nil append_Nil2)
  with that show thesis by blast
qed

lemma runtime_run:
  "open_runtime ext close settings init_resources default_resource_addons body =
     (let (r, s) = startup ext settings init_resources; (r', s') = (case r of Some e \<Rightarrow> (Some e, s) | None \<Rightarrow> body s) in
      (fst (unwind close (lf_stack s') r'), lf_log s' @ map Closed (lf_stack s')))"
proof -
  have "seq (open_all ext settings init_resources default_resource_addons) (seq (compose_business_services ext settings) body)
      (initial_life settings) = (case startup ext settings init_resources of (Some e, s) \<Rightarrow> (Some e, s) | (None, s) \<Rightarrow> body s)"
    unfolding startup_def seq_assoc by (simp add: seq_def)
  then show ?thesis
    unfolding open_runtime_def open_application_resources_def by (simp add: split_beta unwind_log split: option.split)
qed

lemma opening_order_distinct: "subseq bs opening_order \<Longrightarrow> distinct bs"
  by (auto simp: subseq_conv_nths opening_order_def intro!: distinct_nthsI)

text \<open>
  C38. The lifespan of the API closes what it opened. Whatever fails while it starts, serves or stops, the components that were built are
  closed exactly once, in the reverse order of opening, after the probe was switched to draining and the requests in flight were awaited;
  the lifespan ends without an exception exactly when opening, serving and every close did. One component can be left open: the telemetry
  providers (\<open>left\<close>), when \<open>install_globals\<close> fails after they were built and before their shutdown is registered.
\<close>

theorem lifespan_closes_in_reverse:
  "\<exists>bs left mid. snd (lifespan ext close settings init_resources default_resource_addons served) =
      map Built (bs @ left) @ mid @ map Closed (rev bs) \<and>
    distinct (bs @ left) \<and> subseq (bs @ left) opening_order \<and> (mid = [] \<or> mid = serving_events settings init_resources) \<and>
    (left = [] \<or> left = [Telemetry] \<and> ext InstallGlobals \<noteq> None \<and> mid = []) \<and>
    (fst (lifespan ext close settings init_resources default_resource_addons served) = None \<longleftrightarrow>
      mid \<noteq> [] \<and> served = None \<and> (init_resources \<and> LANGFUSE_ENABLED settings \<longrightarrow> ext FlushClient = None) \<and>
      (\<forall>c \<in> set bs. close c = None))"
proof -
  obtain bs left where bs: "lf_log (snd (startup ext settings init_resources)) = map Built (bs @ left)"
    "lf_stack (snd (startup ext settings init_resources)) = rev bs" "subseq (bs @ left) opening_order"
    "left = [] \<or> left = [Telemetry] \<and> ext InstallGlobals \<noteq> None \<and> fst (startup ext settings init_resources) \<noteq> None"
    using startup_built .
  obtain r s where run: "startup ext settings init_resources = (r, s)" by fastforce
  show ?thesis
  proof (cases r)
    case None
    with bs(4) run have none: "left = []" by auto
    from None have "lifespan ext close settings init_resources default_resource_addons served =
        (fst (unwind close (rev bs) (case if init_resources \<and> LANGFUSE_ENABLED settings then ext FlushClient else None of Some x \<Rightarrow> Some x | None \<Rightarrow> served)),
         map Built bs @ serving_events settings init_resources @ map Closed (rev bs))"
      using bs run none by (simp add: lifespan_def runtime_run lifespan_body_effect)
    moreover have "serving_events settings init_resources \<noteq> []" by (simp add: serving_events_def)
    ultimately show ?thesis
      using bs(3) opening_order_distinct [OF bs(3)] none
      by (intro exI [of _ bs] exI [of _ "[]"] exI [of _ "serving_events settings init_resources"]) (auto simp: unwind_result split: option.splits)
  next
    case (Some e)
    then have "lifespan ext close settings init_resources default_resource_addons served =
        (fst (unwind close (rev bs) (Some e)), map Built (bs @ left) @ [] @ map Closed (rev bs))"
      using bs run by (simp add: lifespan_def runtime_run)
    then show ?thesis
      using bs(3,4) opening_order_distinct [OF bs(3)] by (intro exI [of _ bs] exI [of _ left] exI [of _ "[]"]) (auto simp: unwind_result)
  qed
qed

theorem lifespan_closes_in_reverse_witness:
  "\<exists>bs left mid. snd (lifespan (\<lambda>c. if c = OpenS3 then Some TimeoutError else None) (\<lambda>_. None) full_settings True default_resource_addons None) =
    map Built (bs @ left) @ mid @ map Closed (rev bs) \<and> distinct bs \<and> left = []"
proof -
  from lifespan_closes_in_reverse [of "\<lambda>c. if c = OpenS3 then Some TimeoutError else None" "\<lambda>_. None" full_settings True None]
  obtain bs left mid where "snd (lifespan (\<lambda>c. if c = OpenS3 then Some TimeoutError else None) (\<lambda>_. None) full_settings True default_resource_addons None) =
    map Built (bs @ left) @ mid @ map Closed (rev bs)" "distinct (bs @ left)" "left = []" by auto
  then show ?thesis by (intro exI [of _ bs] exI [of _ left] exI [of _ mid]) simp
qed

section \<open>Valid settings open what they enable\<close>

text \<open>The errors that accepted settings leave: those of other packages, and an embedding model that is not implemented.\<close>

definition blamed :: "(ext_call \<Rightarrow> exn option) \<Rightarrow> app_settings \<Rightarrow> exn \<Rightarrow> bool" where
  "blamed ext settings e \<longleftrightarrow> (\<exists>c. ext c = Some e) \<or>
     RAG_ENABLED settings \<and> RAG_EMBED_MODEL settings \<noteq> '''' \<and> e = rag_not_implemented (RAG_EMBED_MODEL settings)"

text \<open>From resources that satisfy \<open>pre\<close>, the step ends with a blamed error or changes the resources by \<open>g\<close>.\<close>

definition yields :: "(exn \<Rightarrow> bool) \<Rightarrow> (resources \<Rightarrow> bool) \<Rightarrow> step \<Rightarrow> (resources \<Rightarrow> resources) \<Rightarrow> bool" where
  "yields blame pre a g \<longleftrightarrow> (\<forall>s. pre (lf_resources s) \<longrightarrow>
     (case a s of (Some e, s') \<Rightarrow> blame e | (None, s') \<Rightarrow> lf_resources s' = g (lf_resources s)))"

lemma yields_seq:
  "yields bl P a g \<Longrightarrow> yields bl Q b h \<Longrightarrow> (\<And>r. P r \<Longrightarrow> Q (g r)) \<Longrightarrow> yields bl P (seq a b) (\<lambda>r. h (g r))"
proof (unfold yields_def, intro allI impI)
  fix s :: life
  assume a: "\<forall>s. P (lf_resources s) \<longrightarrow> (case a s of (Some e, s') \<Rightarrow> bl e | (None, s') \<Rightarrow> lf_resources s' = g (lf_resources s))"
    and b: "\<forall>s. Q (lf_resources s) \<longrightarrow> (case b s of (Some e, s') \<Rightarrow> bl e | (None, s') \<Rightarrow> lf_resources s' = h (lf_resources s))"
    and step: "\<And>r. P r \<Longrightarrow> Q (g r)" and s: "P (lf_resources s)"
  obtain e s' where run: "a s = (e, s')" by fastforce
  show "case seq a b s of (Some e, s') \<Rightarrow> bl e | (None, s') \<Rightarrow> lf_resources s' = h (g (lf_resources s))"
  proof (cases e)
    case None
    with a s run have "lf_resources s' = g (lf_resources s)" by fastforce
    with b [rule_format, of s'] step [OF s] show ?thesis using run None by (auto simp: seq_def split: prod.splits option.splits)
  next
    case (Some x)
    with a [rule_format, of s] s run show ?thesis by (simp add: seq_def)
  qed
qed

lemma yields_skip: "yields bl P skip (\<lambda>r. r)"
  by (simp add: yields_def skip_def)

lemma yields_weaken: "yields bl P a g \<Longrightarrow> (\<And>r. P' r \<Longrightarrow> P r \<and> g' r = g r) \<Longrightarrow> yields bl P' a g'"
proof (unfold yields_def, intro allI impI)
  fix s :: life
  assume a: "\<forall>s. P (lf_resources s) \<longrightarrow> (case a s of (Some e, s') \<Rightarrow> bl e | (None, s') \<Rightarrow> lf_resources s' = g (lf_resources s))"
    and imp: "\<And>r. P' r \<Longrightarrow> P r \<and> g' r = g r" and "P' (lf_resources s)"
  then have "P (lf_resources s)" "g' (lf_resources s) = g (lf_resources s)" by auto
  with a [rule_format, of s] show "case a s of (Some e, s') \<Rightarrow> bl e | (None, s') \<Rightarrow> lf_resources s' = g' (lf_resources s)"
    by (auto split: prod.splits option.splits)
qed

text \<open>Assertions between the steps of a list.\<close>

definition leads :: "(exn \<Rightarrow> bool) \<Rightarrow> (resources \<Rightarrow> bool) \<Rightarrow> step \<Rightarrow> (resources \<Rightarrow> bool) \<Rightarrow> bool" where
  "leads blame pre a post \<longleftrightarrow> (\<forall>s. pre (lf_resources s) \<longrightarrow>
     (case a s of (Some e, s') \<Rightarrow> blame e | (None, s') \<Rightarrow> post (lf_resources s')))"

lemma yields_leads: "yields bl P a g \<Longrightarrow> (\<And>r. I r \<Longrightarrow> P r \<and> J (g r)) \<Longrightarrow> leads bl I a J"
  unfolding yields_def leads_def by (fastforce split: prod.splits option.splits)

lemma leads_steps:
  "(\<And>i. i < length as \<Longrightarrow> leads bl (I (k + i)) (as ! i) (I (k + Suc i))) \<Longrightarrow> leads bl (I k) (steps as) (I (k + length as))"
proof (induction as arbitrary: k)
  case Nil
  show ?case by (simp add: leads_def skip_def)
next
  case (Cons a as)
  have first: "leads bl (I k) a (I (Suc k))" using Cons.prems [of 0] by simp
  have rest: "leads bl (I (Suc k)) (steps as) (I (Suc k + length as))"
    by (rule Cons.IH) (use Cons.prems [of "Suc _"] in simp)
  show ?case unfolding leads_def
  proof (intro allI impI)
    fix s :: life assume s: "I k (lf_resources s)"
    obtain e s' where run: "a s = (e, s')" by fastforce
    show "case steps (a # as) s of (Some e, s') \<Rightarrow> bl e | (None, s') \<Rightarrow> I (k + length (a # as)) (lf_resources s')"
      using first [unfolded leads_def, rule_format, OF s] rest [unfolded leads_def, rule_format, of s'] run
      by (cases e) (auto simp: seq_def split: prod.splits option.splits)
  qed
qed

lemmas step_defs = seq_def skip_def upd_def built_def push_async_callback_def call_ext_def construct_def opened_def register_def

definition add_check :: "bool \<Rightarrow> string \<Rightarrow> component \<Rightarrow> resources \<Rightarrow> resources" where
  "add_check b n c r = r\<lparr>rs_health_checks := (rs_health_checks r)\<lparr>hc_checks := hc_checks (rs_health_checks r) @ (if b then [(n, c)] else [])\<rparr>\<rparr>"

definition add_name :: "addon \<Rightarrow> app_settings \<Rightarrow> resources \<Rightarrow> resources" where
  "add_name a settings r = r\<lparr>rs_addons := rs_addons r @ (if ad_is_enabled a settings then [ad_name a] else [])\<rparr>"

abbreviation free :: "string \<Rightarrow> resources \<Rightarrow> bool" where
  "free n r \<equiv> n \<notin> fst ` set (hc_checks (rs_health_checks r))"

lemma add_check_fresh:
  "free n r \<Longrightarrow> register_check n c (rs_health_checks r) =
     Inr ((rs_health_checks r)\<lparr>hc_checks := hc_checks (rs_health_checks r) @ [(n, c)]\<rparr>)"
  by (auto simp: register_check_def dict_set_fresh map_of_eq_None_iff)

lemma blamed_ext: "ext c = Some e \<Longrightarrow> blamed ext settings e"
  by (auto simp: blamed_def)

lemma open_database_yields:
  "yields (blamed ext settings) (free ''postgres'') (open_database ext settings)
     (\<lambda>r. add_check (DATABASE_ENABLED settings) ''postgres'' Engine
        (r\<lparr>rs_engine := rs_engine r \<or> DATABASE_ENABLED settings, rs_sessionmaker := rs_sessionmaker r \<or> DATABASE_ENABLED settings\<rparr>))"
  by (auto simp: yields_def open_database_def step_defs add_check_def add_check_fresh dest: blamed_ext split: option.split)

lemma open_redis_yields:
  "yields (blamed ext settings) (free ''redis'') (open_redis ext settings)
     (\<lambda>r. add_check (REDIS_ENABLED settings) ''redis'' RedisClient (r\<lparr>rs_redis := rs_redis r \<or> REDIS_ENABLED settings\<rparr>))"
  by (auto simp: yields_def open_redis_def step_defs add_check_def add_check_fresh dest: blamed_ext split: option.split)

lemma open_queue_yields:
  "yields (blamed ext settings) (\<lambda>r. QUEUE_ENABLED settings \<and> QUEUE_BACKEND settings = ''redis'' \<longrightarrow> rs_redis r) (open_queue ext settings)
     (\<lambda>r. r\<lparr>rs_queue_gateway := if QUEUE_ENABLED settings then Some (QUEUE_BACKEND settings) else rs_queue_gateway r\<rparr>)"
  by (auto simp: yields_def open_queue_def open_queue_gateway_def step_defs dest: blamed_ext split: option.split)

definition task_group :: "app_settings \<Rightarrow> task_services" where
  "task_group settings = \<lparr>ta_service = \<lparr>ts_ttl_seconds = TASK_TTL_SECONDS settings, ts_lease_seconds = TASKS_LEASE_SECONDS settings\<rparr>,
     ta_store = TASK_STORE_BACKEND settings,
     ta_dispatcher = (if TASKS_DISPATCH_BACKEND settings = ''outbox'' then PostgresTaskOutboxDispatcher else QueueTaskDispatcher)\<rparr>"

lemma open_tasks_yields:
  assumes "task_fields_ok settings"
  shows "yields bl (\<lambda>r. TASKS_ENABLED settings \<longrightarrow> rs_queue_gateway r \<noteq> None \<and>
        (TASK_STORE_BACKEND settings = ''postgres'' \<or> TASKS_DISPATCH_BACKEND settings = ''outbox'' \<longrightarrow> rs_sessionmaker r) \<and>
        (TASK_STORE_BACKEND settings = ''redis'' \<longrightarrow> rs_redis r)) (open_tasks settings)
     (\<lambda>r. r\<lparr>rs_tasks := if TASKS_ENABLED settings then Some (task_group settings) else rs_tasks r\<rparr>)"
proof -
  have "TaskService (TASK_TTL_SECONDS settings) (TASKS_LEASE_SECONDS settings) =
      Inr \<lparr>ts_ttl_seconds = TASK_TTL_SECONDS settings, ts_lease_seconds = TASKS_LEASE_SECONDS settings\<rparr>"
    using assms by (simp add: task_fields_ok_def TaskService_def)
  then show ?thesis by (auto simp: yields_def open_tasks_def step_defs task_group_def)
qed

lemma addon_yields:
  assumes "ad_is_enabled a settings \<Longrightarrow> yields bl P (ad_open a ext settings) g"
  shows "yields bl (\<lambda>r. ad_is_enabled a settings \<longrightarrow> P r) (open_addon ext settings a) (\<lambda>r. add_name a settings (if ad_is_enabled a settings then g r else r))"
proof (cases "ad_is_enabled a settings")
  case True
  then have open_addon: "open_addon ext settings a = seq (ad_open a ext settings) (upd (add_name a settings))"
    by (simp add: open_addon_def add_name_def [abs_def])
  show ?thesis unfolding open_addon yields_def
  proof (intro allI impI)
    fix s :: life assume "ad_is_enabled a settings \<longrightarrow> P (lf_resources s)"
    with assms [OF True] True have "case ad_open a ext settings s of (Some e, s') \<Rightarrow> bl e | (None, s') \<Rightarrow> lf_resources s' = g (lf_resources s)"
      by (simp add: yields_def)
    then show "case seq (ad_open a ext settings) (upd (add_name a settings)) s of (Some e, s') \<Rightarrow> bl e
        | (None, s') \<Rightarrow> lf_resources s' = add_name a settings (if ad_is_enabled a settings then g (lf_resources s) else lf_resources s)"
      using True by (auto simp: seq_def upd_def split: prod.splits option.splits)
  qed
next
  case False
  then show ?thesis by (simp add: open_addon_def add_name_def yields_skip)
qed

lemma telemetry_yields: "yields (blamed ext settings) P (ad_open TelemetryAddon ext settings) (\<lambda>r. r\<lparr>rs_telemetry := True\<rparr>)"
  by (auto simp: yields_def TelemetryAddon_def step_defs dest: blamed_ext split: option.split)

definition limiter_of :: "app_settings \<Rightarrow> int \<Rightarrow> string \<Rightarrow> limiter_handle" where
  "limiter_of settings limit scope =
     (if RATE_LIMIT_BACKEND settings = ''memory''
      then MemoryLimiter \<lparr>rl_limit = limit, rl_window_seconds = RATE_LIMIT_WINDOW_SECONDS settings,
             rl_eviction_threshold = DEFAULT_EVICTION_THRESHOLD, rl_counts = []\<rparr>
      else RedisLimiter (RATE_LIMIT_REDIS_PREFIX settings @ '':'' @ scope) limit (RATE_LIMIT_WINDOW_SECONDS settings))"

lemma build_limiter_eq:
  assumes "0 < limit" "0 < RATE_LIMIT_WINDOW_SECONDS settings" "RATE_LIMIT_BACKEND settings = ''redis'' \<longrightarrow> rs_redis (lf_resources s)"
    "RATE_LIMIT_BACKEND settings \<in> {''memory'', ''redis''}"
  shows "build_limiter settings limit scope k s = k (limiter_of settings limit scope) s"
  using assms by (auto simp: build_limiter_def step_defs InMemoryRateLimiter_def RedisRateLimiter_def limiter_of_def DEFAULT_EVICTION_THRESHOLD_def)

lemma rate_limit_yields:
  assumes "platform_fields_ok settings"
  shows "yields bl (\<lambda>r. RATE_LIMIT_BACKEND settings = ''redis'' \<longrightarrow> rs_redis r) (ad_open RateLimitAddon ext settings)
    (\<lambda>r. r\<lparr>rs_principal_rate_limiter := if RATE_LIMIT_PRINCIPAL_ENABLED settings
          then Some (limiter_of settings (RATE_LIMIT_PRINCIPAL_PER_MINUTE settings) ''principal'') else rs_principal_rate_limiter r,
        rs_ip_rate_limiter := if RATE_LIMIT_IP_ENABLED settings
          then Some (limiter_of settings (RATE_LIMIT_IP_PER_MINUTE settings) ''ip'') else rs_ip_rate_limiter r\<rparr>)"
proof -
  have ok: "0 < RATE_LIMIT_PRINCIPAL_PER_MINUTE settings" "0 < RATE_LIMIT_IP_PER_MINUTE settings"
    "0 < RATE_LIMIT_WINDOW_SECONDS settings" "RATE_LIMIT_BACKEND settings \<in> {''memory'', ''redis''}"
    using assms by (auto simp: platform_fields_ok_def)
  note limiter = build_limiter_eq [OF ok(1,3) _ ok(4)] build_limiter_eq [OF ok(2,3) _ ok(4)]
  show ?thesis by (auto simp: yields_def RateLimitAddon_def seq_def skip_def upd_def limiter)
qed

lemma idempotency_yields:
  "yields bl rs_sessionmaker (ad_open IdempotencyAddon ext settings) (\<lambda>r. r\<lparr>rs_idempotency_store := True\<rparr>)"
  by (auto simp: yields_def IdempotencyAddon_def step_defs)

lemma cache_yields:
  assumes "platform_fields_ok settings"
  shows "yields bl (\<lambda>r. CACHE_BACKEND settings = ''redis'' \<longrightarrow> rs_redis r) (ad_open CacheAddon ext settings)
    (\<lambda>r. r\<lparr>rs_cache := Some (if CACHE_BACKEND settings = ''memory''
       then MemoryCache \<lparr>mc_prefix = CACHE_PREFIX settings, mc_default_ttl_seconds = CACHE_DEFAULT_TTL_SECONDS settings, mc_values = [], mc_closed = False\<rparr>
       else RedisCache (CACHE_PREFIX settings) (CACHE_DEFAULT_TTL_SECONDS settings))\<rparr>)"
  using assms
  by (auto simp: yields_def CacheAddon_def step_defs keep_cache_def MemoryCacheGateway_def RedisCacheGateway_def platform_fields_ok_def)

lemma object_yields:
  "yields (blamed ext settings) P (ad_open ObjectAddon ext settings)
    (\<lambda>r. r\<lparr>rs_objects := Some (if OBJECT_BACKEND settings = ''s3'' then S3Objects else MemoryObjects (MemoryObjectGateway (OBJECT_PREFIX settings)))\<rparr>)"
  by (auto simp: yields_def ObjectAddon_def open_object_gateway_def step_defs dest: blamed_ext split: option.split)

lemma mongo_yields:
  "yields (blamed ext settings) (free ''mongo'') (ad_open MongoAddon ext settings) (\<lambda>r. add_check True ''mongo'' MongoGateway (r\<lparr>rs_mongo := True\<rparr>))"
  by (auto simp: yields_def MongoAddon_def step_defs add_check_def add_check_fresh dest: blamed_ext split: option.split)

lemma quota_yields:
  "yields (blamed ext settings)
    (\<lambda>r. (QUOTA_BACKEND settings = ''postgres'' \<longrightarrow> rs_sessionmaker r) \<and> (QUOTA_BACKEND settings = ''mongo'' \<longrightarrow> rs_mongo r))
    (ad_open QuotaAddon ext settings) (\<lambda>r. r\<lparr>rs_quota := Some (QUOTA_BACKEND settings)\<rparr>)"
  by (auto simp: yields_def QuotaAddon_def step_defs dest: blamed_ext split: option.split)

lemma outbox_yields: "yields bl rs_sessionmaker (ad_open OutboxAddon ext settings) (\<lambda>r. r\<lparr>rs_outbox_store := True\<rparr>)"
  by (auto simp: yields_def OutboxAddon_def step_defs)

definition signer_of :: "app_settings \<Rightarrow> signer" where
  "signer_of settings = \<lparr>sg_secret = WEBHOOK_SIGNING_SECRET settings, sg_tolerance_seconds = WEBHOOK_TIMESTAMP_TOLERANCE_SECONDS settings\<rparr>"

lemma webhook_yields:
  assumes "delivery_fields_ok settings" "WEBHOOK_SIGNING_SECRET settings \<noteq> ''''"
  shows "yields (blamed ext settings) P (ad_open WebhookAddon ext settings)
    (\<lambda>r. r\<lparr>rs_webhook_signer := Some (signer_of settings), rs_webhook_dispatcher := Some (signer_of settings, WEBHOOK_TIMEOUT_SECONDS settings)\<rparr>)"
  using assms
  by (auto simp: yields_def WebhookAddon_def step_defs WebhookSigner_def TimeoutPolicy_def delivery_fields_ok_def signer_of_def
      dest: blamed_ext split: option.split)

lemma rag_yields:
  assumes "ai_fields_ok settings" "RAG_ENABLED settings"
  shows "yields (blamed ext settings) P (ad_open RagAddon ext settings) (\<lambda>r. r\<lparr>rs_rag_service := True\<rparr>)"
proof -
  have "blamed ext settings (rag_not_implemented (RAG_EMBED_MODEL settings))" if "RAG_EMBED_MODEL settings \<noteq> ''''"
    using that assms(2) by (simp add: blamed_def)
  then show ?thesis using assms(1)
    by (auto simp: yields_def RagAddon_def build_rag_service_def build_embed_model_def step_defs TimeoutPolicy_def ai_fields_ok_def
        dest: blamed_ext split: option.split)
qed

definition as_enabled :: "app_settings \<Rightarrow> resources \<Rightarrow> bool" where
  "as_enabled settings r \<longleftrightarrow>
     rs_engine r = DATABASE_ENABLED settings \<and> rs_sessionmaker r = DATABASE_ENABLED settings \<and> rs_redis r = REDIS_ENABLED settings \<and>
     rs_queue_gateway r = (if QUEUE_ENABLED settings then Some (QUEUE_BACKEND settings) else None) \<and>
     rs_tasks r = (if TASKS_ENABLED settings then Some (task_group settings) else None) \<and>
     (rs_cache r \<noteq> None) = CACHE_ENABLED settings \<and> rs_idempotency_store r = PLATFORM_IDEMPOTENCY_ENABLED settings \<and>
     (rs_objects r \<noteq> None) = OBJECTS_ENABLED settings \<and> rs_mongo r = MONGO_ENABLED settings \<and>
     rs_quota r = (if QUOTA_ENABLED settings then Some (QUOTA_BACKEND settings) else None) \<and> rs_outbox_store r = OUTBOX_ENABLED settings \<and>
     rs_principal_rate_limiter r = (if RATE_LIMIT_ENABLED settings \<and> RATE_LIMIT_PRINCIPAL_ENABLED settings
       then Some (limiter_of settings (RATE_LIMIT_PRINCIPAL_PER_MINUTE settings) ''principal'') else None) \<and>
     rs_ip_rate_limiter r = (if RATE_LIMIT_ENABLED settings \<and> RATE_LIMIT_IP_ENABLED settings
       then Some (limiter_of settings (RATE_LIMIT_IP_PER_MINUTE settings) ''ip'') else None) \<and>
     rs_rag_service r = RAG_ENABLED settings \<and>
     rs_webhook_signer r = (if WEBHOOKS_ENABLED settings then Some (signer_of settings) else None) \<and>
     rs_telemetry r = OTEL_ENABLED settings \<and>
     rs_addons r = map ad_name (filter (\<lambda>a. ad_is_enabled a settings) default_resource_addons) \<and>
     map fst (hc_checks (rs_health_checks r)) = (if DATABASE_ENABLED settings then [''postgres''] else []) @
       (if REDIS_ENABLED settings then [''redis''] else []) @ (if MONGO_ENABLED settings then [''mongo''] else [])"

lemma enabled_simps:
  "ad_is_enabled TelemetryAddon = OTEL_ENABLED" "ad_is_enabled RateLimitAddon = RATE_LIMIT_ENABLED"
  "ad_is_enabled IdempotencyAddon = PLATFORM_IDEMPOTENCY_ENABLED" "ad_is_enabled CacheAddon = CACHE_ENABLED"
  "ad_is_enabled ObjectAddon = OBJECTS_ENABLED" "ad_is_enabled MongoAddon = MONGO_ENABLED" "ad_is_enabled QuotaAddon = QUOTA_ENABLED"
  "ad_is_enabled OutboxAddon = OUTBOX_ENABLED" "ad_is_enabled WebhookAddon = WEBHOOKS_ENABLED" "ad_is_enabled RagAddon = RAG_ENABLED"
  by (simp_all add: TelemetryAddon_def RateLimitAddon_def IdempotencyAddon_def CacheAddon_def ObjectAddon_def MongoAddon_def
      QuotaAddon_def OutboxAddon_def WebhookAddon_def RagAddon_def)

text \<open>The same after the first \<open>n\<close> steps.\<close>

definition enabled_upto :: "app_settings \<Rightarrow> nat \<Rightarrow> resources \<Rightarrow> bool" where
  "enabled_upto settings n r \<longleftrightarrow>
     rs_engine r = (0 < n \<and> DATABASE_ENABLED settings) \<and> rs_sessionmaker r = (0 < n \<and> DATABASE_ENABLED settings) \<and>
     rs_redis r = (1 < n \<and> REDIS_ENABLED settings) \<and>
     rs_queue_gateway r = (if 2 < n \<and> QUEUE_ENABLED settings then Some (QUEUE_BACKEND settings) else None) \<and>
     rs_tasks r = (if 13 < n \<and> TASKS_ENABLED settings then Some (task_group settings) else None) \<and>
     (rs_cache r \<noteq> None) = (6 < n \<and> CACHE_ENABLED settings) \<and> rs_idempotency_store r = (5 < n \<and> PLATFORM_IDEMPOTENCY_ENABLED settings) \<and>
     (rs_objects r \<noteq> None) = (7 < n \<and> OBJECTS_ENABLED settings) \<and> rs_mongo r = (8 < n \<and> MONGO_ENABLED settings) \<and>
     rs_quota r = (if 9 < n \<and> QUOTA_ENABLED settings then Some (QUOTA_BACKEND settings) else None) \<and>
     rs_outbox_store r = (10 < n \<and> OUTBOX_ENABLED settings) \<and>
     rs_principal_rate_limiter r = (if 4 < n \<and> RATE_LIMIT_ENABLED settings \<and> RATE_LIMIT_PRINCIPAL_ENABLED settings
       then Some (limiter_of settings (RATE_LIMIT_PRINCIPAL_PER_MINUTE settings) ''principal'') else None) \<and>
     rs_ip_rate_limiter r = (if 4 < n \<and> RATE_LIMIT_ENABLED settings \<and> RATE_LIMIT_IP_ENABLED settings
       then Some (limiter_of settings (RATE_LIMIT_IP_PER_MINUTE settings) ''ip'') else None) \<and>
     rs_rag_service r = (12 < n \<and> RAG_ENABLED settings) \<and>
     rs_webhook_signer r = (if 11 < n \<and> WEBHOOKS_ENABLED settings then Some (signer_of settings) else None) \<and>
     rs_telemetry r = (3 < n \<and> OTEL_ENABLED settings) \<and>
     rs_addons r = map ad_name (filter (\<lambda>a. ad_is_enabled a settings) (take (n - 3) default_resource_addons)) \<and>
     map fst (hc_checks (rs_health_checks r)) = (if 0 < n \<and> DATABASE_ENABLED settings then [''postgres''] else []) @
       (if 1 < n \<and> REDIS_ENABLED settings then [''redis''] else []) @ (if 8 < n \<and> MONGO_ENABLED settings then [''mongo''] else [])"

lemma free_names: "map fst (hc_checks (rs_health_checks r)) = ns \<Longrightarrow> free n r \<longleftrightarrow> n \<notin> set ns"
  by (auto simp flip: set_map)

lemma open_all_steps:
  "open_all ext settings True default_resource_addons = steps
      [open_database ext settings, open_redis ext settings, open_queue ext settings, open_addon ext settings TelemetryAddon,
       open_addon ext settings RateLimitAddon, open_addon ext settings IdempotencyAddon, open_addon ext settings CacheAddon,
       open_addon ext settings ObjectAddon, open_addon ext settings MongoAddon, open_addon ext settings QuotaAddon,
       open_addon ext settings OutboxAddon, open_addon ext settings WebhookAddon, open_addon ext settings RagAddon, open_tasks settings]"
  by (simp add: open_all_def default_resource_addons_def del: steps.simps)

lemmas upto_simps = enabled_upto_def default_resource_addons_def enabled_simps add_name_def add_check_def

lemma opens_core:
  assumes "messaging_ok settings"
  shows "leads (blamed ext settings) (enabled_upto settings 0) (open_database ext settings) (enabled_upto settings 1)"
    "leads (blamed ext settings) (enabled_upto settings 1) (open_redis ext settings) (enabled_upto settings 2)"
    "leads (blamed ext settings) (enabled_upto settings 2) (open_queue ext settings) (enabled_upto settings 3)"
proof -
  show "leads (blamed ext settings) (enabled_upto settings 0) (open_database ext settings) (enabled_upto settings 1)"
    by (rule yields_leads [OF open_database_yields]) (auto simp: upto_simps)
  show "leads (blamed ext settings) (enabled_upto settings 1) (open_redis ext settings) (enabled_upto settings 2)"
  proof (rule yields_leads [OF open_redis_yields], intro conjI)
    fix r assume r: "enabled_upto settings 1 r"
    then have "map fst (hc_checks (rs_health_checks r)) = (if DATABASE_ENABLED settings then [''postgres''] else [])" by (simp add: upto_simps)
    then show "free ''redis'' r" by (simp add: free_names)
  qed (auto simp: upto_simps)
  show "leads (blamed ext settings) (enabled_upto settings 2) (open_queue ext settings) (enabled_upto settings 3)"
    by (rule yields_leads [OF open_queue_yields]) (use assms in \<open>auto simp: upto_simps messaging_ok_def\<close>)
qed

lemma addon_leads:
  assumes "ad_is_enabled a settings \<Longrightarrow> yields bl P (ad_open a ext settings) g"
    and "\<And>r. I r \<Longrightarrow> ad_is_enabled a settings \<Longrightarrow> P r \<and> J (add_name a settings (g r))"
    and "\<And>r. I r \<Longrightarrow> \<not> ad_is_enabled a settings \<Longrightarrow> J (add_name a settings r)"
  shows "leads bl I (open_addon ext settings a) J"
  by (rule yields_leads [OF addon_yields [OF assms(1)]]) (use assms(2,3) in auto)

lemma opens_addons:
  assumes "fields_ok settings" "messaging_ok settings" "platform_ok settings"
  shows "leads (blamed ext settings) (enabled_upto settings 3) (open_addon ext settings TelemetryAddon) (enabled_upto settings 4)"
    "leads (blamed ext settings) (enabled_upto settings 4) (open_addon ext settings RateLimitAddon) (enabled_upto settings 5)"
    "leads (blamed ext settings) (enabled_upto settings 5) (open_addon ext settings IdempotencyAddon) (enabled_upto settings 6)"
    "leads (blamed ext settings) (enabled_upto settings 6) (open_addon ext settings CacheAddon) (enabled_upto settings 7)"
    "leads (blamed ext settings) (enabled_upto settings 7) (open_addon ext settings ObjectAddon) (enabled_upto settings 8)"
    "leads (blamed ext settings) (enabled_upto settings 8) (open_addon ext settings MongoAddon) (enabled_upto settings 9)"
    "leads (blamed ext settings) (enabled_upto settings 9) (open_addon ext settings QuotaAddon) (enabled_upto settings 10)"
    "leads (blamed ext settings) (enabled_upto settings 10) (open_addon ext settings OutboxAddon) (enabled_upto settings 11)"
    "leads (blamed ext settings) (enabled_upto settings 11) (open_addon ext settings WebhookAddon) (enabled_upto settings 12)"
    "leads (blamed ext settings) (enabled_upto settings 12) (open_addon ext settings RagAddon) (enabled_upto settings 13)"
    "leads (blamed ext settings) (enabled_upto settings 13) (open_tasks settings) (enabled_upto settings 14)"
proof -
  have fields: "platform_fields_ok settings" "delivery_fields_ok settings" "ai_fields_ok settings" "task_fields_ok settings"
    using assms(1) by (simp_all add: fields_ok_def)
  note ok = assms(2,3) [unfolded messaging_ok_def platform_ok_def]
  show "leads (blamed ext settings) (enabled_upto settings 3) (open_addon ext settings TelemetryAddon) (enabled_upto settings 4)"
    by (rule addon_leads [OF telemetry_yields [where P = "\<lambda>_. True"]]) (auto simp: upto_simps)
  show "leads (blamed ext settings) (enabled_upto settings 4) (open_addon ext settings RateLimitAddon) (enabled_upto settings 5)"
    by (rule addon_leads [OF rate_limit_yields [OF fields(1)]]) (use ok in \<open>auto simp: upto_simps\<close>)
  show "leads (blamed ext settings) (enabled_upto settings 5) (open_addon ext settings IdempotencyAddon) (enabled_upto settings 6)"
    by (rule addon_leads [OF idempotency_yields]) (use ok fields(1) in \<open>auto simp: upto_simps platform_fields_ok_def\<close>)
  show "leads (blamed ext settings) (enabled_upto settings 6) (open_addon ext settings CacheAddon) (enabled_upto settings 7)"
    by (rule addon_leads [OF cache_yields [OF fields(1)]]) (use ok in \<open>auto simp: upto_simps\<close>)
  show "leads (blamed ext settings) (enabled_upto settings 7) (open_addon ext settings ObjectAddon) (enabled_upto settings 8)"
    by (rule addon_leads [OF object_yields [where P = "\<lambda>_. True"]]) (auto simp: upto_simps)
  show "leads (blamed ext settings) (enabled_upto settings 8) (open_addon ext settings MongoAddon) (enabled_upto settings 9)"
  proof (rule addon_leads [OF mongo_yields], intro conjI)
    fix r assume r: "enabled_upto settings 8 r"
    then have "map fst (hc_checks (rs_health_checks r)) = (if DATABASE_ENABLED settings then [''postgres''] else []) @
        (if REDIS_ENABLED settings then [''redis''] else [])" by (simp add: upto_simps)
    then show "free ''mongo'' r" by (simp add: free_names)
  qed (auto simp: upto_simps)
  show "leads (blamed ext settings) (enabled_upto settings 9) (open_addon ext settings QuotaAddon) (enabled_upto settings 10)"
    by (rule addon_leads [OF quota_yields]) (use ok in \<open>auto simp: upto_simps\<close>)
  show "leads (blamed ext settings) (enabled_upto settings 10) (open_addon ext settings OutboxAddon) (enabled_upto settings 11)"
    by (rule addon_leads [OF outbox_yields]) (use ok fields(2) in \<open>auto simp: upto_simps delivery_fields_ok_def\<close>)
  show "leads (blamed ext settings) (enabled_upto settings 11) (open_addon ext settings WebhookAddon) (enabled_upto settings 12)"
    by (rule addon_leads [OF webhook_yields [OF fields(2), where P = "\<lambda>_. True"]]) (use ok in \<open>auto simp: upto_simps\<close>)
  show "leads (blamed ext settings) (enabled_upto settings 12) (open_addon ext settings RagAddon) (enabled_upto settings 13)"
    by (rule addon_leads [OF rag_yields [OF fields(3), where P = "\<lambda>_. True"]]) (auto simp: upto_simps)
  show "leads (blamed ext settings) (enabled_upto settings 13) (open_tasks settings) (enabled_upto settings 14)"
    by (rule yields_leads [OF open_tasks_yields [OF fields(4)]]) (use ok in \<open>auto simp: upto_simps\<close>)
qed

text \<open>
  C39. Accepted settings open exactly what they enable: starting never finds a resource it needs closed, whatever backends are
  combined; it raises only what another package raised, or the error for an embedding model that is not implemented. When it succeeds, each
  resource, service and readiness check is there exactly when its feature is enabled, on the configured backend.
\<close>

theorem valid_settings_open:
  assumes "Settings sha256 s0 = Inr settings"
  shows "case open_all ext settings True default_resource_addons (initial_life settings) of
      (Some e, l) \<Rightarrow> blamed ext settings e | (None, l) \<Rightarrow> as_enabled settings (lf_resources l)"
proof -
  from assms have ok: "fields_ok settings" "messaging_ok settings" "platform_ok settings" by (auto simp: Settings_ok)
  let ?as = "[open_database ext settings, open_redis ext settings, open_queue ext settings, open_addon ext settings TelemetryAddon,
       open_addon ext settings RateLimitAddon, open_addon ext settings IdempotencyAddon, open_addon ext settings CacheAddon,
       open_addon ext settings ObjectAddon, open_addon ext settings MongoAddon, open_addon ext settings QuotaAddon,
       open_addon ext settings OutboxAddon, open_addon ext settings WebhookAddon, open_addon ext settings RagAddon, open_tasks settings]"
  have "leads (blamed ext settings) (enabled_upto settings i) (?as ! i) (enabled_upto settings (Suc i))" if "i < 14" for i
    using that opens_core [OF ok(2), of ext] opens_addons [OF ok, of ext]
    by (simp add: less_Suc_eq numeral_nat eval_nat_numeral) (elim disjE; simp)
  then have "leads (blamed ext settings) (enabled_upto settings 0) (steps ?as) (enabled_upto settings 14)"
    using leads_steps [of ?as "blamed ext settings" "enabled_upto settings" 0] by (simp add: eval_nat_numeral del: steps.simps)
  moreover have init: "enabled_upto settings 0 (lf_resources (initial_life settings))"
    by (simp add: enabled_upto_def initial_life_def ApplicationResources_def default_resource_addons_def)
  moreover have "enabled_upto settings 14 = as_enabled settings"
    by (simp add: fun_eq_iff enabled_upto_def as_enabled_def default_resource_addons_def)
  ultimately have "leads (blamed ext settings) (enabled_upto settings 0) (steps ?as) (as_enabled settings)" by (simp only:)
  from this [unfolded leads_def, rule_format, OF init] show ?thesis unfolding open_all_steps .
qed

theorem valid_settings_open_witness:
  "\<exists>l. open_all (\<lambda>_. None) full_settings True default_resource_addons (initial_life full_settings) = (None, l) \<and>
     rs_tasks (lf_resources l) = Some (task_group full_settings) \<and> rs_quota (lf_resources l) = Some ''mongo''"
proof -
  have flags: "TASKS_ENABLED full_settings" "QUOTA_ENABLED full_settings" "QUOTA_BACKEND full_settings = ''mongo''"
    "RAG_EMBED_MODEL full_settings = ''''" by (simp_all add: full_settings_def)
  obtain r l where run: "open_all (\<lambda>_. None) full_settings True default_resource_addons (initial_life full_settings) = (r, l)" by fastforce
  with valid_settings_open [OF full_settings_accepted, of "\<lambda>_. None"] flags(4) have "r = None" "as_enabled full_settings (lf_resources l)"
    by (auto simp: blamed_def split: option.splits)
  with run flags show ?thesis by (simp add: as_enabled_def)
qed

section \<open>The worker starts\<close>

lemma startup_enabled:
  assumes "Settings sha256 s0 = Inr settings" "\<And>c. ext c = None" "RAG_ENABLED settings \<longrightarrow> RAG_EMBED_MODEL settings = ''''"
  obtains l where "startup ext settings True = (None, l)" "as_enabled settings (lf_resources l)"
proof -
  obtain r l where run: "open_all ext settings True default_resource_addons (initial_life settings) = (r, l)" by fastforce
  with valid_settings_open [OF assms(1), of ext] assms(2,3) have "r = None" "as_enabled settings (lf_resources l)"
    by (auto simp: blamed_def split: option.splits)
  with that run show thesis
    by (simp add: startup_def seq_def compose_business_services_def step_defs assms(2) as_enabled_def)
qed

text \<open>
  A worker started from accepted settings with tasks enabled runs: when no call into another package fails, the worker and its
  background loops are built and run, with the relay of the outbox among them exactly when tasks are dispatched through the
  outbox; the process ends as the run ends. Without the queue or tasks it refuses before anything is opened.
\<close>

theorem worker_starts:
  assumes "Settings sha256 s0 = Inr settings" and "\<And>c. ext c = None" and "RAG_ENABLED settings \<longrightarrow> RAG_EMBED_MODEL settings = ''''"
  shows "(TASKS_ENABLED settings \<longrightarrow> (\<exists>w loops r. build_polling_worker settings = Inr w \<and> as_enabled settings r \<and>
            fst (worker_context ext (\<lambda>_. None) settings default_resource_addons run) = run w loops r \<and>
            loops = (if TASKS_DISPATCH_BACKEND settings = ''outbox''
              then [Relay (TASKS_OUTBOX_RELAY_INTERVAL_SECONDS settings) (TASKS_OUTBOX_RELAY_BATCH_SIZE settings)] else []) @
             [Reclaim (TASKS_RECLAIM_INTERVAL_SECONDS settings) (TASKS_RECLAIM_BATCH_SIZE settings) (TASKS_MAX_ATTEMPTS settings),
              Cleanup (OUTBOX_ENABLED settings) (PLATFORM_IDEMPOTENCY_ENABLED settings) (TASKS_CLEANUP_INTERVAL_SECONDS settings)
                (TASKS_CLEANUP_BATCH_SIZE settings) (OUTBOX_RETENTION_SECONDS settings)])) \<and>
         (\<not> TASKS_ENABLED settings \<longrightarrow> (\<exists>e. worker_context ext (\<lambda>_. None) settings default_resource_addons run = (Some e, [])))"
proof -
  from assms(1) have ok: "fields_ok settings" "messaging_ok settings" by (auto simp: Settings_ok)
  obtain l where l: "startup ext settings True = (None, l)" "as_enabled settings (lf_resources l)"
    using startup_enabled [OF assms] .
  obtain w where w: "build_polling_worker settings = Inr w"
    using ok(1) by (simp add: fields_ok_def worker_fields_ok_def build_polling_worker_def AsyncPollingWorker_def)
  have unwound: "fst (unwind (\<lambda>_. None) cs p) = p" for cs p by (induction cs arbitrary: p) (simp_all add: split_beta)
  show ?thesis
  proof (cases "TASKS_ENABLED settings")
    case False
    then show ?thesis by (simp add: worker_context_def validate_worker_runtime_settings_def)
  next
    case True
    with ok(2) have q: "QUEUE_ENABLED settings" "TASKS_DISPATCH_BACKEND settings = ''outbox'' \<longrightarrow> OUTBOX_ENABLED settings"
      by (auto simp: messaging_ok_def)
    have "rs_outbox_store (lf_resources l) = OUTBOX_ENABLED settings" using l(2) by (simp add: as_enabled_def)
    then obtain loops where loops: "build_background_loops settings (lf_resources l) = Inr loops"
      using q(2) by (cases "TASKS_DISPATCH_BACKEND settings = ''outbox''") (simp_all add: build_background_loops_def Let_def)
    have "rs_tasks (lf_resources l) \<noteq> None" using l(2) True by (simp add: as_enabled_def)
    then have "fst (worker_context ext (\<lambda>_. None) settings default_resource_addons run) = run w loops (lf_resources l)"
      using True q(1) l(1) w loops
      by (simp add: worker_context_def validate_worker_runtime_settings_def runtime_run step_defs unwound split: option.splits)
    moreover note loops [unfolded build_background_loops_def Let_def]
    ultimately show ?thesis using w l(2) True q(2)
      by (intro conjI impI exI [of _ w] exI [of _ loops] exI [of _ "lf_resources l"]) (auto simp: as_enabled_def split: if_splits)
  qed
qed

theorem worker_starts_witness:
  "fst (worker_context (\<lambda>_. None) (\<lambda>_. None) full_settings default_resource_addons
     (\<lambda>_ loops _. if length loops = 3 then Some TimeoutError else None)) = Some TimeoutError"
proof -
  have flags: "TASKS_ENABLED full_settings" "TASKS_DISPATCH_BACKEND full_settings = ''outbox''" "RAG_EMBED_MODEL full_settings = ''''"
    by (simp_all add: full_settings_def)
  show ?thesis
    using worker_starts [OF full_settings_accepted, of "\<lambda>_. None" "\<lambda>_ loops _. if length loops = 3 then Some TimeoutError else None"] flags
    by auto
qed

end
