(* ===== verification/Spec2Isabelle.thy ===== *)
theory Spec2Isabelle
  imports Storage_Remote API Queue_Rabbit Rate_Limit_Redis Quota_Service Quota_Mongo Webhooks Task_Outbox LLM Completions Middleware Storage Content Evals Lifecycle
begin

text \<open>
  Verification of the AI platform template (\<open>src/app\<close>): the services behind its HTTP API, the background worker and the way
  both are put together.

  \<^bold>\<open>The program.\<close> A request enters through the middleware stack (\<open>core/middleware.py\<close>, \<open>bootstrap/middleware.py\<close>), is
  authenticated and rate limited (\<open>modules/platform/identity\<close>, \<open>rate_limit\<close>), may be made idempotent (\<open>idempotency\<close>) and
  charged to a quota (\<open>quota\<close>), and reaches the completion service (\<open>modules/business/completions\<close>), which calls language
  models through a router with circuit breakers and failover (\<open>modules/ai/llm\<close>, \<open>core/resilience.py\<close>). Long work becomes a
  task (\<open>modules/messaging/tasks\<close>): the task and an outbox event are stored in one transaction, a relay puts the event on a
  queue, a worker takes messages from the queue, claims the task under a lease and settles it (\<open>bootstrap/worker.py\<close>). Webhooks
  are sent from the same outbox. Settings, health, start-up and shut-down are in \<open>core/config\<close>, \<open>core/health.py\<close>, \<open>serve.py\<close> and
  \<open>bootstrap\<close>. Backends (memory, Postgres, Mongo, Redis, SQS, RabbitMQ, S3) are exchangeable behind protocol classes.

  \<^bold>\<open>How code becomes definitions.\<close> A class with state is a record and each method a function from state to result and state;
  an exception is a value \<open>Inl e\<close> of \<open>exn + 'a\<close> (\<open>Errors\<close>); clock readings, random numbers and fresh ids are arguments; a
  protocol class is a record of methods, and what its clients rely on is a locale, interpreted on each adapter. Packages that are
  not part of the repository are arguments, with named assumptions where a theorem needs their documented behaviour. Coroutines
  that interleave are trees of atomic commands (\<open>Interleaving\<close>) or step relations (\<open>Queue\<close>); ASGI applications are
  interaction trees (\<open>ASGI\<close>).

  \<^bold>\<open>Shared theories.\<close>
  \<^item> \<open>Prelude\<close>: dictionaries, time, JSON values, \<open>str\<close> of integers, and the generic lemmas. \<open>Py_Strings\<close>, \<open>Py_Regex\<close>,
    \<open>Py_Datetime\<close>: the parts of Python's \<open>str\<close>, \<open>re\<close> and \<open>datetime\<close> that the code uses.
  \<^item> \<open>Errors\<close> (\<open>core/errors.py\<close>): exceptions, the error envelope and the exception handlers.
  \<^item> \<open>SQL\<close>, \<open>Keyed_Table\<close>: the statements of the Postgres adapters and tables read as maps. \<open>Interleaving\<close>: coroutines on a shared
    server, and the rule by which a coroutine that keeps an invariant at each await, with the tokens it holds, keeps it under every
    schedule.

  \<^bold>\<open>Components and what is shown.\<close>
  \<^item> \<open>Resilience\<close> (\<open>core/resilience.py\<close>): retry decisions are sound and bounded; a breaker that is not closed admits one probe per
    cooldown and is never stuck. \<open>LLM\<close> (\<open>ai/llm/router.py\<close>, \<open>runtime.py\<close>): failover walks the chain in order, skips
    exactly the routes whose breaker is open, goes on after exactly the errors that allow it while time remains, and reports each
    outcome to the breaker of its route.
  \<^item> \<open>Rate_Limit\<close>, \<open>Rate_Limit_Redis\<close> (\<open>rate_limit/service.py\<close>): the in-memory limiter refines the sliding-window specification over
    the full history; the Redis script makes the same decisions.
  \<^item> \<open>Quota\<close>, \<open>Quota_Memory\<close>, \<open>Quota_Postgres\<close>, \<open>Quota_Mongo\<close>, \<open>Quota_Service\<close> (\<open>quota\<close>): the abstract ledger; memory and Postgres
    stores decide as the ledger does (the usage snapshots of repeated calls differ, \<open>usage_snapshots_differ\<close>); no limit is passed;
    on Mongo, where nothing is transactional, the account holds under every interleaving of calls of one window in which no
    reservation is refunded while it is still being made (\<open>early_refund_undercounts\<close> shows that one).
  \<^item> \<open>Idempotency\<close> (\<open>idempotency\<close>): completion is fenced by the claim token and stored responses are replayed.
  \<^item> \<open>Queue\<close>, \<open>Tasks\<close>, \<open>Tasks_Memory\<close>, \<open>Tasks_Postgres\<close>, \<open>Task_Service\<close> (\<open>messaging/queue\<close>, \<open>messaging/tasks\<close>): no message is lost
    or duplicated by the worker; a live lease excludes a second claim, and only settling or purging the task changes it; reclaim
    leaves none stuck; a redelivered task is not run again.
  \<^item> \<open>Queue_Streams\<close>, \<open>Queue_SQS\<close>, \<open>Queue_Rabbit\<close> (\<open>messaging/queue/adapters\<close>): under every interleaving of the consumers' calls no
    message is lost; in Redis streams a dead-lettered entry stays until as many others were added as the dead stream keeps.
  \<^item> \<open>Tasks_Redis\<close> (\<open>tasks/adapters/redis.py\<close>): a task is read back from its text, and claims are exclusive although the key is
    watched, read and written in separate calls. \<open>API\<close> (\<open>api\<close>): validation errors, pagination and the task routes; a submitted
    task is read by its owner only.
  \<^item> \<open>Outbox\<close>, \<open>Webhooks\<close>, \<open>Task_Outbox\<close> (\<open>messaging/outbox\<close>, \<open>webhooks\<close>, \<open>tasks/outbox.py\<close>, \<open>tasks/relay.py\<close>): claims are disjoint,
    rounds settle what they claim, submission is atomic, a submitted task reaches the open queue in a round
    whose limit covers the due events, cleanup terminates; signatures bind payload and time.
  \<^item> \<open>Completions\<close> (\<open>business/completions\<close>, \<open>api/sse.py\<close>, \<open>core/telemetry.py\<close>): a result is given exactly when the guards pass on it,
    a stream that was started is observed once with its outcome, events are read back as sent.
  \<^item> \<open>Identity\<close> (\<open>identity/auth.py\<close>, \<open>core/config/platform.py\<close>), \<open>ASGI\<close>, \<open>Middleware\<close>: exact authentication; body limit, client
    address, in-flight count, request ids and one response per request for the whole installed stack.
  \<^item> \<open>Storage\<close> (\<open>cache\<close>, \<open>objects\<close> in memory), \<open>Storage_Remote\<close> (Redis and S3), \<open>Redaction\<close> (\<open>core/redaction.py\<close>), \<open>Content\<close>
    (\<open>audit\<close>, \<open>ai/rag\<close>), \<open>Evals\<close> (\<open>ai/evals\<close>): the Redis cache is exactly a map with expiry, and the memory cache is one up to the number of keys a deletion
    reports; S3 and memory objects agree; redacted values leak nothing (keys are kept); untrusted text stays wrapped.
  \<^item> \<open>App_Settings\<close> (\<open>core/config\<close>), \<open>Health\<close> (\<open>core/health.py\<close>, \<open>serve.py\<close>), \<open>Lifecycle\<close> (\<open>bootstrap\<close>): accepted settings are safe
    and always open; what the API lifespan opened is closed in reverse (all but the telemetry providers when installing them fails);
    readiness is exact; the server drains before it exits, and once it has started it reports not ready from a signal on. A signal
    during start-up is forgotten by the readiness route, because start-up replaces the health service the signal has marked.

  \<^bold>\<open>Bounds and fuel.\<close> Numbers are unbounded as in Python; floating-point numbers are exact rationals; text is ASCII, or UTF-8
  bytes where said. Loops that may run for ever are \<open>partial_function (option)\<close> or step relations, and their termination is proved
  where the code promises it. Fuel occurs in \<open>Tasks_Redis\<close> only: \<open>transition\<close> takes a number of attempts and SCAN a number of
  rounds, because their loops end only when other clients leave them alone; \<open>None\<close> is a loop that has not returned yet.

  \<^bold>\<open>Not modelled.\<close> Schema migrations (DDL), scripts, logging, the exporters of OpenTelemetry and Langfuse, construction of
  database and HTTP clients, registration of routes with FastAPI: they call other packages or do I/O only. The waiting of background
  loops between rounds, and rounding of floating-point arithmetic, are left out.
\<close>

end
